(* ===== verification/Tasvir_Prelude.thy ===== *)
theory Tasvir_Prelude
  imports Main "HOL-Library.Word"
begin

text \<open>
  Shared vocabulary of the development: the machine-integer types of the code, the processor
  intrinsics it calls (\<open>__builtin_clz\<close>, \<open>_lzcnt_u64\<close>, \<open>_tzcnt_u32\<close>, \<open>_pext_u64\<close>), the theorem
  collections the component theories fill, and generic facts on lists and words.
\<close>

unbundle bit_operations_syntax

type_synonym u8 = "8 word"
type_synonym u16 = "16 word"
type_synonym u32 = "32 word"
type_synonym u64 = "64 word"
type_synonym addr = u64

named_theorems layout_simps

section \<open>Processor intrinsics\<close>

text \<open>The number of zeros above the highest set bit among the \<open>n\<close> low bits of a word.\<close>

fun clz_upto :: "nat \<Rightarrow> 'a::len word \<Rightarrow> nat" where
  "clz_upto 0 w = 0"
| "clz_upto (Suc n) w = (if bit w n then 0 else Suc (clz_upto n w))"

definition builtin_clz :: "u32 \<Rightarrow> nat" where
  "builtin_clz x = clz_upto 32 x"

definition lzcnt_u64 :: "u64 \<Rightarrow> nat" where
  "lzcnt_u64 x = clz_upto 64 x"

text \<open>The number of zeros below the lowest set bit, among the bits from \<open>k\<close> on; \<open>n\<close> bits are left.\<close>

fun ctz_from :: "nat \<Rightarrow> nat \<Rightarrow> 'a::len word \<Rightarrow> nat" where
  "ctz_from 0 k w = 0"
| "ctz_from (Suc n) k w = (if bit w k then 0 else Suc (ctz_from n (Suc k) w))"

definition tzcnt_u32 :: "u32 \<Rightarrow> nat" where
  "tzcnt_u32 x = ctz_from 32 0 x"

text \<open>\<open>_pext_u64\<close> packs the bits of \<open>src\<close> at the set positions of \<open>m\<close> into the low bits.\<close>

definition pext_u64 :: "u64 \<Rightarrow> u64 \<Rightarrow> u64" where
  "pext_u64 src m = horner_sum of_bool 2 (map (bit src) (filter (bit m) [0..<64]))"

section \<open>Generic facts\<close>

lemma filter_upt_range:
  "k \<le> n \<Longrightarrow> n \<le> N \<Longrightarrow> filter (\<lambda>i. k \<le> i \<and> i < n) [0..<N] = [k..<n]"
proof (induction N arbitrary: n)
  case 0
  then show ?case by simp
next
  case (Suc N)
  show ?case
  proof (cases "n = Suc N")
    case True
    have "filter (\<lambda>i. k \<le> i \<and> i < Suc N) [0..<N] = filter (\<lambda>i. k \<le> i \<and> i < N) [0..<N]"
      by (rule filter_cong) auto
    then show ?thesis
      using True Suc.prems Suc.IH [of N] by (cases "k = Suc N") auto
  next
    case False
    then show ?thesis using Suc by simp
  qed
qed

lemma map_bit_upt_drop: "map (bit w) [k..<n] = map (bit (drop_bit k w)) [0..<n - k]"
  by (rule nth_equalityI) (auto simp: bit_drop_bit_eq)

lemma pext_u64_range:
  assumes "k \<le> n" "n \<le> 64" "\<And>i. i < 64 \<Longrightarrow> bit m i \<longleftrightarrow> k \<le> i \<and> i < n"
  shows "pext_u64 src m = take_bit (n - k) (drop_bit k src)"
proof -
  have "filter (bit m) [0..<64] = filter (\<lambda>i. k \<le> i \<and> i < n) [0..<64]"
    using assms(3) by (intro filter_cong) auto
  also have "\<dots> = [k..<n]" using assms by (intro filter_upt_range) auto
  finally show ?thesis
    unfolding pext_u64_def
    by (simp only: map_bit_upt_drop [of src k n] horner_sum_bit_eq_take_bit)
qed

lemma clz_upto_le: "clz_upto n w \<le> n"
  by (induction n) auto

lemma clz_upto_zero: "i < clz_upto n w \<Longrightarrow> \<not> bit w (n - Suc i)"
proof (induction n arbitrary: i)
  case (Suc n)
  then show ?case by (cases i) (auto split: if_splits)
qed simp

lemma clz_upto_one: "clz_upto n w < n \<Longrightarrow> bit w (n - Suc (clz_upto n w))"
  by (induction n) (auto split: if_splits)

end
