(* ===== verification/Tasvir_Layout.thy ===== *)
theory Tasvir_Layout
  imports Tasvir_Prelude
begin

text \<open>
  The constants and the address map of \<open>include/tasvir/defs.h\<close>, the address translations of
  \<open>src/utils.h\<close>, and the page mappings that \<open>tasvir_init_local\<close> and \<open>tasvir_update_va\<close> install.
\<close>

section \<open>Constants\<close>

definition tasvir_log2 :: "u32 \<Rightarrow> nat" where
  "tasvir_log2 x = 31 - builtin_clz (x OR 1)"

definition TASVIR_CACHELINE_BYTES :: nat where "TASVIR_CACHELINE_BYTES = 64"
definition TASVIR_LOG_GRANULARITY_BYTES :: nat where "TASVIR_LOG_GRANULARITY_BYTES = 64"
definition TASVIR_LOG_UNIT_BITS :: nat where "TASVIR_LOG_UNIT_BITS = 64"
definition CHAR_BIT :: nat where "CHAR_BIT = 8"

definition TASVIR_SHIFT_BIT :: nat where
  "TASVIR_SHIFT_BIT = tasvir_log2 (of_nat TASVIR_LOG_GRANULARITY_BYTES)"
definition TASVIR_SHIFT_BYTE :: nat where
  "TASVIR_SHIFT_BYTE = TASVIR_SHIFT_BIT + tasvir_log2 (of_nat CHAR_BIT)"
definition TASVIR_SHIFT_UNIT :: nat where
  "TASVIR_SHIFT_UNIT = TASVIR_SHIFT_BYTE + tasvir_log2 (of_nat (TASVIR_LOG_UNIT_BITS div CHAR_BIT))"

definition TASVIR_ALIGNMENT :: u64 where
  "TASVIR_ALIGNMENT = 8 * push_bit TASVIR_SHIFT_UNIT 1"
definition TASVIR_ALIGNX :: "u64 \<Rightarrow> u64 \<Rightarrow> u64" where
  "TASVIR_ALIGNX x a = (x + a - 1) AND NOT (a - 1)"
definition TASVIR_ALIGN :: "u64 \<Rightarrow> u64" where
  "TASVIR_ALIGN x = TASVIR_ALIGNX x TASVIR_ALIGNMENT"

definition TASVIR_SIZE_DATA :: u64 where
  "TASVIR_SIZE_DATA = TASVIR_ALIGN (push_bit 40 1)"
definition TASVIR_SIZE_LOG :: u64 where
  "TASVIR_SIZE_LOG = TASVIR_ALIGN (drop_bit TASVIR_SHIFT_BYTE TASVIR_SIZE_DATA)"
definition TASVIR_SIZE_LOCAL :: u64 where
  "TASVIR_SIZE_LOCAL = TASVIR_ALIGN (push_bit 30 1)"

definition TASVIR_ALIGN_DATA :: "u64 \<Rightarrow> u64" where
  "TASVIR_ALIGN_DATA x = TASVIR_ALIGNX x TASVIR_SIZE_DATA"

definition TASVIR_ADDR_BASE :: u64 where "TASVIR_ADDR_BASE = TASVIR_ALIGN_DATA TASVIR_SIZE_DATA"
definition TASVIR_ADDR_DATA :: u64 where "TASVIR_ADDR_DATA = TASVIR_ADDR_BASE"
definition TASVIR_ADDR_LOG :: u64 where "TASVIR_ADDR_LOG = TASVIR_ADDR_DATA + 2 * TASVIR_SIZE_DATA"
definition TASVIR_ADDR_LOCAL :: u64 where "TASVIR_ADDR_LOCAL = TASVIR_ADDR_LOG + TASVIR_SIZE_LOG"
definition TASVIR_ADDR_END :: u64 where "TASVIR_ADDR_END = TASVIR_ADDR_LOCAL + TASVIR_SIZE_LOCAL"
definition TASVIR_ADDR_DATA_RO :: u64 where "TASVIR_ADDR_DATA_RO = TASVIR_ALIGN_DATA TASVIR_ADDR_END"
definition TASVIR_ADDR_DATA_RW :: u64 where
  "TASVIR_ADDR_DATA_RW = TASVIR_ADDR_DATA_RO + TASVIR_SIZE_DATA"
definition TASVIR_ADDR_DPDK :: u64 where
  "TASVIR_ADDR_DPDK = TASVIR_ADDR_DATA_RW + TASVIR_SIZE_DATA + 4 * push_bit 30 1"
definition TASVIR_SIZE_MAP :: u64 where "TASVIR_SIZE_MAP = TASVIR_ADDR_END - TASVIR_ADDR_BASE"
definition TASVIR_OFFSET_RO :: u64 where "TASVIR_OFFSET_RO = TASVIR_ADDR_DATA_RO - TASVIR_ADDR_DATA"
definition TASVIR_OFFSET_RW :: u64 where "TASVIR_OFFSET_RW = TASVIR_ADDR_DATA_RW - TASVIR_ADDR_DATA"
definition TASVIR_OFFSET_RO2RW :: u64 where
  "TASVIR_OFFSET_RO2RW = TASVIR_ADDR_DATA_RW - TASVIR_ADDR_DATA_RO"

lemma shift_consts [layout_simps]:
  "TASVIR_SHIFT_BIT = 6" "TASVIR_SHIFT_BYTE = 9" "TASVIR_SHIFT_UNIT = 12"
  by code_simp+

lemma region_sizes [layout_simps]:
  "TASVIR_ALIGNMENT = 0x8000" "TASVIR_SIZE_DATA = 0x10000000000"
  "TASVIR_SIZE_LOG = 0x80000000" "TASVIR_SIZE_LOCAL = 0x40000000"
proof -
  show al: "TASVIR_ALIGNMENT = 0x8000"
    by (simp add: TASVIR_ALIGNMENT_def shift_consts push_bit_eq_mult)
  show sd: "TASVIR_SIZE_DATA = 0x10000000000"
    unfolding TASVIR_SIZE_DATA_def TASVIR_ALIGN_def TASVIR_ALIGNX_def al by code_simp
  show "TASVIR_SIZE_LOG = 0x80000000"
    unfolding TASVIR_SIZE_LOG_def TASVIR_ALIGN_def TASVIR_ALIGNX_def al sd shift_consts by code_simp
  show "TASVIR_SIZE_LOCAL = 0x40000000"
    unfolding TASVIR_SIZE_LOCAL_def TASVIR_ALIGN_def TASVIR_ALIGNX_def al by code_simp
qed

lemma region_addrs [layout_simps]:
  "TASVIR_ADDR_BASE = 0x10000000000" "TASVIR_ADDR_DATA = 0x10000000000"
  "TASVIR_ADDR_LOG = 0x30000000000" "TASVIR_ADDR_LOCAL = 0x30080000000"
  "TASVIR_ADDR_END = 0x300C0000000" "TASVIR_ADDR_DATA_RO = 0x40000000000"
  "TASVIR_ADDR_DATA_RW = 0x50000000000" "TASVIR_ADDR_DPDK = 0x60100000000"
  "TASVIR_SIZE_MAP = 0x200C0000000"
  "TASVIR_OFFSET_RO = 0x30000000000" "TASVIR_OFFSET_RW = 0x40000000000"
  "TASVIR_OFFSET_RO2RW = 0x10000000000"
proof -
  show base: "TASVIR_ADDR_BASE = 0x10000000000"
    unfolding TASVIR_ADDR_BASE_def TASVIR_ALIGN_DATA_def TASVIR_ALIGNX_def region_sizes by code_simp
  show data: "TASVIR_ADDR_DATA = 0x10000000000" by (simp add: TASVIR_ADDR_DATA_def base)
  show log: "TASVIR_ADDR_LOG = 0x30000000000" by (simp add: TASVIR_ADDR_LOG_def data region_sizes)
  show local: "TASVIR_ADDR_LOCAL = 0x30080000000"
    by (simp add: TASVIR_ADDR_LOCAL_def log region_sizes)
  show e: "TASVIR_ADDR_END = 0x300C0000000" by (simp add: TASVIR_ADDR_END_def local region_sizes)
  show ro: "TASVIR_ADDR_DATA_RO = 0x40000000000"
    unfolding TASVIR_ADDR_DATA_RO_def TASVIR_ALIGN_DATA_def TASVIR_ALIGNX_def region_sizes e by code_simp
  show rw: "TASVIR_ADDR_DATA_RW = 0x50000000000"
    by (simp add: TASVIR_ADDR_DATA_RW_def ro region_sizes)
  show "TASVIR_ADDR_DPDK = 0x60100000000"
    by (simp add: TASVIR_ADDR_DPDK_def rw region_sizes push_bit_eq_mult)
  show "TASVIR_SIZE_MAP = 0x200C0000000" by (simp add: TASVIR_SIZE_MAP_def e base)
  show "TASVIR_OFFSET_RO = 0x30000000000" by (simp add: TASVIR_OFFSET_RO_def ro data)
  show "TASVIR_OFFSET_RW = 0x40000000000" by (simp add: TASVIR_OFFSET_RW_def rw data)
  show "TASVIR_OFFSET_RO2RW = 0x10000000000" by (simp add: TASVIR_OFFSET_RO2RW_def ro rw)
qed

lemma size_data_mask: "TASVIR_SIZE_DATA - 1 = mask 40"
  by (simp add: region_sizes mask_eq_exp_minus_1)

section \<open>Alignment\<close>

lemma and_not_mask_word: "(x :: 'a::len word) AND NOT (mask k) = push_bit k (drop_bit k x)"
  by (rule bit_word_eqI) (auto simp: bit_simps)

lemma unat_and_not_mask: "unat ((x :: 'a::len word) AND NOT (mask k)) = unat x div 2 ^ k * 2 ^ k"
proof (cases "k < LENGTH('a)")
  case True
  have "unat x div 2 ^ k * 2 ^ k \<le> unat x" by simp
  then have "unat x div 2 ^ k * 2 ^ k < 2 ^ LENGTH('a)"
    using unsigned_less [of x] by (rule le_less_trans)
  moreover have "unat (push_bit k (drop_bit k x)) = take_bit LENGTH('a) (push_bit k (drop_bit k (unat x)))"
    by (simp only: unsigned_push_bit_eq unsigned_drop_bit_eq) (simp add: take_bit_nat_eq_self)
  ultimately show ?thesis
    by (simp only: and_not_mask_word push_bit_eq_mult drop_bit_eq_div take_bit_nat_eq_self)
next
  case False
  have "unat x < 2 ^ LENGTH('a)" by (rule unsigned_less)
  also have "(2::nat) ^ LENGTH('a) \<le> 2 ^ k" using False by simp
  finally show ?thesis using False by (simp add: and_not_mask_word not_less push_bit_of_0)
qed

lemma unat_mask_u64: "k < 64 \<Longrightarrow> unat (mask k :: u64) = 2 ^ k - 1"
proof -
  assume "k < 64"
  then have "(2::nat) ^ k < 2 ^ 64" by (rule power_strict_increasing) simp
  then have "(2 ^ k - 1) mod 2 ^ 64 = (2 ^ k - 1 :: nat)" by (intro mod_less) simp
  moreover have "unat (of_nat (2 ^ k - 1) :: u64) = (2 ^ k - 1) mod 2 ^ LENGTH(64)"
    by (rule unat_of_nat)
  moreover have "(of_nat (2 ^ k - 1) :: u64) = mask k" by (simp add: mask_eq_exp_minus_1)
  ultimately show ?thesis by simp
qed

lemma unat_ALIGNX:
  assumes "unat x + 2 ^ k < 2 ^ 64" "a = 2 ^ k" "k < 64"
  shows "unat (TASVIR_ALIGNX x a) = (unat x + 2 ^ k - 1) div 2 ^ k * 2 ^ k"
proof -
  have a: "a - 1 = mask k" using assms by (simp add: mask_eq_exp_minus_1)
  have u: "unat (x + mask k) = unat x + 2 ^ k - 1"
    using assms(1) unat_mask_u64 [OF assms(3)] by (simp add: unat_plus_if')
  have e: "x + a - 1 = x + mask k" by (simp flip: a)
  show ?thesis by (simp only: TASVIR_ALIGNX_def a e u unat_and_not_mask)
qed

text \<open>
  The regions of the address space follow one another without overlap and without wrapping round, the log has a
  bit for every line of the data region, and both copies of the data region lie at a fixed distance from it.
\<close>

lemma regions_apart:
  "unat TASVIR_ADDR_DATA + 2 * unat TASVIR_SIZE_DATA = unat TASVIR_ADDR_LOG \<and>
   unat TASVIR_ADDR_LOG + unat TASVIR_SIZE_LOG = unat TASVIR_ADDR_LOCAL \<and>
   unat TASVIR_ADDR_LOCAL + unat TASVIR_SIZE_LOCAL = unat TASVIR_ADDR_END \<and>
   unat TASVIR_ADDR_END \<le> unat TASVIR_ADDR_DATA_RO \<and>
   unat TASVIR_ADDR_DATA_RO + unat TASVIR_SIZE_DATA = unat TASVIR_ADDR_DATA_RW \<and>
   unat TASVIR_ADDR_DATA_RW + unat TASVIR_SIZE_DATA < unat TASVIR_ADDR_DPDK \<and> unat TASVIR_ADDR_DPDK < 2 ^ 47 \<and>
   8 * unat TASVIR_SIZE_LOG * 64 = unat TASVIR_SIZE_DATA \<and>
   TASVIR_ADDR_DATA + TASVIR_OFFSET_RO = TASVIR_ADDR_DATA_RO \<and> TASVIR_ADDR_DATA_RO + TASVIR_OFFSET_RO2RW = TASVIR_ADDR_DATA_RW"
  by (simp add: region_addrs region_sizes)

end
