(* ===== verification/Tasvir_Log.thy ===== *)
theory Tasvir_Log
  imports Tasvir_Layout
begin

text \<open>
  The dirty log of \<open>include/tasvir/tasvir.h\<close>: one bit per 64-byte line of the data region, 64
  lines to a unit, the first line of a unit at its most significant bit. \<open>tasvir_log\<close> marks the
  lines of a byte range; the theory shows that it marks exactly those.
\<close>

type_synonym logmem = "u64 \<Rightarrow> u64"

definition logbit_mask :: u64 where
  "logbit_mask = (TASVIR_SIZE_DATA - 1) AND push_bit TASVIR_SHIFT_BIT (NOT 0)"

definition logunit_mask :: u64 where
  "logunit_mask = (TASVIR_SIZE_DATA - 1) AND push_bit TASVIR_SHIFT_UNIT (NOT 0)"

fun log_fill :: "nat \<Rightarrow> u64 \<Rightarrow> u64 \<Rightarrow> logmem \<Rightarrow> logmem" where
  "log_fill 0 base i log = log"
| "log_fill (Suc n) base i log = log_fill n base (i + 1) (log(base + i := NOT 0))"

definition tasvir_log :: "addr \<Rightarrow> u64 \<Rightarrow> logmem \<Rightarrow> logmem" where
  "tasvir_log data len log =
    (let logbit_idx0 = pext_u64 data logbit_mask;
         logbit_idx1 = pext_u64 (data + len - 1) logbit_mask;
         logunit_idx0 = drop_bit (TASVIR_SHIFT_UNIT - TASVIR_SHIFT_BIT) logbit_idx0;
         logunit_idx1 = drop_bit (TASVIR_SHIFT_UNIT - TASVIR_SHIFT_BIT) logbit_idx1;
         mask0 = drop_bit (unat (logbit_idx0 mod of_nat TASVIR_LOG_UNIT_BITS)) (NOT 0);
         mask1 = signed_drop_bit (unat (logbit_idx1 mod of_nat TASVIR_LOG_UNIT_BITS)) (push_bit 63 1);
         logdiff = logunit_idx1 - logunit_idx0
     in if logdiff = 0 then
          (let val_new = log logunit_idx0 OR (mask0 AND mask1)
           in if log logunit_idx0 \<noteq> val_new then log(logunit_idx0 := val_new) else log)
        else
          (let log1 = log(logunit_idx0 := log logunit_idx0 OR mask0);
               log2 = log_fill (unat logdiff - 1) logunit_idx0 1 log1
           in log2(logunit_idx0 + logdiff := log2 (logunit_idx0 + logdiff) OR mask1)))"

definition tasvir_data2log :: "addr \<Rightarrow> u64" where
  "tasvir_data2log data = pext_u64 data logunit_mask"

lemma bit_logbit_mask: "i < 64 \<Longrightarrow> bit logbit_mask i \<longleftrightarrow> 6 \<le> i \<and> i < 40"
  unfolding logbit_mask_def size_data_mask shift_consts by (auto simp: bit_simps)

lemma bit_logunit_mask: "i < 64 \<Longrightarrow> bit logunit_mask i \<longleftrightarrow> 12 \<le> i \<and> i < 40"
  unfolding logunit_mask_def size_data_mask shift_consts by (auto simp: bit_simps)

text \<open>The number of the 64-byte line of the data region an address lies in.\<close>

definition line_of :: "addr \<Rightarrow> nat" where
  "line_of p = unat p mod 2 ^ 40 div 64"

lemma take_drop_nat: "k \<le> n \<Longrightarrow> take_bit (n - k) (drop_bit k (m::nat)) = m mod 2 ^ n div 2 ^ k"
  by (metis drop_bit_eq_div drop_bit_take_bit take_bit_eq_mod)

lemma unat_pext_range:
  assumes "k \<le> n" "n \<le> 64" "\<And>i. i < 64 \<Longrightarrow> bit m i \<longleftrightarrow> k \<le> i \<and> i < n"
  shows "unat (pext_u64 p m) = unat p mod 2 ^ n div 2 ^ k"
  by (simp only: pext_u64_range [OF assms] unsigned_take_bit_eq unsigned_drop_bit_eq take_drop_nat [OF assms(1)])
     (metis assms(1,2) take_bit_nat_eq_self take_drop_nat unsigned_less)

lemma unat_pext_logbit: "unat (pext_u64 p logbit_mask) = line_of p"
  using unat_pext_range [of 6 40 logbit_mask p] by (simp add: line_of_def bit_logbit_mask)

lemma unat_data2log: "unat (tasvir_data2log p) = unat p mod 2 ^ 40 div 2 ^ 12"
  using unat_pext_range [of 12 40 logunit_mask p] by (simp add: tasvir_data2log_def bit_logunit_mask)

lemma log_fill_apply:
  "unat base + unat i + n \<le> 2 ^ 64 \<Longrightarrow>
   log_fill n base i log u =
     (if unat base + unat i \<le> unat u \<and> unat u < unat base + unat i + n then NOT 0 else log u)"
proof (induction n arbitrary: i log)
  case 0
  then show ?case by auto
next
  case (Suc n)
  have b: "unat (base + i) = unat base + unat i" using Suc.prems by (simp add: unat_plus_if')
  show ?case
  proof (cases n)
    case 0
    then show ?thesis using b by (auto simp: word_unat_eq_iff)
  next
    case (Suc m)
    have i1: "unat (i + 1) = unat i + 1"
      using Suc.prems Suc by (simp add: unat_plus_if')
    have "unat base + unat (i + 1) + n \<le> 2 ^ 64" using Suc.prems i1 by simp
    from Suc.IH [OF this] show ?thesis using b i1 by (auto simp: word_unat_eq_iff)
  qed
qed

definition log_dirty :: "logmem \<Rightarrow> nat \<Rightarrow> bool" where
  "log_dirty log n \<longleftrightarrow> bit (log (of_nat (n div 64))) (63 - n mod 64)"

lemma line_of_less: "line_of p < 2 ^ 34"
proof -
  have "unat p mod 2 ^ 40 < 2 ^ 34 * 64" by simp
  then show ?thesis unfolding line_of_def by (rule less_mult_imp_div_less)
qed

lemma line_of_last:
  assumes "0 < len" "unat data mod 2 ^ 40 + unat len \<le> 2 ^ 40"
  shows "line_of (data + len - 1) = (unat data mod 2 ^ 40 + unat len - 1) div 64"
proof -
  have e: "data + len - 1 = of_nat (unat data + (unat len - 1))"
    using assms(1) by (simp add: word_less_nat_alt)
  have "unat (data + len - 1) mod 2 ^ 40 = (unat data + (unat len - 1)) mod 2 ^ 64 mod 2 ^ 40"
    unfolding e by (simp only: unat_of_nat) simp
  also have "\<dots> = (unat data + (unat len - 1)) mod 2 ^ 40"
    by (rule mod_mod_cancel) simp
  also have "\<dots> = (unat data mod 2 ^ 40 + (unat len - 1)) mod 2 ^ 40"
    by (simp only: mod_add_left_eq)
  also have "\<dots> = unat data mod 2 ^ 40 + (unat len - 1)"
    using assms by (intro mod_less) (simp add: word_less_nat_alt)
  finally show ?thesis using assms(1) by (simp add: line_of_def word_less_nat_alt)
qed

lemma bit_mask0: "j < 64 \<Longrightarrow> r < 64 \<Longrightarrow> bit (drop_bit r (NOT 0) :: u64) j \<longleftrightarrow> r \<le> 63 - j"
  by (auto simp: bit_simps)

lemma bit_mask1: "j < 64 \<Longrightarrow> r < 64 \<Longrightarrow> bit (signed_drop_bit r (push_bit 63 1) :: u64) j \<longleftrightarrow> 63 - j \<le> r"
proof -
  have top: "bit (push_bit 63 1 :: u64) k \<longleftrightarrow> k = 63" for k
    by (subst bit_push_bit_iff) (auto simp: bit_1_iff)
  show "j < 64 \<Longrightarrow> r < 64 \<Longrightarrow> bit (signed_drop_bit r (push_bit 63 1) :: u64) j \<longleftrightarrow> 63 - j \<le> r"
    by (simp only: bit_signed_drop_bit_iff top) (auto split: if_splits)
qed

text \<open>The effect on one log unit, in terms of the first line \<open>a\<close> and the last line \<open>z\<close>.\<close>

lemma tasvir_log_unit:
  assumes a: "a = line_of data" and z: "z = line_of (data + len - 1)" and az: "a \<le> z"
  shows "tasvir_log data len log u =
     (let m0 = drop_bit (a mod 64) (NOT 0); m1 = signed_drop_bit (z mod 64) (push_bit 63 1)
      in if a div 64 = z div 64 then (if unat u = a div 64 then log u OR (m0 AND m1) else log u)
      else if unat u = z div 64 then log u OR m1
      else if unat u = a div 64 then log u OR m0
      else if a div 64 < unat u \<and> unat u < z div 64 then NOT 0 else log u)"
proof -
  define i0 i1 where "i0 = pext_u64 data logbit_mask"
    and "i1 = pext_u64 (data + len - 1) logbit_mask"
  have ui: "unat i0 = a" "unat i1 = z"
    by (simp_all add: i0_def i1_def a z unat_pext_logbit)
  define u0 u1 :: u64 where "u0 = drop_bit 6 i0" and "u1 = drop_bit 6 i1"
  have uu: "unat u0 = a div 64" "unat u1 = z div 64"
    by (simp_all only: u0_def u1_def unat_drop_bit_eq ui) (simp_all add: drop_bit_eq_div)
  define m0 m1 :: u64 where "m0 = drop_bit (a mod 64) (NOT 0)"
    and "m1 = signed_drop_bit (z mod 64) (push_bit 63 1)"
  have rr: "unat (i0 mod of_nat TASVIR_LOG_UNIT_BITS) = a mod 64"
    "unat (i1 mod of_nat TASVIR_LOG_UNIT_BITS) = z mod 64"
    by (simp_all add: TASVIR_LOG_UNIT_BITS_def unat_mod ui)
  have d: "unat (u1 - u0) = z div 64 - a div 64"
    using az uu by (simp add: unat_sub word_le_nat_alt div_le_mono)
  have d0: "u1 - u0 = 0 \<longleftrightarrow> a div 64 = z div 64"
    using div_le_mono [OF az, of 64] by (auto simp: d simp flip: unat_0_iff)
  have eqs: "u = u0 \<longleftrightarrow> unat u = a div 64" "u = u1 \<longleftrightarrow> unat u = z div 64"
    using uu by (auto simp: word_unat_eq_iff)
  have fill: "log_fill (unat (u1 - u0) - 1) u0 1 l v =
      (if a div 64 < unat v \<and> unat v < z div 64 then NOT 0 else l v)" if "u1 - u0 \<noteq> 0" for l v
  proof -
    have "unat (u1 - u0) \<noteq> 0" using that by (simp only: unat_0_iff) simp
    moreover have "unat u1 < 2 ^ 64" using unsigned_less [of u1] by simp
    ultimately show ?thesis
      using log_fill_apply [of u0 1 "unat (u1 - u0) - 1" l v] uu d by auto
  qed
  have six: "TASVIR_SHIFT_UNIT - TASVIR_SHIFT_BIT = 6" by (simp add: shift_consts)
  have dd: "u0 + (u1 - u0) = u1" by simp
  have L: "tasvir_log data len log =
     (if u1 - u0 = 0 then
          (if log u0 \<noteq> log u0 OR (m0 AND m1) then log(u0 := log u0 OR (m0 AND m1)) else log)
        else
          (log_fill (unat (u1 - u0) - 1) u0 1 (log(u0 := log u0 OR m0)))
           (u1 := log_fill (unat (u1 - u0) - 1) u0 1 (log(u0 := log u0 OR m0)) u1 OR m1))"
    unfolding tasvir_log_def Let_def six i0_def [symmetric] i1_def [symmetric] u0_def [symmetric]
      u1_def [symmetric] rr m0_def [symmetric] m1_def [symmetric] dd by (rule refl)
  show ?thesis
  proof (cases "u1 - u0 = 0")
    case True
    then show ?thesis using d0 eqs unfolding L Let_def m0_def [symmetric] m1_def [symmetric]
      by (simp only: if_True simp_thms if_False) auto
  next
    case False
    then have ne: "a div 64 \<noteq> z div 64" "u1 \<noteq> u0" using d0 by auto
    show ?thesis unfolding L Let_def m0_def [symmetric] m1_def [symmetric]
      using False ne eqs uu(2) by (simp only: if_False fun_upd_apply fill [OF False]) auto
  qed
qed

lemma le_by_unit: "(a::nat) \<le> n \<longleftrightarrow> a div 64 < n div 64 \<or> a div 64 = n div 64 \<and> a mod 64 \<le> n mod 64"
proof -
  have "64 * q + r \<le> 64 * q' + r' \<longleftrightarrow> q < q' \<or> q = q' \<and> r \<le> r'" if "r < 64" "r' < 64" for q r q' r' :: nat
    using that by (cases q q' rule: linorder_cases) auto
  from this [of "a mod 64" "n mod 64" "a div 64" "n div 64"] show ?thesis by simp
qed

lemma tasvir_log_dirty:
  assumes "0 < len" "unat data mod 2 ^ 40 + unat len \<le> 2 ^ 40" "n < 2 ^ 34"
  shows "log_dirty (tasvir_log data len log) n \<longleftrightarrow>
     log_dirty log n \<or> line_of data \<le> n \<and> n \<le> (unat data mod 2 ^ 40 + unat len - 1) div 64"
proof -
  define a z where "a = line_of data" and "z = line_of (data + len - 1)"
  note last = line_of_last [OF assms(1,2)]
  have az: "a \<le> z"
    unfolding a_def z_def last unfolding line_of_def
    using assms(1) by (intro div_le_mono) (simp add: word_less_nat_alt)
  have "n div 64 < 2 ^ 28" using assms(3) by simp
  then have uo: "unat (of_nat (n div 64) :: u64) = n div 64" by (simp add: unat_of_nat)
  have j: "63 - n mod 64 < 64" "63 - (63 - n mod 64) = n mod 64" by simp_all
  have m: "bit (drop_bit (a mod 64) (NOT 0) :: u64) (63 - n mod 64) \<longleftrightarrow> a mod 64 \<le> n mod 64"
    "bit (signed_drop_bit (z mod 64) (push_bit 63 1) :: u64) (63 - n mod 64) \<longleftrightarrow> n mod 64 \<le> z mod 64"
    using bit_mask0 [OF j(1), of "a mod 64"] bit_mask1 [OF j(1), of "z mod 64"] j(2) by auto
  have ones: "bit (NOT 0 :: u64) (63 - n mod 64)" by (simp add: bit_not_iff)
  have dz: "a div 64 \<le> z div 64" using az by (rule div_le_mono)
  have "log_dirty (tasvir_log data len log) n \<longleftrightarrow> log_dirty log n \<or> a \<le> n \<and> n \<le> z"
    unfolding log_dirty_def tasvir_log_unit [OF a_def z_def az] Let_def uo
      le_by_unit [of a n] le_by_unit [of n z]
    using m ones dz by (cases "n div 64" "z div 64" rule: linorder_cases; 
        cases "n div 64" "a div 64" rule: linorder_cases) (simp_all add: bit_or_iff bit_and_iff)
  then show ?thesis by (simp add: a_def z_def last)
qed

end
