(* ===== verification/Tasvir_State.thy ===== *)
theory Tasvir_State
  imports Tasvir_Log "HOL-Library.Monad_Syntax"
begin

text \<open>
  The data of the program: the structures of \<open>include/tasvir/types.h\<close> and \<open>src/tasvir.h\<close>.

  Shared memory is a flat store of 64-bit words. The shared-memory file holds the data region
  twice: the reader copy (\<open>m_ro\<close>, what \<open>tasvir_data2ro\<close> reaches) and the writer copy (\<open>m_rw\<close>,
  what \<open>tasvir_data2rw\<close> reaches); both are indexed by the address in the data region. A plain
  pointer reaches one of the two, depending on the pages \<open>tasvir_update_va\<close> has remapped in this
  process (\<open>va_rw\<close>). A structure in shared memory is a group of addresses: \<open>h_version h\<close> is the
  address of \<open>h->version\<close>. Thread-local and node-local data are records.

  A function that can fail to return (a failed \<open>assert\<close>, \<open>abort\<close>, an out-of-range array access,
  an endless wait) returns an option; \<open>None\<close> is "does not return".
\<close>

section \<open>Enumerations and small structures\<close>

datatype tasvir_thread_state =
    THREAD_INVALID | THREAD_DEAD | THREAD_PREBOOT | THREAD_BOOTING | THREAD_RUNNING | THREAD_SLEEPING

fun thread_state_code :: "tasvir_thread_state \<Rightarrow> u64" where
  "thread_state_code THREAD_INVALID = 0"
| "thread_state_code THREAD_DEAD = 1"
| "thread_state_code THREAD_PREBOOT = 2"
| "thread_state_code THREAD_BOOTING = 3"
| "thread_state_code THREAD_RUNNING = 4"
| "thread_state_code THREAD_SLEEPING = 5"

datatype tasvir_msg_type = MSG_INVALID | MSG_MEM | MSG_RPC_REQUEST | MSG_RPC_RESPONSE

datatype tasvir_msg_src = SRC_INVALID | SRC_ME | SRC_LOCAL | SRC_NET

datatype tasvir_rpc_status_type = RPC_INVALID | RPC_PENDING | RPC_FAILED | RPC_DONE

definition AREA_TYPE_CONTAINER :: u64 where "AREA_TYPE_CONTAINER = 1"
definition AREA_TYPE_NODE :: u64 where "AREA_TYPE_NODE = 2"
definition AREA_TYPE_APP :: u64 where "AREA_TYPE_APP = 3"

definition FLAG_ACTIVE :: u64 where "FLAG_ACTIVE = push_bit 0 1"
definition FLAG_MAPPED_RW :: u64 where "FLAG_MAPPED_RW = push_bit 1 1"
definition FLAG_LOCAL :: u64 where "FLAG_LOCAL = push_bit 2 1"
definition FLAG_SLEEPING :: u64 where "FLAG_SLEEPING = push_bit 3 1"
definition FLAG_EXT_PENDING :: u64 where "FLAG_EXT_PENDING = push_bit 4 1"
definition FLAG_EXT_IGNORE :: u64 where "FLAG_EXT_IGNORE = push_bit 5 1"
definition FLAG_EXT_ENQUEUE :: u64 where "FLAG_EXT_ENQUEUE = push_bit 6 1"

type_synonym mac_addr = "48 word"

record tasvir_tid =
  nid :: mac_addr
  idx :: u16
  pid :: u32

section \<open>Structures in shared memory, as addresses of their fields\<close>

text \<open>\<open>tasvir_area_desc\<close>\<close>

abbreviation (input) d_pd :: "addr \<Rightarrow> addr" where "d_pd d \<equiv> d"
abbreviation (input) d_h :: "addr \<Rightarrow> addr" where "d_h d \<equiv> d + 8"
abbreviation (input) d_owner :: "addr \<Rightarrow> addr" where "d_owner d \<equiv> d + 16"
abbreviation (input) d_len :: "addr \<Rightarrow> addr" where "d_len d \<equiv> d + 24"
abbreviation (input) d_offset_log_end :: "addr \<Rightarrow> addr" where "d_offset_log_end d \<equiv> d + 32"
abbreviation (input) d_nr_areas_max :: "addr \<Rightarrow> addr" where "d_nr_areas_max d \<equiv> d + 40"
abbreviation (input) d_name :: "addr \<Rightarrow> addr" where "d_name d \<equiv> d + 48"
abbreviation (input) d_boot_us :: "addr \<Rightarrow> addr" where "d_boot_us d \<equiv> d + 80"
abbreviation (input) d_sync_int_us :: "addr \<Rightarrow> addr" where "d_sync_int_us d \<equiv> d + 88"
abbreviation (input) d_sync_ext_us :: "addr \<Rightarrow> addr" where "d_sync_ext_us d \<equiv> d + 96"
abbreviation (input) d_type :: "addr \<Rightarrow> addr" where "d_type d \<equiv> d + 104"

definition sizeof_area_desc :: u64 where "sizeof_area_desc = 112"

text \<open>\<open>tasvir_area_header\<close> and \<open>tasvir_area_log\<close>\<close>

abbreviation (input) h_flags :: "addr \<Rightarrow> addr" where "h_flags h \<equiv> h"
abbreviation (input) h_last_sync_ext_bytes :: "addr \<Rightarrow> addr" where "h_last_sync_ext_bytes h \<equiv> h + 8"
abbreviation (input) h_last_sync_ext_us :: "addr \<Rightarrow> addr" where "h_last_sync_ext_us h \<equiv> h + 16"
abbreviation (input) h_last_sync_ext_v :: "addr \<Rightarrow> addr" where "h_last_sync_ext_v h \<equiv> h + 24"
abbreviation (input) h_d :: "addr \<Rightarrow> addr" where "h_d h \<equiv> h + 64"
abbreviation (input) h_version :: "addr \<Rightarrow> addr" where "h_version h \<equiv> h + 72"
abbreviation (input) h_time_us :: "addr \<Rightarrow> addr" where "h_time_us h \<equiv> h + 80"
abbreviation (input) h_nr_areas :: "addr \<Rightarrow> addr" where "h_nr_areas h \<equiv> h + 88"
abbreviation (input) h_nr_users :: "addr \<Rightarrow> addr" where "h_nr_users h \<equiv> h + 96"
abbreviation (input) h_diff_log :: "addr \<Rightarrow> nat \<Rightarrow> addr" where "h_diff_log h i \<equiv> h + 104 + 40 * of_nat i"
abbreviation (input) l_version_start :: "addr \<Rightarrow> addr" where "l_version_start l \<equiv> l"
abbreviation (input) l_start_us :: "addr \<Rightarrow> addr" where "l_start_us l \<equiv> l + 8"
abbreviation (input) l_version_end :: "addr \<Rightarrow> addr" where "l_version_end l \<equiv> l + 16"
abbreviation (input) l_end_us :: "addr \<Rightarrow> addr" where "l_end_us l \<equiv> l + 24"
abbreviation (input) l_data :: "addr \<Rightarrow> addr" where "l_data l \<equiv> l + 32"
abbreviation (input) h_user_node :: "addr \<Rightarrow> nat \<Rightarrow> addr" where "h_user_node h i \<equiv> h + 264 + 16 * of_nat i"
abbreviation (input) h_user_version :: "addr \<Rightarrow> nat \<Rightarrow> addr" where "h_user_version h i \<equiv> h + 272 + 16 * of_nat i"

definition sizeof_area_header :: u64 where "sizeof_area_header = 1344"

text \<open>\<open>tasvir_node\<close> and \<open>tasvir_thread\<close>\<close>

abbreviation (input) n_nid :: "addr \<Rightarrow> addr" where "n_nid n \<equiv> n"
abbreviation (input) n_heartbeat_us :: "addr \<Rightarrow> addr" where "n_heartbeat_us n \<equiv> n + 8"
abbreviation (input) n_thread :: "addr \<Rightarrow> nat \<Rightarrow> addr" where "n_thread n i \<equiv> n + 16 + 24 * of_nat i"
abbreviation (input) n_nr_areas :: "addr \<Rightarrow> addr" where "n_nr_areas n \<equiv> n + 1552"
abbreviation (input) n_areas_d :: "addr \<Rightarrow> nat \<Rightarrow> addr" where "n_areas_d n i \<equiv> n + 1560 + 8 * of_nat i"
abbreviation (input) n_areas_v :: "addr \<Rightarrow> nat \<Rightarrow> addr" where "n_areas_v n i \<equiv> n + 9752 + 8 * of_nat i"
abbreviation (input) t_time_us :: "addr \<Rightarrow> addr" where "t_time_us t \<equiv> t"
abbreviation (input) t_nid_idx :: "addr \<Rightarrow> addr" where "t_nid_idx t \<equiv> t + 8"
abbreviation (input) t_pid_state :: "addr \<Rightarrow> addr" where "t_pid_state t \<equiv> t + 16"

definition sizeof_thread :: u64 where "sizeof_thread = 24"
definition sizeof_node :: u64 where "sizeof_node = 17944"

section \<open>Messages\<close>

text \<open>
  \<open>tasvir_msg\<close> with the fields of its two extensions: \<open>m_addr\<close> to \<open>m_line\<close> belong to
  \<open>tasvir_msg_mem\<close>, \<open>m_fid\<close> and \<open>m_data\<close> to \<open>tasvir_msg_rpc\<close>. The payload is a list of words.
\<close>

record tasvir_msg =
  m_pkt_len :: u32
  m_ether_dhost :: mac_addr
  m_ether_shost :: mac_addr
  m_ether_type :: u16
  m_type :: tasvir_msg_type
  m_id :: u16
  m_src_tid :: tasvir_tid
  m_dst_tid :: tasvir_tid
  m_d :: addr
  m_version :: u64
  m_addr :: addr
  m_len :: u64
  m_last :: bool
  m_prev_bytes :: u64
  m_line :: "u64 list"
  m_fid :: u32
  m_data :: "u64 list"

section \<open>Node-local and thread-local data\<close>

record tasvir_sync_item =
  offset_scaled :: u64
  len_scaled :: u32

record tasvir_sync_list =
  changed :: u32
  cnt :: nat
  litems :: "tasvir_sync_item list"

definition TASVIR_SYNC_LIST_LEN :: nat where "TASVIR_SYNC_LIST_LEN = 512"

record tasvir_sync_job =
  j_d :: addr
  j_self_sync :: bool
  j_done_stage1 :: bool
  j_done_stage2 :: bool
  j_done_stage3 :: bool
  j_offset :: u64
  j_bytes_seen :: u64
  j_bytes_updated :: u64

record tasvir_stats =
  isync_success :: u64
  isync_failure :: u64
  isync_barrier_us :: u64
  isync_us :: u64
  isync_changed_bytes :: u64
  isync_processed_bytes :: u64
  esync_cnt :: u64
  esync_us :: u64
  esync_changed_bytes :: u64
  esync_processed_bytes :: u64
  rx_bytes :: u64
  tx_bytes :: u64
  rx_pkts :: u64
  tx_pkts :: u64

record 'r tasvir_local_tdata =
  t_time :: u64
  t_ring_tx :: "'r option"
  t_ring_rx :: "'r option"
  t_state :: tasvir_thread_state
  t_state_req :: tasvir_thread_state
  t_prev_sync_seq :: u64
  t_next_sync_seq :: u64
  t_sync_list :: tasvir_sync_list

record ('p, 'r) tasvir_local_ndata =
  boot_us :: u64
  time_us :: u64
  sync_int_us :: u64
  sync_ext_us :: u64
  mp :: 'p
  barrier_end_tsc :: u64
  barrier_cnt :: u64
  barrier_seq :: u64
  ring_ext_tx :: 'r
  ring_mem_pending :: 'r
  mac_addr :: mac_addr
  boot_tid :: tasvir_tid
  memcast_tid :: tasvir_tid
  rpccast_tid :: tasvir_tid
  last_stat :: u64
  last_sync_int_start :: u64
  last_sync_int_end :: u64
  last_sync_ext_start :: u64
  last_sync_ext_end :: u64
  stats_cur :: tasvir_stats
  stats :: tasvir_stats
  job_bytes :: u64
  nr_jobs :: nat
  jobs :: "tasvir_sync_job list"
  node_init_req :: bool
  sync_req :: bool
  stat_reset_req :: bool
  stat_update_req :: bool
  tdata :: "'r tasvir_local_tdata list"

text \<open>The functions \<open>tasvir_init_rpc\<close> registers, and those of the applications (by their address).\<close>

datatype tasvir_fn =
    Fn_init_thread | Fn_new_alloc_desc | Fn_delete | Fn_init_finish | Fn_update_owner | Fn_area_add_user | Fn_app addr

record tasvir_fn_desc =
  fn_name :: string
  fnptr :: tasvir_fn
  fid :: nat
  fn_flags :: u8
  argc :: nat
  ret_len :: nat
  arg_lens :: "nat list"
  arg_offsets :: "nat list"

record tasvir_rpc_status =
  rs_do_free :: bool
  rs_id :: u16
  rs_fnd :: "tasvir_fn_desc option"
  rs_status :: tasvir_rpc_status_type
  rs_response :: "tasvir_msg option"

text \<open>
  The process: the shared memory it maps, the thread-local data \<open>ttld\<close> (\<open>tasvir_tls_data\<close>), the
  network device, the time-stamp counter, whose \<open>i\<close>-th reading is \<open>tsc i\<close>, the processes sent a
  SIGKILL, and the static variables \<open>pending\<close> of \<open>tasvir_sched_sync_internal\<close> and \<open>v_prev\<close> of
  \<open>tasvir_service_nodes\<close>. \<open>is_daemon\<close> tells
  the two builds of the sources apart (\<open>TASVIR_DAEMON\<close>); \<open>ndebug\<close> tells whether assertions are
  compiled out (\<open>NDEBUG\<close>, as in the default build type \<open>RelWithDebInfo\<close>).
\<close>

record ('p, 'r, 'n) tasvir =
  m_ro :: "addr \<Rightarrow> u64"
  m_rw :: "addr \<Rightarrow> u64"
  m_log :: logmem
  va_rw :: "addr \<Rightarrow> bool"
  is_daemon :: bool
  ndebug :: bool
  is_root :: bool
  root_desc :: addr
  node_desc :: addr
  node :: addr
  thread :: addr
  tdata_idx :: nat
  nr_msgs :: u16
  nr_fns :: nat
  fn_descs :: "tasvir_fn_desc list"
  status_l :: "nat \<Rightarrow> tasvir_rpc_status"
  ndata :: "('p, 'r) tasvir_local_ndata"
  nic :: 'n
  tsc :: "nat \<Rightarrow> u64"
  tick :: nat
  killed :: "u32 list"
  sched_pending :: bool
  nodes_v_prev :: u64

section \<open>The environment\<close>

text \<open>
  What the code calls and does not define: DPDK's packet-buffer pool (the next buffer it gives out has the
  words \<open>pool_buf\<close> in the room of the data, left over from its last use, and no more room than they take), its rings and its network
  device (which gives the buffers it has sent back to the pool, \<open>tx_free\<close>), and the conversion between time-stamp ticks and microseconds (a floating-point product
  with a factor measured at boot), and what the operating system answers: whether a mapping of the
  shared file succeeds (\<open>mmap_ok\<close>) and whether a process is gone (\<open>pid_dead\<close>: \<open>kill(pid, 0)\<close> fails
  with \<open>ESRCH\<close>). \<open>others\<close> is what the other threads of the node do to the shared memory while this
  one pauses in a busy wait, and \<open>app_fn\<close> the functions applications register for remote calls. They
  are arguments of the operations below.
\<close>

record ('p, 'r, 'n) env =
  pool_get :: "'p \<Rightarrow> 'p option"
  pool_buf :: "'p \<Rightarrow> u64 list"
  pool_put :: "'p \<Rightarrow> 'p"
  pool_get_bulk :: "'p \<Rightarrow> nat \<Rightarrow> 'p option"
  pool_put_bulk :: "'p \<Rightarrow> nat \<Rightarrow> 'p"
  ring_enqueue :: "'r \<Rightarrow> tasvir_msg \<Rightarrow> 'r option"
  ring_enqueue_bulk :: "'r \<Rightarrow> tasvir_msg list \<Rightarrow> 'r option"
  ring_dequeue_burst :: "'r \<Rightarrow> nat \<Rightarrow> tasvir_msg list \<times> 'r"
  ring_empty :: "'r \<Rightarrow> bool"
  eth_tx_burst :: "'n \<Rightarrow> tasvir_msg list \<Rightarrow> nat \<times> 'n"
  eth_rx_burst :: "'n \<Rightarrow> nat \<Rightarrow> tasvir_msg list \<times> 'n"
  tx_free :: "'n \<Rightarrow> 'p \<Rightarrow> 'p"
  tsc2usec :: "u64 \<Rightarrow> u64"
  usec2tsc :: "u64 \<Rightarrow> u64"
  ring_create :: "string \<Rightarrow> 'r option"
  mmap_ok :: "addr \<Rightarrow> u64 \<Rightarrow> u64 \<Rightarrow> bool"
  pid_dead :: "u32 \<Rightarrow> bool"
  others :: "('p, 'r, 'n) tasvir \<Rightarrow> ('p, 'r, 'n) tasvir"
  app_fn :: "addr \<Rightarrow> nat list \<Rightarrow> u64 list \<Rightarrow> ('p, 'r, 'n) tasvir \<Rightarrow> (u64 list \<times> ('p, 'r, 'n) tasvir) option"

section \<open>Access to memory, time and the current thread\<close>

definition rd :: "('p, 'r, 'n) tasvir \<Rightarrow> addr \<Rightarrow> u64" where
  "rd s a = (if va_rw s a then m_rw s a else m_ro s a)"

definition wr :: "addr \<Rightarrow> u64 \<Rightarrow> ('p, 'r, 'n) tasvir \<Rightarrow> ('p, 'r, 'n) tasvir" where
  "wr a v s = (if va_rw s a then s\<lparr>m_rw := (m_rw s)(a := v)\<rparr> else s\<lparr>m_ro := (m_ro s)(a := v)\<rparr>)"

definition wr_ro :: "addr \<Rightarrow> u64 \<Rightarrow> ('p, 'r, 'n) tasvir \<Rightarrow> ('p, 'r, 'n) tasvir" where
  "wr_ro a v s = s\<lparr>m_ro := (m_ro s)(a := v)\<rparr>"

definition wr_rw :: "addr \<Rightarrow> u64 \<Rightarrow> ('p, 'r, 'n) tasvir \<Rightarrow> ('p, 'r, 'n) tasvir" where
  "wr_rw a v s = s\<lparr>m_rw := (m_rw s)(a := v)\<rparr>"

definition tlog :: "addr \<Rightarrow> u64 \<Rightarrow> ('p, 'r, 'n) tasvir \<Rightarrow> ('p, 'r, 'n) tasvir" where
  "tlog p len s = s\<lparr>m_log := tasvir_log p len (m_log s)\<rparr>"

definition rdtsc :: "('p, 'r, 'n) tasvir \<Rightarrow> u64 \<times> ('p, 'r, 'n) tasvir" where
  "rdtsc s = (tsc s (tick s), s\<lparr>tick := Suc (tick s)\<rparr>)"

definition tasvir_time_us :: "('p, 'r, 'n) env \<Rightarrow> ('p, 'r, 'n) tasvir \<Rightarrow> u64 \<times> ('p, 'r, 'n) tasvir" where
  "tasvir_time_us E s = (let (t, s) = rdtsc s in (tsc2usec E t, s))"

definition my_tdata :: "('p, 'r, 'n) tasvir \<Rightarrow> 'r tasvir_local_tdata" where
  "my_tdata s = tdata (ndata s) ! tdata_idx s"

definition upd_tdata ::
  "nat \<Rightarrow> ('r tasvir_local_tdata \<Rightarrow> 'r tasvir_local_tdata) \<Rightarrow> ('p, 'r, 'n) tasvir \<Rightarrow> ('p, 'r, 'n) tasvir" where
  "upd_tdata i f s = s\<lparr>ndata := (ndata s)\<lparr>tdata := (tdata (ndata s))[i := f (tdata (ndata s) ! i)]\<rparr>\<rparr>"

text \<open>\<open>assert(b)\<close>\<close>

definition assert_ok :: "('p, 'r, 'n) tasvir \<Rightarrow> bool \<Rightarrow> bool" where
  "assert_ok s b \<longleftrightarrow> ndebug s \<or> b"

definition has_flag :: "u64 \<Rightarrow> u64 \<Rightarrow> bool" where
  "has_flag w f \<longleftrightarrow> w AND f \<noteq> 0"

text \<open>\<open>tasvir_is_booting\<close>, \<open>tasvir_is_running\<close>, \<open>tasvir_data\<close>.\<close>

definition tasvir_is_booting :: "('p, 'r, 'n) tasvir \<Rightarrow> bool" where
  "tasvir_is_booting s \<longleftrightarrow> thread s = 0 \<or> t_state (my_tdata s) = THREAD_BOOTING"

definition tasvir_is_running :: "('p, 'r, 'n) tasvir \<Rightarrow> bool" where
  "tasvir_is_running s \<longleftrightarrow> thread s \<noteq> 0 \<and> t_state (my_tdata s) = THREAD_RUNNING"

definition tasvir_data :: "('p, 'r, 'n) tasvir \<Rightarrow> addr \<Rightarrow> addr" where
  "tasvir_data s d = rd s (d_h d) + sizeof_area_header"

end
