(* ===== verification/Tasvir_Port.thy ===== *)
theory Tasvir_Port
  imports Tasvir_State
begin

text \<open>
  The transmit side of \<open>src/service.c\<close>, the network header of \<open>src/utils.h\<close>, and the generation of
  memory-update messages in \<open>src/sync.c\<close>.
\<close>

definition TASVIR_PKT_BURST :: nat where "TASVIR_PKT_BURST = 32"
definition TASVIR_NR_CACHELINES_PER_MSG :: nat where "TASVIR_NR_CACHELINES_PER_MSG = 21"
definition TASVIR_NR_RPC_MSG :: nat where "TASVIR_NR_RPC_MSG = 256 * 1024"
definition TASVIR_ETH_PROTO :: u16 where "TASVIR_ETH_PROTO = 0x88b6"

definition rte_cpu_to_be_16 :: "u16 \<Rightarrow> u16" where
  "rte_cpu_to_be_16 x = push_bit 8 x OR drop_bit 8 x"

section \<open>Transmission\<close>

text \<open>The inner loop of \<open>tasvir_service_port_tx\<close>: offer the burst until the device has taken it all.\<close>

partial_function (option) tx_burst_all ::
  "('p, 'r, 'n) env \<Rightarrow> 'n \<Rightarrow> tasvir_msg list \<Rightarrow> 'n option" where
  "tx_burst_all E n ms =
    (let (retval, n) = eth_tx_burst E n ms; ms = drop retval ms
     in if ms \<noteq> [] then tx_burst_all E n ms else Some n)"

partial_function (option) port_tx_loop ::
  "('p, 'r, 'n) env \<Rightarrow> 'r \<Rightarrow> 'n \<Rightarrow> ('r \<times> 'n) option" where
  "port_tx_loop E r n =
    (if ring_empty E r then Some (r, n)
     else (let (m, r) = ring_dequeue_burst E r TASVIR_PKT_BURST
           in Option.bind (tx_burst_all E n m) (\<lambda>n. port_tx_loop E r n)))"

definition tasvir_service_port_tx ::
  "('p, 'r, 'n) env \<Rightarrow> ('p, 'r, 'n) tasvir \<Rightarrow> ('p, 'r, 'n) tasvir option" where
  "tasvir_service_port_tx E s =
    do { (r, n) \<leftarrow> port_tx_loop E (ring_ext_tx (ndata s)) (nic s);
         Some (s\<lparr>ndata := (ndata s)\<lparr>ring_ext_tx := r, mp := tx_free E n (mp (ndata s))\<rparr>, nic := n\<rparr>) }"

definition tasvir_populate_msg_nethdr ::
  "tasvir_msg \<Rightarrow> ('p, 'r, 'n) tasvir \<Rightarrow> tasvir_msg \<times> ('p, 'r, 'n) tasvir" where
  "tasvir_populate_msg_nethdr m s =
    (m\<lparr>m_ether_dhost := nid (m_dst_tid m), m_ether_shost := mac_addr (ndata s),
       m_ether_type := rte_cpu_to_be_16 TASVIR_ETH_PROTO\<rparr>,
     s\<lparr>ndata := (ndata s)\<lparr>stats_cur := (stats_cur (ndata s))\<lparr>
        tx_bytes := tx_bytes (stats_cur (ndata s)) + ucast (m_pkt_len m),
        tx_pkts := tx_pkts (stats_cur (ndata s)) + 1\<rparr>\<rparr>\<rparr>)"

section \<open>Copies of whole vectors\<close>

text \<open>
  \<open>tasvir_store_vec\<close> and \<open>tasvir_stream_vec\<close> copy \<open>TASVIR_VEC_BYTES\<close> (64, with AVX-512) bytes. The
  source is given by its words: \<open>src i\<close> is the word at byte \<open>8 * i\<close> of the source.
\<close>

definition TASVIR_VEC_BYTES :: nat where "TASVIR_VEC_BYTES = 64"

fun store_words :: "nat \<Rightarrow> nat \<Rightarrow> (nat \<Rightarrow> u64) \<Rightarrow> addr \<Rightarrow> (addr \<Rightarrow> u64) \<Rightarrow> (addr \<Rightarrow> u64)" where
  "store_words 0 i src p m = m"
| "store_words (Suc n) i src p m = store_words n (Suc i) src p (m(p + 8 * of_nat i := src i))"

definition tasvir_store_vec :: "nat \<Rightarrow> (nat \<Rightarrow> u64) \<Rightarrow> addr \<Rightarrow> (addr \<Rightarrow> u64) \<Rightarrow> (addr \<Rightarrow> u64)" where
  "tasvir_store_vec k src p m = store_words (TASVIR_VEC_BYTES div 8) (k div 8) src p m"

text \<open>\<open>tasvir_store_vec_rep\<close> (and \<open>tasvir_stream_vec_rep\<close>) is a do-while loop over the byte offset \<open>k\<close>.\<close>

function store_vec_rep_loop ::
  "nat \<Rightarrow> nat \<Rightarrow> (nat \<Rightarrow> u64) \<Rightarrow> addr \<Rightarrow> (addr \<Rightarrow> u64) \<Rightarrow> (addr \<Rightarrow> u64)" where
  "store_vec_rep_loop k len src p m =
    (let m = tasvir_store_vec k src p m; k = k + TASVIR_VEC_BYTES
     in if k < len then store_vec_rep_loop k len src p m else m)"
  by pat_completeness auto
termination
  by (relation "measure (\<lambda>(k, len, src, p, m). len - k)") (auto simp: TASVIR_VEC_BYTES_def)

declare store_vec_rep_loop.simps [simp del]

definition tasvir_store_vec_rep :: "(nat \<Rightarrow> u64) \<Rightarrow> addr \<Rightarrow> nat \<Rightarrow> (addr \<Rightarrow> u64) \<Rightarrow> (addr \<Rightarrow> u64)" where
  "tasvir_store_vec_rep src p len m = store_vec_rep_loop 0 len src p m"

text \<open>The same copy into the payload of a message.\<close>

definition stream_line :: "(nat \<Rightarrow> u64) \<Rightarrow> nat \<Rightarrow> u64 list" where
  "stream_line src len = map src [0..<max 1 ((len + TASVIR_VEC_BYTES - 1) div TASVIR_VEC_BYTES) * (TASVIR_VEC_BYTES div 8)]"

section \<open>Memory-update messages\<close>

definition null_tid :: tasvir_tid where "null_tid = \<lparr>nid = 0, idx = 0, pid = 0\<rparr>"

definition read_tid :: "('p, 'r, 'n) tasvir \<Rightarrow> addr \<Rightarrow> tasvir_tid" where
  "read_tid s t = \<lparr>nid = ucast (rd s (t_nid_idx t)), idx = ucast (drop_bit 48 (rd s (t_nid_idx t))),
     pid = ucast (rd s (t_pid_state t))\<rparr>"

text \<open>\<open>offsetof(tasvir_msg_mem, line) - offsetof(tasvir_msg, eh)\<close>\<close>

definition msg_mem_line_off :: u32 where "msg_mem_line_off = 384 - 256"

partial_function (option) get_bulk_wait ::
  "('p, 'r, 'n) env \<Rightarrow> ('p, 'r, 'n) tasvir \<Rightarrow> ('p, 'r, 'n) tasvir option" where
  "get_bulk_wait E s =
    (case pool_get_bulk E (mp (ndata s)) TASVIR_PKT_BURST of
       Some p \<Rightarrow> Some (s\<lparr>ndata := (ndata s)\<lparr>mp := p\<rparr>\<rparr>)
     | None \<Rightarrow> Option.bind (tasvir_service_port_tx E s) (\<lambda>s. get_bulk_wait E s))"

partial_function (option) enqueue_bulk_wait ::
  "('p, 'r, 'n) env \<Rightarrow> tasvir_msg list \<Rightarrow> ('p, 'r, 'n) tasvir \<Rightarrow> ('p, 'r, 'n) tasvir option" where
  "enqueue_bulk_wait E m s =
    (case ring_enqueue_bulk E (ring_ext_tx (ndata s)) m of
       Some r \<Rightarrow> Some (s\<lparr>ndata := (ndata s)\<lparr>ring_ext_tx := r\<rparr>\<rparr>)
     | None \<Rightarrow> Option.bind (tasvir_service_port_tx E s) (\<lambda>s. enqueue_bulk_wait E m s))"

text \<open>
  The message for the first chunk of \<open>len\<close> bytes at \<open>addr\<close>, its network header filled in. A buffer
  taken from the pool is \<open>null_msg\<close>: the code sets every field its readers use.
\<close>

definition null_msg :: tasvir_msg where
  "null_msg = \<lparr>m_pkt_len = 0, m_ether_dhost = 0, m_ether_shost = 0, m_ether_type = 0,
     m_type = MSG_INVALID, m_id = 0, m_src_tid = null_tid, m_dst_tid = null_tid,
     m_d = 0, m_version = 0, m_addr = 0, m_len = 0, m_last = False, m_prev_bytes = 0,
     m_line = [], m_fid = 0, m_data = []\<rparr>"

definition mem_msg ::
  "addr \<Rightarrow> u64 \<Rightarrow> bool \<Rightarrow> addr \<Rightarrow> u64 \<Rightarrow> u64 \<Rightarrow> ('p, 'r, 'n) tasvir \<Rightarrow> tasvir_msg \<times> ('p, 'r, 'n) tasvir" where
  "mem_msg d v is_last addr len prev_bytes s =
    (let mlen = min (of_nat (TASVIR_CACHELINE_BYTES * TASVIR_NR_CACHELINES_PER_MSG)) len;
         m = null_msg\<lparr>m_dst_tid := memcast_tid (ndata s), m_src_tid := read_tid s (thread s),
              m_id := of_nat (unat (nr_msgs s) mod TASVIR_NR_RPC_MSG), m_type := MSG_MEM\<rparr>;
         m = m\<lparr>m_d := d, m_version := v, m_addr := addr, m_len := mlen, m_prev_bytes := prev_bytes,
              m_pkt_len := ucast mlen + msg_mem_line_off\<rparr>;
         m = m\<lparr>m_line := stream_line (\<lambda>i. m_ro s (addr + 8 * of_nat i)) (unat mlen),
              m_last := (is_last \<and> len - mlen = 0)\<rparr>
     in tasvir_populate_msg_nethdr m (s\<lparr>nr_msgs := nr_msgs s + 1\<rparr>))"

lemma mem_msg_len [simp]:
  "m_len (fst (mem_msg d v is_last addr len prev_bytes s)) = min 1344 len"
  by (simp add: mem_msg_def tasvir_populate_msg_nethdr_def Let_def TASVIR_CACHELINE_BYTES_def
      TASVIR_NR_CACHELINES_PER_MSG_def)

lemma mem_chunk_decreases: "len \<noteq> (0 :: u64) \<Longrightarrow> unat (len - min 1344 len) < unat len"
  by (auto simp: min_def unat_sub word_le_nat_alt unat_gt_0 intro!: diff_less)

function mem_generate_loop ::
  "('p, 'r, 'n) env \<Rightarrow> addr \<Rightarrow> u64 \<Rightarrow> bool \<Rightarrow> addr \<Rightarrow> u64 \<Rightarrow> u64 \<Rightarrow> tasvir_msg list \<Rightarrow> ('p, 'r, 'n) tasvir \<Rightarrow>
   (u64 \<times> tasvir_msg list \<times> ('p, 'r, 'n) tasvir) option" where
  "mem_generate_loop E d v is_last addr len prev_bytes m s =
    (if len = 0 then Some (prev_bytes, m, s)
     else let (mi, s) = mem_msg d v is_last addr len prev_bytes s;
              prev_bytes = prev_bytes + m_len mi; addr = addr + m_len mi; len = len - m_len mi;
              m = m @ [mi]
          in if length m \<ge> TASVIR_PKT_BURST then
               Option.bind (enqueue_bulk_wait E m s) (\<lambda>s.
               Option.bind (get_bulk_wait E s) (\<lambda>s.
               mem_generate_loop E d v is_last addr len prev_bytes [] s))
             else mem_generate_loop E d v is_last addr len prev_bytes m s)"
  by pat_completeness auto
termination
  by (relation "measure (\<lambda>(E, d, v, is_last, addr, len, prev_bytes, m, s). unat len)")
    (auto dest: arg_cong [where f = "\<lambda>x. m_len (fst x)"] intro!: mem_chunk_decreases)

declare mem_generate_loop.simps [simp del]

definition tasvir_msg_mem_generate ::
  "('p, 'r, 'n) env \<Rightarrow> addr \<Rightarrow> addr \<Rightarrow> u64 \<Rightarrow> bool \<Rightarrow> ('p, 'r, 'n) tasvir \<Rightarrow> ('p, 'r, 'n) tasvir option" where
  "tasvir_msg_mem_generate E d addr len is_last s =
    do { s \<leftarrow> get_bulk_wait E s;
         let h = rd s (d_h d);
         (prev_bytes, m, s) \<leftarrow>
           mem_generate_loop E d (m_ro s (h_version h)) is_last addr len (m_ro s (h_last_sync_ext_bytes h)) [] s;
         let s = wr_ro (h_last_sync_ext_bytes h) prev_bytes s;
         s \<leftarrow> (if m \<noteq> [] then enqueue_bulk_wait E m s else Some s);
         Some (s\<lparr>ndata := (ndata s)\<lparr>mp := pool_put_bulk E (mp (ndata s)) (TASVIR_PKT_BURST - length m)\<rparr>\<rparr>) }"

end
