(* ===== verification/Tasvir_Sync.thy ===== *)
theory Tasvir_Sync
  imports Tasvir_Port
begin

text \<open>
  \<open>src/sync.c\<close>: the walk over the dirty log (\<open>tasvir_sync_parse_log\<close>), which turns runs of set
  bits into a list of ranges, and \<open>tasvir_sync_process_changes\<close>, which copies the ranges to the
  reader copy or sends them to the other nodes.
\<close>

section \<open>Processing a list of changed ranges\<close>

definition process_item ::
  "('p, 'r, 'n) env \<Rightarrow> addr \<Rightarrow> bool \<Rightarrow> bool \<Rightarrow> tasvir_sync_item \<Rightarrow> ('p, 'r, 'n) tasvir \<Rightarrow> ('p, 'r, 'n) tasvir option" where
  "process_item E d external is_last it s =
    (let offset = push_bit TASVIR_SHIFT_BIT (offset_scaled it);
         len = (ucast (push_bit TASVIR_SHIFT_BIT (len_scaled it)) :: u64)
     in do { s \<leftarrow> (if is_daemon s \<and> external
                   then tasvir_msg_mem_generate E d (TASVIR_ADDR_DATA + offset) len is_last s
                   else Some (s\<lparr>m_ro := tasvir_store_vec_rep
                          (\<lambda>i. m_rw s (TASVIR_ADDR_DATA + offset + 8 * of_nat i))
                          (TASVIR_ADDR_DATA + offset) (unat len) (m_ro s)\<rparr>));
             Some (upd_tdata (tdata_idx s) (\<lambda>t. t\<lparr>t_sync_list :=
               (t_sync_list t)\<lparr>changed := changed (t_sync_list t) + ucast len\<rparr>\<rparr>) s) })"

fun process_items ::
  "('p, 'r, 'n) env \<Rightarrow> addr \<Rightarrow> bool \<Rightarrow> bool \<Rightarrow> tasvir_sync_item list \<Rightarrow> ('p, 'r, 'n) tasvir \<Rightarrow> ('p, 'r, 'n) tasvir option" where
  "process_items E d external reset_changed [] s = Some s"
| "process_items E d external reset_changed (it # its) s =
    do { s \<leftarrow> process_item E d external (reset_changed \<and> its = []) it s;
         process_items E d external reset_changed its s }"

definition tasvir_sync_process_changes ::
  "('p, 'r, 'n) env \<Rightarrow> addr \<Rightarrow> bool \<Rightarrow> bool \<Rightarrow> ('p, 'r, 'n) tasvir \<Rightarrow> (u64 \<times> ('p, 'r, 'n) tasvir) option" where
  "tasvir_sync_process_changes E d reset_changed external s =
    (let l = t_sync_list (my_tdata s)
     in do { s \<leftarrow> process_items E d external reset_changed (take (cnt l) (litems l)) s;
             let bytes_changed = (scast (changed (t_sync_list (my_tdata s))) :: u64);
             Some (bytes_changed, upd_tdata (tdata_idx s) (\<lambda>t. t\<lparr>t_sync_list := (t_sync_list t)\<lparr>cnt := 0,
               changed := (if reset_changed then 0 else changed (t_sync_list t))\<rparr>\<rparr>) s) })"

section \<open>Scanning the log\<close>

text \<open>
  The variables of the walk: \<open>lbits0\<close> and \<open>lbits1\<close> count the clear and set bits since the start of
  the current batch of ones, which is at line \<open>off\<close>; \<open>lbits1_total\<close> the set bits of the finished
  batches. A write beyond the array \<open>sync_l->l\<close> does not return.
\<close>

record scan =
  lbits0 :: nat
  lbits1 :: nat
  off :: nat
  lbits1_total :: nat
  sync_l :: tasvir_sync_list

definition put_item :: "nat \<Rightarrow> nat \<Rightarrow> tasvir_sync_list \<Rightarrow> tasvir_sync_list option" where
  "put_item o_s n l = (if cnt l < TASVIR_SYNC_LIST_LEN
     then Some (l\<lparr>litems := (litems l)[cnt l := \<lparr>offset_scaled = of_nat o_s, len_scaled = of_nat n\<rparr>]\<rparr>)
     else None)"

definition scan_flush :: "scan \<Rightarrow> scan option" where
  "scan_flush c =
    do { l \<leftarrow> put_item (off c) (lbits1 c) (sync_l c);
         Some (c\<lparr>sync_l := l\<lparr>cnt := cnt l + of_bool (lbits1 c \<noteq> 0)\<rparr>,
                 off := off c + (lbits0 c + lbits1 c), lbits1_total := lbits1_total c + lbits1 c,
                 lbits0 := 0, lbits1 := 0\<rparr>) }"

lemma lzcnt_pos: "\<not> bit v 63 \<Longrightarrow> 0 < lzcnt_u64 v"
  by (simp add: lzcnt_u64_def numeral_eq_Suc)

lemma lzcnt_zero: "bit v 63 \<Longrightarrow> lzcnt_u64 v = 0"
  by (simp add: lzcnt_u64_def numeral_eq_Suc)

function scan_unit :: "nat \<Rightarrow> bool \<Rightarrow> u64 \<Rightarrow> scan \<Rightarrow> scan option" where
  "scan_unit lbits_unit_left is_leading_bit_set v c =
    do { c \<leftarrow> (if is_leading_bit_set \<and> lbits0 c \<noteq> 0 then scan_flush c else Some c);
         let lbits_same = min lbits_unit_left (lzcnt_u64 (if is_leading_bit_set then NOT v else v));
         let c = (if is_leading_bit_set then c\<lparr>lbits1 := lbits1 c + lbits_same\<rparr>
                  else c\<lparr>lbits0 := lbits0 c + lbits_same\<rparr>);
         if lbits_unit_left - lbits_same > 0
         then scan_unit (lbits_unit_left - lbits_same) (\<not> is_leading_bit_set) (push_bit lbits_same v) c
         else Some c }"
  by pat_completeness auto
termination
proof (relation "measure (\<lambda>(n, b, v, c). 2 * n + of_bool (b \<noteq> bit v 63))")
  fix n b v c c' c'' x
  assume a: "x = min n (lzcnt_u64 (if b then NOT v else v))" "0 < n - x"
  show "((n - x, \<not> b, push_bit x v, c''), (n, b, v, c))
    \<in> measure (\<lambda>(n, b, v, c). 2 * n + of_bool (b \<noteq> bit v 63))"
  proof (cases "b = bit v 63")
    case True
    then have "0 < x" using a by (auto simp: lzcnt_pos bit_not_iff)
    then show ?thesis using True a(2) by (auto simp: of_bool_def)
  next
    case False
    then have "x = 0" using a by (auto simp: lzcnt_zero bit_not_iff)
    then show ?thesis using False by auto
  qed
qed simp

declare scan_unit.simps [simp del]

function scan_units :: "u64 list \<Rightarrow> u32 \<Rightarrow> nat \<Rightarrow> scan \<Rightarrow> scan option" where
  "scan_units log_val_i one_mask i c =
    (if i < 8 then
       (let zcnt = tzcnt_u32 (drop_bit i one_mask)
        in if zcnt \<noteq> 0
           then scan_units log_val_i one_mask (i + zcnt) (c\<lparr>lbits0 := lbits0 c + zcnt * TASVIR_LOG_UNIT_BITS\<rparr>)
           else do { c \<leftarrow> scan_unit TASVIR_LOG_UNIT_BITS (bit (log_val_i ! i) (TASVIR_LOG_UNIT_BITS - 1)) (log_val_i ! i) c;
                     scan_units log_val_i one_mask (i + 1) c })
     else Some c)"
  by pat_completeness auto
termination
  by (relation "measure (\<lambda>(v, m, i, c). 8 - i)") auto

declare scan_units.simps [simp del]

section \<open>The walk\<close>

text \<open>
  \<open>log\<close> points into the dirty log (internal synchronisation) or to the oldest private log of the
  area (external synchronisation): a unit index of the log region, or an address.
\<close>

datatype log_ptr = Dirty_Log u64 | Area_Log addr

definition log_load :: "('p, 'r, 'n) tasvir \<Rightarrow> log_ptr \<Rightarrow> nat \<Rightarrow> u64" where
  "log_load s l i = (case l of Dirty_Log u \<Rightarrow> m_log s (u + of_nat i) | Area_Log a \<Rightarrow> rd s (a + 8 * of_nat i))"

definition log_store :: "log_ptr \<Rightarrow> nat \<Rightarrow> u64 \<Rightarrow> ('p, 'r, 'n) tasvir \<Rightarrow> ('p, 'r, 'n) tasvir" where
  "log_store l i v s = (case l of Dirty_Log u \<Rightarrow> s\<lparr>m_log := (m_log s)(u + of_nat i := v)\<rparr>
                                | Area_Log a \<Rightarrow> wr (a + 8 * of_nat i) v s)"

text \<open>\<open>_mm512_load_si512\<close> and \<open>_mm512_store_epi64\<close>: eight consecutive units.\<close>

definition load8 :: "('p, 'r, 'n) tasvir \<Rightarrow> log_ptr \<Rightarrow> nat \<Rightarrow> u64 list" where
  "load8 s l li = map (\<lambda>k. log_load s l (li + k)) [0..<8]"

fun store_units :: "log_ptr \<Rightarrow> nat \<Rightarrow> u64 list \<Rightarrow> ('p, 'r, 'n) tasvir \<Rightarrow> ('p, 'r, 'n) tasvir" where
  "store_units l li [] s = s"
| "store_units l li (v # vs) s = store_units l (Suc li) vs (log_store l li v s)"

definition or8 :: "u64 list \<Rightarrow> u64 list \<Rightarrow> u64 list" where
  "or8 xs ys = map2 (OR) xs ys"

definition tasvir_area_is_local :: "('p, 'r, 'n) tasvir \<Rightarrow> addr \<Rightarrow> bool" where
  "tasvir_area_is_local s d \<longleftrightarrow> rd s (d_h d) \<noteq> 0 \<and> has_flag (rd s (h_flags (rd s (d_h d)))) FLAG_LOCAL"

text \<open>The loop \<open>for (p = 1; p < pivot; p++)\<close> merges the older private logs into the loaded units.\<close>

fun merge_logs ::
  "nat \<Rightarrow> nat \<Rightarrow> addr \<Rightarrow> addr \<Rightarrow> nat \<Rightarrow> u64 list \<Rightarrow> ('p, 'r, 'n) tasvir \<Rightarrow> (u64 list \<times> ('p, 'r, 'n) tasvir) option" where
  "merge_logs 0 p h log_internal li v s = Some (v, s)"
| "merge_logs (Suc n) p h log_internal li v s =
    (let v = or8 v (load8 s (Area_Log (rd s (l_data (h_diff_log h p)))) li)
     in if p = 1 then
          (if log_internal = 0 then None
           else merge_logs n (Suc p) h log_internal li v (store_units (Area_Log log_internal) li v s))
        else merge_logs n (Suc p) h log_internal li v s)"

definition one_mask_of :: "u64 list \<Rightarrow> u32" where
  "one_mask_of v = horner_sum of_bool 2 (map (\<lambda>x. x \<noteq> 0) v)"

definition set_my_sync_list :: "tasvir_sync_list \<Rightarrow> ('p, 'r, 'n) tasvir \<Rightarrow> ('p, 'r, 'n) tasvir" where
  "set_my_sync_list l s = upd_tdata (tdata_idx s) (\<lambda>t. t\<lparr>t_sync_list := l\<rparr>) s"

text \<open>One iteration of the walk, on the eight units from \<open>li\<close> on.\<close>

definition parse_block ::
  "('p, 'r, 'n) env \<Rightarrow> addr \<Rightarrow> nat \<Rightarrow> bool \<Rightarrow> log_ptr \<Rightarrow> addr \<Rightarrow> nat \<Rightarrow> scan \<times> ('p, 'r, 'n) tasvir \<Rightarrow>
   (scan \<times> ('p, 'r, 'n) tasvir) option" where
  "parse_block E d pivot external log log_internal li cs =
    (let (c, s) = cs
     in do { (v, s) \<leftarrow> merge_logs (pivot - 1) 1 (rd s (d_h d)) log_internal li (load8 s log li) s;
             if one_mask_of v = 0
             then Some (c\<lparr>lbits0 := lbits0 c + 8 * TASVIR_LOG_UNIT_BITS\<rparr>, s)
             else do {
               let s = (if log_internal \<noteq> 0 \<and> pivot < 2
                        then store_units (Area_Log log_internal) li (or8 v (load8 s (Area_Log log_internal) li)) s
                        else s);
               let s = store_units log li (replicate 8 0) s;
               c \<leftarrow> scan_units v (one_mask_of v OR push_bit 8 1) 0 c;
               if cnt (sync_l c) \<ge> TASVIR_SYNC_LIST_LEN div 2
               then do { (_, s) \<leftarrow> tasvir_sync_process_changes E d False external (set_my_sync_list (sync_l c) s);
                         Some (c\<lparr>sync_l := t_sync_list (my_tdata s)\<rparr>, s) }
               else Some (c, s) } })"

fun parse_blocks ::
  "('p, 'r, 'n) env \<Rightarrow> addr \<Rightarrow> nat \<Rightarrow> bool \<Rightarrow> log_ptr \<Rightarrow> addr \<Rightarrow> nat list \<Rightarrow> scan \<times> ('p, 'r, 'n) tasvir \<Rightarrow>
   (scan \<times> ('p, 'r, 'n) tasvir) option" where
  "parse_blocks E d pivot external log log_internal [] cs = Some cs"
| "parse_blocks E d pivot external log log_internal (li # lis) cs =
    do { cs \<leftarrow> parse_block E d pivot external log log_internal li cs;
         parse_blocks E d pivot external log log_internal lis cs }"

text \<open>The values of \<open>li\<close>: \<open>start, start + 8, ...\<close> below \<open>start + log_units\<close>.\<close>

definition block_indices :: "nat \<Rightarrow> nat \<Rightarrow> nat list" where
  "block_indices start log_units = map (\<lambda>k. start + 8 * k) [0..<(log_units + 7) div 8]"

definition tasvir_sync_parse_log ::
  "('p, 'r, 'n) env \<Rightarrow> addr \<Rightarrow> u64 \<Rightarrow> u64 \<Rightarrow> nat \<Rightarrow> ('p, 'r, 'n) tasvir \<Rightarrow> (u64 \<times> ('p, 'r, 'n) tasvir) option" where
  "tasvir_sync_parse_log E d offset len pivot s =
    (if \<not> assert_ok s (unat offset mod 2 ^ TASVIR_SHIFT_UNIT = 0) then None else
     do { let pivot = (if is_daemon s then pivot else 0);
          let external = (pivot \<noteq> 0);
          let l = t_sync_list (my_tdata s);
          l \<leftarrow> (if external \<and> d = root_desc s
                then do { l \<leftarrow> put_item (unat (drop_bit TASVIR_SHIFT_BIT (d - TASVIR_ADDR_DATA)))
                            (unat (drop_bit TASVIR_SHIFT_BIT (TASVIR_ALIGNX sizeof_area_desc (push_bit TASVIR_SHIFT_BIT 1)))) l;
                          Some (l\<lparr>cnt := cnt l + 1\<rparr>) }
                else Some l);
          let h = rd s (d_h d);
          let c = \<lparr>lbits0 = 0, lbits1 = 0, off = unat (drop_bit TASVIR_SHIFT_BIT (h + offset - TASVIR_ADDR_DATA)),
                   lbits1_total = 0, sync_l = l\<rparr>;
          let log = (if external then Area_Log (rd s (l_data (h_diff_log h 0))) else Dirty_Log (tasvir_data2log h));
          let log_internal = (if tasvir_area_is_local s d then rd s (l_data (h_diff_log h (of_bool external))) else 0);
          (c, s) \<leftarrow> parse_blocks E d pivot external log log_internal
                    (block_indices (unat (drop_bit TASVIR_SHIFT_UNIT offset)) (unat (drop_bit TASVIR_SHIFT_UNIT len))) (c, s);
          c \<leftarrow> (if lbits1 c \<noteq> 0
                then do { l \<leftarrow> put_item (off c) (lbits1 c) (sync_l c);
                          Some (c\<lparr>lbits1_total := lbits1_total c + lbits1 c, sync_l := l\<lparr>cnt := cnt l + 1\<rparr>\<rparr>) }
                else Some c);
          let s = set_my_sync_list (sync_l c) s;
          s \<leftarrow> (if external \<and> lbits1_total c \<noteq> 0
                then do { (_, s) \<leftarrow> tasvir_sync_process_changes E d True external s;
                          let h = rd s (d_h d);
                          let v = rd s (l_version_end (h_diff_log h 0));
                          let s = wr (l_version_end (h_diff_log h 1)) v (wr (l_version_start (h_diff_log h 0)) v s);
                          let t = rd s (l_end_us (h_diff_log h 0));
                          Some (wr (l_end_us (h_diff_log h 1)) t (wr (l_start_us (h_diff_log h 0)) t s)) }
                else Some s);
          Some (push_bit TASVIR_SHIFT_BIT (of_nat (lbits1_total c)), s) })"

end
