(* ===== verification/Tasvir_Scan.thy ===== *)
theory Tasvir_Scan
  imports Tasvir_Sync
begin

text \<open>
  The walk over the dirty log (\<open>scan_unit\<close>, \<open>scan_units\<close>) against a reference that looks at one bit
  at a time: the two agree, the list of ranges never overflows its array, and the ranges are
  exactly the set bits.
\<close>

section \<open>Reference definition: one bit at a time\<close>

definition scan_bit :: "bool \<Rightarrow> scan \<Rightarrow> scan option" where
  "scan_bit b c =
    (if b then do { c \<leftarrow> (if lbits0 c \<noteq> 0 then scan_flush c else Some c); Some (c\<lparr>lbits1 := lbits1 c + 1\<rparr>) }
     else Some (c\<lparr>lbits0 := lbits0 c + 1\<rparr>))"

fun scan_bits :: "bool list \<Rightarrow> scan \<Rightarrow> scan option" where
  "scan_bits [] c = Some c"
| "scan_bits (b # bs) c = do { c \<leftarrow> scan_bit b c; scan_bits bs c }"

definition unit_bits :: "u64 \<Rightarrow> bool list" where
  "unit_bits v = map (\<lambda>i. bit v (63 - i)) [0..<64]"

definition units_bits :: "u64 list \<Rightarrow> bool list" where
  "units_bits vs = concat (map unit_bits vs)"

lemma length_unit_bits [simp]: "length (unit_bits v) = 64"
  by (simp add: unit_bits_def)

lemma length_units_bits [simp]: "length (units_bits vs) = 64 * length vs"
  by (induction vs) (auto simp: units_bits_def)

lemma scan_bits_append: "scan_bits (xs @ ys) c = Option.bind (scan_bits xs c) (scan_bits ys)"
  by (induction xs arbitrary: c) (auto split: Option.bind_split)

lemma scan_bits_zeros: "scan_bits (replicate k False) c = Some (c\<lparr>lbits0 := lbits0 c + k\<rparr>)"
  by (induction k arbitrary: c) (auto simp: scan_bit_def)

lemma scan_flush_lbits0: "scan_flush c = Some c' \<Longrightarrow> lbits0 c' = 0"
  by (auto simp: scan_flush_def bind_eq_Some_conv)

lemma scan_bits_ones_tight: "lbits0 c = 0 \<Longrightarrow> scan_bits (replicate k True) c = Some (c\<lparr>lbits1 := lbits1 c + k\<rparr>)"
  by (induction k arbitrary: c) (auto simp: scan_bit_def)

lemma scan_bits_ones:
  "0 < k \<Longrightarrow> scan_bits (replicate k True) c =
     do { c \<leftarrow> (if lbits0 c \<noteq> 0 then scan_flush c else Some c); Some (c\<lparr>lbits1 := lbits1 c + k\<rparr>) }"
proof (induction k)
  case (Suc k)
  show ?case
    by (auto simp: scan_bit_def scan_bits_ones_tight dest: scan_flush_lbits0 split: Option.bind_split)
qed simp

lemma replicate_prefix:
  assumes "\<And>i. i < k \<Longrightarrow> f i = b" "k \<le> n"
  shows "map f [0..<n] = replicate k b @ map (\<lambda>i. f (k + i)) [0..<n - k]"
  by (rule nth_equalityI) (use assms in \<open>auto simp: nth_append\<close>)

section \<open>The scan of a unit by leading-zero counts agrees with the reference\<close>

lemma lzcnt_prefix: "i < lzcnt_u64 v \<Longrightarrow> \<not> bit v (63 - i)"
  using clz_upto_zero [of i 64 v] by (simp add: lzcnt_u64_def)

lemma lzcnt_stop: "lzcnt_u64 v < 64 \<Longrightarrow> bit v (63 - lzcnt_u64 v)"
  using clz_upto_one [of 64 v] by (simp add: lzcnt_u64_def)

lemma lzcnt_le: "lzcnt_u64 v \<le> 64"
  using clz_upto_le [of 64 v] by (simp add: lzcnt_u64_def)

definition run_len :: "bool \<Rightarrow> u64 \<Rightarrow> nat" where
  "run_len b v = lzcnt_u64 (if b then NOT v else v)"

lemma run_len_prefix: "i < run_len b v \<Longrightarrow> bit v (63 - i) = b"
  using lzcnt_prefix [of i v] lzcnt_prefix [of i "NOT v"] 
  by (auto simp: run_len_def bit_not_iff split: if_splits)

lemma run_len_stop: "run_len b v < 64 \<Longrightarrow> bit v (63 - run_len b v) = (\<not> b)"
  using lzcnt_stop [of v] lzcnt_stop [of "NOT v"]
  by (auto simp: run_len_def bit_not_iff split: if_splits)

lemma run_len_pos: "b = bit v 63 \<Longrightarrow> 0 < run_len b v"
  using lzcnt_pos [of v] lzcnt_pos [of "NOT v"]
  by (auto simp: run_len_def bit_not_iff split: if_splits)

lemma bit_push_bit_63: "k + i \<le> 63 \<Longrightarrow> bit (push_bit k v :: u64) (63 - i) = bit v (63 - (k + i))"
  by (auto simp: bit_push_bit_iff add.commute [of i k])

lemma scan_unit_unfold:
  "scan_unit n b v c =
    do { c \<leftarrow> scan_bits (replicate (min n (run_len b v)) b) c;
         if min n (run_len b v) < n
         then scan_unit (n - min n (run_len b v)) (\<not> b) (push_bit (min n (run_len b v)) v) c
         else Some c }" if "0 < min n (run_len b v)"
  using that unfolding run_len_def
  by (subst scan_unit.simps) (cases b; simp add: scan_bits_ones scan_bits_zeros Let_def split: Option.bind_split)

lemma scan_unit_bits:
  "0 < n \<Longrightarrow> n \<le> 64 \<Longrightarrow> b = bit v 63 \<Longrightarrow>
   scan_unit n b v c = scan_bits (map (\<lambda>i. bit v (63 - i)) [0..<n]) c"
proof (induction n arbitrary: b v c rule: less_induct)
  case (less n)
  define k where "k = min n (run_len b v)"
  have k: "0 < k" "k \<le> n" using less.prems run_len_pos [of b v] by (auto simp: k_def)
  have split: "map (\<lambda>i. bit v (63 - i)) [0..<n] =
      replicate k b @ map (\<lambda>i. bit v (63 - (k + i))) [0..<n - k]"
    by (rule replicate_prefix) (auto simp: k_def dest: run_len_prefix)
  have shift: "map (\<lambda>i. bit v (63 - (k + i))) [0..<n - k] = map (\<lambda>i. bit (push_bit k v) (63 - i)) [0..<n - k]"
    using less.prems(2) k(2) by (intro map_cong refl bit_push_bit_63 [symmetric]) simp
  have lead: "(\<not> b) = bit (push_bit k v) 63" if "k < n"
  proof -
    have "k = run_len b v" "run_len b v < 64" using that less.prems(2) by (auto simp: k_def)
    then show ?thesis using run_len_stop [of b v] bit_push_bit_63 [of k 0 v] by simp
  qed
  have IH: "scan_unit (n - k) (\<not> b) (push_bit k v) c' =
      scan_bits (map (\<lambda>i. bit (push_bit k v) (63 - i)) [0..<n - k]) c'" if "k < n" for c'
    using that k less.prems(2) by (intro less.IH lead) auto
  show ?case
    unfolding split shift scan_bits_append scan_unit_unfold [of n b v, folded k_def, OF k(1)]
    using IH k(2) by (cases "k < n") (auto split: Option.bind_split)
qed

section \<open>Skipping zero units\<close>

lemma ctz_from_prefix: "i < ctz_from n k w \<Longrightarrow> \<not> bit w (k + i)"
proof (induction n arbitrary: k i)
  case (Suc n)
  then show ?case using Suc.IH [of "i - 1" "Suc k"] by (cases i) (auto split: if_splits)
qed simp

lemma ctz_from_stop: "ctz_from n k w < n \<Longrightarrow> bit w (k + ctz_from n k w)"
proof (induction n arbitrary: k)
  case (Suc n)
  then show ?case using Suc.IH [of "Suc k"] by (auto split: if_splits)
qed simp

lemma ctz_from_le: "bit w (k + j) \<Longrightarrow> j < n \<Longrightarrow> ctz_from n k w \<le> j"
proof (induction n arbitrary: k j)
  case (Suc n)
  then show ?case using Suc.IH [of "Suc k" "j - 1"] by (cases j) auto
qed simp

lemma bit_one_mask:
  assumes "length vs = 8" "k < 32"
  shows "bit (one_mask_of vs OR push_bit 8 1) k \<longleftrightarrow> k < 8 \<and> vs ! k \<noteq> 0 \<or> k = 8"
proof -
  have "bit (push_bit 8 1 :: u32) k \<longleftrightarrow> k = 8"
    using assms(2) by (subst bit_push_bit_iff) (auto simp: bit_1_iff)
  moreover have "bit (one_mask_of vs) k \<longleftrightarrow> k < 8 \<and> vs ! k \<noteq> 0"
    unfolding one_mask_of_def using assms by (subst bit_horner_sum_bit_iff) auto
  ultimately show ?thesis by (auto simp: bit_or_iff)
qed

lemma tzcnt_one_mask:
  assumes vs: "length vs = 8" and i: "i < 8"
  defines "z \<equiv> tzcnt_u32 (drop_bit i (one_mask_of vs OR push_bit 8 1))"
  shows "i + z \<le> 8" "j < z \<Longrightarrow> vs ! (i + j) = 0" "z = 0 \<Longrightarrow> vs ! i \<noteq> 0"
proof -
  let ?m = "one_mask_of vs OR push_bit 8 1"
  have b: "bit (drop_bit i ?m) j \<longleftrightarrow> i + j < 8 \<and> vs ! (i + j) \<noteq> 0 \<or> i + j = 8" if "j < 24" for j
    using bit_one_mask [OF vs, of "i + j"] i that by (simp only: bit_drop_bit_eq o_apply)
  have "z \<le> 8 - i" unfolding z_def tzcnt_u32_def
    using b [of "8 - i"] i by (intro ctz_from_le) auto
  then show le: "i + z \<le> 8" using i by simp
  show "vs ! (i + j) = 0" if "j < z"
    using ctz_from_prefix [of j 32 0 "drop_bit i ?m"] b [of j] that le
    by (auto simp: z_def tzcnt_u32_def)
  show "vs ! i \<noteq> 0" if "z = 0"
    using ctz_from_stop [of 32 0 "drop_bit i ?m"] b [of 0] that i
    by (auto simp: z_def tzcnt_u32_def)
qed

lemma unit_bits_zero: "unit_bits 0 = replicate 64 False"
  by (auto simp: unit_bits_def intro: nth_equalityI)

lemma units_bits_zeros: "set vs \<subseteq> {0} \<Longrightarrow> units_bits vs = replicate (length vs * 64) False"
  by (induction vs) (simp_all add: units_bits_def unit_bits_zero flip: replicate_add)

lemma units_bits_append: "units_bits (xs @ ys) = units_bits xs @ units_bits ys"
  by (simp add: units_bits_def)

lemma scan_units_bits:
  assumes "length vs = 8"
  shows "i \<le> 8 \<Longrightarrow> scan_units vs (one_mask_of vs OR push_bit 8 1) i c = scan_bits (units_bits (drop i vs)) c"
proof (induction "8 - i" arbitrary: i c rule: less_induct)
  case less
  let ?m = "one_mask_of vs OR push_bit 8 1"
  define z where "z = tzcnt_u32 (drop_bit i ?m)"
  show ?case
  proof (cases "i < 8")
    case True
    note tz = tzcnt_one_mask [OF assms True, folded z_def]
    show ?thesis
    proof (cases "z = 0")
      case z: True
      have "drop i vs = vs ! i # drop (Suc i) vs" using True assms by (simp add: Cons_nth_drop_Suc)
      moreover have "scan_unit TASVIR_LOG_UNIT_BITS (bit (vs ! i) (TASVIR_LOG_UNIT_BITS - 1)) (vs ! i) c =
          scan_bits (unit_bits (vs ! i)) c"
        using scan_unit_bits [of 64 "bit (vs ! i) 63" "vs ! i" c] by (simp add: unit_bits_def TASVIR_LOG_UNIT_BITS_def)
      ultimately show ?thesis
        using True z less.hyps [of "i + 1"]
        by (subst scan_units.simps) (simp add: units_bits_def scan_bits_append z_def Let_def cong: Option.bind_cong)
    next
      case False
      have "drop i vs = take z (drop i vs) @ drop (i + z) vs" by (metis add.commute append_take_drop_id drop_drop)
      moreover have "units_bits (take z (drop i vs)) = replicate (z * 64) False"
        using tz(1,2) assms by (subst units_bits_zeros) (auto simp: in_set_conv_nth)
      ultimately have u: "units_bits (drop i vs) = replicate (z * 64) False @ units_bits (drop (i + z) vs)"
        by (metis units_bits_append)
      have "scan_bits (units_bits (drop i vs)) c =
          scan_bits (units_bits (drop (i + z) vs)) (c\<lparr>lbits0 := lbits0 c + z * 64\<rparr>)"
        by (simp add: u scan_bits_append scan_bits_zeros)
      then show ?thesis
        using True False tz(1) less.hyps [of "i + z"]
        by (subst scan_units.simps) (simp add: z_def Let_def TASVIR_LOG_UNIT_BITS_def)
    qed
  next
    case False
    then show ?thesis using less.prems assms by (subst scan_units.simps) (simp add: units_bits_def)
  qed
qed

section \<open>The list never overflows\<close>

definition list_wf :: "tasvir_sync_list \<Rightarrow> bool" where
  "list_wf l \<longleftrightarrow> length (litems l) = TASVIR_SYNC_LIST_LEN"

lemma put_item_Some:
  "cnt l < TASVIR_SYNC_LIST_LEN \<Longrightarrow> \<exists>l'. put_item o_s n l = Some l' \<and> cnt l' = cnt l \<and> (list_wf l \<longrightarrow> list_wf l')"
  by (simp add: put_item_def list_wf_def)

lemma scan_flush_Some:
  assumes "cnt (sync_l c) < TASVIR_SYNC_LIST_LEN"
  shows "\<exists>c'. scan_flush c = Some c' \<and> lbits0 c' = 0 \<and> lbits1 c' = 0 \<and>
    cnt (sync_l c') = cnt (sync_l c) + of_bool (lbits1 c \<noteq> 0)"
  using put_item_Some [OF assms, of "off c" "lbits1 c"] by (auto simp: scan_flush_def)

lemma scan_bits_bound:
  "cnt (sync_l c) + (length bs + of_bool (lbits0 c \<noteq> 0)) div 2 < TASVIR_SYNC_LIST_LEN \<Longrightarrow>
   \<exists>c'. scan_bits bs c = Some c' \<and>
     cnt (sync_l c') \<le> cnt (sync_l c) + (length bs + of_bool (lbits0 c \<noteq> 0)) div 2"
proof (induction bs arbitrary: c)
  case Nil
  then show ?case by simp
next
  case (Cons b bs)
  show ?case
  proof (cases "b \<and> lbits0 c \<noteq> 0")
    case True
    with Cons.prems obtain c1 where c1: "scan_flush c = Some c1" "lbits0 c1 = 0"
      "cnt (sync_l c1) = cnt (sync_l c) + of_bool (lbits1 c \<noteq> 0)"
      using scan_flush_Some [of c] by auto
    then have "cnt (sync_l c1) \<le> cnt (sync_l c) + 1" by simp
    with Cons.IH [of "c1\<lparr>lbits1 := lbits1 c1 + 1\<rparr>"] Cons.prems True c1 show ?thesis
      by (fastforce simp: scan_bit_def)
  next
    case False
    define c1 where "c1 = (if b then c\<lparr>lbits1 := lbits1 c + 1\<rparr> else c\<lparr>lbits0 := lbits0 c + 1\<rparr>)"
    have c1: "scan_bit b c = Some c1" "cnt (sync_l c1) = cnt (sync_l c)"
      using False by (auto simp: scan_bit_def c1_def)
    have le: "(length bs + of_bool (lbits0 c1 \<noteq> 0)) div 2 \<le> (length (b # bs) + of_bool (lbits0 c \<noteq> 0)) div 2"
      using False by (intro div_le_mono) (auto simp: c1_def)
    then obtain c' where "scan_bits bs c1 = Some c'"
      "cnt (sync_l c') \<le> cnt (sync_l c1) + (length bs + of_bool (lbits0 c1 \<noteq> 0)) div 2"
      using Cons.IH [of c1] Cons.prems c1(2) by auto
    then show ?thesis using c1 le by auto
  qed
qed

lemma scan_bits_bound_fresh:
  "lbits1 c = 0 \<Longrightarrow> cnt (sync_l c) + (length bs - 1) div 2 < TASVIR_SYNC_LIST_LEN \<Longrightarrow>
   \<exists>c'. scan_bits bs c = Some c' \<and> cnt (sync_l c') \<le> cnt (sync_l c) + (length bs - 1) div 2"
proof (induction bs arbitrary: c)
  case Nil
  then show ?case by simp
next
  case (Cons b bs)
  show ?case
  proof (cases b)
    case True
    obtain c1 where c1: "(if lbits0 c \<noteq> 0 then scan_flush c else Some c) = Some c1" "lbits0 c1 = 0"
      "cnt (sync_l c1) = cnt (sync_l c)"
      using scan_flush_Some [of c] Cons.prems by (cases "lbits0 c = 0") auto
    show ?thesis
      using scan_bits_bound [of "c1\<lparr>lbits1 := lbits1 c1 + 1\<rparr>" bs] c1 Cons.prems True
      by (auto simp: scan_bit_def)
  next
    case False
    have "(length bs - 1) div 2 \<le> length bs div 2" by (rule div_le_mono) simp
    then show ?thesis
      using Cons.IH [of "c\<lparr>lbits0 := lbits0 c + 1\<rparr>"] Cons.prems False
      by (fastforce simp: scan_bit_def)
  qed
qed

section \<open>The list covers exactly the set bits\<close>

text \<open>
  An item is well formed when its byte length fits the 32-bit product of
  \<open>tasvir_sync_process_changes\<close> and it lies in the data region.
\<close>

definition item_ok :: "tasvir_sync_item \<Rightarrow> bool" where
  "item_ok it \<longleftrightarrow> 0 < unat (len_scaled it) \<and> unat (len_scaled it) < 2 ^ 26 \<and>
     unat (offset_scaled it) + unat (len_scaled it) \<le> 2 ^ 34"

definition item_lines :: "tasvir_sync_item \<Rightarrow> nat set" where
  "item_lines it = {unat (offset_scaled it)..<unat (offset_scaled it) + unat (len_scaled it)}"

definition lines_of :: "tasvir_sync_item list \<Rightarrow> nat set" where
  "lines_of its = \<Union> (item_lines ` set its)"

definition pending :: "tasvir_sync_list \<Rightarrow> tasvir_sync_item list" where
  "pending l = take (cnt l) (litems l)"

definition covered :: "scan \<Rightarrow> nat set" where
  "covered c = lines_of (pending (sync_l c)) \<union> {off c..<off c + lbits1 c}"

definition scan_end :: "scan \<Rightarrow> nat" where
  "scan_end c = off c + lbits1 c + lbits0 c"

definition scan_ok :: "scan \<Rightarrow> bool" where
  "scan_ok c \<longleftrightarrow> list_wf (sync_l c) \<and> list_all item_ok (pending (sync_l c)) \<and> scan_end c \<le> 2 ^ 34 \<and>
     lbits1 c < 2 ^ 26"

definition bit_lines :: "nat \<Rightarrow> bool list \<Rightarrow> nat set" where
  "bit_lines start bs = {start + i | i. i < length bs \<and> bs ! i}"

lemma lines_of_Nil [simp]: "lines_of [] = {}"
  and lines_of_append [simp]: "lines_of (xs @ ys) = lines_of xs \<union> lines_of ys"
  and lines_of_Cons [simp]: "lines_of (it # its) = item_lines it \<union> lines_of its"
  by (auto simp: lines_of_def)

lemma bit_lines_Nil [simp]: "bit_lines n [] = {}"
  by (simp add: bit_lines_def)

lemma bit_lines_Cons [simp]:
  "bit_lines n (b # bs) = (if b then {n} else {}) \<union> bit_lines (Suc n) bs"
  by (auto simp: bit_lines_def less_Suc_eq_0_disj)

lemma bit_lines_append: "bit_lines n (xs @ ys) = bit_lines n xs \<union> bit_lines (n + length xs) ys"
  by (induction xs arbitrary: n) auto

lemma pending_put:
  assumes "put_item o_s n l = Some l'" "list_wf l"
  shows "pending (l'\<lparr>cnt := cnt l'\<rparr>) = pending l"
    "pending (l'\<lparr>cnt := cnt l' + 1\<rparr>) = pending l @ [\<lparr>offset_scaled = of_nat o_s, len_scaled = of_nat n\<rparr>]"
  using assms by (auto simp: put_item_def pending_def list_wf_def take_Suc_conv_app_nth split: if_splits)

lemma item_ok_mk:
  assumes "0 < n" "n < 2 ^ 26" "o_s + n \<le> 2 ^ 34"
  defines "it \<equiv> \<lparr>offset_scaled = of_nat o_s, len_scaled = of_nat n\<rparr>"
  shows "item_ok it" "item_lines it = {o_s..<o_s + n}"
proof -
  have "unat (offset_scaled it) = o_s" "unat (len_scaled it) = n"
    using assms(1-3) by (simp_all add: it_def unat_of_nat)
  then show "item_ok it" "item_lines it = {o_s..<o_s + n}"
    using assms(1-3) by (simp_all add: item_ok_def item_lines_def)
qed

lemma scan_flush_cov:
  assumes "scan_flush c = Some c'" "scan_ok c"
  shows "covered c' = covered c" "scan_end c' = scan_end c" "scan_ok c'" "lbits0 c' = 0" "lbits1 c' = 0"
    "lbits1_total c' = lbits1_total c + lbits1 c" "off c' = scan_end c"
    "changed (sync_l c') = changed (sync_l c)"
proof -
  from assms(1) obtain l where l: "put_item (off c) (lbits1 c) (sync_l c) = Some l"
    and c': "c' = c\<lparr>sync_l := l\<lparr>cnt := cnt l + of_bool (lbits1 c \<noteq> 0)\<rparr>, off := off c + (lbits0 c + lbits1 c),
        lbits1_total := lbits1_total c + lbits1 c, lbits0 := 0, lbits1 := 0\<rparr>"
    by (auto simp: scan_flush_def bind_eq_Some_conv)
  have wf: "list_wf (sync_l c)" using assms(2) by (simp add: scan_ok_def)
  note put = pending_put [OF l wf]
  note mk = item_ok_mk [of "lbits1 c" "off c"]
  have wf': "list_wf l" "changed l = changed (sync_l c)"
    using l wf by (auto simp: put_item_def list_wf_def split: if_splits)
  have cov: "covered c' = covered c \<and> list_all item_ok (pending (sync_l c'))"
  proof (cases "lbits1 c = 0")
    case True
    then show ?thesis using put(1) assms(2) by (simp add: c' covered_def scan_ok_def)
  next
    case False
    then show ?thesis using put(2) mk assms(2) by (simp add: c' covered_def scan_ok_def scan_end_def)
  qed
  then show "covered c' = covered c" by simp
  show "scan_end c' = scan_end c" "lbits0 c' = 0" "lbits1 c' = 0"
    "lbits1_total c' = lbits1_total c + lbits1 c" "off c' = scan_end c"
    "changed (sync_l c') = changed (sync_l c)"
    using wf' by (simp_all add: c' scan_end_def)
  show "scan_ok c'" using cov wf' assms(2) by (simp add: c' scan_ok_def scan_end_def list_wf_def)
qed

lemma scan_bit_cov:
  assumes "scan_bit b c = Some c'" "scan_ok c" "scan_end c < 2 ^ 34" "lbits1 c + 1 < 2 ^ 26"
  shows "covered c' = covered c \<union> (if b then {scan_end c} else {})" "scan_end c' = Suc (scan_end c)"
    "scan_ok c'" "lbits1 c' \<le> lbits1 c + 1"
    "lbits1_total c' + lbits1 c' = lbits1_total c + lbits1 c + of_bool b"
    "changed (sync_l c') = changed (sync_l c)"
proof -
  have *: "covered c' = covered c \<union> (if b then {scan_end c} else {}) \<and> scan_end c' = Suc (scan_end c) \<and>
    scan_ok c' \<and> lbits1 c' \<le> lbits1 c + 1 \<and>
    lbits1_total c' + lbits1 c' = lbits1_total c + lbits1 c + of_bool b \<and>
    changed (sync_l c') = changed (sync_l c)"
  proof (cases "b \<and> lbits0 c \<noteq> 0")
    case True
    then obtain c1 where c1: "scan_flush c = Some c1" "c' = c1\<lparr>lbits1 := lbits1 c1 + 1\<rparr>"
      using assms(1) by (auto simp: scan_bit_def bind_eq_Some_conv)
    note f = scan_flush_cov [OF c1(1) assms(2)]
    show ?thesis using f True assms(3) by (auto simp: c1(2) covered_def scan_end_def scan_ok_def)
  next
    case False
    then show ?thesis using assms by (auto simp: scan_bit_def covered_def scan_end_def scan_ok_def split: if_splits)
  qed
  then show "covered c' = covered c \<union> (if b then {scan_end c} else {})" "scan_end c' = Suc (scan_end c)"
    "scan_ok c'" "lbits1 c' \<le> lbits1 c + 1"
    "lbits1_total c' + lbits1 c' = lbits1_total c + lbits1 c + of_bool b"
    "changed (sync_l c') = changed (sync_l c)"
    by blast+
qed

lemma scan_bits_cov:
  assumes "scan_bits bs c = Some c'" "scan_ok c" "scan_end c + length bs \<le> 2 ^ 34" "lbits1 c + length bs < 2 ^ 26"
  shows "covered c' = covered c \<union> bit_lines (scan_end c) bs \<and> scan_end c' = scan_end c + length bs \<and>
    scan_ok c' \<and> lbits1 c' \<le> lbits1 c + length bs \<and>
    lbits1_total c' + lbits1 c' = lbits1_total c + lbits1 c + count_list bs True \<and>
    changed (sync_l c') = changed (sync_l c)"
  using assms
proof (induction bs arbitrary: c)
  case Nil
  then show ?case by simp
next
  case (Cons b bs)
  then obtain c1 where c1: "scan_bit b c = Some c1" "scan_bits bs c1 = Some c'"
    by (auto simp: bind_eq_Some_conv)
  note f = scan_bit_cov [OF c1(1) Cons.prems(2)]
  have "scan_end c < 2 ^ 34" "lbits1 c + 1 < 2 ^ 26" using Cons.prems by auto
  note f = f [OF this]
  have "scan_end c1 + length bs \<le> 2 ^ 34" "lbits1 c1 + length bs < 2 ^ 26" using Cons.prems f by auto
  with Cons.IH [OF c1(2) f(3)] f show ?case by (auto simp: insert_commute)
qed

end
