(* ===== verification/Tasvir_Isync.thy ===== *)
theory Tasvir_Isync
  imports Tasvir_Scan
begin

text \<open>
  Internal synchronisation, proved: \<open>tasvir_sync_parse_log\<close> followed by
  \<open>tasvir_sync_process_changes\<close> (\<open>src/sync.c\<close>) copies exactly the dirty lines of the walked range
  from the writer copy to the reader copy, clears the log of the range, accumulates it in the
  area's private log and never leaves the array of ranges. The walk is a loop over blocks of eight
  log units; \<open>walk_inv\<close> is its invariant.
\<close>

section \<open>Copies\<close>

lemma store_words_same:
  "store_words n i (\<lambda>j. g (p + 8 * of_nat j)) p m a =
     (if a \<in> (\<lambda>j. p + 8 * of_nat j) ` {i..<i + n} then g a else m a)"
proof (induction n arbitrary: i m)
  case (Suc n)
  have "{i..<i + Suc n} = insert i {Suc i..<Suc i + n}" by auto
  then show ?case using Suc by auto
qed simp

lemma store_vec_rep_loop_same:
  "8 dvd k \<Longrightarrow> 64 dvd len \<Longrightarrow> 64 dvd k \<Longrightarrow> k < len \<Longrightarrow>
   store_vec_rep_loop k len (\<lambda>j. g (p + 8 * of_nat j)) p m a =
     (if a \<in> (\<lambda>j. p + 8 * of_nat j) ` {k div 8..<len div 8} then g a else m a)"
proof (induction "len - k" arbitrary: k m rule: less_induct)
  case less
  let ?A = "\<lambda>lo hi. (\<lambda>j. p + 8 * of_nat j) ` {lo..<hi}"
  have vec: "tasvir_store_vec k (\<lambda>j. g (p + 8 * of_nat j)) p m = 
    (\<lambda>a. if a \<in> ?A (k div 8) (k div 8 + 8) then g a else m a)" for m
    by (rule ext) (simp add: tasvir_store_vec_def TASVIR_VEC_BYTES_def store_words_same)
  obtain q where q: "k = 64 * q" using less.prems by blast
  obtain l where l: "len = 64 * l" using less.prems by blast
  show ?case
  proof (cases "k + 64 < len")
    case True
    have IH: "store_vec_rep_loop (k + 64) len (\<lambda>j. g (p + 8 * of_nat j)) p m' a =
      (if a \<in> ?A ((k + 64) div 8) (len div 8) then g a else m' a)" for m'
      using True less.prems by (intro less.hyps) (auto simp: q l)
    have "{k div 8..<len div 8} = {k div 8..<k div 8 + 8} \<union> {(k + 64) div 8..<len div 8}"
      using True by (auto simp: q l)
    then show ?thesis
      using True by (subst store_vec_rep_loop.simps) (auto simp: Let_def TASVIR_VEC_BYTES_def vec IH)
  next
    case False
    then have "len = k + 64" using less.prems by (auto simp: q l)
    then have "len div 8 = k div 8 + 8" by (simp add: q)
    then show ?thesis
      using False by (subst store_vec_rep_loop.simps) (simp add: Let_def TASVIR_VEC_BYTES_def vec)
  qed
qed

lemma tasvir_store_vec_rep_same:
  "64 dvd len \<Longrightarrow> 0 < len \<Longrightarrow>
   tasvir_store_vec_rep (\<lambda>j. g (p + 8 * of_nat j)) p len m a =
     (if a \<in> (\<lambda>j. p + 8 * of_nat j) ` {0..<len div 8} then g a else m a)"
  using store_vec_rep_loop_same [of 0 len g p m a] by (simp add: tasvir_store_vec_rep_def)

text \<open>The words of the data region, and the lines they lie in.\<close>

definition data_word :: "addr \<Rightarrow> bool" where
  "data_word a \<longleftrightarrow> 2 ^ 40 \<le> unat a \<and> unat a < 2 ^ 41 \<and> 8 dvd unat a"

lemma line_of_data_word: "data_word a \<Longrightarrow> line_of a = (unat a - 2 ^ 40) div 64"
proof -
  assume "data_word a"
  then have "unat a mod 2 ^ 40 = unat a - 2 ^ 40"
    by (auto simp: data_word_def mod_if [of "unat a"])
  then show ?thesis by (simp add: line_of_def)
qed

lemma word_in_lines:
  assumes a: "data_word a" and o: "o_s + n \<le> 2 ^ 34"
  shows "a \<in> (\<lambda>j. TASVIR_ADDR_DATA + push_bit 6 (of_nat o_s) + 8 * of_nat j) ` {0..<8 * n} \<longleftrightarrow>
    line_of a \<in> {o_s..<o_s + n}" (is "?L \<longleftrightarrow> ?R")
proof -
  have A: "unat (TASVIR_ADDR_DATA + push_bit 6 (of_nat o_s) + 8 * of_nat j) = 2 ^ 40 + 64 * o_s + 8 * j"
    if "j < 8 * n" for j
  proof -
    have "TASVIR_ADDR_DATA + push_bit 6 (of_nat o_s) + 8 * of_nat j = (of_nat (2 ^ 40 + 64 * o_s + 8 * j) :: u64)"
      by (simp add: layout_simps push_bit_eq_mult)
    moreover have "2 ^ 40 + 64 * o_s + 8 * j < (2::nat) ^ 64" using o that by simp
    ultimately show ?thesis by (simp only: unat_of_nat) simp
  qed
  obtain k where k: "unat a = 8 * k" "2 ^ 40 \<le> unat a" using a by (auto simp: data_word_def)
  define w where "w = k - 2 ^ 37"
  have w: "unat a = 2 ^ 40 + 8 * w" using k by (simp add: w_def)
  have line: "line_of a = w div 8" using line_of_data_word [OF a] by (simp add: w)
  show ?thesis
  proof
    assume ?L
    then obtain j where j: "j < 8 * n" "a = TASVIR_ADDR_DATA + push_bit 6 (of_nat o_s) + 8 * of_nat j" by auto
    then have "w = 8 * o_s + j" using A [OF j(1)] w by simp
    then show ?R using j(1) by (auto simp: line)
  next
    assume ?R
    then have R: "8 * o_s \<le> w" "w - 8 * o_s < 8 * n" by (auto simp: line)
    have "unat a = unat (TASVIR_ADDR_DATA + push_bit 6 (of_nat o_s) + 8 * of_nat (w - 8 * o_s))"
      using A [OF R(2)] R(1) w by simp
    then show ?L using R(2) by (metis (mono_tags, lifting) atLeast0LessThan imageI lessThan_iff word_unat_eq_iff)
  qed
qed


section \<open>The frame of a state update\<close>

text \<open>What the walk and the copies leave alone.\<close>

definition same_world :: "('p, 'r, 'n) tasvir \<Rightarrow> ('p, 'r, 'n) tasvir \<Rightarrow> bool" where
  "same_world s s' \<longleftrightarrow> va_rw s' = va_rw s \<and> is_daemon s' = is_daemon s \<and> root_desc s' = root_desc s \<and>
     tdata_idx s' = tdata_idx s \<and> length (tdata (ndata s')) = length (tdata (ndata s)) \<and>
     thread s' = thread s \<and> jobs (ndata s') = jobs (ndata s)"

lemma same_world_refl [simp]: "same_world s s"
  by (simp add: same_world_def)

lemma same_world_trans: "same_world s t \<Longrightarrow> same_world t u \<Longrightarrow> same_world s u"
  by (simp add: same_world_def)

lemma upd_tdata_simps [simp]:
  "m_ro (upd_tdata i f s) = m_ro s" "m_rw (upd_tdata i f s) = m_rw s" "m_log (upd_tdata i f s) = m_log s"
  "va_rw (upd_tdata i f s) = va_rw s" "is_daemon (upd_tdata i f s) = is_daemon s"
  "root_desc (upd_tdata i f s) = root_desc s" "tdata_idx (upd_tdata i f s) = tdata_idx s"
  "length (tdata (ndata (upd_tdata i f s))) = length (tdata (ndata s))"
  "thread (upd_tdata i f s) = thread s" "node (upd_tdata i f s) = node s" "jobs (ndata (upd_tdata i f s)) = jobs (ndata s)"
  by (simp_all add: upd_tdata_def)

lemma my_tdata_upd [simp]:
  "i = tdata_idx s \<Longrightarrow> i < length (tdata (ndata s)) \<Longrightarrow> my_tdata (upd_tdata i f s) = f (my_tdata s)"
  by (simp add: my_tdata_def upd_tdata_def)

lemma my_tdata_m_ro [simp]: "my_tdata (s\<lparr>m_ro := x\<rparr>) = my_tdata s"
  by (simp add: my_tdata_def)

section \<open>Copying the pending ranges\<close>

lemma item_bytes:
  assumes "item_ok it"
  shows "unat (ucast (push_bit TASVIR_SHIFT_BIT (len_scaled it)) :: u64) = 64 * unat (len_scaled it)"
proof -
  have "push_bit 6 (len_scaled it) = of_nat (64 * unat (len_scaled it))"
    by (simp add: push_bit_eq_mult)
  then have "unat (push_bit 6 (len_scaled it)) = 64 * unat (len_scaled it)"
    using assms by (simp only: unat_of_nat) (simp add: item_ok_def)
  moreover have "64 * unat (len_scaled it) < 2 ^ 64" using assms by (simp add: item_ok_def)
  ultimately show ?thesis by (simp add: shift_consts unsigned_ucast_eq take_bit_nat_eq_self)
qed

lemma process_item_internal:
  assumes "item_ok it" "tdata_idx s < length (tdata (ndata s))"
  obtains s' where "process_item E d False l it s = Some s'" "same_world s s'"
    "m_rw s' = m_rw s" "m_log s' = m_log s"
    "\<And>a. data_word a \<Longrightarrow> m_ro s' a = (if line_of a \<in> item_lines it then m_rw s a else m_ro s a)"
    "t_sync_list (my_tdata s') = (t_sync_list (my_tdata s))\<lparr>changed := changed (t_sync_list (my_tdata s)) +
        of_nat (64 * unat (len_scaled it))\<rparr>"
proof -
  define p where "p = TASVIR_ADDR_DATA + push_bit TASVIR_SHIFT_BIT (offset_scaled it)"
  define len where "len = (ucast (push_bit TASVIR_SHIFT_BIT (len_scaled it)) :: u64)"
  define s1 where "s1 = s\<lparr>m_ro := tasvir_store_vec_rep (\<lambda>i. m_rw s (p + 8 * of_nat i)) p (unat len) (m_ro s)\<rparr>"
  define s' where "s' = upd_tdata (tdata_idx s1) (\<lambda>t. t\<lparr>t_sync_list :=
      (t_sync_list t)\<lparr>changed := changed (t_sync_list t) + ucast len\<rparr>\<rparr>) s1"
  have run: "process_item E d False l it s = Some s'"
    by (simp add: process_item_def Let_def s'_def s1_def p_def len_def)
  have len: "unat len = 64 * unat (len_scaled it)" unfolding len_def by (rule item_bytes [OF assms(1)])
  have "ucast len = (of_nat (unat len) :: u32)" by simp
  then have ch: "ucast len = (of_nat (64 * unat (len_scaled it)) :: u32)" by (simp only: len)
  have cp: "m_ro s1 a = (if line_of a \<in> item_lines it then m_rw s a else m_ro s a)" if "data_word a" for a
  proof -
    have "offset_scaled it = of_nat (unat (offset_scaled it))" by simp
    then have "p = TASVIR_ADDR_DATA + push_bit 6 (of_nat (unat (offset_scaled it)))"
      by (simp add: p_def shift_consts)
    then show ?thesis
      using word_in_lines [OF that, of "unat (offset_scaled it)" "unat (len_scaled it)"] assms(1)
      by (simp add: s1_def tasvir_store_vec_rep_same len item_ok_def item_lines_def)
  qed
  show thesis
  proof (rule that [of s'])
    show "same_world s s'" by (simp add: s'_def s1_def same_world_def)
    show "t_sync_list (my_tdata s') = (t_sync_list (my_tdata s))\<lparr>changed := changed (t_sync_list (my_tdata s)) +
        of_nat (64 * unat (len_scaled it))\<rparr>"
      using assms(2) by (simp add: s'_def s1_def ch)
  qed (use run cp in \<open>simp_all add: s'_def s1_def\<close>)
qed

lemma process_items_internal:
  assumes "list_all item_ok its" "tdata_idx s < length (tdata (ndata s))"
  shows "\<exists>s' k. process_items E d False r its s = Some s' \<and> same_world s s' \<and>
    m_rw s' = m_rw s \<and> m_log s' = m_log s \<and>
    (\<forall>a. data_word a \<longrightarrow> m_ro s' a = (if line_of a \<in> lines_of its then m_rw s a else m_ro s a)) \<and>
    t_sync_list (my_tdata s') = (t_sync_list (my_tdata s))\<lparr>changed := k\<rparr>"
  using assms
proof (induction its arbitrary: s)
  case Nil
  show ?case by (rule exI [of _ s], rule exI [of _ "changed (t_sync_list (my_tdata s))"]) simp
next
  case (Cons it its)
  from Cons.prems have ok: "item_ok it" "list_all item_ok its" by simp_all
  obtain s1 where s1: "process_item E d False (r \<and> its = []) it s = Some s1" "same_world s s1"
    "m_rw s1 = m_rw s" "m_log s1 = m_log s"
    "\<And>a. data_word a \<Longrightarrow> m_ro s1 a = (if line_of a \<in> item_lines it then m_rw s a else m_ro s a)"
    "t_sync_list (my_tdata s1) = (t_sync_list (my_tdata s))\<lparr>changed := changed (t_sync_list (my_tdata s)) +
        of_nat (64 * unat (len_scaled it))\<rparr>"
    using process_item_internal [OF ok(1) Cons.prems(2), of E d "r \<and> its = []"] by blast
  have "tdata_idx s1 < length (tdata (ndata s1))" using s1(2) Cons.prems(2) by (simp add: same_world_def)
  with Cons.IH [of s1] Cons.prems(1) obtain s' k where s': "process_items E d False r its s1 = Some s'"
    "same_world s1 s'" "m_rw s' = m_rw s1" "m_log s' = m_log s1"
    "\<forall>a. data_word a \<longrightarrow> m_ro s' a = (if line_of a \<in> lines_of its then m_rw s1 a else m_ro s1 a)"
    "t_sync_list (my_tdata s') = (t_sync_list (my_tdata s1))\<lparr>changed := k\<rparr>" by auto
  show ?case
    using s1 s' same_world_trans [OF s1(2) s'(2)]
    by (intro exI [of _ s'] exI [of _ k]) auto
qed

lemma process_changes_internal:
  assumes "list_all item_ok (pending (t_sync_list (my_tdata s)))" "tdata_idx s < length (tdata (ndata s))"
  obtains n s' k where "tasvir_sync_process_changes E d r False s = Some (n, s')" "same_world s s'"
    "m_rw s' = m_rw s" "m_log s' = m_log s"
    "\<And>a. data_word a \<Longrightarrow>
       m_ro s' a = (if line_of a \<in> lines_of (pending (t_sync_list (my_tdata s))) then m_rw s a else m_ro s a)"
    "t_sync_list (my_tdata s') = (t_sync_list (my_tdata s))\<lparr>cnt := 0, changed := k\<rparr>"
proof -
  let ?l = "t_sync_list (my_tdata s)"
  obtain s1 k where s1: "process_items E d False r (pending ?l) s = Some s1" "same_world s s1"
    "m_rw s1 = m_rw s" "m_log s1 = m_log s"
    "\<forall>a. data_word a \<longrightarrow> m_ro s1 a = (if line_of a \<in> lines_of (pending ?l) then m_rw s a else m_ro s a)"
    "t_sync_list (my_tdata s1) = ?l\<lparr>changed := k\<rparr>"
    using process_items_internal [OF assms, of E d r] by auto
  have i: "tdata_idx s1 < length (tdata (ndata s1))" using s1(2) assms(2) by (simp add: same_world_def)
  show thesis
    by (rule that [of "scast (changed (t_sync_list (my_tdata s1)))"
          "upd_tdata (tdata_idx s1) (\<lambda>t. t\<lparr>t_sync_list := (t_sync_list t)\<lparr>cnt := 0,
             changed := (if r then 0 else changed (t_sync_list t))\<rparr>\<rparr>) s1" "if r then 0 else k"])
      (use s1 i in \<open>simp_all add: tasvir_sync_process_changes_def pending_def Let_def same_world_def\<close>)
qed

section \<open>Stores to logs\<close>

definition unit_addrs :: "addr \<Rightarrow> nat \<Rightarrow> nat \<Rightarrow> addr set" where
  "unit_addrs p li n = (\<lambda>k. p + 8 * of_nat k) ` {li..<li + n}"

lemma unit_addrs_Suc: "unit_addrs p li (Suc n) = insert (p + 8 * of_nat li) (unit_addrs p (Suc li) n)"
proof -
  have "{li..<li + Suc n} = insert li {Suc li..<Suc li + n}" by auto
  then show ?thesis by (simp add: unit_addrs_def)
qed

lemma wr_frame:
  "a \<noteq> b \<Longrightarrow> m_ro (wr b v s) a = m_ro s a" "a \<noteq> b \<Longrightarrow> m_rw (wr b v s) a = m_rw s a"
  "m_log (wr b v s) = m_log s" "ndata (wr b v s) = ndata s" "same_world s (wr b v s)"
  "rd (wr b v s) a = (if a = b then v else rd s a)"
  by (auto simp: wr_def rd_def same_world_def)

lemma store_units_area:
  "m_log (store_units (Area_Log p) li vs s) = m_log s \<and> ndata (store_units (Area_Log p) li vs s) = ndata s \<and>
   same_world s (store_units (Area_Log p) li vs s) \<and>
   (\<forall>a. a \<notin> unit_addrs p li (length vs) \<longrightarrow>
     m_ro (store_units (Area_Log p) li vs s) a = m_ro s a \<and> m_rw (store_units (Area_Log p) li vs s) a = m_rw s a)"
proof (induction vs arbitrary: li s)
  case (Cons v vs)
  let ?s = "wr (p + 8 * of_nat li) v s"
  note IH = Cons.IH [of "Suc li" ?s]
  then have "same_world s (store_units (Area_Log p) (Suc li) vs ?s)"
    using same_world_trans [OF wr_frame(5)] by blast
  with IH show ?case by (auto simp: log_store_def unit_addrs_Suc wr_frame)
qed simp

lemma unit_addr_inj:
  "i < 2 ^ 61 \<Longrightarrow> j < 2 ^ 61 \<Longrightarrow> (p :: u64) + 8 * of_nat i = p + 8 * of_nat j \<longleftrightarrow> i = j"
proof -
  assume ij: "i < 2 ^ 61" "j < 2 ^ 61"
  have "unat (8 * of_nat i :: u64) = 8 * i" if "i < 2 ^ 61" for i
  proof -
    have "(8 * of_nat i :: u64) = of_nat (8 * i)" by simp
    then show ?thesis using that by (simp only: unat_of_nat) simp
  qed
  from this [OF ij(1)] this [OF ij(2)] show ?thesis
    by (metis add_left_cancel mult_left_cancel zero_neq_numeral)
qed

lemma rd_store_units:
  "li + length vs \<le> 2 ^ 61 \<Longrightarrow> j < 2 ^ 61 \<Longrightarrow>
   rd (store_units (Area_Log p) li vs s) (p + 8 * of_nat j) =
     (if li \<le> j \<and> j < li + length vs then vs ! (j - li) else rd s (p + 8 * of_nat j))"
proof (induction vs arbitrary: li s)
  case (Cons v vs)
  have "p + 8 * of_nat j = p + 8 * of_nat li \<longleftrightarrow> j = li"
    using Cons.prems by (intro unit_addr_inj) auto
  then show ?case
    using Cons.IH [of "Suc li"] Cons.prems by (auto simp: log_store_def wr_frame nth_Cons' Suc_le_eq)
qed auto

lemma store_units_dirty:
  "m_ro (store_units (Dirty_Log u) li vs s) = m_ro s \<and> m_rw (store_units (Dirty_Log u) li vs s) = m_rw s \<and>
   ndata (store_units (Dirty_Log u) li vs s) = ndata s \<and> same_world s (store_units (Dirty_Log u) li vs s)"
  by (induction vs arbitrary: li s) (simp_all add: log_store_def same_world_def)

lemma clear_units:
  "m_log (store_units (Dirty_Log u) li (replicate n 0) s) x =
     (if x \<in> (\<lambda>k. u + of_nat k) ` {li..<li + n} then 0 else m_log s x)"
proof (induction n arbitrary: li s)
  case (Suc n)
  have "{li..<li + Suc n} = insert li {Suc li..<Suc li + n}" by auto
  then show ?case using Suc.IH [of "Suc li"] by (auto simp: log_store_def)
qed simp

section \<open>The walk over the dirty log\<close>

text \<open>The \<open>n\<close> units of the dirty log from unit \<open>u + i\<close> on, as the walk of \<open>tasvir_sync_parse_log\<close> sees them.\<close>

definition dirty_units :: "logmem \<Rightarrow> u64 \<Rightarrow> nat \<Rightarrow> nat \<Rightarrow> u64 list" where
  "dirty_units m u i n = map (\<lambda>j. m (u + of_nat j)) [i..<i + n]"

lemma length_dirty_units [simp]: "length (dirty_units m u i n) = n"
  by (simp add: dirty_units_def)

lemma dirty_units_add: "dirty_units m u i (n + k) = dirty_units m u i n @ dirty_units m u (i + n) k"
proof -
  have "[i..<i + (n + k)] = [i..<i + n] @ [i + n..<i + n + k]"
    using upt_add_eq_append [of i "i + n" k] by (simp add: add.assoc)
  then show ?thesis by (simp only: dirty_units_def map_append)
qed

lemma load8_dirty: "load8 s (Dirty_Log u) li = dirty_units (m_log s) u li 8"
  by (rule nth_equalityI) (simp_all add: load8_def dirty_units_def log_load_def)

text \<open>The words of the private log the walk may write.\<close>

definition log_words :: "addr \<Rightarrow> nat \<Rightarrow> nat \<Rightarrow> addr set" where
  "log_words L i n = (if L = 0 then {} else unit_addrs L i n)"

record ('p, 'r, 'n) walk =
  w_log :: addr
  w_u :: u64
  w_i :: nat
  w_n :: nat
  w_c :: scan
  w_s :: "('p, 'r, 'n) tasvir"

text \<open>What a walk over \<open>w_n\<close> blocks of eight units needs.\<close>

definition walk_ok :: "('p, 'r, 'n) walk \<Rightarrow> bool" where
  "walk_ok w \<longleftrightarrow> scan_ok (w_c w) \<and> lbits1 (w_c w) = 0 \<and> lbits1_total (w_c w) = 0 \<and>
     cnt (sync_l (w_c w)) \<le> 256 \<and> scan_end (w_c w) + 512 * w_n w \<le> 2 ^ 34 \<and> 512 * w_n w < 2 ^ 26 \<and>
     w_i w + 8 * w_n w \<le> 2 ^ 28 \<and> tdata_idx (w_s w) < length (tdata (ndata (w_s w))) \<and>
     (\<forall>a\<in>log_words (w_log w) (w_i w) (8 * w_n w). data_word a \<and>
        line_of a \<notin> covered (w_c w) \<union> {scan_end (w_c w)..<scan_end (w_c w) + 512 * w_n w})"

definition walk_bits :: "('p, 'r, 'n) walk \<Rightarrow> nat \<Rightarrow> bool list" where
  "walk_bits w k = units_bits (dirty_units (m_log (w_s w)) (w_u w) (w_i w) (8 * k))"

definition walk_lines :: "('p, 'r, 'n) walk \<Rightarrow> nat \<Rightarrow> nat set" where
  "walk_lines w k = covered (w_c w) \<union> bit_lines (scan_end (w_c w)) (walk_bits w k)"

definition walk_scan :: "('p, 'r, 'n) walk \<Rightarrow> nat \<Rightarrow> scan \<Rightarrow> bool" where
  "walk_scan w k c \<longleftrightarrow> scan_ok c \<and> scan_end c = scan_end (w_c w) + 512 * k \<and> lbits1 c \<le> 512 * k \<and>
     (cnt (sync_l c) \<le> 255 \<or> lbits1 c = 0 \<and> cnt (sync_l c) \<le> 256) \<and>
     lbits1_total c + lbits1 c = count_list (walk_bits w k) True \<and>
     covered c \<subseteq> covered (w_c w) \<union> {scan_end (w_c w)..<scan_end c}"

definition walk_mem :: "('p, 'r, 'n) walk \<Rightarrow> nat \<Rightarrow> scan \<Rightarrow> ('p, 'r, 'n) tasvir \<Rightarrow> bool" where
  "walk_mem w k c s \<longleftrightarrow>
     (\<forall>a. data_word a \<and> a \<notin> log_words (w_log w) (w_i w) (8 * w_n w) \<longrightarrow> m_rw s a = m_rw (w_s w) a \<and>
       m_ro s a \<in> {m_ro (w_s w) a, m_rw (w_s w) a} \<and>
       (if line_of a \<in> covered c then m_rw (w_s w) a else m_ro s a) =
       (if line_of a \<in> walk_lines w k then m_rw (w_s w) a else m_ro (w_s w) a))"

definition walk_logs :: "('p, 'r, 'n) walk \<Rightarrow> nat \<Rightarrow> ('p, 'r, 'n) tasvir \<Rightarrow> bool" where
  "walk_logs w k s \<longleftrightarrow>
     (\<forall>x. m_log s x = (if x \<in> (\<lambda>j. w_u w + of_nat j) ` {w_i w..<w_i w + 8 * k} then 0 else m_log (w_s w) x)) \<and>
     (w_log w \<noteq> 0 \<longrightarrow> (\<forall>j\<in>{w_i w..<w_i w + 8 * w_n w}. rd s (w_log w + 8 * of_nat j) =
        (if j < w_i w + 8 * k then rd (w_s w) (w_log w + 8 * of_nat j) OR m_log (w_s w) (w_u w + of_nat j)
         else rd (w_s w) (w_log w + 8 * of_nat j))))"

definition walk_inv :: "('p, 'r, 'n) walk \<Rightarrow> nat \<Rightarrow> scan \<Rightarrow> ('p, 'r, 'n) tasvir \<Rightarrow> bool" where
  "walk_inv w k c s \<longleftrightarrow> same_world (w_s w) s \<and> walk_scan w k c \<and> walk_mem w k c s \<and> walk_logs w k s"

lemmas walk_defs = walk_scan_def walk_mem_def walk_logs_def walk_inv_def

lemma walk_bits_Suc:
  "walk_bits w (Suc k) = walk_bits w k @ units_bits (dirty_units (m_log (w_s w)) (w_u w) (w_i w + 8 * k) 8)"
  using dirty_units_add [of "m_log (w_s w)" "w_u w" "w_i w" "8 * k" 8]
  by (simp add: walk_bits_def units_bits_append add.commute)

lemma length_walk_bits [simp]: "length (walk_bits w k) = 512 * k"
  by (simp add: walk_bits_def)

lemma walk_lines_Suc:
  "walk_lines w (Suc k) = walk_lines w k \<union>
     bit_lines (scan_end (w_c w) + 512 * k) (units_bits (dirty_units (m_log (w_s w)) (w_u w) (w_i w + 8 * k) 8))"
  by (simp add: walk_lines_def walk_bits_Suc bit_lines_append Un_assoc)

lemma walk_inv_start: "walk_ok w \<Longrightarrow> walk_inv w 0 (w_c w) (w_s w)"
  by (auto simp: walk_defs walk_ok_def walk_bits_def walk_lines_def units_bits_def dirty_units_def)

text \<open>The scan of one block.\<close>

lemma bit_lines_sub: "bit_lines n bs \<subseteq> {n..<n + length bs}"
  by (auto simp: bit_lines_def)

lemma walk_scan_step:
  assumes w: "walk_ok w" and k: "k < w_n w" and c: "walk_scan w k c"
    and bs: "bs = units_bits (dirty_units (m_log (w_s w)) (w_u w) (w_i w + 8 * k) 8)"
  obtains c' where "scan_bits bs c = Some c'" "covered c' = covered c \<union> bit_lines (scan_end c) bs"
    "cnt (sync_l c') < 512" "scan_ok c'" "lbits1 c' \<le> 512 * Suc k"
    "scan_end c' = scan_end (w_c w) + 512 * Suc k"
    "lbits1_total c' + lbits1 c' = count_list (walk_bits w (Suc k)) True"
    "covered c' \<subseteq> covered (w_c w) \<union> {scan_end (w_c w)..<scan_end c'}"
proof -
  have len: "length bs = 512" by (simp add: bs)
  have "cnt (sync_l c) \<le> 255 \<or> lbits1 c = 0 \<and> cnt (sync_l c) \<le> 256" using c by (simp add: walk_scan_def)
  then obtain c' where c': "scan_bits bs c = Some c'" "cnt (sync_l c') < 512"
  proof
    assume le: "cnt (sync_l c) \<le> 255"
    have "(length bs + of_bool (lbits0 c \<noteq> 0)) div 2 = 256" by (simp add: len)
    with scan_bits_bound [of c bs] le that show thesis by (auto simp: TASVIR_SYNC_LIST_LEN_def)
  next
    assume le: "lbits1 c = 0 \<and> cnt (sync_l c) \<le> 256"
    with scan_bits_bound_fresh [of c bs] that show thesis by (auto simp: TASVIR_SYNC_LIST_LEN_def len)
  qed
  have "scan_end c + length bs \<le> 2 ^ 34" "lbits1 c + length bs < 2 ^ 26"
    using w c k by (auto simp: walk_ok_def walk_scan_def len)
  note f = scan_bits_cov [OF c'(1) _ this]
  have ok: "scan_ok c" and se: "scan_end c = scan_end (w_c w) + 512 * k"
    and sub: "covered c \<subseteq> covered (w_c w) \<union> {scan_end (w_c w)..<scan_end c}"
    and l1: "lbits1 c \<le> 512 * k" and tot: "lbits1_total c + lbits1 c = count_list (walk_bits w k) True"
    using c unfolding walk_scan_def by blast+
  note f = f [OF ok]
  show thesis
  proof (rule that [OF c'(1) _ c'(2)])
    show "covered c' \<subseteq> covered (w_c w) \<union> {scan_end (w_c w)..<scan_end c'}"
      using f sub bit_lines_sub [of "scan_end c" bs] by (auto simp: len se)
    show "lbits1_total c' + lbits1 c' = count_list (walk_bits w (Suc k)) True"
      using f tot by (simp add: walk_bits_Suc bs)
  qed (use f l1 in \<open>auto simp: se len\<close>)
qed

text \<open>The stores of one block: the private log collects the units, the dirty log is cleared.\<close>

definition block_stores :: "u64 \<Rightarrow> addr \<Rightarrow> nat \<Rightarrow> u64 list \<Rightarrow> ('p, 'r, 'n) tasvir \<Rightarrow> ('p, 'r, 'n) tasvir" where
  "block_stores u L li v s = store_units (Dirty_Log u) li (replicate 8 0)
     (if L \<noteq> 0 then store_units (Area_Log L) li (or8 v (load8 s (Area_Log L) li)) s else s)"

lemma parse_block_internal:
  "parse_block E d 0 False (Dirty_Log u) L li (c, s) =
    (let v = dirty_units (m_log s) u li 8
     in if one_mask_of v = 0 then Some (c\<lparr>lbits0 := lbits0 c + 512\<rparr>, s)
        else do { let s = block_stores u L li v s;
                  c \<leftarrow> scan_bits (units_bits v) c;
                  if cnt (sync_l c) \<ge> 256
                  then do { (_, s) \<leftarrow> tasvir_sync_process_changes E d False False (set_my_sync_list (sync_l c) s);
                            Some (c\<lparr>sync_l := t_sync_list (my_tdata s)\<rparr>, s) }
                  else Some (c, s) })"
  using scan_units_bits [of "dirty_units (m_log s) u li 8" 0]
  by (simp add: parse_block_def load8_dirty block_stores_def TASVIR_LOG_UNIT_BITS_def TASVIR_SYNC_LIST_LEN_def Let_def)

lemma block_stores_frame:
  "same_world s (block_stores u L li v s)" "ndata (block_stores u L li v s) = ndata s"
  "m_log (block_stores u L li v s) x = (if x \<in> (\<lambda>k. u + of_nat k) ` {li..<li + 8} then 0 else m_log s x)"
proof -
  let ?s = "if L \<noteq> 0 then store_units (Area_Log L) li (or8 v (load8 s (Area_Log L) li)) s else s"
  have 1: "same_world s ?s \<and> ndata ?s = ndata s \<and> m_log ?s = m_log s" using store_units_area by auto
  note 2 = store_units_dirty [of u li "replicate 8 0" ?s]
  show "same_world s (block_stores u L li v s)" "ndata (block_stores u L li v s) = ndata s"
    unfolding block_stores_def using same_world_trans [of s ?s] 1 2 by auto
  show "m_log (block_stores u L li v s) x = (if x \<in> (\<lambda>k. u + of_nat k) ` {li..<li + 8} then 0 else m_log s x)"
    unfolding block_stores_def clear_units using 1 by simp
qed

lemma length_or8 [simp]: "length xs = 8 \<Longrightarrow> length (or8 xs (load8 s l li)) = 8"
  by (simp add: or8_def load8_def)

lemma block_stores_mem:
  assumes "a \<notin> log_words L li 8" "length v = 8"
  shows "m_ro (block_stores u L li v s) a = m_ro s a" "m_rw (block_stores u L li v s) a = m_rw s a"
  using assms store_units_area [of L li "or8 v (load8 s (Area_Log L) li)" s]
  by (cases "L = 0"; simp add: block_stores_def store_units_dirty log_words_def)+

lemma rd_block_stores:
  assumes "L \<noteq> 0" "li + 8 \<le> 2 ^ 61" "j < 2 ^ 61" "length v = 8"
  shows "rd (block_stores u L li v s) (L + 8 * of_nat j) =
     (if li \<le> j \<and> j < li + 8 then rd s (L + 8 * of_nat j) OR v ! (j - li) else rd s (L + 8 * of_nat j))"
proof -
  let ?s = "store_units (Area_Log L) li (or8 v (load8 s (Area_Log L) li)) s"
  have "rd (block_stores u L li v s) a = rd ?s a" for a
    using store_units_dirty [of u li "replicate 8 0" ?s] assms(1)
    by (simp add: block_stores_def rd_def same_world_def)
  moreover have "or8 v (load8 s (Area_Log L) li) ! (j - li) = rd s (L + 8 * of_nat j) OR v ! (j - li)"
    if "li \<le> j" "j < li + 8"
  proof -
    define i where "i = j - li"
    have i: "j = li + i" "i < 8" using that by (auto simp: i_def)
    then show ?thesis using assms(4) by (simp add: or8_def load8_def log_load_def or.commute)
  qed
  ultimately show ?thesis using assms rd_store_units [of li "or8 v (load8 s (Area_Log L) li)" j L s] by simp
qed

lemma one_mask_zero:
  assumes "length v = 8" "one_mask_of v = 0"
  shows "v = replicate 8 0"
proof -
  have "v ! k = 0" if "k < 8" for k
  proof -
    have "\<not> bit (one_mask_of v) k" by (simp add: assms(2))
    then show ?thesis unfolding one_mask_of_def using assms(1) that by (subst (asm) bit_horner_sum_bit_iff) auto
  qed
  then show ?thesis using assms(1) by (intro nth_equalityI) (auto)
qed

text \<open>One block keeps the invariant.\<close>

lemma u_add_inj: "i < 2 ^ 64 \<Longrightarrow> j < 2 ^ 64 \<Longrightarrow> (u :: u64) + of_nat i = u + of_nat j \<longleftrightarrow> i = j"
  by (simp add: of_nat_inverse word_of_nat_eq_iff take_bit_nat_eq_self)

lemma walk_units:
  assumes "walk_ok w" "walk_logs w k s" "k < w_n w"
  shows "dirty_units (m_log s) (w_u w) (w_i w + 8 * k) 8 = dirty_units (m_log (w_s w)) (w_u w) (w_i w + 8 * k) 8"
proof -
  have "m_log s (w_u w + of_nat j) = m_log (w_s w) (w_u w + of_nat j)"
    if "w_i w + 8 * k \<le> j" "j < w_i w + 8 * k + 8" for j
  proof -
    have lt: "j < 2 ^ 28" using that assms by (simp add: walk_ok_def)
    have "w_u w + of_nat j \<notin> (\<lambda>j. w_u w + of_nat j) ` {w_i w..<w_i w + 8 * k}"
    proof
      assume "w_u w + of_nat j \<in> (\<lambda>j. w_u w + of_nat j) ` {w_i w..<w_i w + 8 * k}"
      then obtain i where "w_u w + of_nat j = w_u w + of_nat i" "i < w_i w + 8 * k" by auto
      with u_add_inj [of j i "w_u w"] lt that(1) show False by simp
    qed
    then show ?thesis using assms(2) by (simp add: walk_logs_def)
  qed
  then show ?thesis by (simp add: dirty_units_def)
qed

lemma log_words_sub: "k < n \<Longrightarrow> log_words L (i + 8 * k) 8 \<subseteq> log_words L i (8 * n)"
  by (auto simp: log_words_def unit_addrs_def)

lemma walk_logs_stores:
  assumes w: "walk_ok w" and k: "k < w_n w" and logs: "walk_logs w k s"
    and v: "v = dirty_units (m_log (w_s w)) (w_u w) (w_i w + 8 * k) 8"
  shows "walk_logs w (Suc k) (block_stores (w_u w) (w_log w) (w_i w + 8 * k) v s)" (is "walk_logs w _ ?s")
proof -
  have le: "w_i w + 8 * w_n w \<le> 2 ^ 28" using w by (simp add: walk_ok_def)
  have "{w_i w..<w_i w + 8 * Suc k} = {w_i w..<w_i w + 8 * k} \<union> {w_i w + 8 * k..<w_i w + 8 * k + 8}" by auto
  then have "m_log ?s x = (if x \<in> (\<lambda>j. w_u w + of_nat j) ` {w_i w..<w_i w + 8 * Suc k} then 0 else m_log (w_s w) x)" for x
    using logs by (auto simp: block_stores_frame walk_logs_def)
  moreover have "rd ?s (w_log w + 8 * of_nat j) =
      (if j < w_i w + 8 * Suc k then rd (w_s w) (w_log w + 8 * of_nat j) OR m_log (w_s w) (w_u w + of_nat j)
       else rd (w_s w) (w_log w + 8 * of_nat j))"
    if "w_log w \<noteq> 0" "w_i w \<le> j" "j < w_i w + 8 * w_n w" for j
  proof -
    have "v ! (j - (w_i w + 8 * k)) = m_log (w_s w) (w_u w + of_nat j)"
      if "w_i w + 8 * k \<le> j" "j < w_i w + 8 * k + 8"
      using that unfolding v dirty_units_def by (subst nth_map) auto
    moreover have "rd s (w_log w + 8 * of_nat j) =
      (if j < w_i w + 8 * k then rd (w_s w) (w_log w + 8 * of_nat j) OR m_log (w_s w) (w_u w + of_nat j)
       else rd (w_s w) (w_log w + 8 * of_nat j))"
      using logs that by (simp add: walk_logs_def)
    moreover have "rd ?s (w_log w + 8 * of_nat j) = (if w_i w + 8 * k \<le> j \<and> j < w_i w + 8 * k + 8
        then rd s (w_log w + 8 * of_nat j) OR v ! (j - (w_i w + 8 * k)) else rd s (w_log w + 8 * of_nat j))"
      using that le k by (intro rd_block_stores) (auto simp: v)
    ultimately show ?thesis by auto
  qed
  ultimately show ?thesis by (simp add: walk_logs_def)
qed

lemma walk_logs_zero:
  assumes w: "walk_ok w" and k: "k < w_n w" and logs: "walk_logs w k s"
    and z: "dirty_units (m_log (w_s w)) (w_u w) (w_i w + 8 * k) 8 = replicate 8 0"
  shows "walk_logs w (Suc k) s"
proof -
  have z': "m_log (w_s w) (w_u w + of_nat j) = 0" if "w_i w + 8 * k \<le> j" "j < w_i w + 8 * k + 8" for j
  proof -
    have "dirty_units (m_log (w_s w)) (w_u w) (w_i w + 8 * k) 8 ! (j - (w_i w + 8 * k)) =
        m_log (w_s w) (w_u w + of_nat j)"
      using that unfolding dirty_units_def by (subst nth_map) auto
    moreover have "replicate 8 (0::u64) ! (j - (w_i w + 8 * k)) = 0" using that by (intro nth_replicate) simp
    ultimately show ?thesis by (simp add: z)
  qed
  have "{w_i w..<w_i w + 8 * Suc k} = {w_i w..<w_i w + 8 * k} \<union> {w_i w + 8 * k..<w_i w + 8 * k + 8}" by auto
  then have "m_log s x = (if x \<in> (\<lambda>j. w_u w + of_nat j) ` {w_i w..<w_i w + 8 * Suc k} then 0 else m_log (w_s w) x)" for x
    using logs z' by (auto simp: walk_logs_def)
  moreover have eq: "(if j < w_i w + 8 * Suc k then A OR m_log (w_s w) (w_u w + of_nat j) else A) =
      (if j < w_i w + 8 * k then A OR m_log (w_s w) (w_u w + of_nat j) else A)" for j A
    using z' [of j] by auto
  ultimately show ?thesis using logs unfolding walk_logs_def eq by blast
qed

lemma walk_mem_scan:
  assumes "walk_mem w k c s" "covered c' = covered c \<union> L" "walk_lines w (Suc k) = walk_lines w k \<union> L"
    "\<And>a. data_word a \<Longrightarrow> a \<notin> log_words (w_log w) (w_i w) (8 * w_n w) \<Longrightarrow> m_ro s' a = m_ro s a \<and> m_rw s' a = m_rw s a"
  shows "walk_mem w (Suc k) c' s'"
  unfolding walk_mem_def
proof (intro allI impI, elim conjE)
  fix a assume a: "data_word a" "a \<notin> log_words (w_log w) (w_i w) (8 * w_n w)"
  then have "m_rw s a = m_rw (w_s w) a \<and> m_ro s a \<in> {m_ro (w_s w) a, m_rw (w_s w) a} \<and> (if line_of a \<in> covered c then m_rw (w_s w) a else m_ro s a) =
       (if line_of a \<in> walk_lines w k then m_rw (w_s w) a else m_ro (w_s w) a)"
    using assms(1) by (simp add: walk_mem_def)
  then show "m_rw s' a = m_rw (w_s w) a \<and> m_ro s' a \<in> {m_ro (w_s w) a, m_rw (w_s w) a} \<and> (if line_of a \<in> covered c' then m_rw (w_s w) a else m_ro s' a) =
       (if line_of a \<in> walk_lines w (Suc k) then m_rw (w_s w) a else m_ro (w_s w) a)"
    using assms(2,3) assms(4) [OF a] by (auto split: if_splits)
qed


lemma set_my_sync_list_simps [simp]:
  "m_ro (set_my_sync_list l s) = m_ro s" "m_rw (set_my_sync_list l s) = m_rw s"
  "m_log (set_my_sync_list l s) = m_log s" "va_rw (set_my_sync_list l s) = va_rw s"
  "tdata_idx (set_my_sync_list l s) = tdata_idx s"
  "length (tdata (ndata (set_my_sync_list l s))) = length (tdata (ndata s))"
  "rd (set_my_sync_list l s) = rd s" "same_world t (set_my_sync_list l s) = same_world t s"
  by (auto simp: set_my_sync_list_def same_world_def rd_def fun_eq_iff)

lemma my_set_my_sync_list [simp]:
  "tdata_idx s < length (tdata (ndata s)) \<Longrightarrow> t_sync_list (my_tdata (set_my_sync_list l s)) = l"
  by (simp add: set_my_sync_list_def)

lemma walk_process:
  assumes w: "walk_ok w" and sw: "same_world (w_s w) s" and mem: "walk_mem w k c s" and logs: "walk_logs w k s"
    and c: "scan_ok c" "covered c \<subseteq> covered (w_c w) \<union> {scan_end (w_c w)..<scan_end (w_c w) + 512 * w_n w}"
  obtains n s' where "tasvir_sync_process_changes E d r False (set_my_sync_list (sync_l c) s) = Some (n, s')"
    "same_world (w_s w) s'" "walk_logs w k s'" "pending (t_sync_list (my_tdata s')) = []"
    "cnt (t_sync_list (my_tdata s')) = 0" "list_wf (t_sync_list (my_tdata s'))"
    "walk_mem w k (c\<lparr>sync_l := t_sync_list (my_tdata s')\<rparr>) s'"
proof -
  let ?s = "set_my_sync_list (sync_l c) s"
  have idx: "tdata_idx s < length (tdata (ndata s))" using w sw by (simp add: walk_ok_def same_world_def)
  have ok: "list_all item_ok (pending (t_sync_list (my_tdata ?s)))" using c idx by (simp add: scan_ok_def)
  obtain n s' k' where s': "tasvir_sync_process_changes E d r False ?s = Some (n, s')" "same_world ?s s'"
    "m_rw s' = m_rw s" "m_log s' = m_log s"
    "\<And>a. data_word a \<Longrightarrow> m_ro s' a = (if line_of a \<in> lines_of (pending (sync_l c)) then m_rw s a else m_ro s a)"
    "t_sync_list (my_tdata s') = (sync_l c)\<lparr>cnt := 0, changed := k'\<rparr>"
    using idx by (rule_tac process_changes_internal [OF ok, of E d r]) simp_all
  have p: "pending (t_sync_list (my_tdata s')) = []" by (simp add: s'(6) pending_def)
  have va: "va_rw s' = va_rw s" using s'(2) by (simp add: same_world_def)
  have rd: "rd s' a = rd s a" if "a \<in> log_words (w_log w) (w_i w) (8 * w_n w)" for a
  proof -
    have "data_word a \<and> line_of a \<notin> covered (w_c w) \<union> {scan_end (w_c w)..<scan_end (w_c w) + 512 * w_n w}"
      using w that unfolding walk_ok_def by blast
    with c(2) have "data_word a" "line_of a \<notin> covered c" by blast+
    then show ?thesis using s'(3) s'(5) [of a] va by (simp add: rd_def covered_def)
  qed
  have "walk_logs w k s'"
    using logs rd s'(4) unfolding walk_logs_def log_words_def unit_addrs_def by (auto split: if_splits)
  moreover have "same_world (w_s w) s'"
    using same_world_trans [OF _ s'(2)] sw by simp
  moreover have "walk_mem w k (c\<lparr>sync_l := t_sync_list (my_tdata s')\<rparr>) s'"
    unfolding walk_mem_def
  proof (intro allI impI, elim conjE)
    fix a assume a: "data_word a" "a \<notin> log_words (w_log w) (w_i w) (8 * w_n w)"
    then have "m_rw s a = m_rw (w_s w) a" "m_ro s a \<in> {m_ro (w_s w) a, m_rw (w_s w) a}" "(if line_of a \<in> covered c then m_rw (w_s w) a else m_ro s a) =
       (if line_of a \<in> walk_lines w k then m_rw (w_s w) a else m_ro (w_s w) a)"
      using mem by (simp_all add: walk_mem_def)
    then show "m_rw s' a = m_rw (w_s w) a \<and> m_ro s' a \<in> {m_ro (w_s w) a, m_rw (w_s w) a} \<and>
       (if line_of a \<in> covered (c\<lparr>sync_l := t_sync_list (my_tdata s')\<rparr>) then m_rw (w_s w) a else m_ro s' a) =
       (if line_of a \<in> walk_lines w k then m_rw (w_s w) a else m_ro (w_s w) a)"
      using s'(3) s'(5) [OF a(1)] p by (auto simp: covered_def)
  qed
  ultimately show thesis
    using that [OF s'(1)] p s'(6) c(1) by (simp add: scan_ok_def list_wf_def)
qed


lemma walk_step:
  assumes w: "walk_ok w" and k: "k < w_n w" and inv: "walk_inv w k c s"
  shows "\<exists>c' s'. parse_block E d 0 False (Dirty_Log (w_u w)) (w_log w) (w_i w + 8 * k) (c, s) = Some (c', s') \<and>
    walk_inv w (Suc k) c' s'"
proof -
  define v where "v = dirty_units (m_log (w_s w)) (w_u w) (w_i w + 8 * k) 8"
  let ?s = "block_stores (w_u w) (w_log w) (w_i w + 8 * k) v s"
  from inv have sw: "same_world (w_s w) s" and sc: "walk_scan w k c" and mem: "walk_mem w k c s"
    and logs: "walk_logs w k s" by (simp_all add: walk_inv_def)
  note units = walk_units [OF w logs k, folded v_def]
  have len: "length v = 8" by (simp add: v_def)
  obtain c1 where c1: "scan_bits (units_bits v) c = Some c1"
    "covered c1 = covered c \<union> bit_lines (scan_end c) (units_bits v)"
    "cnt (sync_l c1) < 512" "scan_ok c1" "lbits1 c1 \<le> 512 * Suc k" "scan_end c1 = scan_end (w_c w) + 512 * Suc k"
    "lbits1_total c1 + lbits1 c1 = count_list (walk_bits w (Suc k)) True"
    "covered c1 \<subseteq> covered (w_c w) \<union> {scan_end (w_c w)..<scan_end c1}"
    by (rule walk_scan_step [OF w k sc arg_cong [where f = units_bits, OF v_def]])
  have lines: "walk_lines w (Suc k) = walk_lines w k \<union> bit_lines (scan_end c) (units_bits v)"
    using sc by (simp add: walk_lines_Suc v_def walk_scan_def)
  note mem_scan = walk_mem_scan [OF mem c1(2) lines]
  show ?thesis
  proof (cases "one_mask_of v = 0")
    case True
    then have z: "v = replicate 8 0" by (rule one_mask_zero [OF len])
    then have "units_bits v = replicate 512 False" using units_bits_zeros [of v] by simp
    with c1(1) have c1': "c1 = c\<lparr>lbits0 := lbits0 c + 512\<rparr>" by (simp add: scan_bits_zeros)
    have "walk_scan w (Suc k) c1"
      using c1(4-8) sc by (simp add: walk_scan_def c1')
    moreover have "walk_mem w (Suc k) c1 s" by (rule mem_scan) simp
    moreover have "walk_logs w (Suc k) s" using walk_logs_zero [OF w k logs] z v_def by simp
    ultimately show ?thesis
      using True sw by (simp add: parse_block_internal units Let_def walk_inv_def c1' [symmetric])
  next
    case False
    have logs1: "walk_logs w (Suc k) ?s" by (rule walk_logs_stores [OF w k logs v_def])
    have mem1: "walk_mem w (Suc k) c1 ?s"
      using block_stores_mem [OF _ len] log_words_sub [OF k] by (intro mem_scan) blast
    have sw1: "same_world (w_s w) ?s" using same_world_trans [OF sw block_stores_frame(1)] .
    show ?thesis
    proof (cases "cnt (sync_l c1) \<ge> 256")
      case full: True
      have sub: "covered c1 \<subseteq> covered (w_c w) \<union> {scan_end (w_c w)..<scan_end (w_c w) + 512 * w_n w}"
        using c1(6,8) k by auto
      obtain n s' where s': "tasvir_sync_process_changes E d False False (set_my_sync_list (sync_l c1) ?s) = Some (n, s')"
        "same_world (w_s w) s'" "walk_logs w (Suc k) s'" "pending (t_sync_list (my_tdata s')) = []"
        "cnt (t_sync_list (my_tdata s')) = 0" "list_wf (t_sync_list (my_tdata s'))"
        "walk_mem w (Suc k) (c1\<lparr>sync_l := t_sync_list (my_tdata s')\<rparr>) s'"
        by (rule walk_process [OF w sw1 mem1 logs1 c1(4) sub])
      have "walk_scan w (Suc k) (c1\<lparr>sync_l := t_sync_list (my_tdata s')\<rparr>)"
        using c1(4-8) s'(4-6) by (auto simp: walk_scan_def scan_ok_def scan_end_def covered_def)
      then show ?thesis
        using False full c1(1) s' by (simp add: parse_block_internal units Let_def walk_inv_def)
    next
      case few: False
      then have "walk_scan w (Suc k) c1" using c1(4-8) by (simp add: walk_scan_def)
      then show ?thesis
        using False few c1(1) sw1 mem1 logs1 by (simp add: parse_block_internal units Let_def walk_inv_def)
    qed
  qed
qed

lemma walk_blocks:
  assumes w: "walk_ok w"
  shows "k \<le> w_n w \<Longrightarrow> walk_inv w k c s \<Longrightarrow>
    \<exists>c' s'. parse_blocks E d 0 False (Dirty_Log (w_u w)) (w_log w) (map (\<lambda>j. w_i w + 8 * j) [k..<w_n w]) (c, s) =
      Some (c', s') \<and> walk_inv w (w_n w) c' s'"
proof (induction "w_n w - k" arbitrary: k c s)
  case 0
  then show ?case by simp
next
  case (Suc n)
  then have k: "k < w_n w" by simp
  then obtain c1 s1 where 1: "parse_block E d 0 False (Dirty_Log (w_u w)) (w_log w) (w_i w + 8 * k) (c, s) = Some (c1, s1)"
    "walk_inv w (Suc k) c1 s1" using walk_step [OF w k Suc.prems(2), of E d] by auto
  with Suc.hyps(1) [of "Suc k" c1 s1] Suc.hyps(2) k show ?case by (simp add: upt_conv_Cons)
qed

section \<open>The dirty lines of a range\<close>

definition dirty_lines :: "logmem \<Rightarrow> nat \<Rightarrow> nat \<Rightarrow> nat set" where
  "dirty_lines m lo n = {l. lo \<le> l \<and> l < lo + n \<and> log_dirty m l}"

lemma units_bits_nth: "i < 64 * length vs \<Longrightarrow> units_bits vs ! i = bit (vs ! (i div 64)) (63 - i mod 64)"
proof (induction vs arbitrary: i)
  case (Cons v vs)
  show ?case
  proof (cases "i < 64")
    case True
    then show ?thesis by (simp add: units_bits_def nth_append unit_bits_def)
  next
    case False
    then obtain i' where i': "i = i' + 64" by (metis add.commute le_add_diff_inverse not_less)
    have "(i' + 64) div 64 = Suc (i' div 64)" by simp
    then show ?thesis using i' Cons by (simp add: units_bits_def nth_append)
  qed
qed simp

lemma bit_lines_dirty:
  assumes "unat u + i + n \<le> 2 ^ 28"
  shows "bit_lines (64 * (unat u + i)) (units_bits (dirty_units m u i n)) = dirty_lines m (64 * (unat u + i)) (64 * n)"
proof -
  have "units_bits (dirty_units m u i n) ! j = log_dirty m (64 * (unat u + i) + j)" if "j < 64 * n" for j
  proof -
    have "dirty_units m u i n ! (j div 64) = m (u + of_nat (i + j div 64))"
      using that unfolding dirty_units_def by (subst nth_map) (auto simp: less_mult_imp_div_less mult.commute)
    moreover have "u + of_nat (i + j div 64) = of_nat (unat u + i + j div 64)" by simp
    moreover have "(64 * (unat u + i) + j) div 64 = unat u + i + j div 64" "(64 * (unat u + i) + j) mod 64 = j mod 64"
      using div_mult_self4 [of 64 "unat u + i" j] mod_mult_self4 [of 64 "unat u + i" j] by simp_all
    ultimately show ?thesis
      using that by (simp only: units_bits_nth length_dirty_units log_dirty_def)
  qed
  then show ?thesis
    by (auto simp: bit_lines_def dirty_lines_def nat_le_iff_add)
qed

lemma card_bit_lines: "finite (bit_lines n bs) \<and> card (bit_lines n bs) = count_list bs True"
proof (induction bs arbitrary: n)
  case (Cons b bs)
  have "n \<notin> bit_lines (Suc n) bs" by (auto simp: bit_lines_def)
  with Cons.IH [of "Suc n"] show ?case by simp
qed simp

section \<open>\<open>tasvir_sync_parse_log\<close>, internal synchronisation\<close>

text \<open>
  The range \<open>offset..offset + len\<close> of the area \<open>d\<close> is one the internal synchronisation walks: the
  header is page-aligned in the data region, the range is a whole number of 32 KiB blocks that fits
  the 32-bit length arithmetic, and the thread's list of ranges is in order.
\<close>

definition range_first :: "('p, 'r, 'n) tasvir \<Rightarrow> addr \<Rightarrow> u64 \<Rightarrow> nat" where
  "range_first s d offset = (unat (rd s (d_h d)) + unat offset - 2 ^ 40) div 64"

definition private_log :: "('p, 'r, 'n) tasvir \<Rightarrow> addr \<Rightarrow> addr" where
  "private_log s d = (if tasvir_area_is_local s d then rd s (l_data (h_diff_log (rd s (d_h d)) 0)) else 0)"

definition sync_list_ok :: "tasvir_sync_list \<Rightarrow> bool" where
  "sync_list_ok l \<longleftrightarrow> list_wf l \<and> cnt l \<le> 256 \<and> list_all item_ok (pending l)"

definition parse_ready :: "('p, 'r, 'n) tasvir \<Rightarrow> addr \<Rightarrow> u64 \<Rightarrow> u64 \<Rightarrow> bool" where
  "parse_ready s d offset len \<longleftrightarrow>
     (let h = rd s (d_h d); l = t_sync_list (my_tdata s) in
      2 ^ 40 \<le> unat h \<and> unat h + unat offset + unat len \<le> 2 ^ 41 \<and> 4096 dvd unat h \<and> 4096 dvd unat offset \<and>
      32768 dvd unat len \<and> 0 < unat len \<and> unat len < 2 ^ 32 \<and> sync_list_ok l \<and> tdata_idx s < length (tdata (ndata s)) \<and>
      (\<forall>a\<in>log_words (private_log s d) (unat offset div 4096) (unat len div 4096). data_word a \<and>
         line_of a \<notin> lines_of (pending l) \<and>
         \<not> (range_first s d offset \<le> line_of a \<and> line_of a < range_first s d offset + unat len div 64)))"

definition parse_walk :: "('p, 'r, 'n) tasvir \<Rightarrow> addr \<Rightarrow> u64 \<Rightarrow> u64 \<Rightarrow> ('p, 'r, 'n) walk" where
  "parse_walk s d offset len = \<lparr>w_log = private_log s d, w_u = tasvir_data2log (rd s (d_h d)),
     w_i = unat offset div 4096, w_n = unat len div 32768,
     w_c = \<lparr>lbits0 = 0, lbits1 = 0, off = range_first s d offset, lbits1_total = 0, sync_l = t_sync_list (my_tdata s)\<rparr>,
     w_s = s\<rparr>"

lemma unat_drop_bit_u64: "unat (drop_bit k (x :: u64)) = unat x div 2 ^ k"
  by (simp only: unat_drop_bit_eq) (simp add: drop_bit_eq_div)

lemma parse_walk_ok:
  assumes r: "parse_ready s d offset len"
  shows "walk_ok (parse_walk s d offset len)"
    "unat (drop_bit TASVIR_SHIFT_BIT (rd s (d_h d) + offset - TASVIR_ADDR_DATA)) = range_first s d offset"
    "range_first s d offset = 64 * (unat (tasvir_data2log (rd s (d_h d))) + unat offset div 4096)"
    "8 * (unat len div 32768) = unat len div 4096" "512 * (unat len div 32768) = unat len div 64"
    "unat (tasvir_data2log (rd s (d_h d))) + unat offset div 4096 + unat len div 4096 \<le> 2 ^ 28"
proof -
  let ?h = "rd s (d_h d)"
  have h: "2 ^ 40 \<le> unat ?h" "unat ?h + unat offset + unat len \<le> 2 ^ 41" "4096 dvd unat ?h" "4096 dvd unat offset"
    "32768 dvd unat len" "unat len < 2 ^ 32" "0 < unat len"
    using r by (simp_all add: parse_ready_def Let_def)
  obtain n where n: "unat len = 32768 * n" using h(5) by blast
  obtain b where b: "unat offset = 4096 * b" using h(4) by blast
  obtain a0 where a0: "unat ?h = 4096 * a0" using h(3) by blast
  define a where "a = a0 - 2 ^ 28"
  have a: "unat ?h = 2 ^ 40 + 4096 * a" using h(1) a0 by (simp add: a_def)
  have bound: "a + b + 8 * n \<le> 2 ^ 28" "0 < n" using h(2,7) by (simp_all add: n b a)
  have un: "unat (?h + offset - TASVIR_ADDR_DATA) = 4096 * (a + b)"
  proof -
    have "?h + offset - TASVIR_ADDR_DATA = of_nat (unat ?h + unat offset - 2 ^ 40)"
      by (subst of_nat_diff) (use h(1) in \<open>simp_all add: layout_simps\<close>)
    moreover have "unat ?h + unat offset - 2 ^ 40 = 4096 * (a + b)" by (simp add: a b)
    moreover have "4096 * (a + b) < 2 ^ 64" using bound by simp
    ultimately show ?thesis by (simp only: unat_of_nat) simp
  qed
  have rf: "range_first s d offset = 64 * (a + b)"
    using a b by (simp add: range_first_def)
  show "unat (drop_bit TASVIR_SHIFT_BIT (?h + offset - TASVIR_ADDR_DATA)) = range_first s d offset"
    by (simp add: unat_drop_bit_u64 un rf shift_consts)
  have u: "unat (tasvir_data2log ?h) = a"
  proof -
    have "unat ?h mod 2 ^ 40 = 4096 * a" 
      using bound by (simp add: a)
    then show ?thesis by (simp add: unat_data2log)
  qed
  show "range_first s d offset = 64 * (unat (tasvir_data2log ?h) + unat offset div 4096)"
    by (simp add: rf u b)
  show len: "8 * (unat len div 32768) = unat len div 4096" "512 * (unat len div 32768) = unat len div 64"
    by (simp_all add: n)
  show "unat (tasvir_data2log ?h) + unat offset div 4096 + unat len div 4096 \<le> 2 ^ 28"
    using bound by (simp add: u b n)
  show "walk_ok (parse_walk s d offset len)"
    using r bound h(6)
    by (auto simp: walk_ok_def parse_walk_def parse_ready_def Let_def scan_ok_def sync_list_ok_def scan_end_def
        covered_def rf n b ac_simps)
qed

text \<open>
  What the walk leaves: the thread's list and the reader copy together hold the dirty lines, the
  log of the range is clear, the private log has collected it, and the result counts the bytes.
\<close>

definition parse_result ::
  "addr \<Rightarrow> u64 \<Rightarrow> u64 \<Rightarrow> ('p, 'r, 'n) tasvir \<Rightarrow> u64 \<Rightarrow> ('p, 'r, 'n) tasvir \<Rightarrow> bool" where
  "parse_result d offset len s r s' \<longleftrightarrow>
     (let lo = range_first s d offset; n = unat len div 64; D = dirty_lines (m_log s) lo n;
          P = lines_of (pending (t_sync_list (my_tdata s))); P' = lines_of (pending (t_sync_list (my_tdata s')));
          L = private_log s d; i = unat offset div 4096; m = unat len div 4096 in
      same_world s s' \<and> sync_list_ok (t_sync_list (my_tdata s')) \<and> r = of_nat (64 * card D) \<and>
      P' \<subseteq> P \<union> {lo..<lo + n} \<and>
      (\<forall>a. data_word a \<and> a \<notin> log_words L i m \<longrightarrow> m_rw s' a = m_rw s a \<and> m_ro s' a \<in> {m_ro s a, m_rw s a} \<and>
         (if line_of a \<in> P' then m_rw s a else m_ro s' a) = (if line_of a \<in> P \<union> D then m_rw s a else m_ro s a)) \<and>
      (\<forall>l < 2 ^ 34. log_dirty (m_log s') l \<longleftrightarrow> log_dirty (m_log s) l \<and> \<not> (lo \<le> l \<and> l < lo + n)) \<and>
      (L \<noteq> 0 \<longrightarrow> (\<forall>j\<in>{i..<i + m}. rd s' (L + 8 * of_nat j) =
         rd s (L + 8 * of_nat j) OR m_log s (tasvir_data2log (rd s (d_h d)) + of_nat j))))"

lemma log_dirty_cleared:
  assumes "\<And>x. m' x = (if x \<in> (\<lambda>j. u + of_nat j) ` {i..<i + n} then 0 else m x)" "unat u + i + n \<le> 2 ^ 28" "l < 2 ^ 34"
  shows "log_dirty m' l \<longleftrightarrow> log_dirty m l \<and> \<not> (64 * (unat u + i) \<le> l \<and> l < 64 * (unat u + i) + 64 * n)"
proof -
  have "of_nat (l div 64) \<in> (\<lambda>j. u + of_nat j) ` {i..<i + n} \<longleftrightarrow> unat u + i \<le> l div 64 \<and> l div 64 < unat u + i + n"
    (is "?A \<longleftrightarrow> ?B")
  proof
    assume ?A
    then obtain j where j: "of_nat (l div 64) = u + of_nat j" "i \<le> j" "j < i + n" by auto
    have "u + of_nat j = of_nat (unat u + j)" by simp
    with j(1) have "(of_nat (l div 64) :: u64) = of_nat (unat u + j)" by (rule trans)
    moreover have "l div 64 < 2 ^ 64" "unat u + j < 2 ^ 64" using assms(2,3) j by simp_all
    ultimately have "l div 64 = unat u + j" using u_add_inj [of "l div 64" "unat u + j" 0] by simp
    then show ?B using j by simp
  next
    assume B: ?B
    then have "of_nat (l div 64) = u + of_nat (l div 64 - unat u)" by (simp add: of_nat_diff)
    moreover have "l div 64 - unat u \<in> {i..<i + n}" using B by auto
    ultimately show ?A by (metis (no_types, lifting) imageI)
  qed
  moreover have "x \<le> l div 64 \<and> l div 64 < x + n \<longleftrightarrow> 64 * x \<le> l \<and> l < 64 * x + 64 * n" for x
    using less_eq_div_iff_mult_less_eq [of 64 x l] div_less_iff_less_mult [of 64 l "x + n"]
    by (simp add: algebra_simps)
  ultimately show ?thesis by (auto simp: log_dirty_def assms(1))
qed

lemma finish_scan:
  assumes "walk_scan w n c" "lbits1 c < 2 ^ 26"
  obtains l where "put_item (off c) (lbits1 c) (sync_l c) = Some l"
    "lbits1 c \<noteq> 0 \<Longrightarrow> pending (l\<lparr>cnt := cnt l + 1\<rparr>) =
       pending (sync_l c) @ [\<lparr>offset_scaled = of_nat (off c), len_scaled = of_nat (lbits1 c)\<rparr>]"
    "lbits1 c \<noteq> 0 \<Longrightarrow> sync_list_ok (l\<lparr>cnt := cnt l + 1\<rparr>)"
    "lbits1 c \<noteq> 0 \<Longrightarrow> lines_of (pending (l\<lparr>cnt := cnt l + 1\<rparr>)) = covered c"
proof -
  have ok: "scan_ok c" and cnt: "lbits1 c \<noteq> 0 \<Longrightarrow> cnt (sync_l c) \<le> 255" "cnt (sync_l c) \<le> 256"
    using assms(1) unfolding walk_scan_def by auto
  have wf: "list_wf (sync_l c)" using ok by (simp add: scan_ok_def)
  have "cnt (sync_l c) < TASVIR_SYNC_LIST_LEN" using cnt(2) by (simp add: TASVIR_SYNC_LIST_LEN_def)
  then obtain l where l: "put_item (off c) (lbits1 c) (sync_l c) = Some l" "cnt l = cnt (sync_l c)" "list_wf l"
    using put_item_Some [of "sync_l c" "off c" "lbits1 c"] wf by auto
  note p = pending_put(2) [OF l(1) wf]
  have mk: "item_ok \<lparr>offset_scaled = of_nat (off c), len_scaled = of_nat (lbits1 c)\<rparr>"
    "item_lines \<lparr>offset_scaled = of_nat (off c), len_scaled = of_nat (lbits1 c)\<rparr> = {off c..<off c + lbits1 c}"
    if "lbits1 c \<noteq> 0"
    using item_ok_mk [of "lbits1 c" "off c"] that assms(2) ok by (simp_all add: scan_ok_def scan_end_def)
  show thesis
    by (rule that [OF l(1)])
      (use p mk cnt l ok in \<open>auto simp: sync_list_ok_def list_wf_def scan_ok_def covered_def\<close>)
qed

lemma parse_log_internal:
  assumes r: "parse_ready s d offset len" and int: "pivot = 0 \<or> \<not> is_daemon s"
  shows "\<exists>r s'. tasvir_sync_parse_log E d offset len pivot s = Some (r, s') \<and> parse_result d offset len s r s'"
proof -
  define w where "w = parse_walk s d offset len"
  note rdy = parse_walk_ok [OF r]
  have wok: "walk_ok w" using rdy(1) by (simp add: w_def)
  have wsel: "w_s w = s" "w_i w = unat offset div 4096" "w_n w = unat len div 32768" "w_log w = private_log s d"
    "w_u w = tasvir_data2log (rd s (d_h d))" "scan_end (w_c w) = range_first s d offset"
    "covered (w_c w) = lines_of (pending (t_sync_list (my_tdata s)))"
    by (simp_all add: w_def parse_walk_def scan_end_def covered_def)
  have idx: "tdata_idx s < length (tdata (ndata s))" using r by (simp add: parse_ready_def Let_def)
  have al: "unat offset mod 2 ^ TASVIR_SHIFT_UNIT = 0" "unat len mod 32768 = 0"
    using r by (auto simp: parse_ready_def Let_def shift_consts)
  have blocks: "block_indices (unat (drop_bit TASVIR_SHIFT_UNIT offset)) (unat (drop_bit TASVIR_SHIFT_UNIT len)) =
      map (\<lambda>j. w_i w + 8 * j) [0..<w_n w]"
  proof -
    have "(unat len div 4096 + 7) div 8 = unat len div 32768" by (simp flip: rdy(4))
    then show ?thesis by (simp add: block_indices_def unat_drop_bit_u64 shift_consts wsel)
  qed
  obtain c s1 where cs: "parse_blocks E d 0 False (Dirty_Log (w_u w)) (w_log w) (map (\<lambda>j. w_i w + 8 * j) [0..<w_n w])
      (w_c w, s) = Some (c, s1)" "walk_inv w (w_n w) c s1"
    using walk_blocks [OF wok _ walk_inv_start [OF wok], of E d] by (auto simp: wsel)
  from cs(2) have sw: "same_world s s1" and sc: "walk_scan w (w_n w) c" and mem: "walk_mem w (w_n w) c s1"
    and logs: "walk_logs w (w_n w) s1" by (simp_all add: walk_inv_def wsel)
  have "lbits1 c < 2 ^ 26" using sc by (simp add: walk_scan_def scan_ok_def)
  from finish_scan [OF sc this] obtain l where l: "put_item (off c) (lbits1 c) (sync_l c) = Some l"
    "lbits1 c \<noteq> 0 \<Longrightarrow> sync_list_ok (l\<lparr>cnt := cnt l + 1\<rparr>)"
    "lbits1 c \<noteq> 0 \<Longrightarrow> lines_of (pending (l\<lparr>cnt := cnt l + 1\<rparr>)) = covered c" by blast
  define l' where "l' = (if lbits1 c \<noteq> 0 then l\<lparr>cnt := cnt l + 1\<rparr> else sync_l c)"
  have l': "sync_list_ok l'" "lines_of (pending l') = covered c"
    using l sc by (auto simp: l'_def walk_scan_def scan_ok_def sync_list_ok_def covered_def)
  define r where "r = count_list (walk_bits w (w_n w)) True"
  have run: "tasvir_sync_parse_log E d offset len pivot s = Some (of_nat (64 * r), set_my_sync_list l' s1)"
  proof -
    have p: "(if is_daemon s then pivot else 0) = 0" using int by auto
    have c0: "w_c w = \<lparr>lbits0 = 0, lbits1 = 0, off = unat (drop_bit TASVIR_SHIFT_BIT (rd s (d_h d) + offset - TASVIR_ADDR_DATA)),
        lbits1_total = 0, sync_l = t_sync_list (my_tdata s)\<rparr>"
      by (simp add: w_def parse_walk_def rdy(2))
    have tot: "lbits1_total c + lbits1 c = r" using sc by (simp add: walk_scan_def r_def)
    have pl: "private_log s d = (if tasvir_area_is_local s d then rd s (l_data (h_diff_log (rd s (d_h d)) 0)) else 0)"
      by (simp add: private_log_def)
    show ?thesis
      using cs(1) l(1) tot al(1)
      unfolding tasvir_sync_parse_log_def blocks c0 wsel pl
      by (auto simp: p l'_def Let_def assert_ok_def shift_consts push_bit_eq_mult mult.commute)
  qed
  have lines: "walk_lines w (w_n w) = lines_of (pending (t_sync_list (my_tdata s))) \<union>
      dirty_lines (m_log s) (range_first s d offset) (unat len div 64)"
    and card: "r = card (dirty_lines (m_log s) (range_first s d offset) (unat len div 64))"
  proof -
    have b: "bit_lines (range_first s d offset) (walk_bits w (w_n w)) =
        dirty_lines (m_log s) (range_first s d offset) (unat len div 64)"
    proof -
      have "64 * (unat len div 4096) = unat len div 64" by (simp flip: rdy(4) rdy(5))
      with bit_lines_dirty [OF rdy(6), of "m_log s"] show ?thesis by (simp add: walk_bits_def wsel rdy(3,4))
    qed
    show "walk_lines w (w_n w) = lines_of (pending (t_sync_list (my_tdata s))) \<union>
      dirty_lines (m_log s) (range_first s d offset) (unat len div 64)"
      by (simp only: walk_lines_def wsel(6,7) b)
    show "r = card (dirty_lines (m_log s) (range_first s d offset) (unat len div 64))"
      using card_bit_lines [of "range_first s d offset" "walk_bits w (w_n w)"] by (simp add: b r_def)
  qed
  have res: "parse_result d offset len s (of_nat (64 * r)) (set_my_sync_list l' s1)"
    unfolding parse_result_def Let_def
  proof (intro conjI)
    have "tdata_idx s1 < length (tdata (ndata s1))" using sw idx by (simp add: same_world_def)
    then have my: "t_sync_list (my_tdata (set_my_sync_list l' s1)) = l'" by simp
    show "sync_list_ok (t_sync_list (my_tdata (set_my_sync_list l' s1)))" using my l' by simp
    show "lines_of (pending (t_sync_list (my_tdata (set_my_sync_list l' s1)))) \<subseteq>
      lines_of (pending (t_sync_list (my_tdata s))) \<union>
      {range_first s d offset..<range_first s d offset + unat len div 64}"
      using sc rdy(5) unfolding my l'(2) walk_scan_def wsel by auto
    show "\<forall>a. data_word a \<and> a \<notin> log_words (private_log s d) (unat offset div 4096) (unat len div 4096) \<longrightarrow>
      m_rw (set_my_sync_list l' s1) a = m_rw s a \<and> m_ro (set_my_sync_list l' s1) a \<in> {m_ro s a, m_rw s a} \<and>
      (if line_of a \<in> lines_of (pending (t_sync_list (my_tdata (set_my_sync_list l' s1)))) then m_rw s a
       else m_ro (set_my_sync_list l' s1) a) =
      (if line_of a \<in> lines_of (pending (t_sync_list (my_tdata s))) \<union>
         dirty_lines (m_log s) (range_first s d offset) (unat len div 64) then m_rw s a else m_ro s a)"
      using mem unfolding walk_mem_def wsel lines [unfolded wsel(3)] my l'(2) rdy(4) set_my_sync_list_simps by blast
    show "\<forall>l<2 ^ 34. log_dirty (m_log (set_my_sync_list l' s1)) l =
      (log_dirty (m_log s) l \<and> \<not> (range_first s d offset \<le> l \<and> l < range_first s d offset + unat len div 64))"
    proof (intro allI impI)
      fix l :: nat assume l: "l < 2 ^ 34"
      have x: "m_log s1 x = (if x \<in> (\<lambda>j. tasvir_data2log (rd s (d_h d)) + of_nat j) `
          {unat offset div 4096..<unat offset div 4096 + unat len div 4096} then 0 else m_log s x)" for x
        using logs unfolding walk_logs_def wsel rdy(4) by blast
      have "64 * (unat len div 4096) = unat len div 64" by (simp flip: rdy(4) rdy(5))
      with log_dirty_cleared [OF x rdy(6) l] show "log_dirty (m_log (set_my_sync_list l' s1)) l =
        (log_dirty (m_log s) l \<and> \<not> (range_first s d offset \<le> l \<and> l < range_first s d offset + unat len div 64))"
        by (simp add: rdy(3))
    qed
    show "private_log s d \<noteq> 0 \<longrightarrow> (\<forall>j\<in>{unat offset div 4096..<unat offset div 4096 + unat len div 4096}.
      rd (set_my_sync_list l' s1) (private_log s d + 8 * of_nat j) =
      rd s (private_log s d + 8 * of_nat j) OR m_log s (tasvir_data2log (rd s (d_h d)) + of_nat j))"
      using logs unfolding walk_logs_def wsel rdy(4) by auto
  qed (use sw card in simp_all)
  with run show ?thesis by blast
qed

section \<open>Publishing an area\<close>

text \<open>
  What writers keep between synchronisations: the two copies of the data lines \<open>lo..lo + n\<close> agree
  wherever the line is not marked dirty.
\<close>

definition clean_agree :: "('p, 'r, 'n) tasvir \<Rightarrow> nat \<Rightarrow> nat \<Rightarrow> bool" where
  "clean_agree s lo n \<longleftrightarrow> (\<forall>a. data_word a \<longrightarrow> lo \<le> line_of a \<longrightarrow> line_of a < lo + n \<longrightarrow>
     \<not> log_dirty (m_log s) (line_of a) \<longrightarrow> m_ro s a = m_rw s a)"

text \<open>Walk the range, then copy what is left on the list: the two calls of \<open>tasvir_sync_internal_job\<close>.\<close>

definition sync_range ::
  "('p, 'r, 'n) env \<Rightarrow> addr \<Rightarrow> u64 \<Rightarrow> u64 \<Rightarrow> ('p, 'r, 'n) tasvir \<Rightarrow> (u64 \<times> ('p, 'r, 'n) tasvir) option" where
  "sync_range E d offset len s =
    do { (_, s) \<leftarrow> tasvir_sync_parse_log E d offset len 0 s;
         tasvir_sync_process_changes E 0 True False s }"

lemma sync_range_effect:
  assumes r: "parse_ready s d offset len"
  shows "\<exists>b s'. sync_range E d offset len s = Some (b, s') \<and> same_world s s' \<and>
    (\<forall>a. data_word a \<and> a \<notin> log_words (private_log s d) (unat offset div 4096) (unat len div 4096) \<longrightarrow>
       m_rw s' a = m_rw s a \<and>
       m_ro s' a = (if line_of a \<in> lines_of (pending (t_sync_list (my_tdata s))) \<union>
           dirty_lines (m_log s) (range_first s d offset) (unat len div 64) then m_rw s a else m_ro s a)) \<and>
    (\<forall>l < 2 ^ 34. log_dirty (m_log s') l \<longleftrightarrow>
       log_dirty (m_log s) l \<and> \<not> (range_first s d offset \<le> l \<and> l < range_first s d offset + unat len div 64)) \<and>
    cnt (t_sync_list (my_tdata s')) = 0"
proof -
  obtain c s1 where p: "tasvir_sync_parse_log E d offset len 0 s = Some (c, s1)" "parse_result d offset len s c s1"
    using parse_log_internal [OF r, of 0 E] by auto
  have idx: "tdata_idx s1 < length (tdata (ndata s1))" and sw: "same_world s s1"
    and ok: "list_all item_ok (pending (t_sync_list (my_tdata s1)))"
    using p(2) r by (simp_all add: parse_result_def parse_ready_def Let_def same_world_def sync_list_ok_def)
  obtain n s' k where s': "tasvir_sync_process_changes E 0 True False s1 = Some (n, s')" "same_world s1 s'"
    "m_rw s' = m_rw s1" "m_log s' = m_log s1"
    "\<And>a. data_word a \<Longrightarrow>
       m_ro s' a = (if line_of a \<in> lines_of (pending (t_sync_list (my_tdata s1))) then m_rw s1 a else m_ro s1 a)"
    "t_sync_list (my_tdata s') = (t_sync_list (my_tdata s1))\<lparr>cnt := 0, changed := k\<rparr>"
    using process_changes_internal [OF ok idx, of E 0 True] by blast
  have mem: "m_rw s' a = m_rw s a \<and>
       m_ro s' a = (if line_of a \<in> lines_of (pending (t_sync_list (my_tdata s))) \<union>
           dirty_lines (m_log s) (range_first s d offset) (unat len div 64) then m_rw s a else m_ro s a)"
    if "data_word a" "a \<notin> log_words (private_log s d) (unat offset div 4096) (unat len div 4096)" for a
  proof -
    have "m_rw s1 a = m_rw s a" "(if line_of a \<in> lines_of (pending (t_sync_list (my_tdata s1))) then m_rw s a
      else m_ro s1 a) = (if line_of a \<in> lines_of (pending (t_sync_list (my_tdata s))) \<union>
           dirty_lines (m_log s) (range_first s d offset) (unat len div 64) then m_rw s a else m_ro s a)"
      using p(2) that unfolding parse_result_def Let_def by blast+
    then show ?thesis using s'(3) s'(5) [OF that(1)] by (auto split: if_splits)
  qed
  have log: "\<forall>l < 2 ^ 34. log_dirty (m_log s') l \<longleftrightarrow>
       log_dirty (m_log s) l \<and> \<not> (range_first s d offset \<le> l \<and> l < range_first s d offset + unat len div 64)"
    using p(2) unfolding s'(4) parse_result_def Let_def by blast
  show ?thesis
    using mem log p(1) s'(1,6) same_world_trans [OF sw s'(2)]
    by (intro exI [of _ n] exI [of _ s']) (simp add: sync_range_def)
qed

end
