(* ===== verification/Tasvir_Publish.thy ===== *)
theory Tasvir_Publish
  imports Tasvir_Isync
begin

text \<open>
  Writing, logging and publishing: the agreement of the two copies on clean lines is kept by a write
  that is logged, and one internal synchronisation of a range makes the copies equal on it.
\<close>

section \<open>Publishing a range\<close>

lemma sync_range_publishes:
  assumes "parse_ready s d offset len" "clean_agree s (range_first s d offset) (unat len div 64)"
  shows "\<exists>b s'. sync_range E d offset len s = Some (b, s') \<and> same_world s s' \<and>
    (\<forall>a. data_word a \<longrightarrow> range_first s d offset \<le> line_of a \<longrightarrow>
       line_of a < range_first s d offset + unat len div 64 \<longrightarrow>
       m_ro s' a = m_rw s a \<and> m_rw s' a = m_rw s a \<and> \<not> log_dirty (m_log s') (line_of a))"
proof -
  obtain b s' where s': "sync_range E d offset len s = Some (b, s')" "same_world s s'"
    "\<forall>a. data_word a \<and> a \<notin> log_words (private_log s d) (unat offset div 4096) (unat len div 4096) \<longrightarrow>
       m_rw s' a = m_rw s a \<and>
       m_ro s' a = (if line_of a \<in> lines_of (pending (t_sync_list (my_tdata s))) \<union>
           dirty_lines (m_log s) (range_first s d offset) (unat len div 64) then m_rw s a else m_ro s a)"
    "\<forall>l < 2 ^ 34. log_dirty (m_log s') l \<longleftrightarrow>
       log_dirty (m_log s) l \<and> \<not> (range_first s d offset \<le> l \<and> l < range_first s d offset + unat len div 64)"
    using sync_range_effect [OF assms(1), of E] by blast
  have "m_ro s' a = m_rw s a \<and> m_rw s' a = m_rw s a \<and> \<not> log_dirty (m_log s') (line_of a)"
    if a: "data_word a" "range_first s d offset \<le> line_of a" "line_of a < range_first s d offset + unat len div 64" for a
  proof -
    have "a \<notin> log_words (private_log s d) (unat offset div 4096) (unat len div 4096)"
      using assms(1) a unfolding parse_ready_def Let_def by blast
    with s'(3) a(1) have 1: "m_rw s' a = m_rw s a \<and>
       m_ro s' a = (if line_of a \<in> lines_of (pending (t_sync_list (my_tdata s))) \<union>
           dirty_lines (m_log s) (range_first s d offset) (unat len div 64) then m_rw s a else m_ro s a)" by blast
    have "m_ro s a = m_rw s a" if "\<not> log_dirty (m_log s) (line_of a)"
      using assms(2) a that by (simp add: clean_agree_def)
    with 1 a have "m_ro s' a = m_rw s a" by (auto simp: dirty_lines_def)
    with 1 s'(4) a line_of_less [of a] show ?thesis by blast
  qed
  with s'(1,2) show ?thesis by blast
qed

section \<open>A logged write\<close>

text \<open>Storing a word and logging its eight bytes, as \<open>tasvir_log\<close> asks of its callers.\<close>

definition store_logged :: "addr \<Rightarrow> u64 \<Rightarrow> ('p, 'r, 'n) tasvir \<Rightarrow> ('p, 'r, 'n) tasvir" where
  "store_logged a v s = tlog a 8 (wr a v s)"

lemma log_word_dirty:
  assumes "data_word a" "n < 2 ^ 34"
  shows "log_dirty (tasvir_log a 8 log) n \<longleftrightarrow> log_dirty log n \<or> n = line_of a"
proof -
  obtain j where j: "unat a = 2 ^ 40 + 8 * j" "j < 2 ^ 37"
  proof -
    obtain k where k: "unat a = 8 * k" using assms(1) by (auto simp: data_word_def elim: dvdE)
    then have "2 ^ 37 \<le> k" "k < 2 ^ 38" using assms(1) by (auto simp: data_word_def)
    then have "8 * k = 2 ^ 40 + 8 * (k - 2 ^ 37)" "k - 2 ^ 37 < 2 ^ 37" by auto
    then show ?thesis using that k by simp
  qed
  then have m: "unat a mod 2 ^ 40 = 8 * j" by simp
  have fit: "unat a mod 2 ^ 40 + unat (8 :: u64) \<le> 2 ^ 40" unfolding m using j(2) by simp
  have "(unat a mod 2 ^ 40 + unat (8 :: u64) - 1) div 64 = line_of a" unfolding line_of_def m by simp
  then show ?thesis using tasvir_log_dirty [OF _ fit assms(2), of log] by auto
qed

lemma logged_write_agree:
  assumes "clean_agree s lo n" "data_word a" "va_rw s a"
  shows "clean_agree (store_logged a v s) lo n"
  unfolding clean_agree_def
proof (intro allI impI)
  fix x
  assume x: "data_word x" "lo \<le> line_of x" "line_of x < lo + n" "\<not> log_dirty (m_log (store_logged a v s)) (line_of x)"
  then have "line_of x \<noteq> line_of a" "\<not> log_dirty (m_log s) (line_of x)"
    using log_word_dirty [OF assms(2) line_of_less [of x], of "m_log s"] assms(3) by (auto simp: store_logged_def tlog_def wr_def)
  moreover from this have "m_ro s x = m_rw s x" using assms(1) x by (simp add: clean_agree_def)
  ultimately show "m_ro (store_logged a v s) x = m_rw (store_logged a v s) x"
    using assms(3) by (auto simp: store_logged_def tlog_def wr_def)
qed

lemma m_rw_store_logged: "va_rw s a \<Longrightarrow> m_rw (store_logged a v s) a = v"
  by (simp add: store_logged_def tlog_def wr_def)

end
