(* ===== verification/Tasvir_Examples.thy ===== *)
theory Tasvir_Examples
  imports Tasvir_Isync
begin

text \<open>
  Concrete values the witnesses of the properties use: an environment whose rings are lists, whose
  device takes four packets at a time and whose packet pool is a counter that grows by eight buffers
  whenever they are collected, and the memory of a node with one area.
\<close>

definition list_env :: "(nat, tasvir_msg list, tasvir_msg list) env" where
  "list_env = \<lparr>pool_get = (\<lambda>p. if p = 0 then None else Some (p - 1)), pool_buf = (\<lambda>p. replicate 245 (of_nat p)), pool_put = Suc,
     pool_get_bulk = (\<lambda>p n. if p < n then None else Some (p - n)), pool_put_bulk = (+),
     ring_enqueue = (\<lambda>r m. if length r < 256 then Some (r @ [m]) else None),
     ring_enqueue_bulk = (\<lambda>r ms. if length r + length ms < 4096 then Some (r @ ms) else None),
     ring_dequeue_burst = (\<lambda>r n. (take n r, drop n r)), ring_empty = (\<lambda>r. r = []),
     eth_tx_burst = (\<lambda>n ms. (min 4 (length ms), n @ take 4 ms)), eth_rx_burst = (\<lambda>n k. (take k n, drop k n)),
     tx_free = (\<lambda>n p. p + 8),
     tsc2usec = (\<lambda>t. t), usec2tsc = (\<lambda>t. t),
     ring_create = (\<lambda>_. Some []), mmap_ok = (\<lambda>_ _ _. True), pid_dead = (\<lambda>_. False),
     others = (\<lambda>s. s), app_fn = (\<lambda>_ _ data s. Some (data, s))\<rparr>"

definition null_sync_list :: tasvir_sync_list where
  "null_sync_list = \<lparr>changed = 0, cnt = 0, litems = replicate 512 \<lparr>offset_scaled = 0, len_scaled = 0\<rparr>\<rparr>"

definition null_tdata :: "tasvir_msg list tasvir_local_tdata" where
  "null_tdata = \<lparr>t_time = 0, t_ring_tx = Some [], t_ring_rx = Some [], t_state = THREAD_RUNNING,
     t_state_req = THREAD_RUNNING, t_prev_sync_seq = 0, t_next_sync_seq = 0, t_sync_list = null_sync_list\<rparr>"

definition null_stats :: tasvir_stats where
  "null_stats = \<lparr>isync_success = 0, isync_failure = 0, isync_barrier_us = 0, isync_us = 0, isync_changed_bytes = 0,
     isync_processed_bytes = 0, esync_cnt = 0, esync_us = 0, esync_changed_bytes = 0, esync_processed_bytes = 0,
     rx_bytes = 0, tx_bytes = 0, rx_pkts = 0, tx_pkts = 0\<rparr>"

definition demo_ndata :: "(nat, tasvir_msg list) tasvir_local_ndata" where
  "demo_ndata = \<lparr>boot_us = 0, time_us = 0, sync_int_us = 100000, sync_ext_us = 250000, mp = 64,
     barrier_end_tsc = 0, barrier_cnt = 0, barrier_seq = 1, ring_ext_tx = [], ring_mem_pending = [],
     mac_addr = 7, boot_tid = null_tid, memcast_tid = null_tid, rpccast_tid = null_tid,
     last_stat = 0, last_sync_int_start = 0, last_sync_int_end = 0, last_sync_ext_start = 0, last_sync_ext_end = 0,
     stats_cur = null_stats, stats = null_stats, job_bytes = 0, nr_jobs = 0, jobs = [],
     node_init_req = False, sync_req = False, stat_reset_req = False, stat_update_req = False,
     tdata = [null_tdata]\<rparr>"

text \<open>
  The descriptor \<open>demo_d\<close> is at the start of the data region; its area has its header 32 KiB
  further and is 32 KiB long. The second line of the area has been written and logged.
\<close>

definition demo_d :: addr where "demo_d = 0x10000000000"
definition demo_h :: addr where "demo_h = 0x10000008000"

definition demo_mem :: "addr \<Rightarrow> u64" where
  "demo_mem a = (if a = d_h demo_d then demo_h else if a = d_owner demo_d then 0x10000020000
     else if a = d_offset_log_end demo_d then 0x8000 else 0)"

definition demo :: "(nat, tasvir_msg list, tasvir_msg list) tasvir" where
  "demo = \<lparr>m_ro = demo_mem, m_rw = demo_mem(demo_h + 64 := 42), m_log = tasvir_log (demo_h + 64) 8 (\<lambda>_. 0),
     va_rw = (\<lambda>_. False), is_daemon = True, ndebug = True, is_root = True, root_desc = demo_d, node_desc = 0, node = 0,
     thread = 0x10000020000, tdata_idx = 0, nr_msgs = 0, nr_fns = 0, fn_descs = [],
     status_l = (\<lambda>_. \<lparr>rs_do_free = False, rs_id = 0, rs_fnd = None, rs_status = RPC_INVALID, rs_response = None\<rparr>),
     ndata = demo_ndata, nic = [], tsc = of_nat, tick = 0,
     killed = [], sched_pending = False, nodes_v_prev = 0\<rparr>"

lemmas demo_defs = demo_def demo_ndata_def null_tdata_def null_sync_list_def demo_mem_def demo_d_def demo_h_def

lemma demo_sel:
  "rd demo (demo_d + 8) = demo_h" "tdata_idx demo = 0" "tdata (ndata demo) = [null_tdata]"
  "my_tdata demo = null_tdata" "rd demo demo_h = 0" "is_daemon demo"
  by (simp_all add: demo_defs rd_def my_tdata_def)

lemma null_sync_list_ok: "sync_list_ok null_sync_list" "pending null_sync_list = []"
  by (simp_all add: null_sync_list_def sync_list_ok_def list_wf_def pending_def TASVIR_SYNC_LIST_LEN_def)

lemma demo_private: "private_log demo demo_d = 0"
  by (simp add: private_log_def tasvir_area_is_local_def demo_sel has_flag_def)

lemma demo_ready: "parse_ready demo demo_d 0 0x8000"
  by (simp add: parse_ready_def Let_def demo_sel demo_private log_words_def null_tdata_def null_sync_list_ok demo_h_def)

lemma demo_first: "range_first demo demo_d 0 = 512"
  by (simp add: range_first_def demo_sel demo_h_def)

lemma demo_line: "line_of (demo_h + 64) = 513" "data_word (demo_h + 64)"
  by (simp_all add: line_of_def demo_h_def data_word_def)

lemma demo_agree: "clean_agree demo (range_first demo demo_d 0) (unat (0x8000 :: u64) div 64)"
  unfolding clean_agree_def
proof (intro allI impI)
  fix a assume a: "\<not> log_dirty (m_log demo) (line_of a)"
  have "log_dirty (m_log demo) 513"
    using tasvir_log_dirty [of 8 "demo_h + 64" 513 "\<lambda>_. 0"] demo_line by (simp add: demo_defs)
  with a demo_line have "a \<noteq> demo_h + 64" by auto
  then show "m_ro demo a = m_rw demo a" by (simp add: demo_def)
qed

end
