(* ===== verification/Tasvir_Area.thy ===== *)
theory Tasvir_Area
  imports Tasvir_Sync
begin

text \<open>
  \<open>src/area.c\<close>: descriptors, headers, owners and users of areas. The operations that wait call back
  into \<open>tasvir_service\<close> and into remote procedure calls, which call the operations of this file
  again; those calls are the argument \<open>K\<close>, and \<open>Tasvir_Service\<close> closes the recursion. \<open>k_fn\<close> is the
  call of a registered function on the data of a message: \<open>fnptr_rpc(data, arg_offsets)\<close>.
\<close>

section \<open>Calls back into the service loop\<close>

record ('p, 'r, 'n) calls =
  k_service :: "('p, 'r, 'n) tasvir \<Rightarrow> (int \<times> ('p, 'r, 'n) tasvir) option"
  k_rpc :: "addr \<Rightarrow> tasvir_fn \<Rightarrow> u64 list list \<Rightarrow> ('p, 'r, 'n) tasvir \<Rightarrow> (nat option \<times> ('p, 'r, 'n) tasvir) option"
  k_rpc_wait :: "u64 \<Rightarrow> addr \<Rightarrow> tasvir_fn \<Rightarrow> u64 list list \<Rightarrow> ('p, 'r, 'n) tasvir \<Rightarrow>
    (int \<times> u64 list \<times> ('p, 'r, 'n) tasvir) option"
  k_fn :: "tasvir_fn \<Rightarrow> nat list \<Rightarrow> u64 list \<Rightarrow> ('p, 'r, 'n) tasvir \<Rightarrow> (u64 list \<times> ('p, 'r, 'n) tasvir) option"

definition TASVIR_NR_AREAS :: nat where "TASVIR_NR_AREAS = 1024"
definition TASVIR_NR_AREA_LOGS :: nat where "TASVIR_NR_AREA_LOGS = 4"
definition TASVIR_NR_NODES :: nat where "TASVIR_NR_NODES = 64"
definition TASVIR_STRLEN_MAX :: nat where "TASVIR_STRLEN_MAX = 32"
definition TASVIR_SYNC_INTERNAL_US :: u64 where "TASVIR_SYNC_INTERNAL_US = 100 * 1000"
definition TASVIR_SYNC_EXTERNAL_US :: u64 where "TASVIR_SYNC_EXTERNAL_US = 250 * 1000"
definition MS2US :: u64 where "MS2US = 1000"
definition S2US :: u64 where "S2US = 1000 * MS2US"

section \<open>Strings\<close>

text \<open>
  A C string is its list of bytes; a list that ends is followed by NULs. \<open>strn_eq n x y\<close> is
  \<open>strncmp(x, y, n) == 0\<close>.
\<close>

type_synonym cstr = "u8 list"

definition chr :: "cstr \<Rightarrow> u8" where "chr x = (case x of [] \<Rightarrow> 0 | c # _ \<Rightarrow> c)"

fun strn_eq :: "nat \<Rightarrow> cstr \<Rightarrow> cstr \<Rightarrow> bool" where
  "strn_eq 0 x y = True"
| "strn_eq (Suc n) x y = (chr x = chr y \<and> (chr x = 0 \<or> strn_eq n (tl x) (tl y)))"

definition slash :: u8 where "slash = 47"

definition word_bytes :: "u64 \<Rightarrow> u8 list" where
  "word_bytes w = map (\<lambda>i. ucast (drop_bit (8 * i) w)) [0..<8]"

definition read_str :: "('p, 'r, 'n) tasvir \<Rightarrow> addr \<Rightarrow> cstr" where
  "read_str s a = concat (map (\<lambda>i. word_bytes (rd s (a + 8 * of_nat i))) [0..<TASVIR_STRLEN_MAX div 8])"

text \<open>\<open>strncpy(dst, src, n)\<close> writes \<open>n\<close> bytes: the string, then NULs.\<close>

definition cstr_chars :: "cstr \<Rightarrow> cstr" where "cstr_chars x = takeWhile (\<lambda>c. c \<noteq> 0) x"

definition strncpy_bytes :: "cstr \<Rightarrow> nat \<Rightarrow> cstr" where
  "strncpy_bytes src n = take n (cstr_chars src) @ replicate (n - length (cstr_chars src)) 0"

text \<open>
  The tokens successive calls of \<open>strtok(_, "/")\<close> return on a NUL-terminated buffer; a buffer with no
  NUL is read past its end.
\<close>

fun split_slash :: "cstr \<Rightarrow> cstr \<Rightarrow> cstr list" where
  "split_slash acc [] = (if acc = [] then [] else [acc])"
| "split_slash acc (c # x) = (if c = slash then (if acc = [] then split_slash [] x else acc # split_slash [] x)
                              else split_slash (acc @ [c]) x)"

definition strtok_all :: "cstr \<Rightarrow> cstr list option" where
  "strtok_all buf = (if 0 \<in> set buf then Some (split_slash [] (cstr_chars buf)) else None)"

section \<open>Descriptors by value\<close>

record tasvir_area_desc =
  a_pd :: addr
  a_h :: addr
  a_owner :: addr
  a_len :: u64
  a_offset_log_end :: u64
  a_nr_areas_max :: u64
  a_name :: "u64 list"
  a_boot_us :: u64
  a_sync_int_us :: u64
  a_sync_ext_us :: u64
  a_type :: u64

definition desc_words :: "tasvir_area_desc \<Rightarrow> u64 list" where
  "desc_words x = [a_pd x, a_h x, a_owner x, a_len x, a_offset_log_end x, a_nr_areas_max x] @ a_name x @
     [a_boot_us x, a_sync_int_us x, a_sync_ext_us x, a_type x]"

definition desc_of_words :: "u64 list \<Rightarrow> tasvir_area_desc" where
  "desc_of_words w = \<lparr>a_pd = w ! 0, a_h = w ! 1, a_owner = w ! 2, a_len = w ! 3, a_offset_log_end = w ! 4, a_nr_areas_max = w ! 5,
     a_name = take 4 (drop 6 w), a_boot_us = w ! 10, a_sync_int_us = w ! 11, a_sync_ext_us = w ! 12, a_type = w ! 13\<rparr>"

definition desc_name :: "tasvir_area_desc \<Rightarrow> cstr" where
  "desc_name x = concat (map word_bytes (a_name x))"

text \<open>\<open>memcpy(d, &desc, sizeof(tasvir_area_desc))\<close> through a plain pointer and into the writer copy.\<close>

fun wr_words :: "addr \<Rightarrow> u64 list \<Rightarrow> ('p, 'r, 'n) tasvir \<Rightarrow> ('p, 'r, 'n) tasvir" where
  "wr_words a [] s = s"
| "wr_words a (w # ws) s = wr_words (a + 8) ws (wr a w s)"

fun wr_rw_words :: "addr \<Rightarrow> u64 list \<Rightarrow> ('p, 'r, 'n) tasvir \<Rightarrow> ('p, 'r, 'n) tasvir" where
  "wr_rw_words a [] s = s"
| "wr_rw_words a (w # ws) s = wr_rw_words (a + 8) ws (wr_rw a w s)"

text \<open>\<open>memset(p, 0, n)\<close>\<close>

definition zero_words :: "addr \<Rightarrow> u64 \<Rightarrow> (addr \<Rightarrow> u64) \<Rightarrow> (addr \<Rightarrow> u64)" where
  "zero_words p n m = (\<lambda>a. if a - p < n then 0 else m a)"

section \<open>Predicates\<close>

definition tasvir_area_is_active :: "('p, 'r, 'n) tasvir \<Rightarrow> addr \<Rightarrow> bool" where
  "tasvir_area_is_active s d \<longleftrightarrow> d \<noteq> 0 \<and> rd s (d_owner d) \<noteq> 0 \<and> rd s (d_h d) \<noteq> 0 \<and>
     has_flag (rd s (h_flags (rd s (d_h d)))) FLAG_ACTIVE"

text \<open>\<open>tasvir_area_is_active_local\<close> reads \<open>d->h\<close> before it tests \<open>d\<close>.\<close>

definition tasvir_area_is_active_local :: "('p, 'r, 'n) tasvir \<Rightarrow> addr \<Rightarrow> bool option" where
  "tasvir_area_is_active_local s d =
    (if d = 0 then None
     else Some (rd s (d_owner d) \<noteq> 0 \<and> rd s (d_h d) \<noteq> 0 \<and> has_flag (m_rw s (h_flags (rd s (d_h d)))) FLAG_ACTIVE))"

definition tasvir_area_is_mapped_rw :: "('p, 'r, 'n) tasvir \<Rightarrow> addr \<Rightarrow> bool" where
  "tasvir_area_is_mapped_rw s d \<longleftrightarrow> rd s (d_h d) \<noteq> 0 \<and> has_flag (rd s (h_flags (rd s (d_h d)))) FLAG_MAPPED_RW"

definition tasvir_area_is_local_by_tid :: "('p, 'r, 'n) tasvir \<Rightarrow> addr \<Rightarrow> bool" where
  "tasvir_area_is_local_by_tid s d \<longleftrightarrow> nid (read_tid s (rd s (d_owner d))) = ucast (rd s (n_nid (node s)))"

definition tasvir_area_is_attached :: "('p, 'r, 'n) tasvir \<Rightarrow> addr \<Rightarrow> addr \<Rightarrow> bool option" where
  "tasvir_area_is_attached s d nd =
    (if node s = 0 then
       (if \<not> assert_ok s (nd = 0 \<and> (d = root_desc s \<or> rd s (d_type d) = AREA_TYPE_NODE)) then None
        else Some (is_daemon s \<longrightarrow> d = root_desc s \<and> rd s (d_owner d) \<noteq> 0 \<or> rd s (d_type d) = AREA_TYPE_NODE))
     else Some (nd \<noteq> 0 \<and> tasvir_area_is_active s d \<and>
       (let hh = rd s (d_h d) in \<exists>i\<in>set [0..<unat (rd s (h_nr_users hh))]. rd s (h_user_node hh i) = nd)))"

definition tasvir_area_is_owner :: "('p, 'r, 'n) tasvir \<Rightarrow> addr \<Rightarrow> addr \<Rightarrow> bool option" where
  "tasvir_area_is_owner s d t =
    (let d = (if d = 0 then root_desc s else d)
     in if is_daemon s \<and> tasvir_is_booting s \<and> d = root_desc s then Some (is_root s)
        else if is_daemon s \<and> tasvir_is_booting s \<and> d = node_desc s then Some True
        else if \<not> assert_ok s (rd s (d_owner d) \<noteq> 0 \<or> rd s (d_type d) = AREA_TYPE_NODE) then None
        else Some (rd s (d_owner d) = t))"

definition thread_state_at :: "('p, 'r, 'n) tasvir \<Rightarrow> addr \<Rightarrow> u64" where
  "thread_state_at s t = drop_bit 32 (rd s (t_pid_state t))"

section \<open>Activation and lookup\<close>

definition tasvir_area_activate :: "addr \<Rightarrow> bool \<Rightarrow> ('p, 'r, 'n) tasvir \<Rightarrow> ('p, 'r, 'n) tasvir" where
  "tasvir_area_activate d active s =
    (if tasvir_area_is_active s d \<and> tasvir_area_is_mapped_rw s d then
       (let f = h_flags (rd s (d_h d))
        in if active \<and> has_flag (rd s f) FLAG_SLEEPING then wr f (rd s f AND NOT FLAG_SLEEPING) s
           else if \<not> active \<and> \<not> has_flag (rd s f) FLAG_SLEEPING then wr f (rd s f OR FLAG_SLEEPING) s
           else s)
     else s)"

definition child :: "addr \<Rightarrow> nat \<Rightarrow> addr" where
  "child c i = c + sizeof_area_desc * of_nat i"

text \<open>The first of the \<open>n\<close> descriptors from \<open>i\<close> on with the given name.\<close>

fun find_name :: "('p, 'r, 'n) tasvir \<Rightarrow> addr \<Rightarrow> cstr \<Rightarrow> nat \<Rightarrow> nat \<Rightarrow> addr option" where
  "find_name s c nm 0 i = None"
| "find_name s c nm (Suc n) i =
    (if strn_eq TASVIR_STRLEN_MAX (read_str s (d_name (child c i))) nm then Some (child c i)
     else find_name s c nm n (Suc i))"

definition tasvir_area_get_by_name :: "('p, 'r, 'n) tasvir \<Rightarrow> addr \<Rightarrow> cstr \<Rightarrow> addr" where
  "tasvir_area_get_by_name s p nm =
    (if p = 0 then (if chr nm = slash then root_desc s else 0)
     else if rd s (d_type p) = AREA_TYPE_CONTAINER \<and> rd s (d_h p) \<noteq> 0 \<and> rd s (h_d (rd s (d_h p))) \<noteq> 0
     then (case find_name s (tasvir_data s p) nm (unat (rd s (h_nr_areas (rd s (d_h p))))) 0 of Some d \<Rightarrow> d | None \<Rightarrow> 0)
     else 0)"

definition tasvir_area_normalize_name :: "cstr \<Rightarrow> nat \<Rightarrow> cstr" where
  "tasvir_area_normalize_name nm buf_size =
     slash # strncpy_bytes (if chr nm = slash then tl nm else nm) (buf_size - 1)"

text \<open>
  \<open>tasvir_area_walk\<close> (daemon): \<open>Inl d\<close> is the call on \<open>d\<close>, \<open>Inr (d, c, i)\<close> its loop over the children
  from the \<open>i\<close>-th on.
\<close>

partial_function (option) area_walk ::
  "(addr \<Rightarrow> ('p, 'r, 'n) tasvir \<Rightarrow> (u64 \<times> ('p, 'r, 'n) tasvir) option) \<Rightarrow> addr + addr \<times> addr \<times> nat \<Rightarrow>
   ('p, 'r, 'n) tasvir \<Rightarrow> (u64 \<times> ('p, 'r, 'n) tasvir) option" where
  "area_walk f x s =
    (case x of
       Inl d \<Rightarrow> Option.bind (tasvir_area_is_active_local s d) (\<lambda>a.
         if \<not> a then Some (0, s)
         else Option.bind (f d s) (\<lambda>(r, s).
           if rd s (d_type d) = AREA_TYPE_CONTAINER
           then Option.bind (area_walk f (Inr (d, tasvir_data s d, 0)) s) (\<lambda>(r', s). Some (r + r', s))
           else Some (r, s)))
     | Inr (d, c, i) \<Rightarrow>
         if i < unat (rd s (h_nr_areas (rd s (d_h d))))
         then Option.bind (area_walk f (Inl (child c i)) s) (\<lambda>(r, s).
           Option.bind (area_walk f (Inr (d, c, i + 1)) s) (\<lambda>(r', s). Some (r + r', s)))
         else Some (0, s))"

definition tasvir_area_walk ::
  "(addr \<Rightarrow> ('p, 'r, 'n) tasvir \<Rightarrow> (u64 \<times> ('p, 'r, 'n) tasvir) option) \<Rightarrow> addr \<Rightarrow>
   ('p, 'r, 'n) tasvir \<Rightarrow> (u64 \<times> ('p, 'r, 'n) tasvir) option" where
  "tasvir_area_walk f d s = area_walk f (Inl d) s"

section \<open>Mapping\<close>

text \<open>
  \<open>tasvir_update_va\<close>: the pages of the first \<open>offset_log_end\<close> bytes of the area show the writer copy
  (\<open>is_rw\<close>) or the reader copy.
\<close>

definition tasvir_update_va ::
  "('p, 'r, 'n) env \<Rightarrow> addr \<Rightarrow> bool \<Rightarrow> ('p, 'r, 'n) tasvir \<Rightarrow> ('p, 'r, 'n) tasvir option" where
  "tasvir_update_va E d is_rw s =
    (if tasvir_area_is_mapped_rw s d = is_rw then Some s
     else (let hh = rd s (d_h d); n = rd s (d_offset_log_end d);
               offset = hh - TASVIR_ADDR_BASE + (if is_rw then TASVIR_SIZE_DATA else 0)
           in if mmap_ok E hh n offset
              then (let s = s\<lparr>va_rw := (\<lambda>a. if a - hh < n then is_rw else va_rw s a)\<rparr>
                    in Some (if is_rw then wr (h_flags (rd s (d_h d))) (rd s (h_flags (rd s (d_h d))) OR FLAG_MAPPED_RW) s
                             else s))
              else None))"

section \<open>Owners\<close>

text \<open>A loop \<open>while (__rdtsc() < end_tsc && cond) body\<close>.\<close>

partial_function (option) timed_wait ::
  "u64 \<Rightarrow> (('p, 'r, 'n) tasvir \<Rightarrow> bool) \<Rightarrow> (('p, 'r, 'n) tasvir \<Rightarrow> (int \<times> ('p, 'r, 'n) tasvir) option) \<Rightarrow>
   ('p, 'r, 'n) tasvir \<Rightarrow> ('p, 'r, 'n) tasvir option" where
  "timed_wait end_tsc cond body s =
    (let (t, s) = rdtsc s
     in if t < end_tsc \<and> cond s then Option.bind (body s) (\<lambda>(_, s). timed_wait end_tsc cond body s) else Some s)"

definition set_do_free :: "nat \<Rightarrow> ('p, 'r, 'n) tasvir \<Rightarrow> ('p, 'r, 'n) tasvir" where
  "set_do_free i s = s\<lparr>status_l := (status_l s)(i := (status_l s i)\<lparr>rs_do_free := True\<rparr>)\<rparr>"

text \<open>\<open>s = tasvir_rpc(...); s->do_free = true;\<close>\<close>

definition rpc_free ::
  "('p, 'r, 'n) calls \<Rightarrow> addr \<Rightarrow> tasvir_fn \<Rightarrow> u64 list list \<Rightarrow> ('p, 'r, 'n) tasvir \<Rightarrow> ('p, 'r, 'n) tasvir option" where
  "rpc_free K d fn args s =
    do { (rs, s) \<leftarrow> k_rpc K d fn args s;
         case rs of None \<Rightarrow> None | Some i \<Rightarrow> Some (set_do_free i s) }"

definition tasvir_update_owner ::
  "('p, 'r, 'n) env \<Rightarrow> ('p, 'r, 'n) calls \<Rightarrow> addr \<Rightarrow> addr \<Rightarrow> ('p, 'r, 'n) tasvir \<Rightarrow>
   (int \<times> ('p, 'r, 'n) tasvir) option" where
  "tasvir_update_owner E K d new s =
    (if \<not> assert_ok s (d \<noteq> 0 \<and> thread s \<noteq> 0 \<and> new \<noteq> 0 \<and>
          (tasvir_is_booting s \<longrightarrow> d = root_desc s \<or> node_desc s \<noteq> 0)) then None
     else do {
       let booting = tasvir_is_booting s;
       let is_new_owner = (booting \<or> thread s = new);
       let is_old_owner = (booting \<or> thread s = rd s (d_owner d));
       let is_parent_owner = (if booting then is_root s
              else thread s = (if rd s (d_pd d) \<noteq> 0 then rd s (d_owner (rd s (d_pd d))) else rd s (d_owner d)));
       let hh = rd s (d_h d);
       s \<leftarrow> (if is_new_owner then do {
                s \<leftarrow> tasvir_update_va E d True s;
                let s = wr_rw (h_flags hh) (m_rw s (h_flags hh) OR FLAG_LOCAL) s;
                let s = wr_ro (h_flags hh) (m_ro s (h_flags hh) OR FLAG_LOCAL) s;
                if \<not> is_old_owner then rpc_free K d Fn_update_owner [[d], [new]] s
                else if rd s (d_owner d) \<noteq> new \<and> \<not> is_parent_owner
                then rpc_free K (rd s (d_pd d)) Fn_update_owner [[d], [new]] s
                else Some s }
             else if is_old_owner then do {
                s \<leftarrow> tasvir_update_va E d False s;
                if nid (read_tid s new) \<noteq> nid (read_tid s (rd s (d_owner d)))
                then Some (wr_ro (h_flags hh) (m_ro s (h_flags hh) AND NOT FLAG_LOCAL)
                            (wr_rw (h_flags hh) (m_rw s (h_flags hh) AND NOT FLAG_LOCAL) s))
                else Some s }
             else Some s);
       let s = (if is_parent_owner then wr (d_owner d) new (tlog (d_owner d) 8 s) else s);
       let (t, s) = rdtsc s;
       s \<leftarrow> timed_wait (t + usec2tsc E (100 * MS2US)) (\<lambda>s. rd s (d_owner d) \<noteq> new) (k_service K) s;
       Some (if rd s (d_owner d) = new then 0 else - 1, s) })"

section \<open>Users\<close>

text \<open>
  The loop of the daemon over \<open>ttld.node->areas_d\<close>: the index of \<open>d\<close>, added at the first free slot
  when it is not there; \<open>-1\<close> when the \<open>n\<close> slots from \<open>i\<close> on hold neither.
\<close>

fun node_add_area :: "addr \<Rightarrow> nat \<Rightarrow> nat \<Rightarrow> ('p, 'r, 'n) tasvir \<Rightarrow> int \<times> ('p, 'r, 'n) tasvir" where
  "node_add_area d 0 i s = (- 1, s)"
| "node_add_area d (Suc n) i s =
    (let nd = node s; a = rd s (n_areas_d nd i)
     in if a = 0 then
          (let s = wr (n_nr_areas nd) (rd s (n_nr_areas nd) + 1) s;
               s = tlog (n_areas_v nd i) 8 (tlog (n_areas_d nd i) 8 s);
               s = wr (n_areas_v nd i) 0 (wr (n_areas_d nd i) d s)
           in (int i, s))
        else if a = d then (int i, s)
        else node_add_area d n (Suc i) s)"

fun find_area :: "('p, 'r, 'n) tasvir \<Rightarrow> addr \<Rightarrow> addr \<Rightarrow> nat \<Rightarrow> nat \<Rightarrow> int \<Rightarrow> int" where
  "find_area s nd d 0 i ix = ix"
| "find_area s nd d (Suc n) i ix = (if rd s (n_areas_d nd i) = d then int i else find_area s nd d n (Suc i) ix)"

text \<open>The first free slot of \<open>h->users\<close> gets the node and the address of its version.\<close>

fun set_user :: "addr \<Rightarrow> addr \<Rightarrow> int \<Rightarrow> nat \<Rightarrow> nat \<Rightarrow> ('p, 'r, 'n) tasvir \<Rightarrow> ('p, 'r, 'n) tasvir" where
  "set_user hh nd ix 0 i s = s"
| "set_user hh nd ix (Suc n) i s =
    (if rd s (h_user_node hh i) = 0
     then wr (h_user_version hh i) (n_areas_v nd 0 + 8 * of_int ix)
            (wr (h_user_node hh i) nd (tlog (h_user_node hh i) 16 s))
     else set_user hh nd ix n (Suc i) s)"

text \<open>The part of \<open>tasvir_area_add_user\<close> the owner of the area runs.\<close>

definition add_user_owner ::
  "addr \<Rightarrow> addr \<Rightarrow> int \<Rightarrow> bool \<Rightarrow> ('p, 'r, 'n) tasvir \<Rightarrow> int \<times> ('p, 'r, 'n) tasvir" where
  "add_user_owner d nd ix is_req_local s =
    (let ix = (if \<not> is_daemon s \<and> is_req_local
                then find_area s nd d (unat (rd s (n_nr_areas (node s)))) 0 ix else ix);
         hh = rd s (d_h d)
     in if \<not> is_daemon s \<and> is_req_local \<and> ix = - 1 then (- 1, s)
        else if unat (rd s (h_nr_users hh) + 1) > TASVIR_NR_NODES then (- 1, s)
        else (let s = tlog (h_nr_users hh) 8 s;
                  s = (if nd \<noteq> 0
                       then (let s = wr (h_nr_users hh) (rd s (h_nr_users hh) + 1) s
                             in set_user hh nd ix (unat (rd s (h_nr_users hh))) 0 s)
                       else s);
                  s = (if is_daemon s \<and> d = root_desc s then s\<lparr>ndata := (ndata s)\<lparr>node_init_req := True\<rparr>\<rparr> else s)
              in (0, s)))"

definition rpc_int :: "u64 list \<Rightarrow> int" where
  "rpc_int ws = sint (ucast (ws ! 0) :: u32)"

text \<open>
  The part that runs when the request is for the local node. \<open>Inl r\<close> is an early return; the daemon
  carries on with the index it found.
\<close>

definition add_user_local ::
  "('p, 'r, 'n) calls \<Rightarrow> addr \<Rightarrow> addr \<Rightarrow> int \<Rightarrow> ('p, 'r, 'n) tasvir \<Rightarrow> ((int + int) \<times> ('p, 'r, 'n) tasvir) option" where
  "add_user_local K d nd ix s =
    (if is_daemon s then
       (if unat (rd s (n_nr_areas (node s)) + 1) > TASVIR_NR_AREAS then Some (Inl (- 1), s)
        else do {
          let s = tlog (n_nr_areas (node s)) 8 s;
          let (ix, s) = node_add_area d (unat (rd s (n_nr_areas (node s)) + 1)) 0 s;
          if \<not> tasvir_area_is_local s d then do {
            (rc, ret, s) \<leftarrow> k_rpc_wait K S2US d Fn_area_add_user [[d], [nd], [of_int ix]] s;
            if rc \<noteq> 0 then Some (Inl (- 1), s)
            else Some (Inl (rpc_int ret), tlog (n_nr_areas (node s)) 8 s) }
          else Some (Inr ix, s) })
     else do {
       (rc, ret, s) \<leftarrow> k_rpc_wait K S2US (node_desc s) Fn_area_add_user [[d], [nd], [- 1]] s;
       if rc \<noteq> 0 \<or> rpc_int ret \<noteq> 0 then Some (Inl (- 1), s) else Some (Inr ix, s) })"

definition tasvir_area_add_user ::
  "('p, 'r, 'n) calls \<Rightarrow> addr \<Rightarrow> addr \<Rightarrow> int \<Rightarrow> ('p, 'r, 'n) tasvir \<Rightarrow> (int \<times> ('p, 'r, 'n) tasvir) option" where
  "tasvir_area_add_user K d nd ix s =
    (if \<not> assert_ok s (nd \<noteq> 0 \<or> d = root_desc s) then None
     else if \<not> is_daemon s \<and> tasvir_area_is_local s d \<and> \<not> tasvir_area_is_active s d then Some (- 1, s)
     else do {
       attached \<leftarrow> tasvir_area_is_attached s d nd;
       if attached then Some (0, s)
       else do {
         let is_req_local = (nd \<noteq> 0 \<and> node s = nd);
         (r, s) \<leftarrow> (if is_req_local then add_user_local K d nd ix s else Some (Inr ix, s));
         case r of
           Inl rc \<Rightarrow> Some (rc, s)
         | Inr ix \<Rightarrow> do {
             mine \<leftarrow> tasvir_area_is_owner s d (thread s);
             Some (if mine then add_user_owner d nd ix is_req_local s else (0, s)) } } })"

text \<open>A thousand rounds of \<open>tasvir_service\<close>, the body of the two waiting loops.\<close>

fun service_rounds :: "nat \<Rightarrow> ('p, 'r, 'n) calls \<Rightarrow> ('p, 'r, 'n) tasvir \<Rightarrow> ('p, 'r, 'n) tasvir option" where
  "service_rounds 0 K s = Some s"
| "service_rounds (Suc n) K s = do { (_, s) \<leftarrow> k_service K s; service_rounds n K s }"

partial_function (option) add_user_wait_loop ::
  "('p, 'r, 'n) calls \<Rightarrow> u64 \<Rightarrow> addr \<Rightarrow> addr \<Rightarrow> int \<Rightarrow> int \<Rightarrow> ('p, 'r, 'n) tasvir \<Rightarrow>
   (int \<times> ('p, 'r, 'n) tasvir) option" where
  "add_user_wait_loop K end_tsc d nd ix retval s =
    (let (t, s) = rdtsc s
     in if t < end_tsc
        then Option.bind (tasvir_area_add_user K d nd ix s) (\<lambda>(retval, s).
               if retval \<noteq> 0
               then Option.bind (service_rounds 1000 K s) (\<lambda>s. add_user_wait_loop K end_tsc d nd ix retval s)
               else Some (retval, s))
        else Some (retval, s))"

definition tasvir_area_add_user_wait ::
  "('p, 'r, 'n) env \<Rightarrow> ('p, 'r, 'n) calls \<Rightarrow> u64 \<Rightarrow> addr \<Rightarrow> addr \<Rightarrow> int \<Rightarrow> ('p, 'r, 'n) tasvir \<Rightarrow>
   (int \<times> ('p, 'r, 'n) tasvir) option" where
  "tasvir_area_add_user_wait E K timeout_us d nd ix s =
    (let (t, s) = rdtsc s in add_user_wait_loop K (t + usec2tsc E timeout_us) d nd ix (- 1) s)"

section \<open>Attaching by name\<close>

fun attach_path ::
  "('p, 'r, 'n) calls \<Rightarrow> addr \<Rightarrow> cstr list \<Rightarrow> ('p, 'r, 'n) tasvir \<Rightarrow> (addr \<times> ('p, 'r, 'n) tasvir) option" where
  "attach_path K p [] s = Some (p, s)"
| "attach_path K p (tok # toks) s =
    (let d = tasvir_area_get_by_name s p tok
     in if d = 0 then Some (0, s)
        else do { (rc, s) \<leftarrow> tasvir_area_add_user K d (node s) (- 1) s;
                  if rc \<noteq> 0 then Some (0, s) else attach_path K d toks s })"

definition tasvir_attach ::
  "('p, 'r, 'n) calls \<Rightarrow> cstr \<Rightarrow> ('p, 'r, 'n) tasvir \<Rightarrow> (addr \<times> ('p, 'r, 'n) tasvir) option" where
  "tasvir_attach K nm s =
    do { toks \<leftarrow> strtok_all (tasvir_area_normalize_name nm 256);
         if toks = [] then attach_path K 0 [[slash]] s else attach_path K (root_desc s) toks s }"

partial_function (option) attach_wait_loop ::
  "('p, 'r, 'n) calls \<Rightarrow> u64 \<Rightarrow> cstr \<Rightarrow> addr option \<Rightarrow> ('p, 'r, 'n) tasvir \<Rightarrow>
   (addr option \<times> ('p, 'r, 'n) tasvir) option" where
  "attach_wait_loop K end_tsc nm d s =
    (let (t, s) = rdtsc s
     in if t < end_tsc
        then Option.bind (tasvir_attach K nm s) (\<lambda>(d, s).
               if d = 0
               then Option.bind (service_rounds 1000 K s) (\<lambda>s. attach_wait_loop K end_tsc nm (Some d) s)
               else Some (Some d, s))
        else Some (d, s))"

text \<open>The result is \<open>None\<close> when the variable \<open>d\<close> was never assigned.\<close>

definition tasvir_attach_wait ::
  "('p, 'r, 'n) env \<Rightarrow> ('p, 'r, 'n) calls \<Rightarrow> u64 \<Rightarrow> cstr \<Rightarrow> ('p, 'r, 'n) tasvir \<Rightarrow>
   (addr option \<times> ('p, 'r, 'n) tasvir) option" where
  "tasvir_attach_wait E K timeout_us nm s =
    (let (t, s) = rdtsc s in attach_wait_loop K (t + usec2tsc E timeout_us) nm None s)"

definition tasvir_delete :: "addr \<Rightarrow> ('p, 'r, 'n) tasvir \<Rightarrow> (int \<times> ('p, 'r, 'n) tasvir) option" where
  "tasvir_delete d s = None"

definition tasvir_detach :: "addr \<Rightarrow> ('p, 'r, 'n) tasvir \<Rightarrow> (int \<times> ('p, 'r, 'n) tasvir) option" where
  "tasvir_detach d s = None"

section \<open>Creating areas\<close>

text \<open>The descriptor slot and the header address \<open>tasvir_new_alloc_desc\<close> chooses in a container.\<close>

definition alloc_header :: "('p, 'r, 'n) tasvir \<Rightarrow> addr \<Rightarrow> addr \<Rightarrow> nat \<Rightarrow> addr" where
  "alloc_header s p c n =
     TASVIR_ALIGN (if 0 < n then rd s (d_h (child c (n - 1))) + rd s (d_len (child c (n - 1)))
                   else c + rd s (d_nr_areas_max p) * sizeof_area_desc)"

definition alloc_slot ::
  "tasvir_area_desc \<Rightarrow> ('p, 'r, 'n) tasvir \<Rightarrow> (addr \<times> addr \<times> ('p, 'r, 'n) tasvir) option" where
  "alloc_slot desc s =
    (let p = a_pd desc; c = tasvir_data s p; ph = rd s (d_h p); n = unat (rd s (h_nr_areas ph))
     in if rd s (h_nr_areas ph) \<ge> rd s (d_nr_areas_max p) then None
        else if find_name s c (desc_name desc) n 0 \<noteq> None then None
        else if alloc_header s p c n + a_len desc \<ge> rd s (l_data (h_diff_log ph 0)) then None
        else Some (child c n, alloc_header s p c n,
               wr (h_nr_areas ph) (rd s (h_nr_areas ph) + 1) (tlog (h_nr_areas ph) 8 s)))"

text \<open>The part of \<open>tasvir_new_alloc_desc\<close> the owner of the parent runs; the result 0 is NULL.\<close>

definition new_alloc_desc_owner ::
  "('p, 'r, 'n) env \<Rightarrow> tasvir_area_desc \<Rightarrow> ('p, 'r, 'n) tasvir \<Rightarrow> addr \<times> ('p, 'r, 'n) tasvir" where
  "new_alloc_desc_owner E desc s =
    (case (if a_pd desc = 0 then Some (root_desc s, rd s (d_h (root_desc s)), s) else alloc_slot desc s) of
       None \<Rightarrow> (0, s)
     | Some (d, hh, s) \<Rightarrow>
         (let s = tlog d sizeof_area_desc s;
              desc = desc\<lparr>a_h := hh\<rparr>;
              desc = (if node_desc s \<noteq> 0 \<and> a_type desc = AREA_TYPE_NODE
                      then desc\<lparr>a_sync_ext_us := rd s (d_sync_ext_us (node_desc s))\<rparr> else desc);
              (t, s) = tasvir_time_us E s;
              desc = desc\<lparr>a_boot_us := t\<rparr>;
              s = wr_words d (desc_words desc) s;
              s = (if d = root_desc s then wr_rw_words d (desc_words desc) s else s)
          in (d, s)))"

definition tasvir_new_alloc_desc ::
  "('p, 'r, 'n) env \<Rightarrow> ('p, 'r, 'n) calls \<Rightarrow> tasvir_area_desc \<Rightarrow> ('p, 'r, 'n) tasvir \<Rightarrow>
   (addr \<times> ('p, 'r, 'n) tasvir) option" where
  "tasvir_new_alloc_desc E K desc s =
    do { mine \<leftarrow> tasvir_area_is_owner s (a_pd desc) (thread s);
         if \<not> mine then do {
           (rc, ret, s) \<leftarrow> k_rpc_wait K S2US (a_pd desc) Fn_new_alloc_desc [desc_words desc] s;
           Some (if rc \<noteq> 0 then 0 else ret ! 0, s) }
         else Some (new_alloc_desc_owner E desc s) }"

text \<open>The space requirements \<open>tasvir_new\<close> computes.\<close>

definition size_metadata :: "tasvir_area_desc \<Rightarrow> u64" where
  "size_metadata desc = sizeof_area_header + a_nr_areas_max desc * sizeof_area_desc"

definition log_end_of :: "tasvir_area_desc \<Rightarrow> u64" where
  "log_end_of desc = TASVIR_ALIGN (size_metadata desc + (if a_type desc = AREA_TYPE_CONTAINER then 0 else a_len desc))"

definition offset_log_of :: "tasvir_area_desc \<Rightarrow> u64" where
  "offset_log_of desc = TASVIR_ALIGN (size_metadata desc + a_len desc)"

definition size_log_of :: "tasvir_area_desc \<Rightarrow> u64" where
  "size_log_of desc = TASVIR_ALIGNX (drop_bit TASVIR_SHIFT_BYTE (log_end_of desc)) 8"

definition new_desc :: "tasvir_area_desc \<Rightarrow> ('p, 'r, 'n) tasvir \<Rightarrow> tasvir_area_desc" where
  "new_desc desc s =
    (let desc = (if a_sync_int_us desc = 0 then desc\<lparr>a_sync_int_us := TASVIR_SYNC_INTERNAL_US\<rparr> else desc);
         desc = (if a_sync_ext_us desc = 0 then desc\<lparr>a_sync_ext_us := TASVIR_SYNC_EXTERNAL_US\<rparr> else desc);
         desc = (if a_type desc = 0 then desc\<lparr>a_type := AREA_TYPE_APP\<rparr> else desc);
         desc = desc\<lparr>a_owner := thread s\<rparr>;
         desc = (if a_pd desc = 0 \<and> node s \<noteq> 0 then desc\<lparr>a_pd := root_desc s\<rparr> else desc)
     in desc\<lparr>a_offset_log_end := log_end_of desc,
             a_len := offset_log_of desc + TASVIR_ALIGN (of_nat TASVIR_NR_AREA_LOGS * size_log_of desc)\<rparr>)"

text \<open>The loop over \<open>h->diff_log\<close>.\<close>

fun init_logs :: "addr \<Rightarrow> u64 \<Rightarrow> u64 \<Rightarrow> nat \<Rightarrow> nat \<Rightarrow> ('p, 'r, 'n) tasvir \<Rightarrow> ('p, 'r, 'n) tasvir" where
  "init_logs hh offset_log size_log 0 i s = s"
| "init_logs hh offset_log size_log (Suc n) i s =
    (let l = h_diff_log hh i;
         s = wr (l_version_end l) 0 (wr (l_version_start l) 0 s);
         s = wr (l_end_us l) 0 (wr (l_start_us l) (rd s (h_time_us hh)) s);
         s = wr (l_data l) (hh + offset_log + of_nat i * size_log) s
     in init_logs hh offset_log size_log n (Suc i) s)"

text \<open>The initialisation of the header, up to the subscription of the local node.\<close>

definition init_header ::
  "('p, 'r, 'n) env \<Rightarrow> addr \<Rightarrow> u64 \<Rightarrow> u64 \<Rightarrow> ('p, 'r, 'n) tasvir \<Rightarrow> ('p, 'r, 'n) tasvir" where
  "init_header E d offset_log size_log s =
    (let hh = rd s (d_h d);
         s = tlog (h_d hh) (sizeof_area_header - 64) s;
         s = wr (h_flags hh) (rd s (h_flags hh) OR FLAG_ACTIVE) s;
         s = wr (h_version hh) 1 (wr (h_d hh) d (wr (h_last_sync_ext_us hh) 0 s));
         (t, s) = tasvir_time_us E s;
         s = wr (h_nr_users hh) 0 (wr (h_nr_areas hh) 0 (wr (h_time_us hh) t s))
     in init_logs hh offset_log size_log TASVIR_NR_AREA_LOGS 0 s)"

partial_function (option) boot_wait ::
  "('p, 'r, 'n) calls \<Rightarrow> u64 \<Rightarrow> addr \<Rightarrow> ('p, 'r, 'n) tasvir \<Rightarrow> ('p, 'r, 'n) tasvir option" where
  "boot_wait K end_tsc d s =
    (let (t, s) = rdtsc s
     in if t < end_tsc
        then (if rd s (d_h d) \<noteq> 0 \<and>
                 (rd s (d_owner d) = 0 \<or> thread_state_at s (rd s (d_owner d)) = thread_state_code THREAD_RUNNING)
              then Some s
              else Option.bind (k_service K s) (\<lambda>(_, s). boot_wait K end_tsc d s))
        else Some s)"

definition tasvir_new ::
  "('p, 'r, 'n) env \<Rightarrow> ('p, 'r, 'n) calls \<Rightarrow> tasvir_area_desc \<Rightarrow> ('p, 'r, 'n) tasvir \<Rightarrow>
   (addr \<times> ('p, 'r, 'n) tasvir) option" where
  "tasvir_new E K desc0 s =
    (let desc = new_desc desc0 s;
         desc1 = desc\<lparr>a_len := a_len desc0\<rparr>;
         offset_log = offset_log_of desc1; size_log = size_log_of desc1
     in if \<not> is_daemon s \<and> node s = 0 then Some (0, s)
        else do {
          (d, s) \<leftarrow> tasvir_new_alloc_desc E K desc s;
          if d = 0 then Some (0, s)
          else do {
            let booting = (is_daemon s \<and> tasvir_is_booting s);
            s \<leftarrow> (if booting
                  then (let (t, s) = rdtsc s in boot_wait K (t + usec2tsc E S2US) d s)
                  else Some s);
            if booting \<and> rd s (d_h d) = 0 then Some (0, s)
            else do {
              let hh = rd s (d_h d);
              let s = s\<lparr>m_rw := zero_words hh (size_metadata desc) (m_rw s), m_ro := zero_words hh (size_metadata desc) (m_ro s)\<rparr>;
              (_, s) \<leftarrow> tasvir_update_owner E K d (a_owner desc) s;
              let s = init_header E d offset_log size_log s;
              if node s \<noteq> 0 then do {
                (rc, s) \<leftarrow> tasvir_area_add_user K d (node s) (- 1) s;
                Some (if rc \<noteq> 0 then 0 else d, s) }
              else Some (d, s) } } })"

end
