(* ===== verification/Tasvir_Sync_Internal.thy ===== *)
theory Tasvir_Sync_Internal
  imports Tasvir_Area
begin

text \<open>
  \<open>src/sync_internal.c\<close>: the daemon schedules a round (\<open>tasvir_sched_sync_internal\<close>), the threads meet
  at the barrier and work through the jobs (\<open>tasvir_sync_internal\<close>). This theory is the code of one
  thread; what the others do while it waits is \<open>others\<close> of the environment. \<open>Tasvir_Barrier\<close> has the
  interleavings.
\<close>

definition TASVIR_NR_THREADS_LOCAL :: nat where "TASVIR_NR_THREADS_LOCAL = 64"
definition TASVIR_NR_SYNC_JOBS :: nat where "TASVIR_NR_SYNC_JOBS = 2048"
definition TASVIR_BARRIER_ENTER_US :: u64 where "TASVIR_BARRIER_ENTER_US = 50"
definition KB :: u64 where "KB = 1000"

definition upd_ndata ::
  "(('p, 'r) tasvir_local_ndata \<Rightarrow> ('p, 'r) tasvir_local_ndata) \<Rightarrow> ('p, 'r, 'n) tasvir \<Rightarrow> ('p, 'r, 'n) tasvir" where
  "upd_ndata f s = s\<lparr>ndata := f (ndata s)\<rparr>"

definition upd_stats :: "(tasvir_stats \<Rightarrow> tasvir_stats) \<Rightarrow> ('p, 'r, 'n) tasvir \<Rightarrow> ('p, 'r, 'n) tasvir" where
  "upd_stats f = upd_ndata (\<lambda>n. n\<lparr>stats_cur := f (stats_cur n)\<rparr>)"

text \<open>\<open>ttld.node->heartbeat_us\<close> is a 32-bit field.\<close>

definition heartbeat_us :: "('p, 'r, 'n) tasvir \<Rightarrow> u64" where
  "heartbeat_us s = ucast (ucast (rd s (n_heartbeat_us (node s))) :: u32)"

section \<open>Activation\<close>

partial_function (option) activate_wait ::
  "('p, 'r, 'n) env \<Rightarrow> ('p, 'r, 'n) tasvir \<Rightarrow> ('p, 'r, 'n) tasvir option" where
  "activate_wait E s =
    (if t_state (my_tdata s) \<noteq> t_state_req (my_tdata s) then activate_wait E (others E s) else Some s)"

definition tasvir_activate ::
  "('p, 'r, 'n) env \<Rightarrow> bool \<Rightarrow> ('p, 'r, 'n) tasvir \<Rightarrow> ('p, 'r, 'n) tasvir option" where
  "tasvir_activate E active s =
    (if active then activate_wait E (upd_tdata (tdata_idx s) (\<lambda>t. t\<lparr>t_state_req := THREAD_RUNNING\<rparr>) s)
     else Some (upd_tdata (tdata_idx s) (\<lambda>t. t\<lparr>t_state_req := THREAD_SLEEPING\<rparr>) s))"

section \<open>Killing a thread\<close>

text \<open>\<open>Inl d\<close> is the call on \<open>d\<close>, \<open>Inr (d, c, i)\<close> its loop over the children.\<close>

partial_function (option) kill_ownership ::
  "('p, 'r, 'n) env \<Rightarrow> ('p, 'r, 'n) calls \<Rightarrow> addr \<Rightarrow> addr + addr \<times> addr \<times> nat \<Rightarrow>
   ('p, 'r, 'n) tasvir \<Rightarrow> ('p, 'r, 'n) tasvir option" where
  "kill_ownership E K t x s =
    (case x of
       Inl d \<Rightarrow> Option.bind (if rd s (d_type d) = AREA_TYPE_CONTAINER
                            then kill_ownership E K t (Inr (d, tasvir_data s d, 0)) s else Some s) (\<lambda>s.
         if rd s (d_owner d) = t
         then Option.bind (tasvir_update_owner E K d (thread s) s) (\<lambda>(_, s). Some s)
         else Some s)
     | Inr (d, c, i) \<Rightarrow>
         if i < unat (rd s (h_nr_areas (rd s (d_h d))))
         then Option.bind (kill_ownership E K t (Inl (child c i)) s) (\<lambda>s. kill_ownership E K t (Inr (d, c, i + 1)) s)
         else Some s)"

definition tasvir_kill_thread_ownership ::
  "('p, 'r, 'n) env \<Rightarrow> ('p, 'r, 'n) calls \<Rightarrow> addr \<Rightarrow> addr \<Rightarrow> ('p, 'r, 'n) tasvir \<Rightarrow> ('p, 'r, 'n) tasvir option" where
  "tasvir_kill_thread_ownership E K t d s = kill_ownership E K t (Inl d) s"

definition zero_sync_list :: tasvir_sync_list where
  "zero_sync_list = \<lparr>changed = 0, cnt = 0, litems = replicate TASVIR_SYNC_LIST_LEN \<lparr>offset_scaled = 0, len_scaled = 0\<rparr>\<rparr>"

text \<open>\<open>memset(tdata, 0, sizeof(*tdata))\<close>\<close>

definition zero_tdata :: "'r tasvir_local_tdata" where
  "zero_tdata = \<lparr>t_time = 0, t_ring_tx = None, t_ring_rx = None, t_state = THREAD_INVALID, t_state_req = THREAD_INVALID,
     t_prev_sync_seq = 0, t_next_sync_seq = 0, t_sync_list = zero_sync_list\<rparr>"

definition tasvir_kill_thread ::
  "('p, 'r, 'n) env \<Rightarrow> ('p, 'r, 'n) calls \<Rightarrow> addr \<Rightarrow> ('p, 'r, 'n) tasvir \<Rightarrow> ('p, 'r, 'n) tasvir option" where
  "tasvir_kill_thread E K t s =
    (let i = unat (idx (read_tid s t))
     in if length (tdata (ndata s)) \<le> i then None
        else do {
          s \<leftarrow> tasvir_kill_thread_ownership E K t (root_desc s) s;
          let s = s\<lparr>killed := killed s @ [pid (read_tid s t)]\<rparr>;
          let s = upd_tdata i (\<lambda>_. zero_tdata\<lparr>t_state := THREAD_DEAD\<rparr>) s;
          let s = tlog t sizeof_thread s;
          Some (wr (t_pid_state t) (push_bit 32 (thread_state_code THREAD_DEAD)) (wr (t_nid_idx t) 0 (wr (t_time_us t) 0 s))) })"

section \<open>Scheduling a round\<close>

definition tasvir_sched_sync_internal_area ::
  "addr \<Rightarrow> ('p, 'r, 'n) tasvir \<Rightarrow> (u64 \<times> ('p, 'r, 'n) tasvir) option" where
  "tasvir_sched_sync_internal_area d s =
    (let s = (if rd s (d_sync_int_us d) < sync_int_us (ndata s)
              then upd_ndata (\<lambda>n. n\<lparr>sync_int_us := rd s (d_sync_int_us d)\<rparr>) s else s);
         flags = m_rw s (h_flags (rd s (d_h d)))
     in if has_flag flags (FLAG_EXT_PENDING OR FLAG_SLEEPING) then Some (0, s)
        else if nr_jobs (ndata s) \<ge> TASVIR_NR_SYNC_JOBS then None
        else (let n = rd s (d_offset_log_end d);
                  j = \<lparr>j_d = d, j_self_sync = (n < 500 * KB), j_done_stage1 = False, j_done_stage2 = False,
                       j_done_stage3 = False, j_offset = 0, j_bytes_seen = 0, j_bytes_updated = 0\<rparr>;
                  s = upd_ndata (\<lambda>nd. nd\<lparr>jobs := (jobs nd)[nr_jobs nd := j], job_bytes := job_bytes nd + n,
                                        nr_jobs := nr_jobs nd + 1\<rparr>) s
              in Some (job_bytes (ndata s), s)))"

text \<open>The heartbeat of one thread: its requested state is adopted, a dead one is removed, a live one counted.\<close>

definition heartbeat ::
  "('p, 'r, 'n) env \<Rightarrow> ('p, 'r, 'n) calls \<Rightarrow> nat \<Rightarrow> nat \<times> ('p, 'r, 'n) tasvir \<Rightarrow> (nat \<times> ('p, 'r, 'n) tasvir) option" where
  "heartbeat E K tid ns =
    (let (nr_threads, s) = ns;
         td = tdata (ndata s) ! tid;
         s = (if t_state_req td \<noteq> THREAD_INVALID \<and> t_state td \<noteq> t_state_req td
              then upd_tdata tid (\<lambda>t. t\<lparr>t_state := t_state_req t\<rparr>) s else s);
         td = tdata (ndata s) ! tid; t = n_thread (node s) tid
     in if t_state td = THREAD_RUNNING then
          (if time_us (ndata s) - t_time td > heartbeat_us s \<and> pid_dead E (pid (read_tid s t))
           then do { s \<leftarrow> tasvir_kill_thread E K t (s\<lparr>sched_pending := True\<rparr>);
                     Some (nr_threads, s\<lparr>sched_pending := False\<rparr>) }
           else Some (nr_threads + 1,
                  if rd s (t_time_us t) \<noteq> t_time td then wr (t_time_us t) (t_time td) (tlog (t_time_us t) 8 s) else s))
        else Some (nr_threads, s))"

fun heartbeats ::
  "('p, 'r, 'n) env \<Rightarrow> ('p, 'r, 'n) calls \<Rightarrow> nat list \<Rightarrow> nat \<times> ('p, 'r, 'n) tasvir \<Rightarrow> (nat \<times> ('p, 'r, 'n) tasvir) option" where
  "heartbeats E K [] ns = Some ns"
| "heartbeats E K (tid # tids) ns = do { ns \<leftarrow> heartbeat E K tid ns; heartbeats E K tids ns }"

text \<open>The node's view of the versions of its areas.\<close>

fun update_versions :: "nat \<Rightarrow> nat \<Rightarrow> ('p, 'r, 'n) tasvir \<Rightarrow> ('p, 'r, 'n) tasvir" where
  "update_versions 0 i s = s"
| "update_versions (Suc n) i s =
    (let v = m_ro s (h_version (rd s (d_h (rd s (n_areas_d (node s) i)))));
         s = (if rd s (n_areas_v (node s) i) \<noteq> v then wr (n_areas_v (node s) i) v (tlog (n_areas_v (node s) i) 8 s) else s)
     in update_versions n (Suc i) s)"

definition set_next_seq :: "u64 \<Rightarrow> ('p, 'r, 'n) tasvir \<Rightarrow> ('p, 'r, 'n) tasvir" where
  "set_next_seq q = upd_ndata (\<lambda>n. n\<lparr>tdata :=
     map (\<lambda>t. if t_state t = THREAD_RUNNING then t\<lparr>t_next_sync_seq := q\<rparr> else t) (tdata n)\<rparr>)"

definition tasvir_sched_sync_internal ::
  "('p, 'r, 'n) env \<Rightarrow> ('p, 'r, 'n) calls \<Rightarrow> ('p, 'r, 'n) tasvir \<Rightarrow> ('p, 'r, 'n) tasvir option" where
  "tasvir_sched_sync_internal E K s =
    (if sched_pending s then Some s
     else do {
       (nr_threads, s) \<leftarrow> heartbeats E K [0..<TASVIR_NR_THREADS_LOCAL] (0, s);
       let s = update_versions (unat (rd s (n_nr_areas (node s)))) 0 s;
       let s = upd_ndata (\<lambda>n. n\<lparr>nr_jobs := 0, job_bytes := 0\<rparr>) s;
       (_, s) \<leftarrow> tasvir_area_walk tasvir_sched_sync_internal_area (root_desc s) s;
       if nr_threads = 0 then None
       else do {
         let s = upd_ndata (\<lambda>n. n\<lparr>job_bytes := max (job_bytes n div (of_nat nr_threads * 8) AND NOT (TASVIR_ALIGNMENT - 1))
                   (TASVIR_ALIGNMENT * 4)\<rparr>) s;
         let (t, s) = rdtsc s;
         let q = t + usec2tsc E TASVIR_BARRIER_ENTER_US;
         let s = upd_ndata (\<lambda>n. n\<lparr>barrier_end_tsc := q, barrier_cnt := of_nat nr_threads, barrier_seq := q\<rparr>) s;
         Some (set_next_seq q s) } })"

section \<open>One job\<close>

definition job :: "nat \<Rightarrow> ('p, 'r, 'n) tasvir \<Rightarrow> tasvir_sync_job" where
  "job i s = jobs (ndata s) ! i"

definition upd_job :: "nat \<Rightarrow> (tasvir_sync_job \<Rightarrow> tasvir_sync_job) \<Rightarrow> ('p, 'r, 'n) tasvir \<Rightarrow> ('p, 'r, 'n) tasvir" where
  "upd_job i f = upd_ndata (\<lambda>n. n\<lparr>jobs := (jobs n)[i := f (jobs n ! i)]\<rparr>)"

text \<open>The loop that claims chunks of \<open>job_bytes\<close> bytes with an atomic fetch-and-add and walks them.\<close>

partial_function (option) job_chunks ::
  "('p, 'r, 'n) env \<Rightarrow> nat \<Rightarrow> u64 \<Rightarrow> u64 \<Rightarrow> ('p, 'r, 'n) tasvir \<Rightarrow> (u64 \<times> ('p, 'r, 'n) tasvir) option" where
  "job_chunks E i bytes seen s =
    (if j_done_stage1 (job i s) then Some (seen, s)
     else let offset = j_offset (job i s); s = upd_job i (\<lambda>j. j\<lparr>j_offset := j_offset j + bytes\<rparr>) s;
              d = j_d (job i s); total = rd s (d_offset_log_end d)
          in if offset < total
             then let len = min bytes (total - offset)
                  in Option.bind (tasvir_sync_parse_log E d offset len 0 s) (\<lambda>(_, s). job_chunks E i bytes (seen + len) s)
             else Some (seen, s))"

text \<open>The header update of the thread that sees the last byte.\<close>

definition finish_job :: "nat \<Rightarrow> bool \<Rightarrow> u64 \<Rightarrow> ('p, 'r, 'n) tasvir \<Rightarrow> ('p, 'r, 'n) tasvir" where
  "finish_job i is_local updated s =
    (let hh = rd s (d_h (j_d (job i s)));
         s = (if has_flag (m_rw s (h_flags hh)) FLAG_EXT_ENQUEUE
              then wr_rw (h_flags hh) (m_rw s (h_flags hh) AND NOT FLAG_EXT_ENQUEUE) s else s);
         s = (if updated \<noteq> 0 \<or> j_bytes_updated (job i s) \<noteq> 0 then
                (let s = wr_ro (h_flags hh) (m_rw s (h_flags hh) AND (FLAG_ACTIVE OR FLAG_LOCAL)) s
                 in if is_local then
                      (let t = time_us (ndata s); v = m_rw s (h_version hh);
                           s = wr_rw (h_time_us hh) t (wr_rw (l_end_us (h_diff_log hh 0)) t s);
                           s = wr_ro (h_time_us hh) t (wr_ro (l_end_us (h_diff_log hh 0)) t s);
                           s = wr_ro (h_version hh) v (wr_ro (l_version_end (h_diff_log hh 0)) v
                                 (wr_rw (l_version_end (h_diff_log hh 0)) v s));
                           s = wr_rw (h_version hh) (v + 1) s;
                           l = m_rw s (l_data (h_diff_log hh 0))
                       in wr l (rd s l OR push_bit 62 1) s)
                    else s)
              else upd_job i (\<lambda>j. j\<lparr>j_done_stage3 := True\<rparr>) s)
     in upd_job i (\<lambda>j. j\<lparr>j_done_stage2 := True\<rparr>) s)"

definition is_local_writer :: "('p, 'r, 'n) tasvir \<Rightarrow> addr \<Rightarrow> bool" where
  "is_local_writer s d \<longleftrightarrow> rd s (d_owner d) = thread s \<or> is_daemon s \<and> \<not> tasvir_area_is_local s d"

definition tasvir_sync_internal_job ::
  "('p, 'r, 'n) env \<Rightarrow> nat \<Rightarrow> ('p, 'r, 'n) tasvir \<Rightarrow> (bool \<times> ('p, 'r, 'n) tasvir) option" where
  "tasvir_sync_internal_job E i s =
    (let j = job i s; d = j_d j; is_local = tasvir_area_is_local s d
     in if j_done_stage2 j then Some (True, s)
        else if j_self_sync j \<and> \<not> is_local_writer s d then Some (False, s)
        else if j_done_stage1 j then Some (False, s)
        else do {
          (seen, s) \<leftarrow> job_chunks E i (job_bytes (ndata s)) 0 s;
          if seen = 0 then Some (False, s)
          else do {
            let s = upd_job i (\<lambda>j. j\<lparr>j_done_stage1 := True\<rparr>) s;
            (updated, s) \<leftarrow> tasvir_sync_process_changes E 0 True False s;
            let s = upd_job i (\<lambda>j. j\<lparr>j_bytes_updated := j_bytes_updated j + updated\<rparr>) s;
            let total = seen + j_bytes_seen (job i s);
            let s = upd_job i (\<lambda>j. j\<lparr>j_bytes_seen := j_bytes_seen j + seen\<rparr>) s;
            let s = (if total = rd s (d_offset_log_end d) then finish_job i is_local updated s else s);
            Some (j_done_stage2 (job i s), s) } })"

definition tasvir_sync_internal_job_postprocess ::
  "nat \<Rightarrow> ('p, 'r, 'n) tasvir \<Rightarrow> bool \<times> ('p, 'r, 'n) tasvir" where
  "tasvir_sync_internal_job_postprocess i s =
    (let d = j_d (job i s)
     in if j_done_stage3 (job i s) then (True, s)
        else if \<not> is_daemon s \<and> rd s (d_owner d) \<noteq> thread s then (True, s)
        else if is_local_writer s d then (True, upd_job i (\<lambda>j. j\<lparr>j_done_stage3 := True\<rparr>) s)
        else (False, s))"

section \<open>The barrier\<close>

text \<open>
  \<open>while ((diff = barrier_seq - seq) == 0) ...\<close>: \<open>diff\<close> is an \<open>int\<close>. A successful timeout returns false.
\<close>

partial_function (option) barrier_loop ::
  "('p, 'r, 'n) env \<Rightarrow> u64 \<Rightarrow> ('p, 'r, 'n) tasvir \<Rightarrow> (bool \<times> ('p, 'r, 'n) tasvir) option" where
  "barrier_loop E seq s =
    (let diff = sint (ucast (barrier_seq (ndata s) - seq) :: u32)
     in if diff = 0 then
          (let s = others E s; (t, s) = rdtsc s
           in if t > barrier_end_tsc (ndata s) \<and> barrier_seq (ndata s) = seq
              then Some (False, upd_ndata (\<lambda>n. n\<lparr>barrier_seq := seq + 2\<rparr>) s)
              else barrier_loop E seq s)
        else Some (diff = 1, s))"

definition tasvir_barrier_wait ::
  "('p, 'r, 'n) env \<Rightarrow> ('p, 'r, 'n) tasvir \<Rightarrow> (bool \<times> ('p, 'r, 'n) tasvir) option" where
  "tasvir_barrier_wait E s =
    (let seq = t_next_sync_seq (my_tdata s)
     in if seq \<noteq> barrier_seq (ndata s) then Some (False, s)
        else (let c = barrier_cnt (ndata s); s = upd_ndata (\<lambda>n. n\<lparr>barrier_cnt := barrier_cnt n - 1\<rparr>) s
              in if c = 1
                 then (let s = others E s
                       in if barrier_seq (ndata s) = seq then Some (True, upd_ndata (\<lambda>n. n\<lparr>barrier_seq := seq + 1\<rparr>) s)
                          else Some (False, s))
                 else barrier_loop E seq s))"

section \<open>A round\<close>

fun job_pass ::
  "('p, 'r, 'n) env \<Rightarrow> nat \<Rightarrow> bool list \<Rightarrow> ('p, 'r, 'n) tasvir \<Rightarrow> (bool list \<times> ('p, 'r, 'n) tasvir) option" where
  "job_pass E i [] s = Some ([], s)"
| "job_pass E i (b # bs) s =
    do { (b, s) \<leftarrow> (if b then Some (True, s)
                    else do { (b1, s) \<leftarrow> tasvir_sync_internal_job E i s;
                              Some (if b1 then tasvir_sync_internal_job_postprocess i s else (False, s)) });
         (bs, s) \<leftarrow> job_pass E (Suc i) bs s;
         Some (b # bs, s) }"

partial_function (option) job_loop ::
  "('p, 'r, 'n) env \<Rightarrow> bool list \<Rightarrow> ('p, 'r, 'n) tasvir \<Rightarrow> ('p, 'r, 'n) tasvir option" where
  "job_loop E done s =
    Option.bind (job_pass E 0 done s) (\<lambda>(done, s). if list_all id done then Some s else job_loop E done (others E s))"

partial_function (option) wait_thread ::
  "('p, 'r, 'n) env \<Rightarrow> u64 \<Rightarrow> nat \<Rightarrow> ('p, 'r, 'n) tasvir \<Rightarrow> (bool \<times> ('p, 'r, 'n) tasvir) option" where
  "wait_thread E end_tsc tid s =
    (if t_next_sync_seq (tdata (ndata s) ! tid) = t_prev_sync_seq (tdata (ndata s) ! tid) then Some (False, s)
     else let (t, s) = rdtsc s in if t > end_tsc then Some (True, s) else wait_thread E end_tsc tid (others E s))"

fun wait_threads ::
  "('p, 'r, 'n) env \<Rightarrow> ('p, 'r, 'n) calls \<Rightarrow> u64 \<Rightarrow> nat list \<Rightarrow> ('p, 'r, 'n) tasvir \<Rightarrow> ('p, 'r, 'n) tasvir option" where
  "wait_threads E K end_tsc [] s = Some s"
| "wait_threads E K end_tsc (tid # tids) s =
    do { s \<leftarrow> (if t_state (tdata (ndata s) ! tid) = THREAD_RUNNING
               then do { (failed, s) \<leftarrow> wait_thread E end_tsc tid s;
                         if failed then tasvir_kill_thread E K (n_thread (node s) tid) s else Some s }
               else Some s);
         wait_threads E K end_tsc tids s }"

definition round_stats :: "u64 \<Rightarrow> ('p, 'r, 'n) tasvir \<Rightarrow> ('p, 'r, 'n) tasvir" where
  "round_stats start s =
    (let t = t_time (my_tdata s); js = take (nr_jobs (ndata s)) (jobs (ndata s));
         s = upd_ndata (\<lambda>n. n\<lparr>time_us := t, last_sync_int_end := t\<rparr>) s
     in upd_stats (\<lambda>st. st\<lparr>isync_success := isync_success st + 1, isync_us := isync_us st + (t - start),
          isync_changed_bytes := isync_changed_bytes st + sum_list (map j_bytes_updated js),
          isync_processed_bytes := isync_processed_bytes st + sum_list (map j_bytes_seen js)\<rparr>) s)"

definition tasvir_sync_internal ::
  "('p, 'r, 'n) env \<Rightarrow> ('p, 'r, 'n) calls \<Rightarrow> ('p, 'r, 'n) tasvir \<Rightarrow> (int \<times> ('p, 'r, 'n) tasvir) option" where
  "tasvir_sync_internal E K s =
    do { let s = (if is_daemon s then (let (t, s) = tasvir_time_us E s in upd_ndata (\<lambda>n. n\<lparr>last_sync_int_start := t\<rparr>) s)
                  else s);
         (ok, s) \<leftarrow> tasvir_barrier_wait E s;
         if \<not> ok then do {
           let s = (if is_daemon s then
                      (let (t, s) = tasvir_time_us E s; d = t - last_sync_int_start (ndata s);
                           s = upd_ndata (\<lambda>n. n\<lparr>last_sync_int_end := t\<rparr>) s
                       in upd_stats (\<lambda>st. st\<lparr>isync_failure := isync_failure st + 1,
                            isync_barrier_us := isync_barrier_us st + d, isync_us := isync_us st + d\<rparr>) s)
                    else s);
           Some (- 1, upd_tdata (tdata_idx s) (\<lambda>t. t\<lparr>t_prev_sync_seq := t_next_sync_seq t\<rparr>) s) }
         else do {
           let (start, s) = (if is_daemon s then
                      (let (t, s) = tasvir_time_us E s; d = t - last_sync_int_start (ndata s);
                           s = upd_stats (\<lambda>st. st\<lparr>isync_barrier_us := isync_barrier_us st + d\<rparr>) s
                       in (t, upd_ndata (\<lambda>n. n\<lparr>sync_req := False\<rparr>) s))
                    else (0, s));
           s \<leftarrow> job_loop E (replicate (nr_jobs (ndata s)) False) s;
           let (t, s) = tasvir_time_us E s;
           let s = upd_tdata (tdata_idx s) (\<lambda>td. td\<lparr>t_time := t, t_prev_sync_seq := t_next_sync_seq td\<rparr>) s;
           s \<leftarrow> (if is_daemon s then do {
                  let s = round_stats start s;
                  let (t, s) = rdtsc s;
                  wait_threads E K (t + usec2tsc E (heartbeat_us s)) [0..<TASVIR_NR_THREADS_LOCAL] s }
                else Some s);
           Some (0, s) } }"

end
