(* ===== verification/Tasvir_Job.thy ===== *)
theory Tasvir_Job
  imports Tasvir_Isync Tasvir_Sync_Internal
begin

text \<open>
  One job of an internal synchronisation, proved: a thread that takes all the chunks of an area
  (\<open>job_chunks\<close>, \<open>tasvir_sync_internal_job\<close> of \<open>src/sync_internal.c\<close>) walks them one after the other,
  copies what is left on its list and finishes the job, and the readers' copy of every dirty line of the
  area is then the writer's. The number of chunks is not bounded: the loop is followed by induction on the bytes left.
\<close>

section \<open>What a job relies on\<close>

text \<open>
  A word that the job reads and does not change: it is no word of the private log, and it is read through
  the writer copy, or is the same in both copies, or its line is not dirty, or lies outside the area. The
  first line of a header is never logged, and its flags differ between the copies.
\<close>

definition kept :: "('p, 'r, 'n) tasvir \<Rightarrow> addr \<Rightarrow> nat \<Rightarrow> addr \<Rightarrow> bool" where
  "kept s d tot a \<longleftrightarrow> data_word a \<and> a \<notin> log_words (private_log s d) 0 (tot div 4096) \<and>
     (va_rw s a \<or> m_ro s a = m_rw s a \<or> \<not> log_dirty (m_log s) (line_of a) \<or>
      \<not> (range_first s d 0 \<le> line_of a \<and> line_of a < range_first s d 0 + tot div 64))"

definition area_ready :: "('p, 'r, 'n) tasvir \<Rightarrow> addr \<Rightarrow> nat \<Rightarrow> bool" where
  "area_ready s d tot \<longleftrightarrow>
     (let h = rd s (d_h d) in
      2 ^ 40 \<le> unat h \<and> unat h + tot \<le> 2 ^ 41 \<and> 4096 dvd unat h \<and> 32768 dvd tot \<and>
      tdata_idx s < length (tdata (ndata s)) \<and>
      (\<forall>a\<in>{d_h d, d_offset_log_end d, h_flags h, l_data (h_diff_log h 0)}. kept s d tot a) \<and>
      (\<forall>a\<in>log_words (private_log s d) 0 (tot div 4096). data_word a \<and>
         \<not> (range_first s d 0 \<le> line_of a \<and> line_of a < range_first s d 0 + tot div 64)))"

text \<open>The state after the first \<open>n\<close> bytes of the area have been walked.\<close>

definition walked :: "('p, 'r, 'n) tasvir \<Rightarrow> addr \<Rightarrow> nat \<Rightarrow> nat \<Rightarrow> ('p, 'r, 'n) tasvir \<Rightarrow> bool" where
  "walked s d tot n s' \<longleftrightarrow>
     (let lo = range_first s d 0; D = dirty_lines (m_log s) lo (n div 64);
          P = lines_of (pending (t_sync_list (my_tdata s'))) in
      va_rw s' = va_rw s \<and> tdata_idx s' = tdata_idx s \<and> length (tdata (ndata s')) = length (tdata (ndata s)) \<and>
      sync_list_ok (t_sync_list (my_tdata s')) \<and> P \<subseteq> {lo..<lo + n div 64} \<and>
      (\<forall>a. data_word a \<and> a \<notin> log_words (private_log s d) 0 (tot div 4096) \<longrightarrow>
         m_rw s' a = m_rw s a \<and> m_ro s' a \<in> {m_ro s a, m_rw s a} \<and>
         (if line_of a \<in> P then m_rw s a else m_ro s' a) = (if line_of a \<in> D then m_rw s a else m_ro s a)) \<and>
      (\<forall>l < 2 ^ 34. log_dirty (m_log s') l \<longleftrightarrow> log_dirty (m_log s) l \<and> \<not> (lo \<le> l \<and> l < lo + n div 64)))"

lemma walkedD:
  assumes "walked s d tot n s'"
  shows "va_rw s' = va_rw s" "tdata_idx s' = tdata_idx s" "length (tdata (ndata s')) = length (tdata (ndata s))"
    "sync_list_ok (t_sync_list (my_tdata s'))"
    "lines_of (pending (t_sync_list (my_tdata s'))) \<subseteq> {range_first s d 0..<range_first s d 0 + n div 64}"
    "data_word a \<Longrightarrow> a \<notin> log_words (private_log s d) 0 (tot div 4096) \<Longrightarrow>
       m_rw s' a = m_rw s a \<and> m_ro s' a \<in> {m_ro s a, m_rw s a} \<and>
       (if line_of a \<in> lines_of (pending (t_sync_list (my_tdata s'))) then m_rw s a else m_ro s' a) =
       (if line_of a \<in> dirty_lines (m_log s) (range_first s d 0) (n div 64) then m_rw s a else m_ro s a)"
    "l < 2 ^ 34 \<Longrightarrow> log_dirty (m_log s') l \<longleftrightarrow>
       log_dirty (m_log s) l \<and> \<not> (range_first s d 0 \<le> l \<and> l < range_first s d 0 + n div 64)"
  using assms by (simp_all add: walked_def Let_def)

lemma walked_start:
  assumes "sync_list_ok (t_sync_list (my_tdata s))" "pending (t_sync_list (my_tdata s)) = []"
  shows "walked s d tot 0 s"
  using assms by (auto simp: walked_def Let_def dirty_lines_def lines_of_def)

text \<open>Only the memory, the log and the thread's list matter.\<close>

lemma upd_job_simps [simp]:
  "m_ro (upd_job i f s) = m_ro s" "m_rw (upd_job i f s) = m_rw s" "m_log (upd_job i f s) = m_log s"
  "va_rw (upd_job i f s) = va_rw s" "tdata_idx (upd_job i f s) = tdata_idx s"
  "tdata (ndata (upd_job i f s)) = tdata (ndata s)" "my_tdata (upd_job i f s) = my_tdata s"
  "rd (upd_job i f s) = rd s" "length (jobs (ndata (upd_job i f s))) = length (jobs (ndata s))"
  "thread (upd_job i f s) = thread s" "is_daemon (upd_job i f s) = is_daemon s"
  by (simp_all add: upd_job_def upd_ndata_def my_tdata_def rd_def fun_eq_iff)

lemma job_upd_job [simp]: "i < length (jobs (ndata s)) \<Longrightarrow> job i (upd_job i f s) = f (job i s)"
  by (simp add: job_def upd_job_def upd_ndata_def)

lemma walked_upd_job [simp]: "walked s d tot n (upd_job i f s') \<longleftrightarrow> walked s d tot n s'"
  by (simp add: walked_def Let_def)

lemma kept_rd:
  assumes "walked s d tot n s'" "n \<le> tot" "kept s d tot a"
  shows "rd s' a = rd s a"
proof -
  have a: "data_word a" "a \<notin> log_words (private_log s d) 0 (tot div 4096)" using assms(3) by (simp_all add: kept_def)
  note m = walkedD(6) [OF assms(1) a] and P = walkedD(5) [OF assms(1)]
  have "n div 64 \<le> tot div 64" using assms(2) by (rule div_le_mono)
  then have "m_ro s' a = m_ro s a" if "\<not> log_dirty (m_log s) (line_of a) \<or>
      \<not> (range_first s d 0 \<le> line_of a \<and> line_of a < range_first s d 0 + tot div 64)"
    using that m P by (auto simp: dirty_lines_def split: if_splits)
  then show ?thesis using m assms(3) walkedD(1) [OF assms(1)] by (auto simp: rd_def kept_def)
qed

lemma walked_fields:
  assumes "walked s d tot n s'" "n \<le> tot" "area_ready s d tot"
  shows "rd s' (d_h d) = rd s (d_h d)" "rd s' (d_offset_log_end d) = rd s (d_offset_log_end d)" "private_log s' d = private_log s d"
    "range_first s' d = range_first s d"
proof -
  have k: "kept s d tot a" if "a \<in> {d_h d, d_offset_log_end d, h_flags (rd s (d_h d)), l_data (h_diff_log (rd s (d_h d)) 0)}" for a
    using assms(3) that unfolding area_ready_def Let_def by blast
  note r = kept_rd [OF assms(1,2) k]
  show h: "rd s' (d_h d) = rd s (d_h d)" "rd s' (d_offset_log_end d) = rd s (d_offset_log_end d)" by (rule r, simp)+
  have "rd s' (h_flags (rd s (d_h d))) = rd s (h_flags (rd s (d_h d)))"
    "rd s' (l_data (h_diff_log (rd s (d_h d)) 0)) = rd s (l_data (h_diff_log (rd s (d_h d)) 0))" by (rule r, simp)+
  then show "private_log s' d = private_log s d" unfolding private_log_def tasvir_area_is_local_def h by simp
  show "range_first s' d = range_first s d" by (simp add: range_first_def fun_eq_iff h)
qed

section \<open>Walking one chunk\<close>

lemma log_words_part: "i + n \<le> m \<Longrightarrow> log_words L i n \<subseteq> log_words L 0 m"
  by (auto simp: log_words_def unit_addrs_def)

lemma area_first:
  assumes "area_ready s d tot"
  shows "range_first s d 0 + tot div 64 \<le> 2 ^ 34" "4096 dvd unat offset \<Longrightarrow> range_first s d offset = range_first s d 0 + unat offset div 64"
proof -
  obtain k where k: "unat (rd s (d_h d)) = 4096 * k" using assms by (auto simp: area_ready_def Let_def elim: dvdE)
  have b: "2 ^ 40 \<le> 4096 * k" "4096 * k + tot \<le> 2 ^ 41" using assms k by (simp_all add: area_ready_def Let_def)
  then have f: "(4096 * k - 2 ^ 40) div 64 = 64 * k - 2 ^ 34" by simp
  then show "range_first s d 0 + tot div 64 \<le> 2 ^ 34" using b by (simp add: range_first_def k)
  show "range_first s d offset = range_first s d 0 + unat offset div 64" if "4096 dvd unat offset"
  proof -
    obtain j where "unat offset = 4096 * j" using \<open>4096 dvd unat offset\<close> by (auto elim: dvdE)
    then show ?thesis using b f by (simp add: range_first_def k)
  qed
qed

lemma chunk_ready:
  assumes w: "walked s d tot n s'" and ar: "area_ready s d tot" and n: "unat offset = n" "4096 dvd n" "n + unat len \<le> tot"
    and len: "32768 dvd unat len" "0 < unat len" "unat len < 2 ^ 32"
  shows "parse_ready s' d offset len"
proof -
  have "n \<le> tot" using n by simp
  note f = walked_fields [OF w this ar] and af = area_first [OF ar]
  let ?h = "rd s (d_h d)" and ?W = "log_words (private_log s d) (n div 4096) (unat len div 4096)"
  have h: "2 ^ 40 \<le> unat ?h" "unat ?h + tot \<le> 2 ^ 41" "4096 dvd unat ?h" "tdata_idx s < length (tdata (ndata s))"
    using ar by (simp_all add: area_ready_def Let_def)
  have "n div 4096 + unat len div 4096 \<le> tot div 4096"
  proof -
    have "(n + unat len) div 4096 \<le> tot div 4096" using n(3) by (rule div_le_mono)
    moreover have "(n + unat len) div 4096 = n div 4096 + unat len div 4096" using n(2) by (rule div_plus_div_distrib_dvd_left)
    ultimately show ?thesis by simp
  qed
  then have sub: "?W \<subseteq> log_words (private_log s d) 0 (tot div 4096)" by (rule log_words_part)
  have in_area: "n div 64 + unat len div 64 \<le> tot div 64"
  proof -
    have "64 dvd n" using n(2) by (rule dvd_trans [rotated]) simp
    then have "(n + unat len) div 64 = n div 64 + unat len div 64" by (rule div_plus_div_distrib_dvd_left)
    then show ?thesis using div_le_mono [OF n(3), of 64] by simp
  qed
  have out: "data_word a \<and> line_of a \<notin> lines_of (pending (t_sync_list (my_tdata s'))) \<and>
      \<not> (range_first s d offset \<le> line_of a \<and> line_of a < range_first s d offset + unat len div 64)" if "a \<in> ?W" for a
  proof -
    have "data_word a \<and> \<not> (range_first s d 0 \<le> line_of a \<and> line_of a < range_first s d 0 + tot div 64)"
      using ar that sub unfolding area_ready_def Let_def by blast
    then show ?thesis using walkedD(5) [OF w] af(2) [of offset] n(1,2) in_area by auto
  qed
  show ?thesis
    unfolding parse_ready_def Let_def f walkedD(2,3) [OF w] n(1)
    using h n(1,2,3) len walkedD(4) [OF w] out by simp
qed

lemma chunk_walked:
  assumes w: "walked s d tot n s'" and ar: "area_ready s d tot" and n: "unat offset = n" "4096 dvd n" "n + unat len \<le> tot"
    and len: "32768 dvd unat len" and res: "parse_result d offset len s' r t"
  shows "walked s d tot (n + unat len) t"
proof -
  have "n \<le> tot" using n by simp
  note f = walked_fields [OF w this ar] and af = area_first [OF ar]
  let ?lo = "range_first s d 0" and ?L = "private_log s d" and ?P = "lines_of (pending (t_sync_list (my_tdata s')))"
  let ?Q = "lines_of (pending (t_sync_list (my_tdata t)))" and ?m = "unat len div 64"
  have d64: "64 dvd n" using n(2) by (rule dvd_trans [rotated]) simp
  then have ext: "(n + unat len) div 64 = n div 64 + ?m" by (rule div_plus_div_distrib_dvd_left)
  have first: "range_first s' d offset = ?lo + n div 64" using af(2) [of offset] n(1,2) f(4) by simp
  have top: "?lo + n div 64 + ?m \<le> 2 ^ 34" using af(1) div_le_mono [OF n(3), of 64] ext by simp
  have sub: "log_words ?L (n div 4096) (unat len div 4096) \<subseteq> log_words ?L 0 (tot div 4096)"
  proof (rule log_words_part)
    have "(n + unat len) div 4096 = n div 4096 + unat len div 4096" using n(2) by (rule div_plus_div_distrib_dvd_left)
    then show "n div 4096 + unat len div 4096 \<le> tot div 4096" using div_le_mono [OF n(3), of 4096] by simp
  qed
  have R: "same_world s' t" "sync_list_ok (t_sync_list (my_tdata t))" "?Q \<subseteq> ?P \<union> {?lo + n div 64..<?lo + n div 64 + ?m}"
    "\<And>l. l < 2 ^ 34 \<Longrightarrow> log_dirty (m_log t) l \<longleftrightarrow> log_dirty (m_log s') l \<and> \<not> (?lo + n div 64 \<le> l \<and> l < ?lo + n div 64 + ?m)"
    and mem: "\<And>a. data_word a \<Longrightarrow> a \<notin> log_words ?L (n div 4096) (unat len div 4096) \<Longrightarrow>
      m_rw t a = m_rw s' a \<and> m_ro t a \<in> {m_ro s' a, m_rw s' a} \<and> (if line_of a \<in> ?Q then m_rw s' a else m_ro t a) =
      (if line_of a \<in> ?P \<union> dirty_lines (m_log s') (?lo + n div 64) ?m then m_rw s' a else m_ro s' a)"
    using res unfolding parse_result_def Let_def first f(3) n(1) by simp_all
  have D: "dirty_lines (m_log s') (?lo + n div 64) ?m = dirty_lines (m_log s) (?lo + n div 64) ?m"
    using walkedD(7) [OF w] top unfolding dirty_lines_def by auto
  have D2: "dirty_lines (m_log s) ?lo ((n + unat len) div 64) =
      dirty_lines (m_log s) ?lo (n div 64) \<union> dirty_lines (m_log s) (?lo + n div 64) ?m"
    unfolding dirty_lines_def ext by auto
  have words: "m_rw t a = m_rw s a \<and> m_ro t a \<in> {m_ro s a, m_rw s a} \<and> (if line_of a \<in> ?Q then m_rw s a else m_ro t a) =
      (if line_of a \<in> dirty_lines (m_log s) ?lo ((n + unat len) div 64) then m_rw s a else m_ro s a)"
    if a: "data_word a" "a \<notin> log_words ?L 0 (tot div 4096)" for a
  proof -
    have "a \<notin> log_words ?L (n div 4096) (unat len div 4096)" using a(2) sub by blast
    from mem [OF a(1) this, unfolded D] walkedD(6) [OF w a] show ?thesis unfolding D2 by (auto split: if_splits)
  qed
  have bits: "log_dirty (m_log t) l \<longleftrightarrow> log_dirty (m_log s) l \<and> \<not> (?lo \<le> l \<and> l < ?lo + (n + unat len) div 64)" if "l < 2 ^ 34" for l
    using R(4) [OF that] walkedD(7) [OF w that] unfolding ext by auto
  have "{?lo..<?lo + n div 64} \<union> {?lo + n div 64..<?lo + n div 64 + ?m} = {?lo..<?lo + (n + unat len) div 64}" unfolding ext by auto
  then have pend: "?Q \<subseteq> {?lo..<?lo + (n + unat len) div 64}" using R(3) walkedD(5) [OF w] by blast
  show ?thesis
    unfolding walked_def Let_def using R(1,2) walkedD(1-3) [OF w] pend words bits by (simp add: same_world_def)
qed

section \<open>The loop over the chunks\<close>

lemma same_world_job: "same_world s t \<Longrightarrow> job i t = job i s" "same_world s t \<Longrightarrow> length (jobs (ndata t)) = length (jobs (ndata s))"
  by (simp_all add: same_world_def job_def)

lemma job_chunks_walk:
  assumes ar: "area_ready s d tot" and tot: "rd s (d_offset_log_end d) = of_nat tot"
    and b: "32768 dvd unat bytes" "0 < unat bytes" "unat bytes < 2 ^ 32"
  shows "walked s d tot (min c tot) t \<Longrightarrow> i < length (jobs (ndata t)) \<Longrightarrow> j_d (job i t) = d \<Longrightarrow> \<not> j_done_stage1 (job i t) \<Longrightarrow>
    unat (j_offset (job i t)) = c \<Longrightarrow> 32768 dvd c \<Longrightarrow> c \<le> tot + 2 ^ 32 \<Longrightarrow>
    \<exists>t' x. job_chunks E i bytes seen t = Some (seen + of_nat (tot - min c tot), t') \<and> walked s d tot tot t' \<and>
      length (jobs (ndata t')) = length (jobs (ndata t)) \<and> job i t' = (job i t)\<lparr>j_offset := x\<rparr> \<and> thread t' = thread t \<and>
      is_daemon t' = is_daemon t"
proof (induction "tot - c" arbitrary: c t seen rule: less_induct)
  case less
  have lim: "tot \<le> 2 ^ 40" "32768 dvd tot" using ar by (simp_all add: area_ready_def Let_def)
  then have ut: "unat (of_nat tot :: u64) = tot" by (simp add: unat_of_nat)
  let ?t = "upd_job i (\<lambda>j. j\<lparr>j_offset := j_offset j + bytes\<rparr>) t"
  note f = walked_fields [OF less.prems(1) _ ar]
  show ?case
  proof (cases "c < tot")
    case False
    then have "\<not> j_offset (job i t) < of_nat tot" using less.prems(5) ut by (simp add: word_less_nat_alt)
    moreover have m: "min c tot = tot" using False by simp
    ultimately have "job_chunks E i bytes seen t = Some (seen + of_nat (tot - min c tot), ?t)"
      using less.prems(2-4) f(2) tot by (subst job_chunks.simps) (simp add: Let_def)
    then show ?thesis using less.prems(1,2) m by (intro exI [of _ ?t] exI [of _ "j_offset (job i t) + bytes"]) simp
  next
    case True
    define len where "len = min bytes (of_nat tot - j_offset (job i t))"
    have rest: "unat (of_nat tot - j_offset (job i t)) = tot - c"
      using True less.prems(5) ut by (simp add: unat_sub word_le_nat_alt)
    then have ul: "unat len = min (unat bytes) (tot - c)" by (simp add: len_def min_def word_le_nat_alt)
    have w: "walked s d tot c ?t" using less.prems(1) True by simp
    have l: "32768 dvd unat len" "0 < unat len" "unat len < 2 ^ 32" "c + unat len \<le> tot"
      using ul b True lim(2) less.prems(6) by (auto simp: min_def dvd_diff_nat)
    have c4: "4096 dvd c" using less.prems(6) by (rule dvd_trans [rotated]) simp
    note off = less.prems(5)
    obtain r t1 where t1: "tasvir_sync_parse_log E d (j_offset (job i t)) len 0 ?t = Some (r, t1)"
        "parse_result d (j_offset (job i t)) len ?t r t1"
      using parse_log_internal [OF chunk_ready [OF w ar off c4 l(4) l(1-3)], of 0 E] by auto
    have sw: "same_world ?t t1" using t1(2) by (simp add: parse_result_def Let_def)
    have w1: "walked s d tot (c + unat len) t1" by (rule chunk_walked [OF w ar off c4 l(4) l(1) t1(2)])
    have j1: "job i t1 = (job i t)\<lparr>j_offset := j_offset (job i t) + bytes\<rparr>" "length (jobs (ndata t1)) = length (jobs (ndata t))"
      using same_world_job [OF sw] less.prems(2) by simp_all
    have "c + unat bytes < 2 ^ 64" using True lim(1) b(3) by simp
    then have o1: "unat (j_offset (job i t1)) = c + unat bytes" using off by (simp add: j1 unat_add_lem [THEN iffD1])
    have m1: "min (c + unat bytes) tot = c + unat len" using True by (simp add: ul)
    have "\<exists>t' x. job_chunks E i bytes (seen + len) t1 = Some (seen + len + of_nat (tot - min (c + unat bytes) tot), t') \<and>
        walked s d tot tot t' \<and> length (jobs (ndata t')) = length (jobs (ndata t1)) \<and> job i t' = (job i t1)\<lparr>j_offset := x\<rparr> \<and>
        thread t' = thread t1 \<and> is_daemon t' = is_daemon t1"
      by (rule less.hyps) (use True b w1 m1 j1 o1 less.prems in \<open>auto simp: min_def\<close>)
    moreover have "seen + len + of_nat (tot - min (c + unat bytes) tot) = seen + of_nat (tot - min c tot)"
    proof -
      have "tot - min c tot = unat len + (tot - (c + unat len))" using l(4) True by simp
      then show ?thesis unfolding m1 by (simp add: add.assoc)
    qed
    moreover have "job_chunks E i bytes seen t = job_chunks E i bytes (seen + len) t1"
      using less.prems(2,3,4) True f tot t1(1) off ut
      by (subst job_chunks.simps) (simp add: Let_def len_def [symmetric] word_less_nat_alt)
    moreover have "thread t1 = thread t" "is_daemon t1 = is_daemon t" using sw by (simp_all add: same_world_def)
    ultimately show ?thesis by (auto simp: j1)
  qed
qed

section \<open>Finishing the job\<close>

lemma walked_process:
  assumes w: "walked s d tot n t" and idx: "tdata_idx s < length (tdata (ndata s))"
  shows "\<exists>b u. tasvir_sync_process_changes E e True False t = Some (b, u) \<and> walked s d tot n u \<and> same_world t u \<and>
    pending (t_sync_list (my_tdata u)) = []"
proof -
  let ?P = "lines_of (pending (t_sync_list (my_tdata t)))"
  have ok: "list_all item_ok (pending (t_sync_list (my_tdata t)))" using walkedD(4) [OF w] by (simp add: sync_list_ok_def)
  obtain b u k where u: "tasvir_sync_process_changes E e True False t = Some (b, u)" "same_world t u"
    "m_rw u = m_rw t" "m_log u = m_log t" "\<And>a. data_word a \<Longrightarrow> m_ro u a = (if line_of a \<in> ?P then m_rw t a else m_ro t a)"
    "t_sync_list (my_tdata u) = (t_sync_list (my_tdata t))\<lparr>cnt := 0, changed := k\<rparr>"
    using process_changes_internal [OF ok, of E e True] idx walkedD(2,3) [OF w] by auto
  have p: "pending (t_sync_list (my_tdata u)) = []" by (simp add: u(6) pending_def)
  have ok': "sync_list_ok (t_sync_list (my_tdata u))" using walkedD(4) [OF w] p by (simp add: sync_list_ok_def u(6) list_wf_def)
  have words: "m_rw u a = m_rw s a \<and> m_ro u a \<in> {m_ro s a, m_rw s a} \<and>
      m_ro u a = (if line_of a \<in> dirty_lines (m_log s) (range_first s d 0) (n div 64) then m_rw s a else m_ro s a)"
    if "data_word a" "a \<notin> log_words (private_log s d) 0 (tot div 4096)" for a
    using walkedD(6) [OF w that] u(3) u(5) [OF that(1)] by (auto split: if_splits)
  have "walked s d tot n u"
    unfolding walked_def Let_def
    using u(2,4) walkedD(1-3,7) [OF w] ok' words p by (simp add: same_world_def lines_of_def)
  then show ?thesis using u(1,2) p by blast
qed

text \<open>The words that \<open>tasvir_sync_internal_job\<close> itself writes when it finishes a job.\<close>

definition finish_words :: "('p, 'r, 'n) tasvir \<Rightarrow> addr \<Rightarrow> addr set" where
  "finish_words s h = {h_flags h, h_time_us h, l_end_us (h_diff_log h 0), h_version h, l_version_end (h_diff_log h 0),
     m_rw s (l_data (h_diff_log h 0))}"

lemma finish_job_frame:
  assumes "a \<notin> finish_words s (rd s (d_h (j_d (job i s))))"
  shows "m_rw (finish_job i loc u s) a = m_rw s a" "m_ro (finish_job i loc u s) a = m_ro s a"
    "m_log (finish_job i loc u s) = m_log s"
  using assms by (auto simp: finish_job_def finish_words_def Let_def wr_def wr_ro_def wr_rw_def)

lemma finish_job_done: "i < length (jobs (ndata s)) \<Longrightarrow> j_done_stage2 (job i (finish_job i loc u s))"
  by (auto simp: finish_job_def Let_def job_def upd_job_def upd_ndata_def wr_def wr_ro_def wr_rw_def)

section \<open>A whole job\<close>

definition job_ready :: "nat \<Rightarrow> ('p, 'r, 'n) tasvir \<Rightarrow> bool" where
  "job_ready i s \<longleftrightarrow>
     (let j = job i s; d = j_d j; tot = unat (rd s (d_offset_log_end d)); b = unat (job_bytes (ndata s)) in
      i < length (jobs (ndata s)) \<and> j_offset j = 0 \<and> j_bytes_seen j = 0 \<and> \<not> j_done_stage1 j \<and> \<not> j_done_stage2 j \<and>
      (j_self_sync j \<longrightarrow> is_local_writer s d) \<and> area_ready s d tot \<and> 0 < tot \<and> 32768 dvd b \<and> 0 < b \<and> b < 2 ^ 32 \<and>
      sync_list_ok (t_sync_list (my_tdata s)) \<and> pending (t_sync_list (my_tdata s)) = [])"

lemma job_runs:
  assumes rdy: "job_ready i s" and d: "d = j_d (job i s)" "tot = unat (rd s (d_offset_log_end d))"
  obtains n v where "tasvir_sync_internal_job E i s = Some (True, finish_job i (tasvir_area_is_local s d) n v)"
    "walked s d tot tot v" "pending (t_sync_list (my_tdata v)) = []" "j_d (job i v) = d"
proof -
  have j: "i < length (jobs (ndata s))" "j_offset (job i s) = 0" "j_bytes_seen (job i s) = 0" "\<not> j_done_stage1 (job i s)"
    "\<not> j_done_stage2 (job i s)" "j_self_sync (job i s) \<longrightarrow> is_local_writer s d"
    and ar: "area_ready s d tot" "0 < tot"
    and b: "32768 dvd unat (job_bytes (ndata s))" "0 < unat (job_bytes (ndata s))" "unat (job_bytes (ndata s)) < 2 ^ 32"
    and l: "sync_list_ok (t_sync_list (my_tdata s))" "pending (t_sync_list (my_tdata s)) = []"
    using rdy unfolding job_ready_def Let_def d by simp_all
  have tot: "rd s (d_offset_log_end d) = of_nat tot" by (simp add: d(2))
  have idx: "tdata_idx s < length (tdata (ndata s))" using ar(1) by (simp add: area_ready_def Let_def)
  have "\<exists>t x. job_chunks E i (job_bytes (ndata s)) 0 s = Some (0 + of_nat (tot - min 0 tot), t) \<and> walked s d tot tot t \<and>
      length (jobs (ndata t)) = length (jobs (ndata s)) \<and> job i t = (job i s)\<lparr>j_offset := x\<rparr> \<and> thread t = thread s \<and>
      is_daemon t = is_daemon s"
    using walked_start [OF l, of d tot] j d(1) by (intro job_chunks_walk [OF ar(1) tot b]) simp_all
  then obtain t x where t: "job_chunks E i (job_bytes (ndata s)) 0 s = Some (of_nat tot, t)" "walked s d tot tot t"
      "length (jobs (ndata t)) = length (jobs (ndata s))" "job i t = (job i s)\<lparr>j_offset := x\<rparr>"
    by auto
  let ?t = "upd_job i (\<lambda>j. j\<lparr>j_done_stage1 := True\<rparr>) t"
  have wt: "walked s d tot tot ?t" using t(2) by simp
  obtain n u where u: "tasvir_sync_process_changes E 0 True False ?t = Some (n, u)" "walked s d tot tot u" "same_world ?t u"
      "pending (t_sync_list (my_tdata u)) = []"
    using walked_process [OF wt idx, of E 0] by blast
  let ?v = "upd_job i (\<lambda>j. j\<lparr>j_bytes_seen := j_bytes_seen j + of_nat tot\<rparr>) (upd_job i (\<lambda>j. j\<lparr>j_bytes_updated := j_bytes_updated j + n\<rparr>) u)"
  have ju: "length (jobs (ndata u)) = length (jobs (ndata s))" "j_bytes_seen (job i u) = 0" "j_d (job i u) = d"
    using same_world_job(1) [OF u(3), of i] same_world_job(2) [OF u(3)] t(3,4) j(1,3) d(1) by simp_all
  have nz: "(of_nat tot :: u64) \<noteq> 0" using ar(2) tot d(2) by (metis less_irrefl unat_0)
  have "tasvir_sync_internal_job E i s = Some (True, finish_job i (tasvir_area_is_local s d) n ?v)"
    using j d(1) t(1) u(1) nz walked_fields(2) [OF u(2) order_refl ar(1)] tot ju finish_job_done [of i ?v]
    by (simp add: tasvir_sync_internal_job_def Let_def)
  then show ?thesis using that [of n ?v] u(2,4) ju j(1) by simp
qed

lemma job_publishes:
  assumes rdy: "job_ready i s" and d: "d = j_d (job i s)" "tot = unat (rd s (d_offset_log_end d))"
  shows "\<exists>s'. tasvir_sync_internal_job E i s = Some (True, s') \<and>
    (\<forall>a. data_word a \<longrightarrow> range_first s d 0 \<le> line_of a \<longrightarrow> line_of a < range_first s d 0 + tot div 64 \<longrightarrow>
       a \<notin> finish_words s (rd s (d_h d)) \<longrightarrow>
       m_rw s' a = m_rw s a \<and> m_ro s' a = (if log_dirty (m_log s) (line_of a) then m_rw s a else m_ro s a) \<and>
       \<not> log_dirty (m_log s') (line_of a))"
proof -
  have ar: "area_ready s d tot" using rdy unfolding job_ready_def Let_def d by simp
  obtain n v where v: "tasvir_sync_internal_job E i s = Some (True, finish_job i (tasvir_area_is_local s d) n v)"
    "walked s d tot tot v" "pending (t_sync_list (my_tdata v)) = []" "j_d (job i v) = d"
    by (rule job_runs [OF rdy d])
  define s' where "s' = finish_job i (tasvir_area_is_local s d) n v"
  have "kept s d tot (l_data (h_diff_log (rd s (d_h d)) 0))" using ar unfolding area_ready_def Let_def by blast
  then have "m_rw v (l_data (h_diff_log (rd s (d_h d)) 0)) = m_rw s (l_data (h_diff_log (rd s (d_h d)) 0))"
    using walkedD(6) [OF v(2)] unfolding kept_def by blast
  then have fw: "finish_words v (rd v (d_h (j_d (job i v)))) = finish_words s (rd s (d_h d))"
    using walked_fields(1) [OF v(2) order_refl ar] v(4) by (simp add: finish_words_def)
  have "m_rw s' a = m_rw s a \<and> m_ro s' a = (if log_dirty (m_log s) (line_of a) then m_rw s a else m_ro s a) \<and>
      \<not> log_dirty (m_log s') (line_of a)"
    if a: "data_word a" "range_first s d 0 \<le> line_of a" "line_of a < range_first s d 0 + tot div 64" "a \<notin> finish_words s (rd s (d_h d))" for a
  proof -
    have out: "a \<notin> log_words (private_log s d) 0 (tot div 4096)" using ar a(2,3) unfolding area_ready_def Let_def by blast
    note fr = finish_job_frame [OF a(4) [folded fw], of "tasvir_area_is_local s d" n, folded s'_def]
    have "\<not> log_dirty (m_log v) (line_of a)" using walkedD(7) [OF v(2) line_of_less [of a]] a by simp
    moreover have "m_ro v a = (if log_dirty (m_log s) (line_of a) then m_rw s a else m_ro s a)" "m_rw v a = m_rw s a"
      using walkedD(6) [OF v(2) a(1) out] v(3) a by (auto simp: lines_of_def dirty_lines_def split: if_splits)
    ultimately show ?thesis using fr by simp
  qed
  then show ?thesis using v(1) unfolding s'_def by blast
qed

end
