(* ===== verification/Tasvir_Alloc.thy ===== *)
theory Tasvir_Alloc
  imports Tasvir_Area
begin

text \<open>
  Allocation of areas, proved: the sizes \<open>tasvir_new\<close> computes leave room for the private logs, and
  \<open>tasvir_new_alloc_desc\<close> keeps the children of a container apart, inside it, and distinct in name.
\<close>

section \<open>Alignment\<close>

definition ceil_to :: "nat \<Rightarrow> nat \<Rightarrow> nat" where
  "ceil_to a x = (x + a - 1) div a * a"

lemma ceil_to_ge: "0 < a \<Longrightarrow> x \<le> ceil_to a x"
proof -
  assume a: "0 < a"
  have "x + a - 1 < (x + a - 1) div a * a + a" using dividend_less_div_times [OF a, of "x + a - 1"] by (simp add: add.commute)
  then show ?thesis unfolding ceil_to_def using a by linarith
qed

lemma ceil_to_less: "0 < a \<Longrightarrow> ceil_to a x < x + a"
  unfolding ceil_to_def by (rule le_less_trans [OF div_times_less_eq_dividend]) simp

lemma ceil_to_dvd [simp]: "a dvd ceil_to a x"
  by (simp add: ceil_to_def)

lemma ceil_to_mono: "x \<le> y \<Longrightarrow> ceil_to a x \<le> ceil_to a y"
  by (simp add: ceil_to_def div_le_mono)

lemma unat_ALIGN: "unat x + 32768 < 2 ^ 64 \<Longrightarrow> unat (TASVIR_ALIGN x) = ceil_to 32768 (unat x)"
  using unat_ALIGNX [of x 15 TASVIR_ALIGNMENT] by (simp add: TASVIR_ALIGN_def ceil_to_def region_sizes)

section \<open>The sizes of a new area\<close>

definition meta_bytes :: "tasvir_area_desc \<Rightarrow> nat" where
  "meta_bytes x = 1344 + 112 * unat (a_nr_areas_max x)"

definition log_bytes :: "tasvir_area_desc \<Rightarrow> nat" where
  "log_bytes x = meta_bytes x + (if a_type x = AREA_TYPE_CONTAINER then 0 else unat (a_len x))"

lemma new_area_sizes:
  assumes "meta_bytes x + unat (a_len x) < 2 ^ 62"
  shows "unat (size_metadata x) = meta_bytes x" "unat (log_end_of x) = ceil_to 32768 (log_bytes x)"
    "unat (offset_log_of x) = ceil_to 32768 (meta_bytes x + unat (a_len x))"
    "unat (size_log_of x) = ceil_to 32768 (log_bytes x) div 512"
proof -
  have m: "unat (size_metadata x) = meta_bytes x"
  proof -
    have "size_metadata x = of_nat (meta_bytes x)"
      by (simp add: size_metadata_def meta_bytes_def sizeof_area_header_def sizeof_area_desc_def mult.commute)
    moreover have "meta_bytes x < 2 ^ 64" using assms by simp
    ultimately show ?thesis by (simp only: unat_of_nat) simp
  qed
  then show "unat (size_metadata x) = meta_bytes x" .
  have add: "unat (size_metadata x + a_len x) = meta_bytes x + unat (a_len x)"
    using assms m by (simp add: unat_plus_if')
  show "unat (offset_log_of x) = ceil_to 32768 (meta_bytes x + unat (a_len x))"
    using assms add unat_ALIGN [of "size_metadata x + a_len x"] by (simp add: offset_log_of_def)
  show le: "unat (log_end_of x) = ceil_to 32768 (log_bytes x)"
    using assms add m unat_ALIGN [of "size_metadata x + a_len x"] unat_ALIGN [of "size_metadata x"]
    by (simp add: log_end_of_def log_bytes_def)
  obtain k where k: "ceil_to 32768 (log_bytes x) = 32768 * k" using ceil_to_dvd [of 32768 "log_bytes x"] by blast
  have d: "unat (drop_bit 9 (log_end_of x)) = 64 * k"
    by (simp only: unat_drop_bit_eq le k) (simp add: drop_bit_eq_div)
  have "ceil_to 32768 (log_bytes x) < 2 ^ 63"
    using ceil_to_less [of 32768 "log_bytes x"] assms by (simp add: log_bytes_def split: if_splits)
  then have "unat (drop_bit 9 (log_end_of x)) + 8 < 2 ^ 64" using d k by simp
  then have "unat (size_log_of x) = (64 * k + 8 - 1) div 8 * 8"
    using unat_ALIGNX [of "drop_bit 9 (log_end_of x)" 3 8] d by (simp add: size_log_of_def shift_consts)
  also have "\<dots> = 64 * k" by simp
  finally show "unat (size_log_of x) = ceil_to 32768 (log_bytes x) div 512" by (simp add: k)
qed

text \<open>The address of the \<open>i\<close>-th private log in the area, and what the descriptor reserves.\<close>

lemma new_area_logs:
  assumes "meta_bytes x + unat (a_len x) < 2 ^ 61" "i < 4"
  defines "len \<equiv> unat (offset_log_of x + TASVIR_ALIGN (of_nat TASVIR_NR_AREA_LOGS * size_log_of x))"
  shows "unat (log_end_of x) \<le> unat (offset_log_of x) + i * unat (size_log_of x)"
    "unat (offset_log_of x) + (i + 1) * unat (size_log_of x) \<le> len"
    "512 * unat (size_log_of x) = unat (log_end_of x)" "64 dvd unat (size_log_of x)"
    "log_bytes x \<le> unat (log_end_of x)" "meta_bytes x + unat (a_len x) \<le> unat (offset_log_of x)"
proof -
  have b: "meta_bytes x + unat (a_len x) < 2 ^ 62" using assms(1) by simp
  note sz = new_area_sizes [OF b]
  obtain k where k: "ceil_to 32768 (log_bytes x) = 32768 * k" using ceil_to_dvd [of 32768 "log_bytes x"] by blast
  have le: "log_bytes x \<le> meta_bytes x + unat (a_len x)" by (simp add: log_bytes_def)
  show "512 * unat (size_log_of x) = unat (log_end_of x)" "64 dvd unat (size_log_of x)" by (simp_all add: sz k)
  show "unat (log_end_of x) \<le> unat (offset_log_of x) + i * unat (size_log_of x)"
    using ceil_to_mono [OF le, of 32768] by (simp add: sz)
  show "log_bytes x \<le> unat (log_end_of x)" "meta_bytes x + unat (a_len x) \<le> unat (offset_log_of x)"
    using ceil_to_ge [of 32768 "log_bytes x"] ceil_to_ge [of 32768 "meta_bytes x + unat (a_len x)"] by (simp_all add: sz)
  have "ceil_to 32768 (log_bytes x) < 2 ^ 62" "ceil_to 32768 (meta_bytes x + unat (a_len x)) < 2 ^ 62"
    using ceil_to_less [of 32768 "log_bytes x"] ceil_to_less [of 32768 "meta_bytes x + unat (a_len x)"] assms(1) le by simp_all
  then have kb: "64 * k < 2 ^ 53" "unat (offset_log_of x) < 2 ^ 62" by (simp_all add: k sz)
  have four: "unat (of_nat TASVIR_NR_AREA_LOGS * size_log_of x) = 4 * unat (size_log_of x)"
  proof -
    have "of_nat TASVIR_NR_AREA_LOGS * size_log_of x = of_nat (4 * unat (size_log_of x))"
      by (simp add: TASVIR_NR_AREA_LOGS_def)
    then show ?thesis using kb(1) by (simp only: unat_of_nat) (simp add: sz k)
  qed
  have al: "unat (TASVIR_ALIGN (of_nat TASVIR_NR_AREA_LOGS * size_log_of x)) = ceil_to 32768 (4 * unat (size_log_of x))"
    using unat_ALIGN [of "of_nat TASVIR_NR_AREA_LOGS * size_log_of x"] kb by (simp add: four sz k)
  have "len = unat (offset_log_of x) + ceil_to 32768 (4 * unat (size_log_of x))"
    using kb ceil_to_less [of 32768 "4 * unat (size_log_of x)"]
    by (simp add: len_def unat_plus_if' al sz k)
  moreover have "(i + 1) * unat (size_log_of x) \<le> 4 * unat (size_log_of x)" using assms(2) by (intro mult_right_mono) auto
  ultimately show "unat (offset_log_of x) + (i + 1) * unat (size_log_of x) \<le> len"
    using ceil_to_ge [of 32768 "4 * unat (size_log_of x)"] by linarith
qed

section \<open>Words written to a descriptor\<close>

lemma wr_world:
  "va_rw (wr a v s) = va_rw s" "root_desc (wr a v s) = root_desc s" "m_log (wr a v s) = m_log s"
  by (simp_all add: wr_def)

lemma rd_wr: "rd (wr b v s) a = (if a = b then v else rd s a)"
  by (auto simp: wr_def rd_def)

lemma rd_tlog [simp]: "rd (tlog p n s) = rd s" "va_rw (tlog p n s) = va_rw s" "root_desc (tlog p n s) = root_desc s"
  "node_desc (tlog p n s) = node_desc s" "tsc (tlog p n s) = tsc s" "tick (tlog p n s) = tick s"
  by (simp_all add: tlog_def rd_def fun_eq_iff)

lemma rd_wr_words_other:
  "\<forall>i < length ws. a \<noteq> b + 8 * of_nat i \<Longrightarrow> rd (wr_words b ws s) a = rd s a"
proof (induction ws arbitrary: b s)
  case (Cons w ws)
  have "a \<noteq> b" using Cons.prems [rule_format, of 0] by simp
  moreover have "\<forall>i < length ws. a \<noteq> b + 8 + 8 * of_nat i"
  proof (intro allI impI)
    fix i assume "i < length ws"
    with Cons.prems [rule_format, of "Suc i"] show "a \<noteq> b + 8 + 8 * of_nat i" by (simp add: algebra_simps)
  qed
  ultimately show ?case using Cons.IH [of "b + 8"] by (simp add: rd_wr)
qed simp

lemma offset_inj: "i < 2 ^ 60 \<Longrightarrow> j < 2 ^ 60 \<Longrightarrow> (b :: u64) + 8 * of_nat i = b + 8 * of_nat j \<longleftrightarrow> i = j"
proof -
  assume ij: "i < 2 ^ 60" "j < 2 ^ 60"
  have "(8 * of_nat k :: u64) = of_nat (8 * k)" for k by simp
  then have "(b + 8 * of_nat i = b + 8 * of_nat j) = ((of_nat (8 * i) :: u64) = of_nat (8 * j))" by simp
  also have "\<dots> \<longleftrightarrow> i = j" using ij by (subst word_of_nat_eq_iff) (simp add: take_bit_nat_eq_self)
  finally show ?thesis .
qed

lemma rd_wr_words:
  "length ws < 2 ^ 60 \<Longrightarrow> i < length ws \<Longrightarrow> rd (wr_words b ws s) (b + 8 * of_nat i) = ws ! i"
proof (induction ws arbitrary: b s i)
  case (Cons w ws)
  show ?case
  proof (cases i)
    case 0
    have "\<forall>j < length ws. b \<noteq> b + 8 + 8 * of_nat j"
    proof (intro allI impI)
      fix j assume "j < length ws"
      then have "b + 8 * of_nat 0 \<noteq> b + 8 * of_nat (Suc j)" using Cons.prems by (subst offset_inj) auto
      then show "b \<noteq> b + 8 + 8 * of_nat j" by (simp add: algebra_simps)
    qed
    then show ?thesis using 0 rd_wr_words_other [of ws b "b + 8" "wr b w s"] by (simp add: rd_wr)
  next
    case (Suc k)
    then show ?thesis using Cons.IH [of k "b + 8"] Cons.prems by (simp add: algebra_simps)
  qed
qed simp

text \<open>Addresses apart, by their values.\<close>

lemma unat_add_small: "unat (b :: u64) + k < 2 ^ 64 \<Longrightarrow> unat (b + of_nat k) = unat b + k"
proof -
  assume "unat b + k < 2 ^ 64"
  moreover have "b + of_nat k = of_nat (unat b + k)" by simp
  ultimately show ?thesis by (simp only: unat_of_nat) simp
qed

lemma rd_wr_words_apart:
  assumes "unat b + 8 * length ws < 2 ^ 64" "unat a < unat b \<or> unat b + 8 * length ws \<le> unat a"
  shows "rd (wr_words b ws s) a = rd s a"
proof (rule rd_wr_words_other, intro allI impI)
  fix i assume i: "i < length ws"
  have "8 * of_nat i = (of_nat (8 * i) :: u64)" by simp
  then have "unat (b + 8 * of_nat i) = unat b + 8 * i" using assms(1) i unat_add_small [of b "8 * i"] by simp
  then show "a \<noteq> b + 8 * of_nat i" using assms(2) i by auto
qed

section \<open>Containers\<close>

definition area_first :: "('p, 'r, 'n) tasvir \<Rightarrow> addr \<Rightarrow> nat" where
  "area_first s d = unat (rd s (d_h d))"

definition area_end :: "('p, 'r, 'n) tasvir \<Rightarrow> addr \<Rightarrow> nat" where
  "area_end s d = unat (rd s (d_h d)) + unat (rd s (d_len d))"

text \<open>
  The shape of a container \<open>p\<close>: its header, then its descriptors, then its children one after the
  other up to its private logs; no two children have the same name. The descriptor of \<open>p\<close> itself lies
  elsewhere.
\<close>

definition nr_children :: "('p, 'r, 'n) tasvir \<Rightarrow> addr \<Rightarrow> nat" where
  "nr_children s p = unat (rd s (h_nr_areas (rd s (d_h p))))"

definition child_name :: "('p, 'r, 'n) tasvir \<Rightarrow> addr \<Rightarrow> nat \<Rightarrow> cstr" where
  "child_name s p i = read_str s (d_name (child (tasvir_data s p) i))"

definition container_shape :: "('p, 'r, 'n) tasvir \<Rightarrow> addr \<Rightarrow> bool" where
  "container_shape s p \<longleftrightarrow>
     (let ph = unat (rd s (d_h p)); top = ph + 1344 + 112 * unat (rd s (d_nr_areas_max p)) in
      nr_children s p \<le> unat (rd s (d_nr_areas_max p)) \<and> top < 2 ^ 62 \<and>
      unat (rd s (l_data (h_diff_log (rd s (d_h p)) 0))) < 2 ^ 62 \<and> unat p + 112 < 2 ^ 62 \<and>
      (unat p + 112 \<le> ph \<or> top \<le> unat p))"

definition children_apart :: "('p, 'r, 'n) tasvir \<Rightarrow> addr \<Rightarrow> bool" where
  "children_apart s p \<longleftrightarrow>
     (let c = tasvir_data s p in \<forall>i < nr_children s p. 32768 dvd area_first s (child c i) \<and>
        area_end s (child c i) < unat (rd s (l_data (h_diff_log (rd s (d_h p)) 0))) \<and>
        (if i = 0 then unat (rd s (d_h p)) + 1344 + 112 * unat (rd s (d_nr_areas_max p)) \<le> area_first s (child c 0)
         else area_end s (child c (i - 1)) \<le> area_first s (child c i)))"

definition names_distinct :: "('p, 'r, 'n) tasvir \<Rightarrow> addr \<Rightarrow> bool" where
  "names_distinct s p \<longleftrightarrow>
     (\<forall>j < nr_children s p. \<forall>i < j. \<not> strn_eq TASVIR_STRLEN_MAX (child_name s p i) (child_name s p j))"

lemma unat_child:
  assumes "container_shape s p" "i < unat (rd s (d_nr_areas_max p))"
  shows "unat (child (tasvir_data s p) i) = unat (rd s (d_h p)) + 1344 + 112 * i"
proof -
  have "child (tasvir_data s p) i = rd s (d_h p) + of_nat (1344 + 112 * i)"
    by (simp add: child_def tasvir_data_def sizeof_area_header_def sizeof_area_desc_def)
  moreover have "unat (rd s (d_h p)) + (1344 + 112 * i) < 2 ^ 64"
    using assms by (simp add: container_shape_def Let_def)
  ultimately show ?thesis using unat_add_small [of "rd s (d_h p)" "1344 + 112 * i"] by simp
qed

text \<open>What a store to the counter and to the slot \<open>n\<close> of a container leaves alone.\<close>

definition slot_state :: "addr \<Rightarrow> addr \<Rightarrow> u64 list \<Rightarrow> ('p, 'r, 'n) tasvir \<Rightarrow> ('p, 'r, 'n) tasvir \<Rightarrow> bool" where
  "slot_state p d ws s s' \<longleftrightarrow> (\<forall>a. rd s' a = rd (wr_words d ws (wr (h_nr_areas (rd s (d_h p))) (rd s (h_nr_areas (rd s (d_h p))) + 1) s)) a)"


lemma rd_wr_words_cong: "(\<And>a. rd s a = rd t a) \<Longrightarrow> rd (wr_words b ws s) a = rd (wr_words b ws t) a"
proof (induction ws arbitrary: b s t)
  case (Cons w ws)
  then show ?case by (simp add: rd_wr)
qed simp

lemma slot_rd_apart:
  assumes "slot_state p d ws s s'" "unat d + 8 * length ws < 2 ^ 64" "unat a < unat d \<or> unat d + 8 * length ws \<le> unat a"
    "a \<noteq> h_nr_areas (rd s (d_h p))"
  shows "rd s' a = rd s a"
  using assms by (simp add: slot_state_def rd_wr_words_apart rd_wr)

lemma slot_rd_word:
  assumes "slot_state p d ws s s'" "i < length ws" "length ws < 2 ^ 60"
  shows "rd s' (d + 8 * of_nat i) = ws ! i"
  using assms by (simp add: slot_state_def rd_wr_words)

lemma slot_rd_count:
  assumes "slot_state p d ws s s'" "unat d + 8 * length ws < 2 ^ 64" "unat (h_nr_areas (rd s (d_h p))) < unat d"
  shows "rd s' (h_nr_areas (rd s (d_h p))) = rd s (h_nr_areas (rd s (d_h p))) + 1"
  using assms by (simp add: slot_state_def rd_wr_words_apart rd_wr)

lemma rd_rdtsc [simp]: "rd (s\<lparr>tick := t\<rparr>) = rd s"
  by (simp add: rd_def fun_eq_iff)

lemma length_desc_words [simp]: "length (a_name x) = 4 \<Longrightarrow> length (desc_words x) = 14"
  by (simp add: desc_words_def)

lemma desc_words_nth:
  "length (a_name x) = 4 \<Longrightarrow> desc_words x ! 1 = a_h x" "length (a_name x) = 4 \<Longrightarrow> desc_words x ! 3 = a_len x"
  "length (a_name x) = 4 \<Longrightarrow> k < 4 \<Longrightarrow> desc_words x ! (6 + k) = a_name x ! k"
  by (simp_all add: desc_words_def nth_append)

lemma alloc_run:
  assumes "alloc_slot desc s = Some (d, hh, s1)" "a_pd desc \<noteq> 0" "d \<noteq> root_desc s"
  shows "\<exists>x s'. new_alloc_desc_owner E desc s = (d, s') \<and> slot_state (a_pd desc) d (desc_words x) s s' \<and>
    a_h x = hh \<and> a_len x = a_len desc \<and> a_name x = a_name desc"
proof -
  let ?ph = "rd s (d_h (a_pd desc))"
  have s1: "s1 = wr (h_nr_areas ?ph) (rd s (h_nr_areas ?ph) + 1) (tlog (h_nr_areas ?ph) 8 s)"
    using assms(1) by (auto simp: alloc_slot_def Let_def split: if_splits)
  define x where "x = (let desc = desc\<lparr>a_h := hh\<rparr>;
              desc = (if node_desc s1 \<noteq> 0 \<and> a_type desc = AREA_TYPE_NODE
                      then desc\<lparr>a_sync_ext_us := rd s1 (d_sync_ext_us (node_desc s1))\<rparr> else desc)
          in desc\<lparr>a_boot_us := tsc2usec E (tsc s1 (tick s1))\<rparr>)"
  define s2 where "s2 = (tlog d sizeof_area_desc s1)\<lparr>tick := Suc (tick s1)\<rparr>"
  have root: "root_desc (wr_words d ws t) = root_desc t" for ws and t :: "('a, 'b, 'c) tasvir"
    by (induction ws arbitrary: d t) (simp_all add: wr_world)
  have "new_alloc_desc_owner E desc s = (d, wr_words d (desc_words x) s2)"
  proof -
    have "d \<noteq> root_desc s2" using assms(3) by (simp add: s2_def s1 wr_world)
    then show ?thesis
      using assms(1,2) by (simp add: new_alloc_desc_owner_def Let_def tasvir_time_us_def rdtsc_def x_def s2_def root)
  qed
  moreover have "slot_state (a_pd desc) d (desc_words x) s (wr_words d (desc_words x) s2)"
    unfolding slot_state_def by (intro allI rd_wr_words_cong) (simp add: s2_def s1 rd_wr)
  moreover have "a_h x = hh" "a_len x = a_len desc" "a_name x = a_name desc" by (simp_all add: x_def Let_def)
  ultimately show ?thesis by blast
qed


text \<open>The hypotheses of one allocation in the container \<open>p\<close>, and what the store leaves readable.\<close>

definition alloc_step :: "addr \<Rightarrow> tasvir_area_desc \<Rightarrow> ('p, 'r, 'n) tasvir \<Rightarrow> ('p, 'r, 'n) tasvir \<Rightarrow> bool" where
  "alloc_step p x s s' \<longleftrightarrow> container_shape s p \<and> nr_children s p < unat (rd s (d_nr_areas_max p)) \<and>
     length (a_name x) = 4 \<and> slot_state p (child (tasvir_data s p) (nr_children s p)) (desc_words x) s s'"

lemma alloc_step_rd:
  assumes st: "alloc_step p x s s'"
  defines "ph \<equiv> rd s (d_h p)" and "c \<equiv> tasvir_data s p" and "n \<equiv> nr_children s p"
  shows "rd s' (d_h p) = ph" "rd s' (d_nr_areas_max p) = rd s (d_nr_areas_max p)" "tasvir_data s' p = c"
    "rd s' (l_data (h_diff_log ph 0)) = rd s (l_data (h_diff_log ph 0))" "nr_children s' p = Suc n"
    "\<And>i k. i < n \<Longrightarrow> k < 14 \<Longrightarrow> rd s' (child c i + 8 * of_nat k) = rd s (child c i + 8 * of_nat k)"
    "\<And>k. k < 14 \<Longrightarrow> rd s' (child c n + 8 * of_nat k) = desc_words x ! k"
    "rd s' (d_type p) = rd s (d_type p)" "rd s' (h_d ph) = rd s (h_d ph)"
proof -
  let ?mx = "unat (rd s (d_nr_areas_max p))"
  have sh: "container_shape s p" and n: "n < ?mx" and len: "length (desc_words x) = 14"
    and slot: "slot_state p (child c n) (desc_words x) s s'"
    using st by (simp_all add: alloc_step_def n_def c_def)
  have b: "unat ph + 1344 + 112 * ?mx < 2 ^ 62" "unat p + 112 < 2 ^ 62"
    "unat p + 112 \<le> unat ph \<or> unat ph + 1344 + 112 * ?mx \<le> unat p"
    using sh by (simp_all add: container_shape_def Let_def ph_def)
  have d: "unat (child c i) = unat ph + 1344 + 112 * i" if "i < ?mx" for i
    using unat_child [OF sh that] by (simp add: c_def ph_def)
  have dn: "unat (child c n) + 8 * length (desc_words x) < 2 ^ 64" using b(1) n d [OF n] by (simp add: len)
  have cnt: "unat (h_nr_areas ph) = unat ph + 88" using b(1) unat_add_small [of ph 88] by simp
  have apart: "rd s' a = rd s a" if "unat a < unat (child c n) \<or> unat (child c n) + 112 \<le> unat a" "unat a \<noteq> unat ph + 88" for a
    using slot_rd_apart [OF slot dn, of a] that cnt by (auto simp: len ph_def)
  have pf: "unat (p + of_nat k) = unat p + k" "unat (p + of_nat k) < unat (child c n) \<or> unat (child c n) + 112 \<le> unat (p + of_nat k)"
    "unat (p + of_nat k) \<noteq> unat ph + 88" if "k < 112" for k
    using that b n d [OF n] unat_add_small [of p k] by auto
  show h: "rd s' (d_h p) = ph" using apart [of "p + of_nat 8"] pf [of 8] by (simp add: ph_def)
  show "rd s' (d_nr_areas_max p) = rd s (d_nr_areas_max p)" using apart [of "p + of_nat 40"] pf [of 40] by simp
  show "rd s' (d_type p) = rd s (d_type p)" using apart [of "p + of_nat 104"] pf [of 104] by simp
  have "unat (ph + of_nat 64) = unat ph + 64" using b(1) unat_add_small [of ph 64] by simp
  then show "rd s' (h_d ph) = rd s (h_d ph)" using apart [of "ph + of_nat 64"] d [OF n] by simp
  show "tasvir_data s' p = c" using h by (simp add: tasvir_data_def c_def ph_def)
  have "unat (ph + of_nat 136) = unat ph + 136" using b(1) unat_add_small [of ph 136] by simp
  then show "rd s' (l_data (h_diff_log ph 0)) = rd s (l_data (h_diff_log ph 0))"
    using apart [of "ph + of_nat 136"] d [OF n] by (simp add: add.assoc)
  have "rd s' (h_nr_areas ph) = rd s (h_nr_areas ph) + 1"
    using slot_rd_count [OF slot dn] cnt d [OF n] by (simp add: ph_def)
  moreover have "unat (rd s (h_nr_areas ph)) = n" by (simp add: n_def nr_children_def ph_def)
  moreover have "unat (rd s (h_nr_areas ph) + 1) = Suc n"
    using unat_add_small [of "rd s (h_nr_areas ph)" 1] n b(1) calculation(2) by simp
  ultimately show "nr_children s' p = Suc n" by (simp add: nr_children_def h)
  show "rd s' (child c i + 8 * of_nat k) = rd s (child c i + 8 * of_nat k)" if "i < n" "k < 14" for i k
  proof -
    have "unat (child c i + of_nat (8 * k)) = unat ph + 1344 + 112 * i + 8 * k"
      using unat_add_small [of "child c i" "8 * k"] d [of i] that n b(1) by simp
    moreover have "112 * i + 112 \<le> 112 * n" using that(1) by simp
    ultimately show ?thesis using apart [of "child c i + of_nat (8 * k)"] d [OF n] that by simp
  qed
  show "rd s' (child c n + 8 * of_nat k) = desc_words x ! k" if "k < 14" for k
    using slot_rd_word [OF slot, of k] that len by simp
qed


lemma alloc_shape: "alloc_step p x s s' \<Longrightarrow> container_shape s' p"
  using alloc_step_rd [of p x s s'] by (simp add: alloc_step_def container_shape_def Let_def)

lemma alloc_step_fields:
  assumes st: "alloc_step p x s s'"
  defines "c \<equiv> tasvir_data s p" and "n \<equiv> nr_children s p"
  shows "i < n \<Longrightarrow> area_first s' (child c i) = area_first s (child c i)"
    "i < n \<Longrightarrow> area_end s' (child c i) = area_end s (child c i)"
    "area_first s' (child c n) = unat (a_h x)" "area_end s' (child c n) = unat (a_h x) + unat (a_len x)"
    "i < n \<Longrightarrow> child_name s' p i = child_name s p i" "child_name s' p n = desc_name x"
proof -
  note r = alloc_step_rd [OF st, folded c_def n_def]
  have nm: "length (a_name x) = 4" using st by (simp add: alloc_step_def)
  have old: "rd s' (child c i + 8) = rd s (child c i + 8)" "rd s' (child c i + 24) = rd s (child c i + 24)"
    "k < 4 \<Longrightarrow> rd s' (child c i + 48 + 8 * of_nat k) = rd s (child c i + 48 + 8 * of_nat k)" if "i < n" for i k
    using r(6) [OF that, of 1] r(6) [OF that, of 3] r(6) [OF that, of "6 + k"] by (simp_all add: add.assoc)
  have new: "rd s' (child c n + 8) = a_h x" "rd s' (child c n + 24) = a_len x"
    "k < 4 \<Longrightarrow> rd s' (child c n + 48 + 8 * of_nat k) = a_name x ! k" for k
    using r(7) [of 1] r(7) [of 3] r(7) [of "6 + k"] desc_words_nth [OF nm] by (simp_all add: add.assoc)
  show "i < n \<Longrightarrow> area_first s' (child c i) = area_first s (child c i)"
    "i < n \<Longrightarrow> area_end s' (child c i) = area_end s (child c i)"
    "area_first s' (child c n) = unat (a_h x)" "area_end s' (child c n) = unat (a_h x) + unat (a_len x)"
    using old new by (simp_all add: area_first_def area_end_def)
  show "i < n \<Longrightarrow> child_name s' p i = child_name s p i"
  proof -
    assume i: "i < n"
    have "map (\<lambda>k. word_bytes (rd s' (child c i + 48 + 8 * of_nat k))) [0..<4] =
        map (\<lambda>k. word_bytes (rd s (child c i + 48 + 8 * of_nat k))) [0..<4]"
      using old(3) [OF i] by (intro map_cong) auto
    then show ?thesis
      using r(3) by (simp add: child_name_def read_str_def TASVIR_STRLEN_MAX_def c_def del: map_eq_conv)
  qed
  have "map (\<lambda>k. word_bytes (rd s' (child c n + 48 + 8 * of_nat k))) [0..<4] = map word_bytes (a_name x)"
    by (rule nth_equalityI) (use new(3) nm in auto)
  then show "child_name s' p n = desc_name x"
    using r(3) by (simp add: child_name_def read_str_def TASVIR_STRLEN_MAX_def desc_name_def)
qed

lemma alloc_apart:
  assumes st: "alloc_step p x s s'" and ap: "children_apart s p"
    and al: "32768 dvd unat (a_h x)" and room: "unat (a_h x) + unat (a_len x) < unat (rd s (l_data (h_diff_log (rd s (d_h p)) 0)))"
    and first: "nr_children s p = 0 \<Longrightarrow> unat (rd s (d_h p)) + 1344 + 112 * unat (rd s (d_nr_areas_max p)) \<le> unat (a_h x)"
    and next_: "0 < nr_children s p \<Longrightarrow> area_end s (child (tasvir_data s p) (nr_children s p - 1)) \<le> unat (a_h x)"
  shows "children_apart s' p"
proof -
  note r = alloc_step_rd [OF st]
  note f = alloc_step_fields [OF st]
  show ?thesis
    unfolding children_apart_def Let_def
  proof (intro allI impI)
    fix i assume "i < nr_children s' p"
    then consider "i < nr_children s p" | "i = nr_children s p" using r(5) by linarith
    then show "32768 dvd area_first s' (child (tasvir_data s' p) i) \<and>
        area_end s' (child (tasvir_data s' p) i) < unat (rd s' (l_data (h_diff_log (rd s' (d_h p)) 0))) \<and>
        (if i = 0 then unat (rd s' (d_h p)) + 1344 + 112 * unat (rd s' (d_nr_areas_max p)) \<le> area_first s' (child (tasvir_data s' p) 0)
         else area_end s' (child (tasvir_data s' p) (i - 1)) \<le> area_first s' (child (tasvir_data s' p) i))"
    proof cases
      case 1
      moreover from 1 have "i - 1 < nr_children s p" "0 < nr_children s p" by auto
      moreover from 1 ap have "32768 dvd area_first s (child (tasvir_data s p) i) \<and>
          area_end s (child (tasvir_data s p) i) < unat (rd s (l_data (h_diff_log (rd s (d_h p)) 0))) \<and>
          (if i = 0 then unat (rd s (d_h p)) + 1344 + 112 * unat (rd s (d_nr_areas_max p)) \<le> area_first s (child (tasvir_data s p) 0)
           else area_end s (child (tasvir_data s p) (i - 1)) \<le> area_first s (child (tasvir_data s p) i))"
        unfolding children_apart_def Let_def by blast
      ultimately show ?thesis using r(1-4) f(1,2) by (simp split: if_splits)
    next
      case 2
      have "i \<noteq> 0 \<Longrightarrow> area_end s' (child (tasvir_data s p) (i - 1)) = area_end s (child (tasvir_data s p) (i - 1))"
        using 2 f(2) [of "i - 1"] by simp
      with 2 show ?thesis using al room first next_ r(1-4) f(3,4) by (cases "nr_children s p = 0") simp_all
    qed
  qed
qed

lemma find_name_None:
  "find_name s c nm n i = None \<longleftrightarrow> (\<forall>k < n. \<not> strn_eq TASVIR_STRLEN_MAX (read_str s (d_name (child c (i + k)))) nm)"
proof (induction n arbitrary: i)
  case (Suc n)
  have "(\<forall>k < Suc n. P k) \<longleftrightarrow> P 0 \<and> (\<forall>k < n. P (Suc k))" for P by (auto simp: less_Suc_eq_0_disj)
  then show ?case using Suc.IH [of "Suc i"] by simp
qed simp

lemma alloc_names:
  assumes st: "alloc_step p x s s'" and nd: "names_distinct s p"
    and new: "find_name s (tasvir_data s p) (desc_name x) (nr_children s p) 0 = None"
  shows "names_distinct s' p"
proof -
  note r = alloc_step_rd [OF st]
  note f = alloc_step_fields [OF st]
  show ?thesis
    unfolding names_distinct_def
  proof (intro allI impI)
    fix j i assume ij: "j < nr_children s' p" "i < j"
    then consider "j < nr_children s p" | "j = nr_children s p" using r(5) by linarith
    then show "\<not> strn_eq TASVIR_STRLEN_MAX (child_name s' p i) (child_name s' p j)"
    proof cases
      case 1
      then show ?thesis using ij nd f(5) [of i] f(5) [of j] by (simp add: names_distinct_def)
    next
      case 2
      then have "\<not> strn_eq TASVIR_STRLEN_MAX (child_name s p i) (desc_name x)"
        using new ij by (simp add: find_name_None child_name_def)
      then show ?thesis using 2 ij f(5) [of i] f(6) by simp
    qed
  qed
qed

section \<open>\<open>tasvir_new_alloc_desc\<close> keeps the container in order\<close>

definition container_ok :: "('p, 'r, 'n) tasvir \<Rightarrow> addr \<Rightarrow> bool" where
  "container_ok s p \<longleftrightarrow> container_shape s p \<and> children_apart s p \<and> names_distinct s p"

text \<open>Where the room used so far ends: behind the descriptors, or behind the last child.\<close>

definition last_end :: "('p, 'r, 'n) tasvir \<Rightarrow> addr \<Rightarrow> nat" where
  "last_end s p = (let n = nr_children s p in if 0 < n then area_end s (child (tasvir_data s p) (n - 1))
     else unat (rd s (d_h p)) + 1344 + 112 * unat (rd s (d_nr_areas_max p)))"

lemma alloc_header_nat:
  assumes ok: "container_ok s p"
  shows "unat (alloc_header s p (tasvir_data s p) (nr_children s p)) = ceil_to 32768 (last_end s p)"
    "last_end s p < 2 ^ 62"
proof -
  let ?n = "nr_children s p" and ?c = "tasvir_data s p" and ?lim = "unat (rd s (l_data (h_diff_log (rd s (d_h p)) 0)))"
  have sh: "unat (rd s (d_h p)) + 1344 + 112 * unat (rd s (d_nr_areas_max p)) < 2 ^ 62" "?lim < 2 ^ 62"
    using ok by (simp_all add: container_ok_def container_shape_def Let_def)
  have "0 < ?n \<Longrightarrow> area_end s (child ?c (?n - 1)) < ?lim"
    using ok unfolding container_ok_def children_apart_def Let_def by (meson diff_less zero_less_one)
  then show eb: "last_end s p < 2 ^ 62" using sh by (auto simp: last_end_def Let_def)
  have "alloc_header s p ?c ?n = TASVIR_ALIGN (of_nat (last_end s p))"
    by (auto simp: alloc_header_def last_end_def Let_def area_end_def tasvir_data_def sizeof_area_header_def
        sizeof_area_desc_def mult.commute)
  moreover have "unat (of_nat (last_end s p) :: u64) = last_end s p" using eb by (simp only: unat_of_nat) simp
  ultimately show "unat (alloc_header s p ?c ?n) = ceil_to 32768 (last_end s p)"
    using unat_ALIGN [of "of_nat (last_end s p)"] eb by simp
qed

text \<open>The room test does not wrap around for lengths below \<open>2\<^sup>6\<^sup>2\<close>.\<close>

lemma alloc_room_nat:
  assumes ok: "container_ok s p" and len: "unat len < 2 ^ 62"
  shows "unat (alloc_header s p (tasvir_data s p) (nr_children s p) + len) = ceil_to 32768 (last_end s p) + unat len"
proof -
  note h = alloc_header_nat [OF ok]
  have "ceil_to 32768 (last_end s p) < 2 ^ 63" using ceil_to_less [of 32768 "last_end s p"] h(2) by simp
  then show ?thesis using len h(1) by (simp add: unat_plus_if')
qed

lemma alloc_slot_header:
  assumes ok: "container_ok s p" and slot: "alloc_slot desc s = Some (d, hh, s1)" and p: "a_pd desc = p"
    and len: "unat (a_len desc) < 2 ^ 62"
  shows "nr_children s p < unat (rd s (d_nr_areas_max p))" "d = child (tasvir_data s p) (nr_children s p)"
    "32768 dvd unat hh" "unat hh + unat (a_len desc) < unat (rd s (l_data (h_diff_log (rd s (d_h p)) 0)))"
    "nr_children s p = 0 \<Longrightarrow> unat (rd s (d_h p)) + 1344 + 112 * unat (rd s (d_nr_areas_max p)) \<le> unat hh"
    "0 < nr_children s p \<Longrightarrow> area_end s (child (tasvir_data s p) (nr_children s p - 1)) \<le> unat hh"
    "find_name s (tasvir_data s p) (desc_name desc) (nr_children s p) 0 = None"
proof -
  let ?n = "nr_children s p" and ?c = "tasvir_data s p" and ?lim = "unat (rd s (l_data (h_diff_log (rd s (d_h p)) 0)))"
  let ?mx = "unat (rd s (d_nr_areas_max p))"
  from slot p have a: "rd s (h_nr_areas (rd s (d_h p))) < rd s (d_nr_areas_max p)"
    "find_name s ?c (desc_name desc) ?n 0 = None" "d = child ?c ?n" "hh = alloc_header s p ?c ?n"
    "hh + a_len desc < rd s (l_data (h_diff_log (rd s (d_h p)) 0))"
    by (auto simp: alloc_slot_def Let_def nr_children_def not_le split: if_splits)
  show "?n < ?mx" "d = child ?c ?n" "find_name s ?c (desc_name desc) ?n 0 = None"
    using a by (simp_all add: nr_children_def word_less_nat_alt)
  have hh: "unat hh = ceil_to 32768 (last_end s p)" using alloc_header_nat(1) [OF ok] a(4) by simp
  show "32768 dvd unat hh" by (simp add: hh)
  have "last_end s p \<le> unat hh" using ceil_to_ge [of 32768 "last_end s p"] by (simp add: hh)
  then show "?n = 0 \<Longrightarrow> unat (rd s (d_h p)) + 1344 + 112 * ?mx \<le> unat hh"
    "0 < ?n \<Longrightarrow> area_end s (child ?c (?n - 1)) \<le> unat hh" by (simp_all add: last_end_def Let_def)
  show "unat hh + unat (a_len desc) < ?lim"
    using a(4,5) alloc_room_nat [OF ok len] hh by (simp add: word_less_nat_alt)
qed

lemma new_alloc_desc_container:
  assumes ok: "container_ok s p" and p: "a_pd desc = p" "p \<noteq> 0" and nm: "length (a_name desc) = 4"
    and len: "unat (a_len desc) < 2 ^ 62" and slot: "alloc_slot desc s = Some (d, hh, s1)" and nr: "d \<noteq> root_desc s"
  shows "\<exists>s'. new_alloc_desc_owner E desc s = (d, s') \<and> container_ok s' p \<and> nr_children s' p = Suc (nr_children s p) \<and>
    d = child (tasvir_data s' p) (nr_children s p) \<and> child_name s' p (nr_children s p) = desc_name desc \<and>
    area_first s' d = unat hh \<and> area_end s' d = unat hh + unat (a_len desc) \<and>
    rd s' (d_type p) = rd s (d_type p) \<and> rd s' (d_h p) = rd s (d_h p) \<and> rd s' (h_d (rd s (d_h p))) = rd s (h_d (rd s (d_h p)))"
proof -
  note h = alloc_slot_header [OF ok slot p(1) len]
  obtain x s' where x: "new_alloc_desc_owner E desc s = (d, s')" "slot_state p d (desc_words x) s s'"
    "a_h x = hh" "a_len x = a_len desc" "a_name x = a_name desc"
    using alloc_run [OF slot] p nr by blast
  have st: "alloc_step p x s s'"
    using ok h(1,2) x nm by (simp add: alloc_step_def container_ok_def)
  have nme: "desc_name x = desc_name desc" by (simp add: desc_name_def x)
  have "container_ok s' p"
    unfolding container_ok_def
    using alloc_shape [OF st] alloc_apart [OF st] alloc_names [OF st] h x ok
    by (simp add: container_ok_def nme)
  with x(1) alloc_step_rd [OF st] alloc_step_fields [OF st] show ?thesis
    by (intro exI [of _ s']) (simp add: h(2) x nme)
qed


section \<open>Consequences\<close>

lemma children_disjoint:
  assumes "container_ok s p" "i < j" "j < nr_children s p"
  shows "area_end s (child (tasvir_data s p) i) \<le> area_first s (child (tasvir_data s p) j)"
  using assms(2,3)
proof (induction j)
  case (Suc j)
  have step: "area_end s (child (tasvir_data s p) j) \<le> area_first s (child (tasvir_data s p) (Suc j))"
    using assms(1) Suc.prems(2) unfolding container_ok_def children_apart_def Let_def
    by (auto dest!: spec [of _ "Suc j"])
  show ?case
  proof (cases "i = j")
    case False
    then have "area_end s (child (tasvir_data s p) i) \<le> area_first s (child (tasvir_data s p) j)" using Suc by simp
    also have "\<dots> \<le> area_end s (child (tasvir_data s p) j)" by (simp add: area_first_def area_end_def)
    finally show ?thesis using step by simp
  qed (use step in simp)
qed simp

text \<open>The end of what a container holds: of its descriptors and of every child.\<close>

definition used_end :: "('p, 'r, 'n) tasvir \<Rightarrow> addr \<Rightarrow> nat" where
  "used_end s p = Max (insert (unat (rd s (d_h p)) + 1344 + 112 * unat (rd s (d_nr_areas_max p)))
     ((\<lambda>i. area_end s (child (tasvir_data s p) i)) ` {..<nr_children s p}))"

lemma used_end_last:
  assumes ok: "container_ok s p"
  shows "last_end s p = used_end s p"
proof (cases "nr_children s p = 0")
  case False
  let ?n = "nr_children s p" and ?e = "\<lambda>i. area_end s (child (tasvir_data s p) i)"
    and ?b = "unat (rd s (d_h p)) + 1344 + 112 * unat (rd s (d_nr_areas_max p))"
  have up: "?e i \<le> ?e (?n - 1)" if "i < ?n" for i
  proof (cases "i = ?n - 1")
    case False
    then have "?e i \<le> area_first s (child (tasvir_data s p) (?n - 1))"
      using children_disjoint [OF ok, of i "?n - 1"] that by simp
    then show ?thesis by (simp add: area_first_def area_end_def)
  qed simp
  have "?b \<le> area_first s (child (tasvir_data s p) 0)"
    using ok False unfolding container_ok_def children_apart_def Let_def by (auto dest!: spec [of _ 0])
  then have "?b \<le> ?e 0" by (simp add: area_first_def area_end_def)
  also have "\<dots> \<le> ?e (?n - 1)" using up False by simp
  finally have b: "?b \<le> ?e (?n - 1)" .
  have "used_end s p = ?e (?n - 1)"
    unfolding used_end_def using False up b by (intro Max_eqI) (auto simp: image_iff)
  then show ?thesis using False by (simp add: last_end_def Let_def)
qed (simp add: last_end_def used_end_def)

lemma strn_eq_refl [simp]: "strn_eq n x x"
  by (induction n arbitrary: x) auto

lemma find_name_first:
  "k < n \<Longrightarrow> strn_eq TASVIR_STRLEN_MAX (read_str s (d_name (child c (i + k)))) nm \<Longrightarrow>
   (\<And>j. j < k \<Longrightarrow> \<not> strn_eq TASVIR_STRLEN_MAX (read_str s (d_name (child c (i + j)))) nm) \<Longrightarrow>
   find_name s c nm n i = Some (child c (i + k))"
proof (induction n arbitrary: i k)
  case (Suc n)
  show ?case
  proof (cases k)
    case 0
    then show ?thesis using Suc.prems by simp
  next
    case (Suc k')
    have "\<not> strn_eq TASVIR_STRLEN_MAX (read_str s (d_name (child c i))) nm" using Suc.prems(3) [of 0] Suc by simp
    moreover have "find_name s c nm n (Suc i) = Some (child c (Suc i + k'))"
      using Suc.prems(1,2) Suc.prems(3) [of "Suc _"] Suc by (intro Suc.IH) auto
    ultimately show ?thesis using Suc by simp
  qed
qed simp

lemma get_by_name_child:
  assumes "names_distinct s p" "i < nr_children s p" "p \<noteq> 0" "rd s (d_type p) = AREA_TYPE_CONTAINER" "rd s (d_h p) \<noteq> 0"
    "rd s (h_d (rd s (d_h p))) \<noteq> 0"
  shows "tasvir_area_get_by_name s p (child_name s p i) = child (tasvir_data s p) i"
proof -
  have "find_name s (tasvir_data s p) (child_name s p i) (nr_children s p) 0 = Some (child (tasvir_data s p) (0 + i))"
    using assms(1,2) by (intro find_name_first) (auto simp: names_distinct_def child_name_def)
  then show ?thesis using assms(3-6) by (simp add: tasvir_area_get_by_name_def nr_children_def)
qed

lemma new_alloc_desc_fails:
  "a_pd desc \<noteq> 0 \<Longrightarrow> alloc_slot desc s = None \<Longrightarrow> new_alloc_desc_owner E desc s = (0, s)"
  by (simp add: new_alloc_desc_owner_def)

lemma alloc_slot_None:
  "alloc_slot desc s = None \<longleftrightarrow>
     (let p = a_pd desc in unat (rd s (d_nr_areas_max p)) \<le> nr_children s p \<or>
      (\<exists>i < nr_children s p. strn_eq TASVIR_STRLEN_MAX (child_name s p i) (desc_name desc)) \<or>
      rd s (l_data (h_diff_log (rd s (d_h p)) 0)) \<le> alloc_header s p (tasvir_data s p) (nr_children s p) + a_len desc)"
proof -
  let ?p = "a_pd desc"
  have "find_name s (tasvir_data s ?p) (desc_name desc) (nr_children s ?p) 0 = None \<longleftrightarrow>
      \<not> (\<exists>i < nr_children s ?p. strn_eq TASVIR_STRLEN_MAX (child_name s ?p i) (desc_name desc))"
    by (auto simp: find_name_None child_name_def)
  then show ?thesis
    by (auto simp: alloc_slot_def Let_def nr_children_def word_le_nat_alt)
qed

end
