(* ===== verification/Tasvir_Sync_External.thy ===== *)
theory Tasvir_Sync_External
  imports Tasvir_Sync_Internal
begin

text \<open>
  \<open>src/sync_external.c\<close> (daemon): the messages of other nodes are applied to the writer copy
  (\<open>tasvir_handle_msg_mem\<close>), local areas are sent to their subscribers (\<open>tasvir_sync_external_area\<close>),
  and the private logs of an area age (\<open>tasvir_rotate_logs\<close>).
\<close>

section \<open>Incoming updates\<close>

definition put_msg :: "('p, 'r, 'n) env \<Rightarrow> ('p, 'r, 'n) tasvir \<Rightarrow> ('p, 'r, 'n) tasvir" where
  "put_msg E = upd_ndata (\<lambda>n. n\<lparr>mp := pool_put E (mp n)\<rparr>)"

definition rw_flags :: "addr \<Rightarrow> u64 \<Rightarrow> u64 \<Rightarrow> ('p, 'r, 'n) tasvir \<Rightarrow> ('p, 'r, 'n) tasvir" where
  "rw_flags hh off_f on_f s = wr_rw (h_flags hh) ((m_rw s (h_flags hh) AND NOT off_f) OR on_f) s"

text \<open>\<open>tasvir_stream_vec_rep(dst, m->line, m->len)\<close>\<close>

definition copy_line :: "tasvir_msg \<Rightarrow> (addr \<Rightarrow> u64) \<Rightarrow> (addr \<Rightarrow> u64)" where
  "copy_line m mem = tasvir_store_vec_rep (\<lambda>i. m_line m ! i) (m_addr m) (unat (m_len m)) mem"

text \<open>The memory part: the lines are logged and written, to both copies while booting.\<close>

definition apply_lines :: "addr \<Rightarrow> tasvir_msg \<Rightarrow> ('p, 'r, 'n) tasvir \<Rightarrow> ('p, 'r, 'n) tasvir" where
  "apply_lines hh m s =
    (if m_addr m = 0 then s
     else (let s = tlog (m_addr m) (m_len m) s;
               s = s\<lparr>m_rw := copy_line m (m_rw s)\<rparr>;
               s = wr_rw (h_last_sync_ext_bytes hh) (m_rw s (h_last_sync_ext_bytes hh) + m_len m) s
           in if tasvir_is_booting s then s\<lparr>m_ro := copy_line m (m_ro s)\<rparr> else s))"

text \<open>
  The last message of an update makes the area active. The condition
  \<open>time_us - last_sync_int_end > 0.5 * sync_int_us\<close> is a comparison of doubles.
\<close>

definition finish_update :: "addr \<Rightarrow> tasvir_msg \<Rightarrow> ('p, 'r, 'n) tasvir \<Rightarrow> ('p, 'r, 'n) tasvir" where
  "finish_update hh m s =
    (if m_last m then
       (let s = rw_flags hh FLAG_EXT_PENDING FLAG_ACTIVE s
        in if tasvir_is_booting s then wr_ro (h_flags hh) (m_ro s (h_flags hh) OR FLAG_ACTIVE) s
           else if 2 * unat (time_us (ndata s) - last_sync_int_end (ndata s)) > unat (sync_int_us (ndata s))
           then rw_flags hh 0 FLAG_EXT_ENQUEUE s else s)
     else s)"

definition tasvir_handle_msg_mem ::
  "('p, 'r, 'n) env \<Rightarrow> tasvir_msg \<Rightarrow> ('p, 'r, 'n) tasvir \<Rightarrow> ('p, 'r, 'n) tasvir" where
  "tasvir_handle_msg_mem E m s =
    (let hh = rd s (d_h (m_d m))
     in if hh = 0 then put_msg E s
        else if has_flag (m_rw s (h_flags hh)) FLAG_EXT_ENQUEUE then
          (case ring_enqueue E (ring_mem_pending (ndata s)) m of
             Some r \<Rightarrow> upd_ndata (\<lambda>n. n\<lparr>ring_mem_pending := r\<rparr>) s
           | None \<Rightarrow> put_msg E (rw_flags hh FLAG_EXT_ENQUEUE FLAG_EXT_IGNORE s))
        else
          (let s = (if m_rw s (h_last_sync_ext_v hh) \<noteq> m_version m
                    then rw_flags hh FLAG_EXT_IGNORE FLAG_EXT_PENDING
                           (wr_rw (h_last_sync_ext_bytes hh) 0 (wr_rw (h_last_sync_ext_v hh) (m_version m) s))
                    else s)
           in if has_flag (m_rw s (h_flags hh)) FLAG_EXT_IGNORE \<or> \<not> has_flag (m_rw s (h_flags hh)) FLAG_EXT_PENDING
              then put_msg E s
              else (let s = (if m_rw s (h_last_sync_ext_bytes hh) \<noteq> m_prev_bytes m
                             then rw_flags hh FLAG_EXT_PENDING FLAG_EXT_IGNORE s else s)
                    in put_msg E (finish_update hh m (apply_lines hh m s)))))"

section \<open>Ageing of the private logs\<close>

text \<open>
  The loop over the vectors of \<open>l1->data\<close> up to \<open>l2->data\<close>. (A pointer that would pass the end of the
  address space ends it.)
\<close>

function merge_log :: "addr \<Rightarrow> addr \<Rightarrow> addr \<Rightarrow> ('p, 'r, 'n) tasvir \<Rightarrow> ('p, 'r, 'n) tasvir" where
  "merge_log ptr ptr_next ptr_last s =
    (if ptr < ptr_last then
       (let val = load8 s (Area_Log ptr) 0;
            s = (if one_mask_of val \<noteq> 0
                 then store_units (Area_Log ptr) 0 (replicate 8 0)
                        (store_units (Area_Log ptr_next) 0 (or8 val (load8 s (Area_Log ptr_next) 0)) s)
                 else s)
        in if ptr + 64 < ptr then s else merge_log (ptr + 64) (ptr_next + 64) ptr_last s)
     else s)"
  by pat_completeness auto
termination
  by (relation "measure (\<lambda>(ptr, ptr_next, ptr_last, s). unat ptr_last - unat ptr)")
    (auto simp: word_less_nat_alt word_le_nat_alt unat_plus_if' split: if_splits)

declare merge_log.simps [simp del]

definition rotate_delta_us :: "nat \<Rightarrow> u64" where
  "rotate_delta_us i = [0, 5 * S2US, 21 * S2US] ! i"

definition rotate_log :: "addr \<Rightarrow> nat \<Rightarrow> ('p, 'r, 'n) tasvir \<Rightarrow> ('p, 'r, 'n) tasvir" where
  "rotate_log d i s =
    (let hh = rd s (d_h d); l1 = h_diff_log hh i; l2 = h_diff_log hh (i + 1)
     in if rd s (l_version_end l1) > rd s (l_version_start l1) \<and> time_us (ndata s) - rd s (l_start_us l1) > rotate_delta_us i
        then (let s = merge_log (rd s (l_data l1)) (rd s (l_data l2)) (rd s (l_data l2)) s;
                  v = rd s (l_version_end l1); s = wr (l_version_start l1) v (wr (l_version_end l2) v s);
                  t = rd s (l_end_us l1)
              in wr (l_start_us l1) t (wr (l_end_us l2) t s))
        else s)"

definition tasvir_rotate_logs :: "addr \<Rightarrow> ('p, 'r, 'n) tasvir \<Rightarrow> ('p, 'r, 'n) tasvir" where
  "tasvir_rotate_logs d s = fold (rotate_log d) (rev [1..<TASVIR_NR_AREA_LOGS - 1]) s"

section \<open>Outgoing updates\<close>

text \<open>The least version a subscriber has.\<close>

fun version_min :: "('p, 'r, 'n) tasvir \<Rightarrow> addr \<Rightarrow> nat \<Rightarrow> nat \<Rightarrow> u64 \<Rightarrow> u64" where
  "version_min s hh 0 i v = v"
| "version_min s hh (Suc n) i v =
    version_min s hh n (Suc i)
      (if rd s (h_user_node hh i) \<noteq> 0 \<and> rd s (rd s (h_user_version hh i)) < v then rd s (rd s (h_user_version hh i)) else v)"

text \<open>The first log from \<open>pivot\<close> on that every subscriber has seen and that is older than the last round.\<close>

fun find_pivot :: "('p, 'r, 'n) tasvir \<Rightarrow> addr \<Rightarrow> u64 \<Rightarrow> nat \<Rightarrow> nat \<Rightarrow> nat" where
  "find_pivot s hh v 0 pivot = pivot"
| "find_pivot s hh v (Suc n) pivot =
    (if last_sync_ext_end (ndata s) > rd s (l_end_us (h_diff_log hh pivot)) \<and> v \<ge> rd s (l_version_end (h_diff_log hh pivot))
     then pivot else find_pivot s hh v n (Suc pivot))"

definition tasvir_sync_external_area ::
  "('p, 'r, 'n) env \<Rightarrow> addr \<Rightarrow> ('p, 'r, 'n) tasvir \<Rightarrow> (u64 \<times> ('p, 'r, 'n) tasvir) option" where
  "tasvir_sync_external_area E d s =
    (let hh = rd s (d_h d)
     in if d = 0 \<or> rd s (d_owner d) = 0 \<or> \<not> tasvir_area_is_local s d \<or> rd s (l_version_end (h_diff_log hh 0)) = 0
        then Some (0, s)
        else if t_time (my_tdata s) - m_ro s (h_last_sync_ext_us hh) < rd s (d_sync_ext_us d) \<or>
                has_flag (m_ro s (h_flags hh)) FLAG_SLEEPING
        then Some (0, s)
        else do {
          let s = wr_ro (h_last_sync_ext_bytes hh) 0 (wr_ro (h_last_sync_ext_us hh) (t_time (my_tdata s)) s);
          let init = (is_root s \<and> (d = root_desc s \<or> d = node_desc s) \<and> node_init_req (ndata s));
          let first = (if init then TASVIR_NR_AREA_LOGS - 1 else 0);
          let v = version_min s hh (unat (rd s (h_nr_users hh))) 0 (- 1);
          let pivot = find_pivot s hh v (TASVIR_NR_AREA_LOGS - first) first;
          if pivot = 0 then Some (0, s)
          else do {
            (bytes_changed, s) \<leftarrow> tasvir_sync_parse_log E d 0 (rd s (d_offset_log_end d)) pivot s;
            let s = (if bytes_changed \<noteq> 0
                     then tasvir_rotate_logs d
                            (upd_stats (\<lambda>st. st\<lparr>esync_changed_bytes := esync_changed_bytes st + bytes_changed\<rparr>) s)
                     else s);
            let n = rd s (d_offset_log_end d);
            Some (bytes_changed, upd_stats (\<lambda>st. st\<lparr>esync_processed_bytes := esync_processed_bytes st + n\<rparr>) s) } })"

text \<open>The loop that lowers the interval of the external synchronisation to that of the subscribed areas.\<close>

fun set_node_intervals :: "u64 \<Rightarrow> nat \<Rightarrow> nat \<Rightarrow> ('p, 'r, 'n) tasvir \<Rightarrow> ('p, 'r, 'n) tasvir" where
  "set_node_intervals us 0 i s = s"
| "set_node_intervals us (Suc n) i s =
    (let nd = rd s (n_areas_d (node s) i);
         s = (if rd s (d_type nd) = AREA_TYPE_NODE then wr (d_sync_ext_us nd) us (tlog (d_sync_ext_us nd) 8 s) else s)
     in set_node_intervals us n (Suc i) s)"

fun update_intervals :: "nat \<Rightarrow> nat \<Rightarrow> ('p, 'r, 'n) tasvir \<Rightarrow> ('p, 'r, 'n) tasvir" where
  "update_intervals 0 i s = s"
| "update_intervals (Suc n) i s =
    (let d = rd s (n_areas_d (node s) i)
     in if rd s (d_sync_ext_us d) \<ge> sync_ext_us (ndata s) then update_intervals n (Suc i) s
        else (let us = (if tasvir_area_is_local s d then rd s (d_sync_ext_us d) div 2 else rd s (d_sync_ext_us d));
                  s = upd_ndata (\<lambda>n. n\<lparr>sync_ext_us := us\<rparr>) s;
                  s = (if is_root s
                       then set_node_intervals us (unat (rd s (n_nr_areas (node s)))) 0
                              (wr (d_sync_ext_us (root_desc s)) us (tlog (d_sync_ext_us (root_desc s)) 8 s))
                       else s)
              in update_intervals n (Suc i) s))"

definition tasvir_sync_external ::
  "('p, 'r, 'n) env \<Rightarrow> ('p, 'r, 'n) tasvir \<Rightarrow> (int \<times> ('p, 'r, 'n) tasvir) option" where
  "tasvir_sync_external E s =
    do { let s = upd_ndata (\<lambda>n. n\<lparr>last_sync_ext_start := time_us n\<rparr>) s;
         let s = update_intervals (unat (rd s (n_nr_areas (node s)))) 0 s;
         (retval, s) \<leftarrow> tasvir_area_walk (tasvir_sync_external_area E) (root_desc s) s;
         let s = upd_ndata (\<lambda>n. n\<lparr>node_init_req := False\<rparr>) s;
         let (t, s) = tasvir_time_us E s;
         let s = upd_ndata (\<lambda>n. n\<lparr>time_us := t, last_sync_ext_end := t\<rparr>) s;
         let us = last_sync_ext_end (ndata s) - last_sync_ext_start (ndata s);
         let s = upd_stats (\<lambda>st. st\<lparr>esync_cnt := esync_cnt st + 1, esync_us := esync_us st + us\<rparr>) s;
         Some (if retval > 0 then 0 else - 1, s) }"

end
