(* ===== verification/Tasvir_Stream.thy ===== *)
theory Tasvir_Stream
  imports Tasvir_Isync Tasvir_Sync_External
begin

text \<open>
  Memory updates between nodes, proved: the messages \<open>tasvir_msg_mem_generate\<close> puts on the ring are a
  stream that covers the range in order, and a node that handles such a stream with
  \<open>tasvir_handle_msg_mem\<close> ends with the sender's words in its writer copy; a lost message makes it
  ignore the rest of the stream.
\<close>

section \<open>Streams\<close>

text \<open>
  \<open>mem_stream d v is_last mem addr n prev ms\<close>: the messages \<open>ms\<close> carry the \<open>n\<close> bytes of \<open>mem\<close> from \<open>addr\<close>
  on, in order, in chunks of at most 21 cache lines; \<open>prev\<close> bytes of this version came before them.
\<close>

fun mem_stream :: "addr \<Rightarrow> u64 \<Rightarrow> bool \<Rightarrow> (addr \<Rightarrow> u64) \<Rightarrow> addr \<Rightarrow> u64 \<Rightarrow> u64 \<Rightarrow> tasvir_msg list \<Rightarrow> bool" where
  "mem_stream d v is_last mem p n prev [] \<longleftrightarrow> n = 0"
| "mem_stream d v is_last mem p n prev (m # ms) \<longleftrightarrow> n \<noteq> 0 \<and> m_type m = MSG_MEM \<and> m_d m = d \<and> m_version m = v \<and>
     m_addr m = p \<and> m_len m = min 1344 n \<and> m_prev_bytes m = prev \<and> m_pkt_len m = ucast (m_len m) + 128 \<and>
     m_line m = stream_line (\<lambda>i. mem (p + 8 * of_nat i)) (unat (m_len m)) \<and> m_last m = (is_last \<and> n - m_len m = 0) \<and>
     mem_stream d v is_last mem (p + m_len m) (n - m_len m) (prev + m_len m) ms"

text \<open>
  What the code relies on of DPDK: a ring is a queue (\<open>content\<close>), and the device takes a prefix of what
  it is offered and sends it in order (\<open>sent\<close>).
\<close>

definition fifo_env ::
  "('p, 'r, 'n) env \<Rightarrow> ('r \<Rightarrow> tasvir_msg list) \<Rightarrow> ('n \<Rightarrow> tasvir_msg list) \<Rightarrow> bool" where
  "fifo_env E content sent \<longleftrightarrow>
     (\<forall>r ms r'. ring_enqueue_bulk E r ms = Some r' \<longrightarrow> content r' = content r @ ms) \<and>
     (\<forall>r n ms r'. ring_dequeue_burst E r n = (ms, r') \<longrightarrow> content r = ms @ content r') \<and>
     (\<forall>r. ring_empty E r \<longleftrightarrow> content r = []) \<and>
     (\<forall>n ms k n'. eth_tx_burst E n ms = (k, n') \<longrightarrow> k \<le> length ms \<and> sent n' = sent n @ take k ms)"

text \<open>The messages sent or waiting to be sent.\<close>

definition outgoing :: "('r \<Rightarrow> tasvir_msg list) \<Rightarrow> ('n \<Rightarrow> tasvir_msg list) \<Rightarrow> ('p, 'r, 'n) tasvir \<Rightarrow> tasvir_msg list" where
  "outgoing content sent s = sent (nic s) @ content (ring_ext_tx (ndata s))"

lemma tx_burst_all_sent:
  fixes E :: "('p, 'r, 'n) env"
  assumes fifo: "fifo_env E content sent" and run: "tx_burst_all E n ms = Some n'"
  shows "sent n' = sent n @ ms"
proof -
  have "fifo_env E content sent \<longrightarrow> sent n' = sent n @ ms"
  proof (rule tx_burst_all.raw_induct [where P = "\<lambda>E n ms n'. fifo_env E content sent \<longrightarrow> sent n' = sent n @ ms", OF _ run])
    fix f and E :: "('p, 'r, 'n) env" and n ms n'
    assume IH: "\<And>E n ms n'. f E n ms = Some n' \<Longrightarrow> fifo_env E content sent \<longrightarrow> sent n' = sent n @ ms"
      and step: "(let (retval, n) = eth_tx_burst E n ms; ms = drop retval ms in if ms \<noteq> [] then f E n ms else Some n) = Some n'"
    obtain k n1 where k: "eth_tx_burst E n ms = (k, n1)" by fastforce
    show "fifo_env E content sent \<longrightarrow> sent n' = sent n @ ms"
    proof
      assume F: "fifo_env E content sent"
      then have s: "sent n1 = sent n @ take k ms" using k by (auto simp: fifo_env_def)
      show "sent n' = sent n @ ms"
      proof (cases "drop k ms = []")
        case True
        then show ?thesis using step k s by simp
      next
        case False
        then have "f E n1 (drop k ms) = Some n'" using step k by simp
        then show ?thesis using IH F s by fastforce
      qed
    qed
  qed
  with fifo show ?thesis by blast
qed

lemma port_tx_loop_out:
  fixes E :: "('p, 'r, 'n) env"
  assumes fifo: "fifo_env E content sent" and run: "port_tx_loop E r n = Some y"
  shows "sent (snd y) @ content (fst y) = sent n @ content r"
proof -
  let ?P = "\<lambda>E r n y. fifo_env E content sent \<longrightarrow> sent (snd y) @ content (fst y) = sent n @ content r"
  have "?P E r n y"
  proof (rule port_tx_loop.raw_induct [where P = ?P, OF _ run])
    fix f and E :: "('p, 'r, 'n) env" and r n y
    assume IH: "\<And>E r n y. f E r n = Some y \<Longrightarrow> ?P E r n y"
      and step: "(if ring_empty E r then Some (r, n)
        else let (m, r) = ring_dequeue_burst E r TASVIR_PKT_BURST in Option.bind (tx_burst_all E n m) (f E r)) = Some y"
    obtain ms r1 where d: "ring_dequeue_burst E r TASVIR_PKT_BURST = (ms, r1)" by fastforce
    show "?P E r n y"
    proof
      assume F: "fifo_env E content sent"
      then have c: "content r = ms @ content r1" using d by (auto simp: fifo_env_def)
      show "sent (snd y) @ content (fst y) = sent n @ content r"
      proof (cases "ring_empty E r")
        case False
        then obtain n1 where n1: "tx_burst_all E n ms = Some n1" "f E r1 n1 = Some y"
          using step d by (auto split: Option.bind_splits)
        then show ?thesis using IH [OF n1(2)] F tx_burst_all_sent [OF F n1(1)] c by simp
      qed (use step in auto)
    qed
  qed
  with fifo show ?thesis by blast
qed

text \<open>What sending leaves alone.\<close>

definition same_mem :: "('p, 'r, 'n) tasvir \<Rightarrow> ('p, 'r, 'n) tasvir \<Rightarrow> bool" where
  "same_mem s s' \<longleftrightarrow> m_ro s' = m_ro s \<and> m_rw s' = m_rw s \<and> m_log s' = m_log s \<and> va_rw s' = va_rw s \<and>
     thread s' = thread s \<and> memcast_tid (ndata s') = memcast_tid (ndata s) \<and> mac_addr (ndata s') = mac_addr (ndata s)"

lemma same_mem_refl [simp]: "same_mem s s" by (simp add: same_mem_def)
lemma same_mem_trans: "same_mem s t \<Longrightarrow> same_mem t u \<Longrightarrow> same_mem s u" by (simp add: same_mem_def)

lemma port_tx_out:
  assumes "fifo_env E content sent" "tasvir_service_port_tx E s = Some s'"
  shows "same_mem s s' \<and> outgoing content sent s' = outgoing content sent s"
  using assms port_tx_loop_out [of E content sent "ring_ext_tx (ndata s)" "nic s"]
  by (auto simp: tasvir_service_port_tx_def same_mem_def outgoing_def split: Option.bind_splits)

lemma get_bulk_wait_out:
  fixes E :: "('p, 'r, 'n) env"
  assumes fifo: "fifo_env E content sent" and run: "get_bulk_wait E s = Some s'"
  shows "same_mem s s' \<and> outgoing content sent s' = outgoing content sent s"
proof -
  let ?P = "\<lambda>E s s'. fifo_env E content sent \<longrightarrow> same_mem s s' \<and> outgoing content sent s' = outgoing content sent s"
  have "?P E s s'"
  proof (rule get_bulk_wait.raw_induct [where P = ?P, OF _ run])
    fix f and E :: "('p, 'r, 'n) env" and s s'
    assume IH: "\<And>E s s'. f E s = Some s' \<Longrightarrow> ?P E s s'"
      and step: "(case pool_get_bulk E (mp (ndata s)) TASVIR_PKT_BURST of
         None \<Rightarrow> Option.bind (tasvir_service_port_tx E s) (f E)
       | Some p \<Rightarrow> Some (s\<lparr>ndata := (ndata s)\<lparr>mp := p\<rparr>\<rparr>)) = Some s'"
    show "?P E s s'"
    proof
      assume F: "fifo_env E content sent"
      show "same_mem s s' \<and> outgoing content sent s' = outgoing content sent s"
      proof (cases "pool_get_bulk E (mp (ndata s)) TASVIR_PKT_BURST")
        case None
        then obtain s1 where s1: "tasvir_service_port_tx E s = Some s1" "f E s1 = Some s'"
          using step by (auto split: Option.bind_splits)
        then show ?thesis using port_tx_out [OF F s1(1)] IH [OF s1(2)] F same_mem_trans by metis
      next
        case (Some p)
        then show ?thesis using step by (auto simp: same_mem_def outgoing_def)
      qed
    qed
  qed
  with fifo show ?thesis by blast
qed

lemma enqueue_bulk_wait_out:
  fixes E :: "('p, 'r, 'n) env"
  assumes fifo: "fifo_env E content sent" and run: "enqueue_bulk_wait E ms s = Some s'"
  shows "same_mem s s' \<and> outgoing content sent s' = outgoing content sent s @ ms"
proof -
  let ?P = "\<lambda>E ms s s'. fifo_env E content sent \<longrightarrow> same_mem s s' \<and> outgoing content sent s' = outgoing content sent s @ ms"
  have "?P E ms s s'"
  proof (rule enqueue_bulk_wait.raw_induct [where P = ?P, OF _ run])
    fix f and E :: "('p, 'r, 'n) env" and ms s s'
    assume IH: "\<And>E ms s s'. f E ms s = Some s' \<Longrightarrow> ?P E ms s s'"
      and step: "(case ring_enqueue_bulk E (ring_ext_tx (ndata s)) ms of
         None \<Rightarrow> Option.bind (tasvir_service_port_tx E s) (f E ms)
       | Some r \<Rightarrow> Some (s\<lparr>ndata := (ndata s)\<lparr>ring_ext_tx := r\<rparr>\<rparr>)) = Some s'"
    show "?P E ms s s'"
    proof
      assume F: "fifo_env E content sent"
      show "same_mem s s' \<and> outgoing content sent s' = outgoing content sent s @ ms"
      proof (cases "ring_enqueue_bulk E (ring_ext_tx (ndata s)) ms")
        case None
        then obtain s1 where s1: "tasvir_service_port_tx E s = Some s1" "f E ms s1 = Some s'"
          using step by (auto split: Option.bind_splits)
        then show ?thesis using port_tx_out [OF F s1(1)] IH [OF s1(2)] F same_mem_trans by metis
      next
        case (Some r)
        then have "content r = content (ring_ext_tx (ndata s)) @ ms" using F by (simp add: fifo_env_def)
        then show ?thesis using step Some by (auto simp: same_mem_def outgoing_def)
      qed
    qed
  qed
  with fifo show ?thesis by blast
qed

section \<open>The sender\<close>

lemma mem_msg_fields:
  fixes s :: "('p, 'r, 'n) tasvir"
  assumes "mem_msg d v is_last p n prev s = (m, s')"
  shows "same_mem s s'" "nic s' = nic s" "ring_ext_tx (ndata s') = ring_ext_tx (ndata s)"
    "m_len m = min 1344 n" "n \<noteq> 0 \<Longrightarrow> mem_stream d v is_last mem p n prev (m # ms) \<longleftrightarrow>
       m_line m = stream_line (\<lambda>i. mem (p + 8 * of_nat i)) (unat (m_len m)) \<and>
       mem_stream d v is_last mem (p + m_len m) (n - m_len m) (prev + m_len m) ms"
    "m_line m = stream_line (\<lambda>i. m_ro s (p + 8 * of_nat i)) (unat (m_len m))"
proof -
  have m: "m = fst (mem_msg d v is_last p n prev s)" "s' = snd (mem_msg d v is_last p n prev s)" using assms by simp_all
  show "same_mem s s'" "nic s' = nic s" "ring_ext_tx (ndata s') = ring_ext_tx (ndata s)"
    by (simp_all add: m(2) mem_msg_def tasvir_populate_msg_nethdr_def Let_def same_mem_def)
  show len: "m_len m = min 1344 n" by (simp add: m(1))
  have c: "(of_nat (TASVIR_CACHELINE_BYTES * TASVIR_NR_CACHELINES_PER_MSG) :: u64) = 1344"
    by (simp add: TASVIR_CACHELINE_BYTES_def TASVIR_NR_CACHELINES_PER_MSG_def)
  show "n \<noteq> 0 \<Longrightarrow> mem_stream d v is_last mem p n prev (m # ms) \<longleftrightarrow>
       m_line m = stream_line (\<lambda>i. mem (p + 8 * of_nat i)) (unat (m_len m)) \<and>
       mem_stream d v is_last mem (p + m_len m) (n - m_len m) (prev + m_len m) ms"
    by (auto simp: m(1) mem_msg_def tasvir_populate_msg_nethdr_def Let_def c msg_mem_line_off_def
        simp del: of_nat_mult)
  show "m_line m = stream_line (\<lambda>i. m_ro s (p + 8 * of_nat i)) (unat (m_len m))"
    by (simp add: m(1) mem_msg_def tasvir_populate_msg_nethdr_def Let_def c del: of_nat_mult)
qed

lemma mem_generate_loop_out:
  fixes s :: "('p, 'r, 'n) tasvir"
  shows "mem_generate_loop E d v is_last p n prev acc s = Some (prev', acc', s') \<Longrightarrow> fifo_env E content sent \<Longrightarrow>
    \<exists>ms. mem_stream d v is_last (m_ro s) p n prev ms \<and> prev' = prev + n \<and> same_mem s s' \<and>
      outgoing content sent s' @ acc' = outgoing content sent s @ acc @ ms"
proof (induction E d v is_last p n prev acc s arbitrary: prev' acc' s' rule: mem_generate_loop.induct)
  case (1 E d v is_last p n prev acc s)
  show ?case
  proof (cases "n = 0")
    case True
    with 1 have "prev' = prev" "acc' = acc" "s' = s" by (simp_all add: mem_generate_loop.simps)
    with True show ?thesis by (intro exI [of _ "[]"]) simp
  next
    case False
    obtain m s1 where m: "mem_msg d v is_last p n prev s = (m, s1)" by fastforce
    note f = mem_msg_fields [OF m]
    have ro: "m_ro s1 = m_ro s" and out1: "outgoing content sent s1 = outgoing content sent s"
      using f(1-3) by (simp_all add: same_mem_def outgoing_def)
    define acc1 where "acc1 = acc @ [m]"
    have run: "mem_generate_loop E d v is_last p n prev acc s =
      (if length acc1 \<ge> TASVIR_PKT_BURST then
         Option.bind (enqueue_bulk_wait E acc1 s1) (\<lambda>s. Option.bind (get_bulk_wait E s)
           (mem_generate_loop E d v is_last (p + m_len m) (n - m_len m) (prev + m_len m) []))
       else mem_generate_loop E d v is_last (p + m_len m) (n - m_len m) (prev + m_len m) acc1 s1)"
      using False by (subst mem_generate_loop.simps) (simp add: m Let_def acc1_def)
    have cont: "\<exists>ms. mem_stream d v is_last (m_ro s) p n prev ms \<and> prev' = prev + n \<and> same_mem s s' \<and>
      outgoing content sent s' @ acc' = outgoing content sent s @ acc @ ms"
      if "\<exists>ms. mem_stream d v is_last (m_ro s2) (p + m_len m) (n - m_len m) (prev + m_len m) ms \<and>
        prev' = prev + m_len m + (n - m_len m) \<and> same_mem s2 s' \<and>
        outgoing content sent s' @ acc' = outgoing content sent s2 @ acc2 @ ms"
        "same_mem s1 s2" "outgoing content sent s2 @ acc2 = outgoing content sent s1 @ acc1" for s2 acc2
    proof -
      from that(1) obtain ms where ms: "mem_stream d v is_last (m_ro s2) (p + m_len m) (n - m_len m) (prev + m_len m) ms"
        "prev' = prev + n" "same_mem s2 s'" "outgoing content sent s' @ acc' = outgoing content sent s2 @ acc2 @ ms" by auto
      have "m_ro s2 = m_ro s" using that(2) ro by (simp add: same_mem_def)
      with ms(1) f(5) [OF False, of "m_ro s" ms] f(6) have "mem_stream d v is_last (m_ro s) p n prev (m # ms)" by simp
      moreover have "outgoing content sent s' @ acc' = outgoing content sent s @ acc @ m # ms"
        using ms(4) that(3) out1 by (metis acc1_def append.assoc append_Cons append_Nil)
      moreover have "same_mem s s'" using f(1) that(2) ms(3) same_mem_trans by blast
      ultimately show ?thesis using ms(2) by blast
    qed
    show ?thesis
    proof (cases "length acc1 \<ge> TASVIR_PKT_BURST")
      case True
      then obtain s2 s3 where s3: "enqueue_bulk_wait E acc1 s1 = Some s2" "get_bulk_wait E s2 = Some s3"
        "mem_generate_loop E d v is_last (p + m_len m) (n - m_len m) (prev + m_len m) [] s3 = Some (prev', acc', s')"
        using "1.prems" run by (auto split: Option.bind_splits)
      have "same_mem s1 s3" "outgoing content sent s3 @ [] = outgoing content sent s1 @ acc1"
        using enqueue_bulk_wait_out [OF "1.prems"(2) s3(1)] get_bulk_wait_out [OF "1.prems"(2) s3(2)] same_mem_trans by auto
      then show ?thesis
        using cont [of s3 "[]"] "1.IH"(1) [OF False refl m [symmetric] refl refl refl refl
            True [unfolded acc1_def] s3(1) [unfolded acc1_def] s3(2) s3(3) "1.prems"(2)] by simp
    next
      case few: False
      then have "mem_generate_loop E d v is_last (p + m_len m) (n - m_len m) (prev + m_len m) (acc @ [m]) s1 = Some (prev', acc', s')"
        using "1.prems" run by (simp add: acc1_def)
      then show ?thesis
        using cont [of s1 acc1] "1.IH"(2) [OF False refl m [symmetric] refl refl refl refl
            few [unfolded acc1_def] _ "1.prems"(2)] by (simp add: acc1_def)
    qed
  qed
qed

section \<open>Sending returns\<close>

text \<open>
  \<open>rte_eth_tx_burst\<close> may take nothing, and the pool may still be short of a burst after a transmission; the
  loops of the code then try again. They end on a device and a pool that are fair: a device that is
  offered the same burst again and again takes some of it at last, and when the buffers that are sent or
  that other threads give back are collected again and again (\<open>tx_free\<close>), the pool has a burst at last. How many times that
  takes is not bounded. Of the rings: one with messages gives at least one, and an empty one has room for a burst.
\<close>

definition fair_tx :: "('p, 'r, 'n) env \<Rightarrow> bool" where
  "fair_tx E \<longleftrightarrow> (\<forall>n ms. ms \<noteq> [] \<longrightarrow> (\<exists>k. 0 < fst (eth_tx_burst E (((\<lambda>n. snd (eth_tx_burst E n ms)) ^^ k) n) ms)))"

definition fair_pool :: "('p, 'r, 'n) env \<Rightarrow> bool" where
  "fair_pool E \<longleftrightarrow> (\<forall>n p. \<exists>k. pool_get_bulk E ((tx_free E n ^^ k) p) TASVIR_PKT_BURST \<noteq> None)"

definition fair_env :: "('p, 'r, 'n) env \<Rightarrow> ('r \<Rightarrow> tasvir_msg list) \<Rightarrow> bool" where
  "fair_env E content \<longleftrightarrow> fair_tx E \<and> fair_pool E \<and>
     (\<forall>r. content r \<noteq> [] \<longrightarrow> fst (ring_dequeue_burst E r TASVIR_PKT_BURST) \<noteq> []) \<and>
     (\<forall>r ms. content r = [] \<longrightarrow> length ms \<le> TASVIR_PKT_BURST \<longrightarrow> ring_enqueue_bulk E r ms \<noteq> None)"

lemma tx_burst_all_tries:
  assumes rest: "\<And>n k. 0 < k \<Longrightarrow> drop k ms \<noteq> [] \<Longrightarrow> \<exists>n'. tx_burst_all E n (drop k ms) = Some n'" and ms: "ms \<noteq> []"
  shows "0 < fst (eth_tx_burst E (((\<lambda>n. snd (eth_tx_burst E n ms)) ^^ k) n) ms) \<Longrightarrow> \<exists>n'. tx_burst_all E n ms = Some n'"
proof (induction k arbitrary: n)
  case (Suc k)
  obtain j n1 where j: "eth_tx_burst E n ms = (j, n1)" by fastforce
  show ?case
  proof (cases "j = 0")
    case True
    then have "tx_burst_all E n ms = tx_burst_all E n1 ms" using ms by (subst tx_burst_all.simps) (simp add: j)
    moreover have "\<exists>n'. tx_burst_all E n1 ms = Some n'" using Suc.prems j by (intro Suc.IH) (simp add: funpow_Suc_right del: funpow.simps)
    ultimately show ?thesis by simp
  next
    case False
    then show ?thesis using rest [of j n1] by (subst tx_burst_all.simps) (auto simp: j)
  qed
next
  case 0
  obtain j n1 where j: "eth_tx_burst E n ms = (j, n1)" by fastforce
  then show ?case using 0 rest [of j n1] by (subst tx_burst_all.simps) (auto simp: j)
qed

lemma tx_burst_all_returns:
  assumes "fair_tx E"
  shows "\<exists>n'. tx_burst_all E n ms = Some n'"
proof (induction "length ms" arbitrary: n ms rule: less_induct)
  case less
  show ?case
  proof (cases "ms = []")
    case True
    then show ?thesis by (subst tx_burst_all.simps) (simp add: split_def)
  next
    case False
    then obtain k where k: "0 < fst (eth_tx_burst E (((\<lambda>n. snd (eth_tx_burst E n ms)) ^^ k) n) ms)"
      using assms by (auto simp: fair_tx_def)
    show ?thesis by (rule tx_burst_all_tries [OF _ False k]) (rule less, use False in simp)
  qed
qed

lemma port_tx_loop_returns:
  assumes "fifo_env E content sent" "fair_env E content"
  shows "\<exists>r' n'. port_tx_loop E r n = Some (r', n') \<and> content r' = []"
proof (induction "length (content r)" arbitrary: r n rule: less_induct)
  case less
  show ?case
  proof (cases "ring_empty E r")
    case True
    then show ?thesis using assms(1) by (subst port_tx_loop.simps) (simp add: fifo_env_def)
  next
    case False
    obtain ms r1 where d: "ring_dequeue_burst E r TASVIR_PKT_BURST = (ms, r1)" by fastforce
    have "fair_tx E" using assms(2) by (simp add: fair_env_def)
    then obtain n1 where n1: "tx_burst_all E n ms = Some n1" using tx_burst_all_returns [of E n ms] by blast
    have "content r = ms @ content r1" "content r \<noteq> []" using assms(1) d False by (auto simp: fifo_env_def)
    moreover have "fst (ring_dequeue_burst E r TASVIR_PKT_BURST) \<noteq> []" using assms(2) calculation(2) by (simp add: fair_env_def)
    then have "ms \<noteq> []" unfolding d by simp
    ultimately have "\<exists>r' n'. port_tx_loop E r1 n1 = Some (r', n') \<and> content r' = []" by (intro less) auto
    then show ?thesis using False by (subst port_tx_loop.simps) (simp add: d n1)
  qed
qed

lemma port_tx_returns:
  assumes "fifo_env E content sent" "fair_env E content"
  shows "\<exists>s'. tasvir_service_port_tx E s = Some s' \<and> content (ring_ext_tx (ndata s')) = []"
  using port_tx_loop_returns [OF assms, of "ring_ext_tx (ndata s)" "nic s"]
  by (auto simp: tasvir_service_port_tx_def)

text \<open>With nothing to send, a call only collects buffers.\<close>

lemma port_tx_idle:
  assumes "fifo_env E content sent" "content (ring_ext_tx (ndata s)) = []"
  shows "tasvir_service_port_tx E s = Some (s\<lparr>ndata := (ndata s)\<lparr>mp := tx_free E (nic s) (mp (ndata s))\<rparr>\<rparr>)"
proof -
  have "ring_empty E (ring_ext_tx (ndata s))" using assms by (simp add: fifo_env_def)
  then have "port_tx_loop E (ring_ext_tx (ndata s)) (nic s) = Some (ring_ext_tx (ndata s), nic s)" by (subst port_tx_loop.simps) simp
  then show ?thesis by (simp add: tasvir_service_port_tx_def)
qed

lemma get_bulk_wait_idle:
  assumes fifo: "fifo_env E content sent"
  shows "content (ring_ext_tx (ndata s)) = [] \<Longrightarrow>
    pool_get_bulk E ((tx_free E (nic s) ^^ k) (mp (ndata s))) TASVIR_PKT_BURST \<noteq> None \<Longrightarrow> \<exists>s'. get_bulk_wait E s = Some s'"
proof (induction k arbitrary: s)
  case 0
  then show ?case by (subst get_bulk_wait.simps) auto
next
  case (Suc k)
  show ?case
  proof (cases "pool_get_bulk E (mp (ndata s)) TASVIR_PKT_BURST")
    case None
    let ?t = "s\<lparr>ndata := (ndata s)\<lparr>mp := tx_free E (nic s) (mp (ndata s))\<rparr>\<rparr>"
    have "get_bulk_wait E s = get_bulk_wait E ?t"
      using None port_tx_idle [OF fifo Suc.prems(1)] by (subst get_bulk_wait.simps) simp
    moreover have "\<exists>s'. get_bulk_wait E ?t = Some s'" using Suc.prems by (intro Suc.IH) (simp_all add: funpow_Suc_right del: funpow.simps)
    ultimately show ?thesis by simp
  next
    case (Some p)
    then show ?thesis by (subst get_bulk_wait.simps) simp
  qed
qed

lemma get_bulk_wait_returns:
  assumes "fifo_env E content sent" "fair_env E content"
  shows "\<exists>s'. get_bulk_wait E s = Some s'"
proof (cases "pool_get_bulk E (mp (ndata s)) TASVIR_PKT_BURST")
  case None
  obtain s1 where s1: "tasvir_service_port_tx E s = Some s1" "content (ring_ext_tx (ndata s1)) = []"
    using port_tx_returns [OF assms] by blast
  obtain k where "pool_get_bulk E ((tx_free E (nic s1) ^^ k) (mp (ndata s1))) TASVIR_PKT_BURST \<noteq> None"
    using assms(2) unfolding fair_env_def fair_pool_def by blast
  then have "\<exists>s'. get_bulk_wait E s1 = Some s'" by (rule get_bulk_wait_idle [OF assms(1) s1(2)])
  then show ?thesis using None s1(1) by (subst get_bulk_wait.simps) simp
next
  case (Some p)
  then show ?thesis by (subst get_bulk_wait.simps) simp
qed

lemma enqueue_bulk_wait_returns:
  assumes "fifo_env E content sent" "fair_env E content" "length ms \<le> TASVIR_PKT_BURST"
  shows "\<exists>s'. enqueue_bulk_wait E ms s = Some s'"
proof -
  have now: "\<exists>s'. enqueue_bulk_wait E ms s = Some s'" if "ring_enqueue_bulk E (ring_ext_tx (ndata s)) ms \<noteq> None" for s
    using that by (subst enqueue_bulk_wait.simps) auto
  show ?thesis
  proof (cases "ring_enqueue_bulk E (ring_ext_tx (ndata s)) ms")
    case None
    obtain s1 where s1: "tasvir_service_port_tx E s = Some s1" "content (ring_ext_tx (ndata s1)) = []"
      using port_tx_returns [OF assms(1,2)] by blast
    then have "ring_enqueue_bulk E (ring_ext_tx (ndata s1)) ms \<noteq> None" using assms(2,3) by (auto simp: fair_env_def)
    then show ?thesis using None s1(1) now by (subst enqueue_bulk_wait.simps) simp
  qed (use now in auto)
qed

lemma mem_generate_loop_returns:
  fixes s :: "('p, 'r, 'n) tasvir"
  shows "fifo_env E content sent \<Longrightarrow> fair_env E content \<Longrightarrow> length acc < TASVIR_PKT_BURST \<Longrightarrow>
    \<exists>prev' acc' s'. mem_generate_loop E d v is_last p n prev acc s = Some (prev', acc', s') \<and> length acc' < TASVIR_PKT_BURST"
proof (induction E d v is_last p n prev acc s rule: mem_generate_loop.induct)
  case (1 E d v is_last p n prev acc s)
  note env = "1.prems"(1,2)
  show ?case
  proof (cases "n = 0")
    case True
    then show ?thesis using "1.prems"(3) by (simp add: mem_generate_loop.simps)
  next
    case False
    obtain m s1 where m: "mem_msg d v is_last p n prev s = (m, s1)" by fastforce
    have len: "length (acc @ [m]) \<le> TASVIR_PKT_BURST" using "1.prems"(3) by simp
    show ?thesis
    proof (cases "TASVIR_PKT_BURST \<le> length (acc @ [m])")
      case True
      obtain s2 where s2: "enqueue_bulk_wait E (acc @ [m]) s1 = Some s2" using enqueue_bulk_wait_returns [OF env len] by blast
      obtain s3 where s3: "get_bulk_wait E s2 = Some s3" using get_bulk_wait_returns [OF env] by blast
      have "0 < TASVIR_PKT_BURST" by (simp add: TASVIR_PKT_BURST_def)
      then show ?thesis
        using False True "1.IH"(1) [OF False refl m [symmetric] refl refl refl refl True s2 s3 env]
        by (subst mem_generate_loop.simps) (simp add: m Let_def s2 s3)
    next
      case few: False
      then show ?thesis
        using False "1.IH"(2) [OF False refl m [symmetric] refl refl refl refl few env]
        by (subst mem_generate_loop.simps) (simp add: m Let_def)
    qed
  qed
qed

text \<open>
  The whole of \<open>tasvir_msg_mem_generate\<close>: it returns, the messages it adds to those on their way are a
  stream of the range, and the byte count of the area grows by the length of the range.
\<close>

lemma mem_generate_stream:
  fixes s :: "('p, 'r, 'n) tasvir" and d :: addr
  defines "hh \<equiv> rd s (d_h d)"
  assumes env: "fifo_env E content sent" "fair_env E content"
  shows "\<exists>s' ms. tasvir_msg_mem_generate E d p n is_last s = Some s' \<and>
    mem_stream d (m_ro s (h_version hh)) is_last (m_ro s) p n (m_ro s (h_last_sync_ext_bytes hh)) ms \<and>
    outgoing content sent s' = outgoing content sent s @ ms \<and>
    m_ro s' = (m_ro s)(h_last_sync_ext_bytes hh := m_ro s (h_last_sync_ext_bytes hh) + n) \<and>
    m_rw s' = m_rw s \<and> m_log s' = m_log s"
proof -
  obtain s1 where s1: "get_bulk_wait E s = Some s1" using get_bulk_wait_returns [OF env] by blast
  note o1 = get_bulk_wait_out [OF env(1) s1]
  have same: "rd s1 a = rd s a" "m_ro s1 = m_ro s" for a using o1 by (simp_all add: rd_def same_mem_def)
  let ?v = "m_ro s (h_version hh)" and ?b = "m_ro s (h_last_sync_ext_bytes hh)"
  obtain prev' acc s2 where s2: "mem_generate_loop E d ?v is_last p n ?b [] s1 = Some (prev', acc, s2)"
    and acc: "length acc < TASVIR_PKT_BURST"
    using mem_generate_loop_returns [OF env, of "[]" d ?v is_last p n ?b s1] by (auto simp: TASVIR_PKT_BURST_def)
  obtain ms where ms: "mem_stream d ?v is_last (m_ro s) p n ?b ms" "prev' = ?b + n" "same_mem s1 s2"
    "outgoing content sent s2 @ acc = outgoing content sent s @ ms"
    using mem_generate_loop_out [OF s2 env(1)] o1 same by auto
  let ?s3 = "wr_ro (h_last_sync_ext_bytes hh) prev' s2"
  have out3: "outgoing content sent ?s3 = outgoing content sent s2" by (simp add: outgoing_def wr_ro_def)
  obtain s4 where s4: "(if acc \<noteq> [] then enqueue_bulk_wait E acc ?s3 else Some ?s3) = Some s4"
    using enqueue_bulk_wait_returns [OF env, of acc ?s3] acc by (cases "acc = []") auto
  then have o4: "same_mem ?s3 s4 \<and> outgoing content sent s4 = outgoing content sent ?s3 @ acc"
    using enqueue_bulk_wait_out [OF env(1), of acc ?s3 s4] by (auto split: if_splits)
  define s5 where "s5 = s4\<lparr>ndata := (ndata s4)\<lparr>mp := pool_put_bulk E (mp (ndata s4)) (TASVIR_PKT_BURST - length acc)\<rparr>\<rparr>"
  have "tasvir_msg_mem_generate E d p n is_last s = Some s5"
    using s4 by (simp add: tasvir_msg_mem_generate_def s1 same s2 hh_def [symmetric] s5_def split: if_splits)
  moreover have "outgoing content sent s5 = outgoing content sent s @ ms"
    using o4 ms(4) by (simp add: s5_def outgoing_def wr_ro_def)
  moreover have "m_ro s5 = (m_ro s)(h_last_sync_ext_bytes hh := ?b + n)" "m_rw s5 = m_rw s" "m_log s5 = m_log s"
    using o4 ms(2,3) o1 same by (simp_all add: s5_def same_mem_def wr_ro_def)
  ultimately show ?thesis using ms(1) by blast
qed

section \<open>The receiver\<close>

text \<open>The words of a range and of the header fields the receiver keeps for itself.\<close>

definition words_of :: "addr \<Rightarrow> u64 \<Rightarrow> addr set" where
  "words_of p n = (\<lambda>j. p + 8 * of_nat j) ` {0..<unat n div 8}"

definition rx_fields :: "addr \<Rightarrow> addr set" where
  "rx_fields hh = {h_flags hh, h_last_sync_ext_bytes hh, h_last_sync_ext_v hh}"

definition data_range :: "addr \<Rightarrow> u64 \<Rightarrow> bool" where
  "data_range p n \<longleftrightarrow> 2 ^ 40 \<le> unat p \<and> unat p + unat n \<le> 2 ^ 41 \<and> 64 dvd unat p \<and> 64 dvd unat n"

text \<open>
  \<open>rx_ready s hh v prev\<close>: the receiver expects the byte \<open>prev\<close> of version \<open>v\<close>, in the middle of an
  update or at the start of one.
\<close>

definition rx_ready :: "('p, 'r, 'n) tasvir \<Rightarrow> addr \<Rightarrow> u64 \<Rightarrow> u64 \<Rightarrow> bool" where
  "rx_ready s hh v prev \<longleftrightarrow> \<not> has_flag (m_rw s (h_flags hh)) FLAG_EXT_ENQUEUE \<and>
     (if m_rw s (h_last_sync_ext_v hh) = v
      then \<not> has_flag (m_rw s (h_flags hh)) FLAG_EXT_IGNORE \<and> has_flag (m_rw s (h_flags hh)) FLAG_EXT_PENDING \<and>
           m_rw s (h_last_sync_ext_bytes hh) = prev
      else prev = 0)"

lemmas flag_defs = FLAG_ACTIVE_def FLAG_MAPPED_RW_def FLAG_LOCAL_def FLAG_SLEEPING_def FLAG_EXT_PENDING_def
  FLAG_EXT_IGNORE_def FLAG_EXT_ENQUEUE_def

lemma has_flag_bit: "k < 64 \<Longrightarrow> has_flag w (push_bit k 1) \<longleftrightarrow> bit w k"
  unfolding has_flag_def by (simp add: push_bit_eq_mult bit_iff_and_push_bit_not_eq_0 mask_eq_exp_minus_1)

lemma bit_flag: "k < 64 \<Longrightarrow> bit (push_bit k 1 :: u64) i \<longleftrightarrow> i = k"
  by (auto simp: bit_simps)

lemma has_flags:
  "has_flag w FLAG_ACTIVE \<longleftrightarrow> bit w 0" "has_flag w FLAG_LOCAL \<longleftrightarrow> bit w 2" "has_flag w FLAG_SLEEPING \<longleftrightarrow> bit w 3"
  "has_flag w FLAG_EXT_PENDING \<longleftrightarrow> bit w 4" "has_flag w FLAG_EXT_IGNORE \<longleftrightarrow> bit w 5" "has_flag w FLAG_EXT_ENQUEUE \<longleftrightarrow> bit w 6"
  unfolding flag_defs by (rule has_flag_bit, simp)+

lemma bit_flags:
  "bit FLAG_ACTIVE i \<longleftrightarrow> i = 0" "bit FLAG_LOCAL i \<longleftrightarrow> i = 2" "bit FLAG_SLEEPING i \<longleftrightarrow> i = 3"
  "bit FLAG_EXT_PENDING i \<longleftrightarrow> i = 4" "bit FLAG_EXT_IGNORE i \<longleftrightarrow> i = 5" "bit FLAG_EXT_ENQUEUE i \<longleftrightarrow> i = 6"
  unfolding flag_defs by (rule bit_flag, simp)+

lemmas flag_simps = has_flags bit_flags bit_and_iff bit_or_iff bit_not_iff

lemma store_words_cong:
  "(\<And>j. i \<le> j \<Longrightarrow> j < i + n \<Longrightarrow> f j = g j) \<Longrightarrow> store_words n i f p m = store_words n i g p m"
  by (induction n arbitrary: i m) auto

lemma store_vec_rep_loop_cong:
  "64 dvd k \<Longrightarrow> 64 dvd len \<Longrightarrow> k < len \<Longrightarrow> (\<And>j. j < len div 8 \<Longrightarrow> f j = g j) \<Longrightarrow>
   store_vec_rep_loop k len f p m = store_vec_rep_loop k len g p m"
proof (induction k len f p m rule: store_vec_rep_loop.induct)
  case (1 k len f p m)
  have "k + 64 \<le> len" using 1(2-4) by (auto elim!: dvdE)
  then have v: "tasvir_store_vec k f p m = tasvir_store_vec k g p m"
    unfolding tasvir_store_vec_def TASVIR_VEC_BYTES_def by (intro store_words_cong 1(5)) auto
  show ?case
    using 1(1) [OF refl refl] 1(2-) v
    by (subst (1 2) store_vec_rep_loop.simps) (simp add: Let_def TASVIR_VEC_BYTES_def)
qed

lemma copy_line_words:
  assumes "m_line m = stream_line (\<lambda>i. mem (m_addr m + 8 * of_nat i)) (unat (m_len m))"
    "64 dvd unat (m_len m)" "m_len m \<noteq> 0"
  shows "copy_line m w a = (if a \<in> words_of (m_addr m) (m_len m) then mem a else w a)"
proof -
  have len: "0 < unat (m_len m)" using assms(3) by (simp add: unat_gt_0)
  obtain l where l: "unat (m_len m) = 64 * l" using assms(2) by blast
  have "copy_line m w = tasvir_store_vec_rep (\<lambda>i. mem (m_addr m + 8 * of_nat i)) (m_addr m) (unat (m_len m)) w"
    unfolding copy_line_def tasvir_store_vec_rep_def
    using len l assms(1)
    by (intro store_vec_rep_loop_cong) (auto simp: stream_line_def TASVIR_VEC_BYTES_def)
  then show ?thesis
    using tasvir_store_vec_rep_same [OF assms(2) len, of mem "m_addr m" w a] by (simp add: words_of_def)
qed

text \<open>One message of a stream, handled by a receiver that expects it.\<close>

definition rx_version :: "('p, 'r, 'n) tasvir \<Rightarrow> addr \<Rightarrow> u64 \<Rightarrow> u64" where
  "rx_version s hh v = (if m_rw s (h_last_sync_ext_v hh) = v then m_rw s (h_flags hh)
     else (m_rw s (h_flags hh) AND NOT FLAG_EXT_IGNORE) OR FLAG_EXT_PENDING)"

definition rx_start :: "('p, 'r, 'n) tasvir \<Rightarrow> addr \<Rightarrow> tasvir_msg \<Rightarrow> ('p, 'r, 'n) tasvir" where
  "rx_start s hh m = s\<lparr>m_rw := (m_rw s)(h_last_sync_ext_v hh := m_version m, h_last_sync_ext_bytes hh := m_prev_bytes m,
      h_flags hh := rx_version s hh (m_version m))\<rparr>"

lemma handle_expected:
  assumes "rd s (d_h (m_d m)) = hh" "hh \<noteq> 0" "rx_ready s hh (m_version m) (m_prev_bytes m)"
  shows "tasvir_handle_msg_mem E m s = put_msg E (finish_update hh m (apply_lines hh m (rx_start s hh m)))"
proof (cases "m_rw s (h_last_sync_ext_v hh) = m_version m")
  case True
  then have "rx_start s hh m = s"
    using assms(3) by (simp add: rx_start_def rx_ready_def rx_version_def fun_upd_idem)
  then show ?thesis
    using True assms by (simp add: tasvir_handle_msg_mem_def rx_ready_def Let_def)
next
  case False
  then have "rx_start s hh m = rw_flags hh FLAG_EXT_IGNORE FLAG_EXT_PENDING
      (wr_rw (h_last_sync_ext_bytes hh) 0 (wr_rw (h_last_sync_ext_v hh) (m_version m) s))"
    using assms(3) by (simp add: rx_start_def rx_ready_def rx_version_def wr_rw_def rw_flags_def)
  moreover have "m_rw (rx_start s hh m) hh = rx_version s hh (m_version m)"
    "m_rw (rx_start s hh m) (hh + 8) = m_prev_bytes m"
    by (simp_all add: rx_start_def)
  ultimately show ?thesis
    using False assms by (simp add: tasvir_handle_msg_mem_def rx_ready_def rx_version_def Let_def flag_simps)
qed

text \<open>What handling a message does to the state: the words, the log and the receiver's own fields.\<close>

lemma upd_ndata_simps [simp]:
  "m_ro (upd_ndata f s) = m_ro s" "m_rw (upd_ndata f s) = m_rw s" "m_log (upd_ndata f s) = m_log s"
  "va_rw (upd_ndata f s) = va_rw s" "thread (upd_ndata f s) = thread s" "tdata_idx (upd_ndata f s) = tdata_idx s"
  "ndata (upd_ndata f s) = f (ndata s)"
  by (simp_all add: upd_ndata_def)

definition rx_world :: "('p, 'r, 'n) tasvir \<Rightarrow> ('p, 'r, 'n) tasvir \<Rightarrow> bool" where
  "rx_world s s' \<longleftrightarrow> va_rw s' = va_rw s \<and> thread s' = thread s \<and> tdata_idx s' = tdata_idx s \<and>
     tdata (ndata s') = tdata (ndata s)"

lemma rx_world_booting: "rx_world s s' \<Longrightarrow> tasvir_is_booting s' = tasvir_is_booting s"
  by (simp add: rx_world_def tasvir_is_booting_def my_tdata_def)

lemma rx_world_ops [simp]:
  "rx_world s (put_msg E t) \<longleftrightarrow> rx_world s t" "rx_world s (wr_rw a v t) \<longleftrightarrow> rx_world s t"
  "rx_world s (wr_ro a v t) \<longleftrightarrow> rx_world s t" "rx_world s (rw_flags hh x y t) \<longleftrightarrow> rx_world s t"
  "rx_world s (tlog p n t) \<longleftrightarrow> rx_world s t" "rx_world s (t\<lparr>m_rw := w\<rparr>) \<longleftrightarrow> rx_world s t" "rx_world s (t\<lparr>m_ro := w\<rparr>) \<longleftrightarrow> rx_world s t"
  "rx_world s (upd_ndata (\<lambda>n. n\<lparr>ring_mem_pending := r\<rparr>) t) \<longleftrightarrow> rx_world s t" "rx_world s s"
  by (simp_all add: rx_world_def put_msg_def rw_flags_def wr_rw_def wr_ro_def tlog_def)

lemma rx_world_parts [simp]:
  "rx_world s (apply_lines hh m t) \<longleftrightarrow> rx_world s t" "rx_world s (finish_update hh m t) \<longleftrightarrow> rx_world s t"
  by (simp_all add: apply_lines_def finish_update_def Let_def)

lemma handle_world: "rx_world s (tasvir_handle_msg_mem E m s)"
  by (simp add: tasvir_handle_msg_mem_def Let_def split: option.split)

lemma rx_field_neq: "hh + 8 \<noteq> (hh :: addr)" "hh + 24 \<noteq> hh" "hh + 8 \<noteq> hh + 24" "hh \<noteq> hh + 8" "hh \<noteq> hh + 24"
  by simp_all

lemma handle_effect:
  fixes s :: "('p, 'r, 'n) tasvir" and E :: "('p, 'r, 'n) env"
  assumes rd: "rd s (d_h (m_d m)) = hh" "hh \<noteq> 0" and ready: "rx_ready s hh (m_version m) (m_prev_bytes m)"
    and line: "m_line m = stream_line (\<lambda>i. mem (m_addr m + 8 * of_nat i)) (unat (m_len m))"
    and len: "64 dvd unat (m_len m)" "m_len m \<noteq> 0" and addr: "m_addr m \<noteq> 0"
    and apart: "words_of (m_addr m) (m_len m) \<inter> rx_fields hh = {}"
  defines "s' \<equiv> tasvir_handle_msg_mem E m s"
  shows "a \<notin> rx_fields hh \<Longrightarrow> m_rw s' a = (if a \<in> words_of (m_addr m) (m_len m) then mem a else m_rw s a)"
    "a \<notin> rx_fields hh \<Longrightarrow>
       m_ro s' a = (if tasvir_is_booting s \<and> a \<in> words_of (m_addr m) (m_len m) then mem a else m_ro s a)"
    "m_log s' = tasvir_log (m_addr m) (m_len m) (m_log s)"
    "m_rw s' (h_last_sync_ext_v hh) = m_version m"
    "m_rw s' (h_last_sync_ext_bytes hh) = m_prev_bytes m + m_len m"
    "\<not> m_last m \<Longrightarrow> rx_ready s' hh (m_version m) (m_prev_bytes m + m_len m)"
    "m_last m \<Longrightarrow> has_flag (m_rw s' (h_flags hh)) FLAG_ACTIVE \<and> \<not> has_flag (m_rw s' (h_flags hh)) FLAG_EXT_PENDING"
proof -
  have s': "s' = put_msg E (finish_update hh m (apply_lines hh m (rx_start s hh m)))"
    unfolding s'_def by (rule handle_expected [OF rd ready])
  note copy = copy_line_words [OF line len]
  have out: "hh \<notin> words_of (m_addr m) (m_len m)" "hh + 8 \<notin> words_of (m_addr m) (m_len m)" "hh + 24 \<notin> words_of (m_addr m) (m_len m)"
    using apart by (auto simp: rx_fields_def)
  let ?s1 = "apply_lines hh m (rx_start s hh m)"
  have boot: "tasvir_is_booting ?s1 = tasvir_is_booting s"
    by (simp add: apply_lines_def rx_start_def tlog_def wr_rw_def Let_def tasvir_is_booting_def my_tdata_def)
  have rw1: "m_rw ?s1 a = (if a = hh then rx_version s hh (m_version m) else if a = hh + 8 then m_prev_bytes m + m_len m
      else if a = hh + 24 then m_version m else if a \<in> words_of (m_addr m) (m_len m) then mem a else m_rw s a)" for a
    using out addr by (auto simp: apply_lines_def rx_start_def tlog_def wr_rw_def Let_def copy)
  have ro1: "m_ro ?s1 a = (if tasvir_is_booting s \<and> a \<in> words_of (m_addr m) (m_len m) then mem a else m_ro s a)" for a
    using addr by (auto simp: apply_lines_def rx_start_def tlog_def wr_rw_def Let_def copy tasvir_is_booting_def my_tdata_def)
  have log1: "m_log ?s1 = tasvir_log (m_addr m) (m_len m) (m_log s)"
    using addr by (auto simp: apply_lines_def rx_start_def tlog_def wr_rw_def Let_def)
  have rw: "m_rw s' a = m_rw ?s1 a" if "a \<noteq> hh" for a
    using that by (simp add: s' put_msg_def finish_update_def rw_flags_def wr_rw_def wr_ro_def Let_def)
  have ro: "m_ro s' a = m_ro ?s1 a" if "a \<noteq> hh" for a
    using that by (simp add: s' put_msg_def finish_update_def rw_flags_def wr_rw_def wr_ro_def Let_def)
  show "m_rw s' a = (if a \<in> words_of (m_addr m) (m_len m) then mem a else m_rw s a)" if "a \<notin> rx_fields hh"
    using that rw rw1 by (simp add: rx_fields_def)
  show "m_ro s' a = (if tasvir_is_booting s \<and> a \<in> words_of (m_addr m) (m_len m) then mem a else m_ro s a)"
    if "a \<notin> rx_fields hh"
    using that ro ro1 by (simp add: rx_fields_def)
  show "m_log s' = tasvir_log (m_addr m) (m_len m) (m_log s)"
    by (simp add: s' put_msg_def finish_update_def rw_flags_def wr_rw_def wr_ro_def Let_def log1)
  show v: "m_rw s' (hh + 24) = m_version m" and b: "m_rw s' (hh + 8) = m_prev_bytes m + m_len m"
    using rw rw1 by simp_all
  show "rx_ready s' hh (m_version m) (m_prev_bytes m + m_len m)" if "\<not> m_last m"
  proof -
    have "m_rw s' hh = rx_version s hh (m_version m)" using that rw1 [of hh] by (simp add: s' put_msg_def finish_update_def)
    then show ?thesis using v b ready by (auto simp: rx_ready_def rx_version_def flag_simps)
  qed
  show "has_flag (m_rw s' hh) FLAG_ACTIVE \<and> \<not> has_flag (m_rw s' hh) FLAG_EXT_PENDING" if "m_last m"
    using that by (simp add: s' put_msg_def finish_update_def rw_flags_def wr_rw_def wr_ro_def Let_def flag_simps)
qed

text \<open>A stream handled in order.\<close>

definition handle_msgs :: "('p, 'r, 'n) env \<Rightarrow> tasvir_msg list \<Rightarrow> ('p, 'r, 'n) tasvir \<Rightarrow> ('p, 'r, 'n) tasvir" where
  "handle_msgs E ms s = fold (tasvir_handle_msg_mem E) ms s"

lemma data_range_chunk:
  assumes "data_range p n" "n \<noteq> 0"
  shows "data_range p (min 1344 n)" "data_range (p + min 1344 n) (n - min 1344 n)" "min 1344 n \<noteq> 0" "p \<noteq> 0"
    "words_of p n = words_of p (min 1344 n) \<union> words_of (p + min 1344 n) (n - min 1344 n)"
    "n - min 1344 n \<noteq> 0 \<Longrightarrow> line_of (p + min 1344 n) = line_of p + unat (min 1344 n) div 64" "unat (n - min 1344 n) = unat n - unat (min 1344 n)"
proof -
  define l where "l = min 1344 n"
  have l: "unat l = min 1344 (unat n)" by (simp add: l_def min_def word_le_nat_alt)
  obtain q where q: "unat n = 64 * q" "0 < q" using assms by (auto simp: data_range_def word_unat_eq_iff elim!: dvdE)
  obtain r where r: "unat p = 64 * r" using assms by (auto simp: data_range_def)
  have l64: "unat l = 64 * min 21 q" by (simp add: l q(1) min_def)
  have nl: "unat (n - l) = unat n - unat l" using l by (simp add: unat_sub_if')
  have pl: "unat (p + l) = unat p + unat l"
    using assms(1) l by (auto simp: data_range_def unat_plus_if')
  show "data_range p (min 1344 n)" using assms(1) l unfolding l_def [symmetric] by (auto simp: data_range_def min_def)
  show "data_range (p + min 1344 n) (n - min 1344 n)"
    using assms(1) q r l64 unfolding l_def [symmetric] by (auto simp: data_range_def nl pl)
  show "min 1344 n \<noteq> 0" using q l64 unfolding l_def [symmetric] by (auto simp: word_unat_eq_iff)
  show "p \<noteq> 0" using assms(1) by (auto simp: data_range_def)
  show "unat (n - min 1344 n) = unat n - unat (min 1344 n)" using nl by (simp add: l_def)
  show "line_of (p + min 1344 n) = line_of p + unat (min 1344 n) div 64" if "n - min 1344 n \<noteq> 0"
  proof -
    have "unat l < unat n" using that nl unfolding l_def [symmetric] by (auto simp: word_unat_eq_iff)
    then have "unat (p + l) mod 2 ^ 40 = unat p + unat l - 2 ^ 40" "unat p mod 2 ^ 40 = unat p - 2 ^ 40"
      using assms(1) pl by (auto simp: data_range_def mod_if [of "unat p"] mod_if [of "unat p + unat l"])
    moreover have "2 ^ 34 \<le> r" using assms(1) r by (simp add: data_range_def)
    then obtain r0 where "r = 2 ^ 34 + r0" using le_Suc_ex by blast
    ultimately show ?thesis unfolding l_def [symmetric] using r l64 by (simp add: line_of_def add_mult_distrib2)
  qed
  show "words_of p n = words_of p (min 1344 n) \<union> words_of (p + min 1344 n) (n - min 1344 n)"
  proof -
    have e: "p + l + 8 * of_nat j = p + 8 * of_nat (unat l div 8 + j)" for j
    proof -
      have "(of_nat (8 * (unat l div 8)) :: u64) = of_nat (unat l)" by (simp only: l64) simp
      moreover define c where "c = unat l div 8"
      ultimately have "l = 8 * of_nat c" by simp
      then have "p + l + 8 * of_nat j = p + 8 * of_nat (c + j)" by (simp add: distrib_left add.assoc)
      then show ?thesis by (simp add: c_def)
    qed
    have "{0..<unat n div 8} = {0..<unat l div 8} \<union> (\<lambda>j. unat l div 8 + j) ` {0..<unat (n - l) div 8}"
      using l64 q nl by (auto simp: image_iff)
    then show ?thesis unfolding l_def [symmetric] words_of_def by (simp only: image_Un image_image e)
  qed
qed

lemma log_range_dirty:
  assumes "data_range p n" "n \<noteq> 0" "l < 2 ^ 34"
  shows "log_dirty (tasvir_log p n m) l \<longleftrightarrow> log_dirty m l \<or> line_of p \<le> l \<and> l < line_of p + unat n div 64"
proof -
  obtain r k where r: "unat p = 2 ^ 40 + 64 * r" "unat n = 64 * k" "0 < k" "r + k \<le> 2 ^ 34"
  proof -
    obtain r k where "unat p = 64 * r" "unat n = 64 * k" using assms(1) by (auto simp: data_range_def elim!: dvdE)
    then show thesis using assms(1,2) by (intro that [of "r - 2 ^ 34" k]) (auto simp: data_range_def word_unat_eq_iff)
  qed
  have p: "unat p mod 2 ^ 40 = 64 * r" using r by (simp add: mod_if [of "unat p"])
  have "0 < n" "unat p mod 2 ^ 40 + unat n \<le> 2 ^ 40" using r p by (auto simp: word_less_nat_alt)
  note dirty = tasvir_log_dirty [OF this assms(3)]
  have "l \<le> (64 * r + 64 * k - 1) div 64 \<longleftrightarrow> l < r + k"
    using r(3) by (cases k) (auto simp: add_mult_distrib2)
  then show ?thesis using dirty r(2) p by (simp add: line_of_def)
qed

text \<open>
  \<open>rx_result\<close>: the words of the range are those of the sender, nothing else but the receiver's own
  fields changes, and exactly the lines of the range have become dirty.
\<close>

definition rx_result :: "(addr \<Rightarrow> u64) \<Rightarrow> addr \<Rightarrow> addr \<Rightarrow> u64 \<Rightarrow> ('p, 'r, 'n) tasvir \<Rightarrow> ('p, 'r, 'n) tasvir \<Rightarrow> bool" where
  "rx_result mem hh p n s s' \<longleftrightarrow>
     (\<forall>a. a \<notin> rx_fields hh \<longrightarrow> m_rw s' a = (if a \<in> words_of p n then mem a else m_rw s a) \<and>
        m_ro s' a = (if tasvir_is_booting s \<and> a \<in> words_of p n then mem a else m_ro s a)) \<and>
     (\<forall>l < 2 ^ 34. log_dirty (m_log s') l \<longleftrightarrow>
        log_dirty (m_log s) l \<or> line_of p \<le> l \<and> l < line_of p + unat n div 64)"

lemma handle_stream:
  fixes s :: "('p, 'r, 'n) tasvir" and E :: "('p, 'r, 'n) env"
  assumes "mem_stream d v is_last mem p n prev ms" "rd s (d_h d) = hh" "hh \<noteq> 0" "rx_ready s hh v prev"
    "data_range p n" "words_of p n \<inter> rx_fields hh = {}" "d_h d \<notin> words_of p n \<union> rx_fields hh"
  shows "rx_result mem hh p n s (handle_msgs E ms s) \<and>
    (if is_last \<and> n \<noteq> 0 then has_flag (m_rw (handle_msgs E ms s) (h_flags hh)) FLAG_ACTIVE \<and>
       \<not> has_flag (m_rw (handle_msgs E ms s) (h_flags hh)) FLAG_EXT_PENDING
     else rx_ready (handle_msgs E ms s) hh v (prev + n))"
  using assms
proof (induction ms arbitrary: p n prev s)
  case Nil
  then show ?case by (auto simp: handle_msgs_def rx_result_def words_of_def)
next
  case (Cons m ms)
  let ?l = "min 1344 n"
  have m: "n \<noteq> 0" "m_d m = d" "m_version m = v" "m_addr m = p" "m_len m = ?l" "m_prev_bytes m = prev"
    "m_line m = stream_line (\<lambda>i. mem (m_addr m + 8 * of_nat i)) (unat (m_len m))"
    "m_last m \<longleftrightarrow> is_last \<and> n - ?l = 0" "mem_stream d v is_last mem (p + ?l) (n - ?l) (prev + ?l) ms"
    using Cons.prems(1) by auto
  note ch = data_range_chunk [OF Cons.prems(5) m(1)]
  define s1 where "s1 = tasvir_handle_msg_mem E m s"
  have eff: "words_of (m_addr m) (m_len m) \<inter> rx_fields hh = {}" "64 dvd unat (m_len m)" "m_len m \<noteq> 0" "m_addr m \<noteq> 0"
    "rx_ready s hh (m_version m) (m_prev_bytes m)" "rd s (d_h (m_d m)) = hh"
    using Cons.prems ch m by (auto simp: data_range_def)
  note e = handle_effect [OF eff(6) Cons.prems(3) eff(5) m(7) eff(2,3,4,1), where E = E, folded s1_def, unfolded m(2-6)]
  have w: "rx_world s s1" unfolding s1_def by (rule handle_world)
  have step: "rx_result mem hh p ?l s s1"
    using e(1,2) e(3) log_range_dirty [OF ch(1,3)] by (simp add: rx_result_def)
  have run: "handle_msgs E (m # ms) s = handle_msgs E ms s1" by (simp add: handle_msgs_def s1_def)
  have rd1: "rd s1 (d_h d) = hh"
    using step Cons.prems(2,7) w ch(5) by (auto simp: rx_result_def rd_def rx_world_def)
  have sub: "words_of (p + ?l) (n - ?l) \<inter> rx_fields hh = {}" "d_h d \<notin> words_of (p + ?l) (n - ?l) \<union> rx_fields hh"
    using Cons.prems(6,7) ch(5) by auto
  have join: "rx_result mem hh p n s s2" if r: "rx_result mem hh (p + ?l) (n - ?l) s1 s2" for s2
  proof -
    have dvd: "64 dvd unat ?l" "64 dvd unat n" "unat ?l \<le> unat n"
      using ch(1) Cons.prems(5) by (auto simp: data_range_def min_def word_le_nat_alt)
    have "unat n div 64 = unat ?l div 64 + unat (n - ?l) div 64" using dvd ch(7) by auto
    moreover have "unat (n - ?l) div 64 = 0" if "n - ?l = 0" using that by simp
    ultimately have lines: "line_of (p + ?l) \<le> l \<and> l < line_of (p + ?l) + unat (n - ?l) div 64 \<or>
      line_of p \<le> l \<and> l < line_of p + unat ?l div 64 \<longleftrightarrow> line_of p \<le> l \<and> l < line_of p + unat n div 64" for l
      using ch(6) by (cases "n - ?l = 0") auto
    have "m_rw s2 a = (if a \<in> words_of p n then mem a else m_rw s a) \<and>
        m_ro s2 a = (if tasvir_is_booting s \<and> a \<in> words_of p n then mem a else m_ro s a)" if "a \<notin> rx_fields hh" for a
      using step r that rx_world_booting [OF w] unfolding rx_result_def ch(5) by simp
    moreover have "log_dirty (m_log s2) l \<longleftrightarrow> log_dirty (m_log s) l \<or> line_of p \<le> l \<and> l < line_of p + unat n div 64"
      if "l < 2 ^ 34" for l
      using step r that lines [of l] unfolding rx_result_def by blast
    ultimately show ?thesis by (simp add: rx_result_def)
  qed
  show ?case
  proof (cases "m_last m")
    case True
    with m have "ms = []" by (cases ms) auto
    then have fin: "handle_msgs E (m # ms) s = s1" by (simp add: handle_msgs_def s1_def)
    have "rx_result mem hh (p + ?l) 0 s1 s1" by (auto simp: rx_result_def words_of_def)
    then have "rx_result mem hh p n s s1" using True m(8) join by simp
    then show ?thesis using True m(1,8) e(7) unfolding fin by simp
  next
    case False
    have r1: "rx_ready s1 hh v (prev + ?l)" using e(6) False by simp
    have "is_last \<Longrightarrow> n - ?l \<noteq> 0" using False m(8) by blast
    then show ?thesis
      using Cons.IH [OF m(9) rd1 Cons.prems(3) r1 ch(2) sub] join m(1) by (auto simp: run)
  qed
qed

section \<open>A lost message\<close>

text \<open>
  A message that does not continue what has arrived (\<open>prev_bytes\<close> differs) sets \<open>FLAG_EXT_IGNORE\<close>: its
  own lines are still written, and every later message of the version is dropped.
\<close>

definition rx_ignoring :: "('p, 'r, 'n) tasvir \<Rightarrow> addr \<Rightarrow> u64 \<Rightarrow> bool" where
  "rx_ignoring s hh v \<longleftrightarrow> \<not> has_flag (m_rw s (h_flags hh)) FLAG_EXT_ENQUEUE \<and> m_rw s (h_last_sync_ext_v hh) = v \<and>
     has_flag (m_rw s (h_flags hh)) FLAG_EXT_IGNORE"

lemma handle_ignored:
  assumes "rd s (d_h (m_d m)) = hh" "hh \<noteq> 0" "rx_ignoring s hh (m_version m)"
  shows "tasvir_handle_msg_mem E m s = put_msg E s"
  using assms by (simp add: tasvir_handle_msg_mem_def rx_ignoring_def Let_def)

lemma put_msg_simps [simp]:
  "m_rw (put_msg E s) = m_rw s" "m_ro (put_msg E s) = m_ro s" "m_log (put_msg E s) = m_log s" "rd (put_msg E s) = rd s"
  by (simp_all add: put_msg_def fun_eq_iff rd_def)

lemma handle_all_ignored:
  assumes "rd s (d_h d) = hh" "hh \<noteq> 0" "rx_ignoring s hh v" "\<forall>m \<in> set ms. m_d m = d \<and> m_version m = v"
  shows "m_rw (handle_msgs E ms s) = m_rw s \<and> m_ro (handle_msgs E ms s) = m_ro s \<and> m_log (handle_msgs E ms s) = m_log s"
  using assms
proof (induction ms arbitrary: s)
  case (Cons m ms)
  have "tasvir_handle_msg_mem E m s = put_msg E s" using Cons.prems by (intro handle_ignored) auto
  moreover have "rx_ignoring (put_msg E s) hh v" using Cons.prems(3) by (simp add: rx_ignoring_def)
  ultimately show ?case using Cons.IH [of "put_msg E s"] Cons.prems by (simp add: handle_msgs_def)
qed (simp add: handle_msgs_def)

lemma handle_gap:
  assumes "rd s (d_h (m_d m)) = hh" "hh \<noteq> 0" "\<not> has_flag (m_rw s (h_flags hh)) FLAG_EXT_ENQUEUE"
    "m_rw s (h_last_sync_ext_v hh) = m_version m" "\<not> has_flag (m_rw s (h_flags hh)) FLAG_EXT_IGNORE"
    "has_flag (m_rw s (h_flags hh)) FLAG_EXT_PENDING" "m_rw s (h_last_sync_ext_bytes hh) \<noteq> m_prev_bytes m"
  shows "tasvir_handle_msg_mem E m s =
    put_msg E (finish_update hh m (apply_lines hh m (rw_flags hh FLAG_EXT_PENDING FLAG_EXT_IGNORE s)))"
  using assms by (simp add: tasvir_handle_msg_mem_def Let_def)

lemma apply_lines_fields:
  assumes "m_line m = stream_line src (unat (m_len m))" "64 dvd unat (m_len m)" "m_len m \<noteq> 0"
    "hh \<notin> words_of (m_addr m) (m_len m)" "hh + 24 \<notin> words_of (m_addr m) (m_len m)"
  shows "m_rw (apply_lines hh m s) hh = m_rw s hh" "m_rw (apply_lines hh m s) (hh + 24) = m_rw s (hh + 24)"
proof -
  have j: "m_line m = stream_line (\<lambda>i. (\<lambda>a. src (unat (a - m_addr m) div 8)) (m_addr m + 8 * of_nat i)) (unat (m_len m))"
  proof -
    have "unat (8 * of_nat i :: u64) div 8 = i"
      if "i < (63 + unat (m_len m)) div 64 * 8 \<or> i < 8" for i
    proof -
      have "unat (m_len m) < 2 ^ 64" using unsigned_less [of "m_len m", where ?'a = nat] by simp
      then have "8 * i < 2 ^ 64" using that assms(2) by (auto elim!: dvdE)
      then show ?thesis by (simp add: unat_mult_lem [THEN iffD1] unat_of_nat unat_word_ariths)
    qed
    then show ?thesis using assms(1) by (auto simp: stream_line_def TASVIR_VEC_BYTES_def max_def)
  qed
  note c = copy_line_words [OF j assms(2,3)]
  show "m_rw (apply_lines hh m s) hh = m_rw s hh" "m_rw (apply_lines hh m s) (hh + 24) = m_rw s (hh + 24)"
    using assms(4,5) by (auto simp: apply_lines_def Let_def tlog_def wr_rw_def c)
qed


text \<open>After a gap in the middle of an update: the area does not become active, whatever still arrives of the version.\<close>

lemma gap_ignores:
  fixes E :: "('p, 'r, 'n) env"
  assumes "rd s (d_h (m_d m)) = hh" "hh \<noteq> 0" "\<not> has_flag (m_rw s (h_flags hh)) FLAG_EXT_ENQUEUE"
    "m_rw s (h_last_sync_ext_v hh) = m_version m" "\<not> has_flag (m_rw s (h_flags hh)) FLAG_EXT_IGNORE"
    "has_flag (m_rw s (h_flags hh)) FLAG_EXT_PENDING" "m_rw s (h_last_sync_ext_bytes hh) \<noteq> m_prev_bytes m"
    and line: "m_line m = stream_line src (unat (m_len m))" "64 dvd unat (m_len m)" "m_len m \<noteq> 0"
    and apart: "words_of (m_addr m) (m_len m) \<inter> rx_fields hh = {}" and last: "\<not> m_last m"
  shows "rx_ignoring (tasvir_handle_msg_mem E m s) hh (m_version m)"
    "\<not> has_flag (m_rw (tasvir_handle_msg_mem E m s) (h_flags hh)) FLAG_EXT_PENDING"
    "has_flag (m_rw (tasvir_handle_msg_mem E m s) (h_flags hh)) FLAG_ACTIVE = has_flag (m_rw s (h_flags hh)) FLAG_ACTIVE"
proof -
  have "hh \<notin> words_of (m_addr m) (m_len m)" "hh + 24 \<notin> words_of (m_addr m) (m_len m)"
    using apart by (auto simp: rx_fields_def)
  note f = apply_lines_fields [OF line this]
  show "rx_ignoring (tasvir_handle_msg_mem E m s) hh (m_version m)"
    "\<not> has_flag (m_rw (tasvir_handle_msg_mem E m s) (h_flags hh)) FLAG_EXT_PENDING"
    "has_flag (m_rw (tasvir_handle_msg_mem E m s) (h_flags hh)) FLAG_ACTIVE = has_flag (m_rw s (h_flags hh)) FLAG_ACTIVE"
    using last assms(3,4) unfolding handle_gap [OF assms(1-7)]
    by (simp_all add: finish_update_def rx_ignoring_def f) (simp_all add: rw_flags_def wr_rw_def flag_simps)
qed

end
