(* ===== verification/Tasvir_Rpc.thy ===== *)
theory Tasvir_Rpc
  imports Tasvir_Sync_External
begin

text \<open>
  \<open>src/rpc.c\<close>: registration of functions, marshalling of calls, routing of messages, and the blocking
  call. The data of a message is a list of 64-bit words, as many as the buffer has room for: every offset in it is a multiple of
  \<open>sizeof(tasvir_arg_promo_t)\<close>. A write behind the end of the buffer is \<open>None\<close>.
\<close>

definition TASVIR_NR_FN :: nat where "TASVIR_NR_FN = 4096"
definition TASVIR_NR_RPC_ARGS :: nat where "TASVIR_NR_RPC_ARGS = 8"
definition TASVIR_THREAD_DAEMON_IDX :: nat where "TASVIR_THREAD_DAEMON_IDX = 0"
definition FN_NOACK :: u8 where "FN_NOACK = 1"
definition FN_NOMODIFY :: u8 where "FN_NOMODIFY = 2"

definition TASVIR_ALIGN_ARG :: "nat \<Rightarrow> nat" where "TASVIR_ALIGN_ARG x = (x + 7) div 8 * 8"

section \<open>Registration\<close>

fun arg_offsets_from :: "nat \<Rightarrow> nat list \<Rightarrow> nat list" where
  "arg_offsets_from ptr [] = []"
| "arg_offsets_from ptr (n # ns) = ptr # arg_offsets_from (ptr + TASVIR_ALIGN_ARG n) ns"

text \<open>The arrays of a descriptor have \<open>TASVIR_NR_RPC_ARGS\<close> elements; \<open>None\<close> is a write out of range.\<close>

definition tasvir_rpc_fn_register :: "tasvir_fn_desc \<Rightarrow> ('p, 'r, 'n) tasvir \<Rightarrow> (int \<times> ('p, 'r, 'n) tasvir) option" where
  "tasvir_rpc_fn_register fnd s =
    (if TASVIR_NR_FN \<le> nr_fns s \<or> TASVIR_NR_RPC_ARGS < argc fnd \<or> length (arg_lens fnd) < argc fnd then None
     else Some (0, s\<lparr>fn_descs := take (nr_fns s) (fn_descs s) @
            [fnd\<lparr>fid := nr_fns s,
                 arg_offsets := arg_offsets_from (TASVIR_ALIGN_ARG (ret_len fnd)) (take (argc fnd) (arg_lens fnd))\<rparr>],
          nr_fns := nr_fns s + 1\<rparr>))"

text \<open>\<open>TASVIR_RPCFN_DEFINE\<close> and \<open>TASVIR_RPCFN_REGISTER\<close>: name, flags, sizes of the result and of the arguments.\<close>

definition fn_desc :: "string \<Rightarrow> tasvir_fn \<Rightarrow> nat \<Rightarrow> nat list \<Rightarrow> tasvir_fn_desc" where
  "fn_desc nm fn ret args = \<lparr>fn_name = nm, fnptr = fn, fid = 0, fn_flags = 0, argc = length args, ret_len = ret,
     arg_lens = args, arg_offsets = []\<rparr>"

definition rpc_fns :: "tasvir_fn_desc list" where
  "rpc_fns = [fn_desc ''tasvir_init_thread'' Fn_init_thread 8 [4],
     fn_desc ''tasvir_new_alloc_desc'' Fn_new_alloc_desc 8 [112],
     fn_desc ''tasvir_delete'' Fn_delete 4 [8],
     fn_desc ''tasvir_init_finish'' Fn_init_finish 4 [8],
     fn_desc ''tasvir_update_owner'' Fn_update_owner 4 [8, 8],
     fn_desc ''tasvir_area_add_user'' Fn_area_add_user 4 [8, 8, 4]]"

fun register_all :: "tasvir_fn_desc list \<Rightarrow> ('p, 'r, 'n) tasvir \<Rightarrow> ('p, 'r, 'n) tasvir option" where
  "register_all [] s = Some s"
| "register_all (f # fs) s = do { (_, s) \<leftarrow> tasvir_rpc_fn_register f s; register_all fs s }"

definition tasvir_init_rpc :: "('p, 'r, 'n) tasvir \<Rightarrow> ('p, 'r, 'n) tasvir option" where
  "tasvir_init_rpc s = register_all rpc_fns s"

section \<open>Marshalling\<close>

text \<open>The words of \<open>data\<close> from byte \<open>ofs\<close> on are replaced, if there is room for them.\<close>

definition put_arg :: "nat \<Rightarrow> u64 list \<Rightarrow> u64 list \<Rightarrow> u64 list option" where
  "put_arg ofs ws data =
    (let i = ofs div 8
     in if i + length ws \<le> length data then Some (take i data @ ws @ drop (i + length ws) data) else None)"

definition get_arg :: "nat \<Rightarrow> nat \<Rightarrow> u64 list \<Rightarrow> u64 list" where
  "get_arg ofs n data = take (TASVIR_ALIGN_ARG n div 8) (drop (ofs div 8) data)"

text \<open>
  One \<open>case\<close> of the switch over the length of an argument, whose place in the buffer has the words \<open>old\<close>: whole words for the
  supported sizes, twelve bytes that leave the upper half of the second word alone, an \<open>int\<close> widened to a word for anything
  else up to eight bytes, and abort for the rest.
\<close>

definition marshal_arg :: "nat \<Rightarrow> u64 list \<Rightarrow> u64 list \<Rightarrow> u64 list option" where
  "marshal_arg n ws old =
    (if n \<in> {8, 16, 64, 320, 512, TASVIR_STRLEN_MAX, unat sizeof_area_desc}
     then (if length ws = TASVIR_ALIGN_ARG n div 8 then Some ws else None)
     else if n = 12
     then (if length ws = 2 \<and> length old = 2 then Some [ws ! 0, (old ! 1 AND NOT 0xffffffff) OR (ws ! 1 AND 0xffffffff)] else None)
     else if n \<le> 8 then (if length ws = 1 then Some [scast (ucast (ws ! 0) :: u32)] else None)
     else None)"

fun marshal :: "nat list \<Rightarrow> nat list \<Rightarrow> u64 list list \<Rightarrow> u64 list \<Rightarrow> u64 list option" where
  "marshal [] offs args data = Some data"
| "marshal (n # ns) (ofs # offs) (ws # args) data =
    do { ws \<leftarrow> marshal_arg n ws (get_arg ofs n data);
         data \<leftarrow> put_arg ofs ws data;
         marshal ns offs args data }"
| "marshal (n # ns) offs args data = None"

section \<open>Routing\<close>

definition tasvir_handle_msg_rpc_response ::
  "('p, 'r, 'n) env \<Rightarrow> tasvir_msg \<Rightarrow> ('p, 'r, 'n) tasvir \<Rightarrow> ('p, 'r, 'n) tasvir" where
  "tasvir_handle_msg_rpc_response E m s =
    (let i = unat (m_id m); rs = (status_l s i)\<lparr>rs_status := RPC_DONE\<rparr>
     in if rs_do_free rs then put_msg E (s\<lparr>status_l := (status_l s)(i := rs\<lparr>rs_response := None\<rparr>)\<rparr>)
        else s\<lparr>status_l := (status_l s)(i := rs\<lparr>rs_response := Some m\<rparr>)\<rparr>)"

text \<open>
  The ring a message for someone else goes to; \<open>None\<close> is an index outside \<open>tdata\<close>. The result of the
  enqueue: \<open>None\<close> when the ring is full. (No ring: the message is dropped and reported as sent.)
\<close>

definition route_ring_idx :: "tasvir_msg \<Rightarrow> ('p, 'r, 'n) tasvir \<Rightarrow> nat" where
  "route_ring_idx m s =
    (if is_daemon s then (if idx (m_dst_tid m) = - 1 then 0 else unat (idx (m_dst_tid m)))
     else if thread s \<noteq> 0 then unat (idx (read_tid s (thread s))) else TASVIR_THREAD_DAEMON_IDX)"

definition route_msg ::
  "('p, 'r, 'n) env \<Rightarrow> tasvir_msg \<Rightarrow> bool \<Rightarrow> ('p, 'r, 'n) tasvir \<Rightarrow> (int \<times> ('p, 'r, 'n) tasvir) option" where
  "route_msg E m is_dst_local s =
    (if is_daemon s \<and> \<not> is_dst_local then
       (let (m, s) = tasvir_populate_msg_nethdr m s
        in case ring_enqueue E (ring_ext_tx (ndata s)) m of
             Some r \<Rightarrow> Some (0, upd_ndata (\<lambda>n. n\<lparr>ring_ext_tx := r\<rparr>) s)
           | None \<Rightarrow> Some (- 1, put_msg E s))
     else (let i = route_ring_idx m s
           in if length (tdata (ndata s)) \<le> i then None
              else (case (if is_daemon s then t_ring_rx (tdata (ndata s) ! i) else t_ring_tx (tdata (ndata s) ! i)) of
                      None \<Rightarrow> Some (0, s)
                    | Some r \<Rightarrow>
                        (case ring_enqueue E r m of
                           Some r \<Rightarrow> Some (0, upd_tdata i (\<lambda>t. if is_daemon s then t\<lparr>t_ring_rx := Some r\<rparr>
                                                               else t\<lparr>t_ring_tx := Some r\<rparr>) s)
                         | None \<Rightarrow> Some (- 1, put_msg E s)))))"

text \<open>\<open>tasvir_handle_msg_rpc\<close>, with the handler of requests as an argument.\<close>

definition rpc_deliver ::
  "('p, 'r, 'n) env \<Rightarrow> (tasvir_msg \<Rightarrow> ('p, 'r, 'n) tasvir \<Rightarrow> ('p, 'r, 'n) tasvir option) \<Rightarrow> tasvir_msg \<Rightarrow> tasvir_msg_src \<Rightarrow>
   ('p, 'r, 'n) tasvir \<Rightarrow> (int \<times> ('p, 'r, 'n) tasvir) option" where
  "rpc_deliver E on_request m src s =
    (if m_type m \<noteq> MSG_RPC_REQUEST \<and> m_type m \<noteq> MSG_RPC_RESPONSE then Some (- 1, put_msg E s)
     else
       (let is_dst_local = (if m_type m = MSG_RPC_REQUEST then tasvir_area_is_local s (m_d m)
                            else nid (m_dst_tid m) = nid (boot_tid (ndata s)));
            is_dst_me = (is_dst_local \<and>
              (if m_type m = MSG_RPC_REQUEST then rd s (d_owner (m_d m)) = thread s
               else m_dst_tid m = (if thread s \<noteq> 0 then read_tid s (thread s) else boot_tid (ndata s))))
        in if src = SRC_NET \<and> \<not> is_dst_local then Some (- 1, put_msg E s)
           else if \<not> is_dst_me then route_msg E m is_dst_local s
           else if m_type m = MSG_RPC_REQUEST then do { s \<leftarrow> on_request m s; Some (0, s) }
           else Some (0, tasvir_handle_msg_rpc_response E m s)))"

definition tasvir_handle_msg_rpc_request ::
  "('p, 'r, 'n) env \<Rightarrow> ('p, 'r, 'n) calls \<Rightarrow> tasvir_msg \<Rightarrow> ('p, 'r, 'n) tasvir \<Rightarrow> ('p, 'r, 'n) tasvir option" where
  "tasvir_handle_msg_rpc_request E K m s =
    (if tasvir_is_booting s then Some (put_msg E s)
     else if length (fn_descs s) \<le> unat (m_fid m) then None
     else (let fnd = fn_descs s ! unat (m_fid m)
           in do {
             (data, s) \<leftarrow> k_fn K (fnptr fnd) (arg_offsets fnd) (m_data m) s;
             if fn_flags fnd AND FN_NOACK \<noteq> 0 then Some (put_msg E s)
             else if rd s (d_owner (m_d m)) \<noteq> thread s then None
             else (let hh = rd s (d_h (m_d m))
                   in if hh \<noteq> 0 \<and> m_version m = rd s (h_version hh) then None
                      else do {
                        let m = m\<lparr>m_data := data, m_dst_tid := m_src_tid m,
                             m_src_tid := (if thread s \<noteq> 0 then read_tid s (thread s) else boot_tid (ndata s)),
                             m_type := MSG_RPC_RESPONSE, m_version := (if hh \<noteq> 0 then rd s (h_version hh) else 0)\<rparr>;
                        (_, s) \<leftarrow> rpc_deliver E (\<lambda>_ _. None) m SRC_ME s;
                        Some s }) }))"

definition tasvir_handle_msg_rpc ::
  "('p, 'r, 'n) env \<Rightarrow> ('p, 'r, 'n) calls \<Rightarrow> tasvir_msg \<Rightarrow> tasvir_msg_src \<Rightarrow> ('p, 'r, 'n) tasvir \<Rightarrow>
   (int \<times> ('p, 'r, 'n) tasvir) option" where
  "tasvir_handle_msg_rpc E K m src s = rpc_deliver E (tasvir_handle_msg_rpc_request E K) m src s"

section \<open>Calls\<close>

definition find_fn :: "tasvir_fn \<Rightarrow> ('p, 'r, 'n) tasvir \<Rightarrow> tasvir_fn_desc option" where
  "find_fn fn s = find (\<lambda>f. fnptr f = fn) (fn_descs s)"

text \<open>\<open>offsetof(tasvir_msg_rpc, data) - offsetof(tasvir_msg, eh)\<close>\<close>

definition msg_rpc_data_off :: nat where "msg_rpc_data_off = 88"

definition rpc_msg ::
  "addr \<Rightarrow> tasvir_fn_desc \<Rightarrow> u64 list \<Rightarrow> ('p, 'r, 'n) tasvir \<Rightarrow> tasvir_msg" where
  "rpc_msg d fnd data s =
    (let own = rd s (d_owner d); last = argc fnd - 1
     in null_msg\<lparr>m_dst_tid := (if own \<noteq> 0 \<and> thread_state_at s own = thread_state_code THREAD_RUNNING
                                then read_tid s own else rpccast_tid (ndata s)),
          m_src_tid := (if thread s \<noteq> 0 then read_tid s (thread s) else boot_tid (ndata s)),
          m_id := of_nat (unat (nr_msgs s) mod TASVIR_NR_RPC_MSG), m_type := MSG_RPC_REQUEST, m_d := d,
          m_version := (if rd s (d_h d) \<noteq> 0 then rd s (h_version (rd s (d_h d))) else 0),
          m_fid := of_nat (fid fnd), m_data := data,
          m_pkt_len := of_nat (TASVIR_ALIGN_ARG (msg_rpc_data_off +
            (if argc fnd > 0 then arg_lens fnd ! last + arg_offsets fnd ! last else TASVIR_ALIGN_ARG (ret_len fnd))))\<rparr>)"

definition tasvir_vrpc ::
  "('p, 'r, 'n) env \<Rightarrow> ('p, 'r, 'n) calls \<Rightarrow> addr \<Rightarrow> tasvir_fn \<Rightarrow> u64 list list \<Rightarrow> ('p, 'r, 'n) tasvir \<Rightarrow>
   (nat option \<times> ('p, 'r, 'n) tasvir) option" where
  "tasvir_vrpc E K d fn args s =
    (case pool_get E (mp (ndata s)) of
       None \<Rightarrow> Some (None, s)
     | Some p \<Rightarrow> do {
         let buf = pool_buf E (mp (ndata s));
         let s = upd_ndata (\<lambda>n. n\<lparr>mp := p\<rparr>) s;
         fnd \<leftarrow> find_fn fn s;
         data \<leftarrow> marshal (take (argc fnd) (arg_lens fnd)) (arg_offsets fnd) args buf;
         let m = rpc_msg d fnd data s;
         let s = s\<lparr>nr_msgs := nr_msgs s + 1\<rparr>;
         (rc, s) \<leftarrow> tasvir_handle_msg_rpc E K m SRC_ME s;
         if rc \<noteq> 0 \<or> fn_flags fnd AND FN_NOACK \<noteq> 0 then Some (None, s)
         else do {
           let i = unat (m_id m);
           let s = (if rs_response (status_l s i) \<noteq> None then put_msg E s else s);
           Some (Some i, s\<lparr>status_l := (status_l s)(i := \<lparr>rs_do_free = False, rs_id = m_id m, rs_fnd = Some fnd,
                    rs_status = RPC_PENDING, rs_response = None\<rparr>)\<rparr>) } })"

definition tasvir_rpc ::
  "('p, 'r, 'n) env \<Rightarrow> ('p, 'r, 'n) calls \<Rightarrow> addr \<Rightarrow> tasvir_fn \<Rightarrow> u64 list list \<Rightarrow> ('p, 'r, 'n) tasvir \<Rightarrow>
   (nat option \<times> ('p, 'r, 'n) tasvir) option" where
  "tasvir_rpc E K d fn args s = tasvir_vrpc E K d fn args s"

definition clear_response :: "('p, 'r, 'n) env \<Rightarrow> nat \<Rightarrow> ('p, 'r, 'n) tasvir \<Rightarrow> ('p, 'r, 'n) tasvir" where
  "clear_response E i s =
    (if rs_response (status_l s i) \<noteq> None
     then put_msg E (s\<lparr>status_l := (status_l s)(i := (status_l s i)\<lparr>rs_response := None\<rparr>)\<rparr>) else s)"

text \<open>Whether the response of a finished call is visible to the caller.\<close>

definition response_visible :: "nat \<Rightarrow> tasvir_msg \<Rightarrow> ('p, 'r, 'n) tasvir \<Rightarrow> bool" where
  "response_visible i m s =
    (let d = m_d m; hh = rd s (d_h d);
         seen = (d = 0 \<or> (case rs_fnd (status_l s i) of Some f \<Rightarrow> fn_flags f AND FN_NOMODIFY \<noteq> 0 | None \<Rightarrow> False) \<or>
                 (hh \<noteq> 0 \<and> rd s (h_version hh) \<ge> m_version m))
     in seen \<and> (tasvir_is_booting s \<longrightarrow> \<not> has_flag (m_rw s (h_flags hh)) FLAG_EXT_PENDING))"

record rpc_wait_vars =
  v_done :: bool
  v_failed :: bool
  v_send_tsc :: u64
  v_resend_diff_tsc :: u64
  v_attempts :: int
  v_rs :: nat

text \<open>One iteration before its call of \<open>tasvir_service\<close>; \<open>Inl\<close> is the early return.\<close>

definition rpc_wait_step ::
  "('p, 'r, 'n) env \<Rightarrow> ('p, 'r, 'n) calls \<Rightarrow> addr \<Rightarrow> tasvir_fn \<Rightarrow> u64 list list \<Rightarrow> u64 \<Rightarrow> rpc_wait_vars \<Rightarrow>
   ('p, 'r, 'n) tasvir \<Rightarrow> ((unit + rpc_wait_vars) \<times> ('p, 'r, 'n) tasvir) option" where
  "rpc_wait_step E K d fn args now v s =
    (case rs_status (status_l s (v_rs v)) of
       RPC_PENDING \<Rightarrow>
         (if now - v_send_tsc v > v_resend_diff_tsc v then
            (if v_attempts v - 1 \<le> 0 then Some (Inr (v\<lparr>v_attempts := v_attempts v - 1, v_failed := True\<rparr>), s)
             else do {
               (rs, s) \<leftarrow> tasvir_vrpc E K d fn args (clear_response E (v_rs v) s);
               case rs of
                 None \<Rightarrow> Some (Inl (), s)
               | Some i \<Rightarrow> Some (Inr (v\<lparr>v_attempts := v_attempts v - 1, v_send_tsc := now,
                     v_resend_diff_tsc := v_resend_diff_tsc v * 2, v_rs := i\<rparr>), s) })
          else Some (Inr v, s))
     | RPC_DONE \<Rightarrow>
         (case rs_response (status_l s (v_rs v)) of
            None \<Rightarrow> Some (Inr (v\<lparr>v_failed := True\<rparr>), s)
          | Some m \<Rightarrow> if m_d m \<noteq> d then Some (Inr (v\<lparr>v_failed := True\<rparr>), s)
                      else Some (Inr (v\<lparr>v_done := response_visible (v_rs v) m s\<rparr>), s))
     | _ \<Rightarrow> Some (Inr (v\<lparr>v_failed := True\<rparr>), s))"

partial_function (option) rpc_wait_loop ::
  "('p, 'r, 'n) env \<Rightarrow> ('p, 'r, 'n) calls \<Rightarrow> addr \<Rightarrow> tasvir_fn \<Rightarrow> u64 list list \<Rightarrow> u64 \<Rightarrow> rpc_wait_vars \<Rightarrow>
   ('p, 'r, 'n) tasvir \<Rightarrow> ((unit + rpc_wait_vars) \<times> ('p, 'r, 'n) tasvir) option" where
  "rpc_wait_loop E K d fn args end_tsc v s =
    (if v_done v \<or> v_failed v then Some (Inr v, s)
     else let (now, s) = rdtsc s
          in if now < end_tsc
             then Option.bind (rpc_wait_step E K d fn args now v s) (\<lambda>(r, s).
                    case r of
                      Inl u \<Rightarrow> Some (Inl u, s)
                    | Inr v \<Rightarrow> Option.bind (k_service K s) (\<lambda>(_, s). rpc_wait_loop E K d fn args end_tsc v s))
             else Some (Inr v, s))"

text \<open>\<open>tasvir_rpc_wait\<close>: the return code, the words of the result, and the state.\<close>

definition tasvir_rpc_wait ::
  "('p, 'r, 'n) env \<Rightarrow> ('p, 'r, 'n) calls \<Rightarrow> u64 \<Rightarrow> addr \<Rightarrow> tasvir_fn \<Rightarrow> u64 list list \<Rightarrow> ('p, 'r, 'n) tasvir \<Rightarrow>
   (int \<times> u64 list \<times> ('p, 'r, 'n) tasvir) option" where
  "tasvir_rpc_wait E K timeout_us d fn args s =
    do { let (start, s) = rdtsc s;
         (rs, s) \<leftarrow> tasvir_vrpc E K d fn args s;
         case rs of
           None \<Rightarrow> Some (- 1, [], s)
         | Some i \<Rightarrow> do {
             (r, s) \<leftarrow> rpc_wait_loop E K d fn args (start + usec2tsc E timeout_us)
                \<lparr>v_done = False, v_failed = False, v_send_tsc = start, v_resend_diff_tsc = usec2tsc E 10000,
                 v_attempts = 100, v_rs = i\<rparr> s;
             case r of
               Inl _ \<Rightarrow> Some (- 1, [], s)
             | Inr v \<Rightarrow>
                 if v_failed v \<or> \<not> v_done v then Some (- 1, [], clear_response E (v_rs v) s)
                 else (case (rs_response (status_l s (v_rs v)), rs_fnd (status_l s (v_rs v))) of
                         (Some m, Some fnd) \<Rightarrow> Some (0, get_arg 0 (ret_len fnd) (m_data m), clear_response E (v_rs v) s)
                       | _ \<Rightarrow> None) } }"

section \<open>Calls and dropped messages\<close>

text \<open>
  A call that was sent starts out pending and without a response, whatever happened while it was sent. So a request to
  an area of the calling thread itself, which is answered before \<open>tasvir_vrpc\<close> returns, loses its response.
\<close>

lemma call_starts_pending:
  assumes "tasvir_vrpc E K d fn args s = Some (Some i, s')"
  shows "rs_status (status_l s' i) = RPC_PENDING \<and> rs_response (status_l s' i) = None \<and>
    (\<exists>fnd. rs_fnd (status_l s' i) = Some fnd \<and> fnptr fnd = fn \<and> fn_flags fnd AND FN_NOACK = 0)"
  using assms
  by (auto simp: tasvir_vrpc_def find_fn_def find_Some_iff Let_def split: option.splits Option.bind_splits if_splits prod.splits)

text \<open>A message from the network that is not for an area or a thread of this node is dropped and nothing else changes.\<close>

lemma misdirected_message_dropped:
  assumes "m_type m \<notin> {MSG_RPC_REQUEST, MSG_RPC_RESPONSE} \<or>
      m_type m = MSG_RPC_REQUEST \<and> src = SRC_NET \<and> \<not> tasvir_area_is_local s (m_d m) \<or>
      m_type m = MSG_RPC_RESPONSE \<and> src = SRC_NET \<and> nid (m_dst_tid m) \<noteq> nid (boot_tid (ndata s))"
  shows "tasvir_handle_msg_rpc E K m src s = Some (- 1, put_msg E s)"
  using assms by (auto simp: tasvir_handle_msg_rpc_def rpc_deliver_def Let_def)

end
