(* ===== verification/Tasvir_Marshal.thy ===== *)
theory Tasvir_Marshal
  imports Tasvir_Rpc
begin

text \<open>
  The arguments of a remote call: what \<open>tasvir_vrpc\<close> marshals is what the function reads back at the
  offsets that \<open>tasvir_rpc_fn_register\<close> computed.
\<close>

lemma align_arg_words: "8 dvd TASVIR_ALIGN_ARG n"
  by (simp add: TASVIR_ALIGN_ARG_def)

lemma length_arg_offsets [simp]: "length (arg_offsets_from ptr ns) = length ns"
  by (induction ns arbitrary: ptr) auto

section \<open>Bytes\<close>

text \<open>The \<open>n\<close> bytes at byte \<open>ofs\<close> of a block of words: what a function reads as its argument there.\<close>

definition arg_bytes :: "nat \<Rightarrow> nat \<Rightarrow> u64 list \<Rightarrow> u8 list" where
  "arg_bytes ofs n data = take n (drop ofs (concat (map word_bytes data)))"

lemma length_word_bytes [simp]: "length (word_bytes w) = 8"
  by (simp add: word_bytes_def)

lemma length_bytes: "length (concat (map word_bytes ws)) = 8 * length ws"
  by (induction ws) auto

lemma drop_bytes: "drop (8 * i) (concat (map word_bytes ws)) = concat (map word_bytes (drop i ws))"
proof (induction i arbitrary: ws)
  case (Suc i)
  then show ?case by (cases ws) simp_all
qed simp

lemma take_bytes: "take (8 * i) (concat (map word_bytes ws)) = concat (map word_bytes (take i ws))"
proof (induction i arbitrary: ws)
  case (Suc i)
  then show ?case by (cases ws) simp_all
qed simp

text \<open>Only the words of the place matter.\<close>

lemma arg_bytes_place:
  assumes "n \<le> 8 * k" "take k (drop i data) = ws"
  shows "arg_bytes (8 * i) n data = arg_bytes 0 n ws"
proof -
  have "take n (concat (map word_bytes (drop i data))) = take n (take (8 * k) (concat (map word_bytes (drop i data))))"
    using assms(1) by (simp add: min_absorb1)
  then show ?thesis by (simp add: arg_bytes_def drop_bytes take_bytes assms(2))
qed

text \<open>Words with the same lower half have the same first four bytes.\<close>

lemma low_bytes:
  assumes "\<And>j. j < 32 \<Longrightarrow> bit (x :: u64) j \<longleftrightarrow> bit y j" "k \<le> 4"
  shows "take k (word_bytes x) = take k (word_bytes y)"
proof -
  have "(ucast (drop_bit (8 * i) x) :: u8) = ucast (drop_bit (8 * i) y)" if "i < 4" for i
  proof (rule bit_word_eqI)
    fix b assume "b < LENGTH(8)"
    then have "8 * i + b < 32" using that by simp
    then show "bit (ucast (drop_bit (8 * i) x) :: u8) b \<longleftrightarrow> bit (ucast (drop_bit (8 * i) y) :: u8) b"
      using assms(1) [of "8 * i + b"] by (simp add: bit_ucast_iff bit_drop_bit_eq)
  qed
  then have "map (\<lambda>i. ucast (drop_bit (8 * i) x) :: u8) [0..<k] = map (\<lambda>i. ucast (drop_bit (8 * i) y)) [0..<k]"
    using assms(2) by (intro map_cong) auto
  then show ?thesis using assms(2) by (simp add: word_bytes_def take_map take_upt)
qed

lemma mask32_bit: "bit (0xffffffff :: u64) j \<longleftrightarrow> j < 32"
proof -
  have m: "(0xffffffff :: u64) = mask 32" by (simp add: mask_eq_exp_minus_1)
  show ?thesis unfolding m bit_mask_iff by auto
qed

lemma keep_low_half: "j < 32 \<Longrightarrow> bit ((x AND NOT 0xffffffff) OR (y AND 0xffffffff) :: u64) j \<longleftrightarrow> bit y j"
  by (simp only: bit_or_iff bit_and_iff bit_not_iff mask32_bit) simp

lemma int_half: "j < 32 \<Longrightarrow> bit (scast (ucast (w :: u64) :: u32) :: u64) j \<longleftrightarrow> bit w j"
proof -
  assume "j < 32"
  then have "min (LENGTH(32) - Suc 0) j = j" "j < 64" by simp_all
  then show ?thesis using \<open>j < 32\<close> by (simp add: bit_signed_iff bit_ucast_iff)
qed

section \<open>Marshalling\<close>

text \<open>
  An argument of \<open>n\<close> bytes in the words \<open>ws\<close> that the switch supports. An argument of five to seven bytes is none:
  it is passed as an \<open>int\<close> and loses its upper bytes.
\<close>

definition arg_ok :: "nat \<Rightarrow> u64 list \<Rightarrow> bool" where
  "arg_ok n ws \<longleftrightarrow> n \<in> {1, 2, 3, 4, 8, 12, 16, 64, 320, 512, TASVIR_STRLEN_MAX, unat sizeof_area_desc} \<and> length ws = TASVIR_ALIGN_ARG n div 8"

lemma align_arg_ge: "n \<le> 8 * (TASVIR_ALIGN_ARG n div 8)"
proof -
  have "n + 7 < 8 * ((n + 7) div 8) + 8" using dividend_less_div_times [of 8 "n + 7"] by (simp add: mult.commute)
  then show ?thesis by (simp add: TASVIR_ALIGN_ARG_def)
qed

lemma marshal_arg_12:
  assumes "length ws = 2" "length old = 2"
  shows "\<exists>vs. marshal_arg 12 ws old = Some vs \<and> length vs = 2 \<and> arg_bytes 0 12 vs = arg_bytes 0 12 ws"
proof -
  obtain a b where ws: "ws = [a, b]" using assms(1) by (auto simp: numeral_2_eq_2 length_Suc_conv)
  let ?v = "(old ! 1 AND NOT 0xffffffff) OR (b AND 0xffffffff)"
  have "marshal_arg 12 ws old = Some [a, ?v]"
    using assms by (simp add: marshal_arg_def ws TASVIR_STRLEN_MAX_def sizeof_area_desc_def)
  moreover have "take 4 (word_bytes ?v) = take 4 (word_bytes b)" by (rule low_bytes [OF keep_low_half]) simp_all
  then have "arg_bytes 0 12 [a, ?v] = arg_bytes 0 12 [a, b]" by (simp add: arg_bytes_def)
  ultimately show ?thesis by (auto simp: ws)
qed

lemma marshal_arg_bytes:
  assumes "arg_ok n ws" "length old = TASVIR_ALIGN_ARG n div 8"
  shows "\<exists>vs. marshal_arg n ws old = Some vs \<and> length vs = TASVIR_ALIGN_ARG n div 8 \<and> arg_bytes 0 n vs = arg_bytes 0 n ws"
proof -
  have len: "length ws = TASVIR_ALIGN_ARG n div 8" using assms(1) by (simp add: arg_ok_def)
  consider "n \<in> {8, 16, 64, 320, 512, TASVIR_STRLEN_MAX, unat sizeof_area_desc}" | "n = 12" | "n \<in> {1, 2, 3, 4}"
    using assms(1) unfolding arg_ok_def by blast
  then show ?thesis
  proof cases
    case 1
    then show ?thesis using len by (simp add: marshal_arg_def)
  next
    case 2
    then show ?thesis using marshal_arg_12 [of ws old] len assms(2) by (simp add: TASVIR_ALIGN_ARG_def)
  next
    case 3
    then have al: "TASVIR_ALIGN_ARG n div 8 = 1" "n \<le> 4" by (auto simp: TASVIR_ALIGN_ARG_def)
    then obtain w where w: "ws = [w]" using len by (auto simp: length_Suc_conv)
    have "n \<notin> {8, 16, 64, 320, 512, TASVIR_STRLEN_MAX, unat sizeof_area_desc}" "n \<noteq> 12"
      using 3 by (auto simp: TASVIR_STRLEN_MAX_def sizeof_area_desc_def)
    then have "marshal_arg n ws old = Some [scast (ucast w :: u32)]" using al(2) by (simp add: marshal_arg_def w)
    moreover have "arg_bytes 0 n [scast (ucast w :: u32)] = arg_bytes 0 n [w]"
      using low_bytes [of "scast (ucast w :: u32)" w n] int_half al(2) by (simp add: arg_bytes_def)
    ultimately show ?thesis using al(1) w by simp
  qed
qed

text \<open>
  Every argument is at its offset, and the words before the first and behind the last one are as they were.
\<close>

lemma marshal_keeps:
  assumes "list_all2 arg_ok ns args" "8 dvd ptr" "ptr div 8 + (\<Sum>n\<leftarrow>ns. TASVIR_ALIGN_ARG n div 8) \<le> length data"
  shows "\<exists>data'. marshal ns (arg_offsets_from ptr ns) args data = Some data' \<and> length data' = length data \<and>
    take (ptr div 8) data' = take (ptr div 8) data \<and>
    drop (ptr div 8 + (\<Sum>n\<leftarrow>ns. TASVIR_ALIGN_ARG n div 8)) data' = drop (ptr div 8 + (\<Sum>n\<leftarrow>ns. TASVIR_ALIGN_ARG n div 8)) data \<and>
    (\<forall>i < length ns. arg_bytes (arg_offsets_from ptr ns ! i) (ns ! i) data' = arg_bytes 0 (ns ! i) (args ! i))"
  using assms
proof (induction ns arbitrary: args ptr data)
  case (Cons n ns)
  then obtain ws args' where a: "args = ws # args'" "arg_ok n ws" "list_all2 arg_ok ns args'" by (auto simp: list_all2_Cons1)
  define k where "k = TASVIR_ALIGN_ARG n div 8"
  define i where "i = ptr div 8"
  let ?r = "\<Sum>n\<leftarrow>ns. TASVIR_ALIGN_ARG n div 8"
  have ptr: "ptr = 8 * i" "8 dvd ptr + TASVIR_ALIGN_ARG n" "(ptr + TASVIR_ALIGN_ARG n) div 8 = i + k"
    using Cons.prems(2) align_arg_words [of n] by (simp_all add: i_def k_def div_plus_div_distrib_dvd_left)
  have room: "i + k + ?r \<le> length data" using Cons.prems(3) by (simp add: i_def k_def add.assoc)
  have "length (get_arg ptr n data) = k" using room by (simp add: get_arg_def i_def [symmetric] k_def [symmetric])
  then obtain vs where vs: "marshal_arg n ws (get_arg ptr n data) = Some vs" "length vs = k" "arg_bytes 0 n vs = arg_bytes 0 n ws"
    using marshal_arg_bytes [OF a(2), of "get_arg ptr n data"] by (auto simp: k_def)
  define data1 where "data1 = take i data @ vs @ drop (i + k) data"
  have put: "put_arg ptr vs data = Some data1" using room vs(2) by (simp add: put_arg_def Let_def i_def [symmetric] data1_def)
  have d1: "length data1 = length data" "take i data1 = take i data" "drop (i + k) data1 = drop (i + k) data" "take k (drop i data1) = vs"
    using room vs(2) by (simp_all add: data1_def)
  obtain data' where IH: "marshal ns (arg_offsets_from (ptr + TASVIR_ALIGN_ARG n) ns) args' data1 = Some data'" "length data' = length data1"
    "take (i + k) data' = take (i + k) data1" "drop (i + k + ?r) data' = drop (i + k + ?r) data1"
    "\<forall>j < length ns. arg_bytes (arg_offsets_from (ptr + TASVIR_ALIGN_ARG n) ns ! j) (ns ! j) data' = arg_bytes 0 (ns ! j) (args' ! j)"
    using Cons.IH [OF a(3) ptr(2), of data1] room d1(1) unfolding ptr(3) by auto
  have "take i data' = take i (take (i + k) data')" "take k (drop i data') = drop i (take (i + k) data')"
    by (simp_all add: min_absorb1 take_drop add.commute)
  then have first: "take i data' = take i data" "take k (drop i data') = vs"
    unfolding IH(3) using d1(2,4) by (simp_all add: min_absorb1 take_drop add.commute)
  have rest: "drop (i + k + ?r) data' = drop (i + k + ?r) data"
    using IH(4) d1(3) by (metis add.commute drop_drop)
  have "arg_bytes ptr n data' = arg_bytes 0 n ws"
    unfolding ptr(1) using arg_bytes_place [OF _ first(2), of n] align_arg_ge [of n] vs(3) by (simp add: k_def)
  then have "arg_bytes (arg_offsets_from ptr (n # ns) ! j) ((n # ns) ! j) data' = arg_bytes 0 ((n # ns) ! j) (args ! j)"
    if "j < length (n # ns)" for j
    using that IH(5) by (cases j) (simp_all add: a(1))
  moreover have "marshal (n # ns) (arg_offsets_from ptr (n # ns)) args data = Some data'" using IH(1) vs(1) put by (simp add: a(1))
  ultimately show ?case
    using first(1) rest IH(2) d1(1) unfolding i_def [symmetric] by (intro exI [of _ data']) (simp add: k_def add.assoc)
qed simp

text \<open>A registered function gets the next identifier and the offsets of its arguments.\<close>

lemma register_desc:
  assumes "nr_fns s < TASVIR_NR_FN" "length (fn_descs s) = nr_fns s" "argc fnd \<le> TASVIR_NR_RPC_ARGS" "argc fnd \<le> length (arg_lens fnd)"
  shows "\<exists>s'. tasvir_rpc_fn_register fnd s = Some (0, s') \<and> nr_fns s' = Suc (nr_fns s) \<and> length (fn_descs s') = nr_fns s' \<and>
    fn_descs s' ! nr_fns s = fnd\<lparr>fid := nr_fns s,
      arg_offsets := arg_offsets_from (TASVIR_ALIGN_ARG (ret_len fnd)) (take (argc fnd) (arg_lens fnd))\<rparr> \<and>
    (\<forall>i < nr_fns s. fn_descs s' ! i = fn_descs s ! i)"
  using assms by (simp add: tasvir_rpc_fn_register_def nth_append)

end
