(* ===== verification/Tasvir_Demo.thy ===== *)
theory Tasvir_Demo
  imports Tasvir_Examples Tasvir_Job Tasvir_Alloc Tasvir_Stream Tasvir_Marshal
begin

text \<open>
  More concrete values for the examples: a container with room for eight areas, the facts the
  environment of lists satisfies, and a reader that waits for an update.
\<close>

section \<open>A container\<close>

definition root_mem :: "addr \<Rightarrow> u64" where
  "root_mem a = (if a = d_h demo_d then demo_h else if a = d_nr_areas_max demo_d then 8
     else if a = d_type demo_d then AREA_TYPE_CONTAINER else if a = h_d demo_h then demo_d
     else if a = l_data (h_diff_log demo_h 0) then 0x10000800000 else 0)"

definition root_demo :: "(nat, tasvir_msg list, tasvir_msg list) tasvir" where
  "root_demo = demo\<lparr>m_ro := root_mem\<rparr>"

definition shop_desc :: tasvir_area_desc where
  "shop_desc = \<lparr>a_pd = demo_d, a_h = 0, a_owner = 0x10000020000, a_len = 0x18000, a_offset_log_end = 0x10000, a_nr_areas_max = 0,
     a_name = [0x706F6873, 0, 0, 0], a_boot_us = 0, a_sync_int_us = 100000, a_sync_ext_us = 500000, a_type = AREA_TYPE_APP\<rparr>"

lemma root_rd: "rd root_demo = root_mem" "root_desc root_demo = demo_d"
  by (simp_all add: fun_eq_iff rd_def root_demo_def demo_def)

lemmas root_defs = root_rd root_mem_def demo_d_def demo_h_def AREA_TYPE_CONTAINER_def

lemma root_container: "container_ok root_demo demo_d" "nr_children root_demo demo_d = 0"
  by (simp_all add: container_ok_def container_shape_def children_apart_def names_distinct_def nr_children_def root_defs)

lemma root_align: "TASVIR_ALIGN 0x100000088C0 = 0x10000010000"
  unfolding TASVIR_ALIGN_def TASVIR_ALIGNX_def region_sizes by code_simp

lemma root_header: "alloc_header root_demo demo_d (tasvir_data root_demo demo_d) 0 = 0x10000010000"
  using root_align by (simp add: alloc_header_def tasvir_data_def root_defs sizeof_area_header_def sizeof_area_desc_def)

lemma root_slot: "\<exists>s1. alloc_slot shop_desc root_demo = Some (child (tasvir_data root_demo demo_d) 0, 0x10000010000, s1)"
proof -
  have "alloc_slot shop_desc root_demo \<noteq> None"
    unfolding alloc_slot_None using root_header root_container(2) by (simp add: shop_desc_def Let_def) (simp add: root_defs)
  then show ?thesis
    using root_header root_container(2) by (auto simp: alloc_slot_def Let_def shop_desc_def nr_children_def split: if_splits)
qed

lemma root_child: "child (tasvir_data root_demo demo_d) 0 \<noteq> root_desc root_demo"
  by (simp add: child_def tasvir_data_def root_defs sizeof_area_header_def sizeof_area_desc_def)

text \<open>A container with two children.\<close>

definition two_mem :: "addr \<Rightarrow> u64" where
  "two_mem a = (if a = h_nr_areas demo_h then 2
     else if a = d_h (demo_h + 1344) then 0x10000010000 else if a = d_len (demo_h + 1344) then 0x8000
     else if a = d_name (demo_h + 1344) then 97
     else if a = d_h (demo_h + 1456) then 0x10000018000 else if a = d_len (demo_h + 1456) then 0x8000
     else if a = d_name (demo_h + 1456) then 98 else root_mem a)"

definition two_demo :: "(nat, tasvir_msg list, tasvir_msg list) tasvir" where
  "two_demo = demo\<lparr>m_ro := two_mem\<rparr>"

lemma two_rd: "rd two_demo = two_mem"
  by (simp add: fun_eq_iff rd_def two_demo_def demo_def)

lemma strn_eq_chr: "strn_eq TASVIR_STRLEN_MAX x y \<Longrightarrow> chr x = chr y"
  by (simp add: TASVIR_STRLEN_MAX_def numeral_eq_Suc)

lemma chr_read_str: "chr (read_str s a) = ucast (rd s a)"
  by (simp add: chr_def read_str_def word_bytes_def TASVIR_STRLEN_MAX_def upt_conv_Cons)

lemma two_children: "child (tasvir_data two_demo demo_d) 0 = demo_h + 1344" "child (tasvir_data two_demo demo_d) (Suc 0) = demo_h + 1456"
  by (simp_all add: child_def tasvir_data_def two_rd two_mem_def root_defs sizeof_area_header_def sizeof_area_desc_def)

lemma two_container: "container_ok two_demo demo_d" "nr_children two_demo demo_d = 2"
proof -
  note defs = two_rd two_mem_def root_defs
  have two: "i < 2 \<longleftrightarrow> i = 0 \<or> i = Suc 0" for i by auto
  show n: "nr_children two_demo demo_d = 2" by (simp add: nr_children_def defs)
  have "container_shape two_demo demo_d" by (simp add: container_shape_def n) (simp add: defs)
  moreover have "children_apart two_demo demo_d"
    unfolding children_apart_def n Let_def two by (auto simp: two_children area_first_def area_end_def) (simp_all add: defs)
  moreover have "names_distinct two_demo demo_d"
    unfolding names_distinct_def n two child_name_def
    by (auto simp: two_children less_Suc_eq dest!: strn_eq_chr) (simp add: chr_read_str defs)
  ultimately show "container_ok two_demo demo_d" by (simp add: container_ok_def)
qed

section \<open>The environment of lists\<close>

lemma list_env_ok: "fifo_env list_env (\<lambda>r. r) (\<lambda>n. n)" "fair_env list_env (\<lambda>r. r)"
proof -
  show "fifo_env list_env (\<lambda>r. r) (\<lambda>n. n)" by (auto simp: fifo_env_def list_env_def min_def split: if_splits)
  have "(tx_free list_env n ^^ k) p = p + 8 * k" for n p k by (induction k) (simp_all add: list_env_def)
  then have "pool_get_bulk list_env ((tx_free list_env n ^^ 4) p) 32 \<noteq> None" for n p by (simp add: list_env_def)
  then have "fair_pool list_env" unfolding fair_pool_def TASVIR_PKT_BURST_def by blast
  then show "fair_env list_env (\<lambda>r. r)" by (auto simp: fair_env_def fair_tx_def list_env_def TASVIR_PKT_BURST_def split: if_splits)
qed

section \<open>A stream of one message\<close>

definition demo_msg :: tasvir_msg where
  "demo_msg = null_msg\<lparr>m_type := MSG_MEM, m_d := demo_d, m_version := 1, m_addr := demo_h + 4096, m_len := 64, m_last := True,
     m_prev_bytes := 0, m_pkt_len := 192, m_line := stream_line (\<lambda>_. 9) 64\<rparr>"

definition demo_sender :: "(nat, tasvir_msg list, tasvir_msg list) tasvir" where
  "demo_sender = demo\<lparr>m_ro := (m_ro demo)(h_version demo_h := 1, demo_h + 4096 := 9), nic := [demo_msg]\<rparr>"

lemma demo_stream: "mem_stream demo_d 1 True (\<lambda>_. 9) (demo_h + 4096) 64 0 [demo_msg]"
  by (simp add: demo_msg_def null_msg_def)

lemma demo_rx: "rd demo (d_h demo_d) = demo_h" "demo_h \<noteq> 0" "rx_ready demo demo_h 1 0" "data_range (demo_h + 4096) 64"
  "words_of (demo_h + 4096) 64 \<inter> rx_fields demo_h = {}" "d_h demo_d \<notin> words_of (demo_h + 4096) 64 \<union> rx_fields demo_h"
proof -
  have e: "{0..<unat (64 :: u64) div 8} = {0, 1, 2, 3, 4, 5, 6, 7}" by auto
  have w: "words_of (demo_h + 4096) 64 = (\<lambda>j. demo_h + 4096 + 8 * of_nat j) ` {0, 1, 2, 3, 4, 5, 6, 7}"
    unfolding words_of_def e by (rule refl)
  show "rd demo (d_h demo_d) = demo_h" "demo_h \<noteq> 0" "rx_ready demo demo_h 1 0" "data_range (demo_h + 4096) 64"
    by (simp_all add: rx_ready_def data_range_def has_flag_def demo_defs rd_def)
  show "words_of (demo_h + 4096) 64 \<inter> rx_fields demo_h = {}" "d_h demo_d \<notin> words_of (demo_h + 4096) 64 \<union> rx_fields demo_h"
    unfolding w by (auto simp: rx_fields_def demo_h_def demo_d_def)
qed

lemma demo_word: "demo_h + 4096 \<in> words_of (demo_h + 4096) 64" "demo_h + 4096 \<notin> rx_fields demo_h"
proof -
  show "demo_h + 4096 \<in> words_of (demo_h + 4096) 64" unfolding words_of_def by (rule image_eqI [of _ _ 0]) simp_all
  then show "demo_h + 4096 \<notin> rx_fields demo_h" using demo_rx(5) by blast
qed

text \<open>A reader in the middle of version 1, and a message that comes too early.\<close>

definition demo_pending :: "(nat, tasvir_msg list, tasvir_msg list) tasvir" where
  "demo_pending = demo\<lparr>m_rw := (m_rw demo)(h_flags demo_h := FLAG_EXT_PENDING, h_last_sync_ext_v demo_h := 1, h_last_sync_ext_bytes demo_h := 64)\<rparr>"

definition demo_late :: tasvir_msg where
  "demo_late = demo_msg\<lparr>m_last := False, m_prev_bytes := 128\<rparr>"

lemma demo_gap:
  "rd demo_pending (d_h (m_d demo_late)) = demo_h" "demo_h \<noteq> 0" "\<not> has_flag (m_rw demo_pending (h_flags demo_h)) FLAG_EXT_ENQUEUE"
  "m_rw demo_pending (h_last_sync_ext_v demo_h) = m_version demo_late" "\<not> has_flag (m_rw demo_pending (h_flags demo_h)) FLAG_EXT_IGNORE"
  "has_flag (m_rw demo_pending (h_flags demo_h)) FLAG_EXT_PENDING" "m_rw demo_pending (h_last_sync_ext_bytes demo_h) \<noteq> m_prev_bytes demo_late"
  "m_line demo_late = stream_line (\<lambda>_. 9) (unat (m_len demo_late))" "64 dvd unat (m_len demo_late)" "m_len demo_late \<noteq> 0"
  "words_of (m_addr demo_late) (m_len demo_late) \<inter> rx_fields demo_h = {}" "\<not> m_last demo_late"
  using demo_rx by (simp_all add: demo_late_def demo_msg_def null_msg_def demo_pending_def rd_def demo_def has_flags bit_flags)

lemma demo_late_again: "rd (tasvir_handle_msg_mem list_env demo_late demo_pending) (d_h (m_d demo_late)) = demo_h"
proof -
  have "\<not> tasvir_is_booting demo_pending" by (simp add: tasvir_is_booting_def demo_pending_def my_tdata_def demo_def demo_ndata_def null_tdata_def)
  then show ?thesis
    unfolding handle_gap [OF demo_gap(1-7)]
    by (simp add: apply_lines_def finish_update_def demo_late_def demo_msg_def null_msg_def rd_def rw_flags_def wr_rw_def tlog_def
        tasvir_is_booting_def my_tdata_def) (simp add: demo_pending_def demo_defs)
qed

section \<open>The messages of a stream\<close>

lemma mem_stream_length: "mem_stream d v is_last mem p n prev ms \<Longrightarrow> length ms = (unat n + 1343) div 1344"
proof (induction ms arbitrary: p n prev)
  case (Cons m ms)
  let ?l = "min 1344 n"
  have "m_len m = ?l" "mem_stream d v is_last mem (p + m_len m) (n - m_len m) (prev + m_len m) ms"
    using Cons.prems unfolding mem_stream.simps by blast+
  then have "length ms = (unat (n - ?l) + 1343) div 1344" using Cons.IH by metis
  moreover have "(unat n + 1343) div 1344 = Suc ((unat (n - ?l) + 1343) div 1344)"
  proof (cases "n \<le> 1344")
    case True
    have "0 < unat n" using Cons.prems by (simp add: unat_gt_0)
    moreover have "unat n \<le> 1344" using True by (simp add: word_le_nat_alt)
    ultimately have "(unat n + 1343) div 1344 = 1" by (intro div_nat_eqI) auto
    then show ?thesis using True by simp
  next
    case False
    then have "1344 \<le> unat n" "min 1344 n = 1344" by (simp_all add: word_le_nat_alt)
    then have "unat (n - ?l) = unat n - 1344" by (simp add: unat_sub word_le_nat_alt)
    then show ?thesis using \<open>1344 \<le> unat n\<close> by (simp add: le_div_geq)
  qed
  ultimately show ?case by simp
qed simp

lemma mem_stream_bounds:
  "mem_stream d v is_last mem p n prev ms \<Longrightarrow> \<forall>m\<in>set ms. unat (m_pkt_len m) \<le> 1472 \<and> 0 < unat (m_len m)"
proof (induction ms arbitrary: p n prev)
  case (Cons m ms)
  have l: "m_len m = min 1344 n" "m_pkt_len m = ucast (m_len m) + 128" "n \<noteq> 0" using Cons.prems by simp_all
  have "unat (m_len m) \<le> 1344" by (simp add: l min_def word_le_nat_alt)
  moreover from this have "unat (ucast (m_len m) :: u32) = unat (m_len m)"
    by (simp add: unsigned_ucast_eq take_bit_nat_eq_self)
  ultimately have "unat (m_pkt_len m) \<le> 1472" unfolding l(2) by (subst unat_word_ariths) simp
  moreover have "0 < unat (m_len m)" using l(1,3) by (simp add: min_def unat_gt_0)
  ultimately show ?case using Cons by auto
qed simp

section \<open>A remote call\<close>

text \<open>The daemon with one registered function that takes no argument.\<close>

definition call_demo :: "(nat, tasvir_msg list, tasvir_msg list) tasvir" where
  "call_demo = demo\<lparr>fn_descs := [fn_desc ''get'' (Fn_app 1) 8 []], nr_fns := 1\<rparr>"

lemma rd_msgs: "rd (s\<lparr>nr_msgs := k\<rparr>) = rd s"
  by (simp add: rd_def fun_eq_iff)

lemma demo_call: "\<exists>i s'. tasvir_vrpc list_env K demo_d (Fn_app 1) [] call_demo = Some (Some i, s')"
proof -
  define t where "t = upd_ndata (\<lambda>n. n\<lparr>mp := 63\<rparr>) call_demo"
  have t: "is_daemon t" "ring_ext_tx (ndata t) = []" "\<not> tasvir_area_is_local t demo_d" "fn_descs t = [fn_desc ''get'' (Fn_app 1) 8 []]"
    by (simp_all add: t_def call_demo_def tasvir_area_is_local_def upd_ndata_def rd_def has_flag_def demo_defs)
  have sent: "\<exists>s'. tasvir_handle_msg_rpc list_env K m SRC_ME (t\<lparr>nr_msgs := k\<rparr>) = Some (0, s')"
    if "m_type m = MSG_RPC_REQUEST" "m_d m = demo_d" for m k
  proof -
    have "\<not> tasvir_area_is_local (t\<lparr>nr_msgs := k\<rparr>) demo_d" using t(3) by (simp add: tasvir_area_is_local_def rd_msgs)
    then have "tasvir_handle_msg_rpc list_env K m SRC_ME (t\<lparr>nr_msgs := k\<rparr>) = route_msg list_env m False (t\<lparr>nr_msgs := k\<rparr>)"
      using that by (simp add: tasvir_handle_msg_rpc_def rpc_deliver_def)
    then show ?thesis using t(1,2) by (simp add: route_msg_def tasvir_populate_msg_nethdr_def Let_def list_env_def)
  qed
  let ?f = "fn_desc ''get'' (Fn_app 1) 8 []"
  have p: "pool_get list_env (mp (ndata call_demo)) = Some 63" by (simp add: call_demo_def list_env_def demo_defs)
  have f: "find_fn (Fn_app 1) t = Some ?f" using t(4) by (simp add: find_fn_def fn_desc_def)
  have m: "m_type (rpc_msg demo_d ?f data t) = MSG_RPC_REQUEST" "m_d (rpc_msg demo_d ?f data t) = demo_d" for data
    by (simp_all add: rpc_msg_def Let_def)
  obtain s1 where s1: "tasvir_handle_msg_rpc list_env K (rpc_msg demo_d ?f (pool_buf list_env (mp (ndata call_demo))) t) SRC_ME (t\<lparr>nr_msgs := nr_msgs t + 1\<rparr>) = Some (0, s1)"
    using sent [OF m] by blast
  have d: "marshal (take (argc ?f) (arg_lens ?f)) (arg_offsets ?f) [] data = Some data"
    "fn_flags ?f AND FN_NOACK = 0" for data
    by (simp_all add: fn_desc_def TASVIR_ALIGN_ARG_def FN_NOACK_def)
  have "\<exists>i s'. tasvir_vrpc list_env K demo_d (Fn_app 1) [] call_demo = Some (Some i, s')"
    unfolding tasvir_vrpc_def p option.case t_def [symmetric]
    using f d s1 by (auto simp add: Let_def)
  then show ?thesis .
qed

section \<open>A job\<close>

text \<open>A job for the area of the example, in chunks of 32 KiB.\<close>

text \<open>
  A job of an area in use: the owner maps the writer copy, whose flags say so and whose version is one
  ahead of the readers', as the last job left it; the lines of the header are clean, and a word of the
  data has been written and logged. The private log is behind the area.
\<close>

definition area_mem :: "u64 \<Rightarrow> u64 \<Rightarrow> addr \<Rightarrow> u64" where
  "area_mem fl ver a = (if a = h_flags demo_h then fl else if a = h_version demo_h then ver
     else if a = l_data (h_diff_log demo_h 0) then demo_h + 0x8000 else demo_mem a)"

definition demo_job :: "(nat, tasvir_msg list, tasvir_msg list) tasvir" where
  "demo_job = demo\<lparr>m_ro := area_mem 5 7, m_rw := (area_mem 7 8)(demo_h + 0x1000 := 42),
     m_log := tasvir_log (demo_h + 0x1000) 8 (\<lambda>_. 0), va_rw := (\<lambda>a. demo_h \<le> a), is_daemon := False,
     ndata := demo_ndata\<lparr>job_bytes := 0x8000, nr_jobs := 1,
     jobs := [\<lparr>j_d = demo_d, j_self_sync = False, j_done_stage1 = False, j_done_stage2 = False, j_done_stage3 = False,
       j_offset = 0, j_bytes_seen = 0, j_bytes_updated = 0\<rparr>]\<rparr>\<rparr>"

lemmas demo_job_defs = demo_job_def demo_def demo_ndata_def area_mem_def demo_mem_def demo_d_def demo_h_def

lemma demo_job_flags: "FLAG_ACTIVE OR FLAG_LOCAL = 5" "FLAG_ACTIVE OR FLAG_LOCAL OR FLAG_MAPPED_RW = 7"
  by (simp_all add: FLAG_ACTIVE_def FLAG_LOCAL_def FLAG_MAPPED_RW_def)

lemma demo_job_sel:
  "my_tdata demo_job = null_tdata" "tdata_idx demo_job = 0" "tdata (ndata demo_job) = [null_tdata]"
  "j_d (job 0 demo_job) = demo_d" "rd demo_job (d_offset_log_end demo_d) = 0x8000" "rd demo_job (d_h demo_d) = demo_h"
  "rd demo_job (h_flags demo_h) = 7" "rd demo_job (l_data (h_diff_log demo_h 0)) = demo_h + 0x8000"
  by (simp_all add: demo_job_defs rd_def my_tdata_def job_def)

lemma demo_job_log: "private_log demo_job demo_d = demo_h + 0x8000" "range_first demo_job demo_d 0 = 512"
  unfolding private_log_def tasvir_area_is_local_def has_flag_def range_first_def demo_job_sel
  by (simp_all add: FLAG_LOCAL_def demo_h_def)

lemma demo_job_words: "a \<in> log_words (demo_h + 0x8000) 0 8 \<Longrightarrow> data_word a \<and> line_of a = 1024"
proof -
  assume "a \<in> log_words (demo_h + 0x8000) 0 8"
  then obtain k where k: "k < 8" "a = 0x10000010000 + 8 * of_nat k"
    by (auto simp: log_words_def unit_addrs_def demo_h_def)
  then have "k = 0 \<or> k = 1 \<or> k = 2 \<or> k = 3 \<or> k = 4 \<or> k = 5 \<or> k = 6 \<or> k = 7" by arith
  then show ?thesis using k(2) by (elim disjE) (simp_all add: data_word_def line_of_def)
qed

lemma demo_job_ready: "job_ready 0 demo_job"
proof -
  have "kept demo_job demo_d 0x8000 a"
    if "a \<in> {d_h demo_d, d_offset_log_end demo_d, h_flags demo_h, l_data (h_diff_log demo_h 0)}" for a
  proof -
    have "line_of a \<noteq> 1024" "data_word a" using that by (auto simp: line_of_def data_word_def demo_d_def demo_h_def)
    moreover have "va_rw demo_job a \<or> m_ro demo_job a = m_rw demo_job a" using that by (auto simp: demo_job_defs)
    ultimately show ?thesis using demo_job_words [of a] by (auto simp: kept_def demo_job_log)
  qed
  then have "area_ready demo_job demo_d 0x8000"
    using demo_job_words by (simp add: area_ready_def Let_def demo_job_sel demo_job_log) (simp add: demo_h_def)
  then show ?thesis
    by (simp add: job_ready_def Let_def demo_job_sel)
      (simp add: demo_job_def demo_ndata_def job_def null_tdata_def null_sync_list_ok)
qed

lemma demo_job_dirty: "log_dirty (m_log demo_job) 576" "line_of (demo_h + 0x1000) = 576" "data_word (demo_h + 0x1000)"
  using tasvir_log_dirty [of 8 "demo_h + 0x1000" 576 "\<lambda>_. 0"]
  by (simp_all add: demo_job_def) (simp_all add: line_of_def demo_h_def data_word_def)

end
