(* ===== verification/Tasvir_Init.thy ===== *)
theory Tasvir_Init
  imports Tasvir_Rpc
begin

text \<open>
  \<open>src/init.c\<close>: the boot of the root area, of the node area and of a thread.
\<close>

definition TASVIR_HEARTBEAT_US :: u64 where "TASVIR_HEARTBEAT_US = 1 * 1000 * 1000"
definition GB :: u64 where "GB = 1000 * (1000 * (1000 * 1))"

section \<open>Text\<close>

fun digits :: "nat \<Rightarrow> nat \<Rightarrow> nat \<Rightarrow> u8 list" where
  "digits b 0 n = []"
| "digits b (Suc f) n = (if n < b then [] else digits b f (n div b)) @
     [let k = n mod b in if k < 10 then of_nat (48 + k) else of_nat (87 + k)]"

text \<open>\<open>ether_ntoa_r\<close>: the six bytes in hexadecimal, without leading zeros, separated by colons.\<close>

definition mac_byte :: "mac_addr \<Rightarrow> nat \<Rightarrow> nat" where
  "mac_byte m i = unat (drop_bit (8 * i) m AND 0xff)"

definition ether_ntoa :: "mac_addr \<Rightarrow> cstr" where
  "ether_ntoa m = digits 16 2 (mac_byte m 0) @ concat (map (\<lambda>i. 58 # digits 16 2 (mac_byte m i)) [1..<6])"

definition ascii :: "string \<Rightarrow> cstr" where
  "ascii cs = map (\<lambda>c. of_char c) cs"

definition bytes_word :: "u8 list \<Rightarrow> u64" where
  "bytes_word bs = horner_sum (\<lambda>b. ucast b) 256 bs"

text \<open>A string in a \<open>tasvir_str\<close> initialised with NULs, as words.\<close>

definition str_words :: "cstr \<Rightarrow> u64 list" where
  "str_words x = map (\<lambda>i. bytes_word (take 8 (drop (8 * i) (x @ replicate 32 0)))) [0..<4]"

section \<open>The root area\<close>

definition read_desc :: "('p, 'r, 'n) tasvir \<Rightarrow> addr \<Rightarrow> tasvir_area_desc" where
  "read_desc s d = desc_of_words (map (\<lambda>i. rd s (d + 8 * of_nat i)) [0..<14])"

definition root_setup :: "('p, 'r, 'n) tasvir \<Rightarrow> ('p, 'r, 'n) tasvir" where
  "root_setup s =
    (let d = root_desc s;
         s = wr (d_h d) (TASVIR_ALIGN (d + sizeof_area_desc)) (wr (d_owner d) 0 (wr (d_pd d) 0 s));
         s = wr (d_offset_log_end d) (TASVIR_ALIGN (sizeof_area_header + of_nat TASVIR_NR_AREAS * sizeof_area_desc)) s;
         s = wr (d_name d) ((rd s (d_name d) AND NOT 0xffff) OR ucast slash) (wr (d_type d) AREA_TYPE_CONTAINER s)
     in wr (d_nr_areas_max d) (of_nat TASVIR_NR_AREAS) (wr (d_len d) (TASVIR_SIZE_DATA - GB) s))"

definition tasvir_init_root ::
  "('p, 'r, 'n) env \<Rightarrow> ('p, 'r, 'n) calls \<Rightarrow> ('p, 'r, 'n) tasvir \<Rightarrow> (int \<times> ('p, 'r, 'n) tasvir) option" where
  "tasvir_init_root E K s =
    do { let s = s\<lparr>root_desc := TASVIR_ADDR_DATA\<rparr>;
         let s = (if is_daemon s then root_setup s else s);
         (d, s) \<leftarrow> (if is_root s then do { (d, s) \<leftarrow> tasvir_new E K (read_desc s (root_desc s)) s; Some (Some d, s) }
                    else tasvir_attach_wait E K (15 * S2US) [slash] s);
         case d of
           None \<Rightarrow> None
         | Some d \<Rightarrow> Some (if d = 0 \<or> rd s (d_h d) = 0 then - 1 else if d \<noteq> root_desc s then - 1 else 0, s) }"

section \<open>The node area\<close>

definition node_name :: "('p, 'r, 'n) tasvir \<Rightarrow> cstr" where
  "node_name s = ascii ''node-'' @ ether_ntoa (mac_addr (ndata s))"

text \<open>\<open>memset(p, 0, n)\<close> through a plain pointer\<close>

definition zero_plain :: "addr \<Rightarrow> u64 \<Rightarrow> ('p, 'r, 'n) tasvir \<Rightarrow> ('p, 'r, 'n) tasvir" where
  "zero_plain p n s =
     s\<lparr>m_rw := (\<lambda>a. if va_rw s a then zero_words p n (m_rw s) a else m_rw s a),
       m_ro := (\<lambda>a. if va_rw s a then m_ro s a else zero_words p n (m_ro s) a)\<rparr>"

definition tasvir_init_node ::
  "('p, 'r, 'n) env \<Rightarrow> ('p, 'r, 'n) calls \<Rightarrow> ('p, 'r, 'n) tasvir \<Rightarrow> (int \<times> ('p, 'r, 'n) tasvir) option" where
  "tasvir_init_node E K s =
    (if is_daemon s then do {
       (d, s) \<leftarrow> tasvir_new E K \<lparr>a_pd = root_desc s, a_h = 0, a_owner = 0, a_len = sizeof_node, a_offset_log_end = 0,
                   a_nr_areas_max = 0, a_name = str_words (node_name s), a_boot_us = 0, a_sync_int_us = 0,
                   a_sync_ext_us = 0, a_type = AREA_TYPE_NODE\<rparr> s;
       let s = s\<lparr>node_desc := d\<rparr>;
       if d = 0 then Some (- 1, s)
       else do {
         let nd = tasvir_data s d;
         let s = zero_plain nd sizeof_node (s\<lparr>node := nd\<rparr>);
         let s = wr (n_heartbeat_us nd) TASVIR_HEARTBEAT_US (wr (n_nid nd) (ucast (mac_addr (ndata s))) s);
         Some (0, tlog nd sizeof_node s) } }
     else do {
       (d, s) \<leftarrow> tasvir_attach_wait E K (500 * MS2US) (node_name s) s;
       case d of
         None \<Rightarrow> None
       | Some d \<Rightarrow>
           (let s = s\<lparr>node_desc := d\<rparr>
            in if d = 0 \<or> rd s (h_d (rd s (d_h d))) = 0 then Some (- 1, s)
               else (let s = s\<lparr>node := tasvir_data s d\<rparr>; (t, s) = tasvir_time_us E s
                     in Some (if rd s (d_h d) = 0 \<or> t - time_us (ndata s) > rd s (d_sync_int_us d) then - 1 else 0, s))) })"

section \<open>Threads\<close>

text \<open>The first index of the daemon's table whose thread neither runs nor boots.\<close>

definition thread_busy :: "'r tasvir_local_tdata \<Rightarrow> bool" where
  "thread_busy t \<longleftrightarrow> t_state t = THREAD_RUNNING \<or> t_state t = THREAD_BOOTING"

definition free_thread :: "('p, 'r, 'n) tasvir \<Rightarrow> nat option" where
  "free_thread s = find (\<lambda>i. \<not> thread_busy (tdata (ndata s) ! i)) [0..<TASVIR_NR_THREADS_LOCAL]"

definition ring_name :: "string \<Rightarrow> nat \<Rightarrow> string" where
  "ring_name p i = p @ map (\<lambda>b. char_of (unat b)) (digits 10 2 i)"

text \<open>\<open>tasvir_init_thread\<close>: the address of the thread, 0 for NULL.\<close>

definition tasvir_init_thread ::
  "('p, 'r, 'n) env \<Rightarrow> ('p, 'r, 'n) calls \<Rightarrow> u32 \<Rightarrow> ('p, 'r, 'n) tasvir \<Rightarrow> (addr \<times> ('p, 'r, 'n) tasvir) option" where
  "tasvir_init_thread E K p s =
    (if is_daemon s then
       (case free_thread s of
          None \<Rightarrow> Some (0, s)
        | Some i \<Rightarrow>
            (let t = n_thread (node s) i;
                 s = wr (t_time_us t) 0 s;
                 s = wr (t_nid_idx t) (take_bit 48 (rd s (n_nid (node s))) OR push_bit 48 (of_nat i)) s;
                 s = wr (t_pid_state t) (ucast p OR push_bit 32 (thread_state_code THREAD_BOOTING)) s;
                 s = tlog t sizeof_thread s;
                 rtx = ring_create E (ring_name ''tasvir_tx_'' i); rrx = ring_create E (ring_name ''tasvir_rx_'' i);
                 s = upd_tdata i (\<lambda>_. zero_tdata\<lparr>t_state := THREAD_BOOTING, t_ring_tx := rtx, t_ring_rx := rrx\<rparr>) s
             in Some (if rtx = None \<or> rrx = None then 0 else t, s)))
     else do {
       (rc, ret, s) \<leftarrow> k_rpc_wait K S2US (node_desc s) Fn_init_thread [[ucast p]] s;
       Some (if rc \<noteq> 0 then 0 else ret ! 0, s) })"

text \<open>The daemon's own last steps: it becomes the owner and a user of the root and node areas.\<close>

definition backfill_owners ::
  "('p, 'r, 'n) env \<Rightarrow> ('p, 'r, 'n) calls \<Rightarrow> ('p, 'r, 'n) tasvir \<Rightarrow> (bool \<times> ('p, 'r, 'n) tasvir) option" where
  "backfill_owners E K s =
    do { (rc, s) \<leftarrow> (if is_root s then tasvir_update_owner E K (root_desc s) (thread s) s else Some (0, s));
         if rc \<noteq> 0 then Some (False, s)
         else do {
           (rc, s) \<leftarrow> tasvir_update_owner E K (node_desc s) (thread s) s;
           if rc \<noteq> 0 then Some (False, s)
           else do {
             (rc, s) \<leftarrow> tasvir_area_add_user_wait E K (100 * MS2US) (root_desc s) (node s) (- 1) s;
             if rc \<noteq> 0 then Some (False, s)
             else do {
               (rc, s) \<leftarrow> tasvir_area_add_user_wait E K (100 * MS2US) (node_desc s) (node s) (- 1) s;
               Some (rc = 0, s) } } } }"

definition set_thread_state :: "addr \<Rightarrow> tasvir_thread_state \<Rightarrow> ('p, 'r, 'n) tasvir \<Rightarrow> ('p, 'r, 'n) tasvir" where
  "set_thread_state t st s =
     wr (t_pid_state t) (take_bit 32 (rd s (t_pid_state t)) OR push_bit 32 (thread_state_code st)) s"

definition tasvir_init_finish ::
  "('p, 'r, 'n) env \<Rightarrow> ('p, 'r, 'n) calls \<Rightarrow> addr \<Rightarrow> ('p, 'r, 'n) tasvir \<Rightarrow> (int \<times> ('p, 'r, 'n) tasvir) option" where
  "tasvir_init_finish E K t s =
    (let i = unat (idx (read_tid s t))
     in if length (tdata (ndata s)) \<le> i then None
        else if t_state (tdata (ndata s) ! i) \<noteq> THREAD_BOOTING then Some (- 1, s)
        else if \<not> assert_ok s (thread s \<noteq> 0 \<and> node s \<noteq> 0) then None
        else do {
          (ok, s) \<leftarrow> (if is_daemon s then do {
                        (ok, s) \<leftarrow> (if t = thread s then backfill_owners E K s else Some (True, s));
                        if \<not> ok then Some (False, s)
                        else Some (True, upd_tdata i (\<lambda>td. td\<lparr>t_state := THREAD_RUNNING, t_state_req := THREAD_RUNNING\<rparr>)
                               (set_thread_state t THREAD_RUNNING (tlog (t_pid_state t + 4) 4 s))) }
                      else do {
                        (rc, ret, s) \<leftarrow> k_rpc_wait K S2US (node_desc s) Fn_init_finish [[t]] s;
                        Some (rc = 0 \<and> rpc_int ret = 0, s) });
          if \<not> ok then Some (- 1, s)
          else if t = thread s \<and> \<not> tasvir_is_running s then Some (- 1, s)
          else do {
            s \<leftarrow> (if is_daemon s then do { (_, s) \<leftarrow> tasvir_sync_external_area E (node_desc s) s; Some s } else Some s);
            Some (0, s) } })"

end
