(* ===== verification/Tasvir_Stat.thy ===== *)
theory Tasvir_Stat
  imports Tasvir_Sync_External
begin

text \<open>\<open>src/stat.c\<close>: the counters of the current interval are added to the totals and cleared.\<close>

definition TASVIR_STAT_US :: u64 where "TASVIR_STAT_US = 1 * 1000 * 1000"

definition zero_stats :: tasvir_stats where
  "zero_stats = \<lparr>isync_success = 0, isync_failure = 0, isync_barrier_us = 0, isync_us = 0, isync_changed_bytes = 0,
     isync_processed_bytes = 0, esync_cnt = 0, esync_us = 0, esync_changed_bytes = 0, esync_processed_bytes = 0,
     rx_bytes = 0, tx_bytes = 0, rx_pkts = 0, tx_pkts = 0\<rparr>"

definition add_stats :: "tasvir_stats \<Rightarrow> tasvir_stats \<Rightarrow> tasvir_stats" where
  "add_stats avg cur = \<lparr>isync_success = isync_success avg + isync_success cur,
     isync_failure = isync_failure avg + isync_failure cur,
     isync_barrier_us = isync_barrier_us avg + isync_barrier_us cur, isync_us = isync_us avg + isync_us cur,
     isync_changed_bytes = isync_changed_bytes avg + isync_changed_bytes cur,
     isync_processed_bytes = isync_processed_bytes avg + isync_processed_bytes cur,
     esync_cnt = esync_cnt avg + esync_cnt cur, esync_us = esync_us avg + esync_us cur,
     esync_changed_bytes = esync_changed_bytes avg + esync_changed_bytes cur,
     esync_processed_bytes = esync_processed_bytes avg + esync_processed_bytes cur,
     rx_bytes = rx_bytes avg + rx_bytes cur, tx_bytes = tx_bytes avg + rx_bytes cur,
     rx_pkts = rx_pkts avg + rx_pkts cur, tx_pkts = tx_pkts avg + rx_pkts cur\<rparr>"

definition tasvir_stats_update :: "('p, 'r, 'n) tasvir \<Rightarrow> ('p, 'r, 'n) tasvir" where
  "tasvir_stats_update s =
    (if time_us (ndata s) - last_stat (ndata s) = 0 then s
     else upd_ndata (\<lambda>n. n\<lparr>last_stat := time_us n, stats := add_stats (stats n) (stats_cur n),
            stats_cur := zero_stats, stat_update_req := False\<rparr>) s)"

partial_function (option) stat_wait ::
  "('p, 'r, 'n) env \<Rightarrow> (('p, 'r) tasvir_local_ndata \<Rightarrow> bool) \<Rightarrow> ('p, 'r, 'n) tasvir \<Rightarrow> ('p, 'r, 'n) tasvir option" where
  "stat_wait E req s = (if req (ndata s) then stat_wait E req (others E s) else Some s)"

definition tasvir_stats_get ::
  "('p, 'r, 'n) env \<Rightarrow> ('p, 'r, 'n) tasvir \<Rightarrow> (tasvir_stats \<times> ('p, 'r, 'n) tasvir) option" where
  "tasvir_stats_get E s =
    do { s \<leftarrow> stat_wait E stat_update_req (upd_ndata (\<lambda>n. n\<lparr>stat_update_req := True\<rparr>) s);
         Some (stats (ndata s), s) }"

definition tasvir_stats_reset :: "('p, 'r, 'n) env \<Rightarrow> ('p, 'r, 'n) tasvir \<Rightarrow> ('p, 'r, 'n) tasvir option" where
  "tasvir_stats_reset E s =
    (if is_daemon s
     then Some (upd_ndata (\<lambda>n. n\<lparr>stats := zero_stats, stats_cur := zero_stats, last_stat := time_us n,
            last_sync_int_start := time_us n, last_sync_ext_start := time_us n, last_sync_int_end := time_us n,
            last_sync_ext_end := time_us n, stat_reset_req := False\<rparr>) s)
     else stat_wait E stat_reset_req (upd_ndata (\<lambda>n. n\<lparr>stat_reset_req := True\<rparr>) s))"

end
