(* ===== verification/Tasvir_Service.thy ===== *)
theory Tasvir_Service
  imports Tasvir_Init Tasvir_Stat
begin

text \<open>
  \<open>src/service.c\<close>: the service loop, and the closing of the recursion between it, the remote calls
  and the operations they run. \<open>knot n\<close> allows \<open>n\<close> nested calls.
\<close>

section \<open>Network and rings\<close>

definition rx_msg ::
  "('p, 'r, 'n) env \<Rightarrow> ('p, 'r, 'n) calls \<Rightarrow> tasvir_msg \<Rightarrow> ('p, 'r, 'n) tasvir \<Rightarrow> ('p, 'r, 'n) tasvir option" where
  "rx_msg E K m s =
    (if m_ether_type m = rte_cpu_to_be_16 TASVIR_ETH_PROTO then
       (let s = upd_stats (\<lambda>st. st\<lparr>rx_bytes := rx_bytes st + ucast (m_pkt_len m), rx_pkts := rx_pkts st + 1\<rparr>) s
        in if m_ether_dhost m = nid (memcast_tid (ndata s)) then Some (tasvir_handle_msg_mem E m s)
           else if m_ether_dhost m = mac_addr (ndata s) \<or> m_ether_dhost m = nid (rpccast_tid (ndata s))
           then do { (_, s) \<leftarrow> tasvir_handle_msg_rpc E K m SRC_NET s; Some s }
           else Some (put_msg E s))
     else Some (put_msg E s))"

fun each_msg ::
  "(tasvir_msg \<Rightarrow> ('p, 'r, 'n) tasvir \<Rightarrow> ('p, 'r, 'n) tasvir option) \<Rightarrow> tasvir_msg list \<Rightarrow> ('p, 'r, 'n) tasvir \<Rightarrow>
   ('p, 'r, 'n) tasvir option" where
  "each_msg f [] s = Some s"
| "each_msg f (m # ms) s = do { s \<leftarrow> f m s; each_msg f ms s }"

partial_function (option) tasvir_service_port_rx ::
  "('p, 'r, 'n) env \<Rightarrow> ('p, 'r, 'n) calls \<Rightarrow> ('p, 'r, 'n) tasvir \<Rightarrow> ('p, 'r, 'n) tasvir option" where
  "tasvir_service_port_rx E K s =
    (let (ms, n) = eth_rx_burst E (nic s) TASVIR_PKT_BURST; s = s\<lparr>nic := n\<rparr>
     in if ms = [] then Some s
        else Option.bind (each_msg (rx_msg E K) ms s) (\<lambda>s. tasvir_service_port_rx E K s))"

text \<open>
  \<open>tasvir_service_ring\<close> on a ring of the state: \<open>get\<close> and \<open>put\<close> reach it, and no ring does not return.
\<close>

partial_function (option) service_ring ::
  "('p, 'r, 'n) env \<Rightarrow> (('p, 'r, 'n) tasvir \<Rightarrow> 'r option) \<Rightarrow> ('r \<Rightarrow> ('p, 'r, 'n) tasvir \<Rightarrow> ('p, 'r, 'n) tasvir) \<Rightarrow>
   (tasvir_msg \<Rightarrow> ('p, 'r, 'n) tasvir \<Rightarrow> ('p, 'r, 'n) tasvir option) \<Rightarrow> ('p, 'r, 'n) tasvir \<Rightarrow>
   ('p, 'r, 'n) tasvir option" where
  "service_ring E get put f s =
    (case get s of
       None \<Rightarrow> None
     | Some r \<Rightarrow>
         (let (ms, r) = ring_dequeue_burst E r TASVIR_PKT_BURST; s = put r s
          in if ms = [] then Some s else Option.bind (each_msg f ms s) (\<lambda>s. service_ring E get put f s)))"

definition rpc_local ::
  "('p, 'r, 'n) env \<Rightarrow> ('p, 'r, 'n) calls \<Rightarrow> tasvir_msg \<Rightarrow> ('p, 'r, 'n) tasvir \<Rightarrow> ('p, 'r, 'n) tasvir option" where
  "rpc_local E K m s = do { (_, s) \<leftarrow> tasvir_handle_msg_rpc E K m SRC_LOCAL s; Some s }"

fun service_tx_rings ::
  "('p, 'r, 'n) env \<Rightarrow> ('p, 'r, 'n) calls \<Rightarrow> nat list \<Rightarrow> ('p, 'r, 'n) tasvir \<Rightarrow> ('p, 'r, 'n) tasvir option" where
  "service_tx_rings E K [] s = Some s"
| "service_tx_rings E K (i # is) s =
    do { s \<leftarrow> (if thread_busy (tdata (ndata s) ! i)
               then service_ring E (\<lambda>s. t_ring_tx (tdata (ndata s) ! i)) (\<lambda>r. upd_tdata i (\<lambda>t. t\<lparr>t_ring_tx := Some r\<rparr>))
                      (rpc_local E K) s
               else Some s);
         service_tx_rings E K is s }"

definition tasvir_service_io ::
  "('p, 'r, 'n) env \<Rightarrow> ('p, 'r, 'n) calls \<Rightarrow> ('p, 'r, 'n) tasvir \<Rightarrow> ('p, 'r, 'n) tasvir option" where
  "tasvir_service_io E K s =
    (if is_daemon s then do {
       s \<leftarrow> (if node s \<noteq> 0 then service_tx_rings E K [0..<TASVIR_NR_THREADS_LOCAL] s else Some s);
       if \<not> is_root s \<or> tasvir_is_running s
       then do { s \<leftarrow> tasvir_service_port_rx E K s; tasvir_service_port_tx E s }
       else Some s }
     else service_ring E (\<lambda>s. t_ring_rx (my_tdata s)) (\<lambda>r s. upd_tdata (tdata_idx s) (\<lambda>t. t\<lparr>t_ring_rx := Some r\<rparr>) s)
            (rpc_local E K) s)"

section \<open>New nodes\<close>

text \<open>The loop \<open>for (i = 0; --nr_areas > 0 && i < nr_areas_max; i++)\<close> with its unsigned counter.\<close>

fun attach_nodes ::
  "('p, 'r, 'n) env \<Rightarrow> ('p, 'r, 'n) calls \<Rightarrow> addr \<Rightarrow> nat \<Rightarrow> nat \<Rightarrow> u64 \<Rightarrow> ('p, 'r, 'n) tasvir \<Rightarrow>
   ('p, 'r, 'n) tasvir option" where
  "attach_nodes E K c 0 i left s = Some s"
| "attach_nodes E K c (Suc n) i left s =
    (if left - 1 > 0
     then do { s \<leftarrow> (if rd s (d_type (child c i)) = AREA_TYPE_NODE
                     then do { (_, s) \<leftarrow> tasvir_attach_wait E K (100 * MS2US) (read_str s (d_name (child c i))) s; Some s }
                     else Some s);
               attach_nodes E K c n (Suc i) (left - 1) s }
     else Some s)"

definition tasvir_service_nodes ::
  "('p, 'r, 'n) env \<Rightarrow> ('p, 'r, 'n) calls \<Rightarrow> ('p, 'r, 'n) tasvir \<Rightarrow> ('p, 'r, 'n) tasvir option" where
  "tasvir_service_nodes E K s =
    (let hh = rd s (d_h (root_desc s)); v = rd s (h_version hh)
     in if v = nodes_v_prev s then Some s
        else attach_nodes E K (tasvir_data s (root_desc s)) (unat (rd s (d_nr_areas_max (root_desc s)))) 0
               (rd s (h_nr_areas hh)) (s\<lparr>nodes_v_prev := v\<rparr>))"

section \<open>The service function\<close>

text \<open>The part of \<open>tasvir_service\<close> after the thread is known to run.\<close>

definition service_sync ::
  "('p, 'r, 'n) env \<Rightarrow> ('p, 'r, 'n) calls \<Rightarrow> ('p, 'r, 'n) tasvir \<Rightarrow> (int \<times> ('p, 'r, 'n) tasvir) option" where
  "service_sync E K s =
    (if t_next_sync_seq (my_tdata s) \<noteq> t_prev_sync_seq (my_tdata s) then do {
       (rc, s) \<leftarrow> tasvir_sync_internal E K s;
       s \<leftarrow> (if is_daemon s \<and> rc = 0
             then service_ring E (\<lambda>s. Some (ring_mem_pending (ndata s))) (\<lambda>r. upd_ndata (\<lambda>n. n\<lparr>ring_mem_pending := r\<rparr>))
                    (\<lambda>m s. Some (tasvir_handle_msg_mem E m s)) s
             else Some s);
       Some (rc, s) }
     else if is_daemon s then do {
       s \<leftarrow> (if time_us (ndata s) - last_sync_ext_end (ndata s) \<ge> sync_ext_us (ndata s)
             then do { (_, s) \<leftarrow> tasvir_sync_external E s; Some s } else Some s);
       Some (- 1, if stat_update_req (ndata s) \<or> time_us (ndata s) - last_stat (ndata s) \<ge> TASVIR_STAT_US
                  then tasvir_stats_update s else s) }
     else Some (- 1, s))"

definition tasvir_service ::
  "('p, 'r, 'n) env \<Rightarrow> ('p, 'r, 'n) calls \<Rightarrow> ('p, 'r, 'n) tasvir \<Rightarrow> (int \<times> ('p, 'r, 'n) tasvir) option" where
  "tasvir_service E K s =
    do { let (t, s) = tasvir_time_us E s;
         s \<leftarrow> tasvir_service_io E K (upd_tdata (tdata_idx s) (\<lambda>td. td\<lparr>t_time := t\<rparr>) s);
         let now = t_time (my_tdata s);
         let s = (if is_daemon s then upd_ndata (\<lambda>n. n\<lparr>time_us := now\<rparr>) s else s);
         if \<not> tasvir_is_running s then Some (- 1, s)
         else do {
           s \<leftarrow> (if is_daemon s then do {
                  s \<leftarrow> (if stat_reset_req (ndata s) then tasvir_stats_reset E s else Some s);
                  s \<leftarrow> tasvir_service_nodes E K s;
                  if sync_req (ndata s) \<or> time_us (ndata s) - last_sync_int_end (ndata s) \<ge> sync_int_us (ndata s)
                  then tasvir_sched_sync_internal E K s else Some s }
                else Some s);
           service_sync E K s } }"

partial_function (option) service_wait_loop ::
  "('p, 'r, 'n) env \<Rightarrow> ('p, 'r, 'n) calls \<Rightarrow> u64 \<Rightarrow> int \<Rightarrow> ('p, 'r, 'n) tasvir \<Rightarrow> (int \<times> ('p, 'r, 'n) tasvir) option" where
  "service_wait_loop E K end_tsc retval s =
    (let (t, s) = rdtsc s
     in if t < end_tsc
        then Option.bind (tasvir_service E K s) (\<lambda>(retval, s).
               if retval \<noteq> 0 then service_wait_loop E K end_tsc retval (others E s) else Some (retval, s))
        else Some (retval, s))"

definition tasvir_service_wait ::
  "('p, 'r, 'n) env \<Rightarrow> ('p, 'r, 'n) calls \<Rightarrow> u64 \<Rightarrow> bool \<Rightarrow> ('p, 'r, 'n) tasvir \<Rightarrow>
   (int \<times> ('p, 'r, 'n) tasvir) option" where
  "tasvir_service_wait E K timeout_us req s =
    (let s = (if req then upd_ndata (\<lambda>n. n\<lparr>sync_req := True\<rparr>) s else s); (t, s) = rdtsc s
     in service_wait_loop E K (t + usec2tsc E timeout_us) (- 1) s)"

section \<open>Running a registered function\<close>

text \<open>\<open>*(int *)&v[0] = r\<close> leaves the upper half of the word alone.\<close>

definition put_int :: "int \<Rightarrow> u64 list \<Rightarrow> u64 list option" where
  "put_int r data = put_arg 0 [(hd (data @ [0]) AND NOT 0xffffffff) OR ucast (of_int r :: u32)] data"

definition arg_word :: "nat list \<Rightarrow> nat \<Rightarrow> u64 list \<Rightarrow> u64" where
  "arg_word offs i data = hd (get_arg (offs ! i) 8 data @ [0])"

definition arg_int :: "nat list \<Rightarrow> nat \<Rightarrow> u64 list \<Rightarrow> int" where
  "arg_int offs i data = sint (ucast (arg_word offs i data) :: u32)"

text \<open>\<open>TASVIR_RPCFN_DEFINE\<close>: the arguments are read at their offsets, the result is stored at offset 0.\<close>

definition call_fn ::
  "('p, 'r, 'n) env \<Rightarrow> ('p, 'r, 'n) calls \<Rightarrow> tasvir_fn \<Rightarrow> nat list \<Rightarrow> u64 list \<Rightarrow> ('p, 'r, 'n) tasvir \<Rightarrow>
   (u64 list \<times> ('p, 'r, 'n) tasvir) option" where
  "call_fn E K fn offs data s =
    (case fn of
       Fn_init_thread \<Rightarrow> do { (t, s) \<leftarrow> tasvir_init_thread E K (ucast (arg_word offs 0 data)) s; do { data \<leftarrow> put_arg 0 [t] data; Some (data, s) } }
     | Fn_new_alloc_desc \<Rightarrow> do {
         (d, s) \<leftarrow> tasvir_new_alloc_desc E K (desc_of_words (get_arg (offs ! 0) 112 data)) s; do { data \<leftarrow> put_arg 0 [d] data; Some (data, s) } }
     | Fn_delete \<Rightarrow> do { (r, s) \<leftarrow> tasvir_delete (arg_word offs 0 data) s; do { data \<leftarrow> put_int r data; Some (data, s) } }
     | Fn_init_finish \<Rightarrow> do { (r, s) \<leftarrow> tasvir_init_finish E K (arg_word offs 0 data) s; do { data \<leftarrow> put_int r data; Some (data, s) } }
     | Fn_update_owner \<Rightarrow> do {
         (r, s) \<leftarrow> tasvir_update_owner E K (arg_word offs 0 data) (arg_word offs 1 data) s; do { data \<leftarrow> put_int r data; Some (data, s) } }
     | Fn_area_add_user \<Rightarrow> do {
         (r, s) \<leftarrow> tasvir_area_add_user K (arg_word offs 0 data) (arg_word offs 1 data) (arg_int offs 2 data) s;
         do { data \<leftarrow> put_int r data; Some (data, s) } }
     | Fn_app a \<Rightarrow> app_fn E a offs data s)"

fun knot :: "nat \<Rightarrow> ('p, 'r, 'n) env \<Rightarrow> ('p, 'r, 'n) calls" where
  "knot 0 E = \<lparr>k_service = (\<lambda>_. None), k_rpc = (\<lambda>_ _ _ _. None), k_rpc_wait = (\<lambda>_ _ _ _ _. None), k_fn = (\<lambda>_ _ _ _. None)\<rparr>"
| "knot (Suc n) E = \<lparr>k_service = tasvir_service E (knot n E), k_rpc = tasvir_rpc E (knot n E),
     k_rpc_wait = tasvir_rpc_wait E (knot n E), k_fn = call_fn E (knot n E)\<rparr>"

end
