(* ===== verification/Tasvir_Barrier.thy ===== *)
theory Tasvir_Barrier
  imports Tasvir_Sync_Internal
begin

text \<open>
  The concurrent part of \<open>src/sync_internal.c\<close>, with every atomic operation a step of its own: the
  threads of a round meet at \<open>tasvir_barrier_wait\<close>, and share a job by claiming chunks of it
  (\<open>tasvir_sync_internal_job\<close>). A state is the shared words and the place of each thread in its code;
  a step is one access of one thread.
\<close>

section \<open>The barrier\<close>

text \<open>
  \<open>B_start\<close>: before the test of \<open>barrier_seq\<close>; \<open>B_dec\<close>: before the decrement; \<open>B_cas1\<close>: the last thread,
  before its compare-and-exchange; \<open>B_wait\<close>: at the loop test; \<open>B_time\<close>: before the read of the clock;
  \<open>B_cas2\<close>: before the compare-and-exchange of a timeout; \<open>B_stale\<close>: returned false at the first test;
  \<open>B_ret b\<close>: returned \<open>b\<close>.
\<close>

datatype barrier_pc = B_start | B_dec | B_cas1 | B_wait | B_time | B_cas2 | B_stale | B_ret bool

record barrier =
  b_seq :: u64
  b_cnt :: u64
  b_end :: u64
  b_pc :: "nat \<Rightarrow> barrier_pc"

definition goto :: "nat \<Rightarrow> barrier_pc \<Rightarrow> barrier \<Rightarrow> barrier" where
  "goto i p b = b\<lparr>b_pc := (b_pc b)(i := p)\<rparr>"

text \<open>One access of thread \<open>i\<close>, whose \<open>next_sync_seq\<close> is \<open>seq\<close>; the clock can have any value.\<close>

inductive barrier_step :: "u64 \<Rightarrow> nat \<Rightarrow> barrier \<Rightarrow> barrier \<Rightarrow> bool" for seq i where
  stale: "b_pc b i = B_start \<Longrightarrow> b_seq b \<noteq> seq \<Longrightarrow> barrier_step seq i b (goto i B_stale b)"
| enter: "b_pc b i = B_start \<Longrightarrow> b_seq b = seq \<Longrightarrow> barrier_step seq i b (goto i B_dec b)"
| dec_last: "b_pc b i = B_dec \<Longrightarrow> b_cnt b = 1 \<Longrightarrow> barrier_step seq i b (goto i B_cas1 (b\<lparr>b_cnt := b_cnt b - 1\<rparr>))"
| dec: "b_pc b i = B_dec \<Longrightarrow> b_cnt b \<noteq> 1 \<Longrightarrow> barrier_step seq i b (goto i B_wait (b\<lparr>b_cnt := b_cnt b - 1\<rparr>))"
| cas1_ok: "b_pc b i = B_cas1 \<Longrightarrow> b_seq b = seq \<Longrightarrow> barrier_step seq i b (goto i (B_ret True) (b\<lparr>b_seq := seq + 1\<rparr>))"
| cas1_fail: "b_pc b i = B_cas1 \<Longrightarrow> b_seq b \<noteq> seq \<Longrightarrow> barrier_step seq i b (goto i (B_ret False) b)"
| spin: "b_pc b i = B_wait \<Longrightarrow> sint (ucast (b_seq b - seq) :: u32) = 0 \<Longrightarrow> barrier_step seq i b (goto i B_time b)"
| leave: "b_pc b i = B_wait \<Longrightarrow> sint (ucast (b_seq b - seq) :: u32) \<noteq> 0 \<Longrightarrow>
    barrier_step seq i b (goto i (B_ret (sint (ucast (b_seq b - seq) :: u32) = 1)) b)"
| early: "b_pc b i = B_time \<Longrightarrow> t \<le> b_end b \<Longrightarrow> barrier_step seq i b (goto i B_wait b)"
| expired: "b_pc b i = B_time \<Longrightarrow> t > b_end b \<Longrightarrow> barrier_step seq i b (goto i B_cas2 b)"
| cas2_ok: "b_pc b i = B_cas2 \<Longrightarrow> b_seq b = seq \<Longrightarrow> barrier_step seq i b (goto i (B_ret False) (b\<lparr>b_seq := seq + 2\<rparr>))"
| cas2_fail: "b_pc b i = B_cas2 \<Longrightarrow> barrier_step seq i b (goto i B_wait b)"

text \<open>
  The start of a round of the threads \<open>T\<close>, as \<open>tasvir_sched_sync_internal\<close> sets it up, and its runs. The runs
  are those of one round: no thread of an earlier round is left between its test and its decrement. The
  code does not wait for such a thread, which would decrement the counter of the new round.
\<close>

definition barrier_start :: "nat set \<Rightarrow> u64 \<Rightarrow> barrier \<Rightarrow> bool" where
  "barrier_start T seq b \<longleftrightarrow> finite T \<and> card T < 2 ^ 64 \<and> b_seq b = seq \<and> b_cnt b = of_nat (card T) \<and>
     (\<forall>i\<in>T. b_pc b i = B_start)"

inductive barrier_run :: "nat set \<Rightarrow> u64 \<Rightarrow> barrier \<Rightarrow> bool" for T seq where
  init: "barrier_start T seq b \<Longrightarrow> barrier_run T seq b"
| step: "barrier_run T seq b \<Longrightarrow> i \<in> T \<Longrightarrow> barrier_step seq i b b' \<Longrightarrow> barrier_run T seq b'"

text \<open>
  What the call of thread \<open>i\<close> has returned, if it has: a thread turned away by the first test has returned
  false like one that waited in vain.
\<close>

definition returned :: "barrier \<Rightarrow> nat \<Rightarrow> bool option" where
  "returned b i = (case b_pc b i of B_stale \<Rightarrow> Some False | B_ret x \<Rightarrow> Some x | _ \<Rightarrow> None)"

text \<open>The threads that have not decremented the counter.\<close>

definition outside :: "nat set \<Rightarrow> barrier \<Rightarrow> nat set" where
  "outside T b = {i \<in> T. b_pc b i \<in> {B_start, B_dec, B_stale}}"

definition barrier_inv :: "nat set \<Rightarrow> u64 \<Rightarrow> barrier \<Rightarrow> bool" where
  "barrier_inv T seq b \<longleftrightarrow> finite T \<and> card T < 2 ^ 64 \<and> b_seq b \<in> {seq, seq + 1, seq + 2} \<and>
     b_cnt b = of_nat (card (outside T b)) \<and>
     (b_seq b = seq + 1 \<longrightarrow> outside T b = {} \<and> (\<forall>i\<in>T. b_pc b i \<noteq> B_cas1)) \<and>
     (\<forall>i\<in>T. b_pc b i = B_cas1 \<longrightarrow> outside T b = {} \<and> (\<forall>j\<in>T. b_pc b j = B_cas1 \<longrightarrow> j = i)) \<and>
     (\<forall>i\<in>T. (b_pc b i = B_stale \<longrightarrow> b_seq b = seq + 2) \<and> (b_pc b i = B_ret True \<longrightarrow> b_seq b = seq + 1) \<and>
        (b_pc b i = B_ret False \<longrightarrow> b_seq b = seq + 2))"

lemma of_nat_eq_u64: "i < 2 ^ 64 \<Longrightarrow> j < 2 ^ 64 \<Longrightarrow> (of_nat i :: u64) = of_nat j \<longleftrightarrow> i = j"
  by (simp add: word_of_nat_eq_iff take_bit_nat_eq_self)

lemma seq_neq [simp]: "(seq :: u64) + 1 \<noteq> seq" "seq + 2 \<noteq> seq" "seq \<noteq> seq + 1" "seq \<noteq> seq + 2"
  "seq + 1 \<noteq> seq + 2" "seq + 2 \<noteq> seq + 1"
  by simp_all

lemma barrier_diff:
  assumes "x \<in> {seq, seq + 1, seq + 2}"
  shows "sint (ucast (x - seq :: u64) :: u32) = (if x = seq then 0 else if x = seq + 1 then 1 else 2)"
proof -
  consider "x = seq" | "x = seq + 1" | "x = seq + 2" using assms by blast
  then show ?thesis
  proof cases
    case 3
    then have "x - seq = 2" by simp
    then show ?thesis using 3 by simp
  qed simp_all
qed

lemma outside_goto:
  "i \<in> T \<Longrightarrow> outside T (goto i p b) = (if p \<in> {B_start, B_dec, B_stale} then insert i (outside T b) else outside T b - {i})"
  by (auto simp: outside_def goto_def)

lemma outside_upd [simp]: "outside T (b\<lparr>b_cnt := c\<rparr>) = outside T b" "outside T (b\<lparr>b_seq := q\<rparr>) = outside T b"
  by (simp_all add: outside_def)

lemma card_outside_dec:
  assumes "finite T" "card T < 2 ^ 64" "i \<in> outside T b" "b_cnt b = of_nat (card (outside T b))"
  shows "b_cnt b - 1 = of_nat (card (outside T b - {i}))" "b_cnt b = 1 \<longleftrightarrow> outside T b = {i}"
proof -
  have fin: "finite (outside T b)" using assms(1) by (simp add: outside_def)
  have c: "card (outside T b) = Suc (card (outside T b - {i}))" using card_Suc_Diff1 [OF fin assms(3)] by simp
  show "b_cnt b - 1 = of_nat (card (outside T b - {i}))" by (simp add: assms(4) c)
  have "card (outside T b) \<le> card T" using assms(1) by (intro card_mono) (auto simp: outside_def)
  then have "b_cnt b = 1 \<longleftrightarrow> card (outside T b) = 1"
    using assms(2,4) of_nat_eq_u64 [of "card (outside T b)" 1] by simp
  then show "b_cnt b = 1 \<longleftrightarrow> outside T b = {i}"
    using assms(3) by (auto simp: card_1_singleton_iff)
qed


lemma barrier_inv_step:
  assumes "barrier_step seq i b b'" "barrier_inv T seq b" "i \<in> T"
  shows "barrier_inv T seq b'"
  using assms
proof (induction rule: barrier_step.induct)
  case (dec_last b)
  then have i: "i \<in> outside T b" by (simp add: outside_def)
  with dec_last card_outside_dec [of T i b] have o: "outside T b = {i}" "b_cnt b - 1 = of_nat (card (outside T b - {i}))"
    by (auto simp: barrier_inv_def)
  then have o': "outside T (goto i B_cas1 (b\<lparr>b_cnt := b_cnt b - 1\<rparr>)) = {}" using dec_last by (simp add: outside_goto)
  have "\<forall>j\<in>T. b_pc b j \<noteq> B_cas1" using dec_last o by (auto simp: barrier_inv_def)
  then show ?case using dec_last o o' by (auto simp: barrier_inv_def goto_def)
next
  case (dec b)
  then have i: "i \<in> outside T b" by (simp add: outside_def)
  with dec card_outside_dec [of T i b] have o: "outside T b \<noteq> {i}" "b_cnt b - 1 = of_nat (card (outside T b - {i}))"
    by (auto simp: barrier_inv_def)
  have o': "outside T (goto i B_wait (b\<lparr>b_cnt := b_cnt b - 1\<rparr>)) = outside T b - {i}" using dec by (simp add: outside_goto)
  show ?case using dec o i unfolding barrier_inv_def o' by (auto simp: goto_def)
next
  case (stale b)
  then have "outside T (goto i B_stale b) = outside T b" "i \<in> outside T b" by (auto simp: outside_def goto_def)
  then show ?case using stale by (auto simp: barrier_inv_def goto_def)
next
  case (enter b)
  then have "outside T (goto i B_dec b) = outside T b" "i \<in> outside T b" by (auto simp: outside_def goto_def)
  then show ?case using enter by (auto simp: barrier_inv_def goto_def)
next
  case (cas1_ok b)
  then have "outside T (goto i (B_ret True) (b\<lparr>b_seq := seq + 1\<rparr>)) = outside T b" by (auto simp: outside_def goto_def)
  then show ?case using cas1_ok by (auto simp: barrier_inv_def goto_def)
next
  case (cas1_fail b)
  then have "outside T (goto i (B_ret False) b) = outside T b" by (auto simp: outside_def goto_def)
  then show ?case using cas1_fail by (auto simp: barrier_inv_def goto_def)
next
  case (spin b)
  then have "outside T (goto i B_time b) = outside T b" by (auto simp: outside_def goto_def)
  then show ?case using spin by (auto simp: barrier_inv_def goto_def)
next
  case (leave b)
  then have "outside T (goto i p b) = outside T b" if "p \<notin> {B_start, B_dec, B_stale}" for p
    using that by (auto simp: outside_def goto_def)
  then have o: "outside T (goto i (B_ret (b_seq b = seq + 1)) b) = outside T b" by simp
  have "b_seq b \<in> {seq, seq + 1, seq + 2}" using leave by (simp add: barrier_inv_def)
  note d = barrier_diff [OF this]
  have ne: "b_seq b \<noteq> seq" using leave(2) d by auto
  have e: "(sint (ucast (b_seq b - seq) :: u32) = 1) = (b_seq b = seq + 1)" using d ne by simp
  show ?case
  proof (cases "b_seq b = seq + 1")
    case True
    then show ?thesis using leave(1,3,4) o unfolding e barrier_inv_def by (simp add: goto_def)
  next
    case False
    then have "b_seq b = seq + 2" using ne \<open>b_seq b \<in> {seq, seq + 1, seq + 2}\<close> by blast
    then show ?thesis using leave(1,3,4) False o unfolding e barrier_inv_def by (simp add: goto_def)
  qed
next
  case (early b t)
  then have "outside T (goto i B_wait b) = outside T b" by (auto simp: outside_def goto_def)
  then show ?case using early by (auto simp: barrier_inv_def goto_def)
next
  case (expired b t)
  then have "outside T (goto i B_cas2 b) = outside T b" by (auto simp: outside_def goto_def)
  then show ?case using expired by (auto simp: barrier_inv_def goto_def)
next
  case (cas2_ok b)
  then have "outside T (goto i (B_ret False) (b\<lparr>b_seq := seq + 2\<rparr>)) = outside T b" by (auto simp: outside_def goto_def)
  then show ?case using cas2_ok by (auto simp: barrier_inv_def goto_def)
next
  case (cas2_fail b)
  then have "outside T (goto i B_wait b) = outside T b" by (auto simp: outside_def goto_def)
  then show ?case using cas2_fail by (auto simp: barrier_inv_def goto_def)
qed

lemma barrier_inv_start: "barrier_start T seq b \<Longrightarrow> barrier_inv T seq b"
proof -
  assume b: "barrier_start T seq b"
  then have "outside T b = T" by (auto simp: outside_def barrier_start_def)
  with b show ?thesis by (auto simp: barrier_start_def barrier_inv_def)
qed

lemma barrier_run_inv: "barrier_run T seq b \<Longrightarrow> barrier_inv T seq b"
  by (induction rule: barrier_run.induct) (auto intro: barrier_inv_start barrier_inv_step)

lemma returned_seq:
  "barrier_inv T seq b \<Longrightarrow> i \<in> T \<Longrightarrow> returned b i = Some x \<Longrightarrow> b_seq b = (if x then seq + 1 else seq + 2)"
  by (cases "b_pc b i") (auto simp: barrier_inv_def returned_def)

section \<open>Sharing a job\<close>

text \<open>
  The threads run \<open>tasvir_sync_internal_job\<close> on one job of \<open>area_len\<close> bytes (\<open>offset_log_end\<close>) in chunks
  of \<open>bytes\<close> (\<open>job_bytes\<close>). \<open>J_out\<close>: not in the loop; \<open>J_loop\<close>: before the test of \<open>done_stage1\<close>;
  \<open>J_claim\<close>: before the addition to \<open>offset\<close>; \<open>J_mark\<close>: left the loop having seen something, before it sets
  \<open>done_stage1\<close>; \<open>J_copy\<close>: before \<open>tasvir_sync_process_changes\<close>; \<open>J_add\<close>: before the addition to
  \<open>bytes_seen\<close>, whose result decides who updates the header. The counters are \<open>size_t\<close> and wrap around.
  The ghost fields are the number of additions to \<open>offset\<close> (\<open>c_adds\<close>), the chunks a thread has walked
  (\<open>c_mine\<close>), those copied and counted (\<open>c_done\<close>), and the number of header updates (\<open>c_finished\<close>).
\<close>

datatype job_pc = J_out | J_loop | J_claim | J_mark | J_copy | J_add

record shared_job =
  c_offset :: u64
  c_bytes_seen :: u64
  c_stage1 :: bool
  c_pc :: "nat \<Rightarrow> job_pc"
  c_seen :: "nat \<Rightarrow> u64"
  c_adds :: nat
  c_mine :: "nat \<Rightarrow> nat set"
  c_done :: "nat set"
  c_finished :: nat

definition jump :: "nat \<Rightarrow> job_pc \<Rightarrow> shared_job \<Rightarrow> shared_job" where
  "jump i p c = c\<lparr>c_pc := (c_pc c)(i := p)\<rparr>"

text \<open>Where the loop leads: nothing seen returns, otherwise the job goes on.\<close>

definition after_loop :: "nat \<Rightarrow> shared_job \<Rightarrow> job_pc" where
  "after_loop i c = (if c_seen c i = 0 then J_out else J_mark)"

inductive share_step :: "u64 \<Rightarrow> u64 \<Rightarrow> nat \<Rightarrow> shared_job \<Rightarrow> shared_job \<Rightarrow> bool" for bytes area_len i where
  call: "c_pc c i = J_out \<Longrightarrow> \<not> c_stage1 c \<Longrightarrow> share_step bytes area_len i c (jump i J_loop c)"
| stop: "c_pc c i = J_loop \<Longrightarrow> c_stage1 c \<Longrightarrow> share_step bytes area_len i c (jump i (after_loop i c) c)"
| go_on: "c_pc c i = J_loop \<Longrightarrow> \<not> c_stage1 c \<Longrightarrow> share_step bytes area_len i c (jump i J_claim c)"
| claim: "c_pc c i = J_claim \<Longrightarrow> c_offset c < area_len \<Longrightarrow>
    share_step bytes area_len i c (jump i J_loop (c\<lparr>c_offset := c_offset c + bytes, c_adds := c_adds c + 1,
      c_seen := (c_seen c)(i := c_seen c i + min bytes (area_len - c_offset c)),
      c_mine := (c_mine c)(i := insert (unat (c_offset c)) (c_mine c i))\<rparr>))"
| empty: "c_pc c i = J_claim \<Longrightarrow> \<not> c_offset c < area_len \<Longrightarrow>
    share_step bytes area_len i c (jump i (after_loop i c) (c\<lparr>c_offset := c_offset c + bytes, c_adds := c_adds c + 1\<rparr>))"
| mark: "c_pc c i = J_mark \<Longrightarrow> share_step bytes area_len i c (jump i J_copy (c\<lparr>c_stage1 := True\<rparr>))"
| copy: "c_pc c i = J_copy \<Longrightarrow> share_step bytes area_len i c (jump i J_add c)"
| add: "c_pc c i = J_add \<Longrightarrow>
    share_step bytes area_len i c (jump i J_out (c\<lparr>c_bytes_seen := c_bytes_seen c + c_seen c i,
      c_done := c_done c \<union> c_mine c i, c_mine := (c_mine c)(i := {}), c_seen := (c_seen c)(i := 0),
      c_finished := c_finished c + of_bool (c_seen c i + c_bytes_seen c = area_len)\<rparr>))"

definition share_start :: "shared_job \<Rightarrow> bool" where
  "share_start c \<longleftrightarrow> c_offset c = 0 \<and> c_bytes_seen c = 0 \<and> \<not> c_stage1 c \<and> c_adds c = 0 \<and> c_done c = {} \<and>
     c_finished c = 0 \<and> (\<forall>i. c_pc c i = J_out \<and> c_seen c i = 0 \<and> c_mine c i = {})"

inductive share_run :: "nat set \<Rightarrow> u64 \<Rightarrow> u64 \<Rightarrow> shared_job \<Rightarrow> bool" for T bytes area_len where
  init: "share_start c \<Longrightarrow> share_run T bytes area_len c"
| step: "share_run T bytes area_len c \<Longrightarrow> i \<in> T \<Longrightarrow> share_step bytes area_len i c c' \<Longrightarrow> share_run T bytes area_len c'"

text \<open>The counter \<open>offset\<close> has not wrapped around.\<close>

definition unwrapped :: "u64 \<Rightarrow> shared_job \<Rightarrow> bool" where
  "unwrapped bytes c \<longleftrightarrow> c_adds c * unat bytes < 2 ^ 64"

text \<open>The bytes of a set of chunks.\<close>

definition chunk_span :: "nat \<Rightarrow> nat \<Rightarrow> nat set \<Rightarrow> nat set" where
  "chunk_span bytes area_len S = (\<Union>x\<in>S. {x..<min (x + bytes) area_len})"

definition chunks :: "nat \<Rightarrow> nat \<Rightarrow> nat \<Rightarrow> nat set" where
  "chunks bytes area_len n = {x. bytes dvd x \<and> x < n \<and> x < area_len}"

text \<open>
  The work left to the threads inside a call: every step but a new call takes some of it away.
\<close>

fun job_rank :: "job_pc \<Rightarrow> nat" where
  "job_rank J_out = 0"
| "job_rank J_add = 1"
| "job_rank J_copy = 2"
| "job_rank J_mark = 3"
| "job_rank J_claim = 4"
| "job_rank J_loop = 5"

definition job_work :: "nat set \<Rightarrow> u64 \<Rightarrow> shared_job \<Rightarrow> nat" where
  "job_work T area_len c = 2 * (unat area_len - unat (c_offset c)) + (\<Sum>i\<in>T. job_rank (c_pc c i))"

text \<open>
  The invariant, with the chunk size \<open>b\<close> and the length \<open>t\<close> as numbers: the chunks below \<open>offset\<close> are
  divided among the threads and those done; the counts are their bytes; a thread leaves the loop with
  chunks of its own only when all are claimed, and the header was updated once when all are done.
\<close>

definition share_inv :: "nat \<Rightarrow> nat \<Rightarrow> shared_job \<Rightarrow> bool" where
  "share_inv b t c \<longleftrightarrow> unat (c_offset c) = c_adds c * b \<and>
     (\<Union>i. c_mine c i) \<union> c_done c = chunks b t (c_adds c * b) \<and>
     (\<forall>i. c_mine c i \<inter> c_done c = {} \<and> (\<forall>j. i \<noteq> j \<longrightarrow> c_mine c i \<inter> c_mine c j = {})) \<and>
     (\<forall>i. c_seen c i = of_nat (card (chunk_span b t (c_mine c i)))) \<and>
     c_bytes_seen c = of_nat (card (chunk_span b t (c_done c))) \<and>
     (c_stage1 c \<longrightarrow> t \<le> c_adds c * b) \<and> (c_done c \<noteq> {} \<longrightarrow> c_stage1 c) \<and>
     (\<forall>i. c_pc c i \<in> {J_mark, J_copy, J_add} \<longrightarrow> c_mine c i \<noteq> {} \<and> t \<le> c_adds c * b) \<and>
     (\<forall>i. c_pc c i \<in> {J_copy, J_add} \<longrightarrow> c_stage1 c) \<and>
     (\<forall>i. c_pc c i = J_out \<longrightarrow> c_mine c i = {}) \<and>
     c_finished c = of_bool (c_done c = chunks b t t)"

lemma chunk_unique:
  "0 < bytes \<Longrightarrow> bytes dvd x \<Longrightarrow> bytes dvd y \<Longrightarrow> x \<le> (b::nat) \<Longrightarrow> b < x + bytes \<Longrightarrow> y \<le> b \<Longrightarrow> b < y + bytes \<Longrightarrow> x = y"
proof -
  assume a: "0 < bytes" "bytes dvd x" "bytes dvd y" "x \<le> b" "b < x + bytes" "y \<le> b" "b < y + bytes"
  then obtain k l where kl: "x = bytes * k" "y = bytes * l" by (auto elim!: dvdE)
  have "b div bytes = k" using a(1,4,5) kl(1) by (intro div_nat_eqI) (auto simp: mult.commute)
  moreover have "b div bytes = l" using a(1,6,7) kl(2) by (intro div_nat_eqI) (auto simp: mult.commute)
  ultimately show "x = y" by (simp add: kl)
qed

lemma chunk_span_Un: "chunk_span b t (A \<union> B) = chunk_span b t A \<union> chunk_span b t B"
  by (auto simp: chunk_span_def)

lemma chunk_span_insert: "chunk_span b t (insert x A) = {x..<min (x + b) t} \<union> chunk_span b t A"
  by (auto simp: chunk_span_def)

lemma chunk_span_sub: "chunk_span b t A \<subseteq> {..<t}"
  by (auto simp: chunk_span_def)

lemma finite_span [simp]: "finite (chunk_span b t A)"
  by (rule finite_subset [OF chunk_span_sub finite_lessThan])

lemma chunk_span_disjoint:
  assumes "0 < b" "A \<subseteq> chunks b t n" "B \<subseteq> chunks b t n'" "A \<inter> B = {}"
  shows "chunk_span b t A \<inter> chunk_span b t B = {}"
proof -
  have False if z: "z \<in> chunk_span b t A" "z \<in> chunk_span b t B" for z
  proof -
    obtain x where x: "x \<in> A" "x \<le> z" "z < x + b" using z(1) by (auto simp: chunk_span_def)
    obtain y where y: "y \<in> B" "y \<le> z" "z < y + b" using z(2) by (auto simp: chunk_span_def)
    have "b dvd x" "b dvd y" using assms(2,3) x(1) y(1) by (auto simp: chunks_def)
    then have "x = y" using chunk_unique [OF assms(1)] x y by blast
    then show False using x(1) y(1) assms(4) by blast
  qed
  then show ?thesis by blast
qed

lemma card_span_Un:
  "0 < b \<Longrightarrow> A \<subseteq> chunks b t n \<Longrightarrow> B \<subseteq> chunks b t n' \<Longrightarrow> A \<inter> B = {} \<Longrightarrow>
   card (chunk_span b t (A \<union> B)) = card (chunk_span b t A) + card (chunk_span b t B)"
  unfolding chunk_span_Un by (rule card_Un_disjoint) (auto dest: chunk_span_disjoint)

lemma chunk_span_all: "0 < b \<Longrightarrow> chunk_span b t (chunks b t t) = {..<t}"
proof (intro equalityI subsetI)
  fix x assume b: "0 < b" and x: "x \<in> {..<t}"
  have "x div b * b \<le> x" "x < x div b * b + b"
    using b dividend_less_div_times [OF b, of x] by (simp_all add: add.commute)
  moreover from this have "x div b * b < t" using x by (meson le_less_trans lessThan_iff)
  ultimately show "x \<in> chunk_span b t (chunks b t t)"
    using x unfolding chunk_span_def chunks_def by (intro UN_I [of "x div b * b"]) auto
qed (use chunk_span_sub in blast)

text \<open>The counted bytes reach the area_len only with the last chunk.\<close>

lemma chunk_span_complete:
  assumes "0 < b" "A \<subseteq> chunks b t t"
  shows "card (chunk_span b t A) = t \<longleftrightarrow> A = chunks b t t"
proof
  assume c: "card (chunk_span b t A) = t"
  then have full: "chunk_span b t A = {..<t}"
    by (intro card_subset_eq) (auto simp: chunk_span_sub)
  show "A = chunks b t t"
  proof (intro equalityI subsetI)
    fix x assume x: "x \<in> chunks b t t"
    then have "x \<in> chunk_span b t A" using full by (auto simp: chunks_def)
    then obtain y where y: "y \<in> A" "y \<le> x" "x < y + b" by (auto simp: chunk_span_def)
    then have "y = x" using chunk_unique [of b y x x] x assms by (auto simp: chunks_def)
    then show "x \<in> A" using y by simp
  qed (use assms in auto)
qed (simp add: chunk_span_all assms)


lemma chunk_span_whole:
  assumes "0 < b" "A \<subseteq> chunks b t t"
  shows "chunk_span b t A = {..<t} \<longleftrightarrow> A = chunks b t t"
proof
  assume "chunk_span b t A = {..<t}"
  then show "A = chunks b t t" using chunk_span_complete [OF assms] by simp
qed (simp add: chunk_span_all assms)

lemma chunks_claim:
  "bytes dvd n \<Longrightarrow> n < t \<Longrightarrow> 0 < bytes \<Longrightarrow> chunks bytes t (n + bytes) = insert n (chunks bytes t n)"
proof (intro equalityI subsetI)
  fix x assume a: "bytes dvd n" "n < t" "0 < bytes" and x: "x \<in> chunks bytes t (n + bytes)"
  show "x \<in> insert n (chunks bytes t n)"
  proof (cases "x < n")
    case False
    then have "x = n" using chunk_unique [of bytes n x x] a x by (auto simp: chunks_def)
    then show ?thesis by simp
  qed (use x in \<open>auto simp: chunks_def\<close>)
qed (auto simp: chunks_def)

lemma chunks_full: "t \<le> n \<Longrightarrow> chunks b t n = chunks b t t"
  by (auto simp: chunks_def)

lemma card_span_one: "x < t \<Longrightarrow> card (chunk_span b t {x}) = min b (t - x)"
  by (auto simp: chunk_span_def min_def)

lemma card_span_pos:
  assumes "A \<subseteq> chunks b t n" "0 < b"
  shows "card (chunk_span b t A) = 0 \<longleftrightarrow> A = {}"
proof -
  have "x \<in> chunk_span b t A" if "x \<in> A" for x
    using that assms by (auto simp: chunk_span_def chunks_def intro!: bexI [of _ x])
  then have "A \<subseteq> chunk_span b t A" by blast
  then have "chunk_span b t A = {} \<longleftrightarrow> A = {}" by (auto simp: chunk_span_def)
  then show ?thesis by simp
qed

lemma card_span_le: "card (chunk_span b t A) \<le> t"
  using card_mono [OF finite_lessThan chunk_span_sub] by simp

lemma u64_lt: "unat (x :: u64) < 2 ^ 64"
  using unsigned_less [of x] by simp

lemma offset_add:
  assumes "unat (x :: u64) = n * unat y" "Suc n * unat y < 2 ^ 64"
  shows "unat (x + y) = Suc n * unat y"
proof -
  have "unat x + unat y = Suc n * unat y" using assms(1) by simp
  then show ?thesis using assms(2) unat_word_ariths(1) [of x y] by simp
qed

lemma span_word_eq:
  "of_nat (card (chunk_span b (unat t) A)) = (t :: u64) \<longleftrightarrow> card (chunk_span b (unat t) A) = unat t"
proof -
  have "card (chunk_span b (unat t) A) < 2 ^ 64"
    by (rule le_less_trans [OF card_span_le u64_lt])
  then have "unat (of_nat (card (chunk_span b (unat t) A)) :: u64) = card (chunk_span b (unat t) A)"
    by (simp add: unat_of_nat take_bit_nat_eq_self)
  then show ?thesis using word_unat_eq_iff [of "of_nat (card (chunk_span b (unat t) A))" t] by simp
qed

lemma span_word_zero:
  assumes "A \<subseteq> chunks b (unat (t :: u64)) n" "0 < b"
  shows "(of_nat (card (chunk_span b (unat t) A)) :: u64) = 0 \<longleftrightarrow> A = {}"
proof -
  have "card (chunk_span b (unat t) A) < 2 ^ 64"
    by (rule le_less_trans [OF card_span_le u64_lt])
  then have "(of_nat (card (chunk_span b (unat t) A)) :: u64) = 0 \<longleftrightarrow> card (chunk_span b (unat t) A) = 0"
    using of_nat_eq_u64 [of "card (chunk_span b (unat t) A)" 0] by simp
  then show ?thesis using card_span_pos [OF assms] by simp
qed

lemma claim_len:
  "(x :: u64) < t \<Longrightarrow> min b (t - x) = of_nat (min (unat b) (unat t - unat x))"
  by (auto simp: min_def word_le_nat_alt unat_sub word_less_nat_alt)

lemma share_inv_start: "share_start c \<Longrightarrow> 0 < area_len \<Longrightarrow> 0 < bytes \<Longrightarrow> share_inv bytes area_len c"
  by (auto simp: share_start_def share_inv_def chunks_def chunk_span_def)

lemma share_inv_claim:
  assumes inv: "share_inv b (unat t) c" and b: "b = unat bytes" "0 < b"
    and c: "c_pc c i = J_claim" "c_offset c < t" and unw: "Suc (c_adds c) * b < 2 ^ 64"
  shows "share_inv b (unat t) (jump i J_loop (c\<lparr>c_offset := c_offset c + bytes, c_adds := c_adds c + 1,
      c_seen := (c_seen c)(i := c_seen c i + min bytes (t - c_offset c)),
      c_mine := (c_mine c)(i := insert (unat (c_offset c)) (c_mine c i))\<rparr>))"
proof -
  let ?o = "unat (c_offset c)" and ?t = "unat t"
  have o: "?o = c_adds c * b" and part: "(\<Union>i. c_mine c i) \<union> c_done c = chunks b ?t ?o"
    using inv by (simp_all add: share_inv_def)
  have lt: "?o < ?t" using c(2) by (simp add: word_less_nat_alt)
  have o': "unat (c_offset c + bytes) = Suc (c_adds c) * b"
    using offset_add [of "c_offset c" "c_adds c" bytes] unw o b(1) by simp
  have dvd: "b dvd ?o" by (simp add: o)
  have new: "?o \<notin> (\<Union>i. c_mine c i) \<union> c_done c" unfolding part by (simp add: chunks_def)
  have U: "(\<Union>j. ((c_mine c)(i := insert ?o (c_mine c i))) j) = insert ?o (\<Union>j. c_mine c j)" by (auto split: if_splits)
  have sub: "c_mine c i \<subseteq> chunks b ?t ?o" using part by blast
  have one: "{?o} \<subseteq> chunks b ?t ?t" using dvd lt by (simp add: chunks_def)
  have "card (chunk_span b ?t (insert ?o (c_mine c i))) = card (chunk_span b ?t (c_mine c i)) + min b (?t - ?o)"
    using card_span_Un [OF b(2) sub one] new lt by (simp add: card_span_one)
  then have seen: "c_seen c i + min bytes (t - c_offset c) = of_nat (card (chunk_span b ?t (insert ?o (c_mine c i))))"
    using inv claim_len [OF c(2), of bytes] b(1) by (simp add: share_inv_def)
  have notall: "c_done c \<noteq> chunks b ?t ?t" using one new by blast
  have st: "\<not> c_stage1 c" using inv lt o by (auto simp: share_inv_def)
  have ch: "chunks b ?t (Suc (c_adds c) * b) = insert ?o (chunks b ?t ?o)"
    using chunks_claim [OF dvd lt b(2)] by (simp add: o add.commute)
  have early: "c_pc c j \<notin> {J_mark, J_copy, J_add}" for j using inv lt o by (fastforce simp: share_inv_def)
  let ?m = "(c_mine c)(i := insert ?o (c_mine c i))"
  have P: "(\<Union>j. ?m j) \<union> c_done c = chunks b ?t (Suc (c_adds c) * b)" unfolding U ch part [symmetric] by blast
  have "\<forall>j. c_mine c j \<inter> c_done c = {} \<and> (\<forall>k. j \<noteq> k \<longrightarrow> c_mine c j \<inter> c_mine c k = {})"
    using inv by (simp add: share_inv_def)
  then have D: "\<forall>j. ?m j \<inter> c_done c = {} \<and> (\<forall>k. j \<noteq> k \<longrightarrow> ?m j \<inter> ?m k = {})"
    using new by (auto split: if_splits)
  have S: "\<forall>j. ((c_seen c)(i := c_seen c i + min bytes (t - c_offset c))) j = of_nat (card (chunk_span b ?t (?m j)))"
    using inv seen by (simp add: share_inv_def)
  have fin: "c_finished c = 0" "c_done c = {}" using inv notall st by (auto simp: share_inv_def)
  have out: "\<forall>j. ((c_pc c)(i := J_loop)) j = J_out \<longrightarrow> ?m j = {}" using inv by (simp add: share_inv_def)
  have bs: "c_bytes_seen c = of_nat (card (chunk_span b ?t (c_done c)))" using inv by (simp add: share_inv_def)
  have pcs: "\<forall>j. ((c_pc c)(i := J_loop)) j \<notin> {J_mark, J_copy, J_add}" using early by simp
  have nall: "{} \<noteq> chunks b ?t ?t" using notall fin(2) by simp
  show ?thesis
    using P D S out o' bs pcs nall unfolding share_inv_def jump_def
    by (simp add: st fin del: fun_upd_apply UN_simps)
qed

lemma share_inv_empty:
  assumes inv: "share_inv b (unat t) c" and b: "b = unat bytes" "0 < b"
    and c: "c_pc c i = J_claim" "\<not> c_offset c < t" and unw: "Suc (c_adds c) * b < 2 ^ 64"
  shows "share_inv b (unat t) (jump i (after_loop i c) (c\<lparr>c_offset := c_offset c + bytes, c_adds := c_adds c + 1\<rparr>))"
proof -
  have o: "unat (c_offset c) = c_adds c * b" and sub: "c_mine c i \<subseteq> chunks b (unat t) (c_adds c * b)"
    using inv by (auto simp: share_inv_def)
  have o': "unat (c_offset c + bytes) = Suc (c_adds c) * b"
    using offset_add [of "c_offset c" "c_adds c" bytes] unw o b(1) by simp
  have ge: "unat t \<le> c_adds c * b" using c(2) o by (simp add: word_less_nat_alt not_less)
  then have ge': "unat t \<le> Suc (c_adds c) * b" by simp
  have z: "c_seen c i = 0 \<longleftrightarrow> c_mine c i = {}" using inv span_word_zero [OF sub b(2)] by (simp add: share_inv_def)
  have ch: "chunks b (unat t) (Suc (c_adds c) * b) = chunks b (unat t) (c_adds c * b)"
    using chunks_full [OF ge] chunks_full [OF ge'] by simp
  show ?thesis
    using inv z ch o' ge' ge c(1) unfolding share_inv_def jump_def after_loop_def by auto
qed

lemma share_inv_add:
  assumes inv: "share_inv b (unat t) c" and pos: "0 < b" and c: "c_pc c i = J_add"
  shows "share_inv b (unat t) (jump i J_out (c\<lparr>c_bytes_seen := c_bytes_seen c + c_seen c i,
      c_done := c_done c \<union> c_mine c i, c_mine := (c_mine c)(i := {}), c_seen := (c_seen c)(i := 0),
      c_finished := c_finished c + of_bool (c_seen c i + c_bytes_seen c = t)\<rparr>))"
proof -
  let ?t = "unat t"
  have part: "(\<Union>i. c_mine c i) \<union> c_done c = chunks b ?t (c_adds c * b)" and full: "?t \<le> c_adds c * b"
    and mine: "c_mine c i \<noteq> {}" and disj: "c_mine c i \<inter> c_done c = {}"
    and seen: "c_seen c i = of_nat (card (chunk_span b ?t (c_mine c i)))" "c_bytes_seen c = of_nat (card (chunk_span b ?t (c_done c)))"
    and fin: "c_finished c = of_bool (c_done c = chunks b ?t ?t)" and st: "c_stage1 c"
    using inv c by (auto simp: share_inv_def)
  have U: "(\<Union>j. ((c_mine c)(i := {})) j) \<union> (c_done c \<union> c_mine c i) = (\<Union>j. c_mine c j) \<union> c_done c"
    by (auto split: if_splits)
  have sub: "c_mine c i \<subseteq> chunks b ?t ?t" "c_done c \<subseteq> chunks b ?t ?t"
    using part chunks_full [OF full] by blast+
  have cd: "c_bytes_seen c + c_seen c i = of_nat (card (chunk_span b ?t (c_done c \<union> c_mine c i)))"
    using card_span_Un [OF pos sub(2,1)] disj seen by (simp add: Int_commute)
  have "c_done c \<noteq> chunks b ?t ?t" using mine sub disj by blast
  then have fin': "c_finished c + of_bool (c_seen c i + c_bytes_seen c = t) =
      of_bool (c_done c \<union> c_mine c i = chunks b ?t ?t)"
    using chunk_span_complete [OF pos, of "c_done c \<union> c_mine c i" ?t] sub fin cd
      span_word_eq [of b t "c_done c \<union> c_mine c i"] by (simp add: add.commute)
  have disj': "\<forall>j. c_mine c j \<inter> c_done c = {} \<and> (\<forall>k. j \<noteq> k \<longrightarrow> c_mine c j \<inter> c_mine c k = {})"
    using inv by (simp add: share_inv_def)
  then have d2: "((c_mine c)(i := {})) j \<inter> (c_done c \<union> c_mine c i) = {}" for j
    by (cases "j = i") (auto simp: Int_Un_distrib)
  show ?thesis
    using inv U part d2 disj' cd fin' st unfolding share_inv_def jump_def
    by (simp del: UN_simps) (auto simp: chunk_span_def)
qed

lemma share_inv_step:
  assumes "share_step bytes area_len i c c'" "share_inv (unat bytes) (unat area_len) c" "0 < unat bytes" "unwrapped bytes c'"
  shows "share_inv (unat bytes) (unat area_len) c'"
  using assms
proof (induction rule: share_step.induct)
  case (call c)
  then show ?case by (auto simp: share_inv_def jump_def)
next
  case (stop c)
  have "c_mine c i \<subseteq> chunks (unat bytes) (unat area_len) (c_adds c * unat bytes)" using stop by (auto simp: share_inv_def)
  then have "c_seen c i = 0 \<longleftrightarrow> c_mine c i = {}" using stop span_word_zero [of "c_mine c i"] by (simp add: share_inv_def)
  then show ?case using stop by (auto simp: share_inv_def jump_def after_loop_def)
next
  case (go_on c)
  then show ?case by (auto simp: share_inv_def jump_def)
next
  case (claim c)
  then show ?case by (intro share_inv_claim) (auto simp: unwrapped_def jump_def)
next
  case (empty c)
  then show ?case by (intro share_inv_empty) (auto simp: unwrapped_def jump_def)
next
  case (mark c)
  then show ?case by (auto simp: share_inv_def jump_def)
next
  case (copy c)
  then show ?case by (auto simp: share_inv_def jump_def)
next
  case (add c)
  then show ?case by (intro share_inv_add) auto
qed

lemma share_step_adds: "share_step bytes area_len i c c' \<Longrightarrow> c_adds c \<le> c_adds c'"
  by (induction rule: share_step.induct) (simp_all add: jump_def)

lemma unwrapped_before: "unwrapped bytes c' \<Longrightarrow> c_adds c \<le> c_adds c' \<Longrightarrow> unwrapped bytes c"
  unfolding unwrapped_def by (meson le_less_trans mult_le_mono1)

lemma share_run_inv:
  "share_run T bytes area_len c \<Longrightarrow> unwrapped bytes c \<Longrightarrow> 0 < bytes \<Longrightarrow> 0 < area_len \<Longrightarrow>
   share_inv (unat bytes) (unat area_len) c"
proof (induction rule: share_run.induct)
  case (init c)
  then show ?case by (intro share_inv_start) (simp_all add: unat_gt_0 word_gt_0)
next
  case (step c i c')
  then have "unwrapped bytes c" using share_step_adds unwrapped_before by blast
  then show ?case using step by (intro share_inv_step [OF step(3)]) (simp_all add: unat_gt_0 word_gt_0)
qed

text \<open>When no thread is in a call, nothing has been claimed, or all is done and was finished once.\<close>

lemma share_quiet:
  assumes inv: "share_inv b t c" and b: "0 < b" "0 < t" and out: "\<And>i. c_pc c i = J_out" and adds: "c_adds c \<noteq> 0"
  shows "c_done c = chunks b t t" "c_finished c = 1" "chunk_span b t (c_done c) = {..<t}"
    "c_bytes_seen c = of_nat t"
proof -
  have mine: "c_mine c i = {}" for i using inv out by (simp add: share_inv_def)
  then have d: "c_done c = chunks b t (c_adds c * b)" using inv by (simp add: share_inv_def)
  have "0 \<in> chunks b t (c_adds c * b)" using b adds by (simp add: chunks_def)
  then have "c_stage1 c" using inv d by (auto simp: share_inv_def)
  then have "t \<le> c_adds c * b" using inv by (simp add: share_inv_def)
  then show d': "c_done c = chunks b t t" using d chunks_full [of t "c_adds c * b" b] by (simp only: refl)
  then show "c_finished c = 1" using inv by (simp add: share_inv_def)
  show sp: "chunk_span b t (c_done c) = {..<t}" using d' chunk_span_all b(1) by simp
  show "c_bytes_seen c = of_nat t" using inv sp by (simp add: share_inv_def)
qed

text \<open>A thread in a call can always take its next step, and that step takes work away.\<close>

lemma share_enabled: "c_pc c i \<noteq> J_out \<Longrightarrow> \<exists>c'. share_step bytes area_len i c c'"
  by (cases "c_pc c i") (blast intro: share_step.intros)+

lemma sum_jump:
  assumes "finite T" "i \<in> T"
  shows "(\<Sum>j\<in>T. job_rank (((c_pc c)(i := p)) j)) + job_rank (c_pc c i) = (\<Sum>j\<in>T. job_rank (c_pc c j)) + job_rank p"
proof -
  have "(\<Sum>j\<in>T - {i}. job_rank (((c_pc c)(i := p)) j)) = (\<Sum>j\<in>T - {i}. job_rank (c_pc c j))"
    by (rule sum.cong) auto
  then show ?thesis using sum.remove [OF assms, of "\<lambda>j. job_rank (c_pc c j)"]
      sum.remove [OF assms, of "\<lambda>j. job_rank (((c_pc c)(i := p)) j)"] by simp
qed

lemma work_down:
  assumes "finite T" "i \<in> T" "c_pc c' = (c_pc c)(i := p)" "job_rank p < job_rank (c_pc c i)"
    "unat (c_offset c) \<le> unat (c_offset c')"
  shows "job_work T area_len c' < job_work T area_len c"
proof -
  have "(\<Sum>j\<in>T. job_rank (c_pc c' j)) < (\<Sum>j\<in>T. job_rank (c_pc c j))"
    using sum_jump [OF assms(1,2), of c p] assms(4) unfolding assms(3) by linarith
  then show ?thesis using assms(5) unfolding job_work_def by linarith
qed

lemma after_loop_rank: "job_rank (after_loop i c) \<le> 3"
  by (simp add: after_loop_def)

lemma share_step_work:
  assumes "share_step bytes area_len i c c'" "c_pc c i \<noteq> J_out" "finite T" "i \<in> T"
    "share_inv (unat bytes) (unat area_len) c" "unwrapped bytes c'" "0 < bytes"
  shows "job_work T area_len c' < job_work T area_len c"
  using assms
proof (induction rule: share_step.induct)
  case (claim c)
  have "unat (c_offset c + bytes) = unat (c_offset c) + unat bytes"
    using offset_add [of "c_offset c" "c_adds c" bytes] claim by (simp add: unwrapped_def jump_def share_inv_def)
  moreover have "unat (c_offset c) < unat area_len" "0 < unat bytes"
    using claim by (simp_all add: word_less_nat_alt)
  ultimately show ?case using sum_jump [of T i c J_loop] claim by (simp add: job_work_def jump_def)
next
  case (empty c)
  have "unat (c_offset c + bytes) = unat (c_offset c) + unat bytes"
    using offset_add [of "c_offset c" "c_adds c" bytes] empty by (simp add: unwrapped_def jump_def share_inv_def)
  then show ?case using after_loop_rank [of i c] empty
    by (intro work_down [of T i _ c "after_loop i c"]) (simp_all add: jump_def)
next
  case (stop c)
  then show ?case using after_loop_rank [of i c]
    by (intro work_down [of T i _ c "after_loop i c"]) (simp_all add: jump_def)
next
  case (go_on c)
  then show ?case by (intro work_down [of T i _ c J_claim]) (simp_all add: jump_def)
next
  case (mark c)
  then show ?case by (intro work_down [of T i _ c J_copy]) (simp_all add: jump_def)
next
  case (copy c)
  then show ?case by (intro work_down [of T i _ c J_add]) (simp_all add: jump_def)
next
  case (add c)
  then show ?case by (intro work_down [of T i _ c J_out]) (simp_all add: jump_def)
qed simp

end
