(* ===== verification/Tasvir_Runs.thy ===== *)
theory Tasvir_Runs
  imports Tasvir_Barrier
begin

text \<open>
  Two concrete runs of the concurrent models: two threads meet at the barrier, and one thread does a job
  of two chunks, the second one cut, alone.
\<close>

definition meet0 :: barrier where
  "meet0 = \<lparr>b_seq = 5, b_cnt = 2, b_end = 100, b_pc = (\<lambda>_. B_start)\<rparr>"

definition meet :: barrier where
  "meet = \<lparr>b_seq = 6, b_cnt = 0, b_end = 100, b_pc = (\<lambda>_. B_start)(0 := B_ret True, 1 := B_ret True)\<rparr>"

lemma run_goto: "barrier_run T seq b \<Longrightarrow> i \<in> T \<Longrightarrow> barrier_step seq i b c \<Longrightarrow> c = b' \<Longrightarrow> barrier_run T seq b'"
  using barrier_run.step by blast

lemma two_meet: "barrier_run {0, 1} 5 meet" "b_pc meet 0 = B_ret True" "b_pc meet 1 = B_ret True"
proof -
  define st where "st s n p q = \<lparr>b_seq = s, b_cnt = n, b_end = 100, b_pc = (\<lambda>_. B_start)(0 := p, 1 := q)\<rparr>" for s n p q
  have st: "b_pc (st s n p q) 0 = p" "b_pc (st s n p q) 1 = q" "b_seq (st s n p q) = s" "b_cnt (st s n p q) = n"
    "goto 0 r (st s n p q) = st s n r q" "goto 1 r (st s n p q) = st s n p r"
    "(st s n p q)\<lparr>b_cnt := m\<rparr> = st s m p q" "(st s n p q)\<lparr>b_seq := t\<rparr> = st t n p q" for s n p q r m t
    by (auto simp: st_def goto_def fun_eq_iff)
  have "barrier_run {0, 1} 5 (st 5 2 B_start B_start)"
    by (rule barrier_run.init) (simp add: barrier_start_def st_def)
  then have "barrier_run {0, 1} 5 (st 5 2 B_dec B_start)"
    by (rule run_goto [where i = 0, OF _ _ barrier_step.enter]) (simp_all add: st del: One_nat_def)
  then have "barrier_run {0, 1} 5 (st 5 1 B_wait B_start)"
    by (rule run_goto [where i = 0, OF _ _ barrier_step.dec]) (simp_all add: st del: One_nat_def)
  then have "barrier_run {0, 1} 5 (st 5 1 B_wait B_dec)"
    by (rule run_goto [where i = 1, OF _ _ barrier_step.enter]) (simp_all add: st del: One_nat_def)
  then have "barrier_run {0, 1} 5 (st 5 0 B_wait B_cas1)"
    by (rule run_goto [where i = 1, OF _ _ barrier_step.dec_last]) (simp_all add: st del: One_nat_def)
  then have "barrier_run {0, 1} 5 (st 6 0 B_wait (B_ret True))"
    by (rule run_goto [where i = 1, OF _ _ barrier_step.cas1_ok]) (simp_all add: st del: One_nat_def)
  then have "barrier_run {0, 1} 5 (st 6 0 (B_ret True) (B_ret True))"
    by (rule run_goto [where i = 0, OF _ _ barrier_step.leave]) (simp_all add: st del: One_nat_def)
  then show "barrier_run {0, 1} 5 meet" by (simp add: st_def meet_def)
qed (simp_all add: meet_def)

text \<open>An area of 100 bytes in chunks of 64, so that the last chunk is cut.\<close>

definition job0 :: shared_job where
  "job0 = \<lparr>c_offset = 0, c_bytes_seen = 0, c_stage1 = False, c_pc = (\<lambda>_. J_out), c_seen = (\<lambda>_. 0), c_adds = 0,
     c_mine = (\<lambda>_. {}), c_done = {}, c_finished = 0\<rparr>"

definition job1 :: shared_job where
  "job1 = job0\<lparr>c_offset := 192, c_adds := 3, c_bytes_seen := 100, c_stage1 := True, c_done := {0, 64}, c_finished := 1\<rparr>"

lemma share_goto: "share_run T n l b \<Longrightarrow> i \<in> T \<Longrightarrow> share_step n l i b c \<Longrightarrow> c = b' \<Longrightarrow> share_run T n l b'"
  using share_run.step by blast

lemma one_job: "share_run {0} 64 100 job1" "unwrapped 64 job1" "c_pc job1 i = J_out" "c_adds job1 = 3"
proof -
  define st where "st o' n p sn mine g = job0\<lparr>c_offset := o', c_adds := n, c_pc := (c_pc job0)(0 := p), c_seen := (c_seen job0)(0 := sn),
    c_mine := (c_mine job0)(0 := mine), c_stage1 := g\<rparr>" for o' n p sn mine g
  note sd = st_def job0_def jump_def after_loop_def fun_eq_iff
  have "share_run {0} 64 100 job0" by (rule share_run.init) (simp add: share_start_def job0_def)
  then have "share_run {0} 64 100 (st 0 0 J_loop 0 {} False)"
    by (rule share_goto [where i = 0, OF _ _ share_step.call]) (auto simp: sd)
  then have "share_run {0} 64 100 (st 0 0 J_claim 0 {} False)"
    by (rule share_goto [where i = 0, OF _ _ share_step.go_on]) (auto simp: sd)
  then have "share_run {0} 64 100 (st 64 1 J_loop 64 {0} False)"
    by (rule share_goto [where i = 0, OF _ _ share_step.claim]) (auto simp: sd)
  then have "share_run {0} 64 100 (st 64 1 J_claim 64 {0} False)"
    by (rule share_goto [where i = 0, OF _ _ share_step.go_on]) (auto simp: sd)
  then have "share_run {0} 64 100 (st 128 2 J_loop 100 {0, 64} False)"
    by (rule share_goto [where i = 0, OF _ _ share_step.claim]) (auto simp: sd)
  then have "share_run {0} 64 100 (st 128 2 J_claim 100 {0, 64} False)"
    by (rule share_goto [where i = 0, OF _ _ share_step.go_on]) (auto simp: sd)
  then have "share_run {0} 64 100 (st 192 3 J_mark 100 {0, 64} False)"
    by (rule share_goto [where i = 0, OF _ _ share_step.empty]) (auto simp: sd)
  then have "share_run {0} 64 100 (st 192 3 J_copy 100 {0, 64} True)"
    by (rule share_goto [where i = 0, OF _ _ share_step.mark]) (auto simp: sd)
  then have "share_run {0} 64 100 (st 192 3 J_add 100 {0, 64} True)"
    by (rule share_goto [where i = 0, OF _ _ share_step.copy]) (auto simp: sd)
  then show "share_run {0} 64 100 job1"
    by (rule share_goto [where i = 0, OF _ _ share_step.add]) (auto simp: sd job1_def)
qed (simp_all add: job1_def job0_def unwrapped_def)

end
