(* ===== verification/Kv_Siphash.thy ===== *)
theory Kv_Siphash
  imports Tasvir_Log
begin

text \<open>
  \<open>apps/kvstore/siphash.c\<close>: the keyed hash of the dictionary. The code works on a pointer, a length and
  the remaining bytes; here the input is its list of bytes. \<open>sip_spec c d\<close> is SipHash-c-d as its authors
  define it, with no definition of the code in it, and \<open>siphash\<close> is proved to be SipHash-1-2.
\<close>

section \<open>The code\<close>

definition siptlw :: "u8 \<Rightarrow> u8" where
  "siptlw c = (if 65 \<le> c \<and> c \<le> 90 then c + (97 - 65) else c)"

definition ROTL :: "u64 \<Rightarrow> nat \<Rightarrow> u64" where
  "ROTL x b = push_bit b x OR drop_bit (64 - b) x"

record sip_state =
  v0 :: u64
  v1 :: u64
  v2 :: u64
  v3 :: u64

definition SIPROUND :: "sip_state \<Rightarrow> sip_state" where
  "SIPROUND v =
    (let a = v0 v + v1 v; b = ROTL (v1 v) 13; b = b XOR a; a = ROTL a 32;
         c = v2 v + v3 v; e = ROTL (v3 v) 16; e = e XOR c;
         a = a + e; e = ROTL e 21; e = e XOR a;
         c = c + b; b = ROTL b 17; b = b XOR c; c = ROTL c 32
     in \<lparr>v0 = a, v1 = b, v2 = c, v3 = e\<rparr>)"

text \<open>\<open>U8TO64_LE\<close> on the first eight bytes.\<close>

definition U8TO64_LE :: "u8 list \<Rightarrow> u64" where
  "U8TO64_LE p = horner_sum ucast 256 (take 8 p)"

definition sip_init :: "u8 list \<Rightarrow> sip_state" where
  "sip_init k =
    (let k0 = U8TO64_LE k; k1 = U8TO64_LE (drop 8 k)
     in \<lparr>v0 = 0x736f6d6570736575 XOR k0, v1 = 0x646f72616e646f6d XOR k1,
         v2 = 0x6c7967656e657261 XOR k0, v3 = 0x7465646279746573 XOR k1\<rparr>)"

definition sip_word :: "u64 \<Rightarrow> sip_state \<Rightarrow> sip_state" where
  "sip_word m v = (let v = SIPROUND (v\<lparr>v3 := v3 v XOR m\<rparr>) in v\<lparr>v0 := v0 v XOR m\<rparr>)"

text \<open>The loop \<open>for (; in != end; in += 8)\<close>: \<open>n\<close> blocks are left, \<open>f\<close> reads a block.\<close>

fun sip_blocks :: "(u8 list \<Rightarrow> u64) \<Rightarrow> nat \<Rightarrow> u8 list \<Rightarrow> sip_state \<Rightarrow> u8 list \<times> sip_state" where
  "sip_blocks f 0 p v = (p, v)"
| "sip_blocks f (Suc n) p v = sip_blocks f n (drop 8 p) (sip_word (f p) v)"

text \<open>The switch over the \<open>left\<close> last bytes, each case falling through to the next.\<close>

fun sip_left :: "(u8 \<Rightarrow> u8) \<Rightarrow> nat \<Rightarrow> u8 list \<Rightarrow> u64 \<Rightarrow> u64" where
  "sip_left g 0 p b = b"
| "sip_left g (Suc i) p b = sip_left g i p (b OR push_bit (8 * i) (ucast (g (p ! i))))"

definition sip_final :: "u64 \<Rightarrow> sip_state \<Rightarrow> u64" where
  "sip_final b v =
    (let v = SIPROUND (v\<lparr>v3 := v3 v XOR b\<rparr>);
         v = v\<lparr>v0 := v0 v XOR b, v2 := v2 v XOR 0xff\<rparr>;
         v = SIPROUND (SIPROUND v)
     in v0 v XOR v1 v XOR v2 v XOR v3 v)"

definition siphash :: "u8 list \<Rightarrow> u8 list \<Rightarrow> u64" where
  "siphash inp k =
    (let (p, v) = sip_blocks U8TO64_LE (length inp div 8) inp (sip_init k);
         b = push_bit 56 (of_nat (length inp))
     in sip_final (sip_left (\<lambda>c. c) (length inp mod 8) p b) v)"

definition U8TO64_LE_NOCASE :: "u8 list \<Rightarrow> u64" where
  "U8TO64_LE_NOCASE p = horner_sum (\<lambda>c. ucast (siptlw c)) 256 (take 8 p)"

definition siphash_nocase :: "u8 list \<Rightarrow> u8 list \<Rightarrow> u64" where
  "siphash_nocase inp k =
    (let (p, v) = sip_blocks U8TO64_LE_NOCASE (length inp div 8) inp (sip_init k);
         b = push_bit 56 (of_nat (length inp))
     in sip_final (sip_left siptlw (length inp mod 8) p b) v)"

section \<open>SipHash-c-d\<close>

text \<open>
  The reference, written after the definition of SipHash by its authors and not after the code: four words, the rounds
  with their two halves side by side and rotations of the library, the initial words spelt as the letters they are, and bytes read as a sum.
\<close>

type_synonym sip_words4 = "u64 \<times> u64 \<times> u64 \<times> u64"

fun sip_round :: "sip_words4 \<Rightarrow> sip_words4" where
  "sip_round (a, b, c, d) =
    (let (a, c) = (a + b, c + d); (b, d) = (word_rotl 13 b XOR a, word_rotl 16 d XOR c); a = word_rotl 32 a;
         (c, a) = (c + b, a + d); (b, d) = (word_rotl 17 b XOR c, word_rotl 21 d XOR a); c = word_rotl 32 c
     in (a, b, c, d))"

definition le_word :: "u8 list \<Rightarrow> u64" where
  "le_word bs = (\<Sum>i<length bs. push_bit (8 * i) (ucast (bs ! i)))"

text \<open>Eight letters, the first one in the highest byte.\<close>

definition letters :: "string \<Rightarrow> u64" where
  "letters cs = le_word (map of_char (rev cs))"

definition sip_start :: "u8 list \<Rightarrow> sip_words4" where
  "sip_start k =
    (let k0 = le_word (take 8 k); k1 = le_word (take 8 (drop 8 k))
     in (k0 XOR letters ''somepseu'', k1 XOR letters ''dorandom'', k0 XOR letters ''lygenera'', k1 XOR letters ''tedbytes''))"

text \<open>The padded message: zero bytes up to a multiple of eight, the last byte the length modulo 256.\<close>

definition sip_pad :: "u8 list \<Rightarrow> u8 list" where
  "sip_pad inp = inp @ replicate (7 - length inp mod 8) 0 @ [of_nat (length inp)]"

fun sip_compress :: "nat \<Rightarrow> u64 \<Rightarrow> sip_words4 \<Rightarrow> sip_words4" where
  "sip_compress c m (v0', v1', v2', v3') =
    (let (v0', v1', v2', v3') = (sip_round ^^ c) (v0', v1', v2', v3' XOR m) in (v0' XOR m, v1', v2', v3'))"

definition sip_spec :: "nat \<Rightarrow> nat \<Rightarrow> u8 list \<Rightarrow> u8 list \<Rightarrow> u64" where
  "sip_spec c d inp k =
    (let m = sip_pad inp; ws = map (\<lambda>i. le_word (take 8 (drop (8 * i) m))) [0..<length m div 8];
         (v0', v1', v2', v3') = fold (sip_compress c) ws (sip_start k);
         (v0', v1', v2', v3') = (sip_round ^^ d) (v0', v1', v2' XOR 0xff, v3')
     in v0' XOR v1' XOR v2' XOR v3')"

section \<open>The blocks and the last word\<close>

text \<open>The same computation with the rounds of the code.\<close>

fun code_words :: "nat \<Rightarrow> u8 list \<Rightarrow> u64 list" where
  "code_words 0 p = []"
| "code_words (Suc n) p = U8TO64_LE p # code_words n (drop 8 p)"

lemma sip_final_word:
  "sip_final b v = (let v = sip_word b v; v = SIPROUND (SIPROUND (v\<lparr>v2 := v2 v XOR 0xff\<rparr>)) in v0 v XOR v1 v XOR v2 v XOR v3 v)"
  by (simp add: sip_final_def sip_word_def Let_def)

lemma code_words_prefix: "n * 8 \<le> length p \<Longrightarrow> code_words n (p @ q) = code_words n p"
  by (induction n arbitrary: p) (simp_all add: U8TO64_LE_def)

lemma sip_blocks_fst: "fst (sip_blocks f n p v) = drop (8 * n) p"
  by (induction n arbitrary: p v) (simp_all add: add.commute)

lemma sip_blocks_fold: "snd (sip_blocks U8TO64_LE n p v) = fold sip_word (code_words n p) v"
  by (induction n arbitrary: p v) (simp_all only: sip_blocks.simps code_words.simps fold_simps snd_conv)

lemma code_words_last: "code_words (Suc n) p = code_words n p @ [U8TO64_LE (drop (8 * n) p)]"
proof (induction n arbitrary: p)
  case (Suc n)
  have "code_words (Suc (Suc n)) p = U8TO64_LE p # code_words (Suc n) (drop 8 p)" by (rule code_words.simps)
  also have "\<dots> = U8TO64_LE p # code_words n (drop 8 p) @ [U8TO64_LE (drop (8 * n) (drop 8 p))]" by (simp only: Suc.IH)
  finally show ?case by (simp add: add.commute)
qed simp

lemma byte_or_rest:
  fixes x :: u8 and w :: u64
  shows "ucast x + 256 * w = ucast x OR push_bit 8 w"
proof -
  have "ucast x AND push_bit 8 w = (0 :: u64)"
    by (rule bit_word_eqI) (auto simp: bit_simps dest: bit_imp_le_length)
  then show ?thesis by (simp add: disjunctive_add_eq_or push_bit_eq_mult mult.commute)
qed

lemma horner_bytes_bit:
  fixes bs :: "u8 list"
  shows "i < 64 \<Longrightarrow> bit (horner_sum ucast 256 bs :: u64) i \<longleftrightarrow> i div 8 < length bs \<and> bit (bs ! (i div 8)) (i mod 8)"
proof (induction bs arbitrary: i)
  case (Cons x bs)
  show ?case
  proof (cases "i < 8")
    case True
    then show ?thesis by (simp add: byte_or_rest bit_or_iff bit_push_bit_iff bit_ucast_iff)
  next
    case False
    then have i: "i div 8 = Suc ((i - 8) div 8)" "i mod 8 = (i - 8) mod 8" by (auto simp: le_div_geq le_mod_geq)
    have x: "\<not> bit x i" using False by (auto dest: bit_imp_le_length)
    have "bit (horner_sum ucast 256 (x # bs) :: u64) i \<longleftrightarrow> bit (horner_sum ucast 256 bs :: u64) (i - 8)"
      using False Cons.prems x by (simp add: byte_or_rest bit_or_iff bit_push_bit_iff bit_ucast_iff)
    also have "\<dots> \<longleftrightarrow> (i - 8) div 8 < length bs \<and> bit (bs ! ((i - 8) div 8)) ((i - 8) mod 8)"
      using Cons.prems by (intro Cons.IH) simp
    finally show ?thesis using i by simp
  qed
qed simp

lemma sip_left_bit:
  "n \<le> 8 \<Longrightarrow> i < 64 \<Longrightarrow>
   bit (sip_left g n p b) i \<longleftrightarrow> bit b i \<or> i div 8 < n \<and> bit (g (p ! (i div 8))) (i mod 8)"
proof (induction n arbitrary: b)
  case (Suc n)
  have "bit (push_bit (8 * n) (ucast (g (p ! n))) :: u64) i \<longleftrightarrow> i div 8 = n \<and> bit (g (p ! n)) (i mod 8)"
  proof (cases "8 * n \<le> i \<and> i < 8 * n + 8")
    case True
    then have "i div 8 = n" by auto
    moreover from this have "i - 8 * n = i mod 8" using minus_mult_div_eq_mod [of i 8] by simp
    ultimately have "i div 8 = n" "i - 8 * n = i mod 8" by simp_all
    then show ?thesis using True Suc.prems by (auto simp: bit_push_bit_iff bit_ucast_iff)
  next
    case False
    then have "i div 8 \<noteq> n" by auto
    moreover have "\<not> bit (g (p ! n)) (i - 8 * n)" if "8 * n \<le> i"
      using False that by (auto dest!: bit_imp_le_length)
    ultimately show ?thesis by (auto simp: bit_push_bit_iff bit_ucast_iff)
  qed
  then show ?case using Suc by (auto simp: bit_or_iff less_Suc_eq)
qed simp

text \<open>The last word of the padded message.\<close>

lemma sip_left_word:
  assumes "length r < 8"
  shows "sip_left (\<lambda>c. c) (length r) r (push_bit 56 (of_nat len)) =
    U8TO64_LE (r @ replicate (7 - length r) 0 @ [of_nat len])"
proof (rule bit_word_eqI)
  fix i assume "i < LENGTH(64)"
  then have i: "i < 64" "i div 8 < 8" by auto
  let ?bs = "r @ replicate (7 - length r) 0 @ [of_nat len :: u8]"
  have len: "length ?bs = 8" using assms by simp
  have top: "bit (push_bit 56 (of_nat len :: u64)) i \<longleftrightarrow> i div 8 = 7 \<and> bit (of_nat len :: u8) (i mod 8)"
  proof (cases "56 \<le> i")
    case True
    then have "i div 8 = 7" using i by auto
    moreover from this have "i mod 8 = i - 56" using minus_mult_div_eq_mod [of i 8] by simp
    ultimately have "i div 8 = 7" "i mod 8 = i - 56" by simp_all
    then show ?thesis using True i by (auto simp: bit_push_bit_iff bit_simps)
  next
    case False
    then have "i div 8 \<noteq> 7" by auto
    then show ?thesis using False by (simp add: bit_push_bit_iff)
  qed
  have nth: "?bs ! j = (if j < length r then r ! j else if j = 7 then of_nat len else 0)" if "j < 8" for j
    using that assms by (auto simp: nth_append)
  show "bit (sip_left (\<lambda>c. c) (length r) r (push_bit 56 (of_nat len))) i \<longleftrightarrow> bit (U8TO64_LE ?bs) i"
    using assms i nth [of "i div 8"] len
    by (auto simp: sip_left_bit top U8TO64_LE_def horner_bytes_bit)
qed

lemma siphash_fold:
  "siphash inp k =
    (let v = fold sip_word (code_words (length inp div 8 + 1) (sip_pad inp)) (sip_init k);
         v = SIPROUND (SIPROUND (v\<lparr>v2 := v2 v XOR 0xff\<rparr>))
     in v0 v XOR v1 v XOR v2 v XOR v3 v)"
proof -
  let ?n = "length inp div 8" and ?q = "replicate (7 - length inp mod 8) 0 @ [of_nat (length inp) :: u8]"
  have n: "?n * 8 \<le> length inp" by simp
  have r: "length (drop (8 * ?n) inp) = length inp mod 8" by (simp add: minus_mult_div_eq_mod)
  have d: "drop (8 * ?n) (inp @ ?q) = drop (8 * ?n) inp @ ?q" by simp
  have left: "sip_left (\<lambda>c. c) (length inp mod 8) (drop (8 * ?n) inp) (push_bit 56 (of_nat (length inp))) =
    U8TO64_LE (drop (8 * ?n) inp @ ?q)"
    using sip_left_word [of "drop (8 * ?n) inp" "length inp"] unfolding r by simp
  have "fold sip_word (code_words (?n + 1) (sip_pad inp)) v =
    sip_word (U8TO64_LE (drop (8 * ?n) inp @ ?q)) (fold sip_word (code_words ?n inp) v)" for v
    using code_words_last [of ?n "sip_pad inp"] code_words_prefix [OF n, of ?q] d by (simp add: sip_pad_def)
  then show ?thesis
    by (simp only: siphash_def sip_final_word Let_def case_prod_unfold left sip_blocks_fst sip_blocks_fold)
qed

section \<open>The code is SipHash-1-2\<close>

lemma ROTL_rotl: "b < 64 \<Longrightarrow> ROTL x b = word_rotl b x"
proof (rule bit_word_eqI)
  fix n
  assume b: "b < 64" and "n < LENGTH(64)"
  then have n: "n < 64" by simp
  show "bit (ROTL x b) n \<longleftrightarrow> bit (word_rotl b x) n"
  proof (cases "b \<le> n")
    case True
    have "(n + (64 - b)) mod 64 = n - b" using True n b mod_add_self2 [of "n - b" 64] by simp
    moreover have "\<not> bit x (64 - b + n)" using True b by (auto dest!: bit_imp_le_length)
    ultimately show ?thesis using True n b unfolding ROTL_def bit_or_iff bit_push_bit_iff bit_drop_bit_eq bit_word_rotl_iff by simp
  next
    case False
    then have "n + (64 - b) < 64" using b by linarith
    then have "(n + (64 - b)) mod 64 = 64 - b + n" by simp
    then show ?thesis using False n b unfolding ROTL_def bit_or_iff bit_push_bit_iff bit_drop_bit_eq bit_word_rotl_iff by simp
  qed
qed

text \<open>The vector of the authors for fifteen bytes, the one in \<open>vectors_sip64\<close> of \<open>siphash.c\<close>.\<close>

lemma le_word_code [code]: "le_word bs = horner_sum ucast 256 bs"
proof -
  have "push_bit (8 * i) (ucast (x :: u8)) = ucast x * (256 :: u64) ^ i" for i x
    by (simp add: push_bit_eq_mult power_mult)
  then show ?thesis by (simp add: le_word_def horner_sum_eq_sum atLeast0LessThan)
qed

lemma sip_round_code [code]:
  "sip_round (a, b, c, d) =
    (let a = a + b; c = c + d; b = ROTL b 13 XOR a; d = ROTL d 16 XOR c; a = ROTL a 32;
         c = c + b; a = a + d; b = ROTL b 17 XOR c; d = ROTL d 21 XOR a; c = ROTL c 32
     in (a, b, c, d))"
  by (simp add: ROTL_rotl Let_def)

lemma sip_vector_words:
  "map (\<lambda>i. le_word (take 8 (drop (8 * i) (sip_pad (map of_nat [0..<15]))))) [0..<length (sip_pad (map of_nat [0..<15])) div 8] = [0x706050403020100, 0xf0e0d0c0b0a0908]"
  by code_simp

lemma sip_vector_rounds:
  "sip_start (map of_nat [0..<16]) = (0x7469686173716475, 0x6b617f6d656e6665, 0x6b7f62616d677361, 0x7b6b696e727e6c7b)"
  "sip_compress 2 0x706050403020100 (0x7469686173716475, 0x6b617f6d656e6665, 0x6b7f62616d677361, 0x7b6b696e727e6c7b) = (0x4a017198de0a59e0, 0xd52f6f62a4f59a4, 0x634cb3577b01fd3d, 0xa5224d6f55c7d9c8)"
  "sip_compress 2 0xf0e0d0c0b0a0908 (0x4a017198de0a59e0, 0xd52f6f62a4f59a4, 0x634cb3577b01fd3d, 0xa5224d6f55c7d9c8) = (0x3c85b3ab6f55be51, 0x414fc3fb98efe374, 0xccf13ea527b9f4bd, 0x5293f5da84008f82)"
  "(sip_round ^^ 4) (0x3c85b3ab6f55be51, 0x414fc3fb98efe374, 0xccf13ea527b9f442, 0x5293f5da84008f82) = (0xf6bcd53893fecff1, 0x54b9964c7ea0d937, 0x1b38329c099bb55a, 0x1814bb89ad7be679)"
  by code_simp+

lemma sip_vector: "sip_spec 2 4 (map of_nat [0..<15]) (map of_nat [0..<16]) = 0xa129ca6149be45e5"
proof -
  have v2: "0xccf13ea527b9f4bd XOR 0xff = (0xccf13ea527b9f442 :: u64)" by simp
  show ?thesis unfolding sip_spec_def Let_def sip_vector_words fold.simps comp_apply id_apply sip_vector_rounds(1-3) prod.case v2 sip_vector_rounds(4) by simp
qed

lemma U8TO64_le_word: "U8TO64_LE p = le_word (take 8 p)"
  by (simp add: U8TO64_LE_def le_word_code)

definition quad :: "sip_state \<Rightarrow> sip_words4" where
  "quad v = (v0 v, v1 v, v2 v, v3 v)"

lemma quad_round: "quad (SIPROUND v) = sip_round (quad v)"
  by (simp add: quad_def SIPROUND_def Let_def ROTL_rotl)

lemma quad_word: "quad (sip_word m v) = sip_compress 1 m (quad v)"
  using quad_round [of "v\<lparr>v3 := v3 v XOR m\<rparr>"] by (simp add: quad_def sip_word_def Let_def)

lemma quad_fold: "quad (fold sip_word ws v) = fold (sip_compress 1) ws (quad v)"
  by (induction ws arbitrary: v) (simp_all add: quad_word)

lemma quad_init: "quad (sip_init k) = sip_start k"
proof -
  have "letters ''somepseu'' = 0x736f6d6570736575" "letters ''dorandom'' = 0x646f72616e646f6d"
    "letters ''lygenera'' = 0x6c7967656e657261" "letters ''tedbytes'' = 0x7465646279746573"
    by code_simp+
  then show ?thesis by (simp add: quad_def sip_init_def sip_start_def Let_def U8TO64_le_word xor.commute)
qed

lemma code_words_map: "code_words n p = map (\<lambda>i. le_word (take 8 (drop (8 * i) p))) [0..<n]"
proof (induction n)
  case (Suc n)
  then show ?case by (simp only: code_words_last upt_Suc) (simp add: U8TO64_le_word)
qed simp

lemma siphash_is_sip_1_2: "siphash inp k = sip_spec 1 2 inp k"
proof -
  have len: "length (sip_pad inp) div 8 = length inp div 8 + 1"
  proof -
    have "length (sip_pad inp) = length inp + (8 - length inp mod 8)" using mod_less_divisor [of 8 "length inp"] by (simp add: sip_pad_def)
    moreover have "length inp mod 8 < 8" by simp
    moreover have "x = 8 * (q + 1)" if "x = n + (8 - r)" "r < 8" "8 * q + r = n" for x n r q :: nat using that by simp
    ultimately have "length (sip_pad inp) = 8 * (length inp div 8 + 1)" using mult_div_mod_eq [of 8 "length inp"] by blast
    then show ?thesis by simp
  qed
  define v where "v = fold sip_word (code_words (length inp div 8 + 1) (sip_pad inp)) (sip_init k)"
  have fv: "fold (sip_compress 1) (map (\<lambda>i. le_word (take 8 (drop (8 * i) (sip_pad inp)))) [0..<length (sip_pad inp) div 8]) (sip_start k) = quad v"
    unfolding v_def quad_fold quad_init code_words_map len ..
  define w where "w = SIPROUND (SIPROUND (v\<lparr>v2 := v2 v XOR 0xff\<rparr>))"
  have "quad (v\<lparr>v2 := v2 v XOR 0xff\<rparr>) = (v0 v, v1 v, v2 v XOR 0xff, v3 v)" by (simp add: quad_def)
  then have "(sip_round ^^ 2) (v0 v, v1 v, v2 v XOR 0xff, v3 v) = quad w" by (simp only: w_def quad_round numeral_2_eq_2 funpow.simps comp_apply id_apply)
  then have "sip_spec 1 2 inp k = v0 w XOR v1 w XOR v2 w XOR v3 w"
    unfolding sip_spec_def Let_def fv by (simp only: quad_def prod.case)
  then show ?thesis unfolding siphash_fold v_def [symmetric] w_def Let_def by simp
qed

section \<open>The case-insensitive variant\<close>

lemma U8TO64_LE_NOCASE_map: "U8TO64_LE_NOCASE p = U8TO64_LE (map siptlw p)"
  by (simp add: U8TO64_LE_NOCASE_def U8TO64_LE_def take_map horner_sum_foldr foldr_map comp_def)

lemma sip_blocks_nocase:
  "snd (sip_blocks U8TO64_LE_NOCASE n p v) = snd (sip_blocks U8TO64_LE n (map siptlw p) v)"
  by (induction n arbitrary: p v) (simp_all add: U8TO64_LE_NOCASE_map drop_map)

lemma sip_left_nocase: "n \<le> length p \<Longrightarrow> sip_left siptlw n p b = sip_left (\<lambda>c. c) n (map siptlw p) b"
  by (induction n arbitrary: b) simp_all

lemma siphash_nocase_lower: "siphash_nocase inp k = siphash (map siptlw inp) k"
proof -
  let ?n = "length inp div 8"
  have r: "length inp mod 8 \<le> length (drop (8 * ?n) inp)" by (simp add: minus_mult_div_eq_mod)
  show ?thesis
    by (simp only: siphash_nocase_def siphash_def length_map Let_def case_prod_unfold sip_blocks_fst sip_blocks_nocase
        sip_left_nocase [OF r] drop_map)
qed

end
