(* ===== verification/Kv_Mem.thy ===== *)
theory Kv_Mem
  imports Kv_Siphash "HOL-Library.Monad_Syntax"
begin

text \<open>
  The memory the key-value store of \<open>apps/kvstore\<close> works on. The store lives inside one Tasvir area and
  follows raw pointers, so the model is a byte memory with little-endian 64-bit loads and stores, beside
  the dirty log its callbacks write through \<open>tasvir_log\<close>, the globals of \<open>dict.c\<close> and the answers of
  \<open>random\<close> and \<open>gettimeofday\<close>. The string functions of the C library run on the memory; dereferencing
  \<open>NULL\<close>, a failed \<open>assert\<close> and a loop that does not end are the value \<open>None\<close>.
\<close>

section \<open>State\<close>

type_synonym kmem = "addr \<Rightarrow> u8"

record kv =
  kv_mem :: kmem
  kv_log :: logmem
  kv_seed :: "u8 list"
  kv_can_resize :: bool
  kv_no_log :: bool
  kv_random :: "nat \<Rightarrow> u64"
  kv_clock :: "nat \<Rightarrow> int"

abbreviation NULL :: addr where "NULL \<equiv> 0"

section \<open>Loads and stores\<close>

definition ld64 :: "kmem \<Rightarrow> addr \<Rightarrow> u64" where
  "ld64 m p = horner_sum ucast 256 (map (\<lambda>i. m (p + of_nat i)) [0..<8])"

definition st64 :: "kmem \<Rightarrow> addr \<Rightarrow> u64 \<Rightarrow> kmem" where
  "st64 m p v = (\<lambda>a. if unat (a - p) < 8 then ucast (drop_bit (8 * unat (a - p)) v) else m a)"

definition ld :: "addr \<Rightarrow> kv \<Rightarrow> u64" where
  "ld p s = ld64 (kv_mem s) p"

definition st :: "addr \<Rightarrow> u64 \<Rightarrow> kv \<Rightarrow> kv" where
  "st p v s = s\<lparr>kv_mem := st64 (kv_mem s) p v\<rparr>"

text \<open>Using a pointer: \<open>None\<close> for \<open>NULL\<close>.\<close>

definition deref :: "addr \<Rightarrow> addr option" where
  "deref p = (if p = NULL then None else Some p)"

definition wrap_log_write :: "addr \<Rightarrow> u64 \<Rightarrow> kv \<Rightarrow> kv" where
  "wrap_log_write data len s = (if kv_no_log s then s else s\<lparr>kv_log := tasvir_log data len (kv_log s)\<rparr>)"

text \<open>The next answers of \<open>random\<close> and of the clock.\<close>

definition random :: "kv \<Rightarrow> u64 \<times> kv" where
  "random s = (kv_random s 0, s\<lparr>kv_random := \<lambda>n. kv_random s (Suc n)\<rparr>)"

definition timeInMilliseconds :: "kv \<Rightarrow> int \<times> kv" where
  "timeInMilliseconds s = (kv_clock s 0, s\<lparr>kv_clock := \<lambda>n. kv_clock s (Suc n)\<rparr>)"

section \<open>Strings\<close>

partial_function (option) strlen_loop :: "kmem \<Rightarrow> addr \<Rightarrow> u64 \<Rightarrow> u64 option" where
  "strlen_loop m p n = (if m (p + n) = 0 then Some n else strlen_loop m p (n + 1))"

definition strlen :: "kmem \<Rightarrow> addr \<Rightarrow> u64 option" where
  "strlen m p = do { p \<leftarrow> deref p; strlen_loop m p 0 }"

definition bytes_at :: "kmem \<Rightarrow> addr \<Rightarrow> nat \<Rightarrow> u8 list" where
  "bytes_at m p n = map (\<lambda>i. m (p + of_nat i)) [0..<n]"

partial_function (option) strcpy_loop :: "addr \<Rightarrow> addr \<Rightarrow> u64 \<Rightarrow> kmem \<Rightarrow> kmem option" where
  "strcpy_loop dst src n m =
    (let c = m (src + n); m = m(dst + n := c)
     in if c = 0 then Some m else strcpy_loop dst src (n + 1) m)"

definition strcpy :: "addr \<Rightarrow> addr \<Rightarrow> kv \<Rightarrow> kv option" where
  "strcpy dst src s = do {
     dst \<leftarrow> deref dst;
     src \<leftarrow> deref src;
     m \<leftarrow> strcpy_loop dst src 0 (kv_mem s);
     Some (s\<lparr>kv_mem := m\<rparr>) }"

fun memcpy_loop :: "addr \<Rightarrow> addr \<Rightarrow> nat \<Rightarrow> kmem \<Rightarrow> kmem" where
  "memcpy_loop dst src 0 m = m"
| "memcpy_loop dst src (Suc n) m = memcpy_loop (dst + 1) (src + 1) n (m(dst := m src))"

definition memcpy :: "addr \<Rightarrow> addr \<Rightarrow> u64 \<Rightarrow> kv \<Rightarrow> kv option" where
  "memcpy dst src n s = do {
     dst \<leftarrow> deref dst;
     src \<leftarrow> deref src;
     Some (s\<lparr>kv_mem := memcpy_loop dst src (unat n) (kv_mem s)\<rparr>) }"

definition memcmp_eq :: "kmem \<Rightarrow> addr \<Rightarrow> addr \<Rightarrow> nat \<Rightarrow> bool" where
  "memcmp_eq m p q n = (bytes_at m p n = bytes_at m q n)"

section \<open>Facts on the memory\<close>

text \<open>The \<open>n\<close> bytes from \<open>p\<close> on.\<close>

definition span :: "addr \<Rightarrow> nat \<Rightarrow> addr set" where
  "span p n = (\<lambda>i. p + of_nat i) ` {..<n}"

lemma unat_of_nat_small [simp]: "i < 2 ^ 64 \<Longrightarrow> unat (of_nat i :: u64) = i"
  by (simp add: unat_of_nat)

lemma mem_span: "n < 2 ^ 64 \<Longrightarrow> a \<in> span p n \<longleftrightarrow> unat (a - p) < n"
proof
  assume n: "n < 2 ^ 64" and "a \<in> span p n"
  then obtain i where "i < n" "a = p + of_nat i" by (auto simp: span_def)
  then show "unat (a - p) < n" using n by simp
next
  assume "unat (a - p) < n"
  then show "a \<in> span p n" unfolding span_def
    by (intro image_eqI [where x = "unat (a - p)"]) auto
qed

lemma span_0 [simp]: "span p 0 = {}"
  by (simp add: span_def)

lemma span_base: "0 < n \<Longrightarrow> p \<in> span p n"
  unfolding span_def by (rule image_eqI [where x = 0]) auto

lemma span_subset: "unat k + j \<le> n \<Longrightarrow> span (p + k) j \<subseteq> span p n"
  unfolding span_def
  by (auto simp: image_iff add.assoc intro!: bexI [where x = "unat k + _"])

lemma span_mono: "j \<le> n \<Longrightarrow> span p j \<subseteq> span p n"
  using span_subset [of 0 j n p] by simp

lemma span_add_disjoint [simp]:
  assumes "unat j + n \<le> unat k \<or> unat k + l \<le> unat j" "unat j + n < 2 ^ 64" "unat k + l < 2 ^ 64"
  shows "span (p + j) n \<inter> span (p + k) l = {}"
proof -
  have "False" if "x < n" "y < l" "p + j + of_nat x = p + k + of_nat y" for x y
  proof -
    from that(3) have "j + of_nat x = k + of_nat y" by (simp add: add.assoc)
    then have "unat (j + of_nat x) = unat (k + of_nat y)" by simp
    then show False using assms that(1,2) by (auto simp: unat_word_ariths unat_of_nat)
  qed
  then show ?thesis by (auto simp: span_def)
qed

lemma span_add_disjoint_0 [simp]:
  "n \<le> unat k \<Longrightarrow> unat k + l < 2 ^ 64 \<Longrightarrow> span p n \<inter> span (p + k) l = {}"
  "n \<le> unat k \<Longrightarrow> unat k + l < 2 ^ 64 \<Longrightarrow> span (p + k) l \<inter> span p n = {}"
  using span_add_disjoint [of 0 n k l p] by auto

text \<open>Spans given by plain numbers.\<close>

lemma mem_span_unat: "unat p + n < 2 ^ 64 \<Longrightarrow> a \<in> span p n \<longleftrightarrow> unat p \<le> unat a \<and> unat a < unat p + n"
proof -
  assume n: "unat p + n < 2 ^ 64"
  then have "a \<in> span p n \<longleftrightarrow> unat (a - p) < n" by (intro mem_span) simp
  also have "unat (a - p) = (if unat p \<le> unat a then unat a - unat p else unat a + 2 ^ 64 - unat p)"
    by (simp add: unat_sub_if')
  finally show ?thesis using n by auto
qed

lemma horner_bytes: "horner_sum ucast 256 (map (\<lambda>i. ucast (drop_bit (8 * i) v) :: u8) [0..<n]) = take_bit (8 * n) (v :: u64)"
proof (induction n)
  case (Suc n)
  have b: "(ucast (ucast (drop_bit (8 * n) v) :: u8) :: u64) = take_bit 8 (drop_bit (8 * n) v)"
    by (rule bit_eqI) (auto simp: bit_simps)
  have p: "(256 :: u64) ^ n * x = push_bit (8 * n) x" for x
    by (simp add: push_bit_eq_mult power_mult)
  have "horner_sum ucast 256 (map (\<lambda>i. ucast (drop_bit (8 * i) v) :: u8) [0..<Suc n])
      = take_bit (8 * n) v + push_bit (8 * n) (take_bit 8 (drop_bit (8 * n) v))"
    by (simp add: horner_sum_append Suc b p)
  also have "\<dots> = take_bit (8 * n) v OR push_bit (8 * n) (take_bit 8 (drop_bit (8 * n) v))"
    by (rule disjunctive_add_eq_or) (rule bit_eqI, auto simp: bit_simps)
  also have "\<dots> = take_bit (8 * Suc n) v"
    by (rule bit_eqI) (auto simp: bit_simps)
  finally show ?case .
qed simp

lemma ld64_cong: "(\<And>a. a \<in> span p 8 \<Longrightarrow> m a = m' a) \<Longrightarrow> ld64 m p = ld64 m' p"
  unfolding ld64_def by (rule arg_cong [where f = "horner_sum ucast 256"]) (auto simp: span_def)

lemma st64_outside [simp]: "a \<notin> span p 8 \<Longrightarrow> st64 m p v a = m a"
  by (simp add: st64_def mem_span)

lemma ld64_st64_same [simp]: "ld64 (st64 m p v) p = v"
proof -
  have "map (\<lambda>i. st64 m p v (p + of_nat i)) [0..<8] = map (\<lambda>i. ucast (drop_bit (8 * i) v) :: u8) [0..<8]"
    by (rule map_cong) (auto simp: st64_def)
  then show ?thesis by (simp only: ld64_def horner_bytes) (simp add: take_bit_word_eq_self)
qed

lemma ld64_st64_other [simp]: "span q 8 \<inter> span p 8 = {} \<Longrightarrow> ld64 (st64 m p v) q = ld64 m q"
  by (rule ld64_cong) (auto intro: st64_outside)

section \<open>Facts on strings\<close>

text \<open>\<open>p\<close> points to the characters \<open>bs\<close> and their terminator.\<close>

definition is_str :: "kmem \<Rightarrow> addr \<Rightarrow> u8 list \<Rightarrow> bool" where
  "is_str m p bs \<longleftrightarrow> p \<noteq> NULL \<and> length bs + 1 < 2 ^ 31 \<and> bytes_at m p (length bs) = bs \<and> 0 \<notin> set bs \<and>
     m (p + of_nat (length bs)) = 0"

lemma length_bytes_at [simp]: "length (bytes_at m p n) = n"
  by (simp add: bytes_at_def)

lemma nth_bytes_at [simp]: "i < n \<Longrightarrow> bytes_at m p n ! i = m (p + of_nat i)"
  by (simp add: bytes_at_def)

lemma bytes_at_cong: "(\<And>a. a \<in> span p n \<Longrightarrow> m a = m' a) \<Longrightarrow> bytes_at m p n = bytes_at m' p n"
  by (auto simp: bytes_at_def span_def)

lemma is_str_cong:
  "(\<And>a. a \<in> span p (length bs + 1) \<Longrightarrow> m a = m' a) \<Longrightarrow> is_str m p bs \<longleftrightarrow> is_str m' p bs"
proof -
  assume eq: "\<And>a. a \<in> span p (length bs + 1) \<Longrightarrow> m a = m' a"
  have "bytes_at m p (length bs) = bytes_at m' p (length bs)"
    using span_mono [of "length bs" "length bs + 1" p] by (intro bytes_at_cong eq) auto
  moreover have "p + of_nat (length bs) \<in> span p (length bs + 1)"
    unfolding span_def by (rule image_eqI [where x = "length bs"]) auto
  ultimately show ?thesis by (simp add: is_str_def eq)
qed

lemma is_str_char: "is_str m p bs \<Longrightarrow> i < length bs \<Longrightarrow> m (p + of_nat i) = bs ! i \<and> bs ! i \<noteq> 0"
  unfolding is_str_def by (metis nth_bytes_at nth_mem)

lemma is_str_unique:
  assumes "is_str m p bs" "is_str m p cs"
  shows "bs = cs"
proof -
  have "length bs = length cs"
    using is_str_char [OF assms(1), of "length cs"] is_str_char [OF assms(2), of "length bs"] assms
    by (cases "length bs" "length cs" rule: linorder_cases) (auto simp: is_str_def)
  then show ?thesis using assms by (simp add: is_str_def)
qed

lemma strlen_loop_str:
  assumes "is_str m p bs" "n + k = length bs"
  shows "strlen_loop m p (of_nat n) = Some (of_nat (length bs))"
  using assms(2)
proof (induction k arbitrary: n)
  case 0
  then show ?case using assms(1) by (subst strlen_loop.simps) (simp add: is_str_def)
next
  case (Suc k)
  have "m (p + of_nat n) \<noteq> 0" using is_str_char [OF assms(1), of n] Suc.prems by simp
  moreover have "strlen_loop m p (of_nat (Suc n)) = Some (of_nat (length bs))"
    using Suc.prems by (intro Suc.IH) simp
  ultimately show ?case by (subst strlen_loop.simps) (simp add: add.commute)
qed

lemma strlen_str: "is_str m p bs \<Longrightarrow> strlen m p = Some (of_nat (length bs))"
  using strlen_loop_str [of m p bs 0] by (simp add: strlen_def deref_def is_str_def)

text \<open>A length that fits an \<open>int\<close> survives the conversions of the callbacks.\<close>

lemma unat_scast_32: "unat x < 2 ^ 31 \<Longrightarrow> unat (scast (x :: u32) :: u64) = unat x"
proof -
  assume x: "unat x < 2 ^ 31"
  have u: "uint x = int (unat x)" by simp
  then have "uint x < 2 ^ 31" using x by (metis of_nat_less_numeral_power_cancel_iff)
  moreover have "- (2 ^ 31) \<le> uint x" by (rule order_trans [of _ 0]) simp_all
  ultimately have "sint x = uint x" by (simp add: sint_uint signed_take_bit_int_eq_self)
  then have "(scast x :: u64) = word_of_int (uint x)" by (simp only: scast_eq)
  then have "(scast x :: u64) = of_nat (unat x)" by (simp only: u of_int_of_nat_eq)
  moreover have "unat x < 2 ^ 64" using x by simp
  ultimately show ?thesis by (simp only: unat_of_nat_small)
qed

lemma int_len: "n < 2 ^ 31 \<Longrightarrow> unat (scast (ucast (of_nat n :: u64) :: u32) :: u64) = n"
proof -
  assume n: "n < 2 ^ 31"
  have "(ucast (of_nat n :: u64) :: u32) = of_nat n" by (rule bit_eqI) (simp add: bit_simps)
  then have "unat (ucast (of_nat n :: u64) :: u32) = n" using n by (simp add: unat_of_nat)
  then show ?thesis using unat_scast_32 [of "ucast (of_nat n :: u64)"] n by simp
qed

text \<open>The memory after \<open>bs\<close> is written at \<open>p\<close>.\<close>

definition put_bytes :: "kmem \<Rightarrow> addr \<Rightarrow> u8 list \<Rightarrow> kmem" where
  "put_bytes m p bs = (\<lambda>a. if unat (a - p) < length bs then bs ! unat (a - p) else m a)"

lemma put_bytes_outside [simp]: "length bs < 2 ^ 64 \<Longrightarrow> a \<notin> span p (length bs) \<Longrightarrow> put_bytes m p bs a = m a"
  by (simp add: put_bytes_def mem_span)

lemma put_bytes_at: "length bs < 2 ^ 64 \<Longrightarrow> i < length bs \<Longrightarrow> put_bytes m p bs (p + of_nat i) = bs ! i"
  by (simp add: put_bytes_def)

lemma bytes_at_put: "length bs < 2 ^ 64 \<Longrightarrow> bytes_at (put_bytes m p bs) p (length bs) = bs"
  by (rule nth_equalityI) (simp_all add: put_bytes_at)

lemma put_bytes_snoc:
  "length bs + 1 < 2 ^ 64 \<Longrightarrow> (put_bytes m p bs)(p + of_nat (length bs) := c) = put_bytes m p (bs @ [c])"
proof (rule ext)
  fix a
  assume l: "length bs + 1 < 2 ^ 64"
  have "a = p + of_nat (length bs) \<longleftrightarrow> unat (a - p) = length bs"
    using l unat_of_nat_small [of "length bs"] word_unat_eq_iff [of "a - p" "of_nat (length bs)"]
    by (auto simp: algebra_simps)
  then show "((put_bytes m p bs)(p + of_nat (length bs) := c)) a = put_bytes m p (bs @ [c]) a"
    by (auto simp: put_bytes_def nth_append)
qed

lemma put_bytes_Nil [simp]: "put_bytes m p [] = m"
  by (simp add: put_bytes_def)

lemma strcpy_loop_str:
  assumes "is_str m src bs" "span dst (length bs + 1) \<inter> span src (length bs + 1) = {}" "n + k = length bs"
  shows "strcpy_loop dst src (of_nat n) (put_bytes m dst (take n bs)) = Some (put_bytes m dst (bs @ [0]))"
  using assms(3)
proof (induction k arbitrary: n)
  case (0 n)
  have len: "length bs + 1 < 2 ^ 31" using assms(1) by (simp add: is_str_def)
  have "src + of_nat n \<in> span src (length bs + 1)" using 0
    unfolding span_def by (intro image_eqI [where x = n]) auto
  then have out: "src + of_nat n \<notin> span dst (length bs)"
    using assms(2) span_mono [of "length bs" "length bs + 1" dst] by auto
  then have "put_bytes m dst bs (src + of_nat n) = 0"
    using assms(1) 0 len by (simp add: is_str_def)
  then show ?case using 0 len by (subst strcpy_loop.simps) (simp add: put_bytes_snoc)
next
  case (Suc k)
  have len: "length bs + 1 < 2 ^ 31" using assms(1) by (simp add: is_str_def)
  have n: "n < length bs" using Suc.prems by simp
  have "src + of_nat n \<in> span src (length bs + 1)" using n
    unfolding span_def by (intro image_eqI [where x = n]) auto
  then have "src + of_nat n \<notin> span dst n"
    using assms(2) span_mono [of n "length bs + 1" dst] n by auto
  then have c: "put_bytes m dst (take n bs) (src + of_nat n) = bs ! n" "bs ! n \<noteq> 0"
    using is_str_char [OF assms(1) n] n len by simp_all
  have "(put_bytes m dst (take n bs))(dst + of_nat n := bs ! n) = put_bytes m dst (take (Suc n) bs)"
    using put_bytes_snoc [of "take n bs" m dst "bs ! n"] n len by (simp add: take_Suc_conv_app_nth)
  moreover have "strcpy_loop dst src (of_nat (Suc n)) (put_bytes m dst (take (Suc n) bs))
      = Some (put_bytes m dst (bs @ [0]))"
    using Suc.prems by (intro Suc.IH) simp
  ultimately show ?case using c by (subst strcpy_loop.simps) (simp add: add.commute)
qed

lemma strcpy_str:
  assumes "is_str (kv_mem s) src bs" "dst \<noteq> NULL"
    and "span dst (length bs + 1) \<inter> span src (length bs + 1) = {}"
  shows "strcpy dst src s = Some (s\<lparr>kv_mem := put_bytes (kv_mem s) dst (bs @ [0])\<rparr>)"
  using strcpy_loop_str [OF assms(1,3), of 0] assms by (simp add: strcpy_def deref_def is_str_def)

lemma is_str_put: "p \<noteq> NULL \<Longrightarrow> length bs + 1 < 2 ^ 31 \<Longrightarrow> 0 \<notin> set bs \<Longrightarrow> is_str (put_bytes m p (bs @ [0])) p bs"
  unfolding is_str_def
  by (auto simp: put_bytes_def intro!: nth_equalityI) (auto simp: nth_append)

lemma put_bytes_Cons:
  assumes "length bs + 1 < 2 ^ 64"
  shows "put_bytes (m(p := c)) (p + 1) bs = put_bytes m p (c # bs)"
proof (rule ext)
  fix a
  show "put_bytes (m(p := c)) (p + 1) bs a = put_bytes m p (c # bs) a"
  proof (cases "a = p")
    case True
    have "unat (- 1 :: u64) = 2 ^ 64 - 1" by (simp add: unsigned_minus_1_eq_mask mask_eq_exp_minus_1)
    then show ?thesis using assms True by (simp add: put_bytes_def)
  next
    case False
    then have "a - p \<noteq> 0" by simp
    then have "unat (a - (p + 1)) = unat (a - p) - 1" "0 < unat (a - p)"
      by (simp_all add: unat_minus_one diff_diff_add [symmetric] unat_gt_0)
    then show ?thesis using False by (auto simp: put_bytes_def nth_Cons')
  qed
qed

lemma memcpy_loop_bytes:
  "n < 2 ^ 64 \<Longrightarrow> span dst n \<inter> span src n = {} \<Longrightarrow>
   memcpy_loop dst src n m = put_bytes m dst (bytes_at m src n)"
proof (induction n arbitrary: dst src m)
  case 0
  then show ?case by (simp add: bytes_at_def)
next
  case (Suc n)
  have sub: "span (dst + 1) n \<subseteq> span dst (Suc n)" "span (src + 1) n \<subseteq> span src (Suc n)"
    by (rule span_subset; simp)+
  have "dst \<in> span dst (Suc n)" by (rule span_base) simp
  then have "bytes_at (m(dst := m src)) (src + 1) n = bytes_at m (src + 1) n"
    using sub Suc.prems(2) by (intro bytes_at_cong) auto
  moreover have "bytes_at m src (Suc n) = m src # bytes_at m (src + 1) n"
    unfolding bytes_at_def by (simp only: map_upt_Suc) (simp add: add.assoc)
  moreover have "memcpy_loop (dst + 1) (src + 1) n (m(dst := m src))
      = put_bytes (m(dst := m src)) (dst + 1) (bytes_at (m(dst := m src)) (src + 1) n)"
    using Suc.prems sub by (intro Suc.IH) auto
  ultimately show ?case using Suc.prems(1) by (simp add: put_bytes_Cons)
qed

lemma memcpy_bytes:
  assumes "dst \<noteq> NULL" "src \<noteq> NULL" "span dst (unat n) \<inter> span src (unat n) = {}"
  shows "memcpy dst src n s = Some (s\<lparr>kv_mem := put_bytes (kv_mem s) dst (bytes_at (kv_mem s) src (unat n))\<rparr>)"
proof -
  have "unat n < 2 ^ 64" using unsigned_less [where ?'a = nat, of n] by simp
  then show ?thesis using assms memcpy_loop_bytes [of "unat n" dst src] by (simp add: memcpy_def deref_def)
qed

end
