(* ===== verification/Kv_Alloc.thy ===== *)
theory Kv_Alloc
  imports Kv_Mem
begin

text \<open>
  \<open>apps/kvstore/alloc.c\<close>: the fixed-size block allocator that holds the entries, the keys and the values
  of a dictionary. Freed blocks are pushed on a list; the space that was never handed out is the last
  node of that list and is the only one larger than a block. The interface \<open>pool\<close> states what a client may
  rely on, and \<open>slab\<close> is the invariant that implements it.
\<close>

section \<open>The code\<close>

text \<open>\<open>struct Allocator\<close> and \<open>struct FreeNode\<close>: the addresses of their fields.\<close>

definition al_head :: "addr \<Rightarrow> addr" where "al_head a = a"
definition al_used :: "addr \<Rightarrow> addr" where "al_used a = a + 8"
definition al_alloc_size :: "addr \<Rightarrow> addr" where "al_alloc_size a = a + 16"
definition sizeof_Allocator :: u64 where "sizeof_Allocator = 24"
definition fn_next :: "addr \<Rightarrow> addr" where "fn_next p = p"
definition fn_size :: "addr \<Rightarrow> addr" where "fn_size p = p + 8"
definition sizeof_FreeNode :: u64 where "sizeof_FreeNode = 16"

lemmas alloc_fields = al_head_def al_used_def al_alloc_size_def sizeof_Allocator_def fn_next_def fn_size_def
  sizeof_FreeNode_def

definition init_allocator :: "addr \<Rightarrow> u64 \<Rightarrow> u64 \<Rightarrow> kv \<Rightarrow> (addr \<times> kv) option" where
  "init_allocator space len obj_len s =
    (let obj_size = (if obj_len > sizeof_FreeNode then obj_len else sizeof_FreeNode)
     in if len < sizeof_Allocator + obj_size then Some (NULL, s)
        else do {
          alloc \<leftarrow> deref space;
          let remaining = len - sizeof_Allocator;
          let s = st (al_used alloc) 0 s;
          let s = st (al_alloc_size alloc) obj_size s;
          let s = st (al_head alloc) (space + sizeof_Allocator) s;
          h \<leftarrow> deref (ld (al_head alloc) s);
          let s = st (fn_size h) remaining s;
          let s = st (fn_next h) NULL s;
          Some (alloc, s) })"

definition alloc_allocator :: "addr \<Rightarrow> kv \<Rightarrow> (addr \<times> kv) option" where
  "alloc_allocator allocator s = do {
     allocator \<leftarrow> deref allocator;
     let hd0 = ld (al_head allocator) s;
     if hd0 \<noteq> NULL
     then if ld (fn_size hd0) s \<ge> 2 * ld (al_alloc_size allocator) s
          then do {
            let new_tail_size = ld (fn_size hd0) s - ld (al_alloc_size allocator) s;
            let s = st (al_head allocator) (hd0 + ld (al_alloc_size allocator) s) s;
            h \<leftarrow> deref (ld (al_head allocator) s);
            let s = st (fn_next h) NULL s;
            h \<leftarrow> deref (ld (al_head allocator) s);
            let s = st (fn_size h) new_tail_size s;
            Some (hd0, s) }
          else Some (hd0, st (al_head allocator) (ld (fn_next hd0) s) s)
     else Some (NULL, s) }"

definition free_allocator :: "addr \<Rightarrow> addr \<Rightarrow> kv \<Rightarrow> kv option" where
  "free_allocator allocator region s = do {
     allocator \<leftarrow> deref allocator;
     node \<leftarrow> deref region;
     let s = st (fn_next node) (ld (al_head allocator) s) s;
     let s = st (fn_size node) (ld (al_alloc_size allocator) s) s;
     Some (st (al_head allocator) node s) }"

section \<open>The interface\<close>

text \<open>Only the memory and the log differ.\<close>

definition same_env :: "kv \<Rightarrow> kv \<Rightarrow> bool" where
  "same_env s t \<longleftrightarrow> t = s\<lparr>kv_mem := kv_mem t, kv_log := kv_log t\<rparr>"

lemma same_env_refl [simp]: "same_env s s"
  by (simp add: same_env_def)

lemma same_env_trans [trans]: "same_env r s \<Longrightarrow> same_env s t \<Longrightarrow> same_env r t"
  unfolding same_env_def by (metis (no_types, lifting) kv.surjective kv.update_convs(1,2))

lemma same_env_st [simp]: "same_env s (st p v s)"
  by (simp add: same_env_def st_def)

lemma same_env_log [simp]: "same_env s (wrap_log_write p n s)"
  by (simp add: same_env_def wrap_log_write_def)

lemma same_env_mem [simp]: "same_env s (s\<lparr>kv_mem := m\<rparr>)"
  by (simp add: same_env_def)

text \<open>
  Blocks of \<open>bsz\<close> bytes inside \<open>region\<close>. \<open>P m L\<close>: in memory \<open>m\<close> the blocks \<open>L\<close> are handed out. The pool owns
  the rest of its region and reads \<open>aux\<close> beside it; what a client writes into its blocks does not
  disturb the pool, and the pool does not disturb the blocks.
\<close>

locale pool_free =
  fixes P :: "kmem \<Rightarrow> addr set \<Rightarrow> bool" and region aux :: "addr set" and bsz :: nat
    and free :: "addr \<Rightarrow> kv \<Rightarrow> kv option"
  assumes pool_local: "P m L \<Longrightarrow> (\<And>x. x \<in> (region - (\<Union>l\<in>L. span l bsz)) \<union> aux \<Longrightarrow> m' x = m x) \<Longrightarrow> P m' L"
    and pool_block: "P m L \<Longrightarrow> l \<in> L \<Longrightarrow> l \<noteq> NULL \<and> span l bsz \<subseteq> region"
    and pool_disjoint: "P m L \<Longrightarrow> l \<in> L \<Longrightarrow> k \<in> L \<Longrightarrow> l \<noteq> k \<Longrightarrow> span l bsz \<inter> span k bsz = {}"
    and pool_aux: "P m L \<Longrightarrow> aux \<inter> region = {}"
    and pool_size: "P m L \<Longrightarrow> 0 < bsz \<and> bsz < 2 ^ 63"
    and free_ok: "P (kv_mem s) L \<Longrightarrow> l \<in> L \<Longrightarrow>
      \<exists>t. free l s = Some t \<and> same_env s t \<and> P (kv_mem t) (L - {l}) \<and>
        (\<forall>x. x \<notin> region - (\<Union>k\<in>L - {l}. span k bsz) \<longrightarrow> kv_mem t x = kv_mem s x)"
begin

lemma live_free:
  assumes "P (kv_mem s) L" "l \<in> L" "k \<in> L" "k \<noteq> l" "free l s = Some t" "x \<in> span k bsz"
  shows "kv_mem t x = kv_mem s x"
  using free_ok [OF assms(1,2)] assms(3-) by auto

end

locale pool = pool_free +
  fixes cap :: nat and alloc :: "kv \<Rightarrow> (addr \<times> kv) option"
  assumes pool_card: "P m L \<Longrightarrow> finite L \<and> card L \<le> cap"
    and alloc_full: "P (kv_mem s) L \<Longrightarrow> card L = cap \<Longrightarrow>
      \<exists>t. alloc s = Some (NULL, t) \<and> same_env s t \<and> kv_mem t = kv_mem s"
    and alloc_ok: "P (kv_mem s) L \<Longrightarrow> card L < cap \<Longrightarrow>
      \<exists>e t. alloc s = Some (e, t) \<and> e \<notin> L \<and> same_env s t \<and> P (kv_mem t) (insert e L) \<and>
        (\<forall>x. x \<notin> region - (\<Union>k\<in>L. span k bsz) \<longrightarrow> kv_mem t x = kv_mem s x)"
begin

text \<open>An allocation fails exactly when the pool is exhausted, and does not touch a live block.\<close>

lemma alloc_null_iff:
  assumes "P (kv_mem s) L" "alloc s = Some (e, t)"
  shows "e = NULL \<longleftrightarrow> card L = cap"
proof (cases "card L = cap")
  case True
  then show ?thesis using alloc_full [OF assms(1)] assms(2) by auto
next
  case False
  then have "card L < cap" using pool_card [OF assms(1)] by simp
  from alloc_ok [OF assms(1) this] assms(2) pool_block [of "kv_mem t" "insert e L" e] False
  show ?thesis by auto
qed

lemma live_alloc:
  assumes "P (kv_mem s) L" "alloc s = Some (e, t)" "k \<in> L" "x \<in> span k bsz"
  shows "kv_mem t x = kv_mem s x"
proof (cases "card L = cap")
  case True
  then show ?thesis using alloc_full [OF assms(1)] assms(2) by auto
next
  case False
  then have "card L < cap" using pool_card [OF assms(1)] by simp
  from alloc_ok [OF assms(1) this] assms(2-) show ?thesis by auto
qed

end

section \<open>The invariant\<close>

text \<open>The free list: the nodes with their sizes.\<close>

fun flist :: "kmem \<Rightarrow> addr \<Rightarrow> (addr \<times> nat) list \<Rightarrow> bool" where
  "flist m p [] \<longleftrightarrow> p = NULL"
| "flist m p ((x, z) # ns) \<longleftrightarrow> p = x \<and> x \<noteq> NULL \<and> ld64 m (fn_size x) = of_nat z \<and> flist m (ld64 m (fn_next x)) ns"

definition blk :: "addr \<Rightarrow> nat \<Rightarrow> nat \<Rightarrow> addr" where
  "blk a sz i = a + of_nat (24 + i * sz)"

text \<open>Blocks from \<open>t\<close> on were never handed out; \<open>F\<close> are the freed ones below.\<close>

definition slab_nodes :: "addr \<Rightarrow> nat \<Rightarrow> nat \<Rightarrow> nat list \<Rightarrow> nat \<Rightarrow> (addr \<times> nat) list" where
  "slab_nodes a sz n F t = map (\<lambda>i. (blk a sz i, sz)) F @ (if t < n div sz then [(blk a sz t, n - t * sz)] else [])"

definition slab_geo :: "addr \<Rightarrow> nat \<Rightarrow> nat \<Rightarrow> bool" where
  "slab_geo a sz n \<longleftrightarrow> a \<noteq> NULL \<and> 16 \<le> sz \<and> sz \<le> n \<and> unat a + 24 + n < 2 ^ 63"

definition slab :: "addr \<Rightarrow> nat \<Rightarrow> nat \<Rightarrow> kmem \<Rightarrow> addr set \<Rightarrow> bool" where
  "slab a sz n m L \<longleftrightarrow> slab_geo a sz n \<and> ld64 m (al_alloc_size a) = of_nat sz \<and>
     (\<exists>F t. flist m (ld64 m (al_head a)) (slab_nodes a sz n F t) \<and> distinct F \<and> set F \<subseteq> {..<t} \<and> t \<le> n div sz \<and>
        L = blk a sz ` ({..<t} - set F))"

lemma blk_end: "i < n div sz \<Longrightarrow> i * sz + sz \<le> (n::nat)"
proof -
  assume "i < n div sz"
  then have "(i + 1) * sz \<le> n div sz * sz" by (intro mult_right_mono) auto
  also have "\<dots> \<le> n" by simp
  finally show ?thesis by (simp add: algebra_simps)
qed

lemma unat_blk:
  assumes "slab_geo a sz n" "i * sz \<le> n"
  shows "unat (blk a sz i) = unat a + 24 + i * sz"
proof -
  have "unat (of_nat (24 + i * sz) :: addr) = 24 + i * sz"
    using assms by (intro unat_of_nat_small) (simp add: slab_geo_def)
  then show ?thesis unfolding blk_def using assms by (subst unat_word_ariths) (simp add: slab_geo_def)
qed

lemma mem_blk:
  assumes "slab_geo a sz n" "i < n div sz"
  shows "x \<in> span (blk a sz i) sz \<longleftrightarrow> unat a + 24 + i * sz \<le> unat x \<and> unat x < unat a + 24 + i * sz + sz"
  using assms blk_end [OF assms(2)] unat_blk [OF assms(1), of i] by (subst mem_span_unat) (auto simp: slab_geo_def)

lemma mem_region:
  assumes "slab_geo a sz n"
  shows "x \<in> span a (24 + n) \<longleftrightarrow> unat a \<le> unat x \<and> unat x < unat a + 24 + n"
  using assms by (subst mem_span_unat) (auto simp: slab_geo_def)

lemma mem_header:
  assumes "slab_geo a sz n" "j + k \<le> 24"
  shows "x \<in> span (a + of_nat j) k \<longleftrightarrow> unat a + j \<le> unat x \<and> unat x < unat a + j + k"
proof -
  have "unat (a + of_nat j) = unat a + j" using assms by (simp add: slab_geo_def unat_word_ariths unat_of_nat)
  then show ?thesis using assms by (subst mem_span_unat) (auto simp: slab_geo_def)
qed

lemma blk_disjoint:
  assumes "slab_geo a sz n" "i < n div sz" "j < n div sz" "i \<noteq> j"
  shows "span (blk a sz i) sz \<inter> span (blk a sz j) sz = {}"
proof -
  have "i * sz + sz \<le> j * sz \<or> j * sz + sz \<le> i * sz"
  proof (cases "i < j")
    case True
    then have "(i + 1) * sz \<le> j * sz" by (intro mult_right_mono) auto
    then show ?thesis by (simp add: algebra_simps)
  next
    case False
    then have "(j + 1) * sz \<le> i * sz" using assms(4) by (intro mult_right_mono) auto
    then show ?thesis by (simp add: algebra_simps)
  qed
  then show ?thesis using assms by (auto simp: mem_blk)
qed

lemma blk_region:
  assumes "slab_geo a sz n" "i < n div sz"
  shows "span (blk a sz i) sz \<subseteq> span a (24 + n)"
  using assms blk_end [OF assms(2)] by (auto simp: mem_blk mem_region)

lemma blk_inj:
  assumes "slab_geo a sz n"
  shows "inj_on (blk a sz) {..<n div sz}"
proof (rule inj_onI)
  fix i j
  assume ij: "i \<in> {..<n div sz}" "j \<in> {..<n div sz}" "blk a sz i = blk a sz j"
  have "0 < sz" using assms by (simp add: slab_geo_def)
  then have "span (blk a sz i) sz \<noteq> {}" using span_base by blast
  then show "i = j" using blk_disjoint [OF assms, of i j] ij by auto
qed

lemma blk_not_null: "slab_geo a sz n \<Longrightarrow> i < n div sz \<Longrightarrow> blk a sz i \<noteq> NULL"
  using unat_blk [of a sz n i] blk_end [of i n sz] by (auto simp flip: unat_eq_zero)

lemma flist_cong:
  "flist m p ns \<Longrightarrow> (\<And>x z y. (x, z) \<in> set ns \<Longrightarrow> y \<in> span x 16 \<Longrightarrow> m' y = m y) \<Longrightarrow> flist m' p ns"
proof (induction m p ns rule: flist.induct)
  case (2 m p x z ns)
  have "span (fn_size x) 8 \<subseteq> span x 16" "span (fn_next x) 8 \<subseteq> span x 16"
    using span_subset [of 8 8 16 x] span_mono [of 8 16 x] by (auto simp: alloc_fields)
  then have "ld64 m' (fn_size x) = ld64 m (fn_size x)" "ld64 m' (fn_next x) = ld64 m (fn_next x)"
    using 2(3) [of x z] by (intro ld64_cong; fastforce)+
  then show ?case using 2 by auto
qed simp

lemma slab_nodes_block:
  assumes "slab_geo a sz n" "(x, z) \<in> set (slab_nodes a sz n F t)" "set F \<subseteq> {..<t}" "t \<le> n div sz"
  obtains i where "x = blk a sz i" "i < n div sz" "i \<in> set F \<or> i = t"
  using assms by (auto simp: slab_nodes_def split: if_splits)

text \<open>The list survives a change outside the free blocks.\<close>

lemma slab_flist_cong:
  assumes g: "slab_geo a sz n" and fl: "flist m p (slab_nodes a sz n F t)" "set F \<subseteq> {..<t}" "t \<le> n div sz"
    and eq: "\<And>i y. i < n div sz \<Longrightarrow> i \<in> set F \<or> i = t \<Longrightarrow> y \<in> span (blk a sz i) sz \<Longrightarrow> m' y = m y"
  shows "flist m' p (slab_nodes a sz n F t)"
proof (rule flist_cong [OF fl(1)])
  fix x z y
  assume xz: "(x, z) \<in> set (slab_nodes a sz n F t)" and y: "y \<in> span x 16"
  from xz obtain i where i: "x = blk a sz i" "i < n div sz" "i \<in> set F \<or> i = t"
    by (rule slab_nodes_block [OF g _ fl(2,3)])
  have "y \<in> span x sz" using y g span_mono [of 16 sz x] by (auto simp: slab_geo_def)
  then show "m' y = m y" using eq i by blast
qed

section \<open>The allocator implements the interface\<close>

definition slab_own :: "addr \<Rightarrow> nat \<Rightarrow> nat \<Rightarrow> addr set \<Rightarrow> addr set" where
  "slab_own a sz n L = span a (24 + n) - (\<Union>l\<in>L. span l sz)"

lemma header_own:
  assumes "slab_geo a sz n" "L \<subseteq> blk a sz ` {..<n div sz}"
  shows "span a 24 \<subseteq> slab_own a sz n L"
proof -
  have "x \<notin> span l sz" if "x \<in> span a 24" "l \<in> L" for x l
    using that assms mem_header [OF assms(1), of 0 24 x] by (auto simp: mem_blk)
  moreover have "span a 24 \<subseteq> span a (24 + n)" by (rule span_mono) simp
  ultimately show ?thesis by (auto simp: slab_own_def)
qed

lemma head_field_own:
  assumes "slab_geo a sz n" "L \<subseteq> blk a sz ` {..<n div sz}"
  shows "span (al_head a) 8 \<subseteq> slab_own a sz n L" "span (al_alloc_size a) 8 \<subseteq> slab_own a sz n L"
  using header_own [OF assms] span_mono [of 8 24 a] span_subset [of 16 8 24 a] by (auto simp: alloc_fields)

lemma free_blk_own:
  assumes "slab_geo a sz n" "L \<subseteq> blk a sz ` {..<n div sz}" "i < n div sz" "blk a sz i \<notin> L"
  shows "span (blk a sz i) sz \<subseteq> slab_own a sz n L"
proof -
  have "span (blk a sz i) sz \<inter> span l sz = {}" if l: "l \<in> L" for l
  proof -
    from l obtain j where "l = blk a sz j" "j < n div sz" using assms(2) by auto
    then show ?thesis using blk_disjoint [OF assms(1,3), of j] assms(4) l by auto
  qed
  then show ?thesis using blk_region [OF assms(1,3)] by (auto simp: slab_own_def)
qed

lemma live_index:
  assumes "slab_geo a sz n" "t \<le> n div sz" "i < n div sz"
  shows "blk a sz i \<in> blk a sz ` ({..<t} - A) \<longleftrightarrow> i < t \<and> i \<notin> A"
proof
  assume "blk a sz i \<in> blk a sz ` ({..<t} - A)"
  then obtain j where j: "j < t" "j \<notin> A" "blk a sz i = blk a sz j" by auto
  then have "i = j" using inj_onD [OF blk_inj [OF assms(1)] j(3)] assms(2,3) by simp
  then show "i < t \<and> i \<notin> A" using j by simp
qed auto

lemma slab_local:
  assumes sl: "slab a sz n m L" and eq: "\<And>x. x \<in> slab_own a sz n L \<Longrightarrow> m' x = m x"
  shows "slab a sz n m' L"
proof -
  from sl obtain F t where g: "slab_geo a sz n" and sz: "ld64 m (al_alloc_size a) = of_nat sz"
    and fl: "flist m (ld64 m (al_head a)) (slab_nodes a sz n F t)" and F: "distinct F" "set F \<subseteq> {..<t}"
    and t: "t \<le> n div sz" and L: "L = blk a sz ` ({..<t} - set F)"
    by (auto simp: slab_def)
  have sub: "L \<subseteq> blk a sz ` {..<n div sz}" using t L by auto
  note own = head_field_own [OF g sub]
  have hd: "ld64 m' (al_head a) = ld64 m (al_head a)" "ld64 m' (al_alloc_size a) = ld64 m (al_alloc_size a)"
    using own by (intro ld64_cong eq; blast)+
  have "flist m' (ld64 m (al_head a)) (slab_nodes a sz n F t)"
  proof (rule slab_flist_cong [OF g fl F(2) t])
    fix i y
    assume i: "i < n div sz" "i \<in> set F \<or> i = t" "y \<in> span (blk a sz i) sz"
    then have "blk a sz i \<notin> L" using live_index [OF g t] L F by auto
    then show "m' y = m y" using free_blk_own [OF g sub i(1)] i(3) eq by blast
  qed
  then show ?thesis using g sz F t L hd by (auto simp: slab_def)
qed

lemma slab_card:
  assumes "slab_geo a sz n" "distinct F" "set F \<subseteq> {..<t}" "t \<le> n div sz"
  shows "card (blk a sz ` ({..<t} - set F)) = t - length F"
proof -
  have "inj_on (blk a sz) ({..<t} - set F)"
    using blk_inj [OF assms(1)] by (rule inj_on_subset) (use assms in auto)
  then have "card (blk a sz ` ({..<t} - set F)) = card ({..<t} - set F)" by (rule card_image)
  also have "\<dots> = t - length F"
    using assms by (simp add: card_Diff_subset distinct_card)
  finally show ?thesis .
qed

text \<open>The two ways of taking a block: the head of the list, or a split of the tail.\<close>

lemma alloc_pop:
  assumes sl: "slab_geo a sz n" "ld (al_alloc_size a) s = of_nat sz" "flist (kv_mem s) (ld (al_head a) s) ((x, z) # ns)"
    and z: "z < 2 * sz" "sz \<le> n"
  shows "alloc_allocator a s = Some (x, st (al_head a) (ld (fn_next x) s) s)"
proof -
  have "unat (of_nat z :: u64) = z" "unat (of_nat (2 * sz) :: u64) = 2 * sz"
    using sl(1) z by (intro unat_of_nat_small; simp add: slab_geo_def)+
  then have "\<not> (2 * of_nat sz :: u64) \<le> of_nat z"
    using z by (simp add: word_le_nat_alt)
  then show ?thesis using sl by (auto simp: alloc_allocator_def deref_def slab_geo_def ld_def Let_def)
qed

lemma alloc_split:
  assumes g: "slab_geo a sz n" and sz: "ld (al_alloc_size a) s = of_nat sz"
    and fl: "flist (kv_mem s) (ld (al_head a) s) [(blk a sz t, n - t * sz)]" and t: "Suc t < n div sz"
  shows "alloc_allocator a s = Some (blk a sz t,
    st (fn_size (blk a sz (Suc t))) (of_nat (n - Suc t * sz))
      (st (fn_next (blk a sz (Suc t))) NULL (st (al_head a) (blk a sz (Suc t)) s)))"
proof -
  have e: "Suc t * sz + sz \<le> n" using blk_end [OF t] .
  have "n - t * sz < 2 ^ 64" "2 * sz < 2 ^ 64" using g by (simp_all add: slab_geo_def less_imp_diff_less)
  then have "unat (of_nat (n - t * sz) :: u64) = n - t * sz" "unat (of_nat (2 * sz) :: u64) = 2 * sz"
    by (simp_all only: unat_of_nat_small)
  then have big: "(2 * of_nat sz :: u64) \<le> of_nat (n - t * sz)"
    using e by (simp add: word_le_nat_alt)
  have nx: "blk a sz t + of_nat sz = blk a sz (Suc t)" by (simp add: blk_def algebra_simps)
  have "of_nat (n - t * sz) - of_nat sz = (of_nat (n - t * sz - sz) :: u64)"
    using e by (subst of_nat_diff) auto
  then have tail: "of_nat (n - t * sz) - of_nat sz = (of_nat (n - Suc t * sz) :: u64)"
    by (simp add: diff_diff_add add.commute)
  have nn: "blk a sz (Suc t) \<noteq> NULL" using blk_not_null [OF g t] .
  have dj: "span (al_head a) 8 \<inter> span (fn_next (blk a sz (Suc t))) 8 = {}"
    using mem_header [OF g, of 0 8] mem_blk [OF g t] span_mono [of 8 sz "blk a sz (Suc t)"] g
    by (auto simp: alloc_fields slab_geo_def subset_iff)
  show ?thesis
    using fl sz big nn g dj nx tail
    by (simp add: alloc_allocator_def deref_def slab_geo_def ld_def st_def Let_def)
qed

lemma flist_head:
  assumes "flist m (ld64 m (al_head a)) (slab_nodes a sz n F t)" "set F \<subseteq> {..<t}" "t \<le> n div sz"
  shows "F \<noteq> [] \<Longrightarrow> flist m (ld64 m (al_head a)) ((blk a sz (hd F), sz) # slab_nodes a sz n (tl F) t)"
    and "F = [] \<Longrightarrow> t < n div sz \<Longrightarrow> flist m (ld64 m (al_head a)) [(blk a sz t, n - t * sz)]"
    and "F = [] \<Longrightarrow> t = n div sz \<Longrightarrow> ld64 m (al_head a) = NULL"
  using assms by (auto simp: slab_nodes_def neq_Nil_conv)

text \<open>Popping the head gives back the block it names.\<close>

lemma slab_pop:
  assumes g: "slab_geo a sz n" and sz: "ld64 m (al_alloc_size a) = of_nat sz"
    and fl: "flist m (ld64 m (fn_next (blk a sz i))) (slab_nodes a sz n F t)"
    and F: "distinct F" "set F \<subseteq> {..<t}" "t \<le> n div sz" and m': "m' = st64 m (al_head a) (ld64 m (fn_next (blk a sz i)))"
  shows "slab a sz n m' (blk a sz ` ({..<t} - set F))"
proof -
  have h: "span (al_head a) 8 \<subseteq> slab_own a sz n (blk a sz ` {..<n div sz})"
    using head_field_own [OF g] by blast
  have sz': "ld64 m' (al_alloc_size a) = of_nat sz"
    using span_add_disjoint [of 16 8 0 8 a] sz by (simp add: m' alloc_fields)
  have "flist m' (ld64 m' (al_head a)) (slab_nodes a sz n F t)"
    unfolding m' ld64_st64_same
    by (rule slab_flist_cong [OF g fl F(2,3)]) (use h in \<open>auto simp: slab_own_def intro!: st64_outside\<close>)
  then show ?thesis using g sz' F by (auto simp: slab_def)
qed

text \<open>Splitting the tail moves it up by one block.\<close>

lemma slab_split:
  assumes g: "slab_geo a sz n" and sz: "ld64 (kv_mem s) (al_alloc_size a) = of_nat sz" and t: "Suc t < n div sz"
    and u: "u = st (fn_size (blk a sz (Suc t))) (of_nat (n - Suc t * sz))
      (st (fn_next (blk a sz (Suc t))) NULL (st (al_head a) (blk a sz (Suc t)) s))"
  shows "slab a sz n (kv_mem u) (blk a sz ` {..<Suc t})"
    and "x \<notin> slab_own a sz n (blk a sz ` {..<Suc t}) \<Longrightarrow> kv_mem u x = kv_mem s x"
proof -
  let ?b = "blk a sz (Suc t)" and ?L = "blk a sz ` {..<Suc t}"
  have sub: "?L \<subseteq> blk a sz ` {..<n div sz}" using t by auto
  have s16: "16 \<le> sz" using g by (auto simp: slab_geo_def)
  have bs: "span (fn_size ?b) 8 \<subseteq> span ?b sz" "span (fn_next ?b) 8 \<subseteq> span ?b sz"
    using span_subset [of 8 8 sz ?b] span_mono [of 8 sz ?b] s16 by (auto simp: alloc_fields)
  have bo: "span ?b sz \<subseteq> slab_own a sz n ?L"
    using live_index [OF g _ t, of "Suc t" "{}"] t by (intro free_blk_own [OF g sub t]) auto
  have hb: "span (al_head a) 8 \<inter> span ?b sz = {}" "span (al_alloc_size a) 8 \<inter> span ?b sz = {}"
    using mem_header [OF g, of 0 8] mem_header [OF g, of 16 8] mem_blk [OF g t] by (auto simp: alloc_fields)
  have ha: "span (al_alloc_size a) 8 \<inter> span (al_head a) 8 = {}"
    using span_add_disjoint [of 16 8 0 8 a] by (simp add: alloc_fields)
  have dj: "span (al_head a) 8 \<inter> span (fn_next ?b) 8 = {}" "span (al_head a) 8 \<inter> span (fn_size ?b) 8 = {}"
    "span (al_alloc_size a) 8 \<inter> span (fn_next ?b) 8 = {}" "span (al_alloc_size a) 8 \<inter> span (fn_size ?b) 8 = {}"
    "span (fn_next ?b) 8 \<inter> span (fn_size ?b) 8 = {}"
    using hb bs span_add_disjoint [of 0 8 8 8 ?b] by (auto simp: alloc_fields)
  have hd: "ld64 (kv_mem u) (al_head a) = ?b" "ld64 (kv_mem u) (al_alloc_size a) = of_nat sz"
    using dj ha sz by (simp_all add: u st_def)
  have "flist (kv_mem u) ?b (slab_nodes a sz n [] (Suc t))"
    using blk_not_null [OF g t] t dj by (simp add: u slab_nodes_def st_def)
  then show "slab a sz n (kv_mem u) ?L"
    unfolding slab_def hd using g t by (intro conjI exI [of _ "[]"] exI [of _ "Suc t"]) auto
  show "kv_mem u x = kv_mem s x" if "x \<notin> slab_own a sz n ?L"
  proof -
    have "x \<notin> span (al_head a) 8" "x \<notin> span (fn_size ?b) 8" "x \<notin> span (fn_next ?b) 8"
      using that head_field_own(1) [OF g sub] bo bs by blast+
    then show ?thesis by (simp add: u st_def)
  qed
qed

lemma slab_own_mono: "K \<subseteq> L \<Longrightarrow> slab_own a sz n L \<subseteq> slab_own a sz n K"
  by (auto simp: slab_own_def)

lemma slab_alloc:
  assumes sl: "slab a sz n (kv_mem s) L" and c: "card L < n div sz"
  shows "\<exists>e t. alloc_allocator a s = Some (e, t) \<and> e \<notin> L \<and> same_env s t \<and> slab a sz n (kv_mem t) (insert e L) \<and>
     (\<forall>x. x \<notin> slab_own a sz n L \<longrightarrow> kv_mem t x = kv_mem s x)"
proof -
  let ?m = "kv_mem s"
  from sl obtain F t where g: "slab_geo a sz n" and sz: "ld64 ?m (al_alloc_size a) = of_nat sz"
    and fl: "flist ?m (ld64 ?m (al_head a)) (slab_nodes a sz n F t)" and F: "distinct F" "set F \<subseteq> {..<t}"
    and t: "t \<le> n div sz" and L: "L = blk a sz ` ({..<t} - set F)"
    by (auto simp: slab_def)
  have sub: "L \<subseteq> blk a sz ` {..<n div sz}" using t L by auto
  have s16: "16 \<le> sz" "sz \<le> n" using g by (auto simp: slab_geo_def)
  note own = head_field_own [OF g sub] and hd = flist_head [OF fl F(2) t]
  have pop: ?thesis
    if P: "alloc_allocator a s = Some (blk a sz i, st (al_head a) (ld (fn_next (blk a sz i)) s) s)"
      and fl': "flist ?m (ld64 ?m (fn_next (blk a sz i))) (slab_nodes a sz n F' t')"
      and F': "distinct F'" "set F' \<subseteq> {..<t'}" "t' \<le> n div sz" "blk a sz i \<notin> L"
        "insert (blk a sz i) L = blk a sz ` ({..<t'} - set F')" for i F' t'
  proof -
    have "slab a sz n (kv_mem (st (al_head a) (ld (fn_next (blk a sz i)) s) s)) (insert (blk a sz i) L)"
      using slab_pop [OF g sz fl' F'(1-3) refl] F'(5) by (simp add: ld_def st_def)
    moreover have "kv_mem (st (al_head a) (ld (fn_next (blk a sz i)) s) s) x = ?m x" if "x \<notin> slab_own a sz n L" for x
      using that own(1) by (auto simp: st_def intro!: st64_outside)
    ultimately show ?thesis using P F'(4) by auto
  qed
  show ?thesis
  proof (cases F)
    case (Cons i F')
    have i: "i < t" "i \<notin> set F'" using F Cons by auto
    have fl1: "flist ?m (ld64 ?m (al_head a)) ((blk a sz i, sz) # slab_nodes a sz n F' t)"
      using hd(1) Cons by simp
    have "insert (blk a sz i) L = blk a sz ` ({..<t} - set F')" unfolding L Cons using i by auto
    moreover have "blk a sz i \<notin> L" using live_index [OF g t, of i "set F"] i t Cons L by simp
    moreover have "alloc_allocator a s = Some (blk a sz i, st (al_head a) (ld (fn_next (blk a sz i)) s) s)"
      using fl1 sz s16 by (intro alloc_pop [OF g]) (auto simp: ld_def)
    ultimately show ?thesis using F Cons t fl1 by (intro pop [of i F' t]) auto
  next
    case Nil
    then have tt: "t < n div sz" using c slab_card [OF g F t] L t by simp
    have fl1: "flist ?m (ld64 ?m (al_head a)) [(blk a sz t, n - t * sz)]" using hd(2) Nil tt by simp
    have ins: "insert (blk a sz t) L = blk a sz ` ({..<Suc t} - set [])" unfolding L Nil by (auto simp: lessThan_Suc)
    have nl: "blk a sz t \<notin> L" using live_index [OF g t tt, of "set F"] L by simp
    show ?thesis
    proof (cases "Suc t < n div sz")
      case True
      note sp = slab_split [OF g sz True refl]
      have "insert (blk a sz t) L = blk a sz ` {..<Suc t}" using ins by simp
      then show ?thesis
        using alloc_split [OF g, of s t] fl1 sz True nl sp slab_own_mono [of L "insert (blk a sz t) L" a sz n]
        by (auto simp: ld_def same_env_def st_def)
    next
      case False
      then have tc: "Suc t = n div sz" using tt by simp
      have "n < n div sz * sz + sz" using s16 by (metis add.commute div_mult_mod_eq mod_less_divisor add_less_cancel_left less_le_trans zero_less_numeral)
      then have "n - t * sz < 2 * sz" using tc [symmetric] s16 by simp
      then have "alloc_allocator a s = Some (blk a sz t, st (al_head a) (ld (fn_next (blk a sz t)) s) s)"
        using fl1 sz s16 by (intro alloc_pop [OF g, where ns = "[]"]) (auto simp: ld_def)
      then show ?thesis using fl1 nl ins tc by (intro pop [of t "[]" "Suc t"]) (auto simp: slab_nodes_def)
    qed
  qed
qed

lemma slab_live: "slab a sz n m L \<Longrightarrow> l \<in> L \<Longrightarrow> \<exists>i < n div sz. slab_geo a sz n \<and> l = blk a sz i"
proof -
  assume "slab a sz n m L" "l \<in> L"
  then obtain F t where g: "slab_geo a sz n" and t: "t \<le> n div sz" and "l \<in> blk a sz ` ({..<t} - set F)"
    by (auto simp: slab_def)
  then obtain i where "i < t" "l = blk a sz i" by auto
  then show ?thesis using g t by (intro exI [of _ i]) simp
qed

lemma slab_full:
  assumes sl: "slab a sz n (kv_mem s) L" and c: "card L = n div sz"
  shows "alloc_allocator a s = Some (NULL, s)"
proof -
  let ?m = "kv_mem s"
  from sl obtain F t where g: "slab_geo a sz n"
    and fl: "flist ?m (ld64 ?m (al_head a)) (slab_nodes a sz n F t)" and F: "distinct F" "set F \<subseteq> {..<t}"
    and t: "t \<le> n div sz" and L: "L = blk a sz ` ({..<t} - set F)"
    by (auto simp: slab_def)
  have "length F \<le> t" using F by (metis card_lessThan card_mono distinct_card finite_lessThan)
  moreover have "0 < n div sz" using g by (simp add: slab_geo_def div_greater_zero_iff)
  ultimately have "F = []" "t = n div sz" using c slab_card [OF g F t] L t by (cases F; simp)+
  then have "ld64 ?m (al_head a) = NULL" using flist_head(3) [OF fl F(2) t] by simp
  then show ?thesis using g by (simp add: alloc_allocator_def deref_def slab_geo_def ld_def Let_def)
qed

lemma slab_free:
  assumes sl: "slab a sz n (kv_mem s) L" and l: "l \<in> L"
  shows "\<exists>t. free_allocator a l s = Some t \<and> same_env s t \<and> slab a sz n (kv_mem t) (L - {l}) \<and>
     (\<forall>x. x \<notin> slab_own a sz n (L - {l}) \<longrightarrow> kv_mem t x = kv_mem s x)"
proof -
  let ?m = "kv_mem s"
  from sl obtain F t where g: "slab_geo a sz n" and sz: "ld64 ?m (al_alloc_size a) = of_nat sz"
    and fl: "flist ?m (ld64 ?m (al_head a)) (slab_nodes a sz n F t)" and F: "distinct F" "set F \<subseteq> {..<t}"
    and t: "t \<le> n div sz" and L: "L = blk a sz ` ({..<t} - set F)"
    by (auto simp: slab_def)
  from l L obtain i where i: "l = blk a sz i" "i < t" "i \<notin> set F" by auto
  have ic: "i < n div sz" using i t by simp
  have s16: "16 \<le> sz" using g by (auto simp: slab_geo_def)
  have L': "L - {l} = blk a sz ` ({..<t} - set (i # F))"
  proof -
    have "L - {l} = blk a sz ` ({..<t} - set F - {i})"
    proof (rule set_eqI, rule iffI)
      fix x
      assume "x \<in> L - {l}"
      then show "x \<in> blk a sz ` ({..<t} - set F - {i})" using L i(1) by auto
    next
      fix x
      assume "x \<in> blk a sz ` ({..<t} - set F - {i})"
      then obtain j where j: "x = blk a sz j" "j < t" "j \<notin> set F" "j \<noteq> i" by auto
      then have "x \<noteq> l" using inj_onD [OF blk_inj [OF g], of j i] ic t i(1) by (metis lessThan_iff less_le_trans)
      then show "x \<in> L - {l}" using j L by auto
    qed
    then show ?thesis using Diff_insert [of "{..<t}" i "set F"] by simp
  qed
  have sub: "L - {l} \<subseteq> blk a sz ` {..<n div sz}" using t L by auto
  define u where "u = st (al_head a) l (st (fn_size l) (of_nat sz) (st (fn_next l) (ld (al_head a) s) s))"
  have bs: "span (fn_size l) 8 \<subseteq> span l sz" "span (fn_next l) 8 \<subseteq> span l sz"
    using span_subset [of 8 8 sz l] span_mono [of 8 sz l] s16 by (auto simp: alloc_fields)
  have hb: "span (al_head a) 8 \<inter> span l sz = {}" "span (al_alloc_size a) 8 \<inter> span l sz = {}"
    using mem_header [OF g, of 0 8] mem_header [OF g, of 16 8] mem_blk [OF g ic] i(1) by (auto simp: alloc_fields)
  have dj: "span (al_alloc_size a) 8 \<inter> span (al_head a) 8 = {}" "span (fn_next l) 8 \<inter> span (fn_size l) 8 = {}"
    "span (al_alloc_size a) 8 \<inter> span (fn_next l) 8 = {}" "span (al_alloc_size a) 8 \<inter> span (fn_size l) 8 = {}"
    "span (al_head a) 8 \<inter> span (fn_next l) 8 = {}" "span (fn_next l) 8 \<inter> span (al_head a) 8 = {}"
    "span (fn_size l) 8 \<inter> span (al_head a) 8 = {}"
    using hb bs span_add_disjoint [of 16 8 0 8 a] span_add_disjoint [of 0 8 8 8 l] by (auto simp: alloc_fields)
  have ln: "l \<noteq> NULL" using blk_not_null [OF g ic] i by simp
  have run: "free_allocator a l s = Some u"
    using g sz ln dj by (simp add: free_allocator_def deref_def slab_geo_def ld_def st_def u_def Let_def)
  have out: "kv_mem u x = ?m x" if "x \<notin> span l sz" "x \<notin> span (al_head a) 8" for x
  proof -
    have "x \<notin> span (fn_size l) 8" "x \<notin> span (fn_next l) 8" using that bs by blast+
    then show ?thesis using that by (simp add: u_def st_def)
  qed
  have "flist (kv_mem u) (ld64 ?m (al_head a)) (slab_nodes a sz n F t)"
  proof (rule slab_flist_cong [OF g fl F(2) t], rule out)
    fix j y
    assume j: "j < n div sz" "j \<in> set F \<or> j = t" "y \<in> span (blk a sz j) sz"
    then show "y \<notin> span l sz" using blk_disjoint [OF g ic j(1)] i by auto
    show "y \<notin> span (al_head a) 8"
      using mem_header [OF g, of 0 8] mem_blk [OF g j(1)] j(3) by (auto simp: alloc_fields)
  qed
  then have "flist (kv_mem u) (ld64 (kv_mem u) (al_head a)) (slab_nodes a sz n (i # F) t)"
    using dj ln i(1) by (simp add: u_def st_def slab_nodes_def ld_def)
  moreover have "ld64 (kv_mem u) (al_alloc_size a) = of_nat sz" using dj sz by (simp add: u_def st_def)
  ultimately have "slab a sz n (kv_mem u) (L - {l})"
    unfolding slab_def L' using g F i t by (intro conjI exI [of _ "i # F"] exI [of _ t]) auto
  moreover have "kv_mem u x = ?m x" if "x \<notin> slab_own a sz n (L - {l})" for x
    using that head_field_own(1) [OF g sub] free_blk_own [OF g sub ic] i(1) by (intro out) auto
  moreover have "same_env s u" by (simp add: u_def same_env_def st_def)
  ultimately show ?thesis using run by blast
qed

interpretation slab: pool "slab a sz n" "span a (24 + n)" "{}" sz "free_allocator a" "n div sz" "alloc_allocator a"
  for a sz n
proof (unfold_locales, goal_cases)
  case (1 m L m')
  then show ?case using slab_local [of a sz n m L m'] by (auto simp: slab_own_def)
next
  case (2 m L l)
  then obtain i where "i < n div sz" "slab_geo a sz n" "l = blk a sz i" using slab_live by blast
  then show ?case using blk_not_null [of a sz n i] blk_region [of a sz n i] by simp
next
  case (3 m L l k)
  then obtain i j where "i < n div sz" "j < n div sz" "slab_geo a sz n" "l = blk a sz i" "k = blk a sz j"
    using slab_live by metis
  then show ?case using blk_disjoint [of a sz n i j] 3 by auto
next
  case (4 m L)
  then show ?case by simp
next
  case (5 m L)
  then show ?case by (auto simp: slab_def slab_geo_def)
next
  case (6 s L l)
  then show ?case using slab_free [of a sz n s L l] by (simp add: slab_own_def)
next
  case (7 m L)
  then obtain F t where g: "slab_geo a sz n" and F: "distinct F" "set F \<subseteq> {..<t}" and t: "t \<le> n div sz"
    and L: "L = blk a sz ` ({..<t} - set F)" by (auto simp: slab_def)
  then show ?case using slab_card [OF g F t] by auto
next
  case (8 s L)
  then show ?case using slab_full [of a sz n s L] by simp
next
  case (9 s L)
  then show ?case using slab_alloc [of a sz n s L] by (simp add: slab_own_def)
qed

section \<open>Initialisation\<close>

lemma init_slab:
  assumes "unat len < 2 ^ 64 - 24" "max (unat obj_len) 16 + 24 \<le> unat len" "space \<noteq> NULL" "unat space + unat len < 2 ^ 63"
  shows "\<exists>t. init_allocator space len obj_len s = Some (space, t) \<and> same_env s t \<and>
    slab space (max (unat obj_len) 16) (unat len - 24) (kv_mem t) {} \<and>
    (\<forall>x. x \<notin> span space (24 + (unat len - 24)) \<longrightarrow> kv_mem t x = kv_mem s x)"
proof -
  define sz n where "sz = max (unat obj_len) 16" and "n = unat len - 24"
  have g: "slab_geo space sz n" using assms by (auto simp: slab_geo_def sz_def n_def)
  have osz: "(if obj_len > sizeof_FreeNode then obj_len else sizeof_FreeNode) = of_nat sz"
    by (auto simp: sz_def alloc_fields word_less_nat_alt max_def)
  have "unat (of_nat sz :: u64) = sz" using assms by (intro unat_of_nat_small) (simp add: sz_def)
  then have big: "\<not> len < 24 + of_nat sz"
    using assms g by (simp add: word_less_nat_alt unat_word_ariths sz_def slab_geo_def)
  have rem: "len - 24 = of_nat n"
  proof -
    have "len = of_nat (n + 24)" using assms by (simp add: n_def)
    then show ?thesis by simp
  qed
  have h: "space + 24 = blk space sz 0" by (simp add: blk_def)
  have c0: "0 < n div sz" using g by (simp add: slab_geo_def div_greater_zero_iff)
  have bn: "blk space sz 0 \<noteq> NULL" using blk_not_null [OF g c0] .
  define u where "u = st (fn_next (blk space sz 0)) NULL (st (fn_size (blk space sz 0)) (of_nat n)
     (st (al_head space) (blk space sz 0) (st (al_alloc_size space) (of_nat sz) (st (al_used space) 0 s))))"
  have run: "init_allocator space len obj_len s = Some (space, u)"
    unfolding init_allocator_def osz
    using big bn rem assms(3) by (simp add: Let_def u_def deref_def ld_def st_def alloc_fields h)
  have f: "fn_next (blk space sz 0) = space + 24" "fn_size (blk space sz 0) = space + 32" "al_head space = space"
    by (simp_all add: alloc_fields blk_def)
  have "flist (kv_mem u) (ld64 (kv_mem u) (al_head space)) (slab_nodes space sz n [] 0)"
    using c0 bn by (simp add: slab_nodes_def u_def st_def f)
  moreover have "ld64 (kv_mem u) (al_alloc_size space) = of_nat sz"
    by (simp add: u_def st_def f al_alloc_size_def)
  ultimately have "slab space sz n (kv_mem u) {}"
    unfolding slab_def using g by (intro conjI exI [of _ "[]"] exI [of _ 0]) auto
  moreover have "kv_mem u x = kv_mem s x" if "x \<notin> span space (24 + n)" for x
  proof -
    have "span (space + k) 8 \<subseteq> span space (24 + n)" if "unat k \<le> 32" for k
      using that g by (intro span_subset) (simp add: slab_geo_def)
    from this [of 0] this [of 8] this [of 16] this [of 24] this [of 32] that
    have "x \<notin> span space 8" "x \<notin> span (space + 8) 8" "x \<notin> span (space + 16) 8" "x \<notin> span (space + 24) 8"
      "x \<notin> span (space + 32) 8" by auto
    then show ?thesis by (simp add: u_def st_def f al_used_def al_alloc_size_def)
  qed
  moreover have "same_env s u" by (simp add: u_def same_env_def st_def)
  ultimately show ?thesis using run by (auto simp: sz_def n_def)
qed

end
