(* ===== verification/Kv_Dict.thy ===== *)
theory Kv_Dict
  imports Kv_Alloc
begin

text \<open>
  \<open>apps/kvstore/dict.c\<close> and \<open>dict.h\<close>: the chained hash table of the store, a variant of the one of Redis
  whose table is placed in the space the caller gives and never grows. All of it lives in the byte memory:
  the definitions follow the pointers the code follows. The callbacks of \<open>struct dictType\<close> are functions
  on the state; \<open>d->type\<close> is the argument \<open>ty\<close>. Functions whose name starts with an underscore carry the
  prefix \<open>p_\<close> here.
\<close>

section \<open>Layout of the structures\<close>

abbreviation DICT_OK :: int where "DICT_OK \<equiv> 0"
abbreviation DICT_ERR :: int where "DICT_ERR \<equiv> 1"

definition DICT_HT_INITIAL_SIZE :: u64 where "DICT_HT_INITIAL_SIZE = 4"

definition de_key :: "addr \<Rightarrow> addr" where "de_key e = e"
definition de_val :: "addr \<Rightarrow> addr" where "de_val e = e + 8"
definition de_next :: "addr \<Rightarrow> addr" where "de_next e = e + 16"
definition sizeof_dictEntry :: u64 where "sizeof_dictEntry = 24"

definition ht_table :: "addr \<Rightarrow> addr" where "ht_table h = h"
definition ht_size :: "addr \<Rightarrow> addr" where "ht_size h = h + 8"
definition ht_sizemask :: "addr \<Rightarrow> addr" where "ht_sizemask h = h + 16"
definition ht_used :: "addr \<Rightarrow> addr" where "ht_used h = h + 24"

definition dict_type :: "addr \<Rightarrow> addr" where "dict_type d = d"
definition dict_privdata :: "addr \<Rightarrow> addr" where "dict_privdata d = d + 8"
definition dict_ht0 :: "addr \<Rightarrow> addr" where "dict_ht0 d = d + 16"
definition dict_ht1 :: "addr \<Rightarrow> addr" where "dict_ht1 d = d + 48"
definition dict_rehashidx :: "addr \<Rightarrow> addr" where "dict_rehashidx d = d + 80"
definition dict_iterators :: "addr \<Rightarrow> addr" where "dict_iterators d = d + 88"
definition sizeof_dict :: u64 where "sizeof_dict = 96"

lemmas dict_fields = de_key_def de_val_def de_next_def ht_table_def ht_size_def ht_sizemask_def ht_used_def
  dict_type_def dict_privdata_def dict_ht0_def dict_ht1_def dict_rehashidx_def dict_iterators_def

text \<open>\<open>struct dictType\<close>; an absent callback is \<open>None\<close>.\<close>

record dictType =
  hashFunction :: "addr \<Rightarrow> kv \<Rightarrow> u64 option"
  keyDup :: "(addr \<Rightarrow> addr \<Rightarrow> kv \<Rightarrow> (addr \<times> kv) option) option"
  valDup :: "(addr \<Rightarrow> addr \<Rightarrow> kv \<Rightarrow> (addr \<times> kv) option) option"
  keyCompare :: "(addr \<Rightarrow> addr \<Rightarrow> addr \<Rightarrow> kv \<Rightarrow> int option) option"
  keyDestructor :: "(addr \<Rightarrow> addr \<Rightarrow> kv \<Rightarrow> kv option) option"
  valDestructor :: "(addr \<Rightarrow> addr \<Rightarrow> kv \<Rightarrow> kv option) option"
  entryAlloc :: "(addr \<Rightarrow> kv \<Rightarrow> (addr \<times> kv) option) option"
  entryDestructor :: "(addr \<Rightarrow> addr \<Rightarrow> kv \<Rightarrow> kv option) option"
  entryModed :: "(addr \<Rightarrow> addr \<Rightarrow> kv \<Rightarrow> kv option) option"

section \<open>The macros of dict.h\<close>

definition dictIsRehashing :: "addr \<Rightarrow> kv \<Rightarrow> bool" where
  "dictIsRehashing d s \<longleftrightarrow> ld (dict_rehashidx d) s \<noteq> - 1"

definition dictSize :: "addr \<Rightarrow> kv \<Rightarrow> u64" where
  "dictSize d s = ld (ht_used (dict_ht0 d)) s + ld (ht_used (dict_ht1 d)) s"

definition dictSlots :: "addr \<Rightarrow> kv \<Rightarrow> u64" where
  "dictSlots d s = ld (ht_size (dict_ht0 d)) s + ld (ht_size (dict_ht1 d)) s"

definition dictFreeVal :: "dictType \<Rightarrow> addr \<Rightarrow> u64 \<Rightarrow> kv \<Rightarrow> kv option" where
  "dictFreeVal ty d v s = (case valDestructor ty of Some f \<Rightarrow> f (ld (dict_privdata d) s) v s | None \<Rightarrow> Some s)"

definition dictFreeKey :: "dictType \<Rightarrow> addr \<Rightarrow> addr \<Rightarrow> kv \<Rightarrow> kv option" where
  "dictFreeKey ty d e s =
    (case keyDestructor ty of Some f \<Rightarrow> f (ld (dict_privdata d) s) (ld (de_key e) s) s | None \<Rightarrow> Some s)"

definition dictSetVal :: "dictType \<Rightarrow> addr \<Rightarrow> addr \<Rightarrow> u64 \<Rightarrow> kv \<Rightarrow> kv option" where
  "dictSetVal ty d e v s =
    (case valDup ty of Some f \<Rightarrow> do { (v, s) \<leftarrow> f (ld (dict_privdata d) s) v s; Some (st (de_val e) v s) }
     | None \<Rightarrow> Some (st (de_val e) v s))"

definition dictSetKey :: "dictType \<Rightarrow> addr \<Rightarrow> addr \<Rightarrow> u64 \<Rightarrow> kv \<Rightarrow> kv option" where
  "dictSetKey ty d e k s =
    (case keyDup ty of Some f \<Rightarrow> do { (k, s) \<leftarrow> f (ld (dict_privdata d) s) k s; Some (st (de_key e) k s) }
     | None \<Rightarrow> Some (st (de_key e) k s))"

definition dictCompareKeys :: "dictType \<Rightarrow> addr \<Rightarrow> addr \<Rightarrow> addr \<Rightarrow> kv \<Rightarrow> int option" where
  "dictCompareKeys ty d k1 k2 s =
    (case keyCompare ty of Some f \<Rightarrow> f (ld (dict_privdata d) s) k1 k2 s | None \<Rightarrow> Some (if k1 = k2 then 1 else 0))"

definition dictHashKey :: "dictType \<Rightarrow> addr \<Rightarrow> kv \<Rightarrow> u64 option" where
  "dictHashKey ty k s = hashFunction ty k s"

section \<open>Entries, seed and hash functions\<close>

text \<open>\<open>free(e)\<close> is never reached: the \<open>assert(0)\<close> before it fails.\<close>

definition p_dictFreeEntry :: "dictType \<Rightarrow> addr \<Rightarrow> addr \<Rightarrow> kv \<Rightarrow> kv option" where
  "p_dictFreeEntry ty d e s =
    (case entryDestructor ty of Some f \<Rightarrow> f (ld (dict_privdata d) s) e s | None \<Rightarrow> None)"

definition p_dictModed :: "dictType \<Rightarrow> addr \<Rightarrow> addr \<Rightarrow> kv \<Rightarrow> kv option" where
  "p_dictModed ty d e s = (case entryModed ty of Some f \<Rightarrow> f (ld (dict_privdata d) s) e s | None \<Rightarrow> Some s)"

definition dictSetHashFunctionSeed :: "u8 list \<Rightarrow> kv \<Rightarrow> kv" where
  "dictSetHashFunctionSeed sd s = s\<lparr>kv_seed := take 16 sd\<rparr>"

definition dictGetHashFunctionSeed :: "kv \<Rightarrow> u8 list" where
  "dictGetHashFunctionSeed s = kv_seed s"

text \<open>The length is an \<open>int\<close> that \<open>siphash\<close> takes as a \<open>size_t\<close>.\<close>

definition dictGenHashFunction :: "addr \<Rightarrow> u32 \<Rightarrow> kv \<Rightarrow> u64" where
  "dictGenHashFunction key len s = siphash (bytes_at (kv_mem s) key (unat (scast len :: u64))) (kv_seed s)"

definition dictGenCaseHashFunction :: "addr \<Rightarrow> u32 \<Rightarrow> kv \<Rightarrow> u64" where
  "dictGenCaseHashFunction buf len s = siphash_nocase (bytes_at (kv_mem s) buf (unat (scast len :: u64))) (kv_seed s)"

section \<open>Creating a table\<close>

definition p_dictReset :: "addr \<Rightarrow> kv \<Rightarrow> kv" where
  "p_dictReset h s =
    st (ht_used h) 0 (st (ht_sizemask h) 0 (st (ht_size h) 0 (st (ht_table h) NULL s)))"

definition p_dictInit :: "addr \<Rightarrow> addr \<Rightarrow> addr \<Rightarrow> kv \<Rightarrow> int \<times> kv" where
  "p_dictInit d type privDataPtr s =
    (let s = p_dictReset (dict_ht0 d) s;
         s = p_dictReset (dict_ht1 d) s;
         s = st (dict_type d) type s;
         s = st (dict_privdata d) privDataPtr s;
         s = st (dict_rehashidx d) (- 1) s;
         s = st (dict_iterators d) 0 s
     in (DICT_OK, s))"

text \<open>\<open>None\<close> when the assertion fails.\<close>

definition p_dictPrevPower :: "u64 \<Rightarrow> u64 option" where
  "p_dictPrevPower sz =
    (if sz < DICT_HT_INITIAL_SIZE then None
     else let sz = sz OR drop_bit 1 sz;
              sz = sz OR drop_bit 2 sz;
              sz = sz OR drop_bit 4 sz;
              sz = sz OR drop_bit 8 sz;
              sz = sz OR drop_bit 16 sz;
              sz = sz OR drop_bit 32 sz
          in Some (sz - drop_bit 1 sz))"

partial_function (option) nextPower_loop :: "u64 \<Rightarrow> u64 \<Rightarrow> u64 option" where
  "nextPower_loop sz i = (if i \<ge> sz then Some i else nextPower_loop sz (i * 2))"

definition LONG_MAX :: u64 where "LONG_MAX = 0x7fffffffffffffff"

definition p_dictNextPower :: "u64 \<Rightarrow> u64 option" where
  "p_dictNextPower sz = (if sz \<ge> LONG_MAX then Some LONG_MAX else nextPower_loop sz DICT_HT_INITIAL_SIZE)"

definition p_dictCreate :: "addr \<Rightarrow> u64 \<Rightarrow> addr \<Rightarrow> kv \<Rightarrow> (int \<times> kv) option" where
  "p_dictCreate d sz area s = do {
     realsize \<leftarrow> p_dictPrevPower (sz div 8);
     if realsize < DICT_HT_INITIAL_SIZE then Some (DICT_ERR, s)
     else do {
       let s = st (ht_table (dict_ht0 d)) area s;
       let s = st (ht_size (dict_ht0 d)) realsize s;
       let s = st (ht_sizemask (dict_ht0 d)) (realsize - 1) s;
       let s = st (ht_used (dict_ht0 d)) 0 s;
       Some (DICT_OK, s) } }"

definition dictCreate :: "addr \<Rightarrow> addr \<Rightarrow> addr \<Rightarrow> u64 \<Rightarrow> kv \<Rightarrow> (addr \<times> kv) option" where
  "dictCreate type privDataPtr space sz s =
    (if sz < sizeof_dict then Some (NULL, s)
     else let remaining = sz - sizeof_dict
          in if remaining div 8 < DICT_HT_INITIAL_SIZE then Some (NULL, s)
             else do {
               d \<leftarrow> deref space;
               let (_, s) = p_dictInit d type privDataPtr s;
               (_, s) \<leftarrow> p_dictCreate d remaining (space + sizeof_dict) s;
               Some (d, s) })"

definition dictExpand :: "addr \<Rightarrow> u64 \<Rightarrow> kv \<Rightarrow> int" where
  "dictExpand d sz s = DICT_ERR"

text \<open>\<open>minimal\<close> is an \<open>int\<close>.\<close>

definition dictResize :: "addr \<Rightarrow> kv \<Rightarrow> int" where
  "dictResize d s =
    (if \<not> kv_can_resize s \<or> dictIsRehashing d s then DICT_ERR
     else let minimal = (ucast (ld (ht_used (dict_ht0 d)) s) :: u32);
              minimal = (if minimal <s 4 then 4 else minimal)
          in dictExpand d (scast minimal) s)"

section \<open>Rehashing\<close>

text \<open>\<open>ht->table[i]\<close>: its address.\<close>

definition slot :: "addr \<Rightarrow> u64 \<Rightarrow> kv \<Rightarrow> addr option" where
  "slot h i s = do { t \<leftarrow> deref (ld (ht_table h) s); Some (t + 8 * i) }"

text \<open>Skipping empty buckets; \<open>Inl\<close> when the visits are used up.\<close>

partial_function (option) rehash_skip :: "addr \<Rightarrow> int \<Rightarrow> kv \<Rightarrow> (kv + int \<times> kv) option" where
  "rehash_skip d visits s = do {
     p \<leftarrow> slot (dict_ht0 d) (ld (dict_rehashidx d) s) s;
     if ld p s = NULL
     then do {
       let s = st (dict_rehashidx d) (ld (dict_rehashidx d) s + 1) s;
       let visits = visits - 1;
       if visits = 0 then Some (Inl s) else rehash_skip d visits s }
     else Some (Inr (visits, s)) }"

text \<open>Moving the entries of one bucket.\<close>

partial_function (option) rehash_move :: "dictType \<Rightarrow> addr \<Rightarrow> addr \<Rightarrow> kv \<Rightarrow> kv option" where
  "rehash_move ty d de s =
    (if de = NULL then Some s
     else do {
       let nextde = ld (de_next de) s;
       hv \<leftarrow> dictHashKey ty (ld (de_key de) s) s;
       let h = (ucast (hv AND ld (ht_sizemask (dict_ht1 d)) s) :: u32);
       p \<leftarrow> slot (dict_ht1 d) (ucast h) s;
       let s = st (de_next de) (ld p s) s;
       let s = st p de s;
       let s = st (ht_used (dict_ht0 d)) (ld (ht_used (dict_ht0 d)) s - 1) s;
       let s = st (ht_used (dict_ht1 d)) (ld (ht_used (dict_ht1 d)) s + 1) s;
       rehash_move ty d nextde s })"

text \<open>\<open>while (n-- && d->ht[0].used != 0)\<close>; \<open>Inl\<close> for the \<open>return 1\<close> inside it.\<close>

partial_function (option) rehash_loop :: "dictType \<Rightarrow> addr \<Rightarrow> int \<Rightarrow> int \<Rightarrow> kv \<Rightarrow> (kv + kv) option" where
  "rehash_loop ty d n visits s =
    (if n = 0 \<or> ld (ht_used (dict_ht0 d)) s = 0 then Some (Inr s)
     else if ld (ht_size (dict_ht0 d)) s \<le> ld (dict_rehashidx d) s then None
     else do {
       r \<leftarrow> rehash_skip d visits s;
       case r of
         Inl s \<Rightarrow> Some (Inl s)
       | Inr (visits, s) \<Rightarrow> do {
           p \<leftarrow> slot (dict_ht0 d) (ld (dict_rehashidx d) s) s;
           s \<leftarrow> rehash_move ty d (ld p s) s;
           p \<leftarrow> slot (dict_ht0 d) (ld (dict_rehashidx d) s) s;
           let s = st p NULL s;
           let s = st (dict_rehashidx d) (ld (dict_rehashidx d) s + 1) s;
           rehash_loop ty d (n - 1) visits s } })"

text \<open>\<open>free(d->ht[0].table)\<close>: a table is never memory of \<open>malloc\<close>, so only \<open>NULL\<close> may be freed.\<close>

definition free_table :: "addr \<Rightarrow> kv \<Rightarrow> kv option" where
  "free_table p s = (if p = NULL then Some s else None)"

definition dictRehash :: "dictType \<Rightarrow> addr \<Rightarrow> int \<Rightarrow> kv \<Rightarrow> (int \<times> kv) option" where
  "dictRehash ty d n s =
    (let empty_visits = n * 10
     in if \<not> dictIsRehashing d s then Some (0, s)
        else do {
          r \<leftarrow> rehash_loop ty d n empty_visits s;
          case r of
            Inl s \<Rightarrow> Some (1, s)
          | Inr s \<Rightarrow>
              if ld (ht_used (dict_ht0 d)) s = 0
              then do {
                s \<leftarrow> free_table (ld (ht_table (dict_ht0 d)) s) s;
                let s = st (ht_table (dict_ht0 d)) (ld (ht_table (dict_ht1 d)) s) s;
                let s = st (ht_size (dict_ht0 d)) (ld (ht_size (dict_ht1 d)) s) s;
                let s = st (ht_sizemask (dict_ht0 d)) (ld (ht_sizemask (dict_ht1 d)) s) s;
                let s = st (ht_used (dict_ht0 d)) (ld (ht_used (dict_ht1 d)) s) s;
                let s = p_dictReset (dict_ht1 d) s;
                let s = st (dict_rehashidx d) (- 1) s;
                Some (0, s) }
              else Some (1, s) })"

partial_function (option) rehash_ms_loop :: "dictType \<Rightarrow> addr \<Rightarrow> int \<Rightarrow> int \<Rightarrow> int \<Rightarrow> kv \<Rightarrow> (int \<times> kv) option" where
  "rehash_ms_loop ty d ms start rehashes s = do {
     (r, s) \<leftarrow> dictRehash ty d 100 s;
     if r \<noteq> 0
     then do {
       let rehashes = rehashes + 100;
       let (now, s) = timeInMilliseconds s;
       if now - start > ms then Some (rehashes, s) else rehash_ms_loop ty d ms start rehashes s }
     else Some (rehashes, s) }"

definition dictRehashMilliseconds :: "dictType \<Rightarrow> addr \<Rightarrow> int \<Rightarrow> kv \<Rightarrow> (int \<times> kv) option" where
  "dictRehashMilliseconds ty d ms s = (let (start, s) = timeInMilliseconds s in rehash_ms_loop ty d ms start 0 s)"

definition p_dictRehashStep :: "dictType \<Rightarrow> addr \<Rightarrow> kv \<Rightarrow> kv option" where
  "p_dictRehashStep ty d s =
    (if ld (dict_iterators d) s = 0 then do { (_, s) \<leftarrow> dictRehash ty d 1 s; Some s } else Some s)"

definition rehash_if_needed :: "dictType \<Rightarrow> addr \<Rightarrow> kv \<Rightarrow> kv option" where
  "rehash_if_needed ty d s = (if dictIsRehashing d s then p_dictRehashStep ty d s else Some s)"

section \<open>Lookup and insertion\<close>

text \<open>The loop \<open>while (he)\<close> over a chain; \<open>NULL\<close> when no entry has the key.\<close>

partial_function (option) key_search :: "dictType \<Rightarrow> addr \<Rightarrow> addr \<Rightarrow> addr \<Rightarrow> kv \<Rightarrow> addr option" where
  "key_search ty d key he s =
    (if he = NULL then Some NULL
     else if key = ld (de_key he) s then Some he
     else do {
       c \<leftarrow> dictCompareKeys ty d key (ld (de_key he) s) s;
       if c \<noteq> 0 then Some he else key_search ty d key (ld (de_next he) s) s })"

text \<open>\<open>idx = hash & ht->sizemask\<close>, an \<open>unsigned int\<close>.\<close>

definition ht_idx :: "u32 \<Rightarrow> addr \<Rightarrow> kv \<Rightarrow> u32" where
  "ht_idx hash h s = ucast (ucast hash AND ld (ht_sizemask h) s)"

definition ht_search :: "dictType \<Rightarrow> addr \<Rightarrow> addr \<Rightarrow> addr \<Rightarrow> u32 \<Rightarrow> kv \<Rightarrow> addr option" where
  "ht_search ty d h key hash s = do {
     p \<leftarrow> slot h (ucast (ht_idx hash h s)) s;
     key_search ty d key (ld p s) s }"

definition p_dictExpandIfNeeded :: "addr \<Rightarrow> kv \<Rightarrow> int" where
  "p_dictExpandIfNeeded d s =
    (if dictIsRehashing d s then DICT_OK
     else if ld (ht_size (dict_ht0 d)) s = 0 then dictExpand d DICT_HT_INITIAL_SIZE s
     else if ld (ht_used (dict_ht0 d)) s \<ge> ld (ht_size (dict_ht0 d)) s \<and>
        (kv_can_resize s \<or> ld (ht_used (dict_ht0 d)) s div ld (ht_size (dict_ht0 d)) s > 5)
     then dictExpand d (ld (ht_used (dict_ht0 d)) s * 2) s
     else DICT_OK)"

text \<open>The index, an \<open>int\<close>, and the entry stored through \<open>existing\<close>.\<close>

definition p_dictKeyIndex :: "dictType \<Rightarrow> addr \<Rightarrow> addr \<Rightarrow> u32 \<Rightarrow> kv \<Rightarrow> (u32 \<times> addr) option" where
  "p_dictKeyIndex ty d key hash s =
    (if p_dictExpandIfNeeded d s = DICT_ERR then Some (- 1, NULL)
     else do {
       he \<leftarrow> ht_search ty d (dict_ht0 d) key hash s;
       if he \<noteq> NULL then Some (- 1, he)
       else if \<not> dictIsRehashing d s then Some (ht_idx hash (dict_ht0 d) s, NULL)
       else do {
         he \<leftarrow> ht_search ty d (dict_ht1 d) key hash s;
         if he \<noteq> NULL then Some (- 1, he) else Some (ht_idx hash (dict_ht1 d) s, NULL) } })"

text \<open>The new entry or \<open>NULL\<close>, and the entry stored through \<open>existing\<close>.\<close>

definition dictAddRaw :: "dictType \<Rightarrow> addr \<Rightarrow> addr \<Rightarrow> kv \<Rightarrow> (addr \<times> addr \<times> kv) option" where
  "dictAddRaw ty d key s = do {
     s \<leftarrow> rehash_if_needed ty d s;
     hv \<leftarrow> dictHashKey ty key s;
     (index, existing) \<leftarrow> p_dictKeyIndex ty d key (ucast hv) s;
     if index = - 1 then Some (NULL, existing, s)
     else do {
       let h = (if dictIsRehashing d s then dict_ht1 d else dict_ht0 d);
       f \<leftarrow> entryAlloc ty;
       (entry, s) \<leftarrow> f (ld (dict_privdata d) s) s;
       entry \<leftarrow> deref entry;
       p \<leftarrow> slot h (scast index) s;
       let s = st (de_next entry) (ld p s) s;
       let s = st p entry s;
       s \<leftarrow> p_dictModed ty d p s;
       let s = st (ht_used h) (ld (ht_used h) s + 1) s;
       s \<leftarrow> dictSetKey ty d entry key s;
       Some (entry, existing, s) } }"

definition dictAdd :: "dictType \<Rightarrow> addr \<Rightarrow> addr \<Rightarrow> u64 \<Rightarrow> kv \<Rightarrow> (int \<times> kv) option" where
  "dictAdd ty d key val s = do {
     (entry, _, s) \<leftarrow> dictAddRaw ty d key s;
     if entry = NULL then Some (DICT_ERR, s)
     else do { s \<leftarrow> dictSetVal ty d entry val s; Some (DICT_OK, s) } }"

definition dictReplace :: "dictType \<Rightarrow> addr \<Rightarrow> addr \<Rightarrow> u64 \<Rightarrow> kv \<Rightarrow> (int \<times> kv) option" where
  "dictReplace ty d key val s = do {
     (entry, existing, s) \<leftarrow> dictAddRaw ty d key s;
     if entry \<noteq> NULL then do { s \<leftarrow> dictSetVal ty d entry val s; Some (1, s) }
     else do {
       existing \<leftarrow> deref existing;
       let aux_val = ld (de_val existing) s;
       s \<leftarrow> dictSetVal ty d existing val s;
       s \<leftarrow> dictFreeVal ty d aux_val s;
       Some (0, s) } }"

definition dictAddOrFind :: "dictType \<Rightarrow> addr \<Rightarrow> addr \<Rightarrow> kv \<Rightarrow> (addr \<times> kv) option" where
  "dictAddOrFind ty d key s = do {
     (entry, existing, s) \<leftarrow> dictAddRaw ty d key s;
     Some (if entry \<noteq> NULL then entry else existing, s) }"

definition dictFind :: "dictType \<Rightarrow> addr \<Rightarrow> addr \<Rightarrow> kv \<Rightarrow> (addr \<times> kv) option" where
  "dictFind ty d key s =
    (if ld (ht_used (dict_ht0 d)) s + ld (ht_used (dict_ht1 d)) s = 0 then Some (NULL, s)
     else do {
       s \<leftarrow> rehash_if_needed ty d s;
       hv \<leftarrow> dictHashKey ty key s;
       he \<leftarrow> ht_search ty d (dict_ht0 d) key (ucast hv) s;
       if he \<noteq> NULL then Some (he, s)
       else if \<not> dictIsRehashing d s then Some (NULL, s)
       else do {
         he \<leftarrow> ht_search ty d (dict_ht1 d) key (ucast hv) s;
         Some (he, s) } })"

definition dictFetchValue :: "dictType \<Rightarrow> addr \<Rightarrow> addr \<Rightarrow> kv \<Rightarrow> (u64 \<times> kv) option" where
  "dictFetchValue ty d key s = do {
     (he, s) \<leftarrow> dictFind ty d key s;
     Some (if he \<noteq> NULL then ld (de_val he) s else NULL, s) }"

definition dictGetHash :: "dictType \<Rightarrow> addr \<Rightarrow> kv \<Rightarrow> u32 option" where
  "dictGetHash ty key s = do { hv \<leftarrow> dictHashKey ty key s; Some (ucast hv) }"

text \<open>A search by the key's pointer; the result is the address of the reference to the entry.\<close>

partial_function (option) ref_search :: "addr \<Rightarrow> addr \<Rightarrow> kv \<Rightarrow> addr option" where
  "ref_search oldptr heref s =
    (let he = ld heref s
     in if he = NULL then Some NULL
        else if oldptr = ld (de_key he) s then Some heref
        else ref_search oldptr (de_next he) s)"

definition dictFindEntryRefByPtrAndHash :: "addr \<Rightarrow> addr \<Rightarrow> u32 \<Rightarrow> kv \<Rightarrow> addr option" where
  "dictFindEntryRefByPtrAndHash d oldptr hash s =
    (if ld (ht_used (dict_ht0 d)) s + ld (ht_used (dict_ht1 d)) s = 0 then Some NULL
     else do {
       p \<leftarrow> slot (dict_ht0 d) (ucast (ht_idx hash (dict_ht0 d) s)) s;
       r \<leftarrow> ref_search oldptr p s;
       if r \<noteq> NULL then Some r
       else if \<not> dictIsRehashing d s then Some NULL
       else do {
         p \<leftarrow> slot (dict_ht1 d) (ucast (ht_idx hash (dict_ht1 d) s)) s;
         ref_search oldptr p s } })"

section \<open>Deletion\<close>

text \<open>The loop over a chain that remembers the entry before.\<close>

partial_function (option) del_search :: "dictType \<Rightarrow> addr \<Rightarrow> addr \<Rightarrow> addr \<Rightarrow> addr \<Rightarrow> kv \<Rightarrow> (addr \<times> addr) option" where
  "del_search ty d key prevHe he s =
    (if he = NULL then Some (prevHe, NULL)
     else if key = ld (de_key he) s then Some (prevHe, he)
     else do {
       c \<leftarrow> dictCompareKeys ty d key (ld (de_key he) s) s;
       if c \<noteq> 0 then Some (prevHe, he) else del_search ty d key he (ld (de_next he) s) s })"

definition free_parts :: "dictType \<Rightarrow> addr \<Rightarrow> addr \<Rightarrow> kv \<Rightarrow> kv option" where
  "free_parts ty d he s = do {
     s \<leftarrow> dictFreeKey ty d he s;
     s \<leftarrow> dictFreeVal ty d (ld (de_val he) s) s;
     p_dictFreeEntry ty d he s }"

text \<open>One round of the loop over the two tables.\<close>

definition delete_in :: "dictType \<Rightarrow> addr \<Rightarrow> addr \<Rightarrow> addr \<Rightarrow> u32 \<Rightarrow> bool \<Rightarrow> kv \<Rightarrow> (addr \<times> kv) option" where
  "delete_in ty d h key hash nofree s = do {
     p \<leftarrow> slot h (ucast (ht_idx hash h s)) s;
     (prevHe, he) \<leftarrow> del_search ty d key NULL (ld p s) s;
     if he = NULL then Some (NULL, s)
     else do {
       let ref = (if prevHe \<noteq> NULL then de_next prevHe else p);
       let s = st ref (ld (de_next he) s) s;
       s \<leftarrow> p_dictModed ty d ref s;
       s \<leftarrow> (if nofree then Some s else free_parts ty d he s);
       Some (he, st (ht_used h) (ld (ht_used h) s - 1) s) } }"

definition dictGenericDelete :: "dictType \<Rightarrow> addr \<Rightarrow> addr \<Rightarrow> bool \<Rightarrow> kv \<Rightarrow> (addr \<times> kv) option" where
  "dictGenericDelete ty d key nofree s =
    (if ld (ht_used (dict_ht0 d)) s = 0 \<and> ld (ht_used (dict_ht1 d)) s = 0 then Some (NULL, s)
     else do {
       s \<leftarrow> rehash_if_needed ty d s;
       hv \<leftarrow> dictHashKey ty key s;
       (he, s) \<leftarrow> delete_in ty d (dict_ht0 d) key (ucast hv) nofree s;
       if he \<noteq> NULL then Some (he, s)
       else if \<not> dictIsRehashing d s then Some (NULL, s)
       else delete_in ty d (dict_ht1 d) key (ucast hv) nofree s })"

definition dictDelete :: "dictType \<Rightarrow> addr \<Rightarrow> addr \<Rightarrow> kv \<Rightarrow> (int \<times> kv) option" where
  "dictDelete ty d key s = do {
     (he, s) \<leftarrow> dictGenericDelete ty d key False s;
     Some (if he \<noteq> NULL then DICT_OK else DICT_ERR, s) }"

definition dictUnlink :: "dictType \<Rightarrow> addr \<Rightarrow> addr \<Rightarrow> kv \<Rightarrow> (addr \<times> kv) option" where
  "dictUnlink ty d key s = dictGenericDelete ty d key True s"

definition dictFreeUnlinkedEntry :: "dictType \<Rightarrow> addr \<Rightarrow> addr \<Rightarrow> kv \<Rightarrow> kv option" where
  "dictFreeUnlinkedEntry ty d he s = (if he = NULL then Some s else free_parts ty d he s)"

section \<open>Clearing\<close>

partial_function (option) clear_chain :: "dictType \<Rightarrow> addr \<Rightarrow> addr \<Rightarrow> addr \<Rightarrow> kv \<Rightarrow> kv option" where
  "clear_chain ty d h he s =
    (if he = NULL then Some s
     else do {
       let nextHe = ld (de_next he) s;
       s \<leftarrow> free_parts ty d he s;
       let s = st (ht_used h) (ld (ht_used h) s - 1) s;
       clear_chain ty d h nextHe s })"

partial_function (option) clear_loop ::
  "dictType \<Rightarrow> addr \<Rightarrow> addr \<Rightarrow> (addr \<Rightarrow> kv \<Rightarrow> kv option) option \<Rightarrow> u64 \<Rightarrow> kv \<Rightarrow> kv option" where
  "clear_loop ty d h callback i s =
    (if i < ld (ht_size h) s \<and> ld (ht_used h) s > 0
     then do {
       s \<leftarrow> (case callback of
              Some cb \<Rightarrow> if i AND 65535 = 0 then cb (ld (dict_privdata d) s) s else Some s
            | None \<Rightarrow> Some s);
       p \<leftarrow> slot h i s;
       s \<leftarrow> clear_chain ty d h (ld p s) s;
       clear_loop ty d h callback (i + 1) s }
     else Some s)"

definition p_dictClear ::
  "dictType \<Rightarrow> addr \<Rightarrow> addr \<Rightarrow> (addr \<Rightarrow> kv \<Rightarrow> kv option) option \<Rightarrow> kv \<Rightarrow> (int \<times> kv) option" where
  "p_dictClear ty d h callback s = do {
     s \<leftarrow> clear_loop ty d h callback 0 s;
     Some (DICT_OK, p_dictReset h s) }"

text \<open>\<open>dictRelease\<close> starts with \<open>assert(0)\<close>.\<close>

definition dictRelease :: "dictType \<Rightarrow> addr \<Rightarrow> kv \<Rightarrow> kv option" where
  "dictRelease ty d s = None"

definition dictEmpty :: "dictType \<Rightarrow> addr \<Rightarrow> (addr \<Rightarrow> kv \<Rightarrow> kv option) option \<Rightarrow> kv \<Rightarrow> kv option" where
  "dictEmpty ty d callback s = do {
     (_, s) \<leftarrow> p_dictClear ty d (dict_ht0 d) callback s;
     (_, s) \<leftarrow> p_dictClear ty d (dict_ht1 d) callback s;
     Some (st (dict_iterators d) 0 (st (dict_rehashidx d) (- 1) s)) }"

definition dictEnableResize :: "kv \<Rightarrow> kv" where
  "dictEnableResize s = s\<lparr>kv_can_resize := True\<rparr>"

definition dictDisableResize :: "kv \<Rightarrow> kv" where
  "dictDisableResize s = s\<lparr>kv_can_resize := False\<rparr>"

end
