(* ===== verification/Kv_Alloc_Dict.thy ===== *)
theory Kv_Alloc_Dict
  imports Kv_Dict
begin

text \<open>
  \<open>apps/kvstore/alloc_dict.c\<close>: the callbacks that place the entries, keys and values of a dictionary in three
  pools of the area and log what they write, the wrapper that ties them together, and the two operations of
  \<open>apps/kvstore/main.c\<close> on it, \<open>update\<close> and \<open>get\<close>.
\<close>

section \<open>The wrapper and its callbacks\<close>

definition dw_entryAllocator :: "addr \<Rightarrow> addr" where "dw_entryAllocator w = w"
definition dw_keyAllocator :: "addr \<Rightarrow> addr" where "dw_keyAllocator w = w + 8"
definition dw_valAllocator :: "addr \<Rightarrow> addr" where "dw_valAllocator w = w + 16"
definition dw_d :: "addr \<Rightarrow> addr" where "dw_d w = w + 24"
definition sizeof_dictWrapper :: u64 where "sizeof_dictWrapper = 32"

lemmas wrapper_fields = dw_entryAllocator_def dw_keyAllocator_def dw_valAllocator_def dw_d_def sizeof_dictWrapper_def

text \<open>The three destructors give the block back and log the allocator and the block.\<close>

definition keyDestructor_cb :: "addr \<Rightarrow> addr \<Rightarrow> kv \<Rightarrow> kv option" where
  "keyDestructor_cb privdata key s = do {
     let a = ld (dw_keyAllocator privdata) s;
     s \<leftarrow> free_allocator a key s;
     let s = wrap_log_write a sizeof_Allocator s;
     Some (wrap_log_write key (ld (al_alloc_size a) s) s) }"

definition valDestructor_cb :: "addr \<Rightarrow> addr \<Rightarrow> kv \<Rightarrow> kv option" where
  "valDestructor_cb privdata key s = do {
     let a = ld (dw_valAllocator privdata) s;
     s \<leftarrow> free_allocator a key s;
     let s = wrap_log_write a sizeof_Allocator s;
     Some (wrap_log_write key (ld (al_alloc_size a) s) s) }"

definition entryDestructor_cb :: "addr \<Rightarrow> addr \<Rightarrow> kv \<Rightarrow> kv option" where
  "entryDestructor_cb privdata e s = do {
     let a = ld (dw_entryAllocator privdata) s;
     s \<leftarrow> free_allocator a e s;
     let s = wrap_log_write a sizeof_Allocator s;
     Some (wrap_log_write e (ld (al_alloc_size a) s) s) }"

definition hashCallback :: "addr \<Rightarrow> kv \<Rightarrow> u64 option" where
  "hashCallback key s = do {
     l \<leftarrow> strlen (kv_mem s) key;
     Some (dictGenHashFunction key (ucast l) s) }"

definition entryConstructor :: "addr \<Rightarrow> kv \<Rightarrow> (addr \<times> kv) option" where
  "entryConstructor privdata s = do {
     let a = ld (dw_entryAllocator privdata) s;
     (entry, s) \<leftarrow> alloc_allocator a s;
     let s = wrap_log_write a sizeof_Allocator s;
     Some (entry, wrap_log_write entry sizeof_dictEntry s) }"

definition entryModed_cb :: "addr \<Rightarrow> addr \<Rightarrow> kv \<Rightarrow> kv option" where
  "entryModed_cb privdata entry s = Some (wrap_log_write entry 8 s)"

definition compareCallback :: "addr \<Rightarrow> addr \<Rightarrow> addr \<Rightarrow> kv \<Rightarrow> int option" where
  "compareCallback privdata key1 key2 s = do {
     n1 \<leftarrow> strlen (kv_mem s) key1;
     n2 \<leftarrow> strlen (kv_mem s) key2;
     let l1 = (ucast n1 :: u32);
     let l2 = (ucast n2 :: u32);
     if l1 \<noteq> l2 then Some 0
     else Some (if memcmp_eq (kv_mem s) key1 key2 (unat (scast l1 :: u64)) then 1 else 0) }"

definition AllocDictType :: dictType where
  "AllocDictType =
    \<lparr>hashFunction = hashCallback, keyDup = None, valDup = None, keyCompare = Some compareCallback,
     keyDestructor = Some keyDestructor_cb, valDestructor = Some valDestructor_cb,
     entryAlloc = Some entryConstructor, entryDestructor = Some entryDestructor_cb,
     entryModed = Some entryModed_cb\<rparr>"

definition allocKey :: "addr \<Rightarrow> addr \<Rightarrow> kv \<Rightarrow> (addr \<times> kv) option" where
  "allocKey w key s = do {
     (dictKey, s) \<leftarrow> alloc_allocator (ld (dw_keyAllocator w) s) s;
     let s = wrap_log_write (ld (dw_keyAllocator w) s) sizeof_Allocator s;
     s \<leftarrow> strcpy dictKey key s;
     l \<leftarrow> strlen (kv_mem s) dictKey;
     Some (dictKey, wrap_log_write dictKey l s) }"

definition allocVal :: "addr \<Rightarrow> addr \<Rightarrow> u64 \<Rightarrow> kv \<Rightarrow> (addr \<times> kv) option" where
  "allocVal w val len s = do {
     (dictVal, s) \<leftarrow> alloc_allocator (ld (dw_valAllocator w) s) s;
     let s = wrap_log_write (ld (dw_valAllocator w) s) sizeof_Allocator s;
     s \<leftarrow> memcpy dictVal val len s;
     Some (dictVal, wrap_log_write dictVal len s) }"

text \<open>\<open>ty\<close> is the address of \<open>AllocDictType\<close>.\<close>

definition initDictWrapper ::
  "addr \<Rightarrow> addr \<Rightarrow> u64 \<Rightarrow> addr \<Rightarrow> u64 \<Rightarrow> addr \<Rightarrow> u64 \<Rightarrow> u64 \<Rightarrow> addr \<Rightarrow> u64 \<Rightarrow> u64 \<Rightarrow> kv \<Rightarrow> (addr \<times> kv) option" where
  "initDictWrapper ty space len entrySpace entrySize keySpace keyLen keySize valSpace valLen valSize s = do {
     wrapper \<leftarrow> deref space;
     let s = wrap_log_write wrapper sizeof_dictWrapper s;
     (a, s) \<leftarrow> init_allocator entrySpace entrySize sizeof_dictEntry s;
     let s = st (dw_entryAllocator wrapper) a s;
     let s = wrap_log_write (ld (dw_entryAllocator wrapper) s) sizeof_Allocator s;
     (a, s) \<leftarrow> init_allocator keySpace keySize keyLen s;
     let s = st (dw_keyAllocator wrapper) a s;
     let s = wrap_log_write (ld (dw_keyAllocator wrapper) s) sizeof_Allocator s;
     (a, s) \<leftarrow> init_allocator valSpace valSize valLen s;
     let s = st (dw_valAllocator wrapper) a s;
     let s = wrap_log_write (ld (dw_valAllocator wrapper) s) sizeof_Allocator s;
     let dspace = space + sizeof_dictWrapper;
     (d, s) \<leftarrow> dictCreate ty wrapper dspace (len - sizeof_dictWrapper) s;
     let s = st (dw_d wrapper) d s;
     let s = wrap_log_write (ld (dw_d wrapper) s) sizeof_dict s;
     Some (wrapper, s) }"

definition subscribeDict :: "addr \<Rightarrow> addr" where
  "subscribeDict space = space"

section \<open>The operations of the store\<close>

definition update :: "addr \<Rightarrow> addr \<Rightarrow> addr \<Rightarrow> kv \<Rightarrow> (int \<times> kv) option" where
  "update w key value s = do {
     (dictKey, s) \<leftarrow> allocKey w key s;
     l \<leftarrow> strlen (kv_mem s) value;
     (dictVal, s) \<leftarrow> allocVal w value l s;
     (_, s) \<leftarrow> dictReplace AllocDictType (ld (dw_d w) s) dictKey dictVal s;
     Some (0, s) }"

text \<open>\<open>update_byval\<close>: the pair is passed by value, so key and value lie in the frame of the call at \<open>kv\<close>.\<close>

definition update_byval :: "u64 \<Rightarrow> addr \<Rightarrow> addr \<Rightarrow> kv \<Rightarrow> (int \<times> kv) option" where
  "update_byval key_size w kv s = update w kv (kv + key_size) s"

text \<open>A newline at the end of the key is cut off, in place.\<close>

definition get :: "addr \<Rightarrow> addr \<Rightarrow> kv \<Rightarrow> (addr \<times> kv) option" where
  "get w key s = do {
     l \<leftarrow> strlen (kv_mem s) key;
     let len = (ucast l :: u32);
     let p = key + scast (len - 1);
     let s = (if kv_mem s p = 10 then s\<lparr>kv_mem := (kv_mem s)(p := 0)\<rparr> else s);
     dictFind AllocDictType (ld (dw_d w) s) key s }"

end
