(* ===== verification/Kv_Dict_Spec.thy ===== *)
theory Kv_Dict_Spec
  imports Kv_Dict
begin

text \<open>
  The dictionary as a finite map. \<open>dict_contract\<close> is what \<open>dict.c\<close> expects of the callbacks of a
  \<open>dictType\<close>: keys have a content that the hash and the comparison respect, entries, keys and values come
  from pools. Under it \<open>dict_rep\<close> relates a table in memory to its chains, and lookup, insertion,
  replacement and deletion are shown to be those of the map \<open>dict_map\<close>.
\<close>

section \<open>Chains\<close>

fun lseg :: "kmem \<Rightarrow> addr \<Rightarrow> addr list \<Rightarrow> addr \<Rightarrow> bool" where
  "lseg m p [] q \<longleftrightarrow> p = q"
| "lseg m p (x # xs) q \<longleftrightarrow> p = x \<and> x \<noteq> NULL \<and> lseg m (ld64 m (de_next x)) xs q"

abbreviation chain :: "kmem \<Rightarrow> addr \<Rightarrow> addr list \<Rightarrow> bool" where
  "chain m p xs \<equiv> lseg m p xs NULL"

lemma lseg_append: "lseg m p (xs @ ys) q \<longleftrightarrow> (\<exists>r. lseg m p xs r \<and> lseg m r ys q)"
  by (induction xs arbitrary: p) auto

lemma lseg_cong:
  "(\<And>x y. x \<in> set xs \<Longrightarrow> y \<in> span (de_next x) 8 \<Longrightarrow> m' y = m y) \<Longrightarrow> lseg m p xs q \<Longrightarrow> lseg m' p xs q"
proof (induction xs arbitrary: p)
  case (Cons x xs)
  have "ld64 m' (de_next x) = ld64 m (de_next x)" using Cons.prems(1) [of x] by (intro ld64_cong) auto
  then show ?case using Cons by auto
qed simp

lemma chain_notnull: "lseg m p xs q \<Longrightarrow> x \<in> set xs \<Longrightarrow> x \<noteq> NULL"
  by (induction xs arbitrary: p) auto

section \<open>The contract of the callbacks\<close>

record 'k dict_cfg =
  c_content :: "kmem \<Rightarrow> addr \<Rightarrow> 'k \<Rightarrow> bool"
  c_foot :: "'k \<Rightarrow> nat"
  c_hash :: "u8 list \<Rightarrow> 'k \<Rightarrow> u64"
  c_EP :: "kmem \<Rightarrow> addr set \<Rightarrow> bool"
  c_KP :: "kmem \<Rightarrow> addr set \<Rightarrow> bool"
  c_VP :: "kmem \<Rightarrow> addr set \<Rightarrow> bool"
  c_ER :: "addr set"
  c_KR :: "addr set"
  c_VR :: "addr set"
  c_aux :: "addr set"
  c_ksz :: nat
  c_vsz :: nat
  c_ecap :: nat

locale dict_contract =
  ep: pool "c_EP C" "c_ER C" "c_aux C" 24 "the (entryDestructor ty) pd" "c_ecap C" "the (entryAlloc ty) pd" +
  kp: pool_free "c_KP C" "c_KR C" "c_aux C" "c_ksz C" "the (keyDestructor ty) pd" +
  vp: pool_free "c_VP C" "c_VR C" "c_aux C" "c_vsz C" "the (valDestructor ty) pd"
  for C :: "'k dict_cfg" and ty :: dictType and pd :: addr +
  assumes callbacks: "entryDestructor ty \<noteq> None" "entryAlloc ty \<noteq> None" "keyDestructor ty \<noteq> None"
      "valDestructor ty \<noteq> None" "keyDup ty = None" "valDup ty = None"
    and content_unique: "c_content C m p k \<Longrightarrow> c_content C m p k' \<Longrightarrow> k = k'"
    and content_local: "c_content C m p k \<Longrightarrow> (\<And>x. x \<in> span p (c_foot C k) \<Longrightarrow> m' x = m x) \<Longrightarrow> c_content C m' p k"
    and hash_content: "c_content C (kv_mem s) p k \<Longrightarrow> hashFunction ty p s = Some (c_hash C (kv_seed s) k)"
    and compare_content: "c_content C (kv_mem s) p k \<Longrightarrow> c_content C (kv_mem s) q l \<Longrightarrow>
      \<exists>f r. keyCompare ty = Some f \<and> f pd p q s = Some r \<and> (r \<noteq> 0 \<longleftrightarrow> k = l)"
    and moded: "\<exists>f t. entryModed ty = Some f \<and> f pd p s = Some t \<and> same_env s t \<and> kv_mem t = kv_mem s"

section \<open>Representation\<close>

fun apart :: "'a set list \<Rightarrow> bool" where
  "apart [] \<longleftrightarrow> True"
| "apart (A # As) \<longleftrightarrow> (\<forall>B\<in>set As. A \<inter> B = {}) \<and> apart As"

definition dict_geo :: "'k dict_cfg \<Rightarrow> addr \<Rightarrow> addr \<Rightarrow> nat \<Rightarrow> bool" where
  "dict_geo C d tbl N \<longleftrightarrow> d \<noteq> NULL \<and> tbl \<noteq> NULL \<and> (\<exists>j. N = 2 ^ j \<and> 2 \<le> j \<and> j \<le> 31) \<and>
     apart [span d 96, span tbl (8 * N), c_ER C, c_KR C, c_VR C, c_aux C]"

definition dict_header :: "kmem \<Rightarrow> addr \<Rightarrow> addr \<Rightarrow> addr \<Rightarrow> nat \<Rightarrow> nat \<Rightarrow> bool" where
  "dict_header m d pd tbl N c \<longleftrightarrow> ld64 m (dict_privdata d) = pd \<and> ld64 m (ht_table (dict_ht0 d)) = tbl \<and>
     ld64 m (ht_size (dict_ht0 d)) = of_nat N \<and> ld64 m (ht_sizemask (dict_ht0 d)) = of_nat (N - 1) \<and>
     ld64 m (ht_used (dict_ht0 d)) = of_nat c \<and> ld64 m (ht_used (dict_ht1 d)) = 0 \<and>
     ld64 m (dict_rehashidx d) = - 1"

definition c_idx :: "'k dict_cfg \<Rightarrow> nat \<Rightarrow> u8 list \<Rightarrow> 'k \<Rightarrow> nat" where
  "c_idx C N seed k = unat (ucast (c_hash C seed k) :: u32) mod N"

definition bucket_addr :: "addr \<Rightarrow> nat \<Rightarrow> addr" where
  "bucket_addr tbl i = tbl + of_nat (8 * i)"

text \<open>The entries of bucket \<open>i\<close>, with the contents \<open>K\<close> of their keys.\<close>

definition members_ok ::
  "'k dict_cfg \<Rightarrow> nat \<Rightarrow> u8 list \<Rightarrow> (addr \<Rightarrow> 'k) \<Rightarrow> addr set \<Rightarrow> addr set \<Rightarrow> kmem \<Rightarrow> nat \<Rightarrow> addr list \<Rightarrow> bool" where
  "members_ok C N seed K Le Lk m i xs \<longleftrightarrow> distinct xs \<and>
     (\<forall>e\<in>set xs. e \<in> Le \<and> ld64 m (de_key e) \<in> Lk \<and> c_content C m (ld64 m (de_key e)) (K e) \<and>
        c_foot C (K e) \<le> c_ksz C \<and> c_idx C N seed (K e) = i)"

definition bucket_ok ::
  "'k dict_cfg \<Rightarrow> addr \<Rightarrow> nat \<Rightarrow> u8 list \<Rightarrow> (addr \<Rightarrow> 'k) \<Rightarrow> addr set \<Rightarrow> addr set \<Rightarrow> kmem \<Rightarrow> nat \<Rightarrow> addr list \<Rightarrow> bool" where
  "bucket_ok C tbl N seed K Le Lk m i xs \<longleftrightarrow> chain m (ld64 m (bucket_addr tbl i)) xs \<and> members_ok C N seed K Le Lk m i xs"

definition dict_entries :: "nat \<Rightarrow> (nat \<Rightarrow> addr list) \<Rightarrow> addr set" where
  "dict_entries N B = (\<Union>i<N. set (B i))"

definition dict_count :: "nat \<Rightarrow> (nat \<Rightarrow> addr list) \<Rightarrow> nat" where
  "dict_count N B = (\<Sum>i<N. length (B i))"

definition dict_rep ::
  "'k dict_cfg \<Rightarrow> addr \<Rightarrow> addr \<Rightarrow> addr \<Rightarrow> nat \<Rightarrow> u8 list \<Rightarrow> (nat \<Rightarrow> addr list) \<Rightarrow> (addr \<Rightarrow> 'k) \<Rightarrow> addr set \<Rightarrow> addr set \<Rightarrow>
   kmem \<Rightarrow> bool" where
  "dict_rep C pd d tbl N seed B K Le Lk m \<longleftrightarrow>
     dict_geo C d tbl N \<and> dict_header m d pd tbl N (dict_count N B) \<and> dict_count N B \<le> 6 * N \<and>
     (\<forall>i<N. bucket_ok C tbl N seed K Le Lk m i (B i)) \<and> inj_on K (dict_entries N B) \<and> c_EP C m Le \<and> c_KP C m Lk"

text \<open>The map the table stands for: the content of a key to the value word of its entry.\<close>

definition dict_map :: "nat \<Rightarrow> (nat \<Rightarrow> addr list) \<Rightarrow> (addr \<Rightarrow> 'k) \<Rightarrow> kmem \<Rightarrow> 'k \<rightharpoonup> u64" where
  "dict_map N B K m = (\<lambda>k. if k \<in> K ` dict_entries N B
     then Some (ld64 m (de_val (inv_into (dict_entries N B) K k))) else None)"

text \<open>Every entry has a value of its own, a live block of the value pool.\<close>

definition vals_ok :: "'k dict_cfg \<Rightarrow> addr set \<Rightarrow> addr set \<Rightarrow> kmem \<Rightarrow> bool" where
  "vals_ok C E Lv m \<longleftrightarrow> c_VP C m Lv \<and> (\<forall>e\<in>E. ld64 m (de_val e) \<in> Lv) \<and> inj_on (\<lambda>e. ld64 m (de_val e)) E"

text \<open>The blocks \<open>L\<close> hold the same bytes.\<close>

definition same_blocks :: "addr set \<Rightarrow> nat \<Rightarrow> kmem \<Rightarrow> kmem \<Rightarrow> bool" where
  "same_blocks L n m m' \<longleftrightarrow> (\<forall>l\<in>L. \<forall>x\<in>span l n. m' x = m x)"

lemma dict_map_entry:
  "inj_on K (dict_entries N B) \<Longrightarrow> e \<in> dict_entries N B \<Longrightarrow> dict_map N B K m (K e) = Some (ld64 m (de_val e))"
  by (simp add: dict_map_def)

lemma dict_map_none: "k \<notin> K ` dict_entries N B \<Longrightarrow> dict_map N B K m k = None"
  by (simp add: dict_map_def)

section \<open>Basic facts\<close>

text \<open>The fields as offsets from the structure.\<close>

lemma dict_offsets:
  "ht_table (dict_ht0 d) = d + 16" "ht_size (dict_ht0 d) = d + 24" "ht_sizemask (dict_ht0 d) = d + 32"
  "ht_used (dict_ht0 d) = d + 40" "ht_table (dict_ht1 d) = d + 48" "ht_size (dict_ht1 d) = d + 56"
  "ht_sizemask (dict_ht1 d) = d + 64" "ht_used (dict_ht1 d) = d + 72" "dict_privdata d = d + 8" "dict_type d = d"
  "dict_rehashidx d = d + 80" "dict_iterators d = d + 88" "de_key e = e" "de_val e = e + 8" "de_next e = e + 16"
  by (simp_all add: dict_fields)

lemma geo_size: "dict_geo C d tbl N \<Longrightarrow> 4 \<le> N \<and> N \<le> 2 ^ 31"
proof -
  assume "dict_geo C d tbl N"
  then obtain j where j: "N = 2 ^ j" "2 \<le> j" "j \<le> 31" by (auto simp: dict_geo_def)
  have "(2::nat) ^ 2 \<le> 2 ^ j" "(2::nat) ^ j \<le> 2 ^ 31" using j by (intro power_increasing; simp)+
  then show ?thesis using j by simp
qed

lemma bucket_span: "i < N \<Longrightarrow> N \<le> 2 ^ 31 \<Longrightarrow> span (bucket_addr tbl i) 8 \<subseteq> span tbl (8 * N)"
  unfolding bucket_addr_def by (rule span_subset) (subst unat_of_nat_small; simp)

lemma bucket_span_disjoint:
  assumes "i < N" "j < N" "N \<le> 2 ^ 31" "i \<noteq> j"
  shows "span (bucket_addr tbl i) 8 \<inter> span (bucket_addr tbl j) 8 = {}"
proof -
  have "unat (of_nat (8 * i) :: u64) = 8 * i" "unat (of_nat (8 * j) :: u64) = 8 * j"
    using assms by (intro unat_of_nat_small; simp)+
  then show ?thesis unfolding bucket_addr_def using assms
    by (intro span_add_disjoint) (simp_all only:, auto)
qed

lemma header_cong:
  "(\<And>x. x \<in> span d 96 \<Longrightarrow> m' x = m x) \<Longrightarrow> dict_header m d pd tbl N c \<Longrightarrow> dict_header m' d pd tbl N c"
proof -
  assume eq: "\<And>x. x \<in> span d 96 \<Longrightarrow> m' x = m x" and h: "dict_header m d pd tbl N c"
  have "ld64 m' p = ld64 m p" if "span p 8 \<subseteq> span d 96" for p
    using that eq by (intro ld64_cong) auto
  note this [of "d + 8"] this [of "d + 16"] this [of "d + 24"] this [of "d + 32"] this [of "d + 40"] this [of "d + 72"]
    this [of "d + 80"]
  then show ?thesis using h by (simp add: dict_header_def dict_offsets span_subset)
qed

text \<open>Changing the count only.\<close>

lemma header_used: "dict_header m d pd tbl N c \<Longrightarrow> dict_header (st64 m (ht_used (dict_ht0 d)) (of_nat c')) d pd tbl N c'"
  by (simp add: dict_header_def dict_offsets)

lemma entry_field_span: "span (de_key e) 8 \<subseteq> span e 24" "span (de_val e) 8 \<subseteq> span e 24" "span (de_next e) 8 \<subseteq> span e 24"
  using span_mono [of 8 24 e] span_subset [of 8 8 24 e] span_subset [of 16 8 24 e] by (auto simp: dict_fields)

lemma entry_field_in:
  "y \<in> span (de_key e) 8 \<Longrightarrow> y \<in> span e 24" "y \<in> span (de_val e) 8 \<Longrightarrow> y \<in> span e 24" "y \<in> span (de_next e) 8 \<Longrightarrow> y \<in> span e 24"
  using entry_field_span by blast+

lemma and_mask_word32:
  assumes "N = 2 ^ j" "j \<le> 31"
  shows "unat (ucast (ucast (h :: u32) AND (of_nat (N - 1) :: u64)) :: u32) = unat h mod N"
proof -
  have "(of_nat (N - 1) :: u64) = mask j" using assms by (simp add: mask_eq_exp_minus_1)
  then have "ucast h AND (of_nat (N - 1) :: u64) = take_bit j (ucast h :: u64)"
    by (simp add: take_bit_eq_mask)
  also have "\<dots> = ucast (take_bit j h)" using assms by (intro bit_eqI) (auto simp: bit_simps)
  finally have "(ucast (ucast h AND (of_nat (N - 1) :: u64)) :: u32) = take_bit j h"
    by (intro bit_eqI) (auto simp: bit_simps)
  then have "unat (ucast (ucast h AND (of_nat (N - 1) :: u64)) :: u32) = take_bit j (unat h)"
    by (simp only: unsigned_take_bit_eq)
  then show ?thesis by (simp only: take_bit_eq_mod assms(1))
qed

lemma unat_ucast_32 [simp]: "unat (ucast (x :: u32) :: u64) = unat x"
  using unsigned_less [where ?'a = nat, of x] by (simp add: unsigned_ucast_eq take_bit_nat_eq_self)

text \<open>The state the dictionary is in.\<close>

lemma rep_not_rehashing: "dict_rep C pd d tbl N seed B K Le Lk (kv_mem s) \<Longrightarrow> \<not> dictIsRehashing d s"
  by (simp add: dict_rep_def dict_header_def dictIsRehashing_def ld_def)

lemma rep_idx:
  assumes "dict_rep C pd d tbl N seed B K Le Lk (kv_mem s)"
  shows "unat (ht_idx h (dict_ht0 d) s) = unat h mod N" "unat h mod N < N"
proof -
  from assms obtain j where j: "N = 2 ^ j" "j \<le> 31" by (auto simp: dict_rep_def dict_geo_def)
  have "ld (ht_sizemask (dict_ht0 d)) s = of_nat (N - 1)"
    using assms by (simp add: dict_rep_def dict_header_def ld_def)
  then show "unat (ht_idx h (dict_ht0 d) s) = unat h mod N"
    unfolding ht_idx_def using and_mask_word32 [OF j] by simp
  show "unat h mod N < N" using j by simp
qed

lemma header_slot:
  "dict_header (kv_mem s) d pd tbl N c \<Longrightarrow> tbl \<noteq> NULL \<Longrightarrow> slot (dict_ht0 d) i s = Some (bucket_addr tbl (unat i))"
  by (simp add: slot_def dict_header_def ld_def deref_def bucket_addr_def)

lemma rep_slot:
  assumes "dict_rep C pd d tbl N seed B K Le Lk (kv_mem s)" "unat i < N"
  shows "slot (dict_ht0 d) i s = Some (bucket_addr tbl (unat i))"
  using assms by (simp add: slot_def dict_rep_def dict_header_def dict_geo_def ld_def deref_def bucket_addr_def)

lemma rep_bucket: "dict_rep C pd d tbl N seed B K Le Lk m \<Longrightarrow> i < N \<Longrightarrow> bucket_ok C tbl N seed K Le Lk m i (B i)"
  by (simp add: dict_rep_def)

lemma rep_count_small: "dict_rep C pd d tbl N seed B K Le Lk m \<Longrightarrow> dict_count N B < 2 ^ 34"
  using geo_size [of C d tbl N] by (auto simp: dict_rep_def)

lemma dict_entries_iff: "e \<in> dict_entries N B \<longleftrightarrow> (\<exists>i<N. e \<in> set (B i))"
  by (auto simp: dict_entries_def)

text \<open>An entry with key \<open>k\<close> can only be in the bucket of \<open>k\<close>.\<close>

lemma rep_home:
  assumes "dict_rep C pd d tbl N seed B K Le Lk m" "e \<in> dict_entries N B"
  shows "e \<in> set (B (c_idx C N seed (K e)))" "c_idx C N seed (K e) < N" "e \<in> Le"
  using assms by (auto simp: dict_rep_def dict_entries_iff bucket_ok_def members_ok_def)

context dict_contract
begin

lemma compare_key:
  assumes "c_content C (kv_mem s) p k" "c_content C (kv_mem s) q l" "ld (dict_privdata d) s = pd"
  shows "\<exists>r. dictCompareKeys ty d p q s = Some r \<and> (r \<noteq> 0 \<longleftrightarrow> k = l)"
  using compare_content [OF assms(1,2)] assms(3) by (auto simp: dictCompareKeys_def)

text \<open>The search returns the first entry with the key's content.\<close>

lemma key_search_find:
  assumes "c_content C (kv_mem s) key k" "ld (dict_privdata d) s = pd" "chain (kv_mem s) p xs"
    and "\<And>e. e \<in> set xs \<Longrightarrow> c_content C (kv_mem s) (ld64 (kv_mem s) (de_key e)) (K e)"
  shows "key_search ty d key p s = Some (case find (\<lambda>e. K e = k) xs of None \<Rightarrow> NULL | Some e \<Rightarrow> e)"
  using assms(3,4)
proof (induction xs arbitrary: p)
  case Nil
  then show ?case by (subst key_search.simps) simp
next
  case (Cons x xs)
  have x: "c_content C (kv_mem s) (ld (de_key x) s) (K x)" using Cons.prems(2) [of x] by (simp add: ld_def)
  obtain r where r: "dictCompareKeys ty d key (ld (de_key x) s) s = Some r" "r \<noteq> 0 \<longleftrightarrow> k = K x"
    using compare_key [OF assms(1) x assms(2)] by blast
  have IH: "key_search ty d key (ld (de_next x) s) s = Some (case find (\<lambda>e. K e = k) xs of None \<Rightarrow> NULL | Some e \<Rightarrow> e)"
    using Cons.prems by (intro Cons.IH) (auto simp: ld_def)
  have same: "key = ld (de_key x) s \<Longrightarrow> K x = k" using content_unique [OF assms(1)] x by metis
  show ?case using Cons.prems(1) r IH same by (subst key_search.simps) auto
qed

lemma del_search_find:
  assumes "c_content C (kv_mem s) key k" "ld (dict_privdata d) s = pd" "chain (kv_mem s) p xs"
    and "\<And>e. e \<in> set xs \<Longrightarrow> c_content C (kv_mem s) (ld64 (kv_mem s) (de_key e)) (K e)"
  shows "del_search ty d key pv p s = Some (last (pv # takeWhile (\<lambda>e. K e \<noteq> k) xs),
     case find (\<lambda>e. K e = k) xs of None \<Rightarrow> NULL | Some e \<Rightarrow> e)"
  using assms(3,4)
proof (induction xs arbitrary: p pv)
  case Nil
  then show ?case by (subst del_search.simps) simp
next
  case (Cons x xs)
  have x: "c_content C (kv_mem s) (ld (de_key x) s) (K x)" using Cons.prems(2) [of x] by (simp add: ld_def)
  obtain r where r: "dictCompareKeys ty d key (ld (de_key x) s) s = Some r" "r \<noteq> 0 \<longleftrightarrow> k = K x"
    using compare_key [OF assms(1) x assms(2)] by blast
  have IH: "del_search ty d key x (ld (de_next x) s) s = Some (last (x # takeWhile (\<lambda>e. K e \<noteq> k) xs),
      case find (\<lambda>e. K e = k) xs of None \<Rightarrow> NULL | Some e \<Rightarrow> e)"
    using Cons.prems by (intro Cons.IH) (auto simp: ld_def)
  have same: "key = ld (de_key x) s \<Longrightarrow> K x = k" using content_unique [OF assms(1)] x by metis
  show ?case using Cons.prems(1) r IH same by (subst del_search.simps) auto
qed

text \<open>Looking for a key in the table.\<close>

lemma search_bucket:
  assumes rep: "dict_rep C pd d tbl N (kv_seed s) B K Le Lk (kv_mem s)" and key: "c_content C (kv_mem s) key k"
  shows "ht_search ty d (dict_ht0 d) key (ucast (c_hash C (kv_seed s) k)) s =
    Some (case find (\<lambda>e. K e = k) (B (c_idx C N (kv_seed s) k)) of None \<Rightarrow> NULL | Some e \<Rightarrow> e)"
proof -
  let ?i = "c_idx C N (kv_seed s) k"
  note idx = rep_idx [OF rep, of "ucast (c_hash C (kv_seed s) k)"]
  have i: "?i < N" using idx by (simp add: c_idx_def)
  have sl: "slot (dict_ht0 d) (ucast (ht_idx (ucast (c_hash C (kv_seed s) k)) (dict_ht0 d) s)) s
      = Some (bucket_addr tbl ?i)"
    using rep_slot [OF rep, of "ucast (ht_idx (ucast (c_hash C (kv_seed s) k)) (dict_ht0 d) s)"] idx
    by (simp only: c_idx_def unat_ucast_32)
  have "ld (dict_privdata d) s = pd" using rep by (simp add: dict_rep_def dict_header_def ld_def)
  from key_search_find [OF key this, of "ld (bucket_addr tbl ?i) s" "B ?i" K] rep_bucket [OF rep i]
  show ?thesis by (simp add: ht_search_def sl bucket_ok_def members_ok_def ld_def)
qed

lemma find_in_home:
  assumes rep: "dict_rep C pd d tbl N seed B K Le Lk m"
  shows "find (\<lambda>e. K e = k) (B (c_idx C N seed k)) = Some e \<longleftrightarrow> e \<in> dict_entries N B \<and> K e = k"
proof
  assume f: "find (\<lambda>e. K e = k) (B (c_idx C N seed k)) = Some e"
  have "0 < N" using geo_size [of C d tbl N] rep by (auto simp: dict_rep_def)
  then have "c_idx C N seed k < N" by (simp add: c_idx_def)
  then show "e \<in> dict_entries N B \<and> K e = k" using f by (auto simp: find_Some_iff dict_entries_iff)
next
  assume e: "e \<in> dict_entries N B \<and> K e = k"
  then have mem: "e \<in> set (B (c_idx C N seed k))" using rep_home [OF rep] by blast
  then obtain e' where f: "find (\<lambda>e. K e = k) (B (c_idx C N seed k)) = Some e'"
    using e by (cases "find (\<lambda>e. K e = k) (B (c_idx C N seed k))") (auto simp: find_None_iff)
  have "c_idx C N seed k < N" using rep_home [OF rep] e by blast
  then have "e' \<in> dict_entries N B" "K e' = k" using f by (auto simp: find_Some_iff dict_entries_iff)
  then have "e' = e" using e rep by (auto simp: dict_rep_def dest: inj_onD)
  then show "find (\<lambda>e. K e = k) (B (c_idx C N seed k)) = Some e" using f by simp
qed

lemma find_missing:
  assumes "dict_rep C pd d tbl N seed B K Le Lk m" "k \<notin> K ` dict_entries N B"
  shows "find (\<lambda>e. K e = k) (B (c_idx C N seed k)) = None"
proof (cases "find (\<lambda>e. K e = k) (B (c_idx C N seed k))")
  case (Some e)
  then have "e \<in> dict_entries N B \<and> K e = k" by (simp only: find_in_home [OF assms(1)])
  then show ?thesis using assms(2) by auto
qed

text \<open>\<open>dictFind\<close> returns the entry of the key, or \<open>NULL\<close>; it changes nothing.\<close>

lemma rep_used:
  assumes rep: "dict_rep C pd d tbl N seed B K Le Lk (kv_mem s)"
  shows "ld (ht_used (dict_ht0 d)) s = of_nat (dict_count N B)" "ld (ht_used (dict_ht1 d)) s = 0"
    "of_nat (dict_count N B) = (0 :: u64) \<longleftrightarrow> dict_entries N B = {}"
proof -
  show "ld (ht_used (dict_ht0 d)) s = of_nat (dict_count N B)" "ld (ht_used (dict_ht1 d)) s = 0"
    using rep by (simp_all add: dict_rep_def dict_header_def ld_def)
  have "unat (of_nat (dict_count N B) :: u64) = dict_count N B"
    using rep_count_small [OF rep] by (intro unat_of_nat_small) simp
  then have "of_nat (dict_count N B) = (0 :: u64) \<longleftrightarrow> dict_count N B = 0" by (metis unat_eq_zero of_nat_0)
  then show "of_nat (dict_count N B) = (0 :: u64) \<longleftrightarrow> dict_entries N B = {}"
    by (auto simp: dict_count_def dict_entries_def)
qed

lemma dictFind_rep:
  assumes rep: "dict_rep C pd d tbl N (kv_seed s) B K Le Lk (kv_mem s)" and key: "c_content C (kv_mem s) key k"
  shows "e \<in> dict_entries N B \<Longrightarrow> K e = k \<Longrightarrow> dictFind ty d key s = Some (e, s)"
    and "k \<notin> K ` dict_entries N B \<Longrightarrow> dictFind ty d key s = Some (NULL, s)"
proof -
  note s = search_bucket [OF rep key] rep_not_rehashing [OF rep] hash_content [OF key] rep_used [OF rep]
  show "dictFind ty d key s = Some (e, s)" if e: "e \<in> dict_entries N B" "K e = k"
  proof -
    have "find (\<lambda>e. K e = k) (B (c_idx C N (kv_seed s) k)) = Some e" using find_in_home [OF rep] e by blast
    moreover have "e \<noteq> NULL"
      using ep.pool_block [of "kv_mem s" Le e] rep_home(3) [OF rep e(1)] rep by (simp add: dict_rep_def)
    ultimately show ?thesis using s e(1) by (auto simp: dictFind_def rehash_if_needed_def dictHashKey_def)
  qed
  show "dictFind ty d key s = Some (NULL, s)" if "k \<notin> K ` dict_entries N B"
  proof -
    note find_missing [OF rep that]
    then show ?thesis using s by (simp add: dictFind_def rehash_if_needed_def dictHashKey_def)
  qed
qed

end

section \<open>Insertion\<close>

text \<open>The table is full for \<open>_dictExpandIfNeeded\<close>.\<close>

definition dict_full :: "nat \<Rightarrow> nat \<Rightarrow> kv \<Rightarrow> bool" where
  "dict_full N c s \<longleftrightarrow> N \<le> c \<and> (kv_can_resize s \<or> 5 < c div N)"

lemma not_full_count: "\<not> dict_full N c s \<Longrightarrow> 4 \<le> N \<Longrightarrow> c + 1 \<le> 6 * N"
proof -
  assume nf: "\<not> dict_full N c s" and N: "4 \<le> N"
  show ?thesis
  proof (cases "N \<le> c")
    case True
    then have "c div N < 6" using nf by (simp add: dict_full_def)
    then have "c < 6 * N" using N by (simp add: div_less_iff_less_mult)
    then show ?thesis by simp
  qed (use N in auto)
qed

lemma rep_expand:
  assumes rep: "dict_rep C pd d tbl N seed B K Le Lk (kv_mem s)"
  shows "p_dictExpandIfNeeded d s = (if dict_full N (dict_count N B) s then DICT_ERR else DICT_OK)"
proof -
  let ?c = "dict_count N B"
  have N: "4 \<le> N" "N \<le> 2 ^ 31" using rep geo_size by (auto simp: dict_rep_def)
  have u: "unat (of_nat N :: u64) = N" "unat (of_nat ?c :: u64) = ?c"
    using N rep_count_small [OF rep] by (intro unat_of_nat_small; simp)+
  have h: "ld (ht_size (dict_ht0 d)) s = of_nat N" "ld (ht_used (dict_ht0 d)) s = of_nat ?c"
    using rep by (simp_all add: dict_rep_def dict_header_def ld_def)
  have "(of_nat N :: u64) \<noteq> 0" using u N by (metis unat_0 not_numeral_le_zero)
  moreover have "(of_nat N :: u64) \<le> of_nat ?c \<longleftrightarrow> N \<le> ?c" by (simp only: word_le_nat_alt u)
  moreover have "(5 :: u64) < of_nat ?c div of_nat N \<longleftrightarrow> 5 < ?c div N"
    by (simp only: word_less_nat_alt unat_div u) simp
  ultimately show ?thesis using rep_not_rehashing [OF rep]
    by (simp add: p_dictExpandIfNeeded_def h dictExpand_def dict_full_def)
qed

lemma members_cong:
  assumes loc: "\<And>p k. c_content C m p k \<Longrightarrow> (\<And>x. x \<in> span p (c_foot C k) \<Longrightarrow> m' x = m x) \<Longrightarrow> c_content C m' p k"
    and ok: "members_ok C N seed K Le Lk m i xs"
    and ent: "\<And>e y. e \<in> set xs \<Longrightarrow> y \<in> span (de_key e) 8 \<Longrightarrow> m' y = m y"
    and key: "\<And>e y. e \<in> set xs \<Longrightarrow> y \<in> span (ld64 m (de_key e)) (c_ksz C) \<Longrightarrow> m' y = m y"
    and K': "\<And>e. e \<in> set xs \<Longrightarrow> K' e = K e \<and> e \<in> Le' \<and> ld64 m (de_key e) \<in> Lk'"
  shows "members_ok C N seed K' Le' Lk' m' i xs"
proof -
  have ke: "ld64 m' (de_key e) = ld64 m (de_key e)" if "e \<in> set xs" for e
    using ent [OF that] by (rule ld64_cong)
  moreover have "c_content C m' (ld64 m (de_key e)) (K e)" if e: "e \<in> set xs" for e
  proof (rule loc)
    show "c_content C m (ld64 m (de_key e)) (K e)" using ok e by (simp add: members_ok_def)
    have "c_foot C (K e) \<le> c_ksz C" using ok e by (simp add: members_ok_def)
    then show "m' x = m x" if "x \<in> span (ld64 m (de_key e)) (c_foot C (K e))" for x
      using that key [OF e] span_mono by blast
  qed
  ultimately show ?thesis using ok K' by (simp add: members_ok_def)
qed

lemma bucket_cong:
  assumes loc: "\<And>p k. c_content C m p k \<Longrightarrow> (\<And>x. x \<in> span p (c_foot C k) \<Longrightarrow> m' x = m x) \<Longrightarrow> c_content C m' p k"
    and ok: "bucket_ok C tbl N seed K Le Lk m i xs"
    and slot: "\<And>y. y \<in> span (bucket_addr tbl i) 8 \<Longrightarrow> m' y = m y"
    and ent: "\<And>e y. e \<in> set xs \<Longrightarrow> y \<in> span e 24 \<Longrightarrow> m' y = m y"
    and key: "\<And>e y. e \<in> set xs \<Longrightarrow> y \<in> span (ld64 m (de_key e)) (c_ksz C) \<Longrightarrow> m' y = m y"
    and K': "\<And>e. e \<in> set xs \<Longrightarrow> K' e = K e \<and> e \<in> Le' \<and> ld64 m (de_key e) \<in> Lk'"
  shows "bucket_ok C tbl N seed K' Le' Lk' m' i xs"
proof -
  have "ld64 m' (bucket_addr tbl i) = ld64 m (bucket_addr tbl i)" using slot by (rule ld64_cong)
  moreover have "chain m' (ld64 m (bucket_addr tbl i)) xs"
    using ok by (intro lseg_cong [of xs m' m]) (auto simp: bucket_ok_def intro: ent entry_field_in)
  moreover have "members_ok C N seed K Le Lk m i xs" using ok by (simp add: bucket_ok_def)
  from members_cong [OF loc this, of K' Le' Lk'] have "members_ok C N seed K' Le' Lk' m' i xs"
    using K' by (blast intro: ent key entry_field_in)
  ultimately show ?thesis by (simp add: bucket_ok_def)
qed

lemma dict_entries_insert: "i < N \<Longrightarrow> dict_entries N (B(i := e # B i)) = insert e (dict_entries N B)"
  by (auto simp: dict_entries_iff split: if_splits)

lemma dict_count_insert: "i < N \<Longrightarrow> dict_count N (B(i := e # B i)) = dict_count N B + 1"
proof -
  assume i: "i < N"
  have "dict_count N (B(i := e # B i)) = (\<Sum>j<N. length (B j) + (if j = i then 1 else 0))"
    unfolding dict_count_def by (rule sum.cong) auto
  also have "\<dots> = dict_count N B + 1" using i by (simp add: sum.distrib dict_count_def)
  finally show ?thesis .
qed

lemma dict_map_insert:
  assumes inj: "inj_on K (dict_entries N B)" and k: "k \<notin> K ` dict_entries N B" and i: "i < N"
    and e: "e \<notin> dict_entries N B" and eq: "\<And>x. x \<in> dict_entries N B \<Longrightarrow> ld64 m' (de_val x) = ld64 m (de_val x)"
  shows "inj_on (K(e := k)) (dict_entries N (B(i := e # B i)))"
    "dict_map N (B(i := e # B i)) (K(e := k)) m' = (dict_map N B K m)(k \<mapsto> ld64 m' (de_val e))"
proof -
  let ?B = "B(i := e # B i)" and ?K = "K(e := k)"
  have E: "dict_entries N ?B = insert e (dict_entries N B)" using i by (rule dict_entries_insert)
  show inj': "inj_on ?K (dict_entries N ?B)"
    unfolding E using inj k e by (auto simp: inj_on_def)
  show "dict_map N ?B ?K m' = (dict_map N B K m)(k \<mapsto> ld64 m' (de_val e))"
  proof (rule ext)
    fix l
    consider "l = k" | x where "x \<in> dict_entries N B" "K x = l" "l \<noteq> k" | "l \<notin> K ` dict_entries N B" "l \<noteq> k" by auto
    then show "dict_map N ?B ?K m' l = ((dict_map N B K m)(k \<mapsto> ld64 m' (de_val e))) l"
    proof cases
      case 1
      then show ?thesis using dict_map_entry [OF inj', of e m'] E by simp
    next
      case 2
      have "dict_map N ?B ?K m' (?K x) = Some (ld64 m' (de_val x))"
        using 2 E by (intro dict_map_entry [OF inj']) simp
      moreover have "?K x = l" using 2 e by auto
      ultimately show ?thesis using 2 dict_map_entry [OF inj, of x m] eq by simp
    next
      case 3
      then have "l \<notin> ?K ` dict_entries N ?B" unfolding E using e by auto
      then show ?thesis using 3 by (simp add: dict_map_none)
    qed
  qed
qed

context dict_contract
begin

lemma rep_insert:
  assumes rep: "dict_rep C pd d tbl N seed B K Le Lk m" and k: "k \<notin> K ` dict_entries N B"
    and room: "dict_count N B + 1 \<le> 6 * N" and i: "i = c_idx C N seed k" "i < N"
    and key: "key \<in> Lk" "c_content C m key k" "c_foot C k \<le> c_ksz C"
    and e: "e \<notin> Le" "c_EP C m' (insert e Le)"
    and frame: "\<And>x. x \<notin> (c_ER C - (\<Union>l\<in>Le. span l 24)) \<union> span (bucket_addr tbl i) 8 \<union> span (ht_used (dict_ht0 d)) 8 \<Longrightarrow>
       m' x = m x"
    and links: "ld64 m' (de_key e) = key" "ld64 m' (de_next e) = ld64 m (bucket_addr tbl i)"
      "ld64 m' (bucket_addr tbl i) = e" "dict_header m' d pd tbl N (dict_count N B + 1)"
  shows "dict_rep C pd d tbl N seed (B(i := e # B i)) (K(e := k)) (insert e Le) Lk m'"
    "dict_map N (B(i := e # B i)) (K(e := k)) m' = (dict_map N B K m)(k \<mapsto> ld64 m' (de_val e))"
    "\<And>x y. x \<in> Le \<Longrightarrow> y \<in> span x 24 \<Longrightarrow> m' y = m y"
proof -
  have geo: "dict_geo C d tbl N" and EP: "c_EP C m Le" and KP: "c_KP C m Lk" using rep by (auto simp: dict_rep_def)
  have sp: "span d 96 \<inter> span tbl (8 * N) = {}" "span d 96 \<inter> c_ER C = {}" "span tbl (8 * N) \<inter> c_ER C = {}"
    "span d 96 \<inter> c_KR C = {}" "span tbl (8 * N) \<inter> c_KR C = {}" "c_ER C \<inter> c_KR C = {}"
    "span d 96 \<inter> c_aux C = {}" "span tbl (8 * N) \<inter> c_aux C = {}" "c_ER C \<inter> c_aux C = {}"
    using geo by (simp_all add: dict_geo_def)
  have us: "span (ht_used (dict_ht0 d)) 8 \<subseteq> span d 96" by (simp add: dict_offsets span_subset)
  have N: "N \<le> 2 ^ 31" using geo_size [OF geo] by simp
  note bs = bucket_span [OF i(2) N, of tbl]
  show ent: "m' y = m y" if "x \<in> Le" "y \<in> span x 24" for x y
    using that ep.pool_block [OF EP that(1)] us bs sp by (intro frame) auto
  have keys: "m' y = m y" if "p \<in> Lk" "y \<in> span p (c_ksz C)" for p y
    using that kp.pool_block [OF KP that(1)] us bs sp by (intro frame) auto
  have eE: "e \<notin> dict_entries N B" using e(1) rep_home(3) [OF rep] by blast
  have old: "bucket_ok C tbl N seed (K(e := k)) (insert e Le) Lk m' j (B j)" if j: "j < N" "j \<noteq> i" for j
  proof (rule bucket_cong [OF content_local rep_bucket [OF rep j(1)]])
    show "m' y = m y" if "y \<in> span (bucket_addr tbl j) 8" for y
      using that bucket_span [OF j(1) N, of tbl] bucket_span_disjoint [OF j(1) i(2) N j(2), of tbl] us bs sp
      by (intro frame) auto
  qed (use rep_bucket [OF rep j(1)] eE j in \<open>auto simp: bucket_ok_def members_ok_def dict_entries_iff intro: ent keys\<close>)
  have bi: "chain m (ld64 m (bucket_addr tbl i)) (B i)" "members_ok C N seed K Le Lk m i (B i)"
    using rep_bucket [OF rep i(2)] by (simp_all add: bucket_ok_def)
  have mem: "members_ok C N seed (K(e := k)) (insert e Le) Lk m' i (B i)"
    by (rule members_cong [OF content_local bi(2)])
       (use bi(2) eE i(2) in \<open>auto simp: members_ok_def dict_entries_iff intro: ent keys entry_field_in\<close>)
  have "chain m' (ld64 m (bucket_addr tbl i)) (B i)"
    by (rule lseg_cong [OF _ bi(1)]) (use bi(2) in \<open>auto simp: members_ok_def intro: ent entry_field_in\<close>)
  moreover have "c_content C m' key k"
    by (rule content_local [OF key(2)]) (use keys [OF key(1)] span_mono [OF key(3)] in auto)
  ultimately have new: "bucket_ok C tbl N seed (K(e := k)) (insert e Le) Lk m' i (e # B i)"
    using mem eE i links key ep.pool_block [OF e(2), of e] by (auto simp: bucket_ok_def members_ok_def dict_entries_iff)
  have inj: "inj_on K (dict_entries N B)" using rep by (simp add: dict_rep_def)
  have vals: "ld64 m' (de_val x) = ld64 m (de_val x)" if "x \<in> dict_entries N B" for x
    using ent rep_home(3) [OF rep that] entry_field_span by (intro ld64_cong) blast
  note ins = dict_map_insert [OF inj k i(2) eE vals]
  show "dict_map N (B(i := e # B i)) (K(e := k)) m' = (dict_map N B K m)(k \<mapsto> ld64 m' (de_val e))" by (rule ins(2))
  have "c_KP C m' Lk"
    by (rule kp.pool_local [OF KP]) (use us bs sp in \<open>intro frame, auto\<close>)
  then show "dict_rep C pd d tbl N seed (B(i := e # B i)) (K(e := k)) (insert e Le) Lk m'"
    unfolding dict_rep_def dict_count_insert [OF i(2)]
    using geo links(4) room old new ins(1) e(2) by auto
qed

text \<open>The four writes that link a new entry.\<close>

lemma link_writes:
  assumes apart: "span e 24 \<inter> span p 8 = {}" "span e 24 \<inter> span d 96 = {}" "span p 8 \<inter> span d 96 = {}"
    and m': "m' = st64 (st64 (st64 (st64 m (de_next e) h) p e) (ht_used (dict_ht0 d)) c) (de_key e) key"
  shows "ld64 m' (de_key e) = key" "ld64 m' (de_next e) = h" "ld64 m' p = e"
    "x \<notin> span e 24 \<union> span p 8 \<union> span (ht_used (dict_ht0 d)) 8 \<Longrightarrow> m' x = m x"
    "x \<in> span d 96 \<Longrightarrow> m' x = st64 m (ht_used (dict_ht0 d)) c x"
proof -
  let ?u = "ht_used (dict_ht0 d)"
  have us: "span ?u 8 \<subseteq> span d 96" by (simp add: dict_offsets span_subset)
  have dj: "span (de_next e) 8 \<inter> span (de_key e) 8 = {}" "span (de_next e) 8 \<inter> span p 8 = {}"
    "span (de_next e) 8 \<inter> span ?u 8 = {}" "span p 8 \<inter> span ?u 8 = {}" "span p 8 \<inter> span (de_key e) 8 = {}"
    using apart us entry_field_span [of e] by (simp_all add: dict_offsets, blast+)
  then show "ld64 m' (de_key e) = key" "ld64 m' (de_next e) = h" "ld64 m' p = e" by (simp_all add: m')
  show "m' x = m x" if "x \<notin> span e 24 \<union> span p 8 \<union> span ?u 8"
    using that entry_field_span [of e] by (auto simp: m' intro!: st64_outside [THEN trans])
  show "m' x = st64 m ?u c x" if "x \<in> span d 96"
  proof -
    have "x \<notin> span (de_key e) 8" "x \<notin> span p 8" "x \<notin> span (de_next e) 8"
      using that apart entry_field_span [of e] by blast+
    then show ?thesis by (auto simp: m' st64_def mem_span)
  qed
qed

lemma key_index_new:
  assumes rep: "dict_rep C pd d tbl N (kv_seed s) B K Le Lk (kv_mem s)" and key: "c_content C (kv_mem s) key k"
    and k: "k \<notin> K ` dict_entries N B" and nf: "\<not> dict_full N (dict_count N B) s"
  shows "\<exists>ix. p_dictKeyIndex ty d key (ucast (c_hash C (kv_seed s) k)) s = Some (ix, NULL) \<and> ix \<noteq> - 1 \<and>
    unat (scast ix :: u64) = c_idx C N (kv_seed s) k \<and> c_idx C N (kv_seed s) k < N"
proof -
  let ?h = "ucast (c_hash C (kv_seed s) k) :: u32"
  let ?ix = "ht_idx ?h (dict_ht0 d) s"
  note idx = rep_idx [OF rep, of ?h]
  have N: "N \<le> 2 ^ 31" using rep geo_size by (auto simp: dict_rep_def)
  then have lt: "unat ?ix < 2 ^ 31" using idx by (metis less_le_trans)
  then have "unat (scast ?ix :: u64) = unat ?ix" by (rule unat_scast_32)
  moreover have "?ix \<noteq> - 1"
    using lt by (auto simp: unsigned_minus_1_eq_mask mask_eq_exp_minus_1)
  ultimately show ?thesis
    using search_bucket [OF rep key] find_missing [OF rep k] rep_expand [OF rep] nf rep_not_rehashing [OF rep] idx
    by (simp add: p_dictKeyIndex_def c_idx_def)
qed

lemma dictAddRaw_new:
  assumes rep: "dict_rep C pd d tbl N (kv_seed s) B K Le Lk (kv_mem s)" and k: "k \<notin> K ` dict_entries N B"
    and key: "key \<in> Lk" "c_content C (kv_mem s) key k" "c_foot C k \<le> c_ksz C"
    and nf: "\<not> dict_full N (dict_count N B) s" and cap: "card Le < c_ecap C"
    and i: "i = c_idx C N (kv_seed s) k"
  shows "\<exists>e t. dictAddRaw ty d key s = Some (e, NULL, t) \<and> e \<notin> Le \<and> same_env s t \<and>
    dict_rep C pd d tbl N (kv_seed s) (B(i := e # B i)) (K(e := k)) (insert e Le) Lk (kv_mem t) \<and>
    dict_map N (B(i := e # B i)) (K(e := k)) (kv_mem t) = (dict_map N B K (kv_mem s))(k \<mapsto> ld64 (kv_mem t) (de_val e)) \<and>
    (\<forall>x\<in>Le. \<forall>y\<in>span x 24. kv_mem t y = kv_mem s y) \<and>
    (\<forall>x. x \<notin> c_ER C \<union> span tbl (8 * N) \<union> span d 96 \<longrightarrow> kv_mem t x = kv_mem s x)"
proof -
  have geo: "dict_geo C d tbl N" and EP: "c_EP C (kv_mem s) Le" and hdr: "dict_header (kv_mem s) d pd tbl N (dict_count N B)"
    using rep by (auto simp: dict_rep_def)
  have sp: "span d 96 \<inter> span tbl (8 * N) = {}" "span d 96 \<inter> c_ER C = {}" "span tbl (8 * N) \<inter> c_ER C = {}"
    "c_ER C \<inter> c_aux C = {}" "span d 96 \<inter> c_aux C = {}" "span tbl (8 * N) \<inter> c_aux C = {}"
    using geo by (simp_all add: dict_geo_def)
  obtain ix where ix: "p_dictKeyIndex ty d key (ucast (c_hash C (kv_seed s) k)) s = Some (ix, NULL)" "ix \<noteq> - 1"
    "unat (scast ix :: u64) = i" "i < N"
    using key_index_new [OF rep key(2) k nf] i by blast
  have N: "4 \<le> N" "N \<le> 2 ^ 31" using geo_size [OF geo] by auto
  note bs = bucket_span [OF ix(4) N(2), of tbl]
  obtain e t where al: "the (entryAlloc ty) pd s = Some (e, t)" "e \<notin> Le" "same_env s t" "c_EP C (kv_mem t) (insert e Le)"
    and fr: "\<And>x. x \<notin> c_ER C - (\<Union>l\<in>Le. span l 24) \<Longrightarrow> kv_mem t x = kv_mem s x"
    using ep.alloc_ok [OF EP cap] by blast
  have e: "e \<noteq> NULL" "span e 24 \<subseteq> c_ER C" using ep.pool_block [OF al(4), of e] by auto
  have el: "span e 24 \<inter> span l 24 = {}" if "l \<in> Le" for l
    using ep.pool_disjoint [OF al(4), of e l] that al(2) by auto
  have hd: "dict_header (kv_mem t) d pd tbl N (dict_count N B)"
    by (rule header_cong [OF _ hdr], rule fr) (use sp in auto)
  let ?p = "bucket_addr tbl i"
  have p: "ld64 (kv_mem t) ?p = ld64 (kv_mem s) ?p"
    by (rule ld64_cong, rule fr) (use bs sp in auto)
  define m' where "m' = st64 (st64 (st64 (st64 (kv_mem t) (de_next e) (ld64 (kv_mem t) ?p)) ?p e)
    (ht_used (dict_ht0 d)) (of_nat (dict_count N B + 1))) (de_key e) key"
  define t' where "t' = st ?p e (st (de_next e) (ld ?p t) t)"
  have hd': "dict_header (kv_mem t') d pd tbl N (dict_count N B)"
    using sp bs e(2) entry_field_span [of e]
    by (intro header_cong [OF _ hd]) (auto simp: t'_def st_def intro!: st64_outside [THEN trans])
  obtain f u where u: "entryModed ty = Some f" "f pd ?p t' = Some u" "same_env t' u" "kv_mem u = kv_mem t'"
    using moded by blast
  let ?u = "st (de_key e) key (st (ht_used (dict_ht0 d)) (of_nat (dict_count N B + 1)) u)"
  have uc: "ld (ht_used (dict_ht0 d)) u = of_nat (dict_count N B)" "ld (dict_privdata d) t' = pd" "ld (dict_privdata d) s = pd"
    using hd' hdr by (simp_all add: dict_header_def ld_def u(4))
  have sl: "slot (dict_ht0 d) (scast ix) t = Some ?p"
    using header_slot [OF hd, of "scast ix"] geo ix(3) by (simp add: dict_geo_def)
  obtain g where g: "entryAlloc ty = Some g" "g pd s = Some (e, t)" using callbacks(2) al(1) by auto
  have run: "dictAddRaw ty d key s = Some (e, NULL, ?u)"
    using rep_not_rehashing [OF rep] hash_content [OF key(2)] ix(1,2) callbacks(5) g e(1) sl u(1,2) uc
    by (simp add: dictAddRaw_def rehash_if_needed_def dictHashKey_def deref_def p_dictModed_def dictSetKey_def
        Let_def t'_def [symmetric] add.commute)
  have mu: "kv_mem ?u = m'" by (simp add: st_def u(4) m'_def t'_def ld_def)
  have env: "same_env s ?u"
    using al(3) u(3) same_env_trans by (metis same_env_st t'_def)
  have dj: "span e 24 \<inter> span ?p 8 = {}" "span e 24 \<inter> span d 96 = {}" "span ?p 8 \<inter> span d 96 = {}"
    using bs sp e(2) by blast+
  note lw = link_writes [OF dj m'_def]
  have us: "span (ht_used (dict_ht0 d)) 8 \<subseteq> span d 96" by (simp add: dict_offsets span_subset)
  have EP': "c_EP C m' (insert e Le)"
    by (rule ep.pool_local [OF al(4)], rule lw(4)) (use sp bs us e(2) in auto)
  have hdr': "dict_header m' d pd tbl N (dict_count N B + 1)"
    by (rule header_cong [OF lw(5) header_used [OF hd]])
  have fr': "m' x = kv_mem s x"
    if "x \<notin> (c_ER C - (\<Union>l\<in>Le. span l 24)) \<union> span ?p 8 \<union> span (ht_used (dict_ht0 d)) 8" for x
  proof -
    have "span e 24 \<subseteq> c_ER C - (\<Union>l\<in>Le. span l 24)" using e(2) el by auto
    then show ?thesis using that lw(4) [of x] fr [of x] by auto
  qed
  note ri = rep_insert [OF rep k not_full_count [OF nf N(1)] i ix(4) key al(2) EP' fr' lw(1) lw(2) [unfolded p] lw(3) hdr']
  have "m' x = kv_mem s x" if "x \<notin> c_ER C \<union> span tbl (8 * N) \<union> span d 96" for x
    using that bs us by (intro fr') auto
  then show ?thesis using run env mu ri al(2) by (intro exI [of _ e] exI [of _ ?u]) simp
qed

text \<open>The other outcomes of \<open>dictAddRaw\<close>: a key that is there, a table that is full, no entry left.\<close>

lemma dictAddRaw_existing:
  assumes rep: "dict_rep C pd d tbl N (kv_seed s) B K Le Lk (kv_mem s)" and key: "c_content C (kv_mem s) key k"
    and nf: "\<not> dict_full N (dict_count N B) s" and e: "e \<in> dict_entries N B" "K e = k"
  shows "dictAddRaw ty d key s = Some (NULL, e, s)"
proof -
  have "find (\<lambda>e. K e = k) (B (c_idx C N (kv_seed s) k)) = Some e" using find_in_home [OF rep] e by blast
  moreover have "e \<noteq> NULL"
    using ep.pool_block [of "kv_mem s" Le e] rep_home(3) [OF rep e(1)] rep by (simp add: dict_rep_def)
  ultimately show ?thesis
    using search_bucket [OF rep key] rep_expand [OF rep] nf rep_not_rehashing [OF rep] hash_content [OF key]
    by (simp add: dictAddRaw_def rehash_if_needed_def dictHashKey_def p_dictKeyIndex_def)
qed

lemma dictAddRaw_full:
  assumes rep: "dict_rep C pd d tbl N (kv_seed s) B K Le Lk (kv_mem s)" and key: "c_content C (kv_mem s) key k"
    and full: "dict_full N (dict_count N B) s"
  shows "dictAddRaw ty d key s = Some (NULL, NULL, s)"
  using rep_expand [OF rep] full rep_not_rehashing [OF rep] hash_content [OF key]
  by (simp add: dictAddRaw_def rehash_if_needed_def dictHashKey_def p_dictKeyIndex_def)

lemma dictAddRaw_exhausted:
  assumes rep: "dict_rep C pd d tbl N (kv_seed s) B K Le Lk (kv_mem s)" and k: "k \<notin> K ` dict_entries N B"
    and key: "c_content C (kv_mem s) key k" and nf: "\<not> dict_full N (dict_count N B) s" and cap: "card Le = c_ecap C"
  shows "dictAddRaw ty d key s = None"
proof -
  have EP: "c_EP C (kv_mem s) Le" and pd: "ld (dict_privdata d) s = pd"
    using rep by (simp_all add: dict_rep_def dict_header_def ld_def)
  obtain ix where ix: "p_dictKeyIndex ty d key (ucast (c_hash C (kv_seed s) k)) s = Some (ix, NULL)" "ix \<noteq> - 1"
    using key_index_new [OF rep key k nf] by blast
  obtain g t where g: "entryAlloc ty = Some g" "g pd s = Some (NULL, t)"
    using callbacks(2) ep.alloc_full [OF EP cap] by auto
  show ?thesis
    using rep_not_rehashing [OF rep] hash_content [OF key] ix g pd
    by (simp add: dictAddRaw_def rehash_if_needed_def dictHashKey_def deref_def Let_def)
qed

text \<open>Writing the value of an entry leaves the representation as it is.\<close>

lemma rep_set_val:
  assumes rep: "dict_rep C pd d tbl N seed B K Le Lk m" and e: "e \<in> dict_entries N B" and m': "m' = st64 m (de_val e) v"
  shows "dict_rep C pd d tbl N seed B K Le Lk m'"
    "dict_map N B K m' = (dict_map N B K m)(K e \<mapsto> v)"
    "\<And>x. x \<in> dict_entries N B \<Longrightarrow> ld64 m' (de_val x) = (if x = e then v else ld64 m (de_val x))"
proof -
  have geo: "dict_geo C d tbl N" and EP: "c_EP C m Le" and KP: "c_KP C m Lk"
    and hdr: "dict_header m d pd tbl N (dict_count N B)" and inj: "inj_on K (dict_entries N B)"
    using rep by (auto simp: dict_rep_def)
  have sp: "span d 96 \<inter> c_ER C = {}" "span tbl (8 * N) \<inter> c_ER C = {}" "c_ER C \<inter> c_KR C = {}" "c_ER C \<inter> c_aux C = {}"
    using geo by (simp_all add: dict_geo_def)
  have eL: "e \<in> Le" using rep_home(3) [OF rep e] .
  have vs: "span (de_val e) 8 \<subseteq> span e 24" "span e 24 \<subseteq> c_ER C" "span (de_val e) 8 \<subseteq> c_ER C"
    using entry_field_span ep.pool_block [OF EP eL] by blast+
  have fr: "m' x = m x" if "x \<notin> span (de_val e) 8" for x using that by (simp add: m')
  have other: "span x 24 \<inter> span e 24 = {}" if "x \<in> Le" "x \<noteq> e" for x using ep.pool_disjoint [OF EP that(1) eL that(2)] .
  have fld: "m' y = m y" if "x \<in> Le" "y \<in> span (de_key x) 8 \<union> span (de_next x) 8" for x y
  proof (rule fr)
    show "y \<notin> span (de_val e) 8"
    proof (cases "x = e")
      case True
      have "span (de_key e) 8 \<inter> span (de_val e) 8 = {}" "span (de_next e) 8 \<inter> span (de_val e) 8 = {}"
        by (simp_all add: dict_offsets)
      then show ?thesis using True that by blast
    next
      case False
      then show ?thesis using other [OF that(1)] that(2) entry_field_span vs by blast
    qed
  qed
  have keys: "m' y = m y" if "p \<in> Lk" "y \<in> span p (c_ksz C)" for p y
    using that kp.pool_block [OF KP that(1)] sp vs by (intro fr) blast
  have "bucket_ok C tbl N seed K Le Lk m' i (B i)" if i: "i < N" for i
  proof -
    have bi: "chain m (ld64 m (bucket_addr tbl i)) (B i)" "members_ok C N seed K Le Lk m i (B i)"
      using rep_bucket [OF rep i] by (simp_all add: bucket_ok_def)
    have "N \<le> 2 ^ 31" using geo_size [OF geo] by simp
    from bucket_span [OF i this, of tbl] have "ld64 m' (bucket_addr tbl i) = ld64 m (bucket_addr tbl i)"
      using sp vs by (intro ld64_cong fr) auto
    moreover have "chain m' (ld64 m (bucket_addr tbl i)) (B i)"
      by (rule lseg_cong [OF _ bi(1)]) (use bi(2) in \<open>auto simp: members_ok_def intro: fld\<close>)
    moreover have "members_ok C N seed K Le Lk m' i (B i)"
      by (rule members_cong [OF content_local bi(2)]) (use bi(2) in \<open>auto simp: members_ok_def intro: fld keys\<close>)
    ultimately show ?thesis by (simp add: bucket_ok_def)
  qed
  moreover have "dict_header m' d pd tbl N (dict_count N B)"
    by (rule header_cong [OF _ hdr], rule fr) (use sp vs in auto)
  moreover have "c_EP C m' Le"
    by (rule ep.pool_local [OF EP], rule fr) (use sp vs eL in auto)
  moreover have "c_KP C m' Lk"
    by (rule kp.pool_local [OF KP], rule fr) (use sp vs in auto)
  ultimately show "dict_rep C pd d tbl N seed B K Le Lk m'" using rep by (simp add: dict_rep_def)
  show val: "ld64 m' (de_val x) = (if x = e then v else ld64 m (de_val x))" if x: "x \<in> dict_entries N B" for x
  proof (cases "x = e")
    case False
    then have "span (de_val x) 8 \<inter> span (de_val e) 8 = {}"
      using other [OF rep_home(3) [OF rep x]] entry_field_span vs by blast
    then show ?thesis using False by (simp add: m')
  qed (simp add: m')
  show "dict_map N B K m' = (dict_map N B K m)(K e \<mapsto> v)"
  proof (rule ext)
    fix k
    show "dict_map N B K m' k = ((dict_map N B K m)(K e \<mapsto> v)) k"
    proof (cases "k \<in> K ` dict_entries N B")
      case True
      then obtain x where x: "x \<in> dict_entries N B" "K x = k" by auto
      then have "K x = K e \<longleftrightarrow> x = e" using inj e by (auto dest: inj_onD)
      then show ?thesis using x dict_map_entry [OF inj x(1)] val [OF x(1)] by auto
    next
      case False
      then have "k \<noteq> K e" using e by auto
      then show ?thesis using False by (simp add: dict_map_none)
    qed
  qed
qed

text \<open>What lies outside the table, the entries and the keys does not matter.\<close>

lemma rep_frame_keys:
  assumes rep: "dict_rep C pd d tbl N seed B K Le Lk m"
    and fr: "\<And>x. x \<in> span d 96 \<union> span tbl (8 * N) \<union> c_ER C \<union> c_aux C \<Longrightarrow> m' x = m x"
    and keys: "\<And>p y. p \<in> Lk \<Longrightarrow> y \<in> span p (c_ksz C) \<Longrightarrow> m' y = m y" and KP': "c_KP C m' Lk'" "Lk \<subseteq> Lk'"
  shows "dict_rep C pd d tbl N seed B K Le Lk' m'" "dict_map N B K m' = dict_map N B K m"
    "e \<in> dict_entries N B \<Longrightarrow> ld64 m' (de_val e) = ld64 m (de_val e)"
proof -
  have geo: "dict_geo C d tbl N" and EP: "c_EP C m Le"
    and hdr: "dict_header m d pd tbl N (dict_count N B)" and inj: "inj_on K (dict_entries N B)"
    using rep by (auto simp: dict_rep_def)
  have ent: "m' y = m y" if "x \<in> Le" "y \<in> span x 24" for x y
    using that ep.pool_block [OF EP that(1)] by (intro fr) auto
  have "bucket_ok C tbl N seed K Le Lk' m' i (B i)" if i: "i < N" for i
  proof (rule bucket_cong [OF content_local rep_bucket [OF rep i]])
    have "N \<le> 2 ^ 31" using geo_size [OF geo] by simp
    then show "m' y = m y" if "y \<in> span (bucket_addr tbl i) 8" for y
      using that bucket_span [OF i, of tbl] by (intro fr) auto
  qed (use rep_bucket [OF rep i] KP'(2) in \<open>auto simp: bucket_ok_def members_ok_def intro: ent keys\<close>)
  moreover have "dict_header m' d pd tbl N (dict_count N B)" by (rule header_cong [OF _ hdr], rule fr) auto
  moreover have "c_EP C m' Le" by (rule ep.pool_local [OF EP], rule fr) auto
  ultimately show "dict_rep C pd d tbl N seed B K Le Lk' m'" using rep KP'(1) by (simp add: dict_rep_def)
  have val: "ld64 m' (de_val x) = ld64 m (de_val x)" if "x \<in> dict_entries N B" for x
    using ent [OF rep_home(3) [OF rep that]] entry_field_span by (intro ld64_cong) blast
  then show "e \<in> dict_entries N B \<Longrightarrow> ld64 m' (de_val e) = ld64 m (de_val e)" .
  have "inv_into (dict_entries N B) K k \<in> dict_entries N B" if "k \<in> K ` dict_entries N B" for k
    using that by (rule inv_into_into)
  then show "dict_map N B K m' = dict_map N B K m" using val by (auto simp: dict_map_def fun_eq_iff)
qed

lemma rep_frame:
  assumes rep: "dict_rep C pd d tbl N seed B K Le Lk m"
    and fr: "\<And>x. x \<in> span d 96 \<union> span tbl (8 * N) \<union> c_ER C \<union> c_KR C \<union> c_aux C \<Longrightarrow> m' x = m x"
  shows "dict_rep C pd d tbl N seed B K Le Lk m'" "dict_map N B K m' = dict_map N B K m"
    "e \<in> dict_entries N B \<Longrightarrow> ld64 m' (de_val e) = ld64 m (de_val e)"
proof -
  have KP: "c_KP C m Lk" using rep by (simp add: dict_rep_def)
  have keys: "m' y = m y" if "p \<in> Lk" "y \<in> span p (c_ksz C)" for p y
    using that kp.pool_block [OF KP that(1)] by (intro fr) auto
  have KP': "c_KP C m' Lk" by (rule kp.pool_local [OF KP], rule fr) auto
  show "dict_rep C pd d tbl N seed B K Le Lk m'" "dict_map N B K m' = dict_map N B K m"
    "e \<in> dict_entries N B \<Longrightarrow> ld64 m' (de_val e) = ld64 m (de_val e)"
    by (rule rep_frame_keys [OF rep _ _ KP' subset_refl]; blast intro: fr keys)+
qed

text \<open>Adding a key with a value of its own.\<close>

lemma add_and_set:
  assumes rep: "dict_rep C pd d tbl N (kv_seed s) B K Le Lk (kv_mem s)" and k: "k \<notin> K ` dict_entries N B"
    and key: "key \<in> Lk" "c_content C (kv_mem s) key k" "c_foot C k \<le> c_ksz C"
    and nf: "\<not> dict_full N (dict_count N B) s" and cap: "card Le < c_ecap C"
    and vals: "vals_ok C (dict_entries N B) Lv (kv_mem s)" "v \<in> Lv"
      "\<And>x. x \<in> dict_entries N B \<Longrightarrow> ld64 (kv_mem s) (de_val x) \<noteq> v"
    and i: "i = c_idx C N (kv_seed s) k"
  shows "\<exists>e t. dictAddRaw ty d key s = Some (e, NULL, t) \<and> e \<noteq> NULL \<and> e \<notin> Le \<and> same_env s t \<and>
    dict_rep C pd d tbl N (kv_seed s) (B(i := e # B i)) (K(e := k)) (insert e Le) Lk (kv_mem (st (de_val e) v t)) \<and>
    dict_map N (B(i := e # B i)) (K(e := k)) (kv_mem (st (de_val e) v t)) = (dict_map N B K (kv_mem s))(k \<mapsto> v) \<and>
    vals_ok C (dict_entries N (B(i := e # B i))) Lv (kv_mem (st (de_val e) v t)) \<and>
    same_blocks Lv (c_vsz C) (kv_mem s) (kv_mem (st (de_val e) v t))"
proof -
  obtain e t where run: "dictAddRaw ty d key s = Some (e, NULL, t)" "e \<notin> Le" "same_env s t"
    and rep': "dict_rep C pd d tbl N (kv_seed s) (B(i := e # B i)) (K(e := k)) (insert e Le) Lk (kv_mem t)"
    and dm: "dict_map N (B(i := e # B i)) (K(e := k)) (kv_mem t) = (dict_map N B K (kv_mem s))(k \<mapsto> ld64 (kv_mem t) (de_val e))"
    and ent: "\<forall>x\<in>Le. \<forall>y\<in>span x 24. kv_mem t y = kv_mem s y"
    and out: "\<forall>x. x \<notin> c_ER C \<union> span tbl (8 * N) \<union> span d 96 \<longrightarrow> kv_mem t x = kv_mem s x"
    using dictAddRaw_new [OF rep k key nf cap i] by blast
  let ?B = "B(i := e # B i)" and ?m = "kv_mem (st (de_val e) v t)"
  have geo: "dict_geo C d tbl N" using rep by (simp add: dict_rep_def)
  then have "i < N" using geo_size [OF geo] i by (simp add: c_idx_def)
  then have E: "dict_entries N ?B = insert e (dict_entries N B)" by (rule dict_entries_insert)
  then have "e \<in> dict_entries N ?B" by simp
  note sv = rep_set_val [OF rep' this, of ?m v]
  have m: "?m = st64 (kv_mem t) (de_val e) v" by (simp add: st_def)
  have EP': "c_EP C (kv_mem t) (insert e Le)" using rep' by (simp add: dict_rep_def)
  have e: "e \<noteq> NULL" "span e 24 \<subseteq> c_ER C" using ep.pool_block [OF EP', of e] by auto
  have ne: "x \<noteq> e" if "x \<in> dict_entries N B" for x using rep_home(3) [OF rep that] run(2) by auto
  have old: "ld64 (kv_mem t) (de_val x) = ld64 (kv_mem s) (de_val x)" if "x \<in> dict_entries N B" for x
    using ent rep_home(3) [OF rep that] entry_field_span run(2) by (intro ld64_cong) blast+
  have out': "?m x = kv_mem s x" if "x \<in> c_VR C \<union> c_aux C" for x
  proof -
    have "x \<notin> span d 96" "x \<notin> span tbl (8 * N)" "x \<notin> c_ER C" using that geo by (auto simp: dict_geo_def)
    moreover have "span (de_val e) 8 \<subseteq> c_ER C" using e(2) entry_field_span by blast
    ultimately have "x \<notin> span (de_val e) 8" "kv_mem t x = kv_mem s x" using out by auto
    then show "?m x = kv_mem s x" by (simp add: m)
  qed
  have VP: "c_VP C (kv_mem s) Lv" using vals(1) by (simp add: vals_ok_def)
  have blocks: "same_blocks Lv (c_vsz C) (kv_mem s) ?m"
    using vp.pool_block [OF VP] by (auto simp: same_blocks_def intro!: out')
  have "c_VP C ?m Lv" by (rule vp.pool_local [OF VP], rule out') auto
  moreover have "ld64 ?m (de_val x) = (if x = e then v else ld64 (kv_mem s) (de_val x))" if "x \<in> dict_entries N ?B" for x
    using sv(3) [OF m that] old ne E that by auto
  ultimately have "vals_ok C (dict_entries N ?B) Lv ?m"
    using vals by (auto simp: vals_ok_def E inj_on_def)
  moreover have "dict_map N ?B (K(e := k)) ?m = (dict_map N B K (kv_mem s))(k \<mapsto> v)"
    using sv(2) [OF m] dm by simp
  ultimately show ?thesis using run e(1) sv(1) [OF m] blocks by (intro exI [of _ e] exI [of _ t]) simp
qed

text \<open>The last step of \<open>dictAdd\<close> and \<open>dictReplace\<close>.\<close>

lemma set_val_run: "dictSetVal ty d e v t = Some (st (de_val e) v t)"
  by (simp add: dictSetVal_def callbacks)

lemma dictAdd_new:
  assumes "dict_rep C pd d tbl N (kv_seed s) B K Le Lk (kv_mem s)" "k \<notin> K ` dict_entries N B"
    and "key \<in> Lk" "c_content C (kv_mem s) key k" "c_foot C k \<le> c_ksz C"
    and "\<not> dict_full N (dict_count N B) s" "card Le < c_ecap C"
    and "vals_ok C (dict_entries N B) Lv (kv_mem s)" "v \<in> Lv"
      "\<And>x. x \<in> dict_entries N B \<Longrightarrow> ld64 (kv_mem s) (de_val x) \<noteq> v"
  shows "\<exists>e t B' K'. e \<notin> Le \<and> dictAdd ty d key v s = Some (DICT_OK, t) \<and> dictReplace ty d key v s = Some (1, t) \<and> same_env s t \<and>
    dict_rep C pd d tbl N (kv_seed s) B' K' (insert e Le) Lk (kv_mem t) \<and>
    dict_map N B' K' (kv_mem t) = (dict_map N B K (kv_mem s))(k \<mapsto> v) \<and> vals_ok C (dict_entries N B') Lv (kv_mem t) \<and>
    same_blocks Lv (c_vsz C) (kv_mem s) (kv_mem t)"
proof -
  obtain e t where "dictAddRaw ty d key s = Some (e, NULL, t)" "e \<noteq> NULL" "e \<notin> Le" and env: "same_env s t"
    and r: "dict_rep C pd d tbl N (kv_seed s) (B(c_idx C N (kv_seed s) k := e # B (c_idx C N (kv_seed s) k))) (K(e := k))
        (insert e Le) Lk (kv_mem (st (de_val e) v t))"
      "dict_map N (B(c_idx C N (kv_seed s) k := e # B (c_idx C N (kv_seed s) k))) (K(e := k)) (kv_mem (st (de_val e) v t))
        = (dict_map N B K (kv_mem s))(k \<mapsto> v)"
      "vals_ok C (dict_entries N (B(c_idx C N (kv_seed s) k := e # B (c_idx C N (kv_seed s) k)))) Lv
        (kv_mem (st (de_val e) v t))"
      "same_blocks Lv (c_vsz C) (kv_mem s) (kv_mem (st (de_val e) v t))"
    using add_and_set [OF assms refl] by blast
  moreover have "same_env s (st (de_val e) v t)" by (rule same_env_trans [OF env same_env_st])
  ultimately show ?thesis
    by (intro exI [of _ e] exI [of _ "st (de_val e) v t"] exI conjI, simp_all add: dictAdd_def dictReplace_def set_val_run)
qed

lemma dictReplace_existing:
  assumes rep: "dict_rep C pd d tbl N (kv_seed s) B K Le Lk (kv_mem s)" and e: "e \<in> dict_entries N B"
    and key: "c_content C (kv_mem s) key (K e)" and nf: "\<not> dict_full N (dict_count N B) s"
    and vals: "vals_ok C (dict_entries N B) Lv (kv_mem s)" "v \<in> Lv"
      "\<And>x. x \<in> dict_entries N B \<Longrightarrow> ld64 (kv_mem s) (de_val x) \<noteq> v"
  shows "\<exists>t. dictReplace ty d key v s = Some (0, t) \<and> same_env s t \<and>
    dict_rep C pd d tbl N (kv_seed s) B K Le Lk (kv_mem t) \<and>
    dict_map N B K (kv_mem t) = (dict_map N B K (kv_mem s))(K e \<mapsto> v) \<and>
    vals_ok C (dict_entries N B) (Lv - {ld64 (kv_mem s) (de_val e)}) (kv_mem t) \<and>
    same_blocks (Lv - {ld64 (kv_mem s) (de_val e)}) (c_vsz C) (kv_mem s) (kv_mem t)"
proof -
  let ?v = "ld64 (kv_mem s) (de_val e)" and ?s = "st (de_val e) v s"
  have m: "kv_mem ?s = st64 (kv_mem s) (de_val e) v" by (simp add: st_def)
  note sv = rep_set_val [OF rep e m]
  have geo: "dict_geo C d tbl N" and EP: "c_EP C (kv_mem s) Le" using rep by (auto simp: dict_rep_def)
  have sp: "c_ER C \<inter> c_VR C = {}" "c_ER C \<inter> c_aux C = {}" "span d 96 \<inter> c_VR C = {}" "span tbl (8 * N) \<inter> c_VR C = {}"
     "c_KR C \<inter> c_VR C = {}" "c_VR C \<inter> c_aux C = {}"
    using geo by (simp_all add: dict_geo_def)
  have en: "e \<noteq> NULL" "span (de_val e) 8 \<subseteq> c_ER C"
    using ep.pool_block [OF EP rep_home(3) [OF rep e]] entry_field_span by blast+
  have VP: "c_VP C (kv_mem ?s) Lv"
  proof (rule vp.pool_local [of "kv_mem s"])
    show "c_VP C (kv_mem s) Lv" using vals(1) by (simp add: vals_ok_def)
    fix x
    assume "x \<in> (c_VR C - (\<Union>l\<in>Lv. span l (c_vsz C))) \<union> c_aux C"
    then have "x \<notin> c_ER C" using sp(1,2) by auto
    then have "x \<notin> span (de_val e) 8" using en(2) by auto
    then show "kv_mem ?s x = kv_mem s x" by (simp add: m)
  qed
  have vL: "?v \<in> Lv" using vals(1) e by (simp add: vals_ok_def)
  obtain t where t: "the (valDestructor ty) pd ?v ?s = Some t" "same_env ?s t" "c_VP C (kv_mem t) (Lv - {?v})"
    and fr: "\<And>x. x \<notin> c_VR C - (\<Union>k\<in>Lv - {?v}. span k (c_vsz C)) \<Longrightarrow> kv_mem t x = kv_mem ?s x"
    using vp.free_ok [OF VP vL] by blast
  have pd: "ld (dict_privdata d) ?s = pd" using sv(1) by (simp add: dict_rep_def dict_header_def ld_def)
  have run: "dictReplace ty d key v s = Some (0, t)"
    using dictAddRaw_existing [OF rep key nf e refl] en(1) t(1) pd callbacks(4)
    by (auto simp: dictReplace_def deref_def set_val_run dictFreeVal_def ld_def Let_def)
  have fr': "kv_mem t x = kv_mem ?s x" if "x \<in> span d 96 \<union> span tbl (8 * N) \<union> c_ER C \<union> c_KR C \<union> c_aux C" for x
    using that sp by (intro fr) auto
  note rf = rep_frame [OF sv(1), of "kv_mem t", OF fr', simplified]
  have val: "ld64 (kv_mem t) (de_val x) = (if x = e then v else ld64 (kv_mem s) (de_val x))" if "x \<in> dict_entries N B" for x
    using sv(3) [OF that] rf(3) [OF that] by simp
  have "vals_ok C (dict_entries N B) (Lv - {?v}) (kv_mem t)"
    using vals e t(3) unfolding vals_ok_def inj_on_def by (auto simp: val)
  moreover have "same_env s t" using t(2) same_env_trans same_env_st by blast
  moreover have "same_blocks (Lv - {?v}) (c_vsz C) (kv_mem s) (kv_mem t)"
    unfolding same_blocks_def
  proof (intro ballI)
    fix l x
    assume l: "l \<in> Lv - {?v}" "x \<in> span l (c_vsz C)"
    then have "x \<in> c_VR C" using vp.pool_block [OF VP, of l] by auto
    then have "x \<notin> span (de_val e) 8" using sp(1) en(2) by auto
    then show "kv_mem t x = kv_mem s x" using fr [of x] l by (auto simp: m)
  qed
  ultimately show ?thesis using run rf(1,2) sv(2) by auto
qed

end

end
