(* ===== verification/Kv_Dict_Delete.thy ===== *)
theory Kv_Dict_Delete
  imports Kv_Dict_Spec
begin

text \<open>
  Deletion from the dictionary of \<open>apps/kvstore/dict.c\<close>: \<open>dictDelete\<close> unlinks the entry, gives its key, its
  value and itself back to their pools and removes the key from the map; \<open>dictUnlink\<close> only unlinks it.
\<close>

lemma dict_entries_remove:
  assumes "i < N" "B i = xs @ e # ys" "distinct (B i)" "\<And>j. j < N \<Longrightarrow> j \<noteq> i \<Longrightarrow> e \<notin> set (B j)"
  shows "dict_entries N (B(i := xs @ ys)) = dict_entries N B - {e}"
proof (rule set_eqI)
  fix x
  show "x \<in> dict_entries N (B(i := xs @ ys)) \<longleftrightarrow> x \<in> dict_entries N B - {e}"
  proof
    assume "x \<in> dict_entries N (B(i := xs @ ys))"
    then show "x \<in> dict_entries N B - {e}" using assms by (auto simp: dict_entries_iff split: if_splits)
  next
    assume "x \<in> dict_entries N B - {e}"
    then obtain j where "j < N" "x \<in> set (B j)" "x \<noteq> e" by (auto simp: dict_entries_iff)
    then show "x \<in> dict_entries N (B(i := xs @ ys))"
      using assms by (cases "j = i") (auto simp: dict_entries_iff)
  qed
qed

lemma dict_count_remove:
  assumes "i < N" "B i = xs @ e # ys"
  shows "dict_count N B = dict_count N (B(i := xs @ ys)) + 1"
proof -
  have "dict_count N B = (\<Sum>j<N. length ((B(i := xs @ ys)) j) + (if j = i then 1 else 0))"
    unfolding dict_count_def using assms by (intro sum.cong) auto
  also have "\<dots> = dict_count N (B(i := xs @ ys)) + 1" using assms(1) by (simp add: sum.distrib dict_count_def)
  finally show ?thesis .
qed

lemma dict_map_remove:
  assumes inj: "inj_on K E" and E: "E = dict_entries N B" "dict_entries N B' = E - {e}" "e \<in> E"
    and eq: "\<And>x. x \<in> E - {e} \<Longrightarrow> ld64 m' (de_val x) = ld64 m (de_val x)"
  shows "dict_map N B' K m' = (dict_map N B K m)(K e := None)"
proof (rule ext)
  fix k
  have inj': "inj_on K (dict_entries N B')" using inj E(2) by (auto intro: inj_on_subset)
  consider "k = K e" | x where "x \<in> E - {e}" "K x = k" "k \<noteq> K e" | "k \<notin> K ` E" "k \<noteq> K e" by auto
  then show "dict_map N B' K m' k = ((dict_map N B K m)(K e := None)) k"
  proof cases
    case 1
    then have "k \<notin> K ` dict_entries N B'" unfolding E(2) using inj E(3) by (auto simp: inj_on_def)
    then show ?thesis using 1 by (simp add: dict_map_none)
  next
    case 2
    then show ?thesis
      using dict_map_entry [OF inj', of x m'] dict_map_entry [of K N B x m] inj E eq by auto
  next
    case 3
    then have "k \<notin> K ` dict_entries N B'" unfolding E(2) by auto
    then show ?thesis using 3 E(1) by (simp add: dict_map_none)
  qed
qed

text \<open>The word that holds the reference to the entry after \<open>xs\<close>.\<close>

definition ref_of :: "addr \<Rightarrow> addr list \<Rightarrow> addr" where
  "ref_of p xs = (if xs = [] then p else de_next (last xs))"

lemma lseg_next_cong:
  "lseg m q zs r \<Longrightarrow> (\<And>z. z \<in> set zs \<Longrightarrow> ld64 m' (de_next z) = ld64 m (de_next z)) \<Longrightarrow> lseg m' q zs r"
  by (induction zs arbitrary: q) auto

lemma lseg_unlink:
  assumes ch: "chain m (ld64 m p) (xs @ e # ys)" and d: "distinct (xs @ e # ys)"
    and ref: "ld64 m' (ref_of p xs) = ld64 m (de_next e)"
    and slot: "xs \<noteq> [] \<Longrightarrow> ld64 m' p = ld64 m p"
    and eq: "\<And>x. x \<in> set (xs @ ys) \<Longrightarrow> xs = [] \<or> x \<noteq> last xs \<Longrightarrow> ld64 m' (de_next x) = ld64 m (de_next x)"
  shows "chain m' (ld64 m' p) (xs @ ys)"
proof -
  have nl: "xs = [] \<or> z \<noteq> last xs" if "z \<in> set ys" for z
    using d that by (cases xs rule: rev_cases) auto
  have ys: "chain m' (ld64 m (de_next e)) ys"
  proof (rule lseg_next_cong)
    show "chain m (ld64 m (de_next e)) ys" using ch by (auto simp: lseg_append)
    show "ld64 m' (de_next z) = ld64 m (de_next z)" if "z \<in> set ys" for z
      using that nl [OF that] by (intro eq) auto
  qed
  show ?thesis
  proof (cases xs rule: rev_cases)
    case Nil
    then show ?thesis using ys ref by (simp add: ref_of_def)
  next
    case (snoc as a)
    then have an: "a \<noteq> NULL" and "lseg m (ld64 m p) as a" using ch by (auto simp: lseg_append)
    moreover have "ld64 m' (de_next z) = ld64 m (de_next z)" if "z \<in> set as" for z
      using that snoc d by (intro eq) auto
    ultimately have "lseg m' (ld64 m p) as a" using lseg_next_cong [of m "ld64 m p" as a m'] by blast
    moreover have "ld64 m' (de_next a) = ld64 m (de_next e)" using ref snoc by (simp add: ref_of_def)
    ultimately show ?thesis using ys slot snoc an by (auto simp: lseg_append)
  qed
qed

text \<open>The memory the three pools own when \<open>Le\<close>, \<open>Lk\<close> and \<open>Lv\<close> are handed out.\<close>

definition pool_mem :: "'k dict_cfg \<Rightarrow> addr set \<Rightarrow> addr set \<Rightarrow> addr set \<Rightarrow> addr set" where
  "pool_mem C Le Lk Lv = (c_ER C - (\<Union>l\<in>Le. span l 24)) \<union> (c_KR C - (\<Union>l\<in>Lk. span l (c_ksz C))) \<union>
     (c_VR C - (\<Union>l\<in>Lv. span l (c_vsz C)))"

context dict_contract
begin

text \<open>The memory after an entry is unlinked and its parts are given back.\<close>

lemma rep_delete:
  assumes rep: "dict_rep C pd d tbl N seed B K Le Lk m" and i: "i < N" "B i = xs @ e # ys"
    and ref: "r = ref_of (bucket_addr tbl i) xs" "ld64 m' r = ld64 m (de_next e)"
    and hdr: "dict_header m' d pd tbl N (dict_count N B - 1)"
    and pools: "c_EP C m' Le'" "c_KP C m' Lk'" "Le - {e} \<subseteq> Le'" "Lk - {ld64 m (de_key e)} \<subseteq> Lk'"
    and ent: "\<And>l x. l \<in> Le - {e} \<Longrightarrow> x \<in> span l 24 \<Longrightarrow> x \<notin> span r 8 \<Longrightarrow> m' x = m x"
    and key: "\<And>l x. l \<in> Lk - {ld64 m (de_key e)} \<Longrightarrow> x \<in> span l (c_ksz C) \<Longrightarrow> m' x = m x"
    and slots: "\<And>x. x \<in> span tbl (8 * N) \<Longrightarrow> x \<notin> span r 8 \<Longrightarrow> m' x = m x"
  shows "dict_rep C pd d tbl N seed (B(i := xs @ ys)) K Le' Lk' m'"
    "dict_map N (B(i := xs @ ys)) K m' = (dict_map N B K m)(K e := None)"
    "x \<in> dict_entries N B - {e} \<Longrightarrow> ld64 m' (de_val x) = ld64 m (de_val x)"
    "dict_entries N (B(i := xs @ ys)) = dict_entries N B - {e}"
proof -
  have geo: "dict_geo C d tbl N" and EP: "c_EP C m Le" and inj: "inj_on K (dict_entries N B)"
    using rep by (auto simp: dict_rep_def)
  have N: "N \<le> 2 ^ 31" using geo_size [OF geo] by simp
  have te: "span tbl (8 * N) \<inter> c_ER C = {}" using geo by (simp add: dict_geo_def)
  have bi: "chain m (ld64 m (bucket_addr tbl i)) (xs @ e # ys)" "members_ok C N seed K Le Lk m i (xs @ e # ys)"
    using rep_bucket [OF rep i(1)] i(2) by (simp_all add: bucket_ok_def)
  have di: "distinct (B i)" using bi(2) i(2) by (simp add: members_ok_def)
  have home: "j = i" if "j < N" "x \<in> set (B j)" "x \<in> set (B i)" for j x
    using rep_bucket [OF rep that(1)] rep_bucket [OF rep i(1)] that by (auto simp: bucket_ok_def members_ok_def)
  have eE: "e \<in> dict_entries N B" using i by (auto simp: dict_entries_iff)
  show E: "dict_entries N (B(i := xs @ ys)) = dict_entries N B - {e}"
    by (rule dict_entries_remove [where B = B and i = i, OF i di]) (use home i in auto)
  have last: "last xs \<in> Le - {e}" "last xs \<in> set (B i)" if "xs \<noteq> []"
  proof -
    have lx: "last xs \<in> set xs" using that by simp
    then have "last xs \<in> Le" using bi(2) by (simp add: members_ok_def)
    moreover have "last xs \<noteq> e" using lx bi(2) unfolding members_ok_def by (metis distinct_append disjoint_insert(1) list.set(2))
    ultimately show "last xs \<in> Le - {e}" by simp
    show "last xs \<in> set (B i)" using lx i(2) by simp
  qed
  have r: "if xs = [] then span r 8 \<subseteq> span tbl (8 * N) else r = de_next (last xs) \<and> span r 8 \<subseteq> span (last xs) 24"
    using ref(1) bucket_span [OF i(1) N, of tbl] entry_field_span by (auto simp: ref_of_def)
  have blk: "span l 24 \<subseteq> c_ER C" if "l \<in> Le" for l using ep.pool_block [OF EP that] by simp
  have apart: "span l 24 \<inter> span r 8 = {}" if "l \<in> Le" "xs = [] \<or> l \<noteq> last xs" for l
    using that r te blk [OF that(1)] ep.pool_disjoint [OF EP that(1), of "last xs"] last
    by (cases "xs = []") (simp_all, blast+)
  have fld: "span (de_key l) 8 \<inter> span r 8 = {}" "span (de_val l) 8 \<inter> span r 8 = {}" if "l \<in> Le" for l
  proof -
    have "span (de_key l) 8 \<inter> span (de_next l) 8 = {}" "span (de_val l) 8 \<inter> span (de_next l) 8 = {}"
      by (simp_all add: dict_offsets)
    then show "span (de_key l) 8 \<inter> span r 8 = {}" "span (de_val l) 8 \<inter> span r 8 = {}"
      using apart [OF that] r entry_field_span [of l] by (cases "xs = [] \<or> l \<noteq> last xs"; auto)+
  qed
  have live: "x \<in> Le - {e}" if "x \<in> dict_entries N B - {e}" for x using that rep_home(3) [OF rep] by blast
  have kf: "m' y = m y" if "l \<in> Le - {e}" "y \<in> span (de_key l) 8 \<union> span (de_val l) 8" for l y
    using that fld [of l] by (intro ent [OF that(1)]) (auto intro: entry_field_in)
  have nf: "ld64 m' (de_next l) = ld64 m (de_next l)" if "l \<in> Le - {e}" "xs = [] \<or> l \<noteq> last xs" for l
    using that apart [of l] entry_field_span by (intro ld64_cong ent [OF that(1)]) blast+
  show vals: "ld64 m' (de_val x) = ld64 m (de_val x)" if "x \<in> dict_entries N B - {e}" for x
    using kf [OF live [OF that]] by (intro ld64_cong) auto
  have kp: "ld64 m (de_key x) \<in> Lk - {ld64 m (de_key e)}" if x: "x \<in> dict_entries N B - {e}" for x
  proof -
    have c: "c_content C m (ld64 m (de_key z)) (K z)" "ld64 m (de_key z) \<in> Lk" if "z \<in> dict_entries N B" for z
      using that rep_bucket [OF rep] by (auto simp: dict_entries_iff bucket_ok_def members_ok_def)
    have "ld64 m (de_key x) = ld64 m (de_key e) \<Longrightarrow> K x = K e"
      using content_unique [OF c(1) [OF eE]] c(1) [of x] x by (metis Diff_iff)
    then show ?thesis using c(2) x eE inj by (auto dest: inj_onD)
  qed
  have mem: "members_ok C N seed K Le' Lk' m' j zs"
    if "members_ok C N seed K Le Lk m j zs" "set zs \<subseteq> dict_entries N B - {e}" for j zs
  proof (rule members_cong [OF content_local that(1)])
    fix z y
    assume z: "z \<in> set zs"
    then have zE: "z \<in> dict_entries N B - {e}" using that(2) by auto
    show "m' y = m y" if "y \<in> span (de_key z) 8" using that by (intro kf [OF live [OF zE]]) auto
    show "m' y = m y" if "y \<in> span (ld64 m (de_key z)) (c_ksz C)" using key [OF kp [OF zE] that] .
    show "K z = K z \<and> z \<in> Le' \<and> ld64 m (de_key z) \<in> Lk'" using live [OF zE] kp [OF zE] pools(3,4) by auto
  qed
  show "dict_map N (B(i := xs @ ys)) K m' = (dict_map N B K m)(K e := None)"
    using vals by (intro dict_map_remove [OF inj refl E eE]) 
  have old: "bucket_ok C tbl N seed K Le' Lk' m' j (B j)" if j: "j < N" "j \<noteq> i" for j
  proof -
    have bj: "chain m (ld64 m (bucket_addr tbl j)) (B j)" "members_ok C N seed K Le Lk m j (B j)"
      using rep_bucket [OF rep j(1)] by (simp_all add: bucket_ok_def)
    have sub: "set (B j) \<subseteq> dict_entries N B - {e}" using j home [of j e] i by (auto simp: dict_entries_iff)
    have "span (bucket_addr tbl j) 8 \<inter> span r 8 = {}"
      using r te blk last bucket_span [OF j(1) N, of tbl] bucket_span_disjoint [OF j(1) i(1) N j(2), of tbl] ref(1)
      by (cases "xs = []") (simp_all add: ref_of_def, blast)
    then have "ld64 m' (bucket_addr tbl j) = ld64 m (bucket_addr tbl j)"
      using bucket_span [OF j(1) N, of tbl] by (intro ld64_cong slots) auto
    moreover have "ld64 m' (de_next l) = ld64 m (de_next l)" if l: "l \<in> set (B j)" for l
      using l sub live home [OF j(1) l] j(2) last by (intro nf) auto
    then have "chain m' (ld64 m (bucket_addr tbl j)) (B j)"
      using lseg_next_cong bj(1) by metis
    ultimately show ?thesis using mem [OF bj(2) sub] by (simp add: bucket_ok_def)
  qed
  have new: "bucket_ok C tbl N seed K Le' Lk' m' i (xs @ ys)"
  proof -
    have "set (B i) \<subseteq> dict_entries N B" using i(1) by (auto simp: dict_entries_iff)
    then have sub: "set (xs @ ys) \<subseteq> dict_entries N B - {e}" using di i by auto
    have "members_ok C N seed K Le Lk m i (xs @ ys)" using bi(2) by (auto simp: members_ok_def)
    note mem [OF this sub]
    moreover have "chain m' (ld64 m' (bucket_addr tbl i)) (xs @ ys)"
    proof (rule lseg_unlink [OF bi(1)])
      show "distinct (xs @ e # ys)" using di i by simp
      show "ld64 m' (ref_of (bucket_addr tbl i) xs) = ld64 m (de_next e)" using ref by simp
      show "ld64 m' (bucket_addr tbl i) = ld64 m (bucket_addr tbl i)" if "xs \<noteq> []"
      proof -
        have "span (bucket_addr tbl i) 8 \<inter> span r 8 = {}"
          using that r te blk last bucket_span [OF i(1) N, of tbl] by simp blast
        then show ?thesis using bucket_span [OF i(1) N, of tbl] by (intro ld64_cong slots) auto
      qed
      show "ld64 m' (de_next x) = ld64 m (de_next x)" if "x \<in> set (xs @ ys)" "xs = [] \<or> x \<noteq> last xs" for x
        using that sub live by (intro nf) auto
    qed
    ultimately show ?thesis by (simp add: bucket_ok_def)
  qed
  have "inj_on K (dict_entries N (B(i := xs @ ys)))" using inj E by (auto intro: inj_on_subset)
  then show "dict_rep C pd d tbl N seed (B(i := xs @ ys)) K Le' Lk' m'"
    using rep hdr pools old new dict_count_remove [of i N B, OF i] by (auto simp: dict_rep_def)
qed

text \<open>Giving back the parts of an entry.\<close>

lemma free_parts_ok:
  assumes geo: "dict_geo C d tbl N" and pd: "dict_header (kv_mem s) d pd tbl N c"
    and pools: "c_EP C (kv_mem s) Le" "c_KP C (kv_mem s) Lk" "c_VP C (kv_mem s) Lv"
    and e: "e \<in> Le" "k = ld64 (kv_mem s) (de_key e)" "k \<in> Lk" "v = ld64 (kv_mem s) (de_val e)" "v \<in> Lv"
  shows "\<exists>t. free_parts ty d e s = Some t \<and> same_env s t \<and> c_EP C (kv_mem t) (Le - {e}) \<and> c_KP C (kv_mem t) (Lk - {k}) \<and>
    c_VP C (kv_mem t) (Lv - {v}) \<and>
    (\<forall>x. x \<notin> pool_mem C (Le - {e}) (Lk - {k}) (Lv - {v}) \<longrightarrow> kv_mem t x = kv_mem s x)"
proof -
  have sp: "c_ER C \<inter> c_KR C = {}" "c_ER C \<inter> c_VR C = {}" "c_KR C \<inter> c_VR C = {}" "c_KR C \<inter> c_aux C = {}" "c_ER C \<inter> c_aux C = {}"
    "c_VR C \<inter> c_aux C = {}" "span d 96 \<inter> c_ER C = {}" "span d 96 \<inter> c_KR C = {}" "span d 96 \<inter> c_VR C = {}"
    using geo by (simp_all add: dict_geo_def)
  have es: "span e 24 \<subseteq> c_ER C" using ep.pool_block [OF pools(1) e(1)] by simp
  obtain s1 where s1: "the (keyDestructor ty) pd k s = Some s1" "same_env s s1" "c_KP C (kv_mem s1) (Lk - {k})"
    and f1: "\<And>x. x \<notin> c_KR C - (\<Union>l\<in>Lk - {k}. span l (c_ksz C)) \<Longrightarrow> kv_mem s1 x = kv_mem s x"
    using kp.free_ok [OF pools(2) e(3)] by blast
  have h1: "dict_header (kv_mem s1) d pd tbl N c" by (rule header_cong [OF _ pd], rule f1) (use sp in auto)
  have v1: "ld64 (kv_mem s1) (de_val e) = v"
    unfolding e(4) by (rule ld64_cong, rule f1) (use sp es in \<open>auto dest: entry_field_in\<close>)
  have VP: "c_VP C (kv_mem s1) Lv" by (rule vp.pool_local [OF pools(3)], rule f1) (use sp in auto)
  obtain s2 where s2: "the (valDestructor ty) pd v s1 = Some s2" "same_env s1 s2" "c_VP C (kv_mem s2) (Lv - {v})"
    and f2: "\<And>x. x \<notin> c_VR C - (\<Union>l\<in>Lv - {v}. span l (c_vsz C)) \<Longrightarrow> kv_mem s2 x = kv_mem s1 x"
    using vp.free_ok [OF VP e(5)] by blast
  have h2: "dict_header (kv_mem s2) d pd tbl N c" by (rule header_cong [OF _ h1], rule f2) (use sp in auto)
  have EP: "c_EP C (kv_mem s2) Le"
    by (rule ep.pool_local [OF pools(1)]) (use sp in \<open>auto intro!: trans [OF f2 f1]\<close>)
  obtain s3 where s3: "the (entryDestructor ty) pd e s2 = Some s3" "same_env s2 s3" "c_EP C (kv_mem s3) (Le - {e})"
    and f3: "\<And>x. x \<notin> c_ER C - (\<Union>l\<in>Le - {e}. span l 24) \<Longrightarrow> kv_mem s3 x = kv_mem s2 x"
    using ep.free_ok [OF EP e(1)] by blast
  have "free_parts ty d e s = Some s3"
    using callbacks s1(1) s2(1) s3(1) pd h1 h2 v1 e(2)
    by (auto simp: free_parts_def dictFreeKey_def dictFreeVal_def p_dictFreeEntry_def dict_header_def ld_def)
  moreover have "same_env s s3" using s1(2) s2(2) s3(2) same_env_trans by blast
  moreover have "c_KP C (kv_mem s3) (Lk - {k})"
    by (rule kp.pool_local [OF s1(3)]) (use sp in \<open>auto intro!: trans [OF f3 f2]\<close>)
  moreover have "c_VP C (kv_mem s3) (Lv - {v})"
    by (rule vp.pool_local [OF s2(3)], rule f3) (use sp in auto)
  moreover have "kv_mem s3 x = kv_mem s x"
    if "x \<notin> pool_mem C (Le - {e}) (Lk - {k}) (Lv - {v})" for x
    using that f1 [of x] f2 [of x] f3 [of x] by (auto simp: pool_mem_def)
  ultimately show ?thesis using s3(3) by blast
qed

text \<open>Where the entry of a key is found.\<close>

lemma del_search_rep:
  assumes rep: "dict_rep C pd d tbl N (kv_seed s) B K Le Lk (kv_mem s)" and e: "e \<in> dict_entries N B"
    and key: "c_content C (kv_mem s) key (K e)"
  obtains i xs ys where "i < N" "B i = xs @ e # ys"
    "slot (dict_ht0 d) (ucast (ht_idx (ucast (c_hash C (kv_seed s) (K e))) (dict_ht0 d) s)) s = Some (bucket_addr tbl i)"
    "del_search ty d key NULL (ld (bucket_addr tbl i) s) s = Some (last (NULL # xs), e)"
proof -
  let ?i = "c_idx C N (kv_seed s) (K e)"
  have i: "?i < N" "e \<in> set (B ?i)" using rep_home [OF rep e] by auto
  then obtain xs ys where xy: "B ?i = xs @ e # ys" by (meson split_list)
  have ok: "chain (kv_mem s) (ld64 (kv_mem s) (bucket_addr tbl ?i)) (B ?i)"
    "members_ok C N (kv_seed s) K Le Lk (kv_mem s) ?i (B ?i)"
    using rep_bucket [OF rep i(1)] by (simp_all add: bucket_ok_def)
  have "K x \<noteq> K e" if "x \<in> set xs" for x
  proof
    assume "K x = K e"
    moreover have "x \<in> dict_entries N B" using that xy i by (auto simp: dict_entries_iff)
    ultimately have "x = e" using rep e by (auto simp: dict_rep_def dest: inj_onD)
    then show False using that ok(2) xy by (auto simp: members_ok_def)
  qed
  then have tw: "takeWhile (\<lambda>x. K x \<noteq> K e) (B ?i) = xs" unfolding xy by (subst takeWhile_append2) auto
  have fd: "find (\<lambda>x. K x = K e) (B ?i) = Some e" using find_in_home [OF rep] e by blast
  have "ld (dict_privdata d) s = pd" using rep by (simp add: dict_rep_def dict_header_def ld_def)
  from del_search_find [OF key this ok(1), of K NULL] ok(2)
  have "del_search ty d key NULL (ld (bucket_addr tbl ?i) s) s = Some (last (NULL # xs), e)"
    by (simp add: tw fd members_ok_def ld_def)
  moreover have "slot (dict_ht0 d) (ucast (ht_idx (ucast (c_hash C (kv_seed s) (K e))) (dict_ht0 d) s)) s
      = Some (bucket_addr tbl ?i)"
    using rep_slot [OF rep, of "ucast (ht_idx (ucast (c_hash C (kv_seed s) (K e))) (dict_ht0 d) s)"]
      rep_idx [OF rep, of "ucast (c_hash C (kv_seed s) (K e))"] by (simp only: c_idx_def unat_ucast_32)
  ultimately show ?thesis using that [OF i(1) xy] by blast
qed

text \<open>The reference that is redirected is a slot of the table or the link of another live entry.\<close>

lemma ref_span:
  assumes rep: "dict_rep C pd d tbl N seed B K Le Lk m" and i: "i < N" "B i = xs @ e # ys"
  shows "span (ref_of (bucket_addr tbl i) xs) 8 \<subseteq> span tbl (8 * N) \<union> (\<Union>l\<in>Le - {e}. span l 24)"
    "last (NULL # xs) \<noteq> NULL \<longleftrightarrow> xs \<noteq> []"
proof -
  have geo: "dict_geo C d tbl N" using rep by (auto simp: dict_rep_def)
  have N: "N \<le> 2 ^ 31" using geo_size [OF geo] by simp
  have mem: "members_ok C N seed K Le Lk m i (xs @ e # ys)" "chain m (ld64 m (bucket_addr tbl i)) (xs @ e # ys)"
    using rep_bucket [OF rep i(1)] i(2) by (simp_all add: bucket_ok_def)
  have last: "last xs \<in> set xs" if "xs \<noteq> []" using that by simp
  have "last xs \<in> Le - {e}" if "xs \<noteq> []" using last [OF that] mem(1) unfolding members_ok_def
    by (metis Diff_iff UnI1 distinct_append disjoint_insert(1) empty_iff insert_iff list.set(2) set_append)
  then show "span (ref_of (bucket_addr tbl i) xs) 8 \<subseteq> span tbl (8 * N) \<union> (\<Union>l\<in>Le - {e}. span l 24)"
    using bucket_span [OF i(1) N, of tbl] entry_field_span(3) [of "last xs"]
    by (cases "xs = []") (simp_all add: ref_of_def, blast+)
  show "last (NULL # xs) \<noteq> NULL \<longleftrightarrow> xs \<noteq> []"
    using chain_notnull [OF mem(2), of "last xs"] last by auto
qed

text \<open>Unlinking leaves the pools, the header and the parts of the entry as they were.\<close>

lemma unlink_keeps:
  assumes rep: "dict_rep C pd d tbl N seed B K Le Lk m" and e: "e \<in> Le" and vp: "c_VP C m Lv"
    and r: "span r 8 \<subseteq> span tbl (8 * N) \<union> (\<Union>l\<in>Le - {e}. span l 24)" and m': "m' = st64 m r w"
  shows "c_EP C m' Le" "c_KP C m' Lk" "c_VP C m' Lv" "dict_header m' d pd tbl N (dict_count N B)"
    "ld64 m' (de_key e) = ld64 m (de_key e)" "ld64 m' (de_val e) = ld64 m (de_val e)"
    "span r 8 \<inter> (c_KR C \<union> c_VR C \<union> c_aux C \<union> span d 96) = {}"
proof -
  have geo: "dict_geo C d tbl N" and EP: "c_EP C m Le" and KP: "c_KP C m Lk" and hdr: "dict_header m d pd tbl N (dict_count N B)"
    using rep by (auto simp: dict_rep_def)
  have sp: "span tbl (8 * N) \<inter> c_ER C = {}" "span d 96 \<inter> c_ER C = {}" "span d 96 \<inter> span tbl (8 * N) = {}"
    "span tbl (8 * N) \<inter> c_KR C = {}" "span tbl (8 * N) \<inter> c_VR C = {}" "span tbl (8 * N) \<inter> c_aux C = {}"
    "c_ER C \<inter> c_KR C = {}" "c_ER C \<inter> c_VR C = {}" "c_ER C \<inter> c_aux C = {}"
    using geo by (simp_all add: dict_geo_def)
  have live: "(\<Union>l\<in>Le - {e}. span l 24) \<subseteq> c_ER C" using ep.pool_block [OF EP] by blast
  show out: "span r 8 \<inter> (c_KR C \<union> c_VR C \<union> c_aux C \<union> span d 96) = {}"
  proof -
    have "span r 8 \<subseteq> span tbl (8 * N) \<union> c_ER C" using r live by auto
    then show ?thesis using sp by auto
  qed
  have own: "span r 8 \<inter> (c_ER C - (\<Union>l\<in>Le. span l 24)) = {}" using r sp(1) by blast
  have fr: "m' x = m x" if "x \<notin> span r 8" for x using that by (simp add: m')
  show "c_EP C m' Le" by (rule ep.pool_local [OF EP], rule fr) (use own out in blast)
  show "c_KP C m' Lk" by (rule kp.pool_local [OF KP], rule fr) (use out in blast)
  show "c_VP C m' Lv" by (rule vp.pool_local [OF vp], rule fr) (use out in blast)
  show "dict_header m' d pd tbl N (dict_count N B)" by (rule header_cong [OF _ hdr], rule fr) (use out in blast)
  have "span e 24 \<inter> span r 8 = {}"
  proof -
    have "span e 24 \<inter> (\<Union>l\<in>Le - {e}. span l 24) = {}" using ep.pool_disjoint [OF EP e] by auto
    moreover have "span e 24 \<inter> span tbl (8 * N) = {}" using sp(1) ep.pool_block [OF EP e] by auto
    ultimately show ?thesis using r by blast
  qed
  then show "ld64 m' (de_key e) = ld64 m (de_key e)" "ld64 m' (de_val e) = ld64 m (de_val e)"
    using entry_field_span [of e] by (intro ld64_cong fr; blast)+
qed

lemma delete_found:
  assumes rep: "dict_rep C pd d tbl N (kv_seed s) B K Le Lk (kv_mem s)" and e: "e \<in> dict_entries N B"
    and key: "c_content C (kv_mem s) key (K e)" and vals: "vals_ok C (dict_entries N B) Lv (kv_mem s)"
  shows "\<exists>t B'. delete_in ty d (dict_ht0 d) key (ucast (c_hash C (kv_seed s) (K e))) False s = Some (e, t) \<and> same_env s t \<and>
    dict_rep C pd d tbl N (kv_seed s) B' K (Le - {e}) (Lk - {ld64 (kv_mem s) (de_key e)}) (kv_mem t) \<and>
    dict_map N B' K (kv_mem t) = (dict_map N B K (kv_mem s))(K e := None) \<and>
    vals_ok C (dict_entries N B') (Lv - {ld64 (kv_mem s) (de_val e)}) (kv_mem t) \<and>
    same_blocks (Lv - {ld64 (kv_mem s) (de_val e)}) (c_vsz C) (kv_mem s) (kv_mem t)"
proof -
  let ?m = "kv_mem s" and ?k = "ld64 (kv_mem s) (de_key e)" and ?v = "ld64 (kv_mem s) (de_val e)"
  let ?P = "pool_mem C (Le - {e}) (Lk - {?k}) (Lv - {?v})"
  obtain i xs ys where i: "i < N" "B i = xs @ e # ys"
    and sl: "slot (dict_ht0 d) (ucast (ht_idx (ucast (c_hash C (kv_seed s) (K e))) (dict_ht0 d) s)) s = Some (bucket_addr tbl i)"
    and ds: "del_search ty d key NULL (ld (bucket_addr tbl i) s) s = Some (last (NULL # xs), e)"
    by (rule del_search_rep [OF rep e key])
  have geo: "dict_geo C d tbl N" using rep by (auto simp: dict_rep_def)
  have VP: "c_VP C ?m Lv" using vals by (simp add: vals_ok_def)
  have eL: "e \<in> Le" using rep_home(3) [OF rep e] .
  have kv: "?k \<in> Lk" "?v \<in> Lv"
    using rep_bucket [OF rep i(1)] i(2) vals e by (simp_all add: bucket_ok_def members_ok_def vals_ok_def)
  define r where "r = ref_of (bucket_addr tbl i) xs"
  note rs = ref_span [where B = B and i = i, OF rep i, folded r_def]
  define u where "u = st r (ld (de_next e) s) s"
  have mu: "kv_mem u = st64 ?m r (ld64 ?m (de_next e))" by (simp add: u_def st_def ld_def)
  note uk = unlink_keeps [OF rep eL VP rs(1) mu]
  obtain f w where w: "entryModed ty = Some f" "f pd r u = Some w" "same_env u w" "kv_mem w = kv_mem u"
    using moded by blast
  obtain t where t: "free_parts ty d e w = Some t" "same_env w t" "c_EP C (kv_mem t) (Le - {e})"
      "c_KP C (kv_mem t) (Lk - {?k})" "c_VP C (kv_mem t) (Lv - {?v})"
    and ft: "\<And>x. x \<notin> ?P \<Longrightarrow> kv_mem t x = kv_mem w x"
    using free_parts_ok [of d tbl N w "dict_count N B" Le Lk Lv e ?k ?v] geo uk kv eL w(4) by auto
  have sp: "span d 96 \<inter> c_ER C = {}" "span d 96 \<inter> c_KR C = {}" "span d 96 \<inter> c_VR C = {}" "span d 96 \<inter> span tbl (8 * N) = {}"
    "span tbl (8 * N) \<inter> c_ER C = {}" "span tbl (8 * N) \<inter> c_KR C = {}" "span tbl (8 * N) \<inter> c_VR C = {}"
    "c_ER C \<inter> c_KR C = {}" "c_ER C \<inter> c_VR C = {}" "c_KR C \<inter> c_VR C = {}" "span d 96 \<inter> c_aux C = {}"
    using geo by (simp_all add: dict_geo_def)
  have EP: "c_EP C ?m Le" and KP: "c_KP C ?m Lk" using rep by (auto simp: dict_rep_def)
  let ?c = "dict_count N B" and ?u = "ht_used (dict_ht0 d)"
  have ht: "dict_header (kv_mem t) d pd tbl N ?c"
    by (rule header_cong [of d _ "kv_mem u"]) (use uk(4) sp w(4) in \<open>auto simp: pool_mem_def intro!: trans [OF ft]\<close>)
  define t' where "t' = st ?u (of_nat (?c - 1)) t"
  have m': "kv_mem t' = st64 (kv_mem t) ?u (of_nat (?c - 1))" by (simp add: t'_def st_def)
  have c1: "0 < ?c" using dict_count_remove [of i N B, OF i] by simp
  then have c2: "of_nat ?c - 1 = (of_nat (?c - 1) :: u64)" by simp
  have us: "span ?u 8 \<subseteq> span d 96" by (simp add: dict_offsets span_subset)
  have hd': "dict_header (kv_mem t') d pd tbl N (?c - 1)" unfolding m' by (rule header_used [OF ht])
  have fr: "kv_mem t' x = kv_mem u x" if "x \<notin> span d 96"
    "x \<notin> ?P" for x
  proof -
    have "x \<notin> span ?u 8" using that(1) us by auto
    then show ?thesis using ft [OF that(2)] w(4) by (simp add: m')
  qed
  have frm: "kv_mem t' x = ?m x" if "x \<notin> span r 8" "x \<notin> span d 96"
    "x \<notin> ?P" for x
    using fr [OF that(2,3)] that(1) by (simp add: mu)
  have only_t: "kv_mem t' x = kv_mem t x" if "x \<notin> span d 96" for x
  proof -
    have "x \<notin> span ?u 8" using that us by auto
    then show ?thesis by (simp add: m')
  qed
  have EP': "c_EP C (kv_mem t') (Le - {e})" by (rule ep.pool_local [OF t(3)], rule only_t) (use sp in auto)
  have KP': "c_KP C (kv_mem t') (Lk - {?k})" by (rule kp.pool_local [OF t(4)], rule only_t) (use sp in auto)
  have VP': "c_VP C (kv_mem t') (Lv - {?v})" by (rule vp.pool_local [OF t(5)], rule only_t) (use sp in auto)
  have lr: "ld64 (kv_mem t') r = ld64 ?m (de_next e)"
  proof -
    have "ld64 (kv_mem t') r = ld64 (kv_mem u) r"
    proof (rule ld64_cong, rule fr)
      fix x assume x: "x \<in> span r 8"
      then show "x \<notin> span d 96" using uk(7) by blast
      have "x \<in> span tbl (8 * N) \<or> (\<exists>l\<in>Le - {e}. x \<in> span l 24)" using x rs(1) by blast
      then show "x \<notin> ?P" using x uk(7) sp(5) by (auto simp: pool_mem_def)
    qed
    then show ?thesis by (simp add: mu)
  qed
  have ent: "kv_mem t' x = ?m x" if "l \<in> Le - {e}" "x \<in> span l 24" "x \<notin> span r 8" for l x
  proof (rule frm [OF that(3)])
    have "x \<in> c_ER C" using that ep.pool_block [OF EP, of l] by auto
    then have "x \<notin> span d 96" "x \<notin> c_KR C" "x \<notin> c_VR C" using sp by auto
    then show "x \<notin> span d 96" "x \<notin> ?P" using that by (auto simp: pool_mem_def)
  qed
  have keys: "kv_mem t' x = ?m x" if "l \<in> Lk - {?k}" "x \<in> span l (c_ksz C)" for l x
  proof (rule frm)
    have xk: "x \<in> c_KR C" using that kp.pool_block [OF KP, of l] by auto
    then show "x \<notin> span r 8" using uk(7) by auto
    from xk have "x \<notin> span d 96" "x \<notin> c_ER C" "x \<notin> c_VR C" using sp by auto
    then show "x \<notin> span d 96" "x \<notin> ?P" using that by (auto simp: pool_mem_def)
  qed
  have slots: "kv_mem t' x = ?m x" if "x \<in> span tbl (8 * N)" "x \<notin> span r 8" for x
    by (rule frm [OF that(2)]) (use that sp in \<open>auto simp: pool_mem_def\<close>)
  have rd: "dict_rep C pd d tbl N (kv_seed s) (B(i := xs @ ys)) K (Le - {e}) (Lk - {?k}) (kv_mem t')"
    "dict_map N (B(i := xs @ ys)) K (kv_mem t') = (dict_map N B K ?m)(K e := None)"
    "\<And>x. x \<in> dict_entries N B - {e} \<Longrightarrow> ld64 (kv_mem t') (de_val x) = ld64 ?m (de_val x)"
    "dict_entries N (B(i := xs @ ys)) = dict_entries N B - {e}"
    by (rule rep_delete [where B = B and i = i, OF rep i r_def lr hd' EP' KP' subset_refl subset_refl];
        blast intro: ent keys slots)+
  have ref: "(if last (NULL # xs) \<noteq> NULL then de_next (last (NULL # xs)) else bucket_addr tbl i) = r"
    using rs(2) by (auto simp: r_def ref_of_def)
  have pd: "ld (dict_privdata d) u = pd" "ld ?u t = of_nat ?c"
    using uk(4) ht by (simp_all add: dict_header_def ld_def)
  have en: "e \<noteq> NULL" using ep.pool_block [OF EP eL] by simp
  have run: "delete_in ty d (dict_ht0 d) key (ucast (c_hash C (kv_seed s) (K e))) False s = Some (e, t')"
  proof -
    define pv where "pv = last (NULL # xs)"
    have "del_search ty d key NULL (ld (bucket_addr tbl i) s) s = Some (pv, e)"
      "(if pv \<noteq> NULL then de_next pv else bucket_addr tbl i) = r"
      using ds ref by (simp_all only: pv_def)
    then show ?thesis
      using sl en w(1,2) t(1) pd c2
      by (simp add: delete_in_def Let_def u_def [symmetric] p_dictModed_def t'_def)
  qed
  have env: "same_env s t'"
    using same_env_trans [OF same_env_trans [OF same_env_trans [OF same_env_st w(3) [unfolded u_def]] t(2)] same_env_st]
    by (simp add: t'_def)
  have "vals_ok C (dict_entries N (B(i := xs @ ys))) (Lv - {?v}) (kv_mem t')"
    using vals VP' rd(3) e unfolding vals_ok_def rd(4) inj_on_def by auto
  moreover have "same_blocks (Lv - {?v}) (c_vsz C) ?m (kv_mem t')"
    unfolding same_blocks_def
  proof (intro ballI)
    fix l x
    assume l: "l \<in> Lv - {?v}" "x \<in> span l (c_vsz C)"
    then have xv: "x \<in> c_VR C" using vp.pool_block [OF VP, of l] by auto
    show "kv_mem t' x = ?m x"
    proof (rule frm)
      show "x \<notin> span r 8" using xv uk(7) by auto
      have "x \<notin> span d 96" "x \<notin> c_ER C" "x \<notin> c_KR C" using xv sp by auto
      then show "x \<notin> span d 96" "x \<notin> ?P" using l by (auto simp: pool_mem_def)
    qed
  qed
  ultimately show ?thesis using run env rd(1,2) by blast
qed

text \<open>A key that is not there.\<close>

lemma delete_missing:
  assumes rep: "dict_rep C pd d tbl N (kv_seed s) B K Le Lk (kv_mem s)" and k: "k \<notin> K ` dict_entries N B"
    and key: "c_content C (kv_mem s) key k"
  shows "delete_in ty d (dict_ht0 d) key (ucast (c_hash C (kv_seed s) k)) nofree s = Some (NULL, s)"
proof -
  let ?i = "c_idx C N (kv_seed s) k"
  note idx = rep_idx [OF rep, of "ucast (c_hash C (kv_seed s) k)"]
  have i: "?i < N" using idx by (simp add: c_idx_def)
  have ok: "chain (kv_mem s) (ld64 (kv_mem s) (bucket_addr tbl ?i)) (B ?i)"
    "members_ok C N (kv_seed s) K Le Lk (kv_mem s) ?i (B ?i)"
    using rep_bucket [OF rep i] by (simp_all add: bucket_ok_def)
  have "ld (dict_privdata d) s = pd" using rep by (simp add: dict_rep_def dict_header_def ld_def)
  from del_search_find [OF key this ok(1), of K NULL] ok(2) find_missing [OF rep k]
  have "\<exists>q. del_search ty d key NULL (ld (bucket_addr tbl ?i) s) s = Some (q, NULL)"
    by (simp add: members_ok_def ld_def)
  moreover have "slot (dict_ht0 d) (ucast (ht_idx (ucast (c_hash C (kv_seed s) k)) (dict_ht0 d) s)) s
      = Some (bucket_addr tbl ?i)"
    using rep_slot [OF rep, of "ucast (ht_idx (ucast (c_hash C (kv_seed s) k)) (dict_ht0 d) s)"] idx
    by (simp only: c_idx_def unat_ucast_32)
  ultimately show ?thesis by (auto simp: delete_in_def)
qed

lemma dictDelete_missing:
  assumes rep: "dict_rep C pd d tbl N (kv_seed s) B K Le Lk (kv_mem s)" and k: "k \<notin> K ` dict_entries N B"
    and key: "c_content C (kv_mem s) key k"
  shows "dictDelete ty d key s = Some (DICT_ERR, s)"
  using delete_missing [OF rep k key] rep_not_rehashing [OF rep] hash_content [OF key]
  by (simp add: dictDelete_def dictGenericDelete_def rehash_if_needed_def dictHashKey_def)

lemma dictDelete_found:
  assumes rep: "dict_rep C pd d tbl N (kv_seed s) B K Le Lk (kv_mem s)" and e: "e \<in> dict_entries N B"
    and key: "c_content C (kv_mem s) key (K e)" and vals: "vals_ok C (dict_entries N B) Lv (kv_mem s)"
  shows "\<exists>t B'. dictDelete ty d key s = Some (DICT_OK, t) \<and> same_env s t \<and>
    dict_rep C pd d tbl N (kv_seed s) B' K (Le - {e}) (Lk - {ld64 (kv_mem s) (de_key e)}) (kv_mem t) \<and>
    dict_map N B' K (kv_mem t) = (dict_map N B K (kv_mem s))(K e := None) \<and>
    vals_ok C (dict_entries N B') (Lv - {ld64 (kv_mem s) (de_val e)}) (kv_mem t) \<and>
    same_blocks (Lv - {ld64 (kv_mem s) (de_val e)}) (c_vsz C) (kv_mem s) (kv_mem t)"
proof -
  obtain t B' where run: "delete_in ty d (dict_ht0 d) key (ucast (c_hash C (kv_seed s) (K e))) False s = Some (e, t)"
    and r: "same_env s t" "dict_rep C pd d tbl N (kv_seed s) B' K (Le - {e}) (Lk - {ld64 (kv_mem s) (de_key e)}) (kv_mem t)"
      "dict_map N B' K (kv_mem t) = (dict_map N B K (kv_mem s))(K e := None)"
      "vals_ok C (dict_entries N B') (Lv - {ld64 (kv_mem s) (de_val e)}) (kv_mem t)"
      "same_blocks (Lv - {ld64 (kv_mem s) (de_val e)}) (c_vsz C) (kv_mem s) (kv_mem t)"
    using delete_found [OF rep e key vals] by blast
  have en: "e \<noteq> NULL" using ep.pool_block [of "kv_mem s" Le e] rep_home(3) [OF rep e] rep by (simp add: dict_rep_def)
  have "ld (ht_used (dict_ht0 d)) s \<noteq> 0" using rep_used [OF rep] e by auto
  then have "dictDelete ty d key s = Some (DICT_OK, t)"
    using run en rep_not_rehashing [OF rep] hash_content [OF key]
    by (simp add: dictDelete_def dictGenericDelete_def rehash_if_needed_def dictHashKey_def)
  then show ?thesis using r by blast
qed

end

end
