(* ===== verification/Kv_Store.thy ===== *)
theory Kv_Store
  imports Kv_Alloc_Dict Kv_Dict_Delete
begin

text \<open>
  The key-value store of \<open>apps/kvstore\<close> put together: the callbacks of \<open>alloc_dict.c\<close> satisfy the contract of the
  dictionary, so a store in memory behaves as a finite map from strings to value blocks, and \<open>update\<close> and
  \<open>get\<close> of \<open>main.c\<close> write and read that map.
\<close>

section \<open>The callbacks satisfy the contract\<close>

text \<open>A pool whose allocator is found through the field \<open>f\<close> of the wrapper \<open>w\<close> of the dictionary \<open>d\<close>.\<close>

definition field_pool :: "addr \<Rightarrow> addr \<Rightarrow> addr \<Rightarrow> addr \<Rightarrow> nat \<Rightarrow> nat \<Rightarrow> kmem \<Rightarrow> addr set \<Rightarrow> bool" where
  "field_pool w d f a sz n m L \<longleftrightarrow> ld64 m f = a \<and> ld64 m (dw_d w) = d \<and> span f 8 \<subseteq> span w 32 \<and>
     span w 32 \<inter> span a (24 + n) = {} \<and> slab a sz n m L"

definition log_free :: "addr \<Rightarrow> addr \<Rightarrow> kv \<Rightarrow> kv option" where
  "log_free f l s = do {
     let a = ld f s;
     s \<leftarrow> free_allocator a l s;
     let s = wrap_log_write a sizeof_Allocator s;
     Some (wrap_log_write l (ld (al_alloc_size a) s) s) }"

definition log_alloc :: "addr \<Rightarrow> u64 \<Rightarrow> kv \<Rightarrow> (addr \<times> kv) option" where
  "log_alloc f n s = do {
     let a = ld f s;
     (e, s) \<leftarrow> alloc_allocator a s;
     let s = wrap_log_write a sizeof_Allocator s;
     Some (e, wrap_log_write e n s) }"

lemma callbacks_as_pools:
  "keyDestructor_cb w = log_free (dw_keyAllocator w)" "valDestructor_cb w = log_free (dw_valAllocator w)"
  "entryDestructor_cb w = log_free (dw_entryAllocator w)" "entryConstructor w = log_alloc (dw_entryAllocator w) sizeof_dictEntry"
  by (simp_all add: fun_eq_iff keyDestructor_cb_def valDestructor_cb_def entryDestructor_cb_def entryConstructor_def
      log_free_def log_alloc_def)

lemma mem_log [simp]: "kv_mem (wrap_log_write p n s) = kv_mem s"
  by (simp add: wrap_log_write_def)

lemma same_env_logged: "same_env s t \<Longrightarrow> same_env s (wrap_log_write p n t)"
  by (rule same_env_trans [OF _ same_env_log])

lemma field_alloc:
  assumes fp: "field_pool w d f a sz n (kv_mem s) L" and c: "card L < n div sz"
  obtains e t where "alloc_allocator (ld f s) s = Some (e, t)" "e \<notin> L" "same_env s t" "field_pool w d f a sz n (kv_mem t) (insert e L)"
    "\<And>x. x \<notin> span a (24 + n) - (\<Union>k\<in>L. span k sz) \<Longrightarrow> kv_mem t x = kv_mem s x"
proof -
  from fp have p: "ld f s = a" "span f 8 \<subseteq> span w 32" "span w 32 \<inter> span a (24 + n) = {}" "slab a sz n (kv_mem s) L"
      "ld (dw_d w) s = d" by (simp_all add: field_pool_def ld_def)
  obtain e t where t: "alloc_allocator a s = Some (e, t)" "e \<notin> L" "same_env s t" "slab a sz n (kv_mem t) (insert e L)"
    and fr: "\<forall>x. x \<notin> span a (24 + n) - (\<Union>k\<in>L. span k sz) \<longrightarrow> kv_mem t x = kv_mem s x"
    using slab.alloc_ok [OF p(4) c] by blast
  have "ld64 (kv_mem t) q = ld64 (kv_mem s) q" if "span q 8 \<subseteq> span w 32" for q
    using that p(3) fr by (intro ld64_cong) auto
  then have "ld64 (kv_mem t) f = a" "ld64 (kv_mem t) (dw_d w) = d"
    using p by (simp_all add: ld_def wrapper_fields span_subset)
  then have "field_pool w d f a sz n (kv_mem t) (insert e L)" using t(4) p by (simp add: field_pool_def)
  then show ?thesis using that t fr p(1) by blast
qed

interpretation field: pool "field_pool w d f a sz n" "span a (24 + n)" "span w 32" sz "log_free f" "n div sz" "log_alloc f k"
  for w d f a sz n k
proof (unfold_locales, goal_cases)
  case (1 m L m')
  have "span (dw_d w) 8 \<subseteq> span w 32" by (simp add: wrapper_fields span_subset)
  then have "ld64 m' f = ld64 m f" "ld64 m' (dw_d w) = ld64 m (dw_d w)"
    using 1 unfolding field_pool_def by (intro ld64_cong; blast)+
  moreover have "slab a sz n m' L" using 1 by (intro slab.pool_local [of a sz n m L m']) (auto simp: field_pool_def)
  ultimately show ?case using 1(1) by (simp add: field_pool_def)
next
  case (2 m L l)
  then show ?case using slab.pool_block [of a sz n m L l] by (simp add: field_pool_def)
next
  case (3 m L l k)
  then show ?case using slab.pool_disjoint [of a sz n m L l k] by (simp add: field_pool_def)
next
  case (4 m L)
  then show ?case by (simp add: field_pool_def)
next
  case (5 m L)
  then show ?case using slab.pool_size [of a sz n m L] by (simp add: field_pool_def)
next
  case (6 s L l)
  then have p: "ld f s = a" "span f 8 \<subseteq> span w 32" "span w 32 \<inter> span a (24 + n) = {}" "slab a sz n (kv_mem s) L"
      "ld (dw_d w) s = d"
    by (simp_all add: field_pool_def ld_def)
  obtain t where t: "free_allocator a l s = Some t" "same_env s t" "slab a sz n (kv_mem t) (L - {l})"
    and fr: "\<forall>x. x \<notin> span a (24 + n) - (\<Union>k\<in>L - {l}. span k sz) \<longrightarrow> kv_mem t x = kv_mem s x"
    using slab.free_ok [OF p(4) 6(2)] by blast
  have "ld64 (kv_mem t) q = ld64 (kv_mem s) q" if "span q 8 \<subseteq> span w 32" for q
    using that p(3) fr by (intro ld64_cong) auto
  then have "ld64 (kv_mem t) f = a" "ld64 (kv_mem t) (dw_d w) = d"
    using p by (simp_all add: ld_def wrapper_fields span_subset)
  then show ?case using t fr p by (auto simp: log_free_def Let_def field_pool_def same_env_logged)
next
  case (7 m L)
  then show ?case using slab.pool_card [of a sz n m L] by (simp add: field_pool_def)
next
  case (8 s L)
  then have p: "ld f s = a" "slab a sz n (kv_mem s) L" by (simp_all add: field_pool_def ld_def)
  obtain t where "alloc_allocator a s = Some (NULL, t)" "same_env s t" "kv_mem t = kv_mem s"
    using slab.alloc_full [OF p(2) 8(2)] by blast
  then show ?case using p by (auto simp: log_alloc_def Let_def same_env_logged)
next
  case (9 s L)
  show ?case
  proof (rule field_alloc [OF 9])
    fix e t
    assume "alloc_allocator (ld f s) s = Some (e, t)" "e \<notin> L" "same_env s t" "field_pool w d f a sz n (kv_mem t) (insert e L)"
      "\<And>x. x \<notin> span a (24 + n) - (\<Union>k\<in>L. span k sz) \<Longrightarrow> kv_mem t x = kv_mem s x"
    then show ?thesis by (auto simp: log_alloc_def Let_def same_env_logged)
  qed
qed

text \<open>Where a store lies: the wrapper, the dictionary and its table, and the three allocators with their block
  sizes and arena sizes.\<close>

record store_geo =
  sg_w :: addr
  sg_d :: addr
  sg_tbl :: addr
  sg_N :: nat
  sg_ea :: addr
  sg_en :: nat
  sg_ka :: addr
  sg_ksz :: nat
  sg_kn :: nat
  sg_va :: addr
  sg_vsz :: nat
  sg_vn :: nat

definition store_cfg :: "store_geo \<Rightarrow> u8 list dict_cfg" where
  "store_cfg G =
    \<lparr>c_content = is_str, c_foot = \<lambda>bs. length bs + 1, c_hash = \<lambda>sd bs. siphash bs sd,
     c_EP = field_pool (sg_w G) (sg_d G) (dw_entryAllocator (sg_w G)) (sg_ea G) 24 (sg_en G),
     c_KP = field_pool (sg_w G) (sg_d G) (dw_keyAllocator (sg_w G)) (sg_ka G) (sg_ksz G) (sg_kn G),
     c_VP = field_pool (sg_w G) (sg_d G) (dw_valAllocator (sg_w G)) (sg_va G) (sg_vsz G) (sg_vn G),
     c_ER = span (sg_ea G) (24 + sg_en G), c_KR = span (sg_ka G) (24 + sg_kn G), c_VR = span (sg_va G) (24 + sg_vn G),
     c_aux = span (sg_w G) 32, c_ksz = sg_ksz G, c_vsz = sg_vsz G, c_ecap = sg_en G div 24\<rparr>"

lemma hash_string: "is_str (kv_mem s) p bs \<Longrightarrow> hashCallback p s = Some (siphash bs (kv_seed s))"
proof -
  assume p: "is_str (kv_mem s) p bs"
  then have "length bs < 2 ^ 31" "bytes_at (kv_mem s) p (length bs) = bs" by (simp_all add: is_str_def)
  then show ?thesis using strlen_str [OF p] int_len [of "length bs"] by (simp add: hashCallback_def dictGenHashFunction_def)
qed

lemma compare_string:
  assumes p: "is_str (kv_mem s) p bs" and q: "is_str (kv_mem s) q cs"
  shows "compareCallback w p q s = Some (if bs = cs then 1 else 0)"
proof -
  have l: "length bs < 2 ^ 31" "length cs < 2 ^ 31" "bytes_at (kv_mem s) p (length bs) = bs" "bytes_at (kv_mem s) q (length cs) = cs"
    using p q by (simp_all add: is_str_def)
  have "unat (scast (ucast (of_nat (length bs) :: u64) :: u32) :: u64) = length bs" using int_len [OF l(1)] .
  moreover have "unat (scast (ucast (of_nat (length cs) :: u64) :: u32) :: u64) = length cs" using int_len [OF l(2)] .
  ultimately have "(ucast (of_nat (length bs) :: u64) :: u32) = ucast (of_nat (length cs) :: u64) \<longleftrightarrow> length bs = length cs"
    by metis
  then show ?thesis using strlen_str [OF p] strlen_str [OF q] l int_len [OF l(1)]
    by (auto simp: compareCallback_def memcmp_eq_def Let_def)
qed

interpretation store: dict_contract "store_cfg G" AllocDictType "sg_w G" for G
proof (rule dict_contract.intro)
  note cb = AllocDictType_def callbacks_as_pools store_cfg_def
  show "pool (c_EP (store_cfg G)) (c_ER (store_cfg G)) (c_aux (store_cfg G)) 24 (the (entryDestructor AllocDictType) (sg_w G))
    (c_ecap (store_cfg G)) (the (entryAlloc AllocDictType) (sg_w G))"
    using field.pool_axioms by (simp add: cb)
  show "pool_free (c_KP (store_cfg G)) (c_KR (store_cfg G)) (c_aux (store_cfg G)) (c_ksz (store_cfg G))
    (the (keyDestructor AllocDictType) (sg_w G))"
    using field.pool_free_axioms by (simp add: cb)
  show "pool_free (c_VP (store_cfg G)) (c_VR (store_cfg G)) (c_aux (store_cfg G)) (c_vsz (store_cfg G))
    (the (valDestructor AllocDictType) (sg_w G))"
    using field.pool_free_axioms by (simp add: cb)
  show "dict_contract_axioms (store_cfg G) AllocDictType (sg_w G)"
  proof (unfold_locales, goal_cases)
    case (7 m p k k')
    then show ?case by (auto simp: store_cfg_def dest: is_str_unique)
  next
    case (8 m p k m')
    then show ?case using is_str_cong [of p k m m'] by (simp add: store_cfg_def)
  next
    case (9 s p k)
    then show ?case by (simp add: store_cfg_def AllocDictType_def hash_string)
  next
    case (10 s p k q l)
    then show ?case using compare_string [of s p k q l] by (auto simp: store_cfg_def AllocDictType_def)
  next
    case (11 p s)
    then show ?case by (auto simp: AllocDictType_def entryModed_cb_def)
  qed (simp_all add: AllocDictType_def)
qed

section \<open>The store as a map\<close>

text \<open>The store at \<open>G\<close> holds the map \<open>M\<close>; \<open>Le\<close>, \<open>Lk\<close> and \<open>Lv\<close> are the blocks handed out.\<close>

definition store_ok :: "store_geo \<Rightarrow> addr set \<Rightarrow> addr set \<Rightarrow> addr set \<Rightarrow> (u8 list \<rightharpoonup> u64) \<Rightarrow> kv \<Rightarrow> bool" where
  "store_ok G Le Lk Lv M s \<longleftrightarrow>
     (\<exists>B K. dict_rep (store_cfg G) (sg_w G) (sg_d G) (sg_tbl G) (sg_N G) (kv_seed s) B K Le Lk (kv_mem s) \<and>
        vals_ok (store_cfg G) (dict_entries (sg_N G) B) Lv (kv_mem s) \<and> M = dict_map (sg_N G) B K (kv_mem s))"

lemma dom_dict_map: "dom (dict_map N B K m) = K ` dict_entries N B"
  by (auto simp: dict_map_def split: if_splits)

lemma rep_count:
  assumes rep: "dict_rep C pd d tbl N seed B K Le Lk m"
  shows "dict_count N B = card (dom (dict_map N B K m))"
proof -
  have inj: "inj_on K (dict_entries N B)" using rep by (simp add: dict_rep_def)
  have mem: "members_ok C N seed K Le Lk m i (B i)" if "i < N" for i
    using rep_bucket [OF rep that] by (simp add: bucket_ok_def)
  have "card (dict_entries N B) = (\<Sum>i<N. card (set (B i)))"
    unfolding dict_entries_def
  proof (rule card_UN_disjoint)
    show "\<forall>i\<in>{..<N}. \<forall>j\<in>{..<N}. i \<noteq> j \<longrightarrow> set (B i) \<inter> set (B j) = {}"
    proof (intro ballI impI)
      fix i j
      assume "i \<in> {..<N}" "j \<in> {..<N}" "i \<noteq> j"
      then show "set (B i) \<inter> set (B j) = {}" using mem [of i] mem [of j] by (auto simp: members_ok_def)
    qed
  qed auto
  also have "\<dots> = dict_count N B"
    unfolding dict_count_def using mem by (intro sum.cong refl) (auto simp: members_ok_def distinct_card)
  finally show ?thesis using inj by (simp add: dom_dict_map card_image)
qed

text \<open>The table is full: \<open>_dictExpandIfNeeded\<close> asks for an expansion, which always fails.\<close>

definition store_full :: "store_geo \<Rightarrow> (u8 list \<rightharpoonup> u64) \<Rightarrow> kv \<Rightarrow> bool" where
  "store_full G M s \<longleftrightarrow> dict_full (sg_N G) (card (dom M)) s"

lemma same_env_seed: "same_env s t \<Longrightarrow> kv_seed t = kv_seed s"
  unfolding same_env_def by (metis kv.ext_inject kv.surjective kv.update_convs(1,2))

lemma store_okE:
  assumes "store_ok G Le Lk Lv M s"
  obtains B K where "dict_rep (store_cfg G) (sg_w G) (sg_d G) (sg_tbl G) (sg_N G) (kv_seed s) B K Le Lk (kv_mem s)"
    "vals_ok (store_cfg G) (dict_entries (sg_N G) B) Lv (kv_mem s)" "M = dict_map (sg_N G) B K (kv_mem s)"
    "\<And>k. M k = None \<longleftrightarrow> k \<notin> K ` dict_entries (sg_N G) B"
    "\<And>e. e \<in> dict_entries (sg_N G) B \<Longrightarrow> M (K e) = Some (ld64 (kv_mem s) (de_val e))"
    "dict_full (sg_N G) (dict_count (sg_N G) B) s \<longleftrightarrow> store_full G M s"
proof -
  from assms obtain B K where
    rep: "dict_rep (store_cfg G) (sg_w G) (sg_d G) (sg_tbl G) (sg_N G) (kv_seed s) B K Le Lk (kv_mem s)"
    and vals: "vals_ok (store_cfg G) (dict_entries (sg_N G) B) Lv (kv_mem s)"
    and M: "M = dict_map (sg_N G) B K (kv_mem s)" by (auto simp: store_ok_def)
  have inj: "inj_on K (dict_entries (sg_N G) B)" using rep by (simp add: dict_rep_def)
  show ?thesis
  proof (rule that [OF rep vals M])
    show "M k = None \<longleftrightarrow> k \<notin> K ` dict_entries (sg_N G) B" for k unfolding M by (simp add: dict_map_def)
    show "M (K e) = Some (ld64 (kv_mem s) (de_val e))" if "e \<in> dict_entries (sg_N G) B" for e
      unfolding M by (rule dict_map_entry [OF inj that])
    show "dict_full (sg_N G) (dict_count (sg_N G) B) s \<longleftrightarrow> store_full G M s"
      unfolding store_full_def M rep_count [OF rep, symmetric] by (rule refl)
  qed
qed

lemma store_okI:
  assumes "dict_rep (store_cfg G) (sg_w G) (sg_d G) (sg_tbl G) (sg_N G) sd B K Le Lk (kv_mem s)" "kv_seed s = sd"
    "vals_ok (store_cfg G) (dict_entries (sg_N G) B) Lv (kv_mem s)" "dict_map (sg_N G) B K (kv_mem s) = M"
  shows "store_ok G Le Lk Lv M s"
  unfolding store_ok_def using assms by (intro exI [of _ B] exI [of _ K]) simp

lemma content_is_str [simp]: "c_content (store_cfg G) = is_str"
  by (simp add: store_cfg_def)

lemma vsz_cfg: "c_vsz (store_cfg G) = sg_vsz G"
  by (simp add: store_cfg_def)

lemma val_fresh: "(\<And>e. e \<in> E \<Longrightarrow> M (K e) = Some (f e)) \<Longrightarrow> v \<notin> ran M \<Longrightarrow> x \<in> E \<Longrightarrow> f x \<noteq> v"
  by (auto simp: ran_def)

lemma store_find:
  assumes "store_ok G Le Lk Lv M s" "is_str (kv_mem s) key k"
  shows "\<exists>e. dictFind AllocDictType (sg_d G) key s = Some (e, s) \<and>
    (case M k of None \<Rightarrow> e = NULL | Some v \<Rightarrow> e \<noteq> NULL \<and> ld (de_val e) s = v)"
  using assms(1)
proof (rule store_okE, goal_cases)
  case (1 B K)
  have key: "c_content (store_cfg G) (kv_mem s) key k" using assms(2) by simp
  show ?case
  proof (cases "k \<in> K ` dict_entries (sg_N G) B")
    case True
    then obtain e where e: "e \<in> dict_entries (sg_N G) B" "K e = k" by auto
    have "e \<noteq> NULL" using store.ep.pool_block [of G "kv_mem s" Le e] rep_home(3) [OF 1(1) e(1)] 1(1) by (simp add: dict_rep_def)
    then show ?thesis using store.dictFind_rep(1) [OF 1(1) key e] 1(5) [OF e(1)] e(2) by (simp add: ld_def)
  next
    case False
    then show ?thesis using store.dictFind_rep(2) [OF 1(1) key] 1(4) [THEN iffD2, OF False] by simp
  qed
qed

lemma store_fetch:
  assumes "store_ok G Le Lk Lv M s" "is_str (kv_mem s) key k"
  shows "dictFetchValue AllocDictType (sg_d G) key s = Some (case M k of None \<Rightarrow> NULL | Some v \<Rightarrow> v, s)"
  using store_find [OF assms] by (auto simp: dictFetchValue_def split: option.splits)

lemma store_add_new:
  assumes ok: "store_ok G Le Lk Lv M s" and key: "is_str (kv_mem s) key k" "key \<in> Lk" "length k + 1 \<le> sg_ksz G"
    and new: "M k = None" "\<not> store_full G M s" "card Le < sg_en G div 24" and v: "v \<in> Lv" "v \<notin> ran M"
  shows "\<exists>e t. e \<notin> Le \<and> dictAdd AllocDictType (sg_d G) key v s = Some (DICT_OK, t) \<and>
    dictReplace AllocDictType (sg_d G) key v s = Some (1, t) \<and> same_env s t \<and> store_ok G (insert e Le) Lk Lv (M(k \<mapsto> v)) t \<and>
    same_blocks Lv (sg_vsz G) (kv_mem s) (kv_mem t)"
  using ok
proof (rule store_okE, goal_cases)
  case (1 B K)
  have "c_content (store_cfg G) (kv_mem s) key k" "c_foot (store_cfg G) k \<le> c_ksz (store_cfg G)"
    "card Le < c_ecap (store_cfg G)" using key new(3) by (simp_all add: store_cfg_def)
  moreover have "k \<notin> K ` dict_entries (sg_N G) B" "\<not> dict_full (sg_N G) (dict_count (sg_N G) B) s" using new 1 by auto
  moreover have "\<And>x. x \<in> dict_entries (sg_N G) B \<Longrightarrow> ld64 (kv_mem s) (de_val x) \<noteq> v" by (rule val_fresh [OF 1(5) v(2)])
  ultimately obtain e t B' K' where t: "dictAdd AllocDictType (sg_d G) key v s = Some (DICT_OK, t)"
      "dictReplace AllocDictType (sg_d G) key v s = Some (1, t)" "same_env s t" "e \<notin> Le"
    and r: "dict_rep (store_cfg G) (sg_w G) (sg_d G) (sg_tbl G) (sg_N G) (kv_seed s) B' K' (insert e Le) Lk (kv_mem t)"
      "dict_map (sg_N G) B' K' (kv_mem t) = (dict_map (sg_N G) B K (kv_mem s))(k \<mapsto> v)"
      "vals_ok (store_cfg G) (dict_entries (sg_N G) B') Lv (kv_mem t)"
      "same_blocks Lv (c_vsz (store_cfg G)) (kv_mem s) (kv_mem t)"
    using store.dictAdd_new [OF 1(1) _ key(2) _ _ _ _ 1(2) v(1), of k] by blast
  have "store_ok G (insert e Le) Lk Lv (M(k \<mapsto> v)) t"
    using r 1(3) by (intro store_okI [OF r(1) same_env_seed [OF t(3)] r(3)]) simp
  then show ?case using t r(4) unfolding vsz_cfg by blast
qed

lemma store_replace:
  assumes ok: "store_ok G Le Lk Lv M s" and key: "is_str (kv_mem s) key k" and old: "M k = Some u" "\<not> store_full G M s"
    and v: "v \<in> Lv" "v \<notin> ran M"
  shows "\<exists>t. dictReplace AllocDictType (sg_d G) key v s = Some (0, t) \<and> same_env s t \<and>
    store_ok G Le Lk (Lv - {u}) (M(k \<mapsto> v)) t \<and> same_blocks (Lv - {u}) (sg_vsz G) (kv_mem s) (kv_mem t)"
  using ok
proof (rule store_okE, goal_cases)
  case (1 B K)
  obtain e where e: "e \<in> dict_entries (sg_N G) B" "K e = k" using 1(4) [of k] old(1) by auto
  have u: "ld64 (kv_mem s) (de_val e) = u" using 1(5) [OF e(1)] e(2) old(1) by simp
  have "\<And>x. x \<in> dict_entries (sg_N G) B \<Longrightarrow> ld64 (kv_mem s) (de_val x) \<noteq> v" by (rule val_fresh [OF 1(5) v(2)])
  moreover have "c_content (store_cfg G) (kv_mem s) key (K e)" using key e by simp
  moreover have "\<not> dict_full (sg_N G) (dict_count (sg_N G) B) s" using old 1(6) by simp
  ultimately obtain t where t: "dictReplace AllocDictType (sg_d G) key v s = Some (0, t)" "same_env s t"
    and r: "dict_rep (store_cfg G) (sg_w G) (sg_d G) (sg_tbl G) (sg_N G) (kv_seed s) B K Le Lk (kv_mem t)"
      "dict_map (sg_N G) B K (kv_mem t) = (dict_map (sg_N G) B K (kv_mem s))(K e \<mapsto> v)"
      "vals_ok (store_cfg G) (dict_entries (sg_N G) B) (Lv - {ld64 (kv_mem s) (de_val e)}) (kv_mem t)"
      "same_blocks (Lv - {ld64 (kv_mem s) (de_val e)}) (c_vsz (store_cfg G)) (kv_mem s) (kv_mem t)"
    using store.dictReplace_existing [OF 1(1) e(1) _ _ 1(2) v(1)] by blast
  have "store_ok G Le Lk (Lv - {u}) (M(k \<mapsto> v)) t"
    using r u e(2) 1(3) by (intro store_okI [OF r(1) same_env_seed [OF t(2)]]) simp_all
  then show ?case using t r(4) u unfolding vsz_cfg by blast
qed

text \<open>When the table is full nothing can be added, and \<open>dictReplace\<close> dereferences \<open>NULL\<close>.\<close>

lemma store_full_add:
  assumes ok: "store_ok G Le Lk Lv M s" and key: "is_str (kv_mem s) key k" and full: "store_full G M s"
  shows "dictAdd AllocDictType (sg_d G) key v s = Some (DICT_ERR, s) \<and> dictReplace AllocDictType (sg_d G) key v s = None"
  using ok
proof (rule store_okE, goal_cases)
  case (1 B K)
  have "dictAddRaw AllocDictType (sg_d G) key s = Some (NULL, NULL, s)"
    using full 1(6) key by (intro store.dictAddRaw_full [OF 1(1)]) simp_all
  then show ?case by (simp add: dictAdd_def dictReplace_def deref_def)
qed

lemma store_add_exhausted:
  assumes ok: "store_ok G Le Lk Lv M s" and key: "is_str (kv_mem s) key k" and new: "M k = None" "\<not> store_full G M s"
    and cap: "card Le = sg_en G div 24"
  shows "dictAdd AllocDictType (sg_d G) key v s = None"
  using ok
proof (rule store_okE, goal_cases)
  case (1 B K)
  have "dictAddRaw AllocDictType (sg_d G) key s = None"
    using new 1(4,6) key cap by (intro store.dictAddRaw_exhausted [OF 1(1), of k]) (simp_all add: store_cfg_def)
  then show ?case by (simp add: dictAdd_def)
qed

lemma store_add_existing:
  assumes ok: "store_ok G Le Lk Lv M s" and key: "is_str (kv_mem s) key k" and old: "M k = Some u" "\<not> store_full G M s"
  shows "dictAdd AllocDictType (sg_d G) key v s = Some (DICT_ERR, s)"
  using ok
proof (rule store_okE, goal_cases)
  case (1 B K)
  obtain e where "e \<in> dict_entries (sg_N G) B" "K e = k" using 1(4) [of k] old(1) by auto
  then have "dictAddRaw AllocDictType (sg_d G) key s = Some (NULL, e, s)"
    using old(2) 1(6) key by (intro store.dictAddRaw_existing [OF 1(1), of key k]) simp_all
  then show ?case by (simp add: dictAdd_def)
qed

lemma store_delete_missing:
  assumes ok: "store_ok G Le Lk Lv M s" and key: "is_str (kv_mem s) key k" and "M k = None"
  shows "dictDelete AllocDictType (sg_d G) key s = Some (DICT_ERR, s)"
  using ok
proof (rule store_okE, goal_cases)
  case (1 B K)
  show ?case using assms 1(4) by (intro store.dictDelete_missing [OF 1(1), of k]) simp_all
qed

lemma store_delete:
  assumes ok: "store_ok G Le Lk Lv M s" and key: "is_str (kv_mem s) key k" and Mk: "M k = Some u"
  shows "\<exists>e p t. dictDelete AllocDictType (sg_d G) key s = Some (DICT_OK, t) \<and> same_env s t \<and> e \<in> Le \<and> p \<in> Lk \<and>
      store_ok G (Le - {e}) (Lk - {p}) (Lv - {u}) (M(k := None)) t \<and> same_blocks (Lv - {u}) (sg_vsz G) (kv_mem s) (kv_mem t)"
  using ok
proof (rule store_okE, goal_cases)
  case (1 B K)
  obtain e where e: "e \<in> dict_entries (sg_N G) B" "K e = k" using 1(4) [of k] Mk by auto
  have u: "ld64 (kv_mem s) (de_val e) = u" using 1(5) [OF e(1)] e(2) Mk by simp
  have key': "c_content (store_cfg G) (kv_mem s) key (K e)" using key e by simp
  let ?p = "ld64 (kv_mem s) (de_key e)"
  obtain t B' where t: "dictDelete AllocDictType (sg_d G) key s = Some (DICT_OK, t)" "same_env s t"
    and r: "dict_rep (store_cfg G) (sg_w G) (sg_d G) (sg_tbl G) (sg_N G) (kv_seed s) B' K (Le - {e}) (Lk - {?p}) (kv_mem t)"
      "dict_map (sg_N G) B' K (kv_mem t) = (dict_map (sg_N G) B K (kv_mem s))(K e := None)"
      "vals_ok (store_cfg G) (dict_entries (sg_N G) B') (Lv - {ld64 (kv_mem s) (de_val e)}) (kv_mem t)"
      "same_blocks (Lv - {ld64 (kv_mem s) (de_val e)}) (c_vsz (store_cfg G)) (kv_mem s) (kv_mem t)"
    using store.dictDelete_found [OF 1(1) e(1) key' 1(2)] by blast
  have "store_ok G (Le - {e}) (Lk - {?p}) (Lv - {u}) (M(k := None)) t"
    using r u e(2) 1(3) by (intro store_okI [OF r(1) same_env_seed [OF t(2)]]) simp_all
  moreover have "members_ok (store_cfg G) (sg_N G) (kv_seed s) K Le Lk (kv_mem s)
      (c_idx (store_cfg G) (sg_N G) (kv_seed s) (K e)) (B (c_idx (store_cfg G) (sg_N G) (kv_seed s) (K e)))"
    using rep_bucket [OF 1(1) rep_home(2) [OF 1(1) e(1)]] by (simp add: bucket_ok_def)
  then have "e \<in> Le \<and> ?p \<in> Lk" using rep_home(1) [OF 1(1) e(1)] unfolding members_ok_def by blast
  ultimately show ?case using t r(4) u unfolding vsz_cfg by blast
qed

section \<open>update and get\<close>

lemma cfg_pools:
  "c_KP (store_cfg G) = field_pool (sg_w G) (sg_d G) (dw_keyAllocator (sg_w G)) (sg_ka G) (sg_ksz G) (sg_kn G)"
  "c_VP (store_cfg G) = field_pool (sg_w G) (sg_d G) (dw_valAllocator (sg_w G)) (sg_va G) (sg_vsz G) (sg_vn G)"
  "c_KR (store_cfg G) = span (sg_ka G) (24 + sg_kn G)" "c_VR (store_cfg G) = span (sg_va G) (24 + sg_vn G)"
  "c_ksz (store_cfg G) = sg_ksz G"
  by (simp_all add: store_cfg_def)

text \<open>\<open>allocKey\<close> copies the key into a fresh block of the key pool.\<close>

lemma allocKey_ok:
  assumes ok: "store_ok G Le Lk Lv M s" and src: "is_str (kv_mem s) key k" "length k + 1 \<le> sg_ksz G"
    "span key (length k + 1) \<inter> span (sg_ka G) (24 + sg_kn G) = {}" and room: "card Lk < sg_kn G div sg_ksz G"
  shows "\<exists>p t. allocKey (sg_w G) key s = Some (p, t) \<and> same_env s t \<and> p \<notin> Lk \<and> store_ok G Le (insert p Lk) Lv M t \<and>
    is_str (kv_mem t) p k \<and> (\<forall>x. x \<notin> span (sg_ka G) (24 + sg_kn G) \<longrightarrow> kv_mem t x = kv_mem s x)"
  using ok
proof (rule store_okE, goal_cases)
  case (1 B K)
  have KP: "c_KP (store_cfg G) (kv_mem s) Lk" and geo: "dict_geo (store_cfg G) (sg_d G) (sg_tbl G) (sg_N G)"
    using 1(1) by (simp_all add: dict_rep_def)
  obtain p t where t: "alloc_allocator (ld (dw_keyAllocator (sg_w G)) s) s = Some (p, t)" "p \<notin> Lk" "same_env s t"
      "c_KP (store_cfg G) (kv_mem t) (insert p Lk)"
    and fr: "\<And>x. x \<notin> span (sg_ka G) (24 + sg_kn G) - (\<Union>l\<in>Lk. span l (sg_ksz G)) \<Longrightarrow> kv_mem t x = kv_mem s x"
    using field_alloc [OF KP [unfolded cfg_pools] room] unfolding cfg_pools by blast
  have p: "p \<noteq> NULL" "span p (sg_ksz G) \<subseteq> span (sg_ka G) (24 + sg_kn G)"
    using store.kp.pool_block [OF t(4), of p] by (simp_all add: cfg_pools)
  have pk: "span p (length k + 1) \<subseteq> span p (sg_ksz G)" using src(2) by (rule span_mono)
  let ?m = "put_bytes (kv_mem t) p (k @ [0])"
  have len: "length k + 1 < 2 ^ 31" "0 \<notin> set k" using src(1) by (simp_all add: is_str_def)
  have "is_str (kv_mem t) key k"
    using is_str_cong [of key k "kv_mem s" "kv_mem t"] src(1,3) fr by (auto simp: disjoint_iff)
  moreover have "span p (length k + 1) \<inter> span key (length k + 1) = {}" using src(3) p(2) pk by blast
  ultimately have "strcpy p key (wrap_log_write a n t) = Some (wrap_log_write a n t\<lparr>kv_mem := ?m\<rparr>)" for a n
    using strcpy_str [of "wrap_log_write a n t" key k p] p(1) by simp
  moreover have str: "is_str ?m p k" using p(1) len by (rule is_str_put)
  ultimately obtain u where run: "allocKey (sg_w G) key s = Some (p, u)" "kv_mem u = ?m" "same_env s u"
    using t(1,3) strlen_str [OF str] same_env_logged same_env_trans [OF _ same_env_mem]
    by (auto simp: allocKey_def Let_def)
  have out: "?m x = kv_mem t x" if "x \<notin> span p (sg_ksz G)" for x
    using that pk len by (intro put_bytes_outside) auto
  have oK: "?m x = kv_mem s x" if "x \<notin> c_KR (store_cfg G)" for x
    using that p(2) fr [of x] by (subst out) (auto simp: cfg_pools)
  have apart: "x \<notin> c_KR (store_cfg G)"
    if "x \<in> span (sg_d G) 96 \<union> span (sg_tbl G) (8 * sg_N G) \<union> c_ER (store_cfg G) \<union> c_VR (store_cfg G) \<union> c_aux (store_cfg G)" for x
    using that geo by (auto simp: dict_geo_def)
  have keys: "?m y = kv_mem s y" if "l \<in> Lk" "y \<in> span l (sg_ksz G)" for l y
    using that store.kp.pool_disjoint [OF t(4), of l p] t(2) fr [of y] by (subst out) (auto simp: cfg_pools)
  have KP': "c_KP (store_cfg G) ?m (insert p Lk)"
    by (rule store.kp.pool_local [OF t(4)], rule out) (use apart p(2) in \<open>auto simp: cfg_pools\<close>)
  have rf: "dict_rep (store_cfg G) (sg_w G) (sg_d G) (sg_tbl G) (sg_N G) (kv_seed s) B K Le (insert p Lk) ?m"
    "dict_map (sg_N G) B K ?m = dict_map (sg_N G) B K (kv_mem s)"
    "\<And>e. e \<in> dict_entries (sg_N G) B \<Longrightarrow> ld64 ?m (de_val e) = ld64 (kv_mem s) (de_val e)"
    by (rule store.rep_frame_keys [OF 1(1) _ _ KP']; use apart oK keys in \<open>auto simp: cfg_pools\<close>)+
  have "c_VP (store_cfg G) ?m Lv"
  proof (rule store.vp.pool_local [of G "kv_mem s"], goal_cases)
    case 1
    then show ?case using \<open>vals_ok _ _ _ (kv_mem s)\<close> by (simp add: vals_ok_def)
  next
    case (2 x)
    then show ?case by (intro oK apart) auto
  qed
  then have "vals_ok (store_cfg G) (dict_entries (sg_N G) B) Lv ?m"
    using 1(2) rf(3) by (simp add: vals_ok_def inj_on_def)
  then have "store_ok G Le (insert p Lk) Lv M u"
    using rf 1(3) run same_env_seed [OF run(3)] by (intro store_okI [of G "kv_seed s" B K]) simp_all
  then show ?case using run str t(2) oK by (intro exI [of _ p] exI [of _ u]) (simp add: cfg_pools)
qed

text \<open>\<open>allocVal\<close> copies the bytes of the value into a fresh block of the value pool.\<close>

lemma allocVal_ok:
  assumes ok: "store_ok G Le Lk Lv M s" and src: "val \<noteq> NULL" "unat len \<le> sg_vsz G"
    "span val (unat len) \<inter> span (sg_va G) (24 + sg_vn G) = {}" and room: "card Lv < sg_vn G div sg_vsz G"
  shows "\<exists>p t. allocVal (sg_w G) val len s = Some (p, t) \<and> same_env s t \<and> p \<notin> Lv \<and> store_ok G Le Lk (insert p Lv) M t \<and>
    bytes_at (kv_mem t) p (unat len) = bytes_at (kv_mem s) val (unat len) \<and> same_blocks Lv (sg_vsz G) (kv_mem s) (kv_mem t) \<and>
    (\<forall>x. x \<notin> span (sg_va G) (24 + sg_vn G) \<longrightarrow> kv_mem t x = kv_mem s x)"
  using ok
proof (rule store_okE, goal_cases)
  case (1 B K)
  have VP: "c_VP (store_cfg G) (kv_mem s) Lv" and geo: "dict_geo (store_cfg G) (sg_d G) (sg_tbl G) (sg_N G)"
    using 1(1,2) by (simp_all add: dict_rep_def vals_ok_def)
  obtain p t where t: "alloc_allocator (ld (dw_valAllocator (sg_w G)) s) s = Some (p, t)" "p \<notin> Lv" "same_env s t"
      "c_VP (store_cfg G) (kv_mem t) (insert p Lv)"
    and fr: "\<And>x. x \<notin> span (sg_va G) (24 + sg_vn G) - (\<Union>l\<in>Lv. span l (sg_vsz G)) \<Longrightarrow> kv_mem t x = kv_mem s x"
    using field_alloc [OF VP [unfolded cfg_pools] room] unfolding cfg_pools by blast
  have p: "p \<noteq> NULL" "span p (sg_vsz G) \<subseteq> span (sg_va G) (24 + sg_vn G)"
    using store.vp.pool_block [OF t(4), of p] by (simp_all add: cfg_pools vsz_cfg)
  have pk: "span p (unat len) \<subseteq> span p (sg_vsz G)" using src(2) by (rule span_mono)
  have bytes: "bytes_at (kv_mem t) val (unat len) = bytes_at (kv_mem s) val (unat len)"
    using src(3) fr by (intro bytes_at_cong) auto
  define m where "m = put_bytes (kv_mem t) p (bytes_at (kv_mem s) val (unat len))"
  have "span p (unat len) \<inter> span val (unat len) = {}" using src(3) p(2) pk by blast
  then have "memcpy p val len (wrap_log_write a n t) = Some (wrap_log_write a n t\<lparr>kv_mem := m\<rparr>)" for a n
    using memcpy_bytes [of p val len "wrap_log_write a n t"] p(1) src(1) bytes by (simp add: m_def)
  then obtain u where run: "allocVal (sg_w G) val len s = Some (p, u)" "kv_mem u = m" "same_env s u"
    using t(1,3) same_env_logged same_env_trans [OF _ same_env_mem] by (auto simp: allocVal_def Let_def)
  have l64: "unat len < 2 ^ 64" using unsigned_less [where ?'a = nat, of len] by simp
  have out: "m x = kv_mem t x" if "x \<notin> span p (sg_vsz G)" for x
    unfolding m_def using that pk l64 by (intro put_bytes_outside) auto
  have oV: "m x = kv_mem s x" if "x \<notin> c_VR (store_cfg G)" for x
    using that p(2) fr [of x] by (subst out) (auto simp: cfg_pools)
  have apart: "x \<notin> c_VR (store_cfg G)"
    if "x \<in> span (sg_d G) 96 \<union> span (sg_tbl G) (8 * sg_N G) \<union> c_ER (store_cfg G) \<union> c_KR (store_cfg G) \<union> c_aux (store_cfg G)" for x
    using that geo by (auto simp: dict_geo_def)
  have blocks: "same_blocks Lv (sg_vsz G) (kv_mem s) m"
    unfolding same_blocks_def
  proof (intro ballI)
    fix l y
    assume "l \<in> Lv" "y \<in> span l (sg_vsz G)"
    then show "m y = kv_mem s y"
      using store.vp.pool_disjoint [OF t(4), of l p] t(2) fr [of y] by (subst out) (auto simp: cfg_pools vsz_cfg)
  qed
  have VP': "c_VP (store_cfg G) m (insert p Lv)"
    by (rule store.vp.pool_local [OF t(4)], rule out) (use apart p(2) in \<open>auto simp: cfg_pools vsz_cfg\<close>)
  have rf: "dict_rep (store_cfg G) (sg_w G) (sg_d G) (sg_tbl G) (sg_N G) (kv_seed s) B K Le Lk m"
    "dict_map (sg_N G) B K m = dict_map (sg_N G) B K (kv_mem s)"
    "\<And>e. e \<in> dict_entries (sg_N G) B \<Longrightarrow> ld64 m (de_val e) = ld64 (kv_mem s) (de_val e)"
    by (rule store.rep_frame [OF 1(1)]; use apart oV in blast)+
  have "vals_ok (store_cfg G) (dict_entries (sg_N G) B) (insert p Lv) m"
    using 1(2) rf(3) VP' by (simp add: vals_ok_def inj_on_def)
  then have "store_ok G Le Lk (insert p Lv) M u"
    using rf 1(3) run same_env_seed [OF run(3)] by (intro store_okI [of G "kv_seed s" B K]) simp_all
  moreover have "bytes_at m p (unat len) = bytes_at (kv_mem s) val (unat len)"
    using bytes_at_put [of "bytes_at (kv_mem s) val (unat len)" "kv_mem t" p] l64 by (simp add: m_def)
  ultimately show ?case using run t(2) oV blocks by (intro exI [of _ p] exI [of _ u]) (simp add: cfg_pools)
qed

lemma store_vals:
  assumes "store_ok G Le Lk Lv M s"
  shows "M k = Some v \<Longrightarrow> v \<in> Lv" "M k = Some v \<Longrightarrow> M k' = Some v \<Longrightarrow> k' = k"
proof -
  have *: "(M k = Some v \<longrightarrow> v \<in> Lv) \<and> (M k = Some v \<longrightarrow> M k' = Some v \<longrightarrow> k' = k)"
    using assms
  proof (rule store_okE, goal_cases)
    case (1 B K)
    have ex: "\<exists>e \<in> dict_entries (sg_N G) B. K e = l \<and> ld64 (kv_mem s) (de_val e) = v" if l: "M l = Some v" for l
    proof -
      obtain e where e: "e \<in> dict_entries (sg_N G) B" "K e = l" using 1(4) [of l] l by auto
      then show ?thesis using 1(5) [OF e(1)] l by auto
    qed
    show ?case using ex [of k] ex [of k'] 1(2) by (auto simp: vals_ok_def dest: inj_onD)
  qed
  show "M k = Some v \<Longrightarrow> v \<in> Lv" "M k = Some v \<Longrightarrow> M k' = Some v \<Longrightarrow> k' = k" using * by blast+
qed

lemma store_dict: "store_ok G Le Lk Lv M s \<Longrightarrow> ld (dw_d (sg_w G)) s = sg_d G"
  by (erule store_okE) (simp add: vals_ok_def cfg_pools field_pool_def ld_def)

lemma store_regions: "store_ok G Le Lk Lv M s \<Longrightarrow> span (sg_ka G) (24 + sg_kn G) \<inter> span (sg_va G) (24 + sg_vn G) = {}"
  by (erule store_okE) (simp add: dict_rep_def dict_geo_def cfg_pools)

lemma store_key_block:
  assumes "store_ok G Le Lk Lv M s" "p \<in> Lk"
  shows "span p (sg_ksz G) \<subseteq> span (sg_ka G) (24 + sg_kn G)"
  using assms(1)
proof (rule store_okE, goal_cases)
  case (1 B K)
  then show ?case using store.kp.pool_block [of G "kv_mem s" Lk p] assms(2) by (simp add: dict_rep_def cfg_pools)
qed

lemma store_val_block:
  assumes "store_ok G Le Lk Lv M s" "p \<in> Lv"
  shows "span p (sg_vsz G) \<subseteq> span (sg_va G) (24 + sg_vn G)"
  using assms(1)
proof (rule store_okE, goal_cases)
  case (1 B K)
  then show ?case using store.vp.pool_block [of G "kv_mem s" Lv p] assms(2) by (simp add: vals_ok_def cfg_pools vsz_cfg)
qed

lemma same_blocks_trans: "same_blocks L n m m' \<Longrightarrow> same_blocks L' n m' m'' \<Longrightarrow> same_blocks (L \<inter> L') n m m''"
  by (auto simp: same_blocks_def)

lemma same_blocks_bytes: "same_blocks L n m m' \<Longrightarrow> l \<in> L \<Longrightarrow> j \<le> n \<Longrightarrow> bytes_at m' l j = bytes_at m l j"
  using span_mono [of j n l] by (intro bytes_at_cong) (auto simp: same_blocks_def)

text \<open>The two successful outcomes of \<open>dictReplace\<close> in one statement.\<close>

lemma store_finite:
  assumes "store_ok G Le Lk Lv M s"
  shows "finite Le" "finite Lk" "finite Lv"
proof -
  have "finite Le \<and> finite Lk \<and> finite Lv"
    using assms
    by (rule store_okE)
      (auto simp: dict_rep_def vals_ok_def cfg_pools dest!: field.pool_card)
  then show "finite Le" "finite Lk" "finite Lv" by auto
qed

lemma replace_any:
  assumes ok: "store_ok G Le Lk Lv M s" and key: "is_str (kv_mem s) key k" "key \<in> Lk" "length k + 1 \<le> sg_ksz G"
    and room: "\<not> store_full G M s" "M k = None \<Longrightarrow> card Le < sg_en G div 24" and v: "v \<in> Lv" "v \<notin> ran M"
  obtains r t Le' Lv' where "dictReplace AllocDictType (sg_d G) key v s = Some (r, t)" "same_env s t"
      "store_ok G Le' Lk Lv' (M(k \<mapsto> v)) t" "same_blocks Lv' (sg_vsz G) (kv_mem s) (kv_mem t)"
      "Lv' = Lv - set_option (M k)" "card Le' = card Le + of_bool (M k = None)"
proof (cases "M k")
  case None
  obtain e t where "e \<notin> Le" "dictReplace AllocDictType (sg_d G) key v s = Some (1, t)" "same_env s t"
      "store_ok G (insert e Le) Lk Lv (M(k \<mapsto> v)) t" "same_blocks Lv (sg_vsz G) (kv_mem s) (kv_mem t)"
    using store_add_new [OF ok key None room(1) room(2) [OF None] v] by blast
  then show ?thesis using that None store_finite(1) [OF ok] by simp
next
  case (Some u)
  then show ?thesis using store_replace [OF ok key(1) Some room(1) v] that by auto
qed

lemma update_ok:
  assumes ok: "store_ok G Le Lk Lv M s" and key: "is_str (kv_mem s) key k" "length k + 1 \<le> sg_ksz G"
    and val: "is_str (kv_mem s) val vs" "length vs \<le> sg_vsz G"
    and src: "span key (length k + 1) \<inter> span (sg_ka G) (24 + sg_kn G) = {}"
      "span val (length vs + 1) \<inter> (span (sg_ka G) (24 + sg_kn G) \<union> span (sg_va G) (24 + sg_vn G)) = {}"
    and room: "card Lk < sg_kn G div sg_ksz G" "card Lv < sg_vn G div sg_vsz G" "\<not> store_full G M s"
      "M k = None \<Longrightarrow> card Le < sg_en G div 24"
  shows "\<exists>t v Le' Lk' Lv'. update (sg_w G) key val s = Some (0, t) \<and> same_env s t \<and> store_ok G Le' Lk' Lv' (M(k \<mapsto> v)) t \<and>
    card Le' = card Le + of_bool (M k = None) \<and> card Lk' = card Lk + 1 \<and> card Lv' = card Lv + of_bool (M k = None) \<and>
    bytes_at (kv_mem t) v (length vs) = vs \<and>
    (\<forall>k' v'. k' \<noteq> k \<longrightarrow> M k' = Some v' \<longrightarrow> same_blocks {v'} (sg_vsz G) (kv_mem s) (kv_mem t))"
proof -
  obtain p t1 where t1: "allocKey (sg_w G) key s = Some (p, t1)" "same_env s t1" "p \<notin> Lk" "store_ok G Le (insert p Lk) Lv M t1"
      "is_str (kv_mem t1) p k"
    and f1: "\<And>x. x \<notin> span (sg_ka G) (24 + sg_kn G) \<Longrightarrow> kv_mem t1 x = kv_mem s x"
    using allocKey_ok [OF ok key src(1) room(1)] by blast
  have v1: "is_str (kv_mem t1) val vs"
    using is_str_cong [of val vs "kv_mem s" "kv_mem t1"] val(1) src(2) f1 by (auto simp: disjoint_iff)
  have len: "length vs < 2 ^ 31" using val(1) by (simp add: is_str_def)
  then have ul: "unat (of_nat (length vs) :: u64) = length vs" by simp
  have "span val (length vs) \<inter> span (sg_va G) (24 + sg_vn G) = {}"
    using src(2) span_mono [of "length vs" "length vs + 1" val] by auto
  then obtain v t2 where t2: "allocVal (sg_w G) val (of_nat (length vs)) t1 = Some (v, t2)" "same_env t1 t2" "v \<notin> Lv"
      "store_ok G Le (insert p Lk) (insert v Lv) M t2" "bytes_at (kv_mem t2) v (length vs) = bytes_at (kv_mem t1) val (length vs)"
      "same_blocks Lv (sg_vsz G) (kv_mem t1) (kv_mem t2)"
    and f2: "\<And>x. x \<notin> span (sg_va G) (24 + sg_vn G) \<Longrightarrow> kv_mem t2 x = kv_mem t1 x"
    using allocVal_ok [OF t1(4), of val "of_nat (length vs)"] val(2) room(2) v1 unfolding ul by (auto simp: is_str_def)
  have bytes2: "bytes_at (kv_mem t2) v (length vs) = vs" using t2(5) v1 by (simp add: is_str_def)
  have "span p (length k + 1) \<inter> span (sg_va G) (24 + sg_vn G) = {}"
    using store_key_block [OF t1(4), of p] store_regions [OF ok] span_mono [OF key(2), of p] by auto
  then have k2: "is_str (kv_mem t2) p k"
    using is_str_cong [of p k "kv_mem t1" "kv_mem t2"] t1(5) f2 by (auto simp: disjoint_iff)
  have env: "same_env s t2" using same_env_trans [OF t1(2) t2(2)] .
  have vr: "v \<notin> ran M" using store_vals(1) [OF ok] t2(3) by (auto simp: ran_def)
  have full: "store_full G M t2 \<longleftrightarrow> store_full G M s" for M
    using env by (auto simp: store_full_def dict_full_def same_env_def dest: arg_cong [where f = kv_can_resize])
  have b1: "same_blocks Lv (sg_vsz G) (kv_mem s) (kv_mem t2)"
    unfolding same_blocks_def
  proof (intro ballI)
    fix l x
    assume l: "l \<in> Lv" "x \<in> span l (sg_vsz G)"
    then have "x \<notin> span (sg_ka G) (24 + sg_kn G)" using store_val_block [OF ok l(1)] store_regions [OF ok] by auto
    then show "kv_mem t2 x = kv_mem s x" using f1 [of x] t2(6) l by (simp add: same_blocks_def)
  qed
  have nf: "\<not> store_full G M t2" using full room(3) by simp
  obtain r t Le' Lv' where t: "dictReplace AllocDictType (sg_d G) p v t2 = Some (r, t)" "same_env t2 t"
      "store_ok G Le' (insert p Lk) Lv' (M(k \<mapsto> v)) t" "same_blocks Lv' (sg_vsz G) (kv_mem t2) (kv_mem t)"
      "Lv' = insert v Lv - set_option (M k)" "card Le' = card Le + of_bool (M k = None)"
    by (rule replace_any [OF t2(4) k2 insertI1 key(2) nf room(4) insertI1 vr])
  have run: "update (sg_w G) key val s = Some (0, t)"
    using t1(1) strlen_str [OF v1] t2(1) t(1) store_dict [OF t2(4)] by (simp add: update_def)
  have "v \<notin> set_option (M k)" using vr by (auto simp: ran_def)
  then have "v \<in> Lv'" using t(5) by simp
  from same_blocks_bytes [OF t(4) this val(2)] have bytes: "bytes_at (kv_mem t) v (length vs) = vs" using bytes2 by simp
  have "same_blocks {v'} (sg_vsz G) (kv_mem s) (kv_mem t)" if "k' \<noteq> k" "M k' = Some v'" for k' v'
  proof -
    have "v' \<in> Lv" using store_vals(1) [OF ok that(2)] .
    moreover have "v' \<notin> set_option (M k)" using store_vals(2) [OF ok that(2), of k] that(1) by auto
    ultimately have "{v'} \<subseteq> Lv \<inter> Lv'" using t(5) by auto
    then show ?thesis using same_blocks_trans [OF b1 t(4)] by (auto simp: same_blocks_def)
  qed
  moreover have "card (insert p Lk) = card Lk + 1" using t1(3) store_finite(2) [OF ok] by simp
  moreover have "card Lv' = card Lv + of_bool (M k = None)"
  proof (cases "M k")
    case (Some u)
    then have "u \<in> insert v Lv" using store_vals(1) [OF ok Some] by simp
    then show ?thesis using Some t(5) t2(3) store_finite(3) [OF ok] by simp
  qed (use t(5) t2(3) store_finite(3) [OF ok] in simp)
  ultimately show ?thesis using run same_env_trans [OF env t(2)] t(3,6) bytes by blast
qed

text \<open>Memory outside the store does not matter.\<close>

definition store_mem :: "store_geo \<Rightarrow> addr set" where
  "store_mem G = span (sg_d G) 96 \<union> span (sg_tbl G) (8 * sg_N G) \<union> span (sg_ea G) (24 + sg_en G) \<union>
     span (sg_ka G) (24 + sg_kn G) \<union> span (sg_va G) (24 + sg_vn G) \<union> span (sg_w G) 32"

lemma store_frame:
  assumes ok: "store_ok G Le Lk Lv M s" and fr: "\<And>x. x \<in> store_mem G \<Longrightarrow> m x = kv_mem s x"
  shows "store_ok G Le Lk Lv M (s\<lparr>kv_mem := m\<rparr>)"
  using ok
proof (rule store_okE, goal_cases)
  case (1 B K)
  have sub: "x \<in> store_mem G" if "x \<in> span (sg_d G) 96 \<union> span (sg_tbl G) (8 * sg_N G) \<union> c_ER (store_cfg G) \<union>
      c_KR (store_cfg G) \<union> c_VR (store_cfg G) \<union> c_aux (store_cfg G)" for x
    using that by (auto simp: store_mem_def store_cfg_def)
  have rf: "dict_rep (store_cfg G) (sg_w G) (sg_d G) (sg_tbl G) (sg_N G) (kv_seed s) B K Le Lk m"
    "dict_map (sg_N G) B K m = dict_map (sg_N G) B K (kv_mem s)"
    "\<And>e. e \<in> dict_entries (sg_N G) B \<Longrightarrow> ld64 m (de_val e) = ld64 (kv_mem s) (de_val e)"
    by (rule store.rep_frame [OF 1(1)]; use fr sub in blast)+
  have vp: "c_VP (store_cfg G) (kv_mem s) Lv" using 1(2) by (simp add: vals_ok_def)
  have "c_VP (store_cfg G) m Lv" by (rule store.vp.pool_local [OF vp], rule fr, rule sub) auto
  then have "vals_ok (store_cfg G) (dict_entries (sg_N G) B) Lv m" using 1(2) rf(3) by (simp add: vals_ok_def inj_on_def)
  then show ?case using rf 1(3) by (intro store_okI [of G "kv_seed s" B K]) simp_all
qed

text \<open>The key as \<open>get\<close> reads it: without a newline at the end.\<close>

definition chomp :: "u8 list \<Rightarrow> u8 list" where
  "chomp k = (if last k = 10 then butlast k else k)"

lemma get_ok:
  assumes ok: "store_ok G Le Lk Lv M s" and key: "is_str (kv_mem s) key k" "k \<noteq> []"
    and src: "span key (length k + 1) \<inter> store_mem G = {}"
  shows "\<exists>e t. get (sg_w G) key s = Some (e, t) \<and> store_ok G Le Lk Lv M t \<and>
    (case M (chomp k) of None \<Rightarrow> e = NULL | Some v \<Rightarrow> e \<noteq> NULL \<and> ld (de_val e) t = v) \<and>
    (\<forall>x \<in> store_mem G. kv_mem t x = kv_mem s x)"
proof -
  let ?m = "kv_mem s"
  define n where "n = length k - 1"
  have k: "length k + 1 < 2 ^ 31" "bytes_at ?m key (length k) = k" "0 \<notin> set k" "key \<noteq> NULL" "0 < length k"
    using key by (simp_all add: is_str_def)
  let ?l = "ucast (of_nat (length k) :: u64) :: u32"
  have "(ucast (of_nat (length k) :: u64) :: u32) = of_nat (length k)" by (rule bit_eqI) (simp add: bit_simps)
  then have ul: "unat ?l = length k" using k(1) by (simp add: unat_of_nat)
  then have "?l \<noteq> 0" using k(5) by (metis less_irrefl unat_0)
  then have "unat (?l - 1) = n" using ul by (simp add: unat_minus_one n_def)
  then have off: "scast (?l - 1) = (of_nat n :: u64)"
    using unat_scast_32 [of "?l - 1"] k(1) by (simp add: word_unat_eq_iff n_def)
  define p where "p = key + of_nat n"
  have pin: "p \<in> span key (length k + 1)" unfolding p_def span_def by (rule image_eqI [where x = n]) (auto simp: n_def)
  have pc: "?m p = last k" using k(2,5) nth_bytes_at [of n "length k" ?m key] by (simp add: p_def last_conv_nth n_def)
  define t where "t = (if ?m p = 10 then s\<lparr>kv_mem := ?m(p := 0)\<rparr> else s)"
  have fr: "kv_mem t x = ?m x" if "x \<in> store_mem G" for x using that src pin by (auto simp: t_def)
  have "store_ok G Le Lk Lv M (s\<lparr>kv_mem := ?m(p := 0)\<rparr>)"
    by (rule store_frame [OF ok]) (use src pin in auto)
  then have ok': "store_ok G Le Lk Lv M t" using ok by (simp add: t_def)
  have "is_str (kv_mem t) key (chomp k)"
  proof (cases "last k = 10")
    case True
    have "bytes_at (?m(p := 0)) key n = butlast k"
    proof (rule nth_equalityI)
      fix i assume i: "i < length (bytes_at (?m(p := 0)) key n)"
      then have "i < 2 ^ 64" "n < 2 ^ 64" "i \<noteq> n" using k(1) by (auto simp: n_def)
      then have "(of_nat i :: u64) \<noteq> of_nat n" by (metis unat_of_nat_small)
      then have "key + of_nat i \<noteq> p" unfolding p_def by (metis add_left_cancel)
      then show "bytes_at (?m(p := 0)) key n ! i = butlast k ! i"
        using i is_str_char [OF key(1), of i] by (simp add: nth_butlast n_def)
    qed (simp add: n_def)
    moreover have "length (butlast k) = n" "length (butlast k) \<le> length k" by (simp_all add: n_def)
    ultimately show ?thesis using True pc k in_set_butlastD [of 0 k]
      by (auto simp: chomp_def t_def is_str_def p_def [symmetric] simp del: length_butlast)
  next
    case False
    then show ?thesis using key(1) pc by (simp add: chomp_def t_def)
  qed
  from store_find [OF ok' this] obtain e where "dictFind AllocDictType (sg_d G) key t = Some (e, t)"
    "case M (chomp k) of None \<Rightarrow> e = NULL | Some v \<Rightarrow> e \<noteq> NULL \<and> ld (de_val e) t = v" by blast
  moreover have "get (sg_w G) key s = dictFind AllocDictType (sg_d G) key t"
    using strlen_str [OF key(1)] store_dict [OF ok'] unfolding t_def
    by (cases "?m p = 10") (simp_all add: get_def Let_def off p_def [symmetric])
  ultimately show ?thesis using ok' fr by auto
qed

text \<open>Looking a key up and reading its value, with the memory outside the store changed in between.\<close>

lemma get_then_read:
  assumes ok: "store_ok G Le Lk Lv M t" and m: "\<forall>x\<in>store_mem G. m x = kv_mem t x"
    and key: "is_str m key k" "k \<noteq> []" "span key (length k + 1) \<inter> store_mem G = {}"
    and v: "M (chomp k) = Some v" "n \<le> sg_vsz G"
  shows "\<exists>e u. get (sg_w G) key (t\<lparr>kv_mem := m\<rparr>) = Some (e, u) \<and> e \<noteq> NULL \<and>
    bytes_at (kv_mem u) (ld (de_val e) u) n = bytes_at (kv_mem t) v n"
proof -
  have ok': "store_ok G Le Lk Lv M (t\<lparr>kv_mem := m\<rparr>)" using m by (intro store_frame [OF ok]) simp
  obtain e u where u: "get (sg_w G) key (t\<lparr>kv_mem := m\<rparr>) = Some (e, u)" "e \<noteq> NULL" "ld (de_val e) u = v"
    "\<forall>x\<in>store_mem G. kv_mem u x = m x"
    using get_ok [OF ok' _ key(2,3)] key(1) v(1) by auto
  have "span v (sg_vsz G) \<subseteq> store_mem G"
    using store_val_block [OF ok store_vals(1) [OF ok v(1)]] by (auto simp: store_mem_def)
  then have "span v n \<subseteq> store_mem G" using span_mono [OF v(2), of v] by blast
  then have "bytes_at (kv_mem u) v n = bytes_at (kv_mem t) v n" using u(4) m by (intro bytes_at_cong) auto
  then show ?thesis using u by blast
qed

end
