(* ===== verification/Kv_Dict_Iter.thy ===== *)
theory Kv_Dict_Iter
  imports Kv_Dict
begin

text \<open>
  The traversals of \<open>apps/kvstore/dict.c\<close>: the iterator with its fingerprint, the samplers, the stateless
  cursor of \<open>dictScan\<close> and the statistics. An iterator is a block of its own on the heap (\<open>malloc\<close> is taken
  to succeed), so it is a record passed along; the callbacks of \<open>dictScan\<close> are functions on the state.
\<close>

section \<open>Fingerprint and iterators\<close>

text \<open>Arithmetic on \<open>long long\<close>: the right shifts are arithmetic.\<close>

definition fingerprint_step :: "u64 \<Rightarrow> u64 \<Rightarrow> u64" where
  "fingerprint_step n hash =
    (let hash = hash + n;
         hash = NOT hash + push_bit 21 hash;
         hash = hash XOR signed_drop_bit 24 hash;
         hash = (hash + push_bit 3 hash) + push_bit 8 hash;
         hash = hash XOR signed_drop_bit 14 hash;
         hash = (hash + push_bit 2 hash) + push_bit 4 hash;
         hash = hash XOR signed_drop_bit 28 hash
     in hash + push_bit 31 hash)"

definition dictFingerprint :: "addr \<Rightarrow> kv \<Rightarrow> u64" where
  "dictFingerprint d s =
    fold fingerprint_step
      [ld (ht_table (dict_ht0 d)) s, ld (ht_size (dict_ht0 d)) s, ld (ht_used (dict_ht0 d)) s,
       ld (ht_table (dict_ht1 d)) s, ld (ht_size (dict_ht1 d)) s, ld (ht_used (dict_ht1 d)) s] 0"

record dictIterator =
  it_d :: addr
  it_index :: int
  it_table :: nat
  it_safe :: bool
  it_entry :: addr
  it_nextEntry :: addr
  it_fingerprint :: u64

text \<open>\<open>fp\<close>: the field that \<open>malloc\<close> leaves uninitialised.\<close>

definition dictGetIterator :: "u64 \<Rightarrow> addr \<Rightarrow> dictIterator" where
  "dictGetIterator fp d =
    \<lparr>it_d = d, it_index = - 1, it_table = 0, it_safe = False, it_entry = NULL, it_nextEntry = NULL,
     it_fingerprint = fp\<rparr>"

definition dictGetSafeIterator :: "u64 \<Rightarrow> addr \<Rightarrow> dictIterator" where
  "dictGetSafeIterator fp d = (dictGetIterator fp d)\<lparr>it_safe := True\<rparr>"

definition it_ht :: "dictIterator \<Rightarrow> addr" where
  "it_ht it = (if it_table it = 0 then dict_ht0 (it_d it) else dict_ht1 (it_d it))"

definition it_start :: "dictIterator \<Rightarrow> kv \<Rightarrow> dictIterator \<times> kv" where
  "it_start it s =
    (if it_index it = - 1 \<and> it_table it = 0
     then if it_safe it then (it, st (dict_iterators (it_d it)) (ld (dict_iterators (it_d it)) s + 1) s)
          else (it\<lparr>it_fingerprint := dictFingerprint (it_d it) s\<rparr>, s)
     else (it, s))"

text \<open>The end of a round: an entry to return, or another round.\<close>

definition it_emit :: "dictIterator \<Rightarrow> kv \<Rightarrow> dictIterator" where
  "it_emit it s = it\<lparr>it_nextEntry := ld (de_next (it_entry it)) s\<rparr>"

partial_function (option) dictNext :: "dictIterator \<Rightarrow> kv \<Rightarrow> (addr \<times> dictIterator \<times> kv) option" where
  "dictNext it s =
    (if it_entry it = NULL
     then do {
       let h = it_ht it;
       let (it, s) = it_start it s;
       let it = it\<lparr>it_index := it_index it + 1\<rparr>;
       if it_index it \<ge> sint (ld (ht_size h) s)
       then if dictIsRehashing (it_d it) s \<and> it_table it = 0
            then do {
              let it = it\<lparr>it_table := it_table it + 1, it_index := 0\<rparr>;
              p \<leftarrow> slot (dict_ht1 (it_d it)) (of_int (it_index it)) s;
              let it = it\<lparr>it_entry := ld p s\<rparr>;
              if it_entry it \<noteq> NULL then Some (it_entry it, it_emit it s, s) else dictNext it s }
            else Some (NULL, it, s)
       else do {
         p \<leftarrow> slot h (of_int (it_index it)) s;
         let it = it\<lparr>it_entry := ld p s\<rparr>;
         if it_entry it \<noteq> NULL then Some (it_entry it, it_emit it s, s) else dictNext it s } }
     else do {
       let it = it\<lparr>it_entry := it_nextEntry it\<rparr>;
       if it_entry it \<noteq> NULL then Some (it_entry it, it_emit it s, s) else dictNext it s })"

definition dictReleaseIterator :: "dictIterator \<Rightarrow> kv \<Rightarrow> kv option" where
  "dictReleaseIterator it s =
    (if \<not> (it_index it = - 1 \<and> it_table it = 0)
     then if it_safe it then Some (st (dict_iterators (it_d it)) (ld (dict_iterators (it_d it)) s - 1) s)
          else if it_fingerprint it = dictFingerprint (it_d it) s then Some s
          else None
     else Some s)"

section \<open>Random samples\<close>

partial_function (option) random_bucket2 :: "addr \<Rightarrow> kv \<Rightarrow> (addr \<times> kv) option" where
  "random_bucket2 d s = do {
     let (r, s) = random s;
     let rh = ld (dict_rehashidx d) s;
     let h = (ucast (rh + r mod (ld (ht_size (dict_ht0 d)) s + ld (ht_size (dict_ht1 d)) s - rh)) :: u32);
     p \<leftarrow> (if ucast h \<ge> ld (ht_size (dict_ht0 d)) s
          then slot (dict_ht1 d) (ucast h - ld (ht_size (dict_ht0 d)) s) s
          else slot (dict_ht0 d) (ucast h) s);
     if ld p s = NULL then random_bucket2 d s else Some (ld p s, s) }"

partial_function (option) random_bucket1 :: "addr \<Rightarrow> kv \<Rightarrow> (addr \<times> kv) option" where
  "random_bucket1 d s = do {
     let (r, s) = random s;
     let h = (ucast (r AND ld (ht_sizemask (dict_ht0 d)) s) :: u32);
     p \<leftarrow> slot (dict_ht0 d) (ucast h) s;
     if ld p s = NULL then random_bucket1 d s else Some (ld p s, s) }"

partial_function (option) chain_length :: "addr \<Rightarrow> nat \<Rightarrow> kv \<Rightarrow> nat option" where
  "chain_length he n s = (if he = NULL then Some n else chain_length (ld (de_next he) s) (Suc n) s)"

fun chain_nth :: "addr \<Rightarrow> nat \<Rightarrow> kv \<Rightarrow> addr option" where
  "chain_nth he 0 s = Some he"
| "chain_nth he (Suc n) s = do { he \<leftarrow> deref he; chain_nth (ld (de_next he) s) n s }"

definition dictGetRandomKey :: "dictType \<Rightarrow> addr \<Rightarrow> kv \<Rightarrow> (addr \<times> kv) option" where
  "dictGetRandomKey ty d s =
    (if dictSize d s = 0 then Some (NULL, s)
     else do {
       s \<leftarrow> rehash_if_needed ty d s;
       (he, s) \<leftarrow> (if dictIsRehashing d s then random_bucket2 d s else random_bucket1 d s);
       listlen \<leftarrow> chain_length he 0 s;
       let (r, s) = random s;
       he \<leftarrow> chain_nth he (unat r mod listlen) s;
       Some (he, s) })"

text \<open>Up to \<open>count\<close> rehashing steps.\<close>

fun some_rehash :: "dictType \<Rightarrow> addr \<Rightarrow> nat \<Rightarrow> kv \<Rightarrow> kv option" where
  "some_rehash ty d 0 s = Some s"
| "some_rehash ty d (Suc n) s =
    (if dictIsRehashing d s then do { s \<leftarrow> p_dictRehashStep ty d s; some_rehash ty d n s } else Some s)"

text \<open>Storing the entries of a chain; \<open>Inl\<close> when \<open>count\<close> are stored.\<close>

partial_function (option) some_chain :: "addr \<Rightarrow> addr \<Rightarrow> u64 \<Rightarrow> u64 \<Rightarrow> kv \<Rightarrow> (u64 \<times> kv + addr \<times> u64 \<times> kv) option" where
  "some_chain he des stored count s =
    (if he = NULL then Some (Inr (des, stored, s))
     else do {
       let s = st des he s;
       let des = des + 8;
       let he = ld (de_next he) s;
       let stored = stored + 1;
       if stored = count then Some (Inl (stored, s)) else some_chain he des stored count s })"

text \<open>The loop over the tables: position \<open>i\<close>, the run of empty buckets, the output position, the count.\<close>

fun some_tables ::
  "addr \<Rightarrow> nat list \<Rightarrow> nat \<Rightarrow> u64 \<Rightarrow> u64 \<Rightarrow> u64 \<times> u64 \<times> addr \<times> u64 \<times> kv \<Rightarrow>
   (u64 \<times> kv + u64 \<times> u64 \<times> addr \<times> u64 \<times> kv) option" where
  "some_tables d [] tables maxsizemask count (i, emptylen, des, stored, s) = Some (Inr (i, emptylen, des, stored, s))"
| "some_tables d (j # js) tables maxsizemask count (i, emptylen, des, stored, s) =
    (let h = (if j = 0 then dict_ht0 d else dict_ht1 d)
     in if tables = 2 \<and> j = 0 \<and> i < ld (dict_rehashidx d) s
        then some_tables d js tables maxsizemask count
          (if i \<ge> ld (ht_size (dict_ht1 d)) s then ld (dict_rehashidx d) s else i, emptylen, des, stored, s)
        else if i \<ge> ld (ht_size h) s
        then some_tables d js tables maxsizemask count (i, emptylen, des, stored, s)
        else do {
          p \<leftarrow> slot h i s;
          let he = ld p s;
          if he = NULL
          then let emptylen = emptylen + 1
               in if emptylen \<ge> 5 \<and> emptylen > count
                  then let (r, s) = random s
                       in some_tables d js tables maxsizemask count (r AND maxsizemask, 0, des, stored, s)
                  else some_tables d js tables maxsizemask count (i, emptylen, des, stored, s)
          else do {
            r \<leftarrow> some_chain he des stored count s;
            case r of
              Inl x \<Rightarrow> Some (Inl x)
            | Inr (des, stored, s) \<Rightarrow> some_tables d js tables maxsizemask count (i, 0, des, stored, s) } })"

fun some_loop ::
  "addr \<Rightarrow> nat \<Rightarrow> u64 \<Rightarrow> u64 \<Rightarrow> nat \<Rightarrow> u64 \<times> u64 \<times> addr \<times> u64 \<times> kv \<Rightarrow> (u64 \<times> kv) option" where
  "some_loop d tables maxsizemask count 0 (i, emptylen, des, stored, s) = Some (stored, s)"
| "some_loop d tables maxsizemask count (Suc maxsteps) (i, emptylen, des, stored, s) =
    (if stored < count
     then do {
       r \<leftarrow> some_tables d [0..<tables] tables maxsizemask count (i, emptylen, des, stored, s);
       case r of
         Inl x \<Rightarrow> Some x
       | Inr (i, emptylen, des, stored, s) \<Rightarrow>
           some_loop d tables maxsizemask count maxsteps ((i + 1) AND maxsizemask, emptylen, des, stored, s) }
     else Some (stored, s))"

text \<open>\<open>count\<close> is an \<open>unsigned int\<close>, and so is the product \<open>count * 10\<close>.\<close>

definition dictGetSomeKeys :: "dictType \<Rightarrow> addr \<Rightarrow> addr \<Rightarrow> u32 \<Rightarrow> kv \<Rightarrow> (u32 \<times> kv) option" where
  "dictGetSomeKeys ty d des count s =
    (let count = (if dictSize d s < ucast count then ucast (dictSize d s) else count);
         maxsteps = count * 10
     in do {
       s \<leftarrow> some_rehash ty d (unat count) s;
       let tables = (if dictIsRehashing d s then 2 else 1);
       let mask0 = ld (ht_sizemask (dict_ht0 d)) s;
       let mask1 = ld (ht_sizemask (dict_ht1 d)) s;
       let maxsizemask = (if tables > 1 \<and> mask0 < mask1 then mask1 else mask0);
       let (r, s) = random s;
       (stored, s) \<leftarrow> some_loop d tables maxsizemask (ucast count) (unat maxsteps) (r AND maxsizemask, 0, des, 0, s);
       Some (ucast stored, s) })"

section \<open>The cursor\<close>

text \<open>\<open>while ((s >>= 1) > 0)\<close>, with the values of \<open>s\<close>: 32, 16, 8, 4, 2, 1.\<close>

fun rev_loop :: "nat list \<Rightarrow> u64 \<Rightarrow> u64 \<Rightarrow> u64" where
  "rev_loop [] msk v = v"
| "rev_loop (k # ks) msk v =
    (let msk = msk XOR push_bit k msk
     in rev_loop ks msk ((drop_bit k v AND msk) OR (push_bit k v AND NOT msk)))"

definition rev64 :: "u64 \<Rightarrow> u64" where
  "rev64 v = rev_loop [32, 16, 8, 4, 2, 1] (NOT 0) v"

type_synonym scan_fn = "addr \<Rightarrow> addr \<Rightarrow> kv \<Rightarrow> kv option"

partial_function (option) scan_chain :: "scan_fn \<Rightarrow> addr \<Rightarrow> addr \<Rightarrow> kv \<Rightarrow> kv option" where
  "scan_chain fn privdata de s =
    (if de = NULL then Some s
     else do {
       let nx = ld (de_next de) s;
       s \<leftarrow> fn privdata de s;
       scan_chain fn privdata nx s })"

text \<open>Emitting the entries of one bucket.\<close>

definition scan_bucket :: "scan_fn \<Rightarrow> scan_fn option \<Rightarrow> addr \<Rightarrow> addr \<Rightarrow> u64 \<Rightarrow> kv \<Rightarrow> kv option" where
  "scan_bucket fn bucketfn privdata h i s = do {
     p \<leftarrow> slot h i s;
     s \<leftarrow> (case bucketfn of Some f \<Rightarrow> f privdata p s | None \<Rightarrow> Some s);
     p \<leftarrow> slot h i s;
     scan_chain fn privdata (ld p s) s }"

partial_function (option) scan_expand ::
  "scan_fn \<Rightarrow> scan_fn option \<Rightarrow> addr \<Rightarrow> addr \<Rightarrow> u64 \<Rightarrow> u64 \<Rightarrow> u64 \<Rightarrow> kv \<Rightarrow> (u64 \<times> kv) option" where
  "scan_expand fn bucketfn privdata t1 m0 m1 v s = do {
     s \<leftarrow> scan_bucket fn bucketfn privdata t1 (v AND m1) s;
     let v = (((v OR m0) + 1) AND NOT m0) OR (v AND m0);
     if v AND (m0 XOR m1) \<noteq> 0 then scan_expand fn bucketfn privdata t1 m0 m1 v s else Some (v, s) }"

definition scan_next :: "u64 \<Rightarrow> u64 \<Rightarrow> u64" where
  "scan_next m0 v = rev64 (rev64 (v OR NOT m0) + 1)"

definition dictScan :: "addr \<Rightarrow> u64 \<Rightarrow> scan_fn \<Rightarrow> scan_fn option \<Rightarrow> addr \<Rightarrow> kv \<Rightarrow> (u64 \<times> kv) option" where
  "dictScan d v fn bucketfn privdata s =
    (if dictSize d s = 0 then Some (0, s)
     else if \<not> dictIsRehashing d s
     then do {
       let m0 = ld (ht_sizemask (dict_ht0 d)) s;
       s \<leftarrow> scan_bucket fn bucketfn privdata (dict_ht0 d) (v AND m0) s;
       Some (scan_next m0 v, s) }
     else do {
       let (t0, t1) = (if ld (ht_size (dict_ht0 d)) s > ld (ht_size (dict_ht1 d)) s
                       then (dict_ht1 d, dict_ht0 d) else (dict_ht0 d, dict_ht1 d));
       let m0 = ld (ht_sizemask t0) s;
       let m1 = ld (ht_sizemask t1) s;
       s \<leftarrow> scan_bucket fn bucketfn privdata t0 (v AND m0) s;
       (v, s) \<leftarrow> scan_expand fn bucketfn privdata t1 m0 m1 v s;
       Some (scan_next m0 v, s) })"

section \<open>Statistics\<close>

text \<open>The numbers that \<open>_dictGetStatsHt\<close> prints: occupied slots, longest chain, chained entries, histogram.\<close>

record dict_stats =
  ds_slots :: u64
  ds_maxchainlen :: u64
  ds_totchainlen :: u64
  ds_clvector :: "u64 list"

definition DICT_STATS_VECTLEN :: nat where "DICT_STATS_VECTLEN = 50"

definition bump :: "u64 list \<Rightarrow> nat \<Rightarrow> u64 list" where
  "bump xs i = xs[i := xs ! i + 1]"

definition stats_slot :: "addr \<Rightarrow> u64 \<Rightarrow> kv \<Rightarrow> dict_stats \<Rightarrow> dict_stats option" where
  "stats_slot h i s x = do {
     p \<leftarrow> slot h i s;
     if ld p s = NULL then Some (x\<lparr>ds_clvector := bump (ds_clvector x) 0\<rparr>)
     else do {
       n \<leftarrow> chain_length (ld p s) 0 s;
       let x = x\<lparr>ds_slots := ds_slots x + 1\<rparr>;
       let x = x\<lparr>ds_clvector := bump (ds_clvector x) (if n < DICT_STATS_VECTLEN then n else DICT_STATS_VECTLEN - 1)\<rparr>;
       let x = (if of_nat n > ds_maxchainlen x then x\<lparr>ds_maxchainlen := of_nat n\<rparr> else x);
       Some (x\<lparr>ds_totchainlen := ds_totchainlen x + of_nat n\<rparr>) } }"

fun stats_loop :: "addr \<Rightarrow> nat \<Rightarrow> u64 \<Rightarrow> kv \<Rightarrow> dict_stats \<Rightarrow> dict_stats option" where
  "stats_loop h 0 i s x = Some x"
| "stats_loop h (Suc n) i s x = do { x \<leftarrow> stats_slot h i s x; stats_loop h n (i + 1) s x }"

text \<open>\<open>Inl\<close> for the message on an empty table. The text itself, and its truncation to the buffer, are left out.\<close>

definition p_dictGetStatsHt :: "addr \<Rightarrow> kv \<Rightarrow> (unit + dict_stats) option" where
  "p_dictGetStatsHt h s =
    (if ld (ht_used h) s = 0 then Some (Inl ())
     else do {
       x \<leftarrow> stats_loop h (unat (ld (ht_size h) s)) 0 s
         \<lparr>ds_slots = 0, ds_maxchainlen = 0, ds_totchainlen = 0, ds_clvector = replicate DICT_STATS_VECTLEN 0\<rparr>;
       Some (Inr x) })"

end
