(* ===== verification/Kv_Bits.thy ===== *)
theory Kv_Bits
  imports Kv_Dict_Iter
begin

text \<open>
  The bit tricks of \<open>apps/kvstore/dict.c\<close>: \<open>_dictPrevPower\<close> rounds down to a power of two by smearing the
  highest bit, \<open>_dictNextPower\<close> rounds up by doubling, \<open>rev\<close> reverses the bits of a word, and the cursor of
  \<open>dictScan\<close> counts with reversed bits.
\<close>

section \<open>Rounding to powers of two\<close>

text \<open>Bit \<open>n\<close> of the result is set when one of the \<open>k\<close> bits of \<open>x\<close> from \<open>n\<close> on is.\<close>

definition smeared :: "nat \<Rightarrow> u64 \<Rightarrow> u64 \<Rightarrow> bool" where
  "smeared k x y \<longleftrightarrow> (\<forall>n. bit y n \<longleftrightarrow> (\<exists>i<k. bit x (n + i)))"

lemma smeared_one: "smeared 1 x x"
  by (simp add: smeared_def)

lemma smeared_step: "smeared k x y \<Longrightarrow> k' = k + k \<Longrightarrow> smeared k' x (y OR drop_bit k y)"
proof -
  assume y: "smeared k x y" and k': "k' = k + k"
  have "(\<exists>i<k. bit x (n + i)) \<or> (\<exists>i<k. bit x (n + k + i)) \<longleftrightarrow> (\<exists>i<k + k. bit x (n + i))" (is "?l \<longleftrightarrow> ?r") for n
  proof
    assume ?l
    then show ?r by (metis add.assoc add_less_cancel_left trans_less_add1)
  next
    assume ?r
    then obtain i where i: "i < k + k" "bit x (n + i)" by auto
    show ?l
    proof (cases "i < k")
      case False
      then have "i - k < k" "bit x (n + k + (i - k))" using i by simp_all
      then show ?thesis by blast
    qed (use i in blast)
  qed
  then show ?thesis using y by (simp add: k' smeared_def bit_simps add.commute)
qed

lemma smeared_top:
  assumes "smeared 64 x y" "bit x j" "\<And>i. j < i \<Longrightarrow> \<not> bit x i"
  shows "y = mask (Suc j)"
proof (rule bit_word_eqI)
  fix n
  assume n: "n < LENGTH(64)"
  have j: "j < 64" using assms(2) bit_imp_le_length by fastforce
  show "bit y n \<longleftrightarrow> bit (mask (Suc j) :: u64) n"
  proof
    assume "bit y n"
    then obtain i where "bit x (n + i)" using assms(1) by (auto simp: smeared_def)
    then have "n + i \<le> j" using assms(3) leI by blast
    then show "bit (mask (Suc j) :: u64) n" using n by (simp add: bit_mask_iff)
  next
    assume "bit (mask (Suc j) :: u64) n"
    then have "n \<le> j" by (simp add: bit_mask_iff)
    then have "j - n < 64" "bit x (n + (j - n))" using assms(2) j by auto
    then show "bit y n" using assms(1) unfolding smeared_def by blast
  qed
qed

lemma top_bit:
  assumes "(x :: u64) \<noteq> 0"
  shows "\<exists>j. bit x j \<and> (\<forall>i>j. \<not> bit x i) \<and> j < 64 \<and> 2 ^ j \<le> unat x \<and> unat x < 2 ^ Suc j"
proof -
  have fin: "finite {i. bit x i}" by (rule finite_subset [of _ "{..<64}"]) (auto dest: bit_imp_le_length)
  have ne: "{i. bit x i} \<noteq> {}" using assms by (auto simp: bit_eq_iff)
  define j where "j = Max {i. bit x i}"
  have j: "bit x j" "\<And>i. j < i \<Longrightarrow> \<not> bit x i"
    using Max_in [OF fin ne] Max_ge [OF fin] by (auto simp: j_def not_le [symmetric])
  have "take_bit (Suc j) x = x" by (rule bit_eqI) (use j(2) in \<open>auto simp: bit_simps not_less less_Suc_eq_le intro: leI\<close>)
  then have "take_bit (Suc j) (unat x) = unat x" by (metis unsigned_take_bit_eq)
  then have lt: "unat x < 2 ^ Suc j" by (metis take_bit_nat_less_exp)
  have "2 ^ j \<le> unat x"
  proof (rule ccontr)
    assume "\<not> 2 ^ j \<le> unat x"
    then have "take_bit j (unat x) = unat x" by (simp add: take_bit_nat_eq_self)
    then have "take_bit j x = x" by (metis unsigned_take_bit_eq word_unat_eq_iff)
    then have "\<not> bit x j" by (metis bit_take_bit_iff less_irrefl)
    then show False using j(1) by simp
  qed
  moreover have "j < 64" using j(1) bit_imp_le_length by fastforce
  ultimately show ?thesis using j lt by blast
qed

lemma prevPower:
  assumes "DICT_HT_INITIAL_SIZE \<le> x"
  obtains j where "p_dictPrevPower x = Some (2 ^ j)" "2 \<le> j" "j < 64" "2 ^ j \<le> unat x" "unat x < 2 * 2 ^ j"
proof -
  have x4: "4 \<le> unat x" using assms by (simp add: DICT_HT_INITIAL_SIZE_def word_le_nat_alt)
  then have "x \<noteq> 0" by auto
  then obtain j where j: "bit x j" "\<And>i. j < i \<Longrightarrow> \<not> bit x i" "j < 64" "2 ^ j \<le> unat x" "unat x < 2 ^ Suc j"
    using top_bit by blast
  define y where "y = (let y = x OR drop_bit 1 x; y = y OR drop_bit 2 y; y = y OR drop_bit 4 y; y = y OR drop_bit 8 y;
     y = y OR drop_bit 16 y in y OR drop_bit 32 y)"
  have "smeared 64 x y"
    unfolding y_def Let_def
    by (rule smeared_step [of 32], rule smeared_step [of 16], rule smeared_step [of 8], rule smeared_step [of 4],
        rule smeared_step [of 2], rule smeared_step [of 1], rule smeared_one) simp_all
  then have y: "y = mask (Suc j)" using j by (intro smeared_top)
  have "y - drop_bit 1 y = 2 ^ j"
  proof -
    have "drop_bit 1 (mask (Suc j) :: u64) = mask j"
      by (rule bit_word_eqI) (use j(3) in \<open>auto simp: bit_simps\<close>)
    then show ?thesis unfolding y by (simp add: mask_eq_exp_minus_1)
  qed
  moreover have "\<not> x < DICT_HT_INITIAL_SIZE" using assms by simp
  then have "p_dictPrevPower x = Some (y - drop_bit 1 y)"
    unfolding p_dictPrevPower_def y_def Let_def by (simp only: if_False)
  ultimately have "p_dictPrevPower x = Some (2 ^ j)" by simp
  moreover have "2 \<le> j"
  proof (rule ccontr)
    assume "\<not> 2 \<le> j"
    then have "(2::nat) ^ Suc j \<le> 2 ^ 2" by (intro power_increasing) auto
    then show False using x4 j(5) by simp
  qed
  ultimately show ?thesis using that j by simp
qed

section \<open>Reversing the bits of a word\<close>

lemma halves_parity:
  assumes "0 < (k::nat)"
  shows "even (n div (2 * k)) \<noteq> (k \<le> n \<and> even ((n - k) div (2 * k))) \<longleftrightarrow> even (n div k)"
proof -
  define q r where "q = n div (2 * k)" and "r = n mod (2 * k)"
  have n: "n = 2 * k * q + r" "r < 2 * k" using assms by (simp_all add: q_def r_def)
  show ?thesis
  proof (cases "r < k")
    case True
    have "n div k = 2 * q" using n True assms by (simp add: div_add1_eq mult.assoc) 
    moreover have "(n - k) div (2 * k) = q - 1" if "k \<le> n"
    proof -
      have "0 < q" using that n True by (cases q) auto
      then obtain p where "q = Suc p" by (cases q) auto
      then have "n - k = (r + k) + 2 * k * p" using n by (simp add: algebra_simps)
      then show ?thesis using True \<open>q = Suc p\<close> assms by simp
    qed
    moreover have "0 < q \<longleftrightarrow> k \<le> n" using n True by (cases q) auto
    ultimately show ?thesis unfolding q_def [symmetric] by (cases "q = 0") auto
  next
    case False
    then have "n - k = (r - k) + 2 * k * q" "k \<le> n" using n by auto
    moreover have "(r - k) div (2 * k) = 0" using n(2) by simp
    ultimately have "(n - k) div (2 * k) = q" using assms by simp
    moreover have "n div k = Suc (2 * q)"
    proof -
      have "n = (r - k) + k * Suc (2 * q)" "r - k < k" using n False by (auto simp: algebra_simps)
      then have "n div k = ((r - k) + k * Suc (2 * q)) div k" by (rule_tac arg_cong [where f = "\<lambda>x. x div k"]) 
      also have "\<dots> = Suc (2 * q) + (r - k) div k" using assms by (intro div_mult_self2) simp
      finally have "n div k = Suc (2 * q) + (r - k) div k" .
      then show ?thesis using \<open>r - k < k\<close> by simp
    qed
    ultimately show ?thesis using \<open>k \<le> n\<close> unfolding q_def [symmetric] by auto
  qed
qed

text \<open>The mask of a step: the blocks of \<open>k\<close> bits at even positions.\<close>

definition even_blocks :: "nat \<Rightarrow> u64 \<Rightarrow> bool" where
  "even_blocks k m \<longleftrightarrow> (\<forall>n<64. bit m n \<longleftrightarrow> even (n div k))"

lemma even_blocks_step: "even_blocks (2 * k) m \<Longrightarrow> 0 < k \<Longrightarrow> even_blocks k (m XOR push_bit k m)"
  unfolding even_blocks_def using halves_parity by (auto simp: bit_simps)

text \<open>Where a step takes bit \<open>n\<close> from.\<close>

definition swap_pos :: "nat \<Rightarrow> nat \<Rightarrow> nat" where
  "swap_pos k n = (if even (n div k) then n + k else n - k)"

lemma swap_step:
  assumes "even_blocks k m" "n < 64" "swap_pos k n < 64" "odd (n div k) \<Longrightarrow> k \<le> n"
  shows "bit ((drop_bit k v AND m) OR (push_bit k v AND NOT m)) n \<longleftrightarrow> bit (v :: u64) (swap_pos k n)"
  using assms unfolding even_blocks_def by (auto simp: bit_simps swap_pos_def add.commute)

lemma swap_pos_flip: "swap_pos (2 ^ j) n = flip_bit j n"
proof (cases "bit n j")
  case True
  then have "set_bit j (unset_bit j n) = n" by (intro bit_eqI) (auto simp: bit_simps)
  moreover have "set_bit j (unset_bit j n) = unset_bit j n + 2 ^ j" by (simp add: set_bit_eq bit_simps)
  ultimately have "n - 2 ^ j = unset_bit j n" by (metis add_diff_cancel_right')
  then show ?thesis using True by (simp add: swap_pos_def flip_bit_eq_if bit_iff_odd)
next
  case False
  then show ?thesis by (simp add: swap_pos_def flip_bit_eq_if set_bit_eq bit_iff_odd)
qed

lemma flip_small: "n < 2 ^ k \<Longrightarrow> j < k \<Longrightarrow> flip_bit j n < (2 ^ k :: nat)"
proof -
  assume "n < 2 ^ k" "j < k"
  then have "take_bit k (flip_bit j n) = flip_bit j n"
    by (metis (no_types, lifting) bit_eq_iff bit_flip_bit_iff bit_take_bit_iff take_bit_nat_eq_self)
  then show ?thesis by (metis take_bit_nat_less_exp)
qed

lemma swap_positions:
  assumes "n < 64" "j < 6"
  shows "swap_pos (2 ^ j) n < 64" "odd (n div 2 ^ j) \<Longrightarrow> 2 ^ j \<le> n"
  using flip_small [of n 6 j] assms by (simp_all add: swap_pos_flip) (metis div_less even_zero not_le)

lemma bit_flip_nat: "bit (flip_bit j (n :: nat)) i \<longleftrightarrow> (if i = j then \<not> bit n i else bit n i)"
  by (auto simp: bit_flip_bit_iff)

lemma swap_all:
  assumes "n < (64 :: nat)"
  shows "flip_bit 5 (flip_bit 4 (flip_bit 3 (flip_bit 2 (flip_bit 1 (flip_bit 0 n))))) = 63 - n"
proof -
  define x where "x = flip_bit 5 (flip_bit 4 (flip_bit 3 (flip_bit 2 (flip_bit 1 (flip_bit 0 n)))))"
  have t: "take_bit 6 n = n" using assms by (simp add: take_bit_nat_eq_self)
  have n: "i < 6" if "bit n i" for i
  proof -
    have "bit (take_bit 6 n) i" using that by (simp only: t)
    then show ?thesis by (simp add: bit_take_bit_iff)
  qed
  have b: "bit x i \<longleftrightarrow> (if i < 6 then \<not> bit n i else bit n i)" for i
  proof (cases "i < 6")
    case True
    then have "i \<in> {0, 1, 2, 3, 4, 5}" by auto
    then show ?thesis unfolding x_def bit_flip_nat using True by (elim insertE) (simp_all del: bit_0 One_nat_def)
  next
    case False
    then have "i \<noteq> 0" "i \<noteq> 1" "i \<noteq> 2" "i \<noteq> 3" "i \<noteq> 4" "i \<noteq> 5" by auto
    with False show ?thesis unfolding x_def bit_flip_nat by (simp only: if_False)
  qed
  have "x AND n = 0"
  proof (rule bit_eqI)
    fix i
    show "bit (x AND n) i \<longleftrightarrow> bit (0::nat) i" unfolding bit_and_iff b using n [of i] by (cases "i < 6") auto
  qed
  then have "x + n = x OR n" by (rule disjunctive_add_eq_or)
  also have "\<dots> = mask 6"
  proof (rule bit_eqI)
    fix i
    show "bit (x OR n) i \<longleftrightarrow> bit (mask 6 :: nat) i"
      unfolding bit_or_iff b bit_mask_iff using n [of i] by (cases "i < 6") auto
  qed
  finally show ?thesis unfolding x_def by (simp add: mask_eq_exp_minus_1)
qed

lemma rev64_bit:
  assumes "n < 64"
  shows "bit (rev64 v) n \<longleftrightarrow> bit v (63 - n)"
proof -
  define m32 :: u64 where "m32 = NOT 0 XOR push_bit 32 (NOT 0)"
  define m16 where "m16 = m32 XOR push_bit 16 m32"
  define m8 where "m8 = m16 XOR push_bit 8 m16"
  define m4 where "m4 = m8 XOR push_bit 4 m8"
  define m2 where "m2 = m4 XOR push_bit 2 m4"
  define m1 where "m1 = m2 XOR push_bit 1 m2"
  have e: "even_blocks 64 (NOT 0)" by (auto simp: even_blocks_def bit_simps)
  have m32: "even_blocks 32 m32" unfolding m32_def by (rule even_blocks_step) (use e in simp_all)
  have m16: "even_blocks 16 m16" unfolding m16_def by (rule even_blocks_step) (use m32 in simp_all)
  have m8: "even_blocks 8 m8" unfolding m8_def by (rule even_blocks_step) (use m16 in simp_all)
  have m4: "even_blocks 4 m4" unfolding m4_def by (rule even_blocks_step) (use m8 in simp_all)
  have m2: "even_blocks 2 m2" unfolding m2_def by (rule even_blocks_step) (use m4 in simp_all)
  have m1: "even_blocks 1 m1" unfolding m1_def by (rule even_blocks_step) (use m2 in simp_all)
  note m = m32 m16 m8 m4 m2 m1
  define step where "step k m v = (drop_bit k v AND m) OR (push_bit k v AND NOT m)" for k and m v :: u64
  have st: "bit (step k m v) i \<longleftrightarrow> bit v (flip_bit j i)" "flip_bit j i < 64"
    if "even_blocks k m" "i < 64" "k = 2 ^ j" "j < 6" for k m v i j
  proof -
    note sp = swap_positions [OF that(2,4)]
    show "bit (step k m v) i \<longleftrightarrow> bit v (flip_bit j i)"
      unfolding step_def that(3) swap_pos_flip [symmetric] using sp that by (intro swap_step) auto
    show "flip_bit j i < 64" using sp(1) by (simp only: swap_pos_flip)
  qed
  note s1 = st [OF m(6) assms, of 0] and s2 = st [OF m(5), of _ 1] and s3 = st [OF m(4), of _ 2]
    and s4 = st [OF m(3), of _ 3] and s5 = st [OF m(2), of _ 4] and s6 = st [OF m(1), of _ 5]
  have "rev64 v = step 1 m1 (step 2 m2 (step 4 m4 (step 8 m8 (step 16 m16 (step 32 m32 v)))))"
    unfolding rev64_def rev_loop.simps Let_def step_def m1_def m2_def m4_def m8_def m16_def m32_def by (rule refl)
  then show ?thesis
    using swap_all [OF assms] by (simp add: s1 s2 s3 s4 s5 s6 del: One_nat_def)
qed

lemma rev64_rev64 [simp]: "rev64 (rev64 v) = v"
  by (rule bit_word_eqI) (simp add: rev64_bit)

section \<open>The cursor of dictScan\<close>

text \<open>The cursor after \<open>i\<close> calls on a table of \<open>2 ^ j\<close> slots: the counter \<open>i\<close>, read backwards.\<close>

definition cursor :: "nat \<Rightarrow> nat \<Rightarrow> u64" where
  "cursor j i = rev64 (push_bit (64 - j) (of_nat i))"

lemma cursor_masked:
  assumes "j < 64"
  shows "cursor j i AND mask j = cursor j i"
  by (rule bit_word_eqI) (use assms in \<open>auto simp: cursor_def rev64_bit bit_simps\<close>)

lemma rev_or_mask:
  assumes "j < 64"
  shows "rev64 (cursor j i OR NOT (mask j)) = push_bit (64 - j) (of_nat i) OR mask (64 - j)"
  by (rule bit_word_eqI) (use assms in \<open>auto simp: cursor_def rev64_bit bit_simps\<close>)

lemma scan_next_cursor:
  assumes "j < 64"
  shows "scan_next (mask j) (cursor j i) = cursor j (Suc i)"
proof -
  have "push_bit (64 - j) (of_nat i :: u64) AND mask (64 - j) = 0"
    by (rule bit_word_eqI) (auto simp: bit_simps)
  then have "push_bit (64 - j) (of_nat i :: u64) OR mask (64 - j) = push_bit (64 - j) (of_nat i) + mask (64 - j)"
    by (rule disjunctive_add_eq_or [symmetric])
  also have "\<dots> + 1 = push_bit (64 - j) (of_nat (Suc i))"
    by (simp add: mask_eq_exp_minus_1 push_bit_eq_mult algebra_simps)
  finally show ?thesis by (simp add: scan_next_def cursor_def [of j "Suc i"] rev_or_mask [OF assms])
qed

lemma cursor_0: "cursor j 0 = 0"
  by (rule bit_word_eqI) (simp add: cursor_def rev64_bit)

lemma scan_iterate: "j < 64 \<Longrightarrow> (scan_next (mask j) ^^ i) 0 = cursor j i"
  by (induction i) (simp_all add: cursor_0 scan_next_cursor)

lemma push_of_nat:
  assumes "j < 64" "i < 2 ^ j"
  shows "unat (push_bit (64 - j) (of_nat i :: u64)) = i * 2 ^ (64 - j)"
proof -
  have "i * 2 ^ (64 - j) < 2 ^ j * 2 ^ (64 - j)" using assms by simp
  also have "\<dots> = (2::nat) ^ 64" using assms by (simp flip: power_add)
  finally have "i * 2 ^ (64 - j) < 2 ^ 64" .
  moreover have "push_bit (64 - j) (of_nat i :: u64) = of_nat (i * 2 ^ (64 - j))" by (simp add: push_bit_eq_mult)
  ultimately show ?thesis by (simp add: unat_of_nat take_bit_nat_eq_self del: of_nat_mult)
qed

lemma cursor_inj: "j < 64 \<Longrightarrow> inj_on (cursor j) {..<2 ^ j}"
proof (rule inj_onI)
  fix i k assume *: "j < 64" "i \<in> {..<2 ^ j}" "k \<in> {..<2 ^ j}" "cursor j i = cursor j k"
  then have "rev64 (cursor j i) = rev64 (cursor j k)" by simp
  then have "push_bit (64 - j) (of_nat i :: u64) = push_bit (64 - j) (of_nat k)" by (simp add: cursor_def)
  then have "i * 2 ^ (64 - j) = k * 2 ^ (64 - j)" using push_of_nat [of j i] push_of_nat [of j k] *(1-3) by (metis lessThan_iff)
  then show "i = k" by simp
qed

lemma cursor_less: "j < 64 \<Longrightarrow> unat (cursor j i) < 2 ^ j"
proof -
  assume j: "j < 64"
  have "unat (cursor j i) = unat (take_bit j (cursor j i))"
    using cursor_masked [OF j, of i] by (simp add: take_bit_eq_mask)
  also have "\<dots> = take_bit j (unat (cursor j i))" by (simp add: unsigned_take_bit_eq)
  finally show ?thesis by (metis take_bit_nat_less_exp)
qed

lemma cursor_bij: "j < 64 \<Longrightarrow> bij_betw (\<lambda>i. unat (cursor j i)) {..<2 ^ j} {..<2 ^ j}"
proof -
  assume j: "j < 64"
  have inj: "inj_on (\<lambda>i. unat (cursor j i)) {..<2 ^ j}"
    using cursor_inj [OF j] by (auto simp: inj_on_def word_unat_eq_iff)
  moreover have "(\<lambda>i. unat (cursor j i)) ` {..<2 ^ j} = {..<2 ^ j}"
    using cursor_less [OF j] card_image [OF inj] by (intro card_subset_eq) auto
  ultimately show ?thesis by (simp add: bij_betw_def)
qed

lemma cursor_wraps: "j < 64 \<Longrightarrow> cursor j (2 ^ j) = 0"
proof -
  assume "j < 64"
  then have "push_bit (64 - j) (2 ^ j :: u64) = 2 ^ 64" by (simp add: push_bit_eq_mult flip: power_add)
  also have "(2 ^ 64 :: u64) = 0" by simp
  finally show ?thesis using cursor_0 [of j] by (simp add: cursor_def)
qed

end
