(* ===== verification/Kv_Init.thy ===== *)
theory Kv_Init
  imports Kv_Store Kv_Bits
begin

text \<open>
  Setting up a store: \<open>initDictWrapper\<close> on four separate ranges of zeroed memory gives a store that holds the
  empty map. The table is the largest power of two of slots that fits.
\<close>

section \<open>Creating the dictionary\<close>

lemma dictCreate_header:
  assumes d: "d \<noteq> NULL" and len: "128 \<le> unat len"
  obtains j t where "dictCreate ty pd d len s = Some (d, t)" "same_env s t" "2 \<le> j" "j < 64"
    "2 ^ j \<le> (unat len - 96) div 8" "(unat len - 96) div 8 < 2 * 2 ^ j"
    "dict_header (kv_mem t) d pd (d + 96) (2 ^ j) 0" "ld64 (kv_mem t) (dict_iterators d) = 0"
    "\<And>x. x \<notin> span d 96 \<Longrightarrow> kv_mem t x = kv_mem s x"
proof -
  define n where "n = (len - 96) div 8"
  have "unat (len - 96) = unat len - 96" using len by (subst unat_sub) (auto simp: word_le_nat_alt)
  then have n: "unat n = (unat len - 96) div 8" by (simp add: n_def unat_div)
  then have n4: "DICT_HT_INITIAL_SIZE \<le> n" using len by (simp add: DICT_HT_INITIAL_SIZE_def word_le_nat_alt)
  obtain j where j: "p_dictPrevPower n = Some (2 ^ j)" "2 \<le> j" "j < 64" "2 ^ j \<le> unat n" "unat n < 2 * 2 ^ j"
    using prevPower [OF n4] by blast
  have "(2::nat) ^ 2 \<le> 2 ^ j" using j(2) by (intro power_increasing) auto
  moreover have "unat (of_nat (2 ^ j) :: u64) = 2 ^ j" using j(3) by (intro unat_of_nat_small power_strict_increasing) auto
  ultimately have uj: "4 \<le> unat (2 ^ j :: u64)" by simp
  then have big: "\<not> (2 ^ j :: u64) < DICT_HT_INITIAL_SIZE" by (simp add: DICT_HT_INITIAL_SIZE_def word_less_nat_alt)
  define t where "t = st (d + 40) 0 (st (d + 32) (2 ^ j - 1) (st (d + 24) (2 ^ j) (st (d + 16) (d + 96)
      (snd (p_dictInit d ty pd s)))))"
  have "\<not> len < sizeof_dict" "\<not> n < DICT_HT_INITIAL_SIZE"
    using len n4 by (auto simp: sizeof_dict_def word_less_nat_alt [of len])
  then have t: "dictCreate ty pd d len s = Some (d, t)"
    using j(1) big d unfolding dictCreate_def Let_def sizeof_dict_def n_def
    by (simp add: deref_def p_dictCreate_def dict_offsets t_def split_beta)
  have env: "same_env s t"
    by (simp add: t_def p_dictInit_def p_dictReset_def Let_def same_env_def st_def)
  have tm: "kv_mem t = st64 (st64 (st64 (st64 (kv_mem (snd (p_dictInit d ty pd s))) (d + 16) (d + 96)) (d + 24) (2 ^ j))
      (d + 32) (2 ^ j - 1)) (d + 40) 0" by (simp add: t_def st_def)
  have "dict_header (kv_mem t) d pd (d + 96) (2 ^ j) 0 \<and> ld64 (kv_mem t) (dict_iterators d) = 0"
    unfolding dict_header_def dict_offsets tm
    by (simp add: p_dictInit_def p_dictReset_def Let_def st_def dict_offsets)
  moreover have "kv_mem t x = kv_mem s x" if "x \<notin> span d 96" for x
  proof -
    have "x \<notin> span (d + k) 8" if "unat k + 8 \<le> 96" for k using span_subset [OF that, of d] \<open>x \<notin> span d 96\<close> by auto
    note o = this [of 0] this [of 8] this [of 16] this [of 24] this [of 32] this [of 40] this [of 48] this [of 56]
      this [of 64] this [of 72] this [of 80] this [of 88]
    show ?thesis unfolding tm using o by (simp add: p_dictInit_def p_dictReset_def Let_def st_def dict_offsets)
  qed
  ultimately show ?thesis using that [OF t env j(2,3)] j(4,5) unfolding n by blast
qed

section \<open>Setting up the store\<close>

text \<open>The arena of a pool: its allocator and \<open>len - 24\<close> bytes for blocks.\<close>

definition arena_ok :: "addr \<Rightarrow> u64 \<Rightarrow> nat \<Rightarrow> bool" where
  "arena_ok p len sz \<longleftrightarrow> p \<noteq> NULL \<and> sz + 24 \<le> unat len \<and> unat p + unat len < 2 ^ 63"

definition init_geo :: "addr \<Rightarrow> nat \<Rightarrow> addr \<Rightarrow> u64 \<Rightarrow> addr \<Rightarrow> u64 \<Rightarrow> u64 \<Rightarrow> addr \<Rightarrow> u64 \<Rightarrow> u64 \<Rightarrow> store_geo" where
  "init_geo space N es elen ks kl klen vs vl vlen =
    \<lparr>sg_w = space, sg_d = space + 32, sg_tbl = space + 128, sg_N = N, sg_ea = es, sg_en = unat elen - 24,
     sg_ka = ks, sg_ksz = max (unat kl) 16, sg_kn = unat klen - 24, sg_va = vs, sg_vsz = max (unat vl) 16,
     sg_vn = unat vlen - 24\<rparr>"

lemma arena_slab:
  assumes "arena_ok p len (max (unat ol) 16)"
  obtains t where "init_allocator p len ol s = Some (p, t)" "same_env s t"
    "slab p (max (unat ol) 16) (unat len - 24) (kv_mem t) {}"
    "\<And>x. x \<notin> span p (unat len) \<Longrightarrow> kv_mem t x = kv_mem s x"
  using init_slab [of len ol p s] assms by (auto simp: arena_ok_def)

lemma ld64_zero: "ld64 (\<lambda>_. 0) p = 0"
proof -
  have "horner_sum ucast 256 (map (\<lambda>i. 0 :: u8) xs) = (0 :: u64)" for xs :: "nat list" by (induction xs) simp_all
  then show ?thesis by (simp add: ld64_def)
qed

text \<open>A pool survives changes outside its arena.\<close>

lemma slab_keep:
  assumes "slab a sz n m L" "\<And>x. x \<in> span a (24 + n) \<Longrightarrow> m' x = m x"
  shows "slab a sz n m' L"
  by (rule slab_local [OF assms(1)]) (auto intro: assms(2) simp: slab_own_def)

lemma wrapper_word: "unat k + 8 \<le> 32 \<Longrightarrow> x \<notin> span w 32 \<Longrightarrow> x \<notin> span (w + k) 8"
  using span_subset [of k 8 32 w] by auto

text \<open>Storing an allocator in the wrapper and logging it.\<close>

definition set_field :: "addr \<Rightarrow> addr \<Rightarrow> kv \<Rightarrow> kv" where
  "set_field f a s = wrap_log_write (ld f (st f a s)) sizeof_Allocator (st f a s)"

lemma set_field_mem [simp]: "kv_mem (set_field f a s) = st64 (kv_mem s) f a" "same_env s (set_field f a s)"
  by (simp_all add: set_field_def st_def same_env_def wrap_log_write_def)

text \<open>The ranges the set-up writes.\<close>

lemma init_regions:
  assumes "160 \<le> unat len" "unat len < 2 ^ 63"
    "apart [span space (unat len), span es (unat elen), span ks (unat klen), span vs (unat vlen)]"
  shows "apart [span space 32, span (space + 32) 96, span (space + 128) (unat len - 128),
    span es (unat elen), span ks (unat klen), span vs (unat vlen)]"
proof -
  have "span space 32 \<subseteq> span space (unat len)" "span (space + 32) 96 \<subseteq> span space (unat len)"
    "span (space + 128) (unat len - 128) \<subseteq> span space (unat len)"
    using assms(1) by (intro span_mono span_subset; simp)+
  then have "span space 32 \<inter> X = {} \<and> span (space + 32) 96 \<inter> X = {} \<and> span (space + 128) (unat len - 128) \<inter> X = {}"
    if "span space (unat len) \<inter> X = {}" for X using that by blast
  moreover have "span space 32 \<inter> span (space + 32) 96 = {}" "span (space + 32) 96 \<inter> span (space + 128) (unat len - 128) = {}"
    "span space 32 \<inter> span (space + 128) (unat len - 128) = {}"
    using assms(1,2) by (intro span_add_disjoint span_add_disjoint_0; simp)+
  ultimately show ?thesis using assms(3) by simp
qed

lemma init_run:
  assumes sp: "space \<noteq> NULL" "160 \<le> unat len" "unat space + unat len < 2 ^ 63"
    and ar: "arena_ok es elen 24" "arena_ok ks klen (max (unat kl) 16)" "arena_ok vs vlen (max (unat vl) 16)"
    and W: "W = span space 32" and D: "D = span (space + 32) 96" and E: "E = span es (unat elen)"
    and K: "K = span ks (unat klen)" and V: "V = span vs (unat vlen)" and apart: "apart [W, D, E, K, V]"
  obtains j t where "initDictWrapper ty space len es elen ks kl klen vs vl vlen s = Some (space, t)" "same_env s t"
    "2 \<le> j" "2 ^ j \<le> (unat len - 128) div 8" "(unat len - 128) div 8 < 2 * 2 ^ j"
    "dict_header (kv_mem t) (space + 32) space (space + 128) (2 ^ j) 0"
    "ld64 (kv_mem t) space = es" "ld64 (kv_mem t) (space + 8) = ks" "ld64 (kv_mem t) (space + 16) = vs"
    "ld64 (kv_mem t) (space + 24) = space + 32"
    "slab es 24 (unat elen - 24) (kv_mem t) {}" "slab ks (max (unat kl) 16) (unat klen - 24) (kv_mem t) {}"
    "slab vs (max (unat vl) 16) (unat vlen - 24) (kv_mem t) {}"
    "\<And>x. x \<notin> W \<union> D \<union> E \<union> K \<union> V \<Longrightarrow> kv_mem t x = kv_mem s x"
proof -
  let ?s0 = "wrap_log_write space sizeof_dictWrapper s"
  obtain s1 where s1: "init_allocator es elen sizeof_dictEntry ?s0 = Some (es, s1)" "same_env ?s0 s1"
    "slab es 24 (unat elen - 24) (kv_mem s1) {}" "\<And>x. x \<notin> E \<Longrightarrow> kv_mem s1 x = kv_mem s x"
    unfolding E using arena_slab [of es elen sizeof_dictEntry ?s0] ar(1) by (auto simp: sizeof_dictEntry_def)
  define t1 where "t1 = set_field space es s1"
  obtain s2 where s2: "init_allocator ks klen kl t1 = Some (ks, s2)" "same_env t1 s2"
    "slab ks (max (unat kl) 16) (unat klen - 24) (kv_mem s2) {}" "\<And>x. x \<notin> K \<Longrightarrow> kv_mem s2 x = kv_mem t1 x"
    unfolding K using arena_slab [OF ar(2), of t1] by auto
  define t2 where "t2 = set_field (space + 8) ks s2"
  obtain s3 where s3: "init_allocator vs vlen vl t2 = Some (vs, s3)" "same_env t2 s3"
    "slab vs (max (unat vl) 16) (unat vlen - 24) (kv_mem s3) {}" "\<And>x. x \<notin> V \<Longrightarrow> kv_mem s3 x = kv_mem t2 x"
    unfolding V using arena_slab [OF ar(3), of t2] by auto
  define t3 where "t3 = set_field (space + 16) vs s3"
  have ul: "unat (len - 32) = unat len - 32" using sp(2) by (subst unat_sub) (auto simp: word_le_nat_alt)
  have "unat (space + 32) = unat space + 32" using sp by (simp add: unat_word_ariths)
  then have "space + 32 \<noteq> NULL" by (auto simp: unat_eq_zero)
  moreover have "128 \<le> unat (len - 32)" using sp(2) ul by simp
  ultimately have pre: "space + 32 \<noteq> NULL" "128 \<le> unat (len - 32)" .
  have e: "unat (len - 32) - 96 = unat len - 128" "space + 32 + 96 = space + 128" using ul by (simp_all add: add.assoc)
  obtain j t4 where t4: "dictCreate ty space (space + 32) (len - 32) t3 = Some (space + 32, t4)" "same_env t3 t4"
      "2 \<le> j" "j < 64" "2 ^ j \<le> (unat len - 128) div 8" "(unat len - 128) div 8 < 2 * 2 ^ j"
      "dict_header (kv_mem t4) (space + 32) space (space + 128) (2 ^ j) 0" "ld64 (kv_mem t4) (dict_iterators (space + 32)) = 0"
      "\<And>x. x \<notin> D \<Longrightarrow> kv_mem t4 x = kv_mem t3 x"
    by (rule dictCreate_header [OF pre, of ty space t3, unfolded e D [symmetric]]) (rule that)
  define t where "t = wrap_log_write (ld (space + 24) (st (space + 24) (space + 32) t4)) sizeof_dict (st (space + 24) (space + 32) t4)"
  have run: "initDictWrapper ty space len es elen ks kl klen vs vl vlen s = Some (space, t)"
    using sp(1) s1(1) s2(1) s3(1) t4(1)
    by (simp add: initDictWrapper_def Let_def deref_def wrapper_fields set_field_def [symmetric] t1_def t2_def t3_def t_def)
  have "same_env s s1" using same_env_trans [OF same_env_log s1(2)] .
  also have "same_env s1 t1" by (simp add: t1_def)
  also note s2(2)
  also have "same_env s2 t2" by (simp add: t2_def)
  also note s3(2)
  also have "same_env s3 t3" by (simp add: t3_def)
  also note t4(2)
  also have "same_env t4 t" unfolding t_def by (rule same_env_logged) simp
  finally have env: "same_env s t" .
  have tm: "kv_mem t = st64 (kv_mem t4) (space + 24) (space + 32)" by (simp add: t_def st_def)
  have "span (space + k) 8 \<subseteq> W" if "unat k + 8 \<le> 32" for k unfolding W by (rule span_subset [OF that])
  note ws = this [of 0, simplified] this [of 8, simplified] this [of 16, simplified] this [of 24, simplified]
  have wn: "x \<notin> span space 8" "x \<notin> span (space + 8) 8" "x \<notin> span (space + 16) 8" "x \<notin> span (space + 24) 8" if "x \<notin> W" for x
    using ws that by blast+
  have m3: "kv_mem t x = kv_mem s3 x" if "x \<notin> W" "x \<notin> D" for x
    using wn [OF that(1)] that(2) t4(9) [of x] by (simp add: tm t3_def)
  have m2: "kv_mem s3 x = kv_mem s2 x" if "x \<notin> W" "x \<notin> V" for x
    using wn [OF that(1)] that(2) s3(4) [of x] by (simp add: t2_def)
  have m1: "kv_mem s2 x = kv_mem s1 x" if "x \<notin> W" "x \<notin> K" for x
    using wn [OF that(1)] that(2) s2(4) [of x] by (simp add: t1_def)
  have ap: "W \<inter> D = {}" "W \<inter> E = {}" "W \<inter> K = {}" "W \<inter> V = {}" "D \<inter> E = {}" "D \<inter> K = {}" "D \<inter> V = {}"
    "E \<inter> K = {}" "E \<inter> V = {}" "K \<inter> V = {}" using apart by simp_all
  have in_w: "ld64 m' q = ld64 m q" if "span q 8 \<subseteq> W" "\<And>x. x \<in> W \<Longrightarrow> m' x = m x" for m m' q
    using that by (intro ld64_cong) auto
  have keep: "kv_mem t4 x = kv_mem t3 x" "kv_mem s3 x = kv_mem t2 x" "kv_mem s2 x = kv_mem t1 x" if "x \<in> W" for x
  proof -
    have "x \<notin> D" "x \<notin> V" "x \<notin> K" using that ap by blast+
    then show "kv_mem t4 x = kv_mem t3 x" "kv_mem s3 x = kv_mem t2 x" "kv_mem s2 x = kv_mem t1 x" using t4(9) s3(4) s2(4) by simp_all
  qed
  have "ld64 (kv_mem t4) q = ld64 (kv_mem t3) q" "ld64 (kv_mem s3) q = ld64 (kv_mem t2) q"
    "ld64 (kv_mem s2) q = ld64 (kv_mem t1) q" if "span q 8 \<subseteq> W" for q using in_w that keep by blast+
  then have fld: "ld64 (kv_mem t) space = es" "ld64 (kv_mem t) (space + 8) = ks" "ld64 (kv_mem t) (space + 16) = vs"
    "ld64 (kv_mem t) (space + 24) = space + 32"
    using ws by (simp_all add: tm t3_def t2_def t1_def)
  have hdr: "dict_header (kv_mem t) (space + 32) space (space + 128) (2 ^ j) 0"
    by (rule header_cong [OF _ t4(7)]) (use ap(1) wn(4) in \<open>auto simp: tm D disjoint_iff intro!: st64_outside\<close>)
  have arena: "span es (24 + (unat elen - 24)) = E" "span ks (24 + (unat klen - 24)) = K" "span vs (24 + (unat vlen - 24)) = V"
    using ar by (simp_all add: arena_ok_def E K V)
  have eq: "x \<in> E \<Longrightarrow> kv_mem t x = kv_mem s1 x" "x \<in> K \<Longrightarrow> kv_mem t x = kv_mem s2 x" "x \<in> V \<Longrightarrow> kv_mem t x = kv_mem s3 x" for x
  proof -
    have "x \<notin> W" "x \<notin> D" if "x \<in> E \<union> K \<union> V" using that ap by blast+
    moreover have "x \<in> E \<Longrightarrow> x \<notin> K" "x \<in> E \<Longrightarrow> x \<notin> V" "x \<in> K \<Longrightarrow> x \<notin> V" using ap by blast+
    ultimately show "x \<in> E \<Longrightarrow> kv_mem t x = kv_mem s1 x" "x \<in> K \<Longrightarrow> kv_mem t x = kv_mem s2 x" "x \<in> V \<Longrightarrow> kv_mem t x = kv_mem s3 x"
      using m3 m2 m1 by simp_all
  qed
  have "slab es 24 (unat elen - 24) (kv_mem t) {}" by (rule slab_keep [OF s1(3)]) (simp only: arena eq)
  moreover have "slab ks (max (unat kl) 16) (unat klen - 24) (kv_mem t) {}" by (rule slab_keep [OF s2(3)]) (simp only: arena eq)
  moreover have "slab vs (max (unat vl) 16) (unat vlen - 24) (kv_mem t) {}" by (rule slab_keep [OF s3(3)]) (simp only: arena eq)
  moreover have "kv_mem t x = kv_mem s x" if "x \<notin> W \<union> D \<union> E \<union> K \<union> V" for x
    using that m3 m2 m1 s1(4) by simp
  ultimately show ?thesis using that [OF run env t4(3,5,6) hdr fld] by blast
qed

lemma initDictWrapper_store:
  assumes sp: "space \<noteq> NULL" "160 \<le> unat len" "unat space + unat len < 2 ^ 63" "unat len < 2 ^ 35"
    and ar: "arena_ok es elen 24" "arena_ok ks klen (max (unat kl) 16)" "arena_ok vs vlen (max (unat vl) 16)"
    and apart: "apart [span space (unat len), span es (unat elen), span ks (unat klen), span vs (unat vlen)]"
    and zero: "\<forall>x \<in> span (space + 128) (unat len - 128). kv_mem s x = 0"
  shows "\<exists>j t. initDictWrapper ty space len es elen ks kl klen vs vl vlen s = Some (space, t) \<and> same_env s t \<and>
    2 ^ j \<le> (unat len - 128) div 8 \<and> (unat len - 128) div 8 < 2 * 2 ^ j \<and>
    store_ok (init_geo space (2 ^ j) es elen ks kl klen vs vl vlen) {} {} {} Map.empty t \<and>
    (\<forall>x. x \<notin> span space (unat len) \<union> span es (unat elen) \<union> span ks (unat klen) \<union> span vs (unat vlen) \<longrightarrow> kv_mem t x = kv_mem s x)"
proof -
  define W D T E K V where W: "W = span space 32" and D: "D = span (space + 32) 96" and T: "T = span (space + 128) (unat len - 128)"
    and E: "E = span es (unat elen)" and K: "K = span ks (unat klen)" and V: "V = span vs (unat vlen)"
  have "unat len < 2 ^ 63" using sp(3) by simp
  from init_regions [OF sp(2) this apart] have ap: "apart [W, D, T, E, K, V]" unfolding W D T E K V .
  then have "apart [W, D, E, K, V]" by simp
  then obtain j t where t: "initDictWrapper ty space len es elen ks kl klen vs vl vlen s = Some (space, t)" "same_env s t"
      "2 \<le> j" "2 ^ j \<le> (unat len - 128) div 8" "(unat len - 128) div 8 < 2 * 2 ^ j"
    and hdr: "dict_header (kv_mem t) (space + 32) space (space + 128) (2 ^ j) 0"
    and fld: "ld64 (kv_mem t) space = es" "ld64 (kv_mem t) (space + 8) = ks" "ld64 (kv_mem t) (space + 16) = vs"
      "ld64 (kv_mem t) (space + 24) = space + 32"
    and sl: "slab es 24 (unat elen - 24) (kv_mem t) {}" "slab ks (max (unat kl) 16) (unat klen - 24) (kv_mem t) {}"
      "slab vs (max (unat vl) 16) (unat vlen - 24) (kv_mem t) {}"
    and out: "\<And>x. x \<notin> W \<union> D \<union> E \<union> K \<union> V \<Longrightarrow> kv_mem t x = kv_mem s x"
    by (rule init_run [OF sp(1-3) ar W D E K V, of ty s]) (rule that)
  let ?G = "init_geo space (2 ^ j) es elen ks kl klen vs vl vlen"
  have arena: "span es (24 + (unat elen - 24)) = E" "span ks (24 + (unat klen - 24)) = K" "span vs (24 + (unat vlen - 24)) = V"
    using ar by (simp_all add: arena_ok_def E K V)
  have ws: "span space 8 \<subseteq> W" "span (space + 8) 8 \<subseteq> W" "span (space + 16) 8 \<subseteq> W"
    unfolding W by (intro span_mono span_subset; simp)+
  note cfg = store_cfg_def init_geo_def field_pool_def arena wrapper_fields W [symmetric]
  have pools: "c_EP (store_cfg ?G) (kv_mem t) {}" "c_KP (store_cfg ?G) (kv_mem t) {}" "c_VP (store_cfg ?G) (kv_mem t) {}"
    using fld ap ws sl by (simp_all add: cfg)
  have tbl: "span (space + 128) (8 * 2 ^ j) \<subseteq> T" unfolding T using t(4) by (intro span_mono) simp
  have j31: "j \<le> 31"
  proof (rule ccontr)
    assume "\<not> j \<le> 31"
    then have "(2::nat) ^ 32 \<le> 2 ^ j" by (intro power_increasing) auto
    then show False using t(4) sp(4) by simp
  qed
  have "unat (space + 128) = unat space + 128" "unat (space + 32) = unat space + 32" using sp by (simp_all add: unat_word_ariths)
  then have nn: "space + 128 \<noteq> NULL" "space + 32 \<noteq> NULL" by (auto simp: unat_eq_zero)
  have "span (space + 128) (8 * 2 ^ j) \<inter> X = {}" if "T \<inter> X = {}" for X using that tbl by blast
  then have "apart [D, span (space + 128) (8 * 2 ^ j), E, K, V, W]" using ap by (simp add: Int_commute)
  then have geo: "dict_geo (store_cfg ?G) (space + 32) (space + 128) (2 ^ j)"
    unfolding dict_geo_def using nn t(3) j31 by (simp add: cfg D [symmetric])
  have empty: "ld64 (kv_mem t) (bucket_addr (space + 128) i) = 0" if "i < 2 ^ j" for i
  proof -
    have "(2::nat) ^ j \<le> 2 ^ 31" using j31 by (intro power_increasing) auto
    then have "span (bucket_addr (space + 128) i) 8 \<subseteq> T" using bucket_span [OF that] tbl by blast
    moreover have "kv_mem t x = 0" if "x \<in> T" for x
    proof -
      have "T \<inter> W = {}" "T \<inter> D = {}" "T \<inter> E = {}" "T \<inter> K = {}" "T \<inter> V = {}" using ap by (simp_all add: Int_commute)
      then have "x \<notin> W \<union> D \<union> E \<union> K \<union> V" using that by blast
      then show ?thesis using out zero that by (simp add: T)
    qed
    ultimately have "ld64 (kv_mem t) (bucket_addr (space + 128) i) = ld64 (\<lambda>_. 0) (bucket_addr (space + 128) i)"
      by (intro ld64_cong) auto
    then show ?thesis by (simp add: ld64_zero)
  qed
  have "dict_rep (store_cfg ?G) space (space + 32) (space + 128) (2 ^ j) (kv_seed t) (\<lambda>_. []) (\<lambda>_. []) {} {} (kv_mem t)"
    unfolding dict_rep_def using geo hdr pools empty
    by (simp add: dict_count_def dict_entries_def bucket_ok_def members_ok_def)
  then have "store_ok ?G {} {} {} Map.empty t"
    using pools by (intro store_okI [of ?G "kv_seed t" "\<lambda>_. []" "\<lambda>_. []"])
      (simp_all add: init_geo_def dict_entries_def vals_ok_def dict_map_def fun_eq_iff)
  moreover have "W \<subseteq> span space (unat len)" "D \<subseteq> span space (unat len)"
    unfolding W D using sp(2) by (intro span_mono span_subset; simp)+
  then have "kv_mem t x = kv_mem s x" if "x \<notin> span space (unat len) \<union> E \<union> K \<union> V" for x
    using that by (intro out) blast
  ultimately show ?thesis using t unfolding E K V by blast
qed

end
