(* ===== verification/Kv_Examples.thy ===== *)
theory Kv_Examples
  imports Kv_Init
begin

text \<open>
  A small store for the examples: four slots, room for four entries, keys and values, set up by
  \<open>initDictWrapper\<close> on zeroed memory. The strings \<open>k\<close> and \<open>v\<close> lie outside it.
\<close>

definition shop_key :: addr where "shop_key = 0x5000"
definition shop_val :: addr where "shop_val = 0x6000"

definition shop0 :: kv where
  "shop0 = \<lparr>kv_mem = (\<lambda>_. 0)(shop_key := 107, shop_val := 118), kv_log = (\<lambda>_. 0), kv_seed = replicate 16 0,
     kv_can_resize = True, kv_no_log = False, kv_random = (\<lambda>_. 0), kv_clock = (\<lambda>_. 0)\<rparr>"

definition shop_geo :: store_geo where
  "shop_geo = init_geo 0x1000 4 0x2000 120 0x3000 16 88 0x4000 16 88"

lemma page_disjoint:
  "unat p + n < 2 ^ 64 \<Longrightarrow> unat q + l < 2 ^ 64 \<Longrightarrow> unat p + n \<le> unat q \<or> unat q + l \<le> unat p \<Longrightarrow> span p n \<inter> span q l = {}"
  by (auto simp: mem_span_unat)

lemma shop_arenas:
  "arena_ok 0x2000 120 24" "arena_ok 0x3000 88 (max (unat (16 :: u64)) 16)" "arena_ok 0x4000 88 (max (unat (16 :: u64)) 16)"
  by (simp_all add: arena_ok_def)

lemma shop_apart:
  "apart [span 0x1000 (unat (160 :: u64)), span 0x2000 (unat (120 :: u64)), span 0x3000 (unat (88 :: u64)), span 0x4000 (unat (88 :: u64))]"
  by (simp add: page_disjoint)

lemma shop_zero: "\<forall>x \<in> span (0x1000 + 128) (unat (160 :: u64) - 128). kv_mem shop0 x = 0"
  by (auto simp: shop0_def mem_span_unat shop_key_def shop_val_def)

lemma shop_init:
  "\<exists>t. initDictWrapper 0 0x1000 160 0x2000 120 0x3000 16 88 0x4000 16 88 shop0 = Some (0x1000, t) \<and> same_env shop0 t \<and>
    store_ok shop_geo {} {} {} Map.empty t \<and> is_str (kv_mem t) shop_key [107] \<and> is_str (kv_mem t) shop_val [118]"
proof -
  obtain j t where t: "initDictWrapper 0 0x1000 160 0x2000 120 0x3000 16 88 0x4000 16 88 shop0 = Some (0x1000, t)" "same_env shop0 t"
      "2 ^ j \<le> (unat (160 :: u64) - 128) div 8" "(unat (160 :: u64) - 128) div 8 < 2 * 2 ^ j"
      "store_ok (init_geo 0x1000 (2 ^ j) 0x2000 120 0x3000 16 88 0x4000 16 88) {} {} {} Map.empty t"
    and out: "\<forall>x. x \<notin> span 0x1000 (unat (160 :: u64)) \<union> span 0x2000 (unat (120 :: u64)) \<union> span 0x3000 (unat (88 :: u64)) \<union>
      span 0x4000 (unat (88 :: u64)) \<longrightarrow> kv_mem t x = kv_mem shop0 x"
    using initDictWrapper_store [OF _ _ _ _ shop_arenas shop_apart shop_zero, of 0] by auto
  have "(2::nat) ^ j = 4"
  proof -
    have "(2::nat) ^ j \<le> 2 ^ 2" "(2::nat) ^ 1 < 2 ^ j" using t(3,4) by simp_all
    then have "j \<le> 2" "1 < j" by (simp_all only: power_increasing_iff power_strict_increasing_iff)
    then have "j = 2" by simp
    then show ?thesis by simp
  qed
  then have "store_ok shop_geo {} {} {} Map.empty t" using t(5) by (simp add: shop_geo_def)
  moreover have "kv_mem t shop_key = 107" "kv_mem t (shop_key + 1) = 0" "kv_mem t shop_val = 118" "kv_mem t (shop_val + 1) = 0"
    using out by (simp_all add: mem_span_unat shop_key_def shop_val_def shop0_def)
  then have "is_str (kv_mem t) shop_key [107]" "is_str (kv_mem t) shop_val [118]"
    by (simp_all add: is_str_def bytes_at_def shop_key_def shop_val_def)
  ultimately show ?thesis using t(1,2) by blast
qed

text \<open>Strings of the caller, outside the store.\<close>

lemma shop_mem: "span shop_key n \<inter> store_mem shop_geo = {}" "span shop_val n \<inter> store_mem shop_geo = {}" if "n \<le> 16"
  using that by (simp_all add: store_mem_def shop_geo_def init_geo_def shop_key_def shop_val_def Int_Un_distrib page_disjoint)

lemma shop_fields:
  "sg_ksz shop_geo = 16" "sg_vsz shop_geo = 16" "sg_kn shop_geo = 64" "sg_vn shop_geo = 64" "sg_en shop_geo = 96"
  "sg_N shop_geo = 4" "sg_w shop_geo = 0x1000"
  by (simp_all add: shop_geo_def init_geo_def)

lemma shop_sources:
  assumes "n \<le> 16"
  shows "span shop_key n \<inter> span (sg_ka shop_geo) (24 + sg_kn shop_geo) = {}"
    "span shop_val n \<inter> (span (sg_ka shop_geo) (24 + sg_kn shop_geo) \<union> span (sg_va shop_geo) (24 + sg_vn shop_geo)) = {}"
  using shop_mem [OF assms] by (auto simp: store_mem_def)

lemma shop_place:
  assumes ok: "store_ok shop_geo Le Lk Lv M s" and "length k < 16" "length v < 16" "0 \<notin> set k" "0 \<notin> set v"
  obtains t where "store_ok shop_geo Le Lk Lv M t" "same_env s t" "is_str (kv_mem t) shop_key k" "is_str (kv_mem t) shop_val v"
proof -
  define m where "m = put_bytes (kv_mem s) shop_key (k @ [0])"
  define t where "t = s\<lparr>kv_mem := put_bytes m shop_val (v @ [0])\<rparr>"
  have v: "is_str (kv_mem t) shop_val v" using assms by (simp add: t_def shop_val_def is_str_put)
  have "is_str m shop_key k" using assms by (simp add: m_def shop_key_def is_str_put)
  moreover have "span shop_key (length k + 1) \<inter> span shop_val (length (v @ [0])) = {}"
    using assms by (simp add: page_disjoint shop_key_def shop_val_def)
  ultimately have k: "is_str (kv_mem t) shop_key k"
    using is_str_cong [of shop_key k m "kv_mem t"] assms by (simp add: t_def disjoint_iff)
  have "x \<notin> span shop_key (length (k @ [0]))" "x \<notin> span shop_val (length (v @ [0]))" if "x \<in> store_mem shop_geo" for x
    using shop_mem [of "length k + 1"] shop_mem [of "length v + 1"] that assms by auto
  then have "store_ok shop_geo Le Lk Lv M t"
    unfolding t_def using assms by (intro store_frame [OF ok]) (simp add: m_def)
  then show ?thesis using that k v by (simp add: t_def)
qed

lemma shop_put:
  assumes "store_ok shop_geo Le Lk Lv M s" "length k < 16" "0 \<notin> set k" "M k = None"
    and "card Le < 4" "card Lk < 4" "card Lv < 4" "card (dom M) < 4"
  obtains u t Le' Lk' Lv' where "store_ok shop_geo Le' Lk' Lv' (M(k \<mapsto> u)) t" "same_env s t"
    "card Le' = Suc (card Le)" "card Lk' = Suc (card Lk)" "card Lv' = Suc (card Lv)"
proof -
  obtain r where r: "store_ok shop_geo Le Lk Lv M r" "same_env s r" "is_str (kv_mem r) shop_key k" "is_str (kv_mem r) shop_val [118]"
    by (rule shop_place [OF assms(1), of k "[118]"]) (use assms in auto)
  have "span shop_key (length k + 1) \<inter> span (sg_ka shop_geo) (24 + sg_kn shop_geo) = {}"
    "span shop_val (length [118 :: u8] + 1) \<inter> (span (sg_ka shop_geo) (24 + sg_kn shop_geo) \<union> span (sg_va shop_geo) (24 + sg_vn shop_geo)) = {}"
    by (rule shop_sources, use assms(2) in simp)+
  then have "\<exists>t v Le' Lk' Lv'. update (sg_w shop_geo) shop_key shop_val r = Some (0, t) \<and> same_env r t \<and>
      store_ok shop_geo Le' Lk' Lv' (M(k \<mapsto> v)) t \<and>
      card Le' = card Le + of_bool (M k = None) \<and> card Lk' = card Lk + 1 \<and> card Lv' = card Lv + of_bool (M k = None)"
    using update_ok [OF r(1,3) _ r(4)] assms by (simp add: shop_fields store_full_def dict_full_def) blast
  then show ?thesis using that same_env_trans [OF r(2)] assms(4) by auto
qed

text \<open>A store with all its slots and entries in use.\<close>

lemma shop_filled:
  obtains Le Lk Lv M s where "store_ok shop_geo Le Lk Lv M s" "card Le = 4" "card (dom M) = 4" "kv_can_resize s"
    "M [5] = None" "\<exists>u. M [4] = Some u" "is_str (kv_mem s) shop_key [5]"
proof -
  obtain s0 where s0: "store_ok shop_geo {} {} {} Map.empty s0" "same_env shop0 s0" using shop_init by blast
  obtain u1 s1 Le1 Lk1 Lv1 where s1: "store_ok shop_geo Le1 Lk1 Lv1 (Map.empty([1] \<mapsto> u1)) s1" "same_env s0 s1"
    "card Le1 = 1" "card Lk1 = 1" "card Lv1 = 1"
    by (rule shop_put [OF s0(1), of "[1]"]) auto
  obtain u2 s2 Le2 Lk2 Lv2 where s2: "store_ok shop_geo Le2 Lk2 Lv2 (Map.empty([1] \<mapsto> u1, [2] \<mapsto> u2)) s2" "same_env s1 s2"
    "card Le2 = 2" "card Lk2 = 2" "card Lv2 = 2"
    by (rule shop_put [OF s1(1), of "[2]"]) (use s1 in auto)
  obtain u3 s3 Le3 Lk3 Lv3 where s3: "store_ok shop_geo Le3 Lk3 Lv3 (Map.empty([1] \<mapsto> u1, [2] \<mapsto> u2, [3] \<mapsto> u3)) s3" "same_env s2 s3"
    "card Le3 = 3" "card Lk3 = 3" "card Lv3 = 3"
    by (rule shop_put [OF s2(1), of "[3]"]) (use s2 in auto)
  obtain u4 s4 Le4 Lk4 Lv4 where s4: "store_ok shop_geo Le4 Lk4 Lv4 (Map.empty([1] \<mapsto> u1, [2] \<mapsto> u2, [3] \<mapsto> u3, [4] \<mapsto> u4)) s4"
    "same_env s3 s4" "card Le4 = 4"
    by (rule shop_put [OF s3(1), of "[4]"]) (use s3 in auto)
  obtain s where s: "store_ok shop_geo Le4 Lk4 Lv4 (Map.empty([1] \<mapsto> u1, [2] \<mapsto> u2, [3] \<mapsto> u3, [4] \<mapsto> u4)) s" "same_env s4 s"
    "is_str (kv_mem s) shop_key [5]"
    by (rule shop_place [OF s4(1), of "[5]" "[118]"]) auto
  have "same_env shop0 s" using s0(2) s1(2) s2(2) s3(2) s4(2) s(2) by (blast intro: same_env_trans)
  then have "kv_can_resize s" by (auto simp: same_env_def shop0_def dest: arg_cong [where f = kv_can_resize])
  then show ?thesis using that [OF s(1) s4(3) _ _ _ _ s(3)] by simp
qed

text \<open>A store that holds one key.\<close>

lemma shop_one:
  obtains Le Lk Lv u s where "store_ok shop_geo Le Lk Lv (Map.empty([107] \<mapsto> u)) s" "card Le = 1" "card Lk = 1" "card Lv = 1"
    "is_str (kv_mem s) shop_key [107]" "is_str (kv_mem s) shop_val [118]" "kv_can_resize s"
proof -
  obtain s0 where s0: "store_ok shop_geo {} {} {} Map.empty s0" "same_env shop0 s0" using shop_init by blast
  obtain u s1 Le Lk Lv where s1: "store_ok shop_geo Le Lk Lv (Map.empty([107] \<mapsto> u)) s1" "same_env s0 s1"
    "card Le = 1" "card Lk = 1" "card Lv = 1"
    by (rule shop_put [OF s0(1), of "[107]"]) auto
  obtain s where s: "store_ok shop_geo Le Lk Lv (Map.empty([107] \<mapsto> u)) s" "same_env s1 s"
    "is_str (kv_mem s) shop_key [107]" "is_str (kv_mem s) shop_val [118]"
    by (rule shop_place [OF s1(1), of "[107]" "[118]"]) auto
  have "same_env shop0 s" using s0(2) s1(2) s(2) by (blast intro: same_env_trans)
  then have "kv_can_resize s" by (auto simp: same_env_def shop0_def dest: arg_cong [where f = kv_can_resize])
  then show ?thesis using that [OF s(1) s1(3,4,5) s(3,4)] by simp
qed

end
