(* ===== verification/Kv_Alloc_Reuse.thy ===== *)
theory Kv_Alloc_Reuse
  imports Kv_Alloc
begin

text \<open>
  The free list is a stack: the block given back last is handed out next (\<open>free_allocator\<close> and
  \<open>alloc_allocator\<close> of apps/kvstore/alloc.c).
\<close>

text \<open>The two fields that the allocator reads lie outside every block.\<close>

lemma slab_fields_apart:
  assumes g: "slab_geo a sz n" and i: "i < n div sz"
  shows "span (al_head a) 8 \<inter> span (blk a sz i) sz = {}" "span (al_alloc_size a) 8 \<inter> span (blk a sz i) sz = {}"
  using mem_header [OF g, of 0 8] mem_header [OF g, of 16 8] mem_blk [OF g i] by (auto simp: alloc_fields)

lemma block_size_single:
  assumes "slab_geo a sz n"
  shows "\<not> (2 * of_nat sz \<le> (of_nat sz :: u64))"
proof -
  have sz: "2 * sz < 2 ^ 64" "sz < 2 ^ 64" "0 < sz" using assms by (auto simp: slab_geo_def)
  have "unat (of_nat (2 * sz) :: u64) = 2 * sz" using sz(1) by (rule unat_of_nat_small)
  moreover have "(of_nat (2 * sz) :: u64) = 2 * of_nat sz" by simp
  ultimately have "unat (2 * of_nat sz :: u64) = 2 * sz" by simp
  then show ?thesis using sz unat_of_nat_small [OF sz(2)] by (simp add: word_le_nat_alt)
qed

lemma free_alloc_same:
  assumes sl: "slab a sz n (kv_mem s) L" "l \<in> L" and run: "free_allocator a l s = Some t"
  shows "\<exists>u. alloc_allocator a t = Some (l, u)"
proof -
  have g: "slab_geo a sz n" and sz: "ld64 (kv_mem s) (al_alloc_size a) = of_nat sz" using sl(1) by (auto simp: slab_def)
  obtain i where i: "l = blk a sz i" "i < n div sz" using slab_live [OF sl] by blast
  have nn: "l \<noteq> NULL" "a \<noteq> NULL" using blk_not_null [OF g i(2)] i(1) g by (auto simp: slab_geo_def)
  have "16 \<le> sz" using g by (simp add: slab_geo_def)
  then have bs: "span (fn_size l) 8 \<subseteq> span l sz" "span (fn_next l) 8 \<subseteq> span l sz"
    using span_subset [of 8 8 sz l] span_mono [of 8 sz l] by (auto simp: alloc_fields)
  note hb = slab_fields_apart [OF g i(2), folded i(1)]
  have dj: "span (al_alloc_size a) 8 \<inter> span (al_head a) 8 = {}"
    "span (al_alloc_size a) 8 \<inter> span (fn_next l) 8 = {}" "span (al_alloc_size a) 8 \<inter> span (fn_size l) 8 = {}"
    "span (fn_size l) 8 \<inter> span (al_head a) 8 = {}"
    using hb bs span_add_disjoint [of 16 8 0 8 a] by (auto simp: alloc_fields)
  have t: "t = st (al_head a) l (st (fn_size l) (of_nat sz) (st (fn_next l) (ld (al_head a) s) s))"
    using run nn sz dj by (simp add: free_allocator_def deref_def ld_def st_def Let_def)
  have f: "ld (al_head a) t = l" "ld (fn_size l) t = of_nat sz" "ld (al_alloc_size a) t = of_nat sz"
    using dj sz by (simp_all add: t ld_def st_def)
  then show ?thesis using nn block_size_single [OF g] by (simp add: alloc_allocator_def deref_def Let_def)
qed

end
