(* ===== verification/Kv_Scan.thy ===== *)
theory Kv_Scan
  imports Kv_Store Kv_Bits
begin

text \<open>
  A complete scan: the loop that dict.c prescribes for \<open>dictScan\<close>, from cursor 0 until the cursor is 0
  again, on a store, with a callback that changes no memory. It ends, and it calls back for every entry
  exactly once, in the order of the reversed counter.
\<close>

partial_function (option) scan_all :: "addr \<Rightarrow> scan_fn \<Rightarrow> addr \<Rightarrow> u64 \<Rightarrow> kv \<Rightarrow> kv option" where
  "scan_all d fn privdata v s = do {
     (v, s) \<leftarrow> dictScan d v fn None privdata s;
     if v = 0 then Some s else scan_all d fn privdata v s }"

text \<open>A callback that returns and writes nothing.\<close>

definition quiet :: "scan_fn \<Rightarrow> addr \<Rightarrow> (addr \<Rightarrow> kv \<Rightarrow> kv) \<Rightarrow> bool" where
  "quiet fn privdata f \<longleftrightarrow> (\<forall>e s. fn privdata e s = Some (f e s) \<and> kv_mem (f e s) = kv_mem s)"

lemma quiet_fold: "quiet fn pd f \<Longrightarrow> kv_mem (fold f es s) = kv_mem s"
  by (induction es arbitrary: s) (simp_all add: quiet_def)

lemma scan_chain_fold:
  assumes "quiet fn pd f" "chain (kv_mem s) p xs"
  shows "scan_chain fn pd p s = Some (fold f xs s)"
  using assms(2)
proof (induction xs arbitrary: p s)
  case Nil
  then show ?case by (simp add: scan_chain.simps)
next
  case (Cons x xs)
  have "scan_chain fn pd (ld64 (kv_mem s) (de_next x)) (f x s) = Some (fold f xs (f x s))"
    using Cons assms(1) by (intro Cons.IH) (auto simp: quiet_def)
  then show ?case using Cons.prems assms(1) by (subst scan_chain.simps) (auto simp: quiet_def ld_def)
qed

lemma sizemask_mask: "j < 64 \<Longrightarrow> (of_nat (2 ^ j - 1) :: u64) = mask j"
  by (simp add: of_nat_diff mask_eq_exp_minus_1)

lemma dictScan_step:
  assumes q: "quiet fn pv f" and rep: "dict_rep C pd d tbl (2 ^ j) seed B K Le Lk (kv_mem s)"
    and j: "j < 64" and used: "dict_count (2 ^ j) B \<noteq> 0"
  shows "dictScan d (cursor j i) fn None pv s = Some (cursor j (Suc i), fold f (B (unat (cursor j i))) s)"
proof -
  have hd: "dict_header (kv_mem s) d pd tbl (2 ^ j) (dict_count (2 ^ j) B)" using rep by (simp add: dict_rep_def)
  have "(of_nat (dict_count (2 ^ j) B) :: u64) \<noteq> 0"
  proof -
    have "dict_count (2 ^ j) B < 2 ^ 64" using rep_count_small [OF rep] by simp
    then have "unat (of_nat (dict_count (2 ^ j) B) :: u64) \<noteq> 0" using used by (simp only: unat_of_nat_small simp_thms)
    then show ?thesis by (metis unat_0)
  qed
  then have open0: "dictSize d s \<noteq> 0" "\<not> dictIsRehashing d s"
    using hd by (simp_all add: dictSize_def dictIsRehashing_def dict_header_def ld_def)
  have m0: "ld (ht_sizemask (dict_ht0 d)) s = mask j"
    using hd sizemask_mask [OF j] by (simp add: dict_header_def ld_def)
  have lt: "unat (cursor j i) < 2 ^ j" by (rule cursor_less [OF j])
  have ch: "chain (kv_mem s) (ld64 (kv_mem s) (bucket_addr tbl (unat (cursor j i)))) (B (unat (cursor j i)))"
    using rep_bucket [OF rep lt] by (simp add: bucket_ok_def)
  have "scan_bucket fn None pv (dict_ht0 d) (cursor j i) s = Some (fold f (B (unat (cursor j i))) s)"
    using rep_slot [OF rep lt] scan_chain_fold [OF q ch] by (simp add: scan_bucket_def ld_def)
  then show ?thesis
    using open0 m0 cursor_masked [OF j, of i] scan_next_cursor [OF j, of i] by (simp add: dictScan_def)
qed

lemma cursor_again:
  assumes "j < 64" "i < 2 ^ j"
  shows "cursor j (Suc i) = 0 \<longleftrightarrow> Suc i = 2 ^ j"
proof
  assume z: "cursor j (Suc i) = 0"
  show "Suc i = 2 ^ j"
  proof (rule ccontr)
    assume "Suc i \<noteq> 2 ^ j"
    then have "Suc i \<in> {..<2 ^ j}" "0 \<in> {..<2 ^ j :: nat}" using assms(2) by auto
    then show False using inj_onD [OF cursor_inj [OF assms(1)], of "Suc i" 0] z cursor_0 [of j] by simp
  qed
qed (use cursor_wraps [OF assms(1)] in simp)

lemma scan_all_rep:
  assumes q: "quiet fn pv f" and rep: "dict_rep C pd d tbl (2 ^ j) seed B K Le Lk (kv_mem s)"
    and j: "j < 64" "i < 2 ^ j" and used: "dict_count (2 ^ j) B \<noteq> 0"
  shows "scan_all d fn pv (cursor j i) s = Some (fold f (concat (map (\<lambda>i. B (unat (cursor j i))) [i..<2 ^ j])) s)"
  using rep j(2)
proof (induction "2 ^ j - i" arbitrary: i s)
  case (Suc n)
  let ?s = "fold f (B (unat (cursor j i))) s"
  note step = dictScan_step [OF q Suc.prems(1) j(1) used, of i]
  show ?case
  proof (cases "Suc i = 2 ^ j")
    case True
    then have "[i..<2 ^ j] = [i]" by (metis upt_rec upt_conv_Nil lessI order_refl)
    then show ?thesis using step cursor_again [OF j(1) Suc.prems(2)] True by (subst scan_all.simps) simp
  next
    case False
    then have lt: "Suc i < 2 ^ j" using Suc.prems(2) by simp
    have "scan_all d fn pv (cursor j (Suc i)) ?s = Some (fold f (concat (map (\<lambda>i. B (unat (cursor j i))) [Suc i..<2 ^ j])) ?s)"
      using Suc.hyps Suc.prems lt by (intro Suc.hyps(1)) (simp_all add: quiet_fold [OF q])
    moreover have "[i..<2 ^ j] = i # [Suc i..<2 ^ j]" using Suc.prems(2) by (rule upt_conv_Cons)
    ultimately show ?thesis using step cursor_again [OF j(1) Suc.prems(2)] False by (subst scan_all.simps) simp
  qed
qed simp

text \<open>The buckets in the order of the cursor are the buckets in some order.\<close>

lemma distinct_buckets:
  assumes bij: "bij_betw g {..<n} {..<n :: nat}" and each: "\<And>i. i < n \<Longrightarrow> distinct (B i)"
    and apart: "\<And>i k. i < n \<Longrightarrow> k < n \<Longrightarrow> i \<noteq> k \<Longrightarrow> set (B i) \<inter> set (B k) = {}"
  shows "distinct (concat (map (\<lambda>i. B (g i)) [0..<n]))" "set (concat (map (\<lambda>i. B (g i)) [0..<n])) = dict_entries n B"
proof -
  have in_range: "g i < n" if "i < n" for i using bij_betwE [OF bij] that by blast
  have gi: "g i \<noteq> g k" if "i < n" "k < n" "i \<noteq> k" for i k using bij that by (auto simp: bij_betw_def dest: inj_onD)
  have "distinct (concat (map (\<lambda>i. B (g i)) [0..<k]))" if "k \<le> n" for k
    using that
  proof (induction k)
    case (Suc k)
    have "set (B (g i)) \<inter> set (B (g k)) = {}" if "i < k" for i
      using apart [of "g i" "g k"] in_range gi [of i k] that Suc.prems by simp
    then have "set (concat (map (\<lambda>i. B (g i)) [0..<k])) \<inter> set (B (g k)) = {}" by fastforce
    then show ?case using Suc each [OF in_range, of k] by auto
  qed simp
  then show "distinct (concat (map (\<lambda>i. B (g i)) [0..<n]))" by simp
  have "set (concat (map (\<lambda>i. B (g i)) [0..<n])) = (\<Union>i\<in>g ` {..<n}. set (B i))" by auto
  also have "g ` {..<n} = {..<n}" using bij by (simp add: bij_betw_def)
  finally show "set (concat (map (\<lambda>i. B (g i)) [0..<n])) = dict_entries n B" by (simp only: dict_entries_def)
qed

lemma store_scan:
  assumes "store_ok G Le Lk Lv M s" "quiet fn pv f" "M \<noteq> Map.empty"
  shows "\<exists>es. scan_all (sg_d G) fn pv 0 s = Some (fold f es s) \<and> distinct es \<and> length es = card (dom M) \<and>
    (\<forall>k u. M k = Some u \<longleftrightarrow> (\<exists>e\<in>set es. is_str (kv_mem s) (ld (de_key e) s) k \<and> ld (de_val e) s = u))"
  using assms(1)
proof (rule store_okE, goal_cases)
  case (1 B K)
  obtain j where j: "sg_N G = 2 ^ j" "j < 64" using 1(1) by (auto simp: dict_rep_def dict_geo_def)
  note rep = 1(1) [unfolded j(1)]
  have fin: "finite (dom M)" unfolding 1(3) dom_dict_map dict_entries_def by simp
  have cnt: "dict_count (2 ^ j) B = card (dom M)" using rep_count [OF rep] 1(3) j(1) by simp
  have mem: "members_ok (store_cfg G) (2 ^ j) (kv_seed s) K Le Lk (kv_mem s) i (B i)" if "i < 2 ^ j" for i
    using rep_bucket [OF rep that] by (simp add: bucket_ok_def)
  have each: "distinct (B i)" if "i < 2 ^ j" for i using mem [OF that] by (simp add: members_ok_def)
  have apart: "set (B i) \<inter> set (B k) = {}" if "i < 2 ^ j" "k < 2 ^ j" "i \<noteq> k" for i k
    using mem [OF that(1)] mem [OF that(2)] that(3) by (auto simp: members_ok_def)
  let ?es = "concat (map (\<lambda>i. B (unat (cursor j i))) [0..<2 ^ j])"
  have es: "distinct ?es" "set ?es = dict_entries (2 ^ j) B"
    using distinct_buckets [OF cursor_bij [OF j(2)], of B] each apart by blast+
  have "dict_count (2 ^ j) B \<noteq> 0" using cnt fin assms(3) by auto
  from scan_all_rep [OF assms(2) rep j(2) _ this, of 0]
  have run: "scan_all (sg_d G) fn pv 0 s = Some (fold f ?es s)" by (simp add: cursor_0)
  have inj: "inj_on K (dict_entries (2 ^ j) B)" using rep by (simp add: dict_rep_def)
  have len: "length ?es = card (dom M)"
    using es distinct_card [OF es(1)] card_image [OF inj] 1(3) j(1) by (simp add: dom_dict_map)
  have key: "is_str (kv_mem s) (ld (de_key e) s) (K e)" if "e \<in> set ?es" for e
    using that mem unfolding es(2) dict_entries_iff by (auto simp: members_ok_def ld_def)
  have val: "M (K e) = Some (ld (de_val e) s)" if "e \<in> set ?es" for e
    using 1(5) [of e] that unfolding es(2) by (simp add: j(1) ld_def)
  have "M k = Some u \<longleftrightarrow> (\<exists>e\<in>set ?es. is_str (kv_mem s) (ld (de_key e) s) k \<and> ld (de_val e) s = u)" for k u
  proof
    assume m: "M k = Some u"
    then have "k \<in> K ` set ?es" using 1(4) [of k] j(1) unfolding es(2) by auto
    then obtain e where "e \<in> set ?es" "k = K e" by blast
    then show "\<exists>e\<in>set ?es. is_str (kv_mem s) (ld (de_key e) s) k \<and> ld (de_val e) s = u"
      using key [of e] val [of e] m by auto
  next
    assume "\<exists>e\<in>set ?es. is_str (kv_mem s) (ld (de_key e) s) k \<and> ld (de_val e) s = u"
    then obtain e where e: "e \<in> set ?es" "is_str (kv_mem s) (ld (de_key e) s) k" "ld (de_val e) s = u" by blast
    have "K e = k" using store.content_unique [of G "kv_mem s" "ld (de_key e) s" "K e" k] key [OF e(1)] e(2) by simp
    then show "M k = Some u" using val [OF e(1)] e(3) by simp
  qed
  then show ?case using run es(1) len by (intro exI [of _ ?es]) blast
qed

end
