(* ===== verification/Cuckoo_Map.thy ===== *)
theory Cuckoo_Map
  imports Tasvir_Prelude "HOL-Library.Monad_Syntax"
begin

text \<open>
  \<open>apps/cuckoo-map/cuckoo_map.h\<close>: a hash table with cuckoo hashing that lives in one block of memory, and
  the stack of free entry indices it keeps there. The types \<open>K\<close> and \<open>V\<close> of the template are type
  variables; what the code needs of them is the record \<open>key_ops\<close>.

  The block holds the map, the stack header, the cells of the stack, the entries and the buckets, in this
  order. The stack has room for \<open>size_\<close> cells and uses the cells 1 to \<open>size_\<close>, so its last cell is the
  first word of the first entry. The model has that overlap: \<open>stck_get\<close> and \<open>stck_set\<close> go to the entry when the
  index is past the cells (\<open>K\<close> is taken to have at least four bytes, as it has in every instance of the
  template in the repository).
\<close>

section \<open>Data\<close>

type_synonym HashResult = u32
type_synonym EntryIndex = u32

text \<open>
  The template parameters: \<open>hasher(key)\<close>, \<open>eq(lhs, rhs)\<close>, the first four bytes of a key and a write to
  them, the zero key and value (\<open>memset\<close>, \<open>Entry()\<close>), and \<open>sizeof(Entry)\<close>.
\<close>

record ('k, 'v) key_ops =
  k_hash :: "'k \<Rightarrow> u64"
  k_eq :: "'k \<Rightarrow> 'k \<Rightarrow> bool"
  k_first :: "'k \<Rightarrow> u32"
  k_put :: "u32 \<Rightarrow> 'k \<Rightarrow> 'k"
  k_zero :: 'k
  v_zero :: 'v
  entry_bytes :: u64

text \<open>What \<open>M()(address, size)\<close> marks as written.\<close>

datatype mark = Mark_estack | Mark_head | Mark_stck nat | Mark_cells | Mark_bucket nat | Mark_entry nat | Mark_num | Mark_this | Mark_all

record Bucket =
  hash_values :: "HashResult list"
  entry_indices :: "EntryIndex list"

record ('k, 'v) CuckooMap =
  bucket_mask :: HashResult
  num_entries :: u64
  alloc_num_buckets :: int
  alloc_num_entries :: int
  es_head :: nat
  es_size :: nat
  es_stck :: "EntryIndex list"
  cm_buckets :: "Bucket list"
  cm_entries :: "('k \<times> 'v) list"
  cm_marks :: "mark set"

definition M_mark :: "mark \<Rightarrow> ('k, 'v) CuckooMap \<Rightarrow> ('k, 'v) CuckooMap" where
  "M_mark m s = s\<lparr>cm_marks := insert m (cm_marks s)\<rparr>"

definition kEntriesPerBucket :: nat where "kEntriesPerBucket = 4"
definition kMaxCuckooPath :: nat where "kMaxCuckooPath = 3"
definition kInvalidEntryIdx :: EntryIndex where "kInvalidEntryIdx = - 1"

section \<open>The stack of free entries\<close>

definition stck_get :: "('k, 'v) key_ops \<Rightarrow> nat \<Rightarrow> ('k, 'v) CuckooMap \<Rightarrow> EntryIndex" where
  "stck_get K j s = (if j < length (es_stck s) then es_stck s ! j else k_first K (fst (cm_entries s ! 0)))"

definition stck_set :: "('k, 'v) key_ops \<Rightarrow> nat \<Rightarrow> EntryIndex \<Rightarrow> ('k, 'v) CuckooMap \<Rightarrow> ('k, 'v) CuckooMap" where
  "stck_set K j e s =
    (if j < length (es_stck s) then s\<lparr>es_stck := (es_stck s)[j := e]\<rparr>
     else s\<lparr>cm_entries := (cm_entries s)[0 := (k_put K e (fst (cm_entries s ! 0)), snd (cm_entries s ! 0))]\<rparr>)"

definition BytesForEntries :: "u64 \<Rightarrow> u64" where
  "BytesForEntries n = 24 + n * 4"

definition EntryStack_Create :: "u64 \<Rightarrow> u64 \<Rightarrow> ('k, 'v) CuckooMap \<Rightarrow> ('k, 'v) CuckooMap option" where
  "EntryStack_Create area_size n s =
    (if area_size < BytesForEntries n then None else Some (M_mark Mark_estack (s\<lparr>es_head := 0, es_size := unat n\<rparr>)))"

definition PushNoLog :: "('k, 'v) key_ops \<Rightarrow> EntryIndex \<Rightarrow> ('k, 'v) CuckooMap \<Rightarrow> int \<times> ('k, 'v) CuckooMap" where
  "PushNoLog K entry s =
    (if es_head s \<ge> es_size s then (0, s)
     else let s = s\<lparr>es_head := es_head s + 1\<rparr> in (1, stck_set K (es_head s) entry s))"

definition Push :: "('k, 'v) key_ops \<Rightarrow> EntryIndex \<Rightarrow> ('k, 'v) CuckooMap \<Rightarrow> int \<times> ('k, 'v) CuckooMap" where
  "Push K entry s =
    (if es_head s \<ge> es_size s then (0, s)
     else let s = s\<lparr>es_head := es_head s + 1\<rparr>; s = stck_set K (es_head s) entry s
          in (1, M_mark Mark_head (M_mark (Mark_stck (es_head s)) s)))"

definition InvalidateStack :: "('k, 'v) CuckooMap \<Rightarrow> ('k, 'v) CuckooMap" where
  "InvalidateStack s = M_mark Mark_cells (M_mark Mark_head s)"

definition Top :: "('k, 'v) key_ops \<Rightarrow> ('k, 'v) CuckooMap \<Rightarrow> EntryIndex" where
  "Top K s = stck_get K (es_head s) s"

definition Pop :: "('k, 'v) CuckooMap \<Rightarrow> int \<times> ('k, 'v) CuckooMap" where
  "Pop s = (if es_head s = 0 then (0, s) else (1, M_mark Mark_head (s\<lparr>es_head := es_head s - 1\<rparr>)))"

definition EntryStack_Clear :: "('k, 'v) CuckooMap \<Rightarrow> ('k, 'v) CuckooMap" where
  "EntryStack_Clear s = M_mark Mark_head (s\<lparr>es_head := 0\<rparr>)"

definition EntryStack_Empty :: "('k, 'v) CuckooMap \<Rightarrow> bool" where
  "EntryStack_Empty s \<longleftrightarrow> es_head s = 0"

section \<open>Hashes and slots\<close>

definition HashSecondary :: "HashResult \<Rightarrow> HashResult" where
  "HashSecondary primary = (let tag = drop_bit 12 primary in primary XOR ((tag + 1) * 0x5bd1e995))"

definition Hash :: "('k, 'v) key_ops \<Rightarrow> 'k \<Rightarrow> HashResult" where
  "Hash K key = ucast (k_hash K key OR push_bit 31 1)"

definition Eq :: "('k, 'v) key_ops \<Rightarrow> 'k \<Rightarrow> 'k \<Rightarrow> bool" where
  "Eq K lhs rhs = k_eq K lhs rhs"

text \<open>The loops over the slots of a bucket return the first index that fits, or -1.\<close>

definition first_slot :: "(nat \<Rightarrow> bool) \<Rightarrow> int" where
  "first_slot P = (case find P [0..<kEntriesPerBucket] of None \<Rightarrow> - 1 | Some i \<Rightarrow> int i)"

definition FindEmptySlot :: "Bucket \<Rightarrow> int" where
  "FindEmptySlot bucket = first_slot (\<lambda>i. hash_values bucket ! i = 0)"

definition FindSlot :: "('k, 'v) key_ops \<Rightarrow> Bucket \<Rightarrow> HashResult \<Rightarrow> 'k \<Rightarrow> ('k, 'v) CuckooMap \<Rightarrow> int" where
  "FindSlot K bucket primary key s =
    first_slot (\<lambda>i. hash_values bucket ! i = primary \<and> Eq K (fst (cm_entries s ! unat (entry_indices bucket ! i))) key)"

definition bucket_at :: "HashResult \<Rightarrow> ('k, 'v) CuckooMap \<Rightarrow> Bucket" where
  "bucket_at i s = cm_buckets s ! unat i"

definition upd_bucket :: "HashResult \<Rightarrow> (Bucket \<Rightarrow> Bucket) \<Rightarrow> ('k, 'v) CuckooMap \<Rightarrow> ('k, 'v) CuckooMap" where
  "upd_bucket i f s = s\<lparr>cm_buckets := (cm_buckets s)[unat i := f (cm_buckets s ! unat i)]\<rparr>"

definition set_hash :: "nat \<Rightarrow> HashResult \<Rightarrow> Bucket \<Rightarrow> Bucket" where
  "set_hash j h b = b\<lparr>hash_values := (hash_values b)[j := h]\<rparr>"

definition set_index :: "nat \<Rightarrow> EntryIndex \<Rightarrow> Bucket \<Rightarrow> Bucket" where
  "set_index j e b = b\<lparr>entry_indices := (entry_indices b)[j := e]\<rparr>"

definition set_entry :: "EntryIndex \<Rightarrow> 'k \<times> 'v \<Rightarrow> ('k, 'v) CuckooMap \<Rightarrow> ('k, 'v) CuckooMap" where
  "set_entry e kv s = s\<lparr>cm_entries := (cm_entries s)[unat e := kv]\<rparr>"

section \<open>Looking up\<close>

definition GetFromBucket :: "('k, 'v) key_ops \<Rightarrow> HashResult \<Rightarrow> HashResult \<Rightarrow> 'k \<Rightarrow> ('k, 'v) CuckooMap \<Rightarrow> EntryIndex" where
  "GetFromBucket K primary bucket_idx key s =
    (let bucket = bucket_at bucket_idx s; slot_idx = FindSlot K bucket primary key s
     in if slot_idx = - 1 then kInvalidEntryIdx else entry_indices bucket ! nat slot_idx)"

definition FindWithHash :: "('k, 'v) key_ops \<Rightarrow> HashResult \<Rightarrow> 'k \<Rightarrow> ('k, 'v) CuckooMap \<Rightarrow> EntryIndex" where
  "FindWithHash K primary key s =
    (let ret = GetFromBucket K primary (primary AND bucket_mask s) key s
     in if ret \<noteq> kInvalidEntryIdx then ret
        else GetFromBucket K primary (HashSecondary primary AND bucket_mask s) key s)"

text \<open>A pointer to an entry is its index; the null pointer is \<open>None\<close>.\<close>

definition Find :: "('k, 'v) key_ops \<Rightarrow> 'k \<Rightarrow> ('k, 'v) CuckooMap \<Rightarrow> EntryIndex option" where
  "Find K key s = (let idx = FindWithHash K (Hash K key) key s in if idx = kInvalidEntryIdx then None else Some idx)"

section \<open>Adding\<close>

definition PushFreeEntryIndex :: "('k, 'v) key_ops \<Rightarrow> EntryIndex \<Rightarrow> ('k, 'v) CuckooMap \<Rightarrow> ('k, 'v) CuckooMap" where
  "PushFreeEntryIndex K idx s = snd (Push K idx s)"

definition PopFreeEntryIndex :: "('k, 'v) key_ops \<Rightarrow> ('k, 'v) CuckooMap \<Rightarrow> EntryIndex \<times> ('k, 'v) CuckooMap" where
  "PopFreeEntryIndex K s =
    (if EntryStack_Empty s then (kInvalidEntryIdx, s) else let idx = Top K s in (idx, snd (Pop s)))"

definition AddToBucket ::
  "('k, 'v) key_ops \<Rightarrow> HashResult \<Rightarrow> 'k \<Rightarrow> 'v \<Rightarrow> ('k, 'v) CuckooMap \<Rightarrow> EntryIndex option \<times> ('k, 'v) CuckooMap" where
  "AddToBucket K bucket_idx key value s =
    (let slot_idx = FindEmptySlot (bucket_at bucket_idx s)
     in if slot_idx = - 1 then (None, s)
        else let (free_idx, s) = PopFreeEntryIndex K s
             in if free_idx = kInvalidEntryIdx then (None, s)
                else let s = upd_bucket bucket_idx (set_hash (nat slot_idx) (Hash K key)) s;
                         s = upd_bucket bucket_idx (set_index (nat slot_idx) free_idx) s;
                         s = M_mark (Mark_bucket (unat bucket_idx)) s;
                         s = set_entry free_idx (key, value) s;
                         s = M_mark (Mark_entry (unat free_idx)) s;
                         s = s\<lparr>num_entries := num_entries s + 1\<rparr>
                     in (Some free_idx, s))"

text \<open>
  One pass of the loop of \<open>MakeSpace\<close> over the slots; \<open>rec\<close> is the recursive call. The other bucket of an
  entry is found by comparing its hashes with the stored one.
\<close>

definition alt_bucket :: "('k, 'v) key_ops \<Rightarrow> HashResult \<Rightarrow> nat \<Rightarrow> ('k, 'v) CuckooMap \<Rightarrow> HashResult option" where
  "alt_bucket K ix i s =
    (let bucket = bucket_at ix s; pri = Hash K (fst (cm_entries s ! unat (entry_indices bucket ! i))); sec = HashSecondary pri
     in if pri = hash_values bucket ! i then Some (sec AND bucket_mask s)
        else if sec = hash_values bucket ! i then Some (pri AND bucket_mask s)
        else None)"

definition move_slot :: "HashResult \<Rightarrow> nat \<Rightarrow> HashResult \<Rightarrow> nat \<Rightarrow> ('k, 'v) CuckooMap \<Rightarrow> ('k, 'v) CuckooMap" where
  "move_slot ix i alt j s =
    (let s = upd_bucket alt (set_hash j (hash_values (bucket_at ix s) ! i)) s;
         s = upd_bucket alt (set_index j (entry_indices (bucket_at ix s) ! i)) s;
         s = upd_bucket ix (set_hash i 0) s
     in M_mark (Mark_bucket (unat ix)) (M_mark (Mark_bucket (unat alt)) s))"

fun make_space_loop ::
  "('k, 'v) key_ops \<Rightarrow> (HashResult \<Rightarrow> ('k, 'v) CuckooMap \<Rightarrow> int \<times> ('k, 'v) CuckooMap) \<Rightarrow> HashResult \<Rightarrow> nat list \<Rightarrow>
   ('k, 'v) CuckooMap \<Rightarrow> int \<times> ('k, 'v) CuckooMap" where
  "make_space_loop K rec ix [] s = (- 1, s)"
| "make_space_loop K rec ix (i # is) s =
    (case alt_bucket K ix i s of
       None \<Rightarrow> (- 1, s)
     | Some alt \<Rightarrow>
         (let j = FindEmptySlot (bucket_at alt s);
              (j, s) = (if j = - 1 then rec alt s else (j, s))
          in if j \<ge> 0 then (int i, move_slot ix i alt (nat j) s)
             else make_space_loop K rec ix is s))"

function MakeSpace ::
  "('k, 'v) key_ops \<Rightarrow> HashResult \<Rightarrow> nat \<Rightarrow> ('k, 'v) CuckooMap \<Rightarrow> int \<times> ('k, 'v) CuckooMap" where
  "MakeSpace K ix depth s =
    (if depth \<ge> kMaxCuckooPath then (- 1, s)
     else make_space_loop K (\<lambda>alt. MakeSpace K alt (depth + 1)) ix [0..<kEntriesPerBucket] s)"
  by pat_completeness auto
termination
  by (relation "measure (\<lambda>(K, ix, depth, s). kMaxCuckooPath - depth)") auto

declare MakeSpace.simps [simp del]

text \<open>\<open>goto again\<close>: the loop need not end.\<close>

partial_function (option) AddEntry ::
  "('k, 'v) key_ops \<Rightarrow> HashResult \<Rightarrow> HashResult \<Rightarrow> 'k \<Rightarrow> 'v \<Rightarrow> ('k, 'v) CuckooMap \<Rightarrow>
   (EntryIndex option \<times> ('k, 'v) CuckooMap) option" where
  "AddEntry K primary secondary key value s =
    (let primary_bucket_index = primary AND bucket_mask s;
         (entry, s) = AddToBucket K primary_bucket_index key value s
     in if entry \<noteq> None then Some (entry, s)
        else let secondary_bucket_index = secondary AND bucket_mask s;
                 (entry, s) = AddToBucket K secondary_bucket_index key value s
             in if entry \<noteq> None then Some (entry, s)
                else let (r, s) = MakeSpace K primary_bucket_index 0 s
                     in if r \<ge> 0 then AddEntry K primary secondary key value s
                        else let (r, s) = MakeSpace K secondary_bucket_index 0 s
                             in if r \<ge> 0 then AddEntry K primary secondary key value s
                                else Some (None, s))"

text \<open>\<open>None\<close>: the call does not return, because the loop does not end or \<open>abort\<close> is called.\<close>

definition Insert ::
  "('k, 'v) key_ops \<Rightarrow> 'k \<Rightarrow> 'v \<Rightarrow> ('k, 'v) CuckooMap \<Rightarrow> (EntryIndex option \<times> ('k, 'v) CuckooMap) option" where
  "Insert K key value s =
    (let primary = Hash K key; idx = FindWithHash K primary key s
     in if idx \<noteq> kInvalidEntryIdx
        then (if fst (cm_entries s ! unat idx) \<noteq> key then None
              else Some (Some idx, M_mark (Mark_entry (unat idx)) (set_entry idx (fst (cm_entries s ! unat idx), value) s)))
        else AddEntry K primary (HashSecondary primary) key value s)"

section \<open>Removing\<close>

definition RemoveFromBucket ::
  "('k, 'v) key_ops \<Rightarrow> HashResult \<Rightarrow> HashResult \<Rightarrow> 'k \<Rightarrow> ('k, 'v) CuckooMap \<Rightarrow> bool \<times> ('k, 'v) CuckooMap" where
  "RemoveFromBucket K primary bucket_idx key s =
    (let slot_idx = FindSlot K (bucket_at bucket_idx s) primary key s
     in if slot_idx = - 1 then (False, s)
        else let s = upd_bucket bucket_idx (set_hash (nat slot_idx) 0) s;
                 s = M_mark (Mark_bucket 0) s;
                 idx = entry_indices (bucket_at bucket_idx s) ! nat slot_idx;
                 s = set_entry idx (k_zero K, v_zero K) s;
                 s = M_mark Mark_num (M_mark (Mark_entry (unat idx)) s);
                 s = PushFreeEntryIndex K idx s
             in (True, s\<lparr>num_entries := num_entries s - 1\<rparr>))"

definition Remove :: "('k, 'v) key_ops \<Rightarrow> 'k \<Rightarrow> ('k, 'v) CuckooMap \<Rightarrow> bool \<times> ('k, 'v) CuckooMap" where
  "Remove K key s =
    (let pri = Hash K key; (r, s) = RemoveFromBucket K pri (pri AND bucket_mask s) key s
     in if r then (True, s)
        else let sec = HashSecondary pri; (r, s) = RemoveFromBucket K pri (sec AND bucket_mask s) key s
             in if r then (True, s) else (False, s))"

section \<open>Creation\<close>

definition zero_bucket :: Bucket where
  "zero_bucket = \<lparr>hash_values = replicate kEntriesPerBucket 0, entry_indices = replicate kEntriesPerBucket 0\<rparr>"

text \<open>\<open>memset\<close> of the first \<open>n\<close> elements of an array.\<close>

definition zero_first :: "nat \<Rightarrow> 'a \<Rightarrow> 'a list \<Rightarrow> 'a list" where
  "zero_first n z xs = replicate (min n (length xs)) z @ drop n xs"

fun push_all :: "('k, 'v) key_ops \<Rightarrow> nat \<Rightarrow> ('k, 'v) CuckooMap \<Rightarrow> ('k, 'v) CuckooMap" where
  "push_all K 0 s = s"
| "push_all K (Suc i) s = push_all K i (snd (PushNoLog K (of_nat i) s))"

definition Clear :: "('k, 'v) key_ops \<Rightarrow> ('k, 'v) CuckooMap \<Rightarrow> ('k, 'v) CuckooMap" where
  "Clear K s =
    (let s = EntryStack_Clear s;
         s = s\<lparr>cm_buckets := zero_first (nat (alloc_num_buckets s)) zero_bucket (cm_buckets s)\<rparr>;
         s = s\<lparr>cm_entries := zero_first (nat (alloc_num_entries s)) (k_zero K, v_zero K) (cm_entries s)\<rparr>;
         s = s\<lparr>num_entries := 0, bucket_mask := of_int (alloc_num_buckets s - 1)\<rparr>;
         s = push_all K (nat (alloc_num_entries s)) s
     in M_mark Mark_all (InvalidateStack s))"

definition CuckooMap_Size :: "('k, 'v) key_ops \<Rightarrow> u64 \<Rightarrow> u64 \<Rightarrow> u64" where
  "CuckooMap_Size K n b = 48 + BytesForEntries n + entry_bytes K * n + 32 * b"

text \<open>
  \<open>Create\<close> on a block whose bytes, read as the arrays of the map, are those of \<open>raw\<close>. The numbers of entries and
  buckets are stored as \<open>int\<close>.
\<close>

definition Create ::
  "('k, 'v) key_ops \<Rightarrow> u64 \<Rightarrow> u64 \<Rightarrow> u64 \<Rightarrow> ('k, 'v) CuckooMap \<Rightarrow> ('k, 'v) CuckooMap option" where
  "Create K area_size n b raw =
    (if area_size < CuckooMap_Size K n b then None
     else if b = 0 \<or> n = 0 \<or> b AND (b - 1) \<noteq> 0 \<or> n < b then None
     else do {
       s \<leftarrow> EntryStack_Create (area_size - 48) n raw;
       Some (Clear K (s\<lparr>alloc_num_buckets := sint (ucast b :: u32), alloc_num_entries := sint (ucast n :: u32),
         num_entries := 0, bucket_mask := ucast (b - 1)\<rparr>)) })"

definition Count :: "('k, 'v) CuckooMap \<Rightarrow> u64" where
  "Count s = num_entries s"

section \<open>Iteration\<close>

record iterator =
  bucket_idx :: nat
  slot_idx :: nat

definition iter_advance :: "iterator \<Rightarrow> iterator" where
  "iter_advance it =
    (let it = it\<lparr>slot_idx := slot_idx it + 1\<rparr>
     in if slot_idx it = kEntriesPerBucket then it\<lparr>slot_idx := 0, bucket_idx := bucket_idx it + 1\<rparr> else it)"

definition iter_at_empty :: "iterator \<Rightarrow> ('k, 'v) CuckooMap \<Rightarrow> bool" where
  "iter_at_empty it s \<longleftrightarrow> int (bucket_idx it) < alloc_num_buckets s \<and>
     hash_values (cm_buckets s ! bucket_idx it) ! slot_idx it = 0"

partial_function (option) iter_skip :: "iterator \<Rightarrow> ('k, 'v) CuckooMap \<Rightarrow> iterator option" where
  "iter_skip it s = (if iter_at_empty it s then iter_skip (iter_advance it) s else Some it)"

definition iter_begin :: "('k, 'v) CuckooMap \<Rightarrow> iterator option" where
  "iter_begin s = iter_skip \<lparr>bucket_idx = 0, slot_idx = 0\<rparr> s"

definition iter_end :: "('k, 'v) CuckooMap \<Rightarrow> iterator option" where
  "iter_end s = iter_skip \<lparr>bucket_idx = nat (alloc_num_buckets s), slot_idx = 0\<rparr> s"

definition iter_incr :: "iterator \<Rightarrow> ('k, 'v) CuckooMap \<Rightarrow> iterator option" where
  "iter_incr it s = iter_skip (iter_advance it) s"

definition iter_deref :: "iterator \<Rightarrow> ('k, 'v) CuckooMap \<Rightarrow> 'k \<times> 'v" where
  "iter_deref it s = cm_entries s ! unat (entry_indices (cm_buckets s ! bucket_idx it) ! slot_idx it)"

text \<open>\<open>for (it = begin(); it != end(); ++it)\<close>, collecting what \<open>*it\<close> reads.\<close>

partial_function (option) iter_collect :: "iterator \<Rightarrow> ('k, 'v) CuckooMap \<Rightarrow> ('k \<times> 'v) list option" where
  "iter_collect it s = do {
     e \<leftarrow> iter_end s;
     if it = e then Some []
     else do { nx \<leftarrow> iter_incr it s; xs \<leftarrow> iter_collect nx s; Some (iter_deref it s # xs) } }"

end
