(* ===== verification/Cuckoo_Space.thy ===== *)
theory Cuckoo_Space
  imports Cuckoo_Map
begin

text \<open>
  Making room in the cuckoo map: what \<open>MakeSpace\<close> does to the slots. A slot holds a hash and the index of an entry,
  or nothing. Every path of \<open>MakeSpace\<close> amounts to moves of an occupied slot to an empty slot of the entry's
  second bucket, also when the path runs through one bucket twice, and a failed attempt changes nothing.
\<close>

section \<open>Slots\<close>

type_synonym slot_map = "nat \<times> nat \<Rightarrow> (HashResult \<times> nat) option"

definition held :: "('k, 'v) CuckooMap \<Rightarrow> slot_map" where
  "held s p = (let b = cm_buckets s ! fst p in
     if hash_values b ! snd p = 0 then None else Some (hash_values b ! snd p, unat (entry_indices b ! snd p)))"

text \<open>Also an empty slot has an index of an entry, a stale one.\<close>

definition bucket_ok :: "nat \<Rightarrow> Bucket \<Rightarrow> bool" where
  "bucket_ok E b \<longleftrightarrow> length (hash_values b) = 4 \<and> length (entry_indices b) = 4 \<and> (\<forall>e\<in>set (entry_indices b). unat e < E)"

definition shape :: "nat \<Rightarrow> nat \<Rightarrow> ('k, 'v) CuckooMap \<Rightarrow> bool" where
  "shape pw E s \<longleftrightarrow> pw < 31 \<and> bucket_mask s = mask pw \<and> length (cm_buckets s) = 2 ^ pw \<and>
     (\<forall>b\<in>set (cm_buckets s). bucket_ok E b) \<and>
     0 < E \<and> E < 2 ^ 31 \<and> length (cm_entries s) = E \<and> length (es_stck s) = E \<and> es_size s = E \<and> es_head s \<le> E \<and>
     alloc_num_buckets s = 2 ^ pw \<and> alloc_num_entries s = int E"

definition pri_of :: "nat \<Rightarrow> HashResult \<Rightarrow> nat" where "pri_of pw h = unat (h AND mask pw)"
definition sec_of :: "nat \<Rightarrow> HashResult \<Rightarrow> nat" where "sec_of pw h = unat (HashSecondary h AND mask pw)"

lemma masked_less: "pw < 31 \<Longrightarrow> unat (h AND mask pw :: u32) < 2 ^ pw"
proof -
  assume "pw < 31"
  have "unat (h AND mask pw :: u32) = take_bit pw (unat h)"
    by (simp add: take_bit_eq_mask [symmetric] unsigned_take_bit_eq)
  then show ?thesis by (simp add: take_bit_nat_less_exp)
qed

lemma home_less [simp]: "pw < 31 \<Longrightarrow> pri_of pw h < 2 ^ pw" "pw < 31 \<Longrightarrow> sec_of pw h < 2 ^ pw"
  by (simp_all add: pri_of_def sec_of_def masked_less)

text \<open>
  The slots of a table: hashes and buckets fit the keys of the entries, and no entry is in two slots.
\<close>

definition slots :: "nat \<Rightarrow> (nat \<times> nat) set" where
  "slots pw = {..<2 ^ pw} \<times> {..<4}"

definition table_ok :: "('k, 'v) key_ops \<Rightarrow> nat \<Rightarrow> ('k \<times> 'v) list \<Rightarrow> slot_map \<Rightarrow> bool" where
  "table_ok K pw es H \<longleftrightarrow>
     (\<forall>p\<in>slots pw. \<forall>h e. H p = Some (h, e) \<longrightarrow> e < length es \<and> h = Hash K (fst (es ! e)) \<and> fst p \<in> {pri_of pw h, sec_of pw h}) \<and>
     (\<forall>p\<in>slots pw. \<forall>q\<in>slots pw. \<forall>h h' e. H p = Some (h, e) \<longrightarrow> H q = Some (h', e) \<longrightarrow> p = q)"

definition used :: "nat \<Rightarrow> slot_map \<Rightarrow> nat set" where
  "used pw H = {e. \<exists>p\<in>slots pw. \<exists>h. H p = Some (h, e)}"

definition full :: "slot_map \<Rightarrow> nat \<Rightarrow> bool" where
  "full H b \<longleftrightarrow> (\<forall>i<4. H (b, i) \<noteq> None)"

section \<open>Moves\<close>

text \<open>The entry of slot \<open>p\<close> moves to the empty slot \<open>q\<close> of its second bucket.\<close>

definition mv :: "nat \<Rightarrow> slot_map \<Rightarrow> nat \<times> nat \<Rightarrow> nat \<times> nat \<Rightarrow>
    slot_map \<Rightarrow> bool" where
  "mv pw H p q H' \<longleftrightarrow> p \<in> slots pw \<and> q \<in> slots pw \<and> H q = None \<and>
     (\<exists>h e. H p = Some (h, e) \<and> fst q = sec_of pw h) \<and> H' = H(q := H p, p := None)"

lemma mv_at:
  assumes "mv pw H p q H'"
  shows "H q = None" "H' p = None" "H r \<noteq> None \<Longrightarrow> H' r = (if r = p then None else H r)"
  using assms by (auto simp: mv_def)

lemma mv_table:
  assumes "mv pw H p q H'" "table_ok K pw es H"
  shows "table_ok K pw es H'" "used pw H' = used pw H"
proof -
  obtain h e where m: "p \<in> slots pw" "q \<in> slots pw" "H q = None" "H p = Some (h, e)" "fst q = sec_of pw h"
    "H' = H(q := H p, p := None)" using assms(1) by (auto simp: mv_def)
  have pq: "p \<noteq> q" using m by auto
  have H': "H' r = (if r = p then None else if r = q then Some (h, e) else H r)" for r using m pq by auto
  have ok: "e < length es" "h = Hash K (fst (es ! e))" using assms(2) m by (auto simp: table_ok_def)
  have t1: "x < length es \<and> g = Hash K (fst (es ! x)) \<and> fst r \<in> {pri_of pw g, sec_of pw g}" if "r \<in> slots pw" "H' r = Some (g, x)" for r g x
  proof (cases "r = q")
    case True
    then have "g = h" "x = e" using that(2) pq by (auto simp: H' split: if_splits)
    then show ?thesis using True ok m(5) by blast
  next
    case False
    then have "H r = Some (g, x)" using that(2) by (auto simp: H' split: if_splits)
    then show ?thesis using assms(2) that(1) unfolding table_ok_def by blast
  qed
  have inj: "r = t" if "r \<in> slots pw" "t \<in> slots pw" "H r = Some (g, x)" "H t = Some (g', x)" for r t g g' x
    using assms(2) that unfolding table_ok_def by blast
  have at: "r \<noteq> p \<and> (if r = q then g = h \<and> x = e else H r = Some (g, x))" if "H' r = Some (g, x)" for r g x
    using that by (auto simp: H' split: if_splits)
  have t2: "r = t" if "r \<in> slots pw" "t \<in> slots pw" "H' r = Some (g, x)" "H' t = Some (g', x)" for r t g g' x
  proof -
    note r = at [OF that(3)] and t = at [OF that(4)]
    consider "r = q" "t = q" | "r = q" "t \<noteq> q" | "r \<noteq> q" "t = q" | "r \<noteq> q" "t \<noteq> q" by blast
    then show ?thesis
    proof cases
      case 2
      then have "H t = Some (g', e)" "t \<noteq> p" using r t by simp_all
      then show ?thesis using inj [OF that(2) m(1) _ m(4)] by blast
    next
      case 3
      then have "H r = Some (g, e)" "r \<noteq> p" using r t by simp_all
      then show ?thesis using inj [OF that(1) m(1) _ m(4)] by blast
    next
      case 4
      then show ?thesis using inj [OF that(1,2)] r t by simp
    qed simp
  qed
  show "table_ok K pw es H'" unfolding table_ok_def using t1 t2 by blast
  show "used pw H' = used pw H"
  proof
    show "used pw H' \<subseteq> used pw H" using m unfolding used_def H' by (auto split: if_splits)
    have "\<exists>r\<in>slots pw. \<exists>h. H' r = Some (h, x)" if "r \<in> slots pw" "H r = Some (h', x)" for r h' x
    proof (cases "r = p")
      case True
      then have "x = e" using that m by simp
      then show ?thesis using m pq unfolding H' by (intro bexI [of _ q]) auto
    next
      case False
      then show ?thesis using that m unfolding H' by (intro bexI [of _ r]) auto
    qed
    then show "used pw H \<subseteq> used pw H'" by (auto simp: used_def)
  qed
qed

text \<open>Any number of moves.\<close>

definition mvs where "mvs pw = (\<lambda>H H'. \<exists>p q. mv pw H p q H')\<^sup>*\<^sup>*"

lemma mvs_one: "mv pw H p q H' \<Longrightarrow> mvs pw H H'"
  unfolding mvs_def by blast

lemma mvs_trans [trans]: "mvs pw H H1 \<Longrightarrow> mvs pw H1 H2 \<Longrightarrow> mvs pw H H2"
  unfolding mvs_def by (rule rtranclp_trans)

lemma mvs_refl [simp]: "mvs pw H H"
  by (simp add: mvs_def)

lemma mvs_table: "mvs pw H H' \<Longrightarrow> table_ok K pw es H \<Longrightarrow> table_ok K pw es H' \<and> used pw H' = used pw H"
  unfolding mvs_def
proof (induction rule: rtranclp_induct)
  case (step H1 H2)
  then obtain p q where m: "mv pw H1 p q H2" by blast
  have "table_ok K pw es H1" "used pw H1 = used pw H" using step by blast+
  then show ?case using mv_table [OF m, of K es] by simp
qed simp

text \<open>
  Moves cannot go on for ever: an entry that is not in its second bucket gets there, and an entry that is stays there
  and goes to a later slot, where nothing else moves.
\<close>

definition away :: "nat \<Rightarrow> slot_map \<Rightarrow> nat" where
  "away pw H = card {p \<in> slots pw. \<exists>h e. H p = Some (h, e) \<and> fst p \<noteq> sec_of pw h}"

definition low :: "nat \<Rightarrow> slot_map \<Rightarrow> nat" where
  "low pw H = (\<Sum>p\<in>{p \<in> slots pw. H p \<noteq> None}. 3 - snd p)"

lemma finite_slots [simp]: "finite (slots pw)"
  by (simp add: slots_def)

lemma mv_away:
  assumes "mv pw H p q H'"
  shows "away pw H' \<le> away pw H" "fst p \<noteq> fst q \<Longrightarrow> away pw H' < away pw H"
proof -
  let ?A = "\<lambda>H :: slot_map. {p \<in> slots pw. \<exists>h e. H p = Some (h, e) \<and> fst p \<noteq> sec_of pw h}"
  have sub: "?A H' \<subseteq> ?A H - {p}" using assms by (auto simp: mv_def)
  then have "card (?A H') \<le> card (?A H - {p})" by (intro card_mono) simp_all
  also have "\<dots> \<le> card (?A H)" by (intro card_mono) auto
  finally show "away pw H' \<le> away pw H" by (simp add: away_def)
  assume "fst p \<noteq> fst q"
  then have "p \<in> ?A H" using assms by (auto simp: mv_def)
  then have "?A H' \<subset> ?A H" using sub by blast
  then have "card (?A H') < card (?A H)" by (intro psubset_card_mono) simp_all
  then show "away pw H' < away pw H" by (simp add: away_def)
qed

lemma mv_low:
  assumes m: "mv pw H p q H'" and q: "snd p < snd q"
  shows "low pw H' < low pw H"
proof -
  let ?O = "{p \<in> slots pw. H p \<noteq> None}"
  have pq: "p \<in> ?O" "q \<in> slots pw" "q \<notin> ?O" "H' = H(q := H p, p := None)" "p \<noteq> q" using m q by (auto simp: mv_def)
  then have "{p \<in> slots pw. H' p \<noteq> None} = insert q (?O - {p})" by auto
  then have "low pw H' = (3 - snd q) + (\<Sum>r\<in>?O - {p}. 3 - snd r)" using pq(3) by (simp add: low_def)
  moreover have "low pw H = (3 - snd p) + (\<Sum>r\<in>?O - {p}. 3 - snd r)" using pq(1) by (simp add: low_def sum.remove)
  moreover have "snd q < 4" using pq(2) by (auto simp: slots_def)
  ultimately show ?thesis using q by simp
qed

definition closer :: "nat \<Rightarrow> (slot_map \<times> slot_map) set" where
  "closer pw = measures [away pw, low pw]"

lemma wf_closer: "wf (closer pw)"
  by (simp add: closer_def)

text \<open>The slots a path of \<open>MakeSpace\<close> touches, one level of the recursion at a time.\<close>

definition act where
  "act pw Q H b i H' \<longleftrightarrow> i < 4 \<and> (\<exists>h e. H (b, i) = Some (h, e) \<and>
     ((\<exists>q. mv pw H (b, i) q H' \<and> (fst q = b \<longrightarrow> i < snd q)) \<or>
      (\<exists>i1 H1. full H (sec_of pw h) \<and> Q H (sec_of pw h) i1 H1 \<and> i1 < 4 \<and>
         H' = H1((sec_of pw h, i1) := H1 (b, i), (b, i) := None))))"

lemma act_cases:
  assumes "act pw Q H b i H'"
  obtains h e where "i < 4" "H (b, i) = Some (h, e)"
    "(\<exists>q. mv pw H (b, i) q H' \<and> (fst q = b \<longrightarrow> i < snd q)) \<or> (\<exists>i1 H1. full H (sec_of pw h) \<and> Q H (sec_of pw h) i1 H1 \<and> i1 < 4 \<and>
       H' = H1((sec_of pw h, i1) := H1 (b, i), (b, i) := None))"
  using assms unfolding act_def by blast

lemma full_no_move: "full H b \<Longrightarrow> mv pw H p q H' \<Longrightarrow> fst q \<noteq> b"
  by (auto simp: full_def mv_def slots_def)

text \<open>A path of one step, of two steps, of three steps.\<close>

lemma act1: "act pw (\<lambda>_ _ _ _. False) H b i H' \<Longrightarrow> i < 4 \<and> (\<exists>q. mv pw H (b, i) q H')"
  by (auto simp: act_def mv_def)

lemma act2:
  assumes "act pw (act pw (\<lambda>_ _ _ _. False)) H b i H'" "pw < 31" "b < 2 ^ pw"
  shows "(\<exists>q. mv pw H (b, i) q H') \<or> (\<exists>p q H1. mv pw H p q H1 \<and> fst p \<noteq> fst q \<and> mv pw H1 (b, i) p H')"
proof -
  obtain h e where h: "i < 4" "H (b, i) = Some (h, e)"
    and c: "(\<exists>q. mv pw H (b, i) q H' \<and> (fst q = b \<longrightarrow> i < snd q)) \<or> (\<exists>i1 H1. full H (sec_of pw h) \<and> act pw (\<lambda>_ _ _ _. False) H (sec_of pw h) i1 H1 \<and> i1 < 4 \<and>
         H' = H1((sec_of pw h, i1) := H1 (b, i), (b, i) := None))"
    by (rule act_cases [OF assms(1)])
  from c show ?thesis
  proof
    assume "\<exists>i1 H1. full H (sec_of pw h) \<and> act pw (\<lambda>_ _ _ _. False) H (sec_of pw h) i1 H1 \<and> i1 < 4 \<and>
         H' = H1((sec_of pw h, i1) := H1 (b, i), (b, i) := None)"
    then obtain i1 H1 q where a: "full H (sec_of pw h)" "i1 < 4" "mv pw H (sec_of pw h, i1) q H1"
      "H' = H1((sec_of pw h, i1) := H1 (b, i), (b, i) := None)" using act1 by blast
    have ne: "(b, i) \<noteq> (sec_of pw h, i1)"
      using full_no_move [OF a(1,3)] a(3) h(2) by (auto simp: mv_def)
    moreover have "(b, i) \<noteq> q" using a(3) h(2) by (auto simp: mv_def)
    ultimately have "H1 (b, i) = H (b, i)" "H1 (sec_of pw h, i1) = None" using a(3) by (auto simp: mv_def)
    then have "mv pw H1 (b, i) (sec_of pw h, i1) H'"
      using a(2,4) h assms(2,3) unfolding mv_def slots_def by auto
    moreover have "fst (sec_of pw h, i1) \<noteq> fst q" using full_no_move [OF a(1,3)] by simp
    ultimately show ?thesis using a(3) by blast
  qed blast
qed

text \<open>Below the slot that is to be emptied: its second bucket \<open>c\<close> is full, and one or two moves empty the slot \<open>i1\<close> there.\<close>

lemma act_inner:
  assumes a: "act pw (act pw (\<lambda>_ _ _ _. False)) H c i1 H1" and fl: "full H c" and pw: "pw < 31" "c < 2 ^ pw"
    and p0: "H p0 = Some (h, e)" "sec_of pw h = c"
  shows "mvs pw H H1" "away pw H1 < away pw H" "H1 (c, i1) = None" "H1 p0 = H p0 \<or> H1 p0 = None"
proof -
  have path: "(\<exists>q. mv pw H (c, i1) q H1) \<or> (\<exists>p q H2. mv pw H p q H2 \<and> fst p \<noteq> fst q \<and> mv pw H2 (c, i1) p H1)" by (rule act2 [OF a pw])
  have keep: "H2 p0 = H p0" if "mv pw H p q H2" for p q H2
    using full_no_move [OF fl that] that p0 by (auto simp: mv_def)
  show "mvs pw H H1" using path by (blast intro: mvs_one mvs_trans)
  have occ: "H p0 \<noteq> None" using p0(1) by simp
  from path have "away pw H1 < away pw H \<and> H1 (c, i1) = None \<and> (H1 p0 = H p0 \<or> H1 p0 = None)"
  proof (elim disjE exE conjE)
    fix q
    assume m: "mv pw H (c, i1) q H1"
    show ?thesis using keep [OF m] mv_at(2) [OF m] mv_away(2) [OF m] full_no_move [OF fl m] by simp
  next
    fix p q H2
    assume m: "mv pw H p q H2" "mv pw H2 (c, i1) p H1" and ne: "fst p \<noteq> fst q"
    have "H2 p0 \<noteq> None" using keep [OF m(1)] occ by simp
    from mv_at(3) [OF m(2) this] have "H1 p0 = H p0 \<or> H1 p0 = None" using keep [OF m(1)] by (simp split: if_splits)
    then show ?thesis using mv_at(2) [OF m(2)] mv_away(2) [OF m(1) ne] mv_away(1) [OF m(2)] by simp
  qed
  then show "away pw H1 < away pw H" "H1 (c, i1) = None" "H1 p0 = H p0 \<or> H1 p0 = None" by simp_all
qed

lemma act3:
  assumes "act pw (act pw (act pw (\<lambda>_ _ _ _. False))) H b i H'" "pw < 31" "b < 2 ^ pw"
  shows "mvs pw H H' \<and> (H', H) \<in> closer pw \<and> H' (b, i) = None"
proof -
  obtain h e where h: "i < 4" "H (b, i) = Some (h, e)"
    and c: "(\<exists>q. mv pw H (b, i) q H' \<and> (fst q = b \<longrightarrow> i < snd q)) \<or> (\<exists>i1 H1. full H (sec_of pw h) \<and> act pw (act pw (\<lambda>_ _ _ _. False)) H (sec_of pw h) i1 H1 \<and>
         i1 < 4 \<and> H' = H1((sec_of pw h, i1) := H1 (b, i), (b, i) := None))"
    by (rule act_cases [OF assms(1)])
  from c show ?thesis
  proof
    assume "\<exists>q. mv pw H (b, i) q H' \<and> (fst q = b \<longrightarrow> i < snd q)"
    then obtain q where q: "mv pw H (b, i) q H'" "fst q = b \<longrightarrow> i < snd q" by blast
    have "(H', H) \<in> closer pw"
      using mv_away [OF q(1)] mv_low [OF q(1)] q(2) by (cases "fst q = b") (auto simp: closer_def)
    then show ?thesis using mvs_one [OF q(1)] mv_at(2) [OF q(1)] by blast
  next
    assume "\<exists>i1 H1. full H (sec_of pw h) \<and> act pw (act pw (\<lambda>_ _ _ _. False)) H (sec_of pw h) i1 H1 \<and> i1 < 4 \<and>
         H' = H1((sec_of pw h, i1) := H1 (b, i), (b, i) := None)"
    then obtain i1 H1 where a: "full H (sec_of pw h)" "act pw (act pw (\<lambda>_ _ _ _. False)) H (sec_of pw h) i1 H1" "i1 < 4"
      "H' = H1((sec_of pw h, i1) := H1 (b, i), (b, i) := None)" by blast
    note inner = act_inner [OF a(2,1) assms(2) home_less(2) [OF assms(2)] h(2) refl]
    show ?thesis
    proof (cases "H1 (b, i) = None")
      case True
      then have "H' = H1" using a(4) inner(3) by (auto simp: fun_eq_iff)
      then show ?thesis using inner(1,2) True by (simp add: closer_def)
    next
      case False
      then have m: "mv pw H1 (b, i) (sec_of pw h, i1) H'"
        using inner(3,4) h a(3,4) assms(2,3) unfolding mv_def slots_def by auto
      then show ?thesis using mvs_trans [OF inner(1) mvs_one [OF m]] inner(2) mv_away(1) [OF m] mv_at(2) [OF m] by (auto simp: closer_def)
    qed
  qed
qed

section \<open>The code of MakeSpace\<close>

text \<open>Only the buckets and the marks differ.\<close>

definition same_rest :: "('k, 'v) CuckooMap \<Rightarrow> ('k, 'v) CuckooMap \<Rightarrow> bool" where
  "same_rest s s' \<longleftrightarrow> (\<exists>bs ms. s' = s\<lparr>cm_buckets := bs, cm_marks := ms\<rparr>)"

lemma same_restD:
  assumes "same_rest s s'"
  shows "bucket_mask s' = bucket_mask s" "cm_entries s' = cm_entries s" "es_stck s' = es_stck s" "es_head s' = es_head s"
    "es_size s' = es_size s" "num_entries s' = num_entries s" "alloc_num_buckets s' = alloc_num_buckets s"
    "alloc_num_entries s' = alloc_num_entries s"
  using assms by (auto simp: same_rest_def)

lemma same_rest_refl [simp]: "same_rest s s"
  unfolding same_rest_def by (metis CuckooMap.surjective CuckooMap.update_convs(8,10))

lemma same_rest_trans: "same_rest s t \<Longrightarrow> same_rest t u \<Longrightarrow> same_rest s u"
  by (auto simp: same_rest_def) blast

lemma shapeD:
  assumes "shape pw E s"
  shows "pw < 31" "bucket_mask s = mask pw" "length (cm_buckets s) = 2 ^ pw"
    "b < 2 ^ pw \<Longrightarrow> length (hash_values (cm_buckets s ! b)) = 4" "b < 2 ^ pw \<Longrightarrow> length (entry_indices (cm_buckets s ! b)) = 4"
    "b < 2 ^ pw \<Longrightarrow> i < 4 \<Longrightarrow> unat (entry_indices (cm_buckets s ! b) ! i) < E"
proof -
  show len: "pw < 31" "bucket_mask s = mask pw" "length (cm_buckets s) = 2 ^ pw" using assms by (simp_all add: shape_def)
  have "bucket_ok E (cm_buckets s ! b)" if "b < 2 ^ pw" using assms that by (simp add: shape_def)
  then show "b < 2 ^ pw \<Longrightarrow> length (hash_values (cm_buckets s ! b)) = 4" "b < 2 ^ pw \<Longrightarrow> length (entry_indices (cm_buckets s ! b)) = 4"
    "b < 2 ^ pw \<Longrightarrow> i < 4 \<Longrightarrow> unat (entry_indices (cm_buckets s ! b) ! i) < E"
    by (simp_all add: bucket_ok_def)
qed

lemma first_slot_iff: "first_slot P = - 1 \<longleftrightarrow> (\<forall>i<4. \<not> P i)" "first_slot P = int i \<Longrightarrow> i < 4 \<and> P i"
  "first_slot P = - 1 \<or> (\<exists>i<4. first_slot P = int i \<and> P i)"
  by (auto simp: first_slot_def kEntriesPerBucket_def find_None_iff find_Some_iff split: option.splits)

lemma empty_slot:
  assumes "b = unat ix"
  shows "FindEmptySlot (bucket_at ix s) = - 1 \<longleftrightarrow> full (held s) b"
    "FindEmptySlot (bucket_at ix s) = - 1 \<or> (\<exists>i<4. FindEmptySlot (bucket_at ix s) = int i \<and> held s (b, i) = None)"
  using first_slot_iff(1,3) [of "\<lambda>i. hash_values (bucket_at ix s) ! i = 0"] assms
  by (auto simp: FindEmptySlot_def full_def held_def bucket_at_def Let_def split: if_splits)

lemma held_upd_hash:
  assumes "b = unat ix" "b < length (cm_buckets s)" "j < length (hash_values (cm_buckets s ! b))"
  shows "held (upd_bucket ix (set_hash j h) s) = (held s)((b, j) := if h = 0 then None else Some (h, unat (entry_indices (cm_buckets s ! b) ! j)))"
  using assms by (auto simp: held_def upd_bucket_def set_hash_def fun_eq_iff Let_def nth_list_update)

lemma held_upd_index:
  assumes "b = unat ix" "b < length (cm_buckets s)" "j < length (entry_indices (cm_buckets s ! b))"
  shows "held (upd_bucket ix (set_index j e) s) = (held s)((b, j) := map_option (\<lambda>(h, _). (h, unat e)) (held s (b, j)))"
  using assms by (auto simp: held_def upd_bucket_def set_index_def fun_eq_iff Let_def nth_list_update)

lemma held_mark [simp]: "held (M_mark m s) = held s"
  by (simp add: held_def M_mark_def fun_eq_iff)

lemma upd_bucket_frame:
  "same_rest s (upd_bucket ix f s)" "same_rest s (M_mark m s)"
  "length (cm_buckets (upd_bucket ix f s)) = length (cm_buckets s)" "cm_buckets (M_mark m s) = cm_buckets s"
  by (simp_all add: upd_bucket_def M_mark_def same_rest_def)
    (metis CuckooMap.surjective CuckooMap.update_convs(8,10))+

lemma shape_upd:
  assumes "shape pw E s" "\<And>b. bucket_ok E b \<Longrightarrow> bucket_ok E (f b)"
  shows "shape pw E (upd_bucket ix f s)"
  using assms by (cases "unat ix < length (cm_buckets s)") (auto simp: shape_def upd_bucket_def all_set_conv_all_nth nth_list_update)

lemma bucket_ok_set: "bucket_ok E b \<Longrightarrow> bucket_ok E (set_hash j h b)" "bucket_ok E b \<Longrightarrow> unat e < E \<Longrightarrow> bucket_ok E (set_index j e b)"
  using set_update_subset_insert [of "entry_indices b" j e] by (auto simp: bucket_ok_def set_hash_def set_index_def)

lemma set_lengths [simp]:
  "length (hash_values (set_hash j h b)) = length (hash_values b)" "length (entry_indices (set_hash j h b)) = length (entry_indices b)"
  "length (hash_values (set_index j e b)) = length (hash_values b)" "length (entry_indices (set_index j e b)) = length (entry_indices b)"
  by (simp_all add: set_hash_def set_index_def)

lemma shape_mark [simp]: "shape pw E (M_mark m s) \<longleftrightarrow> shape pw E s"
  by (simp add: shape_def M_mark_def)

lemma move_slot_held:
  assumes sh: "shape pw E s" and ix: "unat ix < 2 ^ pw" "i < 4" and alt: "unat alt < 2 ^ pw" "j < 4"
  shows "held (move_slot ix i alt j s) = (held s)((unat alt, j) := held s (unat ix, i), (unat ix, i) := None)"
    "shape pw E (move_slot ix i alt j s)" "same_rest s (move_slot ix i alt j s)"
proof -
  let ?h = "hash_values (bucket_at ix s) ! i" and ?e = "entry_indices (bucket_at ix s) ! i"
  define s1 where "s1 = upd_bucket alt (set_hash j ?h) s"
  have e1: "entry_indices (bucket_at ix s1) ! i = ?e"
    using shapeD(3) [OF sh] ix alt by (simp add: s1_def bucket_at_def upd_bucket_def set_hash_def nth_list_update)
  define s2 where "s2 = upd_bucket alt (set_index j ?e) s1"
  define s3 where "s3 = upd_bucket ix (set_hash i 0) s2"
  have m: "move_slot ix i alt j s = M_mark (Mark_bucket (unat ix)) (M_mark (Mark_bucket (unat alt)) s3)"
    by (simp add: move_slot_def Let_def s3_def s2_def e1 s1_def [symmetric])
  have sh1: "shape pw E s1" and sh2: "shape pw E s2" and sh3: "shape pw E s3"
    using sh shapeD(6) [OF sh ix] by (simp_all add: s1_def s2_def s3_def bucket_at_def shape_upd bucket_ok_set)
  have h1: "held s1 = (held s)((unat alt, j) := if ?h = 0 then None else Some (?h, unat (entry_indices (cm_buckets s ! unat alt) ! j)))"
    unfolding s1_def using shapeD [OF sh] alt by (intro held_upd_hash) simp_all
  have h2: "held s2 = (held s1)((unat alt, j) := map_option (\<lambda>(h, _). (h, unat ?e)) (held s1 (unat alt, j)))"
    unfolding s2_def using shapeD [OF sh1] alt by (intro held_upd_index) simp_all
  have h3: "held s3 = (held s2)((unat ix, i) := None)"
    using held_upd_hash [OF refl, of ix s2 i 0] shapeD [OF sh2] ix by (simp add: s3_def)
  have "held s2 = (held s)((unat alt, j) := held s (unat ix, i))"
    unfolding h2 h1 by (auto simp: held_def bucket_at_def Let_def)
  then show "held (move_slot ix i alt j s) = (held s)((unat alt, j) := held s (unat ix, i), (unat ix, i) := None)"
    using h3 by (simp add: m)
  show "shape pw E (move_slot ix i alt j s)" using sh3 by (simp add: m)
  have "same_rest s s3" unfolding s3_def s2_def s1_def by (blast intro: same_rest_trans upd_bucket_frame)
  then show "same_rest s (move_slot ix i alt j s)" unfolding m by (blast intro: same_rest_trans upd_bucket_frame)
qed

text \<open>
  What a call does that is not stopped by an empty slot: it fails and changes nothing, or it empties a slot along \<open>Q\<close>.
  The recursive calls are all on full buckets. On another bucket the scan ends at an empty slot, unless the stale
  index there leads to a key whose second hash is zero.
\<close>

definition stops :: "('k, 'v) key_ops \<Rightarrow> HashResult \<Rightarrow> ('k, 'v) CuckooMap \<Rightarrow> bool" where
  "stops K ix s \<longleftrightarrow> (\<forall>i<4. held s (unat ix, i) = None \<longrightarrow> alt_bucket K ix i s = None)"

definition makes ::
  "('k, 'v) key_ops \<Rightarrow> nat \<Rightarrow> nat \<Rightarrow> (slot_map \<Rightarrow> nat \<Rightarrow> nat \<Rightarrow> slot_map \<Rightarrow> bool) \<Rightarrow>
   (HashResult \<Rightarrow> ('k, 'v) CuckooMap \<Rightarrow> int \<times> ('k, 'v) CuckooMap) \<Rightarrow> bool" where
  "makes K pw E Q rec \<longleftrightarrow> (\<forall>ix s. shape pw E s \<longrightarrow> table_ok K pw (cm_entries s) (held s) \<longrightarrow> unat ix < 2 ^ pw \<longrightarrow> stops K ix s \<longrightarrow>
     rec ix s = (- 1, s) \<or> (\<exists>i s'. rec ix s = (int i, s') \<and> i < 4 \<and> shape pw E s' \<and> same_rest s s' \<and> Q (held s) (unat ix) i (held s')))"

lemma full_stops: "full (held s) (unat ix) \<Longrightarrow> stops K ix s"
  by (auto simp: full_def stops_def)

lemma empty_stops:
  assumes "shape pw E s" "unat ix < 2 ^ pw" "\<forall>e<E. HashSecondary (Hash K (fst (cm_entries s ! e))) \<noteq> 0" "\<forall>k. Hash K k \<noteq> 0"
  shows "stops K ix s"
  using assms shapeD(6) [OF assms(1,2)] by (auto simp: stops_def alt_bucket_def held_def bucket_at_def Let_def split: if_splits)

lemma alt_bucket_second:
  assumes "shape pw E s" "table_ok K pw (cm_entries s) (held s)" "unat ix < 2 ^ pw" "i < 4" "held s (unat ix, i) = Some (h, e)"
  shows "alt_bucket K ix i s = Some (HashSecondary h AND mask pw)"
proof -
  have "hash_values (bucket_at ix s) ! i = h" "unat (entry_indices (bucket_at ix s) ! i) = e"
    using assms(5) by (auto simp: held_def bucket_at_def Let_def split: if_splits)
  moreover have "h = Hash K (fst (cm_entries s ! e))" using assms(2-5) by (auto simp: table_ok_def slots_def)
  ultimately show ?thesis using shapeD(2) [OF assms(1)] by (simp add: alt_bucket_def Let_def)
qed

text \<open>One pass of the loop, on the slots from \<open>k\<close> on; the slots before are occupied.\<close>

lemma loop_makes:
  assumes rec: "makes K pw E Q rec" and sh: "shape pw E s" and ok: "table_ok K pw (cm_entries s) (held s)"
    and ix: "unat ix < 2 ^ pw" and st: "stops K ix s"
  shows "k \<le> 4 \<Longrightarrow> \<forall>j<k. held s (unat ix, j) \<noteq> None \<Longrightarrow> make_space_loop K rec ix [k..<4] s = (- 1, s) \<or>
    (\<exists>i s'. make_space_loop K rec ix [k..<4] s = (int i, s') \<and> i < 4 \<and> shape pw E s' \<and> same_rest s s' \<and> act pw Q (held s) (unat ix) i (held s'))"
proof (induction "4 - k" arbitrary: k)
  case (Suc n i)
  then have i: "i < 4" "[i..<4] = i # [Suc i..<4]" by (simp_all add: upt_conv_Cons)
  show ?case
  proof (cases "held s (unat ix, i)")
    case None
    then have "alt_bucket K ix i s = None" using st i(1) by (simp add: stops_def)
    then show ?thesis by (simp add: i(2))
  next
    case (Some he)
    then obtain h e where h: "held s (unat ix, i) = Some (h, e)" by (cases he) simp
    let ?alt = "HashSecondary h AND mask pw"
    have alt: "alt_bucket K ix i s = Some ?alt" by (rule alt_bucket_second [OF sh ok ix i(1) h])
    have A: "unat ?alt = sec_of pw h" by (simp add: sec_of_def)
    have al: "unat ?alt < 2 ^ pw" using masked_less [OF shapeD(1) [OF sh]] by blast
    have occ: "\<forall>j<Suc i. held s (unat ix, j) \<noteq> None" using Suc.prems(2) h by (auto simp: less_Suc_eq)
    show ?thesis
    proof (cases "FindEmptySlot (bucket_at ?alt s) = - 1")
      case False
      then obtain j where j: "j < 4" "FindEmptySlot (bucket_at ?alt s) = int j" "held s (sec_of pw h, j) = None"
        using empty_slot(2) [OF A [symmetric], of s] by auto
      note mv = move_slot_held [OF sh ix i(1) al j(1)]
      have "mv pw (held s) (unat ix, i) (sec_of pw h, j) (held (move_slot ix i ?alt j s))"
        using h j i ix al by (simp add: mv_def slots_def mv(1) A)
      moreover have "sec_of pw h = unat ix \<longrightarrow> i < j" using occ j(3) by (auto simp: not_less_eq [symmetric])
      ultimately have "act pw Q (held s) (unat ix) i (held (move_slot ix i ?alt j s))" using h i unfolding act_def by fastforce
      then show ?thesis using alt j(2) False mv(2,3) i by simp
    next
      case True
      then have fa: "full (held s) (unat ?alt)" using empty_slot(1) [OF A [symmetric], of s] A by simp
      have "rec ?alt s = (- 1, s) \<or> (\<exists>i1 s1. rec ?alt s = (int i1, s1) \<and> i1 < 4 \<and> shape pw E s1 \<and> same_rest s s1 \<and> Q (held s) (unat ?alt) i1 (held s1))"
        using rec sh ok al full_stops [OF fa] unfolding makes_def by blast
      then show ?thesis
      proof (elim disjE exE conjE)
        assume "rec ?alt s = (- 1, s)"
        then have "make_space_loop K rec ix [i..<4] s = make_space_loop K rec ix [Suc i..<4] s" using alt True by (simp add: i(2))
        then show ?thesis using Suc.hyps(1) [of "Suc i"] Suc.hyps(2) i(1) occ by simp
      next
        fix i1 s1
        assume r: "rec ?alt s = (int i1, s1)" "i1 < 4" "shape pw E s1" "same_rest s s1" "Q (held s) (unat ?alt) i1 (held s1)"
        note mv = move_slot_held [OF r(3) ix i(1) al r(2)]
        have "act pw Q (held s) (unat ix) i (held (move_slot ix i ?alt i1 s1))"
          using h i(1) fa r(2,5) unfolding act_def mv(1) A by blast
        then show ?thesis using alt True r(1) i mv(2) same_rest_trans [OF r(4) mv(3)] by simp
      qed
    qed
  qed
qed simp

lemma MakeSpace_makes:
  assumes "depth < kMaxCuckooPath" "makes K pw E Q (\<lambda>alt. MakeSpace K alt (depth + 1))"
  shows "makes K pw E (act pw Q) (\<lambda>ix. MakeSpace K ix depth)"
  unfolding makes_def
proof (intro allI impI)
  fix ix :: HashResult and s :: "('a, 'b) CuckooMap"
  assume s: "shape pw E s" "table_ok K pw (cm_entries s) (held s)" "unat ix < 2 ^ pw" "stops K ix s"
  have "MakeSpace K ix depth s = make_space_loop K (\<lambda>alt. MakeSpace K alt (depth + 1)) ix [0..<4] s"
    using assms(1) by (subst MakeSpace.simps) (simp add: kEntriesPerBucket_def)
  then show "MakeSpace K ix depth s = (- 1, s) \<or> (\<exists>i s'. MakeSpace K ix depth s = (int i, s') \<and> i < 4 \<and> shape pw E s' \<and> same_rest s s' \<and>
      act pw Q (held s) (unat ix) i (held s'))"
    using loop_makes [OF assms(2) s, of 0] by simp
qed

text \<open>The moves of \<open>MakeSpace\<close>, and that they lead closer to a table where nothing moves.\<close>

definition makes_room :: "nat \<Rightarrow> nat \<Rightarrow> nat \<Rightarrow> nat \<Rightarrow> ('k, 'v) CuckooMap \<Rightarrow> ('k, 'v) CuckooMap \<Rightarrow> bool" where
  "makes_room pw E b i s s' \<longleftrightarrow> i < 4 \<and> shape pw E s' \<and> same_rest s s' \<and> mvs pw (held s) (held s') \<and>
     (held s', held s) \<in> closer pw \<and> held s' (b, i) = None"

lemma MakeSpace_ok:
  assumes s: "shape pw E s" "table_ok K pw (cm_entries s) (held s)" "unat ix < 2 ^ pw" "stops K ix s"
  shows "MakeSpace K ix 0 s = (- 1, s) \<or> (\<exists>i s'. MakeSpace K ix 0 s = (int i, s') \<and> makes_room pw E (unat ix) i s s')"
proof -
  have "makes K pw E (\<lambda>_ _ _ _. False) (\<lambda>ix. MakeSpace K ix 3)"
    by (simp add: makes_def MakeSpace.simps [where depth = 3] kMaxCuckooPath_def)
  then have "makes K pw E (act pw (act pw (act pw (\<lambda>_ _ _ _. False)))) (\<lambda>ix. MakeSpace K ix 0)"
    using MakeSpace_makes [of 2 K pw E "\<lambda>_ _ _ _. False"] MakeSpace_makes [of 1 K pw E "act pw (\<lambda>_ _ _ _. False)"]
      MakeSpace_makes [of 0 K pw E "act pw (act pw (\<lambda>_ _ _ _. False))"]
    by (simp add: kMaxCuckooPath_def numeral_eq_Suc)
  then have "MakeSpace K ix 0 s = (- 1, s) \<or> (\<exists>i s'. MakeSpace K ix 0 s = (int i, s') \<and> i < 4 \<and> shape pw E s' \<and> same_rest s s' \<and>
      act pw (act pw (act pw (\<lambda>_ _ _ _. False))) (held s) (unat ix) i (held s'))"
    using s unfolding makes_def by blast
  then show ?thesis using act3 [OF _ shapeD(1) [OF s(1)] s(3)] unfolding makes_room_def by blast
qed

end
