(* ===== verification/Cuckoo_Spec.thy ===== *)
theory Cuckoo_Spec
  imports Cuckoo_Space
begin

text \<open>
  The cuckoo map as a finite map. The invariant \<open>cm_ok\<close> ties the slots, the entries and the stack of free entries
  together; lookup, insertion and removal act on the abstract map as they should. The overlap of the last
  cell of the stack with the first entry does no harm: that cell is in use only while every entry is free.
\<close>

section \<open>The invariant\<close>

text \<open>What the code relies on of the template parameters.\<close>

locale key_laws =
  fixes K :: "('k, 'v) key_ops"
  assumes eq_iff: "k_eq K a b \<longleftrightarrow> a = b"
    and first_put: "k_first K (k_put K w k) = w"

definition free_list :: "('k, 'v) key_ops \<Rightarrow> ('k, 'v) CuckooMap \<Rightarrow> nat list" where
  "free_list K s = map (\<lambda>j. unat (stck_get K j s)) [1..<Suc (es_head s)]"

definition cm_ok :: "('k, 'v) key_ops \<Rightarrow> nat \<Rightarrow> nat \<Rightarrow> ('k, 'v) CuckooMap \<Rightarrow> ('k \<rightharpoonup> 'v) \<Rightarrow> bool" where
  "cm_ok K pw E s M \<longleftrightarrow> shape pw E s \<and> table_ok K pw (cm_entries s) (held s) \<and>
     inj_on (\<lambda>e. fst (cm_entries s ! e)) (used pw (held s)) \<and> distinct (free_list K s) \<and>
     set (free_list K s) = {..<E} - used pw (held s) \<and> num_entries s = of_nat (card (used pw (held s))) \<and>
     (\<forall>k v. M k = Some v \<longleftrightarrow> (\<exists>e\<in>used pw (held s). cm_entries s ! e = (k, v)))"

text \<open>A call that binds \<open>key\<close> to \<open>val\<close> and returns its entry.\<close>

definition adds :: "('k, 'v) key_ops \<Rightarrow> nat \<Rightarrow> nat \<Rightarrow> 'k \<Rightarrow> 'v \<Rightarrow> ('k \<rightharpoonup> 'v) \<Rightarrow> EntryIndex option \<times> ('k, 'v) CuckooMap \<Rightarrow> bool" where
  "adds K pw E key val M r \<longleftrightarrow> (\<exists>f. fst r = Some (of_nat f) \<and> cm_ok K pw E (snd r) (M(key \<mapsto> val)) \<and> f < E \<and>
     cm_entries (snd r) ! f = (key, val))"

lemma cm_okD:
  assumes "cm_ok K pw E s M"
  shows "shape pw E s" "table_ok K pw (cm_entries s) (held s)" "inj_on (\<lambda>e. fst (cm_entries s ! e)) (used pw (held s))"
    "distinct (free_list K s)" "set (free_list K s) = {..<E} - used pw (held s)"
    "num_entries s = of_nat (card (used pw (held s)))" "M k = Some v \<longleftrightarrow> (\<exists>e\<in>used pw (held s). cm_entries s ! e = (k, v))"
  using assms by (simp_all add: cm_ok_def)

lemma used_less: "table_ok K pw es H \<Longrightarrow> used pw H \<subseteq> {..<length es}"
  by (auto simp: used_def table_ok_def)

lemma cm_used:
  assumes "cm_ok K pw E s M"
  shows "used pw (held s) \<subseteq> {..<E}" "finite (used pw (held s))" "card (used pw (held s)) + es_head s = E"
proof -
  have "length (cm_entries s) = E" using cm_okD(1) [OF assms] by (simp add: shape_def)
  then show sub: "used pw (held s) \<subseteq> {..<E}" using used_less [OF cm_okD(2) [OF assms]] by simp
  then show fin: "finite (used pw (held s))" by (rule finite_subset) simp
  have "es_head s = card ({..<E} - used pw (held s))"
    using distinct_card [OF cm_okD(4) [OF assms]] cm_okD(5) [OF assms] by (simp add: free_list_def)
  also have "\<dots> = E - card (used pw (held s))" using card_Diff_subset [OF fin sub] by simp
  finally show "card (used pw (held s)) + es_head s = E" using card_mono [OF _ sub] by simp
qed

text \<open>Moving slots keeps the map.\<close>

lemma cm_ok_mvs:
  assumes "cm_ok K pw E s M" "shape pw E s'" "same_rest s s'" "mvs pw (held s) (held s')"
  shows "cm_ok K pw E s' M"
proof -
  note r = same_restD [OF assms(3)]
  have "free_list K s' = free_list K s" by (simp add: free_list_def stck_get_def r)
  moreover have "table_ok K pw (cm_entries s) (held s')" "used pw (held s') = used pw (held s)"
    using mvs_table [OF assms(4) cm_okD(2) [OF assms(1)]] by blast+
  ultimately show ?thesis using assms(1,2) by (simp add: cm_ok_def r)
qed

lemma Hash_nonzero [simp]: "Hash K key \<noteq> 0"
proof
  assume "Hash K key = 0"
  then have "\<not> bit (Hash K key) 31" by simp
  then show False by (simp add: Hash_def bit_simps)
qed

section \<open>Slots that come and go\<close>

lemma table_cong:
  assumes "table_ok K pw es H" "length es' = length es" "\<And>e. e \<in> used pw H \<Longrightarrow> es' ! e = es ! e"
  shows "table_ok K pw es' H"
proof -
  have u: "e \<in> used pw H" if "p \<in> slots pw" "H p = Some (h, e)" for p h e using that by (auto simp: used_def)
  have 1: "e < length es \<and> h = Hash K (fst (es ! e)) \<and> fst p \<in> {pri_of pw h, sec_of pw h}" if "p \<in> slots pw" "H p = Some (h, e)" for p h e
    using assms(1) that unfolding table_ok_def by blast
  have "e < length es' \<and> h = Hash K (fst (es' ! e)) \<and> fst p \<in> {pri_of pw h, sec_of pw h}" if "p \<in> slots pw" "H p = Some (h, e)" for p h e
    using 1 [OF that] assms(2) assms(3) [OF u [OF that]] by metis
  then show ?thesis using assms(1) unfolding table_ok_def by blast
qed

lemma table_add:
  assumes tab: "table_ok K pw es H" and p: "p \<in> slots pw" "H p = None" "fst p \<in> {pri_of pw (Hash K key), sec_of pw (Hash K key)}"
    and f: "f < length es" "f \<notin> used pw H"
  shows "table_ok K pw (es[f := (key, v)]) (H(p := Some (Hash K key, f)))" "used pw (H(p := Some (Hash K key, f))) = insert f (used pw H)"
proof -
  let ?H = "H(p := Some (Hash K key, f))" and ?es = "es[f := (key, v)]"
  have u: "e \<noteq> f" if "q \<in> slots pw" "H q = Some (h, e)" for q h e using that f(2) by (auto simp: used_def)
  have old: "e < length es \<and> h = Hash K (fst (es ! e)) \<and> fst q \<in> {pri_of pw h, sec_of pw h}" if "q \<in> slots pw" "H q = Some (h, e)" for q h e
    using tab that unfolding table_ok_def by blast
  have inj: "q = r" if "q \<in> slots pw" "r \<in> slots pw" "H q = Some (h, e)" "H r = Some (h', e)" for q r h h' e
    using tab that unfolding table_ok_def by blast
  have 1: "e < length ?es \<and> h = Hash K (fst (?es ! e)) \<and> fst q \<in> {pri_of pw h, sec_of pw h}"
    if q: "q \<in> slots pw" "?H q = Some (h, e)" for q h e
  proof (cases "q = p")
    case True
    then show ?thesis using q(2) p(3) f(1) by auto
  next
    case False
    then have "H q = Some (h, e)" using q(2) by simp
    from old [OF q(1) this] u [OF q(1) this] show ?thesis by (metis length_list_update nth_list_update_neq)
  qed
  have 2: "q = r" if "q \<in> slots pw" "r \<in> slots pw" "?H q = Some (h, e)" "?H r = Some (h', e)" for q r h h' e
    using that u [of q h e] u [of r h' e] inj [of q r h e h'] by (auto split: if_splits)
  show "table_ok K pw ?es ?H" unfolding table_ok_def using 1 2 by blast
  have "\<exists>g. ?H q = Some (g, x)" if "H q = Some (g, x)" for q g x using that p(2) by (cases "q = p") auto
  then have "used pw H \<subseteq> used pw ?H" "f \<in> used pw ?H" unfolding used_def using p(1) by (blast, auto)
  moreover have "used pw ?H \<subseteq> insert f (used pw H)" by (auto simp: used_def split: if_splits)
  ultimately show "used pw ?H = insert f (used pw H)" by blast
qed

lemma table_del:
  assumes tab: "table_ok K pw es H" and p: "p \<in> slots pw" "H p = Some (h, e)"
  shows "table_ok K pw es (H(p := None))" "used pw (H(p := None)) = used pw H - {e}" "e \<in> used pw H"
proof -
  have inj: "q = p" if "q \<in> slots pw" "H q = Some (h', e)" for q h'
    using tab that p unfolding table_ok_def by blast
  have sub: "H q = Some (g, x)" if "(H(p := None)) q = Some (g, x)" for q g x using that by (simp split: if_splits)
  show "table_ok K pw es (H(p := None))" using tab sub unfolding table_ok_def by blast
  show "e \<in> used pw H" using p by (auto simp: used_def)
  have ne: "q \<noteq> p" if "q \<in> slots pw" "H q = Some (g, x)" "x \<noteq> e" for q g x using that p(2) by auto
  have "x \<noteq> e" if "q \<in> slots pw" "(H(p := None)) q = Some (g, x)" for q g x
  proof
    assume "x = e"
    then have "q = p" using inj [OF that(1)] sub [OF that(2)] by blast
    then show False using that(2) by simp
  qed
  then have "used pw (H(p := None)) \<subseteq> used pw H - {e}" unfolding used_def using sub by blast
  moreover have "\<exists>g. (H(p := None)) q = Some (g, x)" if "q \<in> slots pw" "H q = Some (g, x)" "x \<noteq> e" for q g x
    using ne [OF that] that(2) by simp
  then have "used pw H - {e} \<subseteq> used pw (H(p := None))" unfolding used_def by blast
  ultimately show "used pw (H(p := None)) = used pw H - {e}" by blast
qed

text \<open>The map after an entry was added, changed or removed.\<close>

lemma map_add:
  assumes "\<And>k v. M k = Some v \<longleftrightarrow> (\<exists>e\<in>U. es ! e = (k, v))" "M key = None" "f \<notin> U" "f < length es"
  shows "(M(key \<mapsto> x)) k = Some v \<longleftrightarrow> (\<exists>e\<in>insert f U. es[f := (key, x)] ! e = (k, v))"
proof -
  have ne: "es ! e \<noteq> (key, y)" if "e \<in> U" for e y using assms(1) [of key y] assms(2) that by auto
  have "es[f := (key, x)] ! e = (if e = f then (key, x) else es ! e)" for e using assms(4) by simp
  moreover have "e \<noteq> f" if "e \<in> U" for e using assms(3) that by blast
  ultimately have "(\<exists>e\<in>insert f U. es[f := (key, x)] ! e = (k, v)) \<longleftrightarrow> (key, x) = (k, v) \<or> (\<exists>e\<in>U. es ! e = (k, v))" by auto
  then show ?thesis using assms(1) [of k v] ne by (cases "k = key") auto
qed

lemma map_change:
  assumes "\<And>k v. M k = Some v \<longleftrightarrow> (\<exists>e\<in>U. es ! e = (k, v))" "inj_on (\<lambda>e. fst (es ! e)) U" "f \<in> U" "fst (es ! f) = key" "f < length es"
  shows "(M(key \<mapsto> x)) k = Some v \<longleftrightarrow> (\<exists>e\<in>U. es[f := (key, x)] ! e = (k, v))"
proof (cases "k = key")
  case True
  have "es ! e \<noteq> (key, v)" if "e \<in> U" "e \<noteq> f" for e using inj_onD [OF assms(2), of e f] that assms(3,4) by auto
  then have "es[f := (key, x)] ! e = (key, v) \<longleftrightarrow> e = f \<and> x = v" if "e \<in> U" for e using that assms(5) by (cases "e = f") auto
  then show ?thesis using True assms(3) by auto
next
  case False
  then have "es ! e = (k, v) \<longleftrightarrow> es[f := (key, x)] ! e = (k, v)" for e using assms(4,5) by (auto simp: nth_list_update)
  then show ?thesis using False assms(1) by simp
qed

lemma map_remove:
  assumes "\<And>k v. M k = Some v \<longleftrightarrow> (\<exists>e\<in>U. es ! e = (k, v))" "inj_on (\<lambda>e. fst (es ! e)) U" "f \<in> U" "fst (es ! f) = key"
    and "\<And>e. e \<in> U - {f} \<Longrightarrow> es' ! e = es ! e"
  shows "(M(key := None)) k = Some v \<longleftrightarrow> (\<exists>e\<in>U - {f}. es' ! e = (k, v))"
proof (cases "k = key")
  case True
  have "es ! e \<noteq> (key, v)" if "e \<in> U - {f}" for e using inj_onD [OF assms(2), of e f] that assms(3,4) by auto
  then show ?thesis using True assms(5) by simp
next
  case False
  then have "(\<exists>e\<in>U. es ! e = (k, v)) \<longleftrightarrow> (\<exists>e\<in>U - {f}. es ! e = (k, v))" using assms(4) by (metis Diff_iff empty_iff fst_conv insert_iff)
  then show ?thesis using False assms(1,5) by simp
qed

section \<open>Lookup\<close>

context key_laws
begin

lemma find_slot:
  assumes sh: "shape pw E s" and b: "b = unat ix" "b < 2 ^ pw" and h: "h \<noteq> 0"
  shows "(FindSlot K (bucket_at ix s) h key s = - 1 \<and> (\<forall>i<4. \<forall>e. held s (b, i) = Some (h, e) \<longrightarrow> fst (cm_entries s ! e) \<noteq> key)) \<or>
    (\<exists>i<4. \<exists>e. FindSlot K (bucket_at ix s) h key s = int i \<and> held s (b, i) = Some (h, e) \<and> fst (cm_entries s ! e) = key)"
proof -
  let ?P = "\<lambda>i. hash_values (bucket_at ix s) ! i = h \<and> Eq K (fst (cm_entries s ! unat (entry_indices (bucket_at ix s) ! i))) key"
  have P: "?P i \<longleftrightarrow> (\<exists>e. held s (b, i) = Some (h, e) \<and> fst (cm_entries s ! e) = key)" for i
    using h b(1) by (auto simp: held_def bucket_at_def Eq_def eq_iff Let_def)
  have "first_slot ?P = - 1 \<and> (\<forall>i<4. \<not> ?P i) \<or> (\<exists>i<4. first_slot ?P = int i \<and> ?P i)"
    using first_slot_iff(1,3) [of ?P] by blast
  then show ?thesis unfolding FindSlot_def P by blast
qed

lemma get_bucket:
  assumes sh: "shape pw E s" and tab: "table_ok K pw (cm_entries s) (held s)" and b: "b = unat ix" "b < 2 ^ pw" and h: "h \<noteq> 0"
  shows "(GetFromBucket K h ix key s = kInvalidEntryIdx \<and> (\<forall>i<4. \<forall>e. held s (b, i) = Some (h, e) \<longrightarrow> fst (cm_entries s ! e) \<noteq> key)) \<or>
    (\<exists>i<4. \<exists>e. GetFromBucket K h ix key s = of_nat e \<and> e < E \<and> held s (b, i) = Some (h, e) \<and> fst (cm_entries s ! e) = key)"
  using find_slot [OF sh b h, of key]
proof (elim disjE exE conjE)
  fix i e
  assume i: "i < 4" "FindSlot K (bucket_at ix s) h key s = int i" "held s (b, i) = Some (h, e)" "fst (cm_entries s ! e) = key"
  have "e < E" using tab sh i(1,3) b(2) by (auto simp: table_ok_def slots_def shape_def)
  moreover have "GetFromBucket K h ix key s = of_nat e"
    using i(2,3) b(1) by (auto simp: GetFromBucket_def Let_def held_def bucket_at_def split: if_splits)
  ultimately show ?thesis using i by blast
next
  assume "FindSlot K (bucket_at ix s) h key s = - 1" "\<forall>i<4. \<forall>e. held s (b, i) = Some (h, e) \<longrightarrow> fst (cm_entries s ! e) \<noteq> key"
  then show ?thesis by (simp add: GetFromBucket_def Let_def)
qed

lemma index_valid: "e < E \<Longrightarrow> E < 2 ^ 31 \<Longrightarrow> (of_nat e :: u32) \<noteq> kInvalidEntryIdx" "e < E \<Longrightarrow> E < 2 ^ 31 \<Longrightarrow> unat (of_nat e :: u32) = e"
proof -
  assume e: "e < E" "E < 2 ^ 31"
  then show u: "unat (of_nat e :: u32) = e" by (simp add: unat_of_nat)
  have "kInvalidEntryIdx = of_nat (2 ^ 32 - 1)" by (simp add: kInvalidEntryIdx_def)
  from arg_cong [OF this, of unat] have "unat kInvalidEntryIdx = 2 ^ 32 - 1" by (simp only: unat_of_nat) simp
  then show "(of_nat e :: u32) \<noteq> kInvalidEntryIdx" using u e by auto
qed

lemma FindWithHash_ok:
  assumes ok: "cm_ok K pw E s M"
  shows "case M key of
      None \<Rightarrow> FindWithHash K (Hash K key) key s = kInvalidEntryIdx
    | Some v \<Rightarrow> \<exists>e\<in>used pw (held s). FindWithHash K (Hash K key) key s = of_nat e \<and> cm_entries s ! e = (key, v)"
proof -
  let ?h = "Hash K key" and ?U = "used pw (held s)"
  note sh = cm_okD(1) [OF ok] and tab = cm_okD(2) [OF ok] and inj = cm_okD(3) [OF ok]
  have pw: "pw < 31" "bucket_mask s = mask pw" "E < 2 ^ 31" using sh by (auto simp: shape_def)
  let ?p = "?h AND mask pw" and ?q = "HashSecondary ?h AND mask pw"
  have lt: "unat ?p < 2 ^ pw" "unat ?q < 2 ^ pw" using masked_less [OF pw(1)] by blast+
  note gp = get_bucket [OF sh tab refl lt(1) Hash_nonzero, of K key key] and gq = get_bucket [OF sh tab refl lt(2) Hash_nonzero, of K key key]
  have hit: "e \<in> ?U" if "held s (b, i) = Some (?h, e)" "i < 4" "b < 2 ^ pw" for b i e
    using that by (auto simp: used_def slots_def)
  have F: "FindWithHash K ?h key s = (let r = GetFromBucket K ?h ?p key s in
      if r \<noteq> kInvalidEntryIdx then r else GetFromBucket K ?h ?q key s)" by (simp add: FindWithHash_def pw(2) Let_def)
  have found: "FindWithHash K ?h key s = kInvalidEntryIdx \<or>
      (\<exists>e\<in>?U. FindWithHash K ?h key s = of_nat e \<and> fst (cm_entries s ! e) = key)"
    using gp gq hit lt unfolding F Let_def by (metis index_valid(1) [OF _ pw(3)])
  have complete: "FindWithHash K ?h key s \<noteq> kInvalidEntryIdx" if e: "e \<in> ?U" "fst (cm_entries s ! e) = key" for e
  proof -
    obtain b i h where p: "b < 2 ^ pw" "i < 4" "held s (b, i) = Some (h, e)" using e(1) by (auto simp: used_def slots_def)
    then have h: "h = ?h" "b \<in> {unat ?p, unat ?q}" using tab e(2) by (auto simp: table_ok_def slots_def pri_of_def sec_of_def)
    then show ?thesis using gp gq p e(2) unfolding F Let_def by (auto dest: index_valid(1) [OF _ pw(3)])
  qed
  show ?thesis
  proof (cases "M key")
    case None
    have "fst (cm_entries s ! e) \<noteq> key" if "e \<in> ?U" for e
      using None that cm_okD(7) [OF ok, of key "snd (cm_entries s ! e)"] by (auto simp: prod_eq_iff)
    then show ?thesis using found None by auto
  next
    case (Some v)
    then obtain e where e: "e \<in> ?U" "cm_entries s ! e = (key, v)" using cm_okD(7) [OF ok] by blast
    then obtain e' where e': "e' \<in> ?U" "FindWithHash K ?h key s = of_nat e'" "fst (cm_entries s ! e') = key"
      using found complete [OF e(1)] by auto
    have "e' = e" using inj_onD [OF inj, of e' e] e e' by simp
    then show ?thesis using Some e e' by auto
  qed
qed

lemma Find_ok:
  assumes ok: "cm_ok K pw E s M"
  shows "case M key of None \<Rightarrow> Find K key s = None | Some v \<Rightarrow> \<exists>e. Find K key s = Some e \<and> cm_entries s ! unat e = (key, v)"
proof -
  have E: "E < 2 ^ 31" using cm_okD(1) [OF ok] by (simp add: shape_def)
  have v: "(of_nat e :: u32) \<noteq> kInvalidEntryIdx" "unat (of_nat e :: u32) = e" if "e \<in> used pw (held s)" for e
    using index_valid [OF _ E, of e] cm_used(1) [OF ok] that by auto
  show ?thesis
  proof (cases "M key")
    case None
    then show ?thesis using FindWithHash_ok [OF ok, of key] by (simp add: Find_def Let_def)
  next
    case (Some x)
    then obtain e where e: "e \<in> used pw (held s)" "FindWithHash K (Hash K key) key s = of_nat e" "cm_entries s ! e = (key, x)"
      using FindWithHash_ok [OF ok, of key] by auto
    then show ?thesis using Some v [OF e(1)] by (simp add: Find_def Let_def)
  qed
qed


section \<open>Adding an entry\<close>

lemma free_last:
  assumes "0 < es_head s"
  shows "free_list K s = free_list K (s\<lparr>es_head := es_head s - 1\<rparr>) @ [unat (Top K s)]"
proof -
  have "[1..<Suc (es_head s)] = [1..<es_head s] @ [es_head s]" using assms by simp
  then show ?thesis using assms by (simp add: free_list_def stck_get_def Top_def)
qed

lemma pop_free:
  assumes ok: "cm_ok K pw E s M" and hd: "0 < es_head s"
  obtains f where "PopFreeEntryIndex K s = (of_nat f, M_mark Mark_head (s\<lparr>es_head := es_head s - 1\<rparr>))" "f < E"
    "f \<notin> used pw (held s)" "free_list K s = free_list K (s\<lparr>es_head := es_head s - 1\<rparr>) @ [f]"
proof -
  let ?f = "unat (Top K s)"
  have fl: "free_list K s = free_list K (s\<lparr>es_head := es_head s - 1\<rparr>) @ [?f]" by (rule free_last [OF hd])
  have "?f \<in> set (free_list K s)" unfolding fl by simp
  then have "?f < E" "?f \<notin> used pw (held s)" unfolding cm_okD(5) [OF ok] by simp_all
  moreover have "PopFreeEntryIndex K s = (of_nat ?f, M_mark Mark_head (s\<lparr>es_head := es_head s - 1\<rparr>))"
    using hd by (simp add: PopFreeEntryIndex_def EntryStack_Empty_def Pop_def Let_def)
  ultimately show ?thesis using that fl by blast
qed

text \<open>No entry left, or no slot: nothing happens.\<close>

lemma AddToBucket_none:
  assumes "es_head s = 0 \<or> full (held s) (unat ix)"
  shows "AddToBucket K ix key val s = (None, s)"
  using assms empty_slot(1) [OF refl, of ix s]
  by (auto simp: AddToBucket_def PopFreeEntryIndex_def EntryStack_Empty_def Let_def)

lemma free_list_same:
  assumes "es_head t = es_head s" "es_stck t = es_stck s" "es_head s < length (es_stck s)"
  shows "free_list K t = free_list K s"
  using assms by (simp add: free_list_def stck_get_def)

lemma AddToBucket_ok:
  assumes ok: "cm_ok K pw E s M" and new: "M key = None" and hd: "0 < es_head s"
    and ix: "unat ix \<in> {pri_of pw (Hash K key), sec_of pw (Hash K key)}" and sl: "\<not> full (held s) (unat ix)"
  shows "\<exists>f s'. AddToBucket K ix key val s = (Some (of_nat f), s') \<and> cm_ok K pw E s' (M(key \<mapsto> val)) \<and>
    f < E \<and> cm_entries s' ! f = (key, val) \<and> es_head s' = es_head s - 1"
proof -
  note sh = cm_okD(1) [OF ok] and tab = cm_okD(2) [OF ok]
  have E: "E < 2 ^ 31" "es_head s \<le> E" "length (es_stck s) = E" "length (cm_entries s) = E" using sh by (simp_all add: shape_def)
  have lt: "unat ix < 2 ^ pw" using ix shapeD(1) [OF sh] by auto
  obtain i where i: "i < 4" "FindEmptySlot (bucket_at ix s) = int i" "held s (unat ix, i) = None"
    using empty_slot [OF refl, of ix s] sl by blast
  obtain f where f: "PopFreeEntryIndex K s = (of_nat f, M_mark Mark_head (s\<lparr>es_head := es_head s - 1\<rparr>))" "f < E"
    "f \<notin> used pw (held s)" "free_list K s = free_list K (s\<lparr>es_head := es_head s - 1\<rparr>) @ [f]" by (rule pop_free [OF ok hd])
  note fv = index_valid [OF f(2) E(1)]
  define s1 where "s1 = M_mark Mark_head (s\<lparr>es_head := es_head s - 1\<rparr>)"
  define s2 where "s2 = upd_bucket ix (set_hash i (Hash K key)) s1"
  define s3 where "s3 = upd_bucket ix (set_index i (of_nat f)) s2"
  define s4 where "s4 = M_mark (Mark_entry f) (set_entry (of_nat f) (key, val) (M_mark (Mark_bucket (unat ix)) s3))"
  define s' where "s' = s4\<lparr>num_entries := num_entries s4 + 1\<rparr>"
  have res: "AddToBucket K ix key val s = (Some (of_nat f), s')"
    using i(2) fv by (simp add: AddToBucket_def f(1) s1_def s2_def s3_def s4_def s'_def Let_def)
  have sh1: "shape pw E s1" using sh by (auto simp: s1_def shape_def M_mark_def)
  have sh2: "shape pw E s2" "shape pw E s3" using sh1 f(2) fv(2) by (simp_all add: s2_def s3_def shape_upd bucket_ok_set)
  have h1: "held s1 = held s" by (simp add: s1_def held_def fun_eq_iff)
  have h3: "held s3 = (held s)((unat ix, i) := Some (Hash K key, f))"
    using held_upd_hash [OF refl, of ix s1 i "Hash K key"] held_upd_index [OF refl, of ix s2 i "of_nat f"]
      shapeD(3-5) [OF sh1] shapeD(3-5) [OF sh2(1)] lt i(1) fv(2)
    by (simp add: s3_def s2_def [symmetric] h1)
  have r: "cm_buckets s' = cm_buckets s3" "cm_entries s' = (cm_entries s)[f := (key, val)]" "es_head s' = es_head s - 1"
    "es_stck s' = es_stck s" "num_entries s' = num_entries s + 1" "bucket_mask s' = bucket_mask s3" "es_size s' = es_size s3"
    "alloc_num_buckets s' = alloc_num_buckets s3" "alloc_num_entries s' = alloc_num_entries s3"
    using fv(2) by (simp_all add: s'_def s4_def s3_def s2_def s1_def M_mark_def upd_bucket_def set_entry_def)
  have h: "held s' = (held s)((unat ix, i) := Some (Hash K key, f))" unfolding h3 [symmetric] by (simp add: held_def fun_eq_iff r(1))
  have "shape pw E s'" using sh2(2) E hd by (auto simp: shape_def r)
  moreover have slot: "(unat ix, i) \<in> slots pw" using lt i(1) by (simp add: slots_def)
  have fe: "f < length (cm_entries s)" using f(2) E(4) by simp
  note add = table_add(1) [OF tab slot i(3) _ fe f(3), of key val] table_add(2) [OF tab slot i(3) _ fe f(3), of key]
  have tab': "table_ok K pw (cm_entries s') (held s')" and U: "used pw (held s') = insert f (used pw (held s))"
    using add ix unfolding h r by simp_all
  moreover have nk: "fst (cm_entries s ! e) \<noteq> key" if "e \<in> used pw (held s)" for e
    using new that cm_okD(7) [OF ok, of key "snd (cm_entries s ! e)"] by (auto simp: prod_eq_iff)
  have "inj_on (\<lambda>e. fst (cm_entries s' ! e)) (used pw (held s'))"
  proof -
    have nth: "cm_entries s' ! e = (if e = f then (key, val) else cm_entries s ! e)" for e using fe by (simp add: r)
    have "inj_on (\<lambda>e. fst (cm_entries s' ! e)) (used pw (held s))"
      using cm_okD(3) [OF ok] f(3) by (intro inj_onI) (auto simp: nth inj_on_def split: if_splits)
    moreover have "fst (cm_entries s' ! e) \<noteq> key" if "e \<in> used pw (held s)" for e using nk [OF that] that f(3) by (auto simp: nth)
    then have "fst (cm_entries s' ! f) \<notin> (\<lambda>e. fst (cm_entries s' ! e)) ` used pw (held s)" unfolding nth [of f] by force
    ultimately show ?thesis unfolding U using f(3) by simp
  qed
  moreover have fr: "free_list K s' = free_list K (s\<lparr>es_head := es_head s - 1\<rparr>)"
    using E hd by (intro free_list_same) (simp_all add: r)
  have "distinct (free_list K s')" "set (free_list K s') = {..<E} - used pw (held s')"
    using cm_okD(4,5) [OF ok] unfolding f(4) fr U by auto
  moreover have "num_entries s' = of_nat (card (used pw (held s')))"
    using cm_used(2) [OF ok] f(3) by (simp add: U r cm_okD(6) [OF ok])
  moreover have "(M(key \<mapsto> val)) k = Some v \<longleftrightarrow> (\<exists>e\<in>used pw (held s'). cm_entries s' ! e = (k, v))" for k v
    unfolding U r by (rule map_add [OF cm_okD(7) [OF ok] new f(3) fe])
  ultimately have "cm_ok K pw E s' (M(key \<mapsto> val))" unfolding cm_ok_def by blast
  then show ?thesis using res f(2) fe r(2,3) by auto
qed

text \<open>A key whose first or second bucket has an empty slot is added at once.\<close>

lemma AddEntry_room:
  assumes ok: "cm_ok K pw E s M" and new: "M key = None" and hd: "0 < es_head s"
    and sl: "\<not> full (held s) (pri_of pw (Hash K key)) \<or> \<not> full (held s) (sec_of pw (Hash K key))"
  shows "\<exists>r. AddEntry K (Hash K key) (HashSecondary (Hash K key)) key val s = Some r \<and> adds K pw E key val M r"
proof -
  let ?h = "Hash K key"
  have mask: "bucket_mask s = mask pw" by (rule shapeD(2) [OF cm_okD(1) [OF ok]])
  show ?thesis
  proof (cases "full (held s) (pri_of pw ?h)")
    case False
    then obtain f s' where a: "AddToBucket K (?h AND mask pw) key val s = (Some (of_nat f), s')" "cm_ok K pw E s' (M(key \<mapsto> val))"
      "f < E" "cm_entries s' ! f = (key, val)"
      using AddToBucket_ok [OF ok new hd, of "?h AND mask pw" val] by (auto simp: pri_of_def)
    have "AddEntry K ?h (HashSecondary ?h) key val s = Some (Some (of_nat f), s')"
      by (subst AddEntry.simps) (simp add: mask a(1) Let_def)
    then show ?thesis using a by (auto simp: adds_def)
  next
    case True
    then have p: "AddToBucket K (?h AND mask pw) key val s = (None, s)" by (intro AddToBucket_none) (simp add: pri_of_def)
    have "\<not> full (held s) (sec_of pw ?h)" using True sl by blast
    then obtain f s' where a: "AddToBucket K (HashSecondary ?h AND mask pw) key val s = (Some (of_nat f), s')" "cm_ok K pw E s' (M(key \<mapsto> val))"
      "f < E" "cm_entries s' ! f = (key, val)"
      using AddToBucket_ok [OF ok new hd, of "HashSecondary ?h AND mask pw" val] by (auto simp: sec_of_def)
    have "AddEntry K ?h (HashSecondary ?h) key val s = Some (Some (of_nat f), s')"
      by (subst AddEntry.simps) (simp add: mask p a(1) Let_def)
    then show ?thesis using a by (auto simp: adds_def)
  qed
qed

text \<open>With a free entry left, \<open>AddEntry\<close> ends: a successful \<open>MakeSpace\<close> leaves an empty slot for the second round.\<close>

lemma AddEntry_full:
  assumes "AddToBucket K (primary AND bucket_mask s) key val s = (None, s)" "AddToBucket K (secondary AND bucket_mask s) key val s = (None, s)"
  shows "AddEntry K primary secondary key val s = (case MakeSpace K (primary AND bucket_mask s) 0 s of (r, t) \<Rightarrow>
      if r \<ge> 0 then AddEntry K primary secondary key val t
      else case MakeSpace K (secondary AND bucket_mask s) 0 t of (r, t) \<Rightarrow>
        if r \<ge> 0 then AddEntry K primary secondary key val t else Some (None, t))"
  using assms by (subst AddEntry.simps) (simp add: Let_def split_def)

text \<open>One round that adds nothing: it ends the loop, or starts the next round on a table with the same entries.\<close>

lemma AddEntry_round:
  assumes ok: "cm_ok K pw E s M"
    and none: "\<forall>ix. unat ix \<in> {pri_of pw (Hash K key), sec_of pw (Hash K key)} \<longrightarrow> AddToBucket K ix key val s = (None, s) \<and> stops K ix s"
  shows "AddEntry K (Hash K key) (HashSecondary (Hash K key)) key val s = Some (None, s) \<or>
    (\<exists>b i s'. b \<in> {pri_of pw (Hash K key), sec_of pw (Hash K key)} \<and> makes_room pw E b i s s' \<and>
      AddEntry K (Hash K key) (HashSecondary (Hash K key)) key val s = AddEntry K (Hash K key) (HashSecondary (Hash K key)) key val s')"
proof -
  let ?h = "Hash K key" and ?go = "AddEntry K (Hash K key) (HashSecondary (Hash K key)) key val"
  note sh = cm_okD(1) [OF ok] and tab = cm_okD(2) [OF ok]
  have mask: "bucket_mask s = mask pw" by (rule shapeD(2) [OF sh])
  let ?p = "?h AND mask pw" and ?q = "HashSecondary ?h AND mask pw"
  have pq: "unat ?p = pri_of pw ?h" "unat ?q = sec_of pw ?h" by (simp_all add: pri_of_def sec_of_def)
  have lt: "unat ?p < 2 ^ pw" "unat ?q < 2 ^ pw" using masked_less [OF shapeD(1) [OF sh]] by blast+
  have np: "AddToBucket K ?p key val s = (None, s)" "stops K ?p s" and nq: "AddToBucket K ?q key val s = (None, s)" "stops K ?q s"
    using none [rule_format, of ?p] none [rule_format, of ?q] pq by simp_all
  note go = AddEntry_full [of ?h s key val "HashSecondary ?h", unfolded mask, OF np(1) nq(1)]
  from MakeSpace_ok [OF sh tab lt(1) np(2)] show ?thesis
  proof (elim disjE exE conjE)
    fix i s'
    assume m: "MakeSpace K ?p 0 s = (int i, s')" "makes_room pw E (unat ?p) i s s'"
    then have "?go s = ?go s'" by (simp add: go)
    then show ?thesis using m(2) pq(1) by auto
  next
    assume p: "MakeSpace K ?p 0 s = (- 1, s)"
    from MakeSpace_ok [OF sh tab lt(2) nq(2)] show ?thesis
    proof (elim disjE exE conjE)
      fix i s'
      assume m: "MakeSpace K ?q 0 s = (int i, s')" "makes_room pw E (unat ?q) i s s'"
      then have "?go s = ?go s'" by (simp add: go p)
      then show ?thesis using m(2) pq(2) by auto
    qed (simp add: go p)
  qed
qed

lemma AddEntry_ok:
  assumes ok: "cm_ok K pw E s M" and new: "M key = None" and hd: "0 < es_head s"
  shows "\<exists>r. AddEntry K (Hash K key) (HashSecondary (Hash K key)) key val s = Some r \<and> (r = (None, s) \<or> adds K pw E key val M r)"
proof (cases "full (held s) (pri_of pw (Hash K key)) \<and> full (held s) (sec_of pw (Hash K key))")
  case False
  then show ?thesis using AddEntry_room [OF ok new hd, of val] by blast
next
  case True
  have "\<forall>ix. unat ix \<in> {pri_of pw (Hash K key), sec_of pw (Hash K key)} \<longrightarrow> AddToBucket K ix key val s = (None, s) \<and> stops K ix s"
    using True by (auto intro!: AddToBucket_none full_stops)
  from AddEntry_round [OF ok this] show ?thesis
  proof (elim disjE exE conjE)
    fix b i s'
    assume b: "b \<in> {pri_of pw (Hash K key), sec_of pw (Hash K key)}" and m: "makes_room pw E b i s s'"
      and go: "AddEntry K (Hash K key) (HashSecondary (Hash K key)) key val s = AddEntry K (Hash K key) (HashSecondary (Hash K key)) key val s'"
    note m = m [unfolded makes_room_def]
    have "cm_ok K pw E s' M" using cm_ok_mvs [OF ok] m by blast
    moreover have "0 < es_head s'" using m hd same_restD(4) [of s s'] by simp
    moreover have "\<not> full (held s') b" using m by (auto simp: full_def)
    ultimately show ?thesis using AddEntry_room [of pw E s' M key val] new b go by auto
  qed simp
qed

text \<open>
  With no free entry left nothing can be added, but slots may be emptied before the loop gives up. It gives up after
  finitely many rounds when no entry has a second hash of zero.
\<close>

lemma AddEntry_exhausted:
  assumes "cm_ok K pw E s M" "es_head s = 0" "\<forall>e<E. HashSecondary (Hash K (fst (cm_entries s ! e))) \<noteq> 0"
  shows "\<exists>s'. AddEntry K (Hash K key) (HashSecondary (Hash K key)) key val s = Some (None, s') \<and> cm_ok K pw E s' M \<and> es_head s' = 0"
  using assms
proof (induction "held s" arbitrary: s rule: wf_induct_rule [OF wf_closer [of pw]])
  case (1 s)
  note sh = cm_okD(1) [OF "1.prems"(1)]
  have "\<forall>ix. unat ix \<in> {pri_of pw (Hash K key), sec_of pw (Hash K key)} \<longrightarrow> AddToBucket K ix key val s = (None, s) \<and> stops K ix s"
    using "1.prems"(2,3) shapeD(1) [OF sh] by (auto intro!: AddToBucket_none empty_stops [OF sh])
  from AddEntry_round [OF "1.prems"(1) this] show ?case
  proof (elim disjE exE conjE)
    fix b i s'
    assume m: "makes_room pw E b i s s'"
      and go: "AddEntry K (Hash K key) (HashSecondary (Hash K key)) key val s = AddEntry K (Hash K key) (HashSecondary (Hash K key)) key val s'"
    note m = m [unfolded makes_room_def]
    have "cm_ok K pw E s' M" using cm_ok_mvs [OF "1.prems"(1)] m by blast
    moreover have "es_head s' = 0" "cm_entries s' = cm_entries s" using m "1.prems"(2) same_restD(2,4) [of s s'] by simp_all
    ultimately show ?thesis using "1.hyps" [of s'] m "1.prems"(3) go by simp
  qed (use "1.prems" in simp)
qed

section \<open>Insertion\<close>

lemma Insert_new:
  assumes ok: "cm_ok K pw E s M" and new: "M key = None" and hd: "0 < es_head s"
  shows "\<exists>r. Insert K key val s = Some r \<and> (r = (None, s) \<or> adds K pw E key val M r)"
proof -
  have "FindWithHash K (Hash K key) key s = kInvalidEntryIdx" using FindWithHash_ok [OF ok, of key] new by simp
  then have "Insert K key val s = AddEntry K (Hash K key) (HashSecondary (Hash K key)) key val s" by (simp add: Insert_def Let_def)
  then show ?thesis using AddEntry_ok [OF ok new hd, of val] by simp
qed

text \<open>A key that is there gets the new value; that some entry is in use keeps the last cell of the stack out of use.\<close>

lemma Insert_old:
  assumes ok: "cm_ok K pw E s M" and old: "M key = Some v"
  shows "\<exists>r. Insert K key val s = Some r \<and> adds K pw E key val M r"
proof -
  note sh = cm_okD(1) [OF ok] and tab = cm_okD(2) [OF ok]
  let ?U = "used pw (held s)"
  have E: "E < 2 ^ 31" "length (cm_entries s) = E" "length (es_stck s) = E" using sh by (simp_all add: shape_def)
  obtain e where e: "e \<in> ?U" "FindWithHash K (Hash K key) key s = of_nat e" "cm_entries s ! e = (key, v)"
    using FindWithHash_ok [OF ok, of key] old by auto
  have lt: "e < E" using e(1) cm_used(1) [OF ok] by blast
  note ev = index_valid [OF lt E(1)]
  have "0 < card ?U" using e(1) cm_used(2) [OF ok] by (auto simp: card_gt_0_iff)
  then have hd: "es_head s < E" using cm_used(3) [OF ok] by simp
  define s' where "s' = M_mark (Mark_entry e) (set_entry (of_nat e) (key, val) s)"
  have res: "Insert K key val s = Some (Some (of_nat e), s')" using e(2,3) ev by (simp add: Insert_def Let_def s'_def)
  have r: "cm_entries s' = (cm_entries s)[e := (key, val)]" "held s' = held s" "num_entries s' = num_entries s"
    using ev(2) by (simp_all add: s'_def M_mark_def set_entry_def held_def fun_eq_iff)
  have fst': "fst (cm_entries s' ! x) = fst (cm_entries s ! x)" for x using e(3) lt E(2) by (cases "x = e") (simp_all add: r)
  have len: "length (cm_entries s') = length (cm_entries s)" by (simp add: r(1))
  have "shape pw E s'" using sh by (simp add: s'_def shape_def M_mark_def set_entry_def)
  moreover have "table_ok K pw (cm_entries s') (held s)" using tab by (simp add: table_ok_def fst' len)
  moreover have "inj_on (\<lambda>e. fst (cm_entries s' ! e)) ?U" using cm_okD(3) [OF ok] by (simp add: fst')
  moreover have "free_list K s' = free_list K s"
    using hd E by (intro free_list_same) (simp_all add: s'_def M_mark_def set_entry_def)
  moreover have "(M(key \<mapsto> val)) k = Some x \<longleftrightarrow> (\<exists>e\<in>?U. cm_entries s' ! e = (k, x))" for k x
    unfolding r by (rule map_change [OF cm_okD(7) [OF ok] cm_okD(3) [OF ok] e(1)]) (use e(3) lt E(2) in simp_all)
  ultimately have "cm_ok K pw E s' (M(key \<mapsto> val))" using cm_okD(4-6) [OF ok] by (simp add: cm_ok_def r(2,3))
  then show ?thesis using res lt E(2) by (auto simp: adds_def r(1))
qed

lemma Insert_exhausted:
  assumes ok: "cm_ok K pw E s M" and new: "M key = None" and hd: "es_head s = 0"
    and nz: "\<forall>e<E. HashSecondary (Hash K (fst (cm_entries s ! e))) \<noteq> 0"
  shows "\<exists>s'. Insert K key val s = Some (None, s') \<and> cm_ok K pw E s' M \<and> es_head s' = 0"
proof -
  have "FindWithHash K (Hash K key) key s = kInvalidEntryIdx" using FindWithHash_ok [OF ok, of key] new by simp
  then show ?thesis using AddEntry_exhausted [OF ok hd nz, of key val] by (simp add: Insert_def Let_def)
qed

lemma addsD:
  assumes "adds K pw E key val M (r, s')" "E < 2 ^ 31"
  shows "\<exists>e. r = Some e \<and> cm_ok K pw E s' (M(key \<mapsto> val)) \<and> unat e < E \<and> cm_entries s' ! unat e = (key, val)"
  using assms index_valid(2) [OF _ assms(2)] by (auto simp: adds_def)

lemma Insert_returns:
  assumes ok: "cm_ok K pw E s M"
    and nz: "M key = None \<Longrightarrow> es_head s = 0 \<Longrightarrow> \<forall>e<E. HashSecondary (Hash K (fst (cm_entries s ! e))) \<noteq> 0"
  shows "\<exists>r s'. Insert K key val s = Some (r, s') \<and>
    (case r of
       Some e \<Rightarrow> cm_ok K pw E s' (M(key \<mapsto> val)) \<and> unat e < E \<and> cm_entries s' ! unat e = (key, val)
     | None \<Rightarrow> M key = None \<and> cm_ok K pw E s' M \<and> (0 < es_head s \<longrightarrow> s' = s))"
proof -
  have E: "E < 2 ^ 31" using cm_okD(1) [OF ok] by (simp add: shape_def)
  show ?thesis
  proof (cases "M key")
    case None
    show ?thesis
    proof (cases "es_head s = 0")
      case True
      then show ?thesis using Insert_exhausted [OF ok None _ nz [OF None], of val] None by fastforce
    next
      case False
      then obtain r s' where "Insert K key val s = Some (r, s')" "(r, s') = (None, s) \<or> adds K pw E key val M (r, s')"
        using Insert_new [OF ok None, of val] by auto
      then show ?thesis using addsD [OF _ E, of pw key val M r s'] None ok by fastforce
    qed
  next
    case (Some v)
    then obtain r s' where "Insert K key val s = Some (r, s')" "adds K pw E key val M (r, s')" using Insert_old [OF ok Some, of val] by auto
    then show ?thesis using addsD [OF _ E, of pw key val M r s'] by fastforce
  qed
qed

section \<open>Removal\<close>

lemma RemoveFromBucket_none:
  assumes "FindSlot K (bucket_at ix s) h key s = - 1"
  shows "RemoveFromBucket K h ix key s = (False, s)"
  using assms by (simp add: RemoveFromBucket_def Let_def)

text \<open>
  The freed index goes on the stack. Where the stack is then full its last cell is in the first entry, which is
  free now like every other.
\<close>

lemma push_free:
  assumes "es_head s < es_size s" "length (es_stck s) = es_size s" "0 < length (cm_entries s)"
  shows "free_list K (snd (Push K idx s)) = free_list K s @ [unat idx]" "es_head (snd (Push K idx s)) = es_head s + 1"
    "Suc (es_head s) < es_size s \<Longrightarrow> cm_entries (snd (Push K idx s)) = cm_entries s"
    "length (cm_entries (snd (Push K idx s))) = length (cm_entries s)" "length (es_stck (snd (Push K idx s))) = length (es_stck s)"
  using assms
  by (auto simp: free_list_def Push_def stck_set_def stck_get_def M_mark_def Let_def first_put nth_list_update not_le)

lemma push_frame:
  "cm_buckets (snd (Push K idx s)) = cm_buckets s" "num_entries (snd (Push K idx s)) = num_entries s" "bucket_mask (snd (Push K idx s)) = bucket_mask s"
  "es_size (snd (Push K idx s)) = es_size s" "alloc_num_buckets (snd (Push K idx s)) = alloc_num_buckets s"
  "alloc_num_entries (snd (Push K idx s)) = alloc_num_entries s"
  by (simp_all add: Push_def stck_set_def M_mark_def Let_def)

lemma RemoveFromBucket_hit:
  assumes ok: "cm_ok K pw E s M" and ix: "unat ix < 2 ^ pw" and i: "i < 4" "FindSlot K (bucket_at ix s) (Hash K key) key s = int i"
    "held s (unat ix, i) = Some (Hash K key, e)" "fst (cm_entries s ! e) = key"
  shows "\<exists>s'. RemoveFromBucket K (Hash K key) ix key s = (True, s') \<and> cm_ok K pw E s' (M(key := None)) \<and> M key \<noteq> None"
proof -
  note sh = cm_okD(1) [OF ok] and tab = cm_okD(2) [OF ok]
  let ?U = "used pw (held s)"
  have E: "E < 2 ^ 31" "length (cm_entries s) = E" "length (es_stck s) = E" "es_size s = E" "0 < E" using sh by (simp_all add: shape_def)
  have slot: "(unat ix, i) \<in> slots pw" using ix i(1) by (simp add: slots_def)
  note del = table_del [OF tab slot i(3)]
  have lt: "e < E" using del(3) cm_used(1) [OF ok] by blast
  have "0 < card ?U" using del(3) cm_used(2) [OF ok] by (auto simp: card_gt_0_iff)
  then have hd: "es_head s < E" using cm_used(3) [OF ok] by simp
  let ?idx = "of_nat e :: u32"
  have idx: "entry_indices (bucket_at ix s) ! i = ?idx" "unat ?idx = e"
    using i(3) index_valid(2) [OF lt E(1)] by (auto simp: held_def bucket_at_def Let_def split: if_splits)
  define s1 where "s1 = upd_bucket ix (set_hash i 0) s"
  define s2 where "s2 = M_mark Mark_num (M_mark (Mark_entry e) (set_entry ?idx (k_zero K, v_zero K) (M_mark (Mark_bucket 0) s1)))"
  define s3 where "s3 = snd (Push K ?idx s2)"
  define s' where "s' = s3\<lparr>num_entries := num_entries s3 - 1\<rparr>"
  have "entry_indices (bucket_at ix s1) ! i = ?idx"
    using idx(1) ix shapeD(3) [OF sh] by (simp add: s1_def bucket_at_def upd_bucket_def set_hash_def)
  then have "entry_indices (bucket_at ix (M_mark (Mark_bucket 0) s1)) ! i = ?idx" by (simp add: M_mark_def bucket_at_def)
  then have res: "RemoveFromBucket K (Hash K key) ix key s = (True, s')"
    using i(2) idx(2) by (simp add: RemoveFromBucket_def PushFreeEntryIndex_def Let_def s1_def [symmetric] s2_def [symmetric] s3_def [symmetric] s'_def)
  have sh1: "shape pw E s1" using sh by (simp add: s1_def shape_upd bucket_ok_set)
  have h1: "held s1 = (held s)((unat ix, i) := None)"
    using held_upd_hash [OF refl, of ix s i 0] shapeD(3,4) [OF sh] ix i(1) by (simp add: s1_def)
  have r2: "cm_buckets s2 = cm_buckets s1" "cm_entries s2 = (cm_entries s)[e := (k_zero K, v_zero K)]" "es_head s2 = es_head s" "es_stck s2 = es_stck s"
    "es_size s2 = E" "num_entries s2 = num_entries s" "bucket_mask s2 = bucket_mask s1" "alloc_num_buckets s2 = alloc_num_buckets s1"
    "alloc_num_entries s2 = alloc_num_entries s1"
    using idx(2) E by (simp_all add: s2_def s1_def M_mark_def set_entry_def upd_bucket_def)
  have pre: "es_head s2 < es_size s2" "length (es_stck s2) = es_size s2" "0 < length (cm_entries s2)" using hd E by (simp_all add: r2)
  note pf = push_free [OF pre, of ?idx, folded s3_def]
  have r3: "cm_buckets s' = cm_buckets s1" "es_head s' = es_head s + 1" "free_list K s' = free_list K s3" "num_entries s' = num_entries s - 1"
    "cm_entries s' = cm_entries s3" "bucket_mask s' = bucket_mask s1" "es_size s' = E" "alloc_num_buckets s' = alloc_num_buckets s1"
    "alloc_num_entries s' = alloc_num_entries s1" "es_stck s' = es_stck s3"
    using pf(2) by (simp_all add: s'_def s3_def push_frame r2 free_list_def stck_get_def)
  have h: "held s' = (held s)((unat ix, i) := None)" unfolding h1 [symmetric] by (simp add: held_def fun_eq_iff r3(1))
  have U: "used pw (held s') = ?U - {e}" using del(2) by (simp add: h)
  have "shape pw E s'" using sh1 hd pf(4,5) E by (simp add: shape_def r3 r2)
  moreover have fl: "free_list K s' = free_list K s @ [e]"
  proof -
    have "free_list K s2 = free_list K s" using hd E by (intro free_list_same) (simp_all add: r2)
    then show ?thesis using pf(1) idx(2) by (simp add: r3)
  qed
  have es': "cm_entries s' ! x = cm_entries s ! x" if "x \<in> ?U - {e}" for x
  proof -
    have "card {x, e} \<le> card ?U" using that del(3) by (intro card_mono [OF cm_used(2) [OF ok]]) simp
    then have "Suc (es_head s) < E" using that cm_used(3) [OF ok] by simp
    then show ?thesis using pf(3) that by (simp add: r2 r3 E)
  qed
  have len: "length (cm_entries s') = length (cm_entries s)" using pf(4) by (simp add: r3 r2)
  have "table_ok K pw (cm_entries s') (held s')" using table_cong [OF del(1) len] es' U by (simp add: h)
  moreover have "inj_on (\<lambda>x. fst (cm_entries s' ! x)) (used pw (held s'))"
    using cm_okD(3) [OF ok] es' unfolding U by (auto simp: inj_on_def)
  moreover have "distinct (free_list K s')" "set (free_list K s') = {..<E} - used pw (held s')"
    using cm_okD(4,5) [OF ok] del(3) lt unfolding fl U by auto
  moreover have "num_entries s' = of_nat (card (used pw (held s')))"
    using del(3) cm_used(2) [OF ok] \<open>0 < card ?U\<close> by (simp add: U r3 cm_okD(6) [OF ok] of_nat_diff)
  moreover have "(M(key := None)) k = Some v \<longleftrightarrow> (\<exists>x\<in>used pw (held s'). cm_entries s' ! x = (k, v))" for k v
    unfolding U using es' by (rule map_remove [OF cm_okD(7) [OF ok] cm_okD(3) [OF ok] del(3) i(4)])
  ultimately have "cm_ok K pw E s' (M(key := None))" unfolding cm_ok_def by blast
  moreover have "M key \<noteq> None" using cm_okD(7) [OF ok, of key "snd (cm_entries s ! e)"] del(3) i(4) by (auto simp: prod_eq_iff)
  ultimately show ?thesis using res by blast
qed

lemma Remove_ok:
  assumes ok: "cm_ok K pw E s M"
  shows "\<exists>s'. Remove K key s = (M key \<noteq> None, s') \<and> cm_ok K pw E s' (M(key := None)) \<and> (M key = None \<longrightarrow> s' = s)"
proof -
  let ?h = "Hash K key"
  note sh = cm_okD(1) [OF ok] and tab = cm_okD(2) [OF ok]
  have mask: "bucket_mask s = mask pw" by (rule shapeD(2) [OF sh])
  let ?p = "?h AND mask pw" and ?q = "HashSecondary ?h AND mask pw"
  have lt: "unat ?p < 2 ^ pw" "unat ?q < 2 ^ pw" using masked_less [OF shapeD(1) [OF sh]] by blast+
  note fp = find_slot [OF sh refl lt(1) Hash_nonzero, of K key key] and fq = find_slot [OF sh refl lt(2) Hash_nonzero, of K key key]
  have R: "Remove K key s = (let (r, s') = RemoveFromBucket K ?h ?p key s in if r then (True, s')
      else let (r, s') = RemoveFromBucket K ?h (HashSecondary ?h AND bucket_mask s') key s' in if r then (True, s') else (False, s'))"
    by (simp add: Remove_def mask Let_def split_def)
  from fp show ?thesis
  proof
    assume "\<exists>i<4. \<exists>e. FindSlot K (bucket_at ?p s) ?h key s = int i \<and> held s (unat ?p, i) = Some (?h, e) \<and> fst (cm_entries s ! e) = key"
    then obtain s' where "RemoveFromBucket K ?h ?p key s = (True, s')" "cm_ok K pw E s' (M(key := None))" "M key \<noteq> None"
      using RemoveFromBucket_hit [OF ok lt(1)] by blast
    then show ?thesis by (auto simp: R)
  next
    assume p: "FindSlot K (bucket_at ?p s) ?h key s = - 1 \<and> (\<forall>i<4. \<forall>e. held s (unat ?p, i) = Some (?h, e) \<longrightarrow> fst (cm_entries s ! e) \<noteq> key)"
    then have no: "RemoveFromBucket K ?h ?p key s = (False, s)" by (intro RemoveFromBucket_none) blast
    from fq show ?thesis
    proof
      assume "\<exists>i<4. \<exists>e. FindSlot K (bucket_at ?q s) ?h key s = int i \<and> held s (unat ?q, i) = Some (?h, e) \<and> fst (cm_entries s ! e) = key"
      then obtain s' where "RemoveFromBucket K ?h ?q key s = (True, s')" "cm_ok K pw E s' (M(key := None))" "M key \<noteq> None"
        using RemoveFromBucket_hit [OF ok lt(2)] by blast
      then show ?thesis by (auto simp: R no mask)
    next
      assume q: "FindSlot K (bucket_at ?q s) ?h key s = - 1 \<and> (\<forall>i<4. \<forall>e. held s (unat ?q, i) = Some (?h, e) \<longrightarrow> fst (cm_entries s ! e) \<noteq> key)"
      then have no2: "RemoveFromBucket K ?h ?q key s = (False, s)" by (intro RemoveFromBucket_none) blast
      have "M key = None"
      proof (rule ccontr)
        assume "M key \<noteq> None"
        then obtain v where "M key = Some v" by blast
        then obtain e where e: "e \<in> used pw (held s)" "fst (cm_entries s ! e) = key" using cm_okD(7) [OF ok] by force
        then obtain b i h where b: "b < 2 ^ pw" "i < 4" "held s (b, i) = Some (h, e)" by (auto simp: used_def slots_def)
        then have "h = ?h" "b \<in> {unat ?p, unat ?q}" using tab e(2) by (auto simp: table_ok_def slots_def pri_of_def sec_of_def)
        then show False using p q b e(2) by auto
      qed
      then have "M(key := None) = M" by auto
      then show ?thesis using ok \<open>M key = None\<close> by (simp add: R no no2 mask)
    qed
  qed
qed

end

end
