(* ===== verification/Cuckoo_Iter.thy ===== *)
theory Cuckoo_Iter
  imports Cuckoo_Spec
begin

text \<open>
  Creating and clearing a cuckoo map, and walking over it: a map that was just created or cleared is empty and all its
  entries are on the stack of free entries, and the iterator meets every binding once.
\<close>

section \<open>Clearing\<close>

lemma push_no_log:
  assumes "es_head s < es_size s"
  shows "snd (PushNoLog K e s) = snd (Push K e s)\<lparr>cm_marks := cm_marks s\<rparr>"
  using assms by (simp add: PushNoLog_def Push_def M_mark_def stck_set_def Let_def)

lemma free_list_marks [simp]: "free_list K (s\<lparr>cm_marks := ms\<rparr>) = free_list K s"
  by (simp add: free_list_def stck_get_def)

text \<open>Only the stack and, through its last cell, the first entry change.\<close>

definition same_table :: "('k, 'v) CuckooMap \<Rightarrow> ('k, 'v) CuckooMap \<Rightarrow> bool" where
  "same_table s t \<longleftrightarrow> cm_buckets t = cm_buckets s \<and> num_entries t = num_entries s \<and> bucket_mask t = bucket_mask s \<and> es_size t = es_size s \<and>
     alloc_num_buckets t = alloc_num_buckets s \<and> alloc_num_entries t = alloc_num_entries s \<and>
     length (cm_entries t) = length (cm_entries s) \<and> length (es_stck t) = length (es_stck s)"

context key_laws
begin

lemma push_all_ok:
  assumes "es_head s + n \<le> es_size s" "length (es_stck s) = es_size s" "0 < length (cm_entries s)" "n \<le> 2 ^ 31"
  shows "free_list K (push_all K n s) = free_list K s @ rev [0..<n] \<and> es_head (push_all K n s) = es_head s + n \<and>
    same_table s (push_all K n s)"
  using assms
proof (induction n arbitrary: s)
  case (Suc n s)
  let ?t = "snd (PushNoLog K (of_nat n) s)"
  have hd: "es_head s < es_size s" using Suc.prems by simp
  note pf = push_free [OF hd Suc.prems(2,3), of "of_nat n"]
  have u: "unat (of_nat n :: u32) = n" using Suc.prems(4) by (simp add: unat_of_nat)
  have t: "free_list K ?t = free_list K s @ [n]" "es_head ?t = es_head s + 1" "same_table s ?t"
    using pf u by (simp_all add: push_no_log [OF hd] push_frame same_table_def)
  have pre: "es_head ?t + n \<le> es_size ?t" "length (es_stck ?t) = es_size ?t" "0 < length (cm_entries ?t)" "n \<le> 2 ^ 31"
    using Suc.prems t(2,3) by (auto simp: same_table_def)
  have "same_table s (push_all K (Suc n) s)" using Suc.IH [OF pre] t(3) by (simp add: same_table_def)
  then show ?case using Suc.IH [OF pre] t(1,2) by simp
qed (simp_all add: same_table_def)

text \<open>A block with empty buckets is an empty map once all entries are on the stack.\<close>

lemma fresh_ok:
  assumes t: "es_head t = 0" "es_size t = E" "length (es_stck t) = E" "length (cm_entries t) = E" "0 < E" "E < 2 ^ 31"
    "alloc_num_buckets t = 2 ^ pw" "alloc_num_entries t = int E" "bucket_mask t = mask pw" "num_entries t = 0" "pw < 31"
    and b: "cm_buckets t = replicate (2 ^ pw) zero_bucket"
  shows "cm_ok K pw E (push_all K E t) Map.empty"
proof -
  let ?c = "push_all K E t"
  have "free_list K t = []" using t(1) by (simp add: free_list_def)
  moreover have pre: "es_head t + E \<le> es_size t" "length (es_stck t) = es_size t" "0 < length (cm_entries t)" "E \<le> 2 ^ 31" using t by simp_all
  ultimately have c: "free_list K ?c = rev [0..<E]" "es_head ?c = E" "same_table t ?c"
    using push_all_ok [OF pre] t(1) by simp_all
  have h: "held ?c q = None" if "q \<in> slots pw" for q
  proof -
    have "cm_buckets ?c ! fst q = zero_bucket" using c(3) b that by (auto simp: same_table_def slots_def)
    then show ?thesis using that by (auto simp: held_def zero_bucket_def kEntriesPerBucket_def slots_def)
  qed
  have U: "used pw (held ?c) = {}" using h by (auto simp: used_def)
  have "shape pw E ?c" using c(2,3) b t by (auto simp: shape_def same_table_def bucket_ok_def zero_bucket_def kEntriesPerBucket_def)
  moreover have "table_ok K pw (cm_entries ?c) (held ?c)" using h by (simp add: table_ok_def)
  moreover have "num_entries ?c = 0" using c(3) t(10) by (simp add: same_table_def)
  ultimately show ?thesis unfolding cm_ok_def U c(1) by auto
qed

lemma cm_ok_mark [simp]: "cm_ok K pw E (M_mark m s) M \<longleftrightarrow> cm_ok K pw E s M"
proof -
  have "free_list K (M_mark m s) = free_list K s" by (simp add: M_mark_def)
  then show ?thesis by (simp add: cm_ok_def) (simp add: M_mark_def)
qed

lemma mask_of_int: "of_int (2 ^ pw - 1) = (mask pw :: u32)"
  by (simp add: mask_eq_exp_minus_1)

lemma Clear_ok:
  assumes s: "alloc_num_buckets s = 2 ^ pw" "alloc_num_entries s = int E" "pw < 31" "0 < E" "E < 2 ^ 31" "es_size s = E"
    "length (cm_buckets s) = 2 ^ pw" "length (cm_entries s) = E" "length (es_stck s) = E"
  shows "cm_ok K pw E (Clear K s) Map.empty"
proof -
  define t where "t = s\<lparr>es_head := 0, cm_marks := insert Mark_head (cm_marks s), cm_buckets := replicate (2 ^ pw) zero_bucket,
    cm_entries := replicate E (k_zero K, v_zero K), num_entries := 0, bucket_mask := of_int (2 ^ pw - 1)\<rparr>"
  have C: "Clear K s = M_mark Mark_all (InvalidateStack (push_all K E t))"
    using s by (simp add: Clear_def t_def EntryStack_Clear_def M_mark_def zero_first_def Let_def nat_power_eq)
  have "cm_ok K pw E (push_all K E t) Map.empty"
    using s by (intro fresh_ok) (simp_all add: t_def mask_of_int [simplified])
  then show ?thesis by (simp add: C InvalidateStack_def)
qed

lemma Clear_empties:
  assumes "cm_ok K pw E s M"
  shows "cm_ok K pw E (Clear K s) Map.empty"
  using cm_okD(1) [OF assms] by (intro Clear_ok) (simp_all add: shape_def)

end

section \<open>Creation\<close>

text \<open>The test \<open>b & (b - 1)\<close> picks the powers of two.\<close>

lemma power_of_two_test:
  fixes b :: u64
  assumes "b \<noteq> 0"
  shows "b AND (b - 1) = 0 \<longleftrightarrow> (\<exists>k. unat b = 2 ^ k)"
proof -
  let ?n = "unat b"
  have n: "0 < ?n" using assms by (simp add: unat_gt_0)
  have "unat (b - 1) = ?n - 1" using n by (simp add: unat_minus_one assms)
  then have "?n AND (?n - 1) = unat (b AND (b - 1))" by (simp only: unsigned_and_eq)
  then have "b AND (b - 1) = 0 \<longleftrightarrow> ?n AND (?n - 1) = 0" by (simp only: unat_eq_zero)
  also have "\<dots> \<longleftrightarrow> (\<exists>k. ?n = 2 ^ k)"
  proof
    assume z: "?n AND (?n - 1) = 0"
    obtain k where k: "2 ^ k \<le> ?n" "?n < 2 ^ Suc k" using ex_power_ivl1 [of 2 ?n] n by auto
    have "?n = 2 ^ k"
    proof (rule ccontr)
      assume "?n \<noteq> 2 ^ k"
      then have "2 ^ k \<le> ?n - 1" "?n - 1 < 2 ^ Suc k" using k by simp_all
      then have "?n div 2 ^ k = 1" "(?n - 1) div 2 ^ k = 1" using k by (auto intro!: div_nat_eqI)
      then have "bit ?n k" "bit (?n - 1) k" by (simp_all add: bit_iff_odd)
      then have "bit (?n AND (?n - 1)) k" by (simp add: bit_and_iff)
      then show False using z by simp
    qed
    then show "\<exists>k. ?n = 2 ^ k" ..
  next
    assume "\<exists>k. ?n = 2 ^ k"
    then obtain k where "?n = 2 ^ k" ..
    then have "?n AND (?n - 1) = 2 ^ k AND mask k" by (simp add: mask_eq_exp_minus_1)
    also have "\<dots> = take_bit k (2 ^ k)" by (simp add: take_bit_eq_mask)
    finally show "?n AND (?n - 1) = 0" by simp
  qed
  finally show ?thesis .
qed

text \<open>
  \<open>Create\<close> on a block whose arrays have the sizes asked for. Below \<open>2 ^ 31\<close> entries the \<open>int\<close> fields hold the
  numbers, and nothing in \<open>Size\<close> wraps.
\<close>

lemma Size_no_wrap:
  assumes "unat n < 2 ^ 31" "b \<le> n" "unat (entry_bytes K) < 2 ^ 30"
  shows "unat (CuckooMap_Size K n b) = 72 + 4 * unat n + unat (entry_bytes K) * unat n + 32 * unat b"
proof -
  let ?N = "72 + 4 * unat n + unat (entry_bytes K) * unat n + 32 * unat b"
  have b: "unat b < 2 ^ 31" using assms(1,2) by (simp add: word_le_nat_alt)
  have "unat (entry_bytes K) * unat n \<le> 2 ^ 30 * 2 ^ 31" using assms by (intro mult_le_mono) simp_all
  then have lt: "?N < 2 ^ 64" using assms(1) b by simp
  have "CuckooMap_Size K n b = of_nat ?N" by (simp add: CuckooMap_Size_def BytesForEntries_def algebra_simps)
  then have "unat (CuckooMap_Size K n b) = unat (of_nat ?N :: u64)" by (rule arg_cong)
  also have "\<dots> = ?N" using lt by (simp only: unat_of_nat) simp
  finally show ?thesis .
qed

text \<open>What the head of \<open>Create\<close> leaves to the routine that empties the map.\<close>

definition headed :: "u64 \<Rightarrow> u64 \<Rightarrow> ('k, 'v) CuckooMap \<Rightarrow> ('k, 'v) CuckooMap" where
  "headed n b raw = (M_mark Mark_estack (raw\<lparr>es_head := 0, es_size := unat n\<rparr>))\<lparr>alloc_num_buckets := sint (ucast b :: u32),
     alloc_num_entries := sint (ucast n :: u32), num_entries := 0, bucket_mask := ucast (b - 1)\<rparr>"

lemma small_int: "unat (w :: u64) < 2 ^ 31 \<Longrightarrow> sint (ucast w :: u32) = int (unat w)"
proof -
  assume w: "unat w < 2 ^ 31"
  have "unat (ucast w :: u32) = unat w" using w by (simp add: unsigned_ucast_eq unsigned_take_bit_eq take_bit_nat_eq_self)
  then have U: "uint (ucast w :: u32) = int (unat w)" by (metis uint_nat)
  have st: "signed_take_bit 31 (int m) = int m" if "m < 2 ^ 31" for m
    by (rule signed_take_bit_int_eq_self) (use that in simp_all)
  from st [OF w] have "signed_take_bit 31 (uint w) = uint w" by simp
  then show ?thesis using U by (simp add: sint_uint)
qed

lemma Create_head:
  assumes n: "unat n < 2 ^ 31" "unat (entry_bytes K) < 2 ^ 30" and b: "unat b = 2 ^ pw" "b \<le> n"
    and area: "CuckooMap_Size K n b \<le> area_size"
  shows "b \<noteq> 0" "n \<noteq> 0" "b AND (b - 1) = 0" "pw < 31" "alloc_num_buckets (headed n b raw) = 2 ^ pw"
    "alloc_num_entries (headed n b raw) = int (unat n)" "\<not> area_size - 48 < BytesForEntries n"
proof -
  show b0: "b \<noteq> 0" using b(1) by (auto simp: unat_eq_0)
  show n0: "n \<noteq> 0" using b0 b(2) by (auto simp: word_le_nat_alt unat_eq_0)
  show "b AND (b - 1) = 0" using power_of_two_test [OF b0] b(1) by blast
  have ble: "unat b < 2 ^ 31" using n(1) b(2) by (simp add: word_le_nat_alt)
  then have "(2 :: nat) ^ pw < 2 ^ 31" using b(1) by simp
  then show "pw < 31" by (rule power_less_imp_less_exp [rotated]) simp
  show "alloc_num_buckets (headed n b raw) = 2 ^ pw" "alloc_num_entries (headed n b raw) = int (unat n)"
    using small_int [OF n(1)] small_int [OF ble] b(1) by (simp_all add: headed_def)
  have a: "72 + 4 * unat n \<le> unat area_size" using area Size_no_wrap [OF n(1) b(2) n(2)] by (simp add: word_le_nat_alt)
  have "BytesForEntries n = of_nat (24 + 4 * unat n)" by (simp add: BytesForEntries_def algebra_simps)
  then have "unat (BytesForEntries n) = unat (of_nat (24 + 4 * unat n) :: u64)" by (rule arg_cong)
  then have bf: "unat (BytesForEntries n) = 24 + 4 * unat n" using n(1) by (simp only: unat_of_nat) simp
  have "unat (area_size - 48) = unat area_size - 48" using unat_sub [of 48 area_size] a by (simp add: word_le_nat_alt)
  then show "\<not> area_size - 48 < BytesForEntries n" using a bf by (simp add: word_less_nat_alt)
qed

context key_laws
begin

lemma Create_ok:
  assumes n: "unat n < 2 ^ 31" "unat (entry_bytes K) < 2 ^ 30" and b: "unat b = 2 ^ pw" "b \<le> n"
    and area: "CuckooMap_Size K n b \<le> area_size"
    and raw: "length (cm_buckets raw) = unat b" "length (cm_entries raw) = unat n" "length (es_stck raw) = unat n"
  shows "\<exists>s. Create K area_size n b raw = Some s \<and> cm_ok K pw (unat n) s Map.empty"
proof -
  note h = Create_head [OF n b area]
  have "Create K area_size n b raw = Some (Clear K (headed n b raw))"
    using area h b(2) by (simp add: Create_def EntryStack_Create_def not_less headed_def)
  moreover have "cm_ok K pw (unat n) (Clear K (headed n b raw)) Map.empty"
    by (intro Clear_ok h(4,5,6)) (use h(2) n(1) b(1) raw in \<open>simp_all add: headed_def M_mark_def unat_gt_0\<close>)
  ultimately show ?thesis by blast
qed

end

text \<open>\<open>Create\<close> refuses everything else.\<close>

lemma Create_none:
  assumes "area_size < CuckooMap_Size K n b \<or> n = 0 \<or> n < b \<or> (\<nexists>k. unat b = 2 ^ k)"
  shows "Create K area_size n b raw = None"
  using assms power_of_two_test [of b] by (cases "b = 0") (auto simp: Create_def)

context key_laws
begin

lemma Create_iff:
  assumes n: "unat n < 2 ^ 31" "unat (entry_bytes K) < 2 ^ 30"
    and raw: "length (cm_buckets raw) = unat b" "length (cm_entries raw) = unat n" "length (es_stck raw) = unat n"
  shows "(Create K area_size n b raw = None \<longleftrightarrow>
      area_size < CuckooMap_Size K n b \<or> n = 0 \<or> n < b \<or> (\<forall>k. unat b \<noteq> 2 ^ k)) \<and>
    (\<forall>s. Create K area_size n b raw = Some s \<longrightarrow> (\<exists>pw. unat b = 2 ^ pw \<and> cm_ok K pw (unat n) s Map.empty))"
proof (cases "area_size < CuckooMap_Size K n b \<or> n = 0 \<or> n < b \<or> (\<forall>k. unat b \<noteq> 2 ^ k)")
  case True
  then show ?thesis using Create_none [of area_size K n b raw] by auto
next
  case False
  then obtain pw where pw: "unat b = 2 ^ pw" by blast
  have "b \<le> n" "CuckooMap_Size K n b \<le> area_size" using False by (simp_all add: not_less)
  from Create_ok [OF n pw this raw] show ?thesis using False pw by auto
qed

end

section \<open>Iteration\<close>

text \<open>The positions of the table in the order of the iterator, and what it reads from a position on.\<close>

definition iter_of :: "nat \<Rightarrow> iterator" where
  "iter_of p = \<lparr>bucket_idx = p div 4, slot_idx = p mod 4\<rparr>"

definition occupied :: "('k, 'v) CuckooMap \<Rightarrow> nat \<Rightarrow> bool" where
  "occupied s p \<longleftrightarrow> held s (p div 4, p mod 4) \<noteq> None"

definition places :: "nat \<Rightarrow> ('k, 'v) CuckooMap \<Rightarrow> nat \<Rightarrow> nat list" where
  "places pw s p = filter (occupied s) [p..<4 * 2 ^ pw]"

lemma places_step:
  "4 * 2 ^ pw \<le> p \<Longrightarrow> places pw s p = []"
  "p < 4 * 2 ^ pw \<Longrightarrow> places pw s p = (if occupied s p then p # places pw s (Suc p) else places pw s (Suc p))"
  by (simp_all add: places_def upt_conv_Cons)

lemma iter_of_inj: "iter_of p = iter_of q \<longleftrightarrow> p = q"
  by (auto simp: iter_of_def) (metis div_mod_decomp)

lemma iter_advance_of: "iter_advance (iter_of p) = iter_of (Suc p)"
proof -
  have "Suc p div 4 = (if Suc (p mod 4) = 4 then Suc (p div 4) else p div 4)" "Suc p mod 4 = (if Suc (p mod 4) = 4 then 0 else Suc (p mod 4))"
    by (simp_all add: div_Suc mod_Suc)
  then show ?thesis by (simp add: iter_advance_def iter_of_def kEntriesPerBucket_def Let_def)
qed

lemma iter_at_empty_of:
  assumes "alloc_num_buckets s = 2 ^ pw"
  shows "iter_at_empty (iter_of p) s \<longleftrightarrow> p < 4 * 2 ^ pw \<and> \<not> occupied s p"
proof -
  have "int (p div 4) < 2 ^ pw \<longleftrightarrow> p div 4 < 2 ^ pw" by (metis of_nat_less_iff of_nat_numeral of_nat_power)
  also have "\<dots> \<longleftrightarrow> p < 4 * 2 ^ pw" by (simp add: div_less_iff_less_mult mult.commute)
  finally show ?thesis using assms by (simp add: iter_at_empty_def iter_of_def occupied_def held_def Let_def)
qed

lemma iter_skip_of:
  assumes "alloc_num_buckets s = 2 ^ pw" "p \<le> 4 * 2 ^ pw"
  shows "\<exists>q. iter_skip (iter_of p) s = Some (iter_of q) \<and> p \<le> q \<and> q \<le> 4 * 2 ^ pw \<and> places pw s q = places pw s p \<and>
    (q < 4 * 2 ^ pw \<longrightarrow> occupied s q)"
  using assms(2)
proof (induction "4 * 2 ^ pw - p" arbitrary: p)
  case 0
  then show ?case using iter_at_empty_of [OF assms(1), of p] by (subst iter_skip.simps) auto
next
  case (Suc n)
  show ?case
  proof (cases "occupied s p")
    case True
    then show ?thesis using Suc.prems iter_at_empty_of [OF assms(1), of p] by (subst iter_skip.simps) auto
  next
    case False
    have lt: "p < 4 * 2 ^ pw" using Suc.hyps(2) by simp
    then have "iter_skip (iter_of p) s = iter_skip (iter_of (Suc p)) s"
      using False iter_at_empty_of [OF assms(1), of p] by (subst iter_skip.simps) (simp add: iter_advance_of)
    moreover have "places pw s p = places pw s (Suc p)" using False lt by (simp add: places_step)
    moreover have n: "n = 4 * 2 ^ pw - Suc p" using Suc.hyps(2) by arith
    obtain q where "iter_skip (iter_of (Suc p)) s = Some (iter_of q)" "Suc p \<le> q" "q \<le> 4 * 2 ^ pw"
      "places pw s q = places pw s (Suc p)" "q < 4 * 2 ^ pw \<longrightarrow> occupied s q"
      using Suc.hyps(1) [OF n] lt by auto
    ultimately show ?thesis by auto
  qed
qed

lemma iter_end_of:
  assumes "alloc_num_buckets s = 2 ^ pw"
  shows "iter_end s = Some (iter_of (4 * 2 ^ pw))"
proof -
  have "\<lparr>bucket_idx = nat (alloc_num_buckets s), slot_idx = 0\<rparr> = iter_of (4 * 2 ^ pw)" by (simp add: assms iter_of_def nat_power_eq)
  moreover have "\<not> iter_at_empty (iter_of (4 * 2 ^ pw)) s" using iter_at_empty_of [OF assms] by simp
  ultimately show ?thesis unfolding iter_end_def by (subst iter_skip.simps) simp
qed

lemma iter_collect_of:
  assumes al: "alloc_num_buckets s = 2 ^ pw"
  shows "p \<le> 4 * 2 ^ pw \<Longrightarrow> p < 4 * 2 ^ pw \<longrightarrow> occupied s p \<Longrightarrow>
    iter_collect (iter_of p) s = Some (map (\<lambda>q. iter_deref (iter_of q) s) (places pw s p))"
proof (induction "4 * 2 ^ pw - p" arbitrary: p rule: less_induct)
  case less
  show ?case
  proof (cases "p = 4 * 2 ^ pw")
    case True
    then show ?thesis using iter_end_of [OF al] by (subst iter_collect.simps) (simp add: places_step)
  next
    case False
    then have lt: "p < 4 * 2 ^ pw" "Suc p \<le> 4 * 2 ^ pw" "occupied s p" using less.prems by auto
    obtain q where q: "iter_skip (iter_of (Suc p)) s = Some (iter_of q)" "Suc p \<le> q" "q \<le> 4 * 2 ^ pw" "places pw s q = places pw s (Suc p)"
      "q < 4 * 2 ^ pw \<longrightarrow> occupied s q" using iter_skip_of [OF al lt(2)] by blast
    have "iter_collect (iter_of q) s = Some (map (\<lambda>q. iter_deref (iter_of q) s) (places pw s q))"
      using q lt by (intro less.hyps) auto
    then show ?thesis using q(1,4) lt iter_end_of [OF al] False
      by (subst iter_collect.simps) (simp add: iter_incr_def iter_advance_of iter_of_inj places_step)
  qed
qed

definition bindings :: "('k, 'v) CuckooMap \<Rightarrow> ('k \<times> 'v) list option" where
  "bindings s = Option.bind (iter_begin s) (\<lambda>it. iter_collect it s)"

lemma bindings_places:
  assumes al: "alloc_num_buckets s = 2 ^ pw"
  shows "bindings s = Some (map (\<lambda>q. iter_deref (iter_of q) s) (places pw s 0))"
proof -
  have b: "iter_begin s = iter_skip (iter_of 0) s" by (simp add: iter_begin_def iter_of_def)
  obtain q where q: "iter_skip (iter_of 0) s = Some (iter_of q)" "q \<le> 4 * 2 ^ pw" "places pw s q = places pw s 0" "q < 4 * 2 ^ pw \<longrightarrow> occupied s q"
    using iter_skip_of [OF al, of 0] by auto
  then show ?thesis using iter_collect_of [OF al q(2,4)] by (simp add: bindings_def b)
qed

lemma place_slot: "p < 4 * 2 ^ pw \<Longrightarrow> (p div 4, p mod 4) \<in> slots pw"
  by (simp add: slots_def div_less_iff_less_mult mult.commute)

lemma slot_place: "(b, i) \<in> slots pw \<Longrightarrow> \<exists>p<4 * 2 ^ pw. p div 4 = b \<and> p mod 4 = i"
  by (rule exI [of _ "4 * b + i"]) (auto simp: slots_def)

text \<open>The iterator meets each entry in use once.\<close>

lemma places_used:
  assumes "table_ok K pw es (held s)"
  obtains f where "bij_betw f (set (places pw s 0)) (used pw (held s))" "\<forall>p\<in>set (places pw s 0). iter_deref (iter_of p) s = cm_entries s ! f p"
proof -
  define f where "f p = unat (entry_indices (cm_buckets s ! (p div 4)) ! (p mod 4))" for p
  have P: "set (places pw s 0) = {p. p < 4 * 2 ^ pw \<and> occupied s p}" by (auto simp: places_def)
  have H: "\<exists>h. held s (p div 4, p mod 4) = Some (h, f p)" if "occupied s p" for p
    using that by (auto simp: occupied_def held_def f_def Let_def split: if_splits)
  have "inj_on f (set (places pw s 0))"
  proof (rule inj_onI)
    fix p q
    assume p: "p \<in> set (places pw s 0)" "q \<in> set (places pw s 0)" "f p = f q"
    then obtain h h' where "held s (p div 4, p mod 4) = Some (h, f p)" "held s (q div 4, q mod 4) = Some (h', f p)" using H P by auto metis
    moreover have "(p div 4, p mod 4) \<in> slots pw" "(q div 4, q mod 4) \<in> slots pw" using p P place_slot by auto
    ultimately have "(p div 4, p mod 4) = (q div 4, q mod 4)" using assms unfolding table_ok_def by blast
    then show "p = q" by (metis div_mod_decomp prod.inject)
  qed
  moreover have "f ` set (places pw s 0) = used pw (held s)"
  proof
    show "f ` set (places pw s 0) \<subseteq> used pw (held s)" using H place_slot unfolding P used_def by blast
    show "used pw (held s) \<subseteq> f ` set (places pw s 0)"
    proof
      fix e
      assume "e \<in> used pw (held s)"
      then obtain b i h where b: "(b, i) \<in> slots pw" "held s (b, i) = Some (h, e)" by (auto simp: used_def)
      then obtain p where p: "p < 4 * 2 ^ pw" "p div 4 = b" "p mod 4 = i" using slot_place by blast
      then have o: "occupied s p" using b(2) by (simp add: occupied_def)
      then have "e = f p" using H [OF o] p b(2) by simp
      then show "e \<in> f ` set (places pw s 0)" using p(1) o by (simp add: P)
    qed
  qed
  ultimately have "bij_betw f (set (places pw s 0)) (used pw (held s))" by (simp add: bij_betw_def)
  then show ?thesis using that by (simp add: f_def iter_deref_def iter_of_def)
qed

lemma bindings_ok:
  assumes ok: "cm_ok K pw E s M"
  shows "\<exists>xs. bindings s = Some xs \<and> distinct (map fst xs) \<and> set xs = {(k, v). M k = Some v} \<and> length xs = unat (Count s)"
proof -
  let ?U = "used pw (held s)"
  have al: "alloc_num_buckets s = 2 ^ pw" "E < 2 ^ 31" using cm_okD(1) [OF ok] by (simp_all add: shape_def)
  let ?P = "places pw s 0"
  obtain f where f: "bij_betw f (set ?P) ?U" "\<forall>p\<in>set ?P. iter_deref (iter_of p) s = cm_entries s ! f p"
    by (rule places_used [OF cm_okD(2) [OF ok]])
  let ?xs = "map (\<lambda>p. iter_deref (iter_of p) s) ?P"
  have xs: "?xs = map (\<lambda>p. cm_entries s ! f p) ?P" using f(2) by simp
  have dP: "distinct ?P" by (simp add: places_def)
  have "inj_on ((\<lambda>e. fst (cm_entries s ! e)) \<circ> f) (set ?P)"
    using f(1) cm_okD(3) [OF ok] by (intro comp_inj_on) (auto simp: bij_betw_def)
  then have "distinct (map fst ?xs)" unfolding xs using dP by (simp add: distinct_map comp_def)
  moreover have "set ?xs = (\<lambda>e. cm_entries s ! e) ` f ` set ?P" unfolding xs by (simp add: image_image)
  then have "set ?xs = (\<lambda>e. cm_entries s ! e) ` ?U" using f(1) by (simp add: bij_betw_def)
  then have "set ?xs = {(k, v). M k = Some v}" using cm_okD(7) [OF ok] by (auto simp: image_iff) (metis surj_pair)+
  moreover have "length ?xs = card ?U" using bij_betw_same_card [OF f(1)] distinct_card [OF dP] by simp
  then have "length ?xs = unat (Count s)"
    using cm_okD(6) [OF ok] cm_used(3) [OF ok] al(2) by (simp add: Count_def unat_of_nat)
  ultimately show ?thesis using bindings_places [OF al(1)] by blast
qed

end
