(* ===== verification/Cuckoo_Demo.thy ===== *)
theory Cuckoo_Demo
  imports Cuckoo_Iter
begin

text \<open>
  \<open>apps/cuckoo-map/main.cc\<close>: the keys it has, \<open>size_t\<close> and flow identifiers, as instances of the template parameters, and
  the program that counts random numbers in a cuckoo map. \<open>std::hash\<close> of an integer is the integer, as in libstdc++.
\<close>

section \<open>Keys\<close>

text \<open>\<open>CuckooMap<size_t, uint64_t>\<close>. The first four bytes of a little-endian number are its low half.\<close>

definition size_t_ops :: "(u64, u64) key_ops" where
  "size_t_ops = \<lparr>k_hash = (\<lambda>k. k), k_eq = (=), k_first = ucast, k_put = (\<lambda>w k. push_bit 32 (drop_bit 32 k) OR ucast w),
     k_zero = 0, v_zero = 0, entry_bytes = 16\<rparr>"

record FlowId =
  src_ip :: u32
  dst_ip :: u32
  src_port :: u32
  dst_port :: u32
  protocol :: u8

definition combine :: "u64 \<Rightarrow> u32 \<Rightarrow> u64" where
  "combine hash val = hash XOR (ucast val + 0x9e3779b9 + push_bit 6 hash + drop_bit 2 hash)"

definition Hash_FlowId :: "FlowId \<Rightarrow> HashResult" where
  "Hash_FlowId fid =
    (let hash = 0; hash = combine hash (src_ip fid); hash = combine hash (dst_ip fid); hash = combine hash (src_port fid);
         hash = combine hash (dst_port fid); hash = combine hash (ucast (protocol fid))
     in ucast hash)"

definition EqualTo :: "FlowId \<Rightarrow> FlowId \<Rightarrow> bool" where
  "EqualTo id1 id2 =
    (let ips = src_ip id1 = src_ip id2 \<and> dst_ip id1 = dst_ip id2;
         ports = src_port id1 = src_port id2 \<and> dst_port id1 = dst_port id2
     in (ips \<and> ports) \<and> protocol id1 = protocol id2)"

text \<open>\<open>CuckooMap<FlowId, uint64_t, Hash, EqualTo>\<close>: 20 bytes for the key, 4 bytes of padding, 8 bytes for the value.\<close>

definition FlowId_ops :: "(FlowId, u64) key_ops" where
  "FlowId_ops = \<lparr>k_hash = (\<lambda>k. ucast (Hash_FlowId k)), k_eq = EqualTo, k_first = src_ip, k_put = (\<lambda>w k. k\<lparr>src_ip := w\<rparr>),
     k_zero = \<lparr>src_ip = 0, dst_ip = 0, src_port = 0, dst_port = 0, protocol = 0\<rparr>, v_zero = 0, entry_bytes = 32\<rparr>"

lemma low_half: "(ucast (push_bit 32 (k :: u64) OR ucast (w :: u32)) :: u32) = w"
  by (rule bit_word_eqI) (auto simp: bit_simps)

interpretation cz: key_laws size_t_ops
  by unfold_locales (simp_all add: size_t_ops_def low_half)

interpretation cf: key_laws FlowId_ops
  by unfold_locales (auto simp: FlowId_ops_def EqualTo_def Let_def)

section \<open>The program\<close>

definition fast_random :: "u64 \<Rightarrow> u32 \<times> u64" where
  "fast_random seed = (let seed = seed * 1103515245 + 12345 in (ucast (drop_bit 32 seed), seed))"

text \<open>One round of the loop of \<open>main\<close>; \<open>None\<close>: the program aborts, or a call does not return.\<close>

definition main_step :: "u64 \<times> (u64, u64) CuckooMap \<Rightarrow> (u64 \<times> (u64, u64) CuckooMap) option" where
  "main_step st =
    (let (seed, cuckoo) = st; x = 10; (r, seed) = fast_random seed; val = ucast r mod x
     in case Find size_t_ops val cuckoo of
       None \<Rightarrow> do { (_, cuckoo) \<leftarrow> Insert size_t_ops val 0 cuckoo; Some (seed, cuckoo) }
     | Some entry \<Rightarrow>
         if fst (cm_entries cuckoo ! unat entry) \<noteq> val then None
         else let prev = snd (cm_entries cuckoo ! unat entry); (_, cuckoo) = Remove size_t_ops val cuckoo
              in do { (_, cuckoo) \<leftarrow> Insert size_t_ops val (prev + 1) cuckoo; Some (seed, cuckoo) })"

definition main_create :: "(u64, u64) CuckooMap \<Rightarrow> (u64, u64) CuckooMap option" where
  "main_create raw = (let need_bytes = CuckooMap_Size size_t_ops (128 * 4) 128 in Create size_t_ops need_bytes (128 * 4) 128 raw)"

fun main_run :: "nat \<Rightarrow> u64 \<times> (u64, u64) CuckooMap \<Rightarrow> (u64 \<times> (u64, u64) CuckooMap) option" where
  "main_run 0 st = Some st"
| "main_run (Suc n) st = Option.bind (main_step st) (main_run n)"

section \<open>No bucket fills up\<close>

text \<open>Ten keys: no two have the same first bucket, and no two the same second bucket.\<close>

definition demo_keys :: "u64 list" where
  "demo_keys = [0, 1, 2, 3, 4, 5, 6, 7, 8, 9]"

lemma demo_key: "k < 10 \<longleftrightarrow> k \<in> set demo_keys"
proof
  assume "k < 10"
  then have "unat k < 10" by (simp add: word_less_nat_alt)
  then have "unat k \<in> {0, 1, 2, 3, 4, 5, 6, 7, 8, 9}" unfolding insert_iff empty_iff by arith
  then have "of_nat (unat k) \<in> (of_nat ` {0, 1, 2, 3, 4, 5, 6, 7, 8, 9} :: u64 set)" by (rule imageI)
  then show "k \<in> set demo_keys" by (simp add: demo_keys_def)
qed (auto simp: demo_keys_def)

lemma demo_buckets:
  "distinct (map (\<lambda>k. pri_of 7 (Hash size_t_ops k)) demo_keys)" "distinct (map (\<lambda>k. sec_of 7 (Hash size_t_ops k)) demo_keys)"
  by code_simp+

lemma demo_inj:
  assumes "k < 10" "k' < 10" "pri_of 7 (Hash size_t_ops k) = pri_of 7 (Hash size_t_ops k') \<or> sec_of 7 (Hash size_t_ops k) = sec_of 7 (Hash size_t_ops k')"
  shows "k = k'"
  using assms demo_buckets unfolding demo_key distinct_map by (auto dest: inj_onD)

text \<open>So three slots of a bucket are never occupied at the same time.\<close>

lemma demo_not_full:
  assumes ok: "cm_ok size_t_ops 7 E s M" and dom: "\<And>k. M k \<noteq> None \<Longrightarrow> k < 10" and b: "b < 128"
  shows "\<not> full (held s) b"
proof
  assume fl: "full (held s) b"
  note tab = cm_okD(2) [OF ok]
  define P where "P i k e \<longleftrightarrow> held s (b, i) = Some (Hash size_t_ops k, e) \<and> fst (cm_entries s ! e) = k \<and> e \<in> used 7 (held s) \<and> k < 10 \<and>
      (pri_of 7 (Hash size_t_ops k) = b \<or> sec_of 7 (Hash size_t_ops k) = b)" for i k e
  have ex: "\<exists>k e. P i k e" if i: "i < 4" for i
  proof -
    obtain h e where h: "held s (b, i) = Some (h, e)" using fl i by (auto simp: full_def)
    have sl: "(b, i) \<in> slots 7" using b i by (simp add: slots_def)
    have e: "e \<in> used 7 (held s)" using h sl by (auto simp: used_def)
    have "h = Hash size_t_ops (fst (cm_entries s ! e))" "b = pri_of 7 h \<or> b = sec_of 7 h" using tab h sl by (auto simp: table_ok_def)
    moreover have "M (fst (cm_entries s ! e)) = Some (snd (cm_entries s ! e))" using cm_okD(7) [OF ok] e by fastforce
    then have "fst (cm_entries s ! e) < 10" using dom by blast
    ultimately show ?thesis using h e unfolding P_def by blast
  qed
  obtain k0 e0 where s0: "P 0 k0 e0" using ex [of 0] by auto
  obtain k1 e1 where s1: "P 1 k1 e1" using ex [of 1] by auto
  obtain k2 e2 where s2: "P 2 k2 e2" using ex [of 2] by auto
  have sl: "held s (b, i) = Some (Hash size_t_ops k, e)" "fst (cm_entries s ! e) = k" "e \<in> used 7 (held s)" "k < 10"
    "pri_of 7 (Hash size_t_ops k) = b \<or> sec_of 7 (Hash size_t_ops k) = b" if "P i k e" for i k e
    using that by (simp_all add: P_def)
  note s0 = sl [OF s0] and s1 = sl [OF s1] and s2 = sl [OF s2]
  have "k0 = k1 \<or> k0 = k2 \<or> k1 = k2"
    using s0(5) s1(5) s2(5) demo_inj [OF s0(4) s1(4)] demo_inj [OF s0(4) s2(4)] demo_inj [OF s1(4) s2(4)] by (elim disjE) simp_all
  moreover have "e = e'" if "e \<in> used 7 (held s)" "e' \<in> used 7 (held s)" "fst (cm_entries s ! e) = fst (cm_entries s ! e')" for e e'
    using inj_onD [OF cm_okD(3) [OF ok]] that by blast
  ultimately have "e0 = e1 \<or> e0 = e2 \<or> e1 = e2" using s0(2,3) s1(2,3) s2(2,3) by metis
  moreover have pos: "i = j" if "i < 4" "j < 4" "held s (b, i) = Some (h, e)" "held s (b, j) = Some (h', e)" for i j h h' e
  proof -
    have "(b, i) \<in> slots 7" "(b, j) \<in> slots 7" using that b by (simp_all add: slots_def)
    then have "(b, i) = (b, j)" using tab that unfolding table_ok_def by blast
    then show ?thesis by simp
  qed
  ultimately show False
    using pos [OF _ _ s0(1), of 1] pos [OF _ _ s0(1), of 2] pos [OF _ _ s1(1), of 2] s1(1) s2(1) by (elim disjE) simp_all
qed

lemma demo_free:
  assumes ok: "cm_ok size_t_ops 7 512 s M" and dom: "\<And>k. M k \<noteq> None \<Longrightarrow> k < 10"
  shows "0 < es_head s"
proof -
  have "(\<lambda>e. fst (cm_entries s ! e)) ` used 7 (held s) \<subseteq> set demo_keys"
  proof
    fix k
    assume "k \<in> (\<lambda>e. fst (cm_entries s ! e)) ` used 7 (held s)"
    then obtain e where e: "e \<in> used 7 (held s)" "k = fst (cm_entries s ! e)" by blast
    then have "M k \<noteq> None" using cm_okD(7) [OF ok, of k "snd (cm_entries s ! e)"] by (auto simp: prod_eq_iff)
    then show "k \<in> set demo_keys" using dom demo_key by blast
  qed
  then have "card (used 7 (held s)) \<le> card (set demo_keys)" using card_inj_on_le [OF cm_okD(3) [OF ok]] by blast
  also have "\<dots> \<le> 10" using card_length [of demo_keys] by (simp add: demo_keys_def)
  finally show ?thesis using cm_used(3) [OF ok] by simp
qed

text \<open>Every insertion of the program succeeds.\<close>

lemma demo_insert:
  assumes ok: "cm_ok size_t_ops 7 512 s M" and dom: "\<And>k. M k \<noteq> None \<Longrightarrow> k < 10"
  shows "\<exists>e s'. Insert size_t_ops key val s = Some (Some e, s') \<and> cm_ok size_t_ops 7 512 s' (M(key \<mapsto> val))"
proof (cases "M key")
  case None
  have "\<not> full (held s) (pri_of 7 (Hash size_t_ops key))"
    using home_less(1) [of 7 "Hash size_t_ops key"] by (intro demo_not_full [OF ok dom]) simp_all
  moreover have "FindWithHash size_t_ops (Hash size_t_ops key) key s = kInvalidEntryIdx" using cz.FindWithHash_ok [OF ok, of key] None by simp
  ultimately show ?thesis
    using cz.AddEntry_room [OF ok None demo_free [OF ok dom], of val] by (auto simp: Insert_def Let_def adds_def)
next
  case (Some v)
  then show ?thesis using cz.Insert_old [OF ok Some, of val] by (auto simp: adds_def)
qed

section \<open>What the program computes\<close>

text \<open>The numbers drawn, and the map they lead to: a key has the number of times it was drawn, less one.\<close>

fun draws :: "nat \<Rightarrow> u64 \<Rightarrow> u64 list" where
  "draws 0 seed = []"
| "draws (Suc n) seed = (let (r, seed) = fast_random seed in ucast r mod 10 # draws n seed)"

definition tally :: "(u64 \<rightharpoonup> u64) \<Rightarrow> u64 \<Rightarrow> (u64 \<rightharpoonup> u64)" where
  "tally M k = M(k \<mapsto> (case M k of None \<Rightarrow> 0 | Some c \<Rightarrow> c + 1))"

lemma tally_count:
  "foldl tally Map.empty ks k = (if k \<in> set ks then Some (of_nat (count_list ks k) - 1) else None)"
  by (induction ks rule: rev_induct) (auto simp: tally_def)

lemma main_step_ok:
  assumes ok: "cm_ok size_t_ops 7 512 s M" and dom: "\<And>k. M k \<noteq> None \<Longrightarrow> k < 10"
  shows "\<exists>s'. main_step (seed, s) = Some (snd (fast_random seed), s') \<and> cm_ok size_t_ops 7 512 s' (tally M (ucast (fst (fast_random seed)) mod 10))"
proof -
  define k :: u64 where "k = ucast (fst (fast_random seed)) mod 10"
  show ?thesis
  proof (cases "M k")
    case None
    then have "Find size_t_ops k s = None" using cz.Find_ok [OF ok, of k] by simp
    moreover obtain e s' where "Insert size_t_ops k 0 s = Some (Some e, s')" "cm_ok size_t_ops 7 512 s' (M(k \<mapsto> 0))"
      using demo_insert [OF ok dom] by blast
    ultimately show ?thesis using None by (simp add: main_step_def tally_def k_def [symmetric] Let_def split_def)
  next
    case (Some v)
    then obtain e where e: "Find size_t_ops k s = Some e" "cm_entries s ! unat e = (k, v)" using cz.Find_ok [OF ok, of k] by auto
    obtain s1 where s1: "Remove size_t_ops k s = (True, s1)" "cm_ok size_t_ops 7 512 s1 (M(k := None))"
      using cz.Remove_ok [OF ok, of k] Some by auto
    have "k' < 10" if "(M(k := None)) k' \<noteq> None" for k' using that dom by (auto split: if_splits)
    then obtain e' s' where "Insert size_t_ops k (v + 1) s1 = Some (Some e', s')" "cm_ok size_t_ops 7 512 s' ((M(k := None))(k \<mapsto> v + 1))"
      using demo_insert [OF s1(2)] by blast
    then show ?thesis using Some e s1(1) by (simp add: main_step_def tally_def k_def [symmetric] Let_def split_def)
  qed
qed

lemma main_run_ok:
  assumes "cm_ok size_t_ops 7 512 s M" "\<And>k. M k \<noteq> None \<Longrightarrow> k < 10"
  shows "\<exists>seed' s'. main_run n (seed, s) = Some (seed', s') \<and> cm_ok size_t_ops 7 512 s' (foldl tally M (draws n seed))"
  using assms
proof (induction n arbitrary: seed s M)
  case (Suc n seed s M)
  let ?k = "ucast (fst (fast_random seed)) mod 10 :: u64"
  obtain s' where s': "main_step (seed, s) = Some (snd (fast_random seed), s')" "cm_ok size_t_ops 7 512 s' (tally M ?k)"
    using main_step_ok [OF Suc.prems] by blast
  have "?k < 10" by (simp add: word_mod_less_divisor)
  then have "k < 10" if "tally M ?k k \<noteq> None" for k using that Suc.prems(2) by (auto simp: tally_def split: if_splits)
  then show ?case using Suc.IH [OF s'(2)] s'(1) by (simp add: split_def Let_def)
qed auto

lemma main_create_ok:
  assumes "length (cm_buckets raw) = 128" "length (cm_entries raw) = 512" "length (es_stck raw) = 512"
  shows "\<exists>s. main_create raw = Some s \<and> cm_ok size_t_ops 7 512 s Map.empty"
  using cz.Create_ok [of 512 128 7 "CuckooMap_Size size_t_ops (128 * 4) 128" raw] assms
  by (simp add: main_create_def size_t_ops_def [THEN arg_cong, of entry_bytes] Let_def)

lemma main_counts:
  assumes "length (cm_buckets raw) = 128" "length (cm_entries raw) = 512" "length (es_stck raw) = 512"
  shows "\<exists>s0 seed s. main_create raw = Some s0 \<and> main_run n (42, s0) = Some (seed, s) \<and>
    (\<forall>k. map_option (\<lambda>e. cm_entries s ! unat e) (Find size_t_ops k s) =
       (if k \<in> set (draws n 42) then Some (k, of_nat (count_list (draws n 42) k) - 1) else None))"
proof -
  obtain s0 where s0: "main_create raw = Some s0" "cm_ok size_t_ops 7 512 s0 Map.empty" using main_create_ok [OF assms] by blast
  obtain seed s where s: "main_run n (42, s0) = Some (seed, s)" "cm_ok size_t_ops 7 512 s (foldl tally Map.empty (draws n 42))"
    using main_run_ok [OF s0(2), of n 42] by auto
  have "map_option (\<lambda>e. cm_entries s ! unat e) (Find size_t_ops k s) =
       (if k \<in> set (draws n 42) then Some (k, of_nat (count_list (draws n 42) k) - 1) else None)" for k
    using cz.Find_ok [OF s(2), of k] by (auto simp: tally_count split: if_splits)
  then show ?thesis using s0(1) s(1) by blast
qed

text \<open>The block that \<open>malloc\<close> returned, with arbitrary contents; here zeroes.\<close>

definition main_raw :: "(u64, u64) CuckooMap" where
  "main_raw = \<lparr>bucket_mask = 0, num_entries = 0, alloc_num_buckets = 0, alloc_num_entries = 0, es_head = 0, es_size = 0,
     es_stck = replicate 512 0, cm_buckets = replicate 128 zero_bucket, cm_entries = replicate 512 (0, 0), cm_marks = {}\<rparr>"

lemma main_raw_lengths: "length (cm_buckets main_raw) = 128" "length (cm_entries main_raw) = 512" "length (es_stck main_raw) = 512"
  by (simp_all add: main_raw_def)

section \<open>A call that does not return\<close>

text \<open>A round of \<open>AddEntry\<close> that leaves everything as it was is followed by the same round.\<close>

lemma AddEntry_stuck:
  assumes "AddToBucket K (primary AND bucket_mask s) key val s = (None, s)" "AddToBucket K (secondary AND bucket_mask s) key val s = (None, s)"
    "MakeSpace K (primary AND bucket_mask s) 0 s = (r, s)" "0 \<le> r"
  shows "AddEntry K primary secondary key val s = None"
proof (rule ccontr)
  assume "AddEntry K primary secondary key val s \<noteq> None"
  then obtain y where y: "AddEntry K primary secondary key val s = Some y" by blast
  let ?same = "\<lambda>K' p q k v t. K' = K \<and> p = primary \<and> q = secondary \<and> k = key \<and> v = val \<and> t = s"
  have "\<not> ?same K primary secondary key val s"
  proof (rule AddEntry.raw_induct [where P = "\<lambda>K' p q k v t y. \<not> ?same K' p q k v t", OF _ y], goal_cases)
    case (1 f K' p q k v t y)
    show ?case
    proof
      assume "?same K' p q k v t"
      then have e: "K' = K" "p = primary" "q = secondary" "k = key" "v = val" "t = s" by simp_all
      have "f K primary secondary key val s = Some y" using "1"(2) assms unfolding e by (simp add: Let_def)
      from "1"(1) [OF this] show False by simp
    qed
  qed
  then show False by simp
qed

text \<open>When the first slot of a bucket can be emptied at once, \<open>MakeSpace\<close> does that.\<close>

lemma MakeSpace_first:
  assumes "alt_bucket K ix 0 s = Some alt" "FindEmptySlot (bucket_at alt s) = int j"
  shows "MakeSpace K ix 0 s = (0, move_slot ix 0 alt j s)"
  using assms by (subst MakeSpace.simps) (simp add: kMaxCuckooPath_def kEntriesPerBucket_def upt_rec)

lemma first_slot_zero: "hash_values b ! 0 = 0 \<Longrightarrow> FindEmptySlot b = int 0"
  by (simp add: FindEmptySlot_def first_slot_def kEntriesPerBucket_def upt_rec)

text \<open>An emptied slot keeps its index, and a move of a slot onto itself is no move.\<close>

lemma move_slot_first:
  assumes "unat ix < length (cm_buckets s)" "unat alt < length (cm_buckets s)" "0 < length (hash_values (bucket_at ix s))"
    "ix = alt \<longrightarrow> j \<noteq> 0"
  shows "hash_values (bucket_at ix (move_slot ix 0 alt j s)) ! 0 = 0"
    "entry_indices (bucket_at ix (move_slot ix 0 alt j s)) ! 0 = entry_indices (bucket_at ix s) ! 0"
  using assms by (auto simp: move_slot_def upd_bucket_def bucket_at_def set_hash_def set_index_def M_mark_def Let_def
      nth_list_update word_unat_eq_iff [of ix alt])

lemma move_slot_rest:
  "cm_entries (move_slot ix i alt j s) = cm_entries s" "bucket_mask (move_slot ix i alt j s) = bucket_mask s"
  "es_head (move_slot ix i alt j s) = es_head s" "length (cm_buckets (move_slot ix i alt j s)) = length (cm_buckets s)"
  "Mark_bucket (unat ix) \<in> cm_marks (move_slot ix i alt j s)"
  by (simp_all add: move_slot_def upd_bucket_def M_mark_def Let_def)

lemma move_slot_self:
  assumes "hash_values (bucket_at ix s) ! 0 = 0" "Mark_bucket (unat ix) \<in> cm_marks s"
  shows "move_slot ix 0 ix 0 s = s"
proof -
  have "set_hash 0 0 (cm_buckets s ! unat ix) = cm_buckets s ! unat ix"
  proof -
    have "(hash_values (cm_buckets s ! unat ix))[0 := 0] = hash_values (cm_buckets s ! unat ix)"
      using list_update_id [of "hash_values (cm_buckets s ! unat ix)" 0] assms(1) unfolding bucket_at_def by metis
    then show ?thesis by (simp add: set_hash_def)
  qed
  then have "upd_bucket ix (set_hash 0 0) s = s" by (simp add: upd_bucket_def)
  moreover have "upd_bucket ix (set_index 0 (entry_indices (bucket_at ix s) ! 0)) s = s"
    by (simp add: upd_bucket_def set_index_def bucket_at_def)
  ultimately show ?thesis using assms by (simp add: move_slot_def Let_def M_mark_def insert_absorb)
qed

text \<open>
  With no entry free, an insertion whose first bucket has in its first slot a key of that bucket with a second hash of zero does not end:
  the key goes to bucket 0, the emptied slot has the hash zero, which is the second hash of the key its index still names, and from then on
  \<open>MakeSpace\<close> moves the empty slot onto itself.
\<close>

lemma Insert_stuck:
  assumes laws: "key_laws K" and ok: "cm_ok K pw E s M" and new: "M key = None" and hd: "es_head s = 0"
    and b: "b = bucket_at (Hash K key AND bucket_mask s) s" "hash_values b ! 0 \<noteq> 0"
    and old: "old = fst (cm_entries s ! unat (entry_indices b ! 0))" "HashSecondary (Hash K old) = 0"
      "Hash K old AND bucket_mask s = Hash K key AND bucket_mask s"
    and room: "\<not> full (held s) 0"
  shows "Insert K key val s = None"
proof -
  let ?ix = "Hash K key AND bucket_mask s"
  note sh = cm_okD(1) [OF ok] and tab = cm_okD(2) [OF ok]
  have pw: "pw < 31" "bucket_mask s = mask pw" "length (cm_buckets s) = 2 ^ pw" using sh by (simp_all add: shape_def)
  have ix: "unat ?ix < length (cm_buckets s)" using masked_less [OF pw(1)] by (simp add: pw)
  then have len: "0 < length (hash_values (bucket_at ?ix s))" using sh by (simp add: shape_def bucket_ok_def bucket_at_def)
  have slot: "(unat ?ix, 0) \<in> slots pw" using ix by (simp add: slots_def pw(3))
  have "held s (unat ?ix, 0) = Some (hash_values b ! 0, unat (entry_indices b ! 0))" using b by (simp add: held_def bucket_at_def Let_def)
  then have hash: "hash_values b ! 0 = Hash K old" using tab slot unfolding table_ok_def old(1) by blast
  obtain j where j: "j < 4" "FindEmptySlot (bucket_at 0 s) = int j" "held s (0, j) = None"
    using empty_slot [of 0 "0 :: u32" s] room by auto
  define s1 where "s1 = move_slot ?ix 0 0 j s"
  have zero: "unat (0 :: u32) < length (cm_buckets s)" by (simp add: pw(3))
  have apart: "?ix = 0 \<longrightarrow> j \<noteq> 0" using j(3) b by (cases "j = 0") (auto simp: held_def Let_def bucket_at_def split: if_splits)
  have first: "MakeSpace K ?ix 0 s = (0, s1)"
    unfolding s1_def using b old hash by (intro MakeSpace_first j(2)) (simp add: alt_bucket_def Let_def)
  note mv = move_slot_first [OF ix zero len apart, folded s1_def] and rest = move_slot_rest [where ix = ?ix and i = 0 and alt = 0 and j = j and s = s, folded s1_def]
  have "alt_bucket K ?ix 0 s1 = Some ?ix" using mv old b Hash_nonzero [of K old] by (simp add: alt_bucket_def Let_def rest)
  then have "MakeSpace K ?ix 0 s1 = (0, move_slot ?ix 0 ?ix 0 s1)" by (rule MakeSpace_first) (rule first_slot_zero [OF mv(1)])
  then have second: "MakeSpace K ?ix 0 s1 = (0, s1)" using move_slot_self [OF mv(1) rest(5)] by simp
  have none: "AddToBucket K i key val s = (None, s)" "AddToBucket K i key val s1 = (None, s1)" for i
    using key_laws.AddToBucket_none [OF laws] hd rest(3) by simp_all
  have "AddEntry K (Hash K key) q key val s1 = None" for q
    by (rule AddEntry_stuck [where r = 0]) (simp_all add: none rest second)
  then have "AddEntry K (Hash K key) q key val s = None" for q
    by (subst AddEntry.simps) (simp add: none first Let_def)
  moreover have "FindWithHash K (Hash K key) key s = kInvalidEntryIdx" using key_laws.FindWithHash_ok [OF laws ok, of key] new by simp
  ultimately show ?thesis by (simp add: Insert_def Let_def)
qed

text \<open>A map with one bucket and one entry, in a block of zeroes.\<close>

definition small_raw :: "(u64, u64) CuckooMap" where
  "small_raw = \<lparr>bucket_mask = 0, num_entries = 0, alloc_num_buckets = 0, alloc_num_entries = 0, es_head = 0, es_size = 0, es_stck = [0],
     cm_buckets = [zero_bucket], cm_entries = [(0, 0)], cm_marks = {}\<rparr>"

text \<open>The second hash of this key is zero.\<close>

definition bad_key :: u64 where "bad_key = 0xb55a95f2"

definition small_map :: "HashResult list \<Rightarrow> mark set \<Rightarrow> (u64, u64) CuckooMap" where
  "small_map hs ms = \<lparr>bucket_mask = 0, num_entries = 1, alloc_num_buckets = 1, alloc_num_entries = 1, es_head = 0, es_size = 1, es_stck = [0],
     cm_buckets = [\<lparr>hash_values = hs, entry_indices = [0, 0, 0, 0]\<rparr>], cm_entries = [(bad_key, 7)], cm_marks = ms\<rparr>"

lemma bad_hash: "Hash size_t_ops bad_key = 0xb55a95f2" "HashSecondary 0xb55a95f2 = 0" "Hash size_t_ops 5 = 0x80000005"
  by code_simp+

lemmas small_defs = AddToBucket_def FindEmptySlot_def FindSlot_def first_slot_def kEntriesPerBucket_def upt_rec bucket_at_def upd_bucket_def
  set_hash_def set_index_def set_entry_def zero_bucket_def PopFreeEntryIndex_def EntryStack_Empty_def Top_def Pop_def stck_get_def
  kInvalidEntryIdx_def M_mark_def Let_def

lemma small_create:
  "Create size_t_ops (CuckooMap_Size size_t_ops 1 1) 1 1 small_raw =
    Some \<lparr>bucket_mask = 0, num_entries = 0, alloc_num_buckets = 1, alloc_num_entries = 1, es_head = 1, es_size = 1, es_stck = [0],
     cm_buckets = [zero_bucket], cm_entries = [(0, 0)], cm_marks = {Mark_all, Mark_cells, Mark_head, Mark_estack}\<rparr>"
  by (simp add: Create_def CuckooMap_Size_def BytesForEntries_def size_t_ops_def EntryStack_Create_def small_raw_def M_mark_def Clear_def Let_def
    EntryStack_Clear_def zero_first_def InvalidateStack_def PushNoLog_def stck_set_def)

definition small_marks :: "mark set" where
  "small_marks = {Mark_entry 0, Mark_bucket 0, Mark_head, Mark_all, Mark_cells, Mark_estack}"

lemma small_start:
  "Option.bind (Create size_t_ops (CuckooMap_Size size_t_ops 1 1) 1 1 small_raw) (Insert size_t_ops bad_key 7) =
    Some (Some 0, small_map [0xb55a95f2, 0, 0, 0] small_marks)"
proof -
  let ?s = "\<lparr>bucket_mask = 0, num_entries = 0, alloc_num_buckets = 1, alloc_num_entries = 1, es_head = 1, es_size = 1, es_stck = [0],
     cm_buckets = [zero_bucket], cm_entries = [(0, 0)], cm_marks = {Mark_all, Mark_cells, Mark_head, Mark_estack}\<rparr> :: (u64, u64) CuckooMap"
  have find: "FindWithHash size_t_ops 0xb55a95f2 bad_key ?s = kInvalidEntryIdx"
    by (simp add: FindWithHash_def GetFromBucket_def small_defs)
  have r4: "replicate 4 (0 :: u32) = [0, 0, 0, 0]" by (simp add: numeral_eq_Suc)
  have first: "k_first size_t_ops 0 = 0" by (simp add: size_t_ops_def)
  have "AddToBucket size_t_ops 0 bad_key 7 ?s = (Some 0, small_map [0xb55a95f2, 0, 0, 0] small_marks)"
    by (simp add: small_defs bad_hash small_map_def small_marks_def first insert_commute r4)
  then have "AddEntry size_t_ops 0xb55a95f2 0 bad_key 7 ?s = Some (Some 0, small_map [0xb55a95f2, 0, 0, 0] small_marks)"
    by (subst AddEntry.simps) (simp add: Let_def)
  then have "Insert size_t_ops bad_key 7 ?s = Some (Some 0, small_map [0xb55a95f2, 0, 0, 0] small_marks)"
    unfolding Insert_def Let_def bad_hash find by simp
  then show ?thesis unfolding small_create by simp
qed

text \<open>The map with the one binding is well formed.\<close>

definition small_one :: "(u64, u64) CuckooMap" where
  "small_one = small_map [0xb55a95f2, 0, 0, 0] small_marks"

lemma small_one_start:
  "Option.bind (Create size_t_ops (CuckooMap_Size size_t_ops 1 1) 1 1 small_raw) (Insert size_t_ops bad_key 7) = Some (Some 0, small_one)"
  using small_start by (simp add: small_one_def)

lemma small_one_slots:
  "es_head small_one = 0" "bucket_at 0 small_one = \<lparr>hash_values = [0xb55a95f2, 0, 0, 0], entry_indices = [0, 0, 0, 0]\<rparr>"
  "bucket_mask small_one = 0" "cm_entries small_one = [(bad_key, 7)]" "\<not> full (held small_one) 0"
proof -
  show "es_head small_one = 0" "bucket_mask small_one = 0" "cm_entries small_one = [(bad_key, 7)]"
    "bucket_at 0 small_one = \<lparr>hash_values = [0xb55a95f2, 0, 0, 0], entry_indices = [0, 0, 0, 0]\<rparr>"
    by (simp_all add: small_one_def small_map_def bucket_at_def)
  have "held small_one (0, 1) = None" by (simp add: held_def small_one_def small_map_def)
  then show "\<not> full (held small_one) 0" by (auto simp: full_def intro!: exI [of _ 1])
qed

lemma small_one_ok: "cm_ok size_t_ops 0 1 small_one (Map.empty(bad_key \<mapsto> 7))"
proof -
  obtain s where s: "Create size_t_ops (CuckooMap_Size size_t_ops 1 1) 1 1 small_raw = Some s" "cm_ok size_t_ops 0 1 s Map.empty"
    using cz.Create_ok [of 1 1 0 "CuckooMap_Size size_t_ops 1 1" small_raw] by (auto simp: small_raw_def size_t_ops_def)
  have ins: "Insert size_t_ops bad_key 7 s = Some (Some 0, small_one)" using small_one_start s(1) by simp
  have "es_head s = 1" using s(1) unfolding small_create by auto
  then show ?thesis using cz.Insert_returns [OF s(2), of bad_key 7] ins by auto
qed

end
