(* ===== verification/Xx_Hash.thy ===== *)
theory Xx_Hash
  imports Tasvir_Prelude
begin

text \<open>
  \<open>apps/cuckoo-lb/xxhash.c\<close>: the hash functions XXH32 and XXH64, their streaming interface and the canonical form of
  their results. A pointer into the input is the list of bytes from there to the end. The byte order of the processor
  is an argument (\<open>cpu\<close>), and so is whether the code checks the alignment of the input (\<open>XXH_FORCE_ALIGN_CHECK\<close>). Lengths are
  numbers below \<open>2 ^ 64\<close>, as those of objects in memory are. \<open>XXH_ACCEPT_NULL_INPUT_POINTER\<close> and \<open>XXH_FORCE_NATIVE_FORMAT\<close> are 0,
  their default; the input is not a null pointer, the one case where an update returns an error.
\<close>

section \<open>Memory reads\<close>

datatype XXH_endianess = XXH_bigEndian | XXH_littleEndian
datatype XXH_alignment = XXH_aligned | XXH_unaligned

text \<open>A word of \<open>n\<close> bytes as the processor reads it.\<close>

fun word_of_bytes :: "u8 list \<Rightarrow> 'a::len word" where
  "word_of_bytes [] = 0"
| "word_of_bytes (b # bs) = ucast b OR push_bit 8 (word_of_bytes bs)"

definition native :: "XXH_endianess \<Rightarrow> u8 list \<Rightarrow> u8 list" where
  "native cpu bs = (case cpu of XXH_littleEndian \<Rightarrow> bs | XXH_bigEndian \<Rightarrow> rev bs)"

definition XXH_read32 :: "XXH_endianess \<Rightarrow> u8 list \<Rightarrow> u32" where
  "XXH_read32 cpu memPtr = word_of_bytes (native cpu (take 4 memPtr))"

definition XXH_swap32 :: "u32 \<Rightarrow> u32" where
  "XXH_swap32 x = (push_bit 24 x AND 0xff000000) OR (push_bit 8 x AND 0x00ff0000) OR
     (drop_bit 8 x AND 0x0000ff00) OR (drop_bit 24 x AND 0x000000ff)"

definition XXH_readLE32_align :: "XXH_endianess \<Rightarrow> u8 list \<Rightarrow> XXH_endianess \<Rightarrow> XXH_alignment \<Rightarrow> u32" where
  "XXH_readLE32_align cpu ptr endian align =
    (if align = XXH_unaligned
     then (if endian = XXH_littleEndian then XXH_read32 cpu ptr else XXH_swap32 (XXH_read32 cpu ptr))
     else (if endian = XXH_littleEndian then XXH_read32 cpu ptr else XXH_swap32 (XXH_read32 cpu ptr)))"

definition XXH_readLE32 :: "XXH_endianess \<Rightarrow> u8 list \<Rightarrow> XXH_endianess \<Rightarrow> u32" where
  "XXH_readLE32 cpu ptr endian = XXH_readLE32_align cpu ptr endian XXH_unaligned"

definition XXH_readBE32 :: "XXH_endianess \<Rightarrow> u8 list \<Rightarrow> u32" where
  "XXH_readBE32 cpu ptr = (if cpu = XXH_littleEndian then XXH_swap32 (XXH_read32 cpu ptr) else XXH_read32 cpu ptr)"

definition XXH_read64 :: "XXH_endianess \<Rightarrow> u8 list \<Rightarrow> u64" where
  "XXH_read64 cpu memPtr = word_of_bytes (native cpu (take 8 memPtr))"

definition XXH_swap64 :: "u64 \<Rightarrow> u64" where
  "XXH_swap64 x = (push_bit 56 x AND 0xff00000000000000) OR (push_bit 40 x AND 0x00ff000000000000) OR
     (push_bit 24 x AND 0x0000ff0000000000) OR (push_bit 8 x AND 0x000000ff00000000) OR
     (drop_bit 8 x AND 0x00000000ff000000) OR (drop_bit 24 x AND 0x0000000000ff0000) OR
     (drop_bit 40 x AND 0x000000000000ff00) OR (drop_bit 56 x AND 0x00000000000000ff)"

definition XXH_readLE64_align :: "XXH_endianess \<Rightarrow> u8 list \<Rightarrow> XXH_endianess \<Rightarrow> XXH_alignment \<Rightarrow> u64" where
  "XXH_readLE64_align cpu ptr endian align =
    (if align = XXH_unaligned
     then (if endian = XXH_littleEndian then XXH_read64 cpu ptr else XXH_swap64 (XXH_read64 cpu ptr))
     else (if endian = XXH_littleEndian then XXH_read64 cpu ptr else XXH_swap64 (XXH_read64 cpu ptr)))"

definition XXH_readLE64 :: "XXH_endianess \<Rightarrow> u8 list \<Rightarrow> XXH_endianess \<Rightarrow> u64" where
  "XXH_readLE64 cpu ptr endian = XXH_readLE64_align cpu ptr endian XXH_unaligned"

definition XXH_readBE64 :: "XXH_endianess \<Rightarrow> u8 list \<Rightarrow> u64" where
  "XXH_readBE64 cpu ptr = (if cpu = XXH_littleEndian then XXH_swap64 (XXH_read64 cpu ptr) else XXH_read64 cpu ptr)"

section \<open>XXH32\<close>

definition XXH_rotl32 :: "u32 \<Rightarrow> nat \<Rightarrow> u32" where
  "XXH_rotl32 x r = push_bit r x OR drop_bit (32 - r) x"

definition PRIME32_1 :: u32 where "PRIME32_1 = 2654435761"
definition PRIME32_2 :: u32 where "PRIME32_2 = 2246822519"
definition PRIME32_3 :: u32 where "PRIME32_3 = 3266489917"
definition PRIME32_4 :: u32 where "PRIME32_4 = 668265263"
definition PRIME32_5 :: u32 where "PRIME32_5 = 374761393"

definition XXH32_round :: "u32 \<Rightarrow> u32 \<Rightarrow> u32" where
  "XXH32_round seed input = (let seed = seed + input * PRIME32_2; seed = XXH_rotl32 seed 13 in seed * PRIME32_1)"

type_synonym vs32 = "u32 \<times> u32 \<times> u32 \<times> u32"

definition init32 :: "u32 \<Rightarrow> vs32" where
  "init32 seed = (seed + PRIME32_1 + PRIME32_2, seed + PRIME32_2, seed + 0, seed - PRIME32_1)"

text \<open>One pass of the main loop, and the loop while 16 bytes are left.\<close>

definition stripe32 :: "(u8 list \<Rightarrow> u32) \<Rightarrow> u8 list \<Rightarrow> vs32 \<Rightarrow> vs32" where
  "stripe32 get p v = (case v of (v1, v2, v3, v4) \<Rightarrow>
     (XXH32_round v1 (get p), XXH32_round v2 (get (drop 4 p)), XXH32_round v3 (get (drop 8 p)), XXH32_round v4 (get (drop 12 p))))"

function stripes32 :: "(u8 list \<Rightarrow> u32) \<Rightarrow> u8 list \<Rightarrow> vs32 \<Rightarrow> u8 list \<times> vs32" where
  "stripes32 get p v = (if 16 \<le> length p then stripes32 get (drop 16 p) (stripe32 get p v) else (p, v))"
  by pat_completeness auto
termination
  by (relation "measure (\<lambda>(get, p, v). length p)") auto

declare stripes32.simps [simp del]

definition sum32 :: "vs32 \<Rightarrow> u32" where
  "sum32 v = (case v of (v1, v2, v3, v4) \<Rightarrow> XXH_rotl32 v1 1 + XXH_rotl32 v2 7 + XXH_rotl32 v3 12 + XXH_rotl32 v4 18)"

text \<open>The words and the bytes that are left, and the final mixing.\<close>

function words32 :: "(u8 list \<Rightarrow> u32) \<Rightarrow> u8 list \<Rightarrow> u32 \<Rightarrow> u8 list \<times> u32" where
  "words32 get p h32 =
    (if 4 \<le> length p
     then let h32 = h32 + get p * PRIME32_3; h32 = XXH_rotl32 h32 17 * PRIME32_4 in words32 get (drop 4 p) h32
     else (p, h32))"
  by pat_completeness auto
termination
  by (relation "measure (\<lambda>(get, p, h). length p)") auto

fun bytes32 :: "u8 list \<Rightarrow> u32 \<Rightarrow> u32" where
  "bytes32 [] h32 = h32"
| "bytes32 (b # p) h32 = (let h32 = h32 + ucast b * PRIME32_5; h32 = XXH_rotl32 h32 11 * PRIME32_1 in bytes32 p h32)"

definition final32 :: "u32 \<Rightarrow> u32" where
  "final32 h32 =
    (let h32 = h32 XOR drop_bit 15 h32; h32 = h32 * PRIME32_2; h32 = h32 XOR drop_bit 13 h32; h32 = h32 * PRIME32_3
     in h32 XOR drop_bit 16 h32)"

definition XXH32_endian_align :: "XXH_endianess \<Rightarrow> u8 list \<Rightarrow> u32 \<Rightarrow> XXH_endianess \<Rightarrow> XXH_alignment \<Rightarrow> u32" where
  "XXH32_endian_align cpu input seed endian align =
    (let get = (\<lambda>p. XXH_readLE32_align cpu p endian align);
         (p, h32) = (if length input \<ge> 16 then let (p, v) = stripes32 get input (init32 seed) in (p, sum32 v)
                     else (input, seed + PRIME32_5));
         h32 = h32 + of_nat (length input);
         (p, h32) = words32 get p h32;
         h32 = bytes32 p h32
     in final32 h32)"

definition XXH32 :: "XXH_endianess \<Rightarrow> bool \<Rightarrow> u64 \<Rightarrow> u8 list \<Rightarrow> u32 \<Rightarrow> u32" where
  "XXH32 cpu align_check addr input seed =
    (if align_check \<and> addr AND 3 = 0
     then (if cpu = XXH_littleEndian then XXH32_endian_align cpu input seed XXH_littleEndian XXH_aligned
           else XXH32_endian_align cpu input seed XXH_bigEndian XXH_aligned)
     else if cpu = XXH_littleEndian then XXH32_endian_align cpu input seed XXH_littleEndian XXH_unaligned
     else XXH32_endian_align cpu input seed XXH_bigEndian XXH_unaligned)"

record XXH32_state_t =
  total_len_32 :: u32
  large_len :: u32
  vs_32 :: vs32
  mem32 :: "u8 list"
  memsize_32 :: nat

definition XXH32_reset :: "u32 \<Rightarrow> XXH32_state_t" where
  "XXH32_reset seed = \<lparr>total_len_32 = 0, large_len = 0, vs_32 = init32 seed, mem32 = replicate 16 0, memsize_32 = 0\<rparr>"

text \<open>\<open>XXH_memcpy\<close> of \<open>src\<close> to the buffer \<open>dest\<close>, from position \<open>at\<close> on.\<close>

definition XXH_memcpy :: "u8 list \<Rightarrow> nat \<Rightarrow> u8 list \<Rightarrow> u8 list" where
  "XXH_memcpy dest at src = take at dest @ src @ drop (at + length src) dest"

definition XXH32_update_endian :: "XXH_endianess \<Rightarrow> XXH32_state_t \<Rightarrow> u8 list \<Rightarrow> XXH_endianess \<Rightarrow> XXH32_state_t" where
  "XXH32_update_endian cpu st input endian =
    (let get = (\<lambda>p. XXH_readLE32 cpu p endian);
         st = st\<lparr>total_len_32 := total_len_32 st + of_nat (length input)\<rparr>;
         st = st\<lparr>large_len := large_len st OR (of_bool (length input \<ge> 16) OR of_bool (total_len_32 st \<ge> 16))\<rparr>
     in if memsize_32 st + length input < 16
        then st\<lparr>mem32 := XXH_memcpy (mem32 st) (memsize_32 st) input, memsize_32 := memsize_32 st + length input\<rparr>
        else let (p, st) =
                   (if memsize_32 st \<noteq> 0
                    then let n = 16 - memsize_32 st;
                             st = st\<lparr>mem32 := XXH_memcpy (mem32 st) (memsize_32 st) (take n input)\<rparr>;
                             st = st\<lparr>vs_32 := stripe32 get (mem32 st) (vs_32 st)\<rparr>
                         in (drop n input, st\<lparr>memsize_32 := 0\<rparr>)
                    else (input, st));
                 (p, v) = stripes32 get p (vs_32 st);
                 st = st\<lparr>vs_32 := v\<rparr>
             in if p \<noteq> [] then st\<lparr>mem32 := XXH_memcpy (mem32 st) 0 p, memsize_32 := length p\<rparr> else st)"

definition XXH32_update :: "XXH_endianess \<Rightarrow> XXH32_state_t \<Rightarrow> u8 list \<Rightarrow> XXH32_state_t" where
  "XXH32_update cpu st input =
    (if cpu = XXH_littleEndian then XXH32_update_endian cpu st input XXH_littleEndian
     else XXH32_update_endian cpu st input XXH_bigEndian)"

definition XXH32_digest_endian :: "XXH_endianess \<Rightarrow> XXH32_state_t \<Rightarrow> XXH_endianess \<Rightarrow> u32" where
  "XXH32_digest_endian cpu st endian =
    (let get = (\<lambda>p. XXH_readLE32 cpu p endian);
         p = take (memsize_32 st) (mem32 st);
         h32 = (if large_len st \<noteq> 0 then sum32 (vs_32 st) else fst (snd (snd (vs_32 st))) + PRIME32_5);
         h32 = h32 + total_len_32 st;
         (p, h32) = words32 get p h32;
         h32 = bytes32 p h32
     in final32 h32)"

definition XXH32_digest :: "XXH_endianess \<Rightarrow> XXH32_state_t \<Rightarrow> u32" where
  "XXH32_digest cpu st =
    (if cpu = XXH_littleEndian then XXH32_digest_endian cpu st XXH_littleEndian else XXH32_digest_endian cpu st XXH_bigEndian)"

text \<open>\<open>memcpy\<close> of a word to bytes.\<close>

fun bytes_of_word :: "nat \<Rightarrow> 'a::len word \<Rightarrow> u8 list" where
  "bytes_of_word 0 w = []"
| "bytes_of_word (Suc n) w = ucast w # bytes_of_word n (drop_bit 8 w)"

definition XXH32_canonicalFromHash :: "XXH_endianess \<Rightarrow> u32 \<Rightarrow> u8 list" where
  "XXH32_canonicalFromHash cpu hash =
    (let hash = (if cpu = XXH_littleEndian then XXH_swap32 hash else hash) in native cpu (bytes_of_word 4 hash))"

definition XXH32_hashFromCanonical :: "XXH_endianess \<Rightarrow> u8 list \<Rightarrow> u32" where
  "XXH32_hashFromCanonical cpu src = XXH_readBE32 cpu src"

section \<open>XXH64\<close>

definition XXH_rotl64 :: "u64 \<Rightarrow> nat \<Rightarrow> u64" where
  "XXH_rotl64 x r = push_bit r x OR drop_bit (64 - r) x"

definition PRIME64_1 :: u64 where "PRIME64_1 = 11400714785074694791"
definition PRIME64_2 :: u64 where "PRIME64_2 = 14029467366897019727"
definition PRIME64_3 :: u64 where "PRIME64_3 = 1609587929392839161"
definition PRIME64_4 :: u64 where "PRIME64_4 = 9650029242287828579"
definition PRIME64_5 :: u64 where "PRIME64_5 = 2870177450012600261"

definition XXH64_round :: "u64 \<Rightarrow> u64 \<Rightarrow> u64" where
  "XXH64_round acc input = (let acc = acc + input * PRIME64_2; acc = XXH_rotl64 acc 31 in acc * PRIME64_1)"

definition XXH64_mergeRound :: "u64 \<Rightarrow> u64 \<Rightarrow> u64" where
  "XXH64_mergeRound acc val = (let val = XXH64_round 0 val; acc = acc XOR val in acc * PRIME64_1 + PRIME64_4)"

type_synonym vs64 = "u64 \<times> u64 \<times> u64 \<times> u64"

definition init64 :: "u64 \<Rightarrow> vs64" where
  "init64 seed = (seed + PRIME64_1 + PRIME64_2, seed + PRIME64_2, seed + 0, seed - PRIME64_1)"

definition stripe64 :: "(u8 list \<Rightarrow> u64) \<Rightarrow> u8 list \<Rightarrow> vs64 \<Rightarrow> vs64" where
  "stripe64 get p v = (case v of (v1, v2, v3, v4) \<Rightarrow>
     (XXH64_round v1 (get p), XXH64_round v2 (get (drop 8 p)), XXH64_round v3 (get (drop 16 p)), XXH64_round v4 (get (drop 24 p))))"

function stripes64 :: "(u8 list \<Rightarrow> u64) \<Rightarrow> u8 list \<Rightarrow> vs64 \<Rightarrow> u8 list \<times> vs64" where
  "stripes64 get p v = (if 32 \<le> length p then stripes64 get (drop 32 p) (stripe64 get p v) else (p, v))"
  by pat_completeness auto
termination
  by (relation "measure (\<lambda>(get, p, v). length p)") auto

declare stripes64.simps [simp del]

definition sum64 :: "vs64 \<Rightarrow> u64" where
  "sum64 v = (case v of (v1, v2, v3, v4) \<Rightarrow>
    (let h64 = XXH_rotl64 v1 1 + XXH_rotl64 v2 7 + XXH_rotl64 v3 12 + XXH_rotl64 v4 18;
         h64 = XXH64_mergeRound h64 v1; h64 = XXH64_mergeRound h64 v2; h64 = XXH64_mergeRound h64 v3
     in XXH64_mergeRound h64 v4))"

function words64 :: "(u8 list \<Rightarrow> u64) \<Rightarrow> u8 list \<Rightarrow> u64 \<Rightarrow> u8 list \<times> u64" where
  "words64 get p h64 =
    (if 8 \<le> length p
     then let k1 = XXH64_round 0 (get p); h64 = h64 XOR k1; h64 = XXH_rotl64 h64 27 * PRIME64_1 + PRIME64_4
          in words64 get (drop 8 p) h64
     else (p, h64))"
  by pat_completeness auto
termination
  by (relation "measure (\<lambda>(get, p, h). length p)") auto

definition half64 :: "(u8 list \<Rightarrow> u32) \<Rightarrow> u8 list \<Rightarrow> u64 \<Rightarrow> u8 list \<times> u64" where
  "half64 get p h64 =
    (if 4 \<le> length p
     then let h64 = h64 XOR ucast (get p) * PRIME64_1; h64 = XXH_rotl64 h64 23 * PRIME64_2 + PRIME64_3 in (drop 4 p, h64)
     else (p, h64))"

fun bytes64 :: "u8 list \<Rightarrow> u64 \<Rightarrow> u64" where
  "bytes64 [] h64 = h64"
| "bytes64 (b # p) h64 = (let h64 = h64 XOR ucast b * PRIME64_5; h64 = XXH_rotl64 h64 11 * PRIME64_1 in bytes64 p h64)"

definition final64 :: "u64 \<Rightarrow> u64" where
  "final64 h64 =
    (let h64 = h64 XOR drop_bit 33 h64; h64 = h64 * PRIME64_2; h64 = h64 XOR drop_bit 29 h64; h64 = h64 * PRIME64_3
     in h64 XOR drop_bit 32 h64)"

definition XXH64_endian_align :: "XXH_endianess \<Rightarrow> u8 list \<Rightarrow> u64 \<Rightarrow> XXH_endianess \<Rightarrow> XXH_alignment \<Rightarrow> u64" where
  "XXH64_endian_align cpu input seed endian align =
    (let get = (\<lambda>p. XXH_readLE64_align cpu p endian align);
         (p, h64) = (if length input \<ge> 32 then let (p, v) = stripes64 get input (init64 seed) in (p, sum64 v)
                     else (input, seed + PRIME64_5));
         h64 = h64 + of_nat (length input);
         (p, h64) = words64 get p h64;
         (p, h64) = half64 (\<lambda>p. XXH_readLE32_align cpu p endian align) p h64;
         h64 = bytes64 p h64
     in final64 h64)"

definition XXH64 :: "XXH_endianess \<Rightarrow> bool \<Rightarrow> u64 \<Rightarrow> u8 list \<Rightarrow> u64 \<Rightarrow> u64" where
  "XXH64 cpu align_check addr input seed =
    (if align_check \<and> addr AND 7 = 0
     then (if cpu = XXH_littleEndian then XXH64_endian_align cpu input seed XXH_littleEndian XXH_aligned
           else XXH64_endian_align cpu input seed XXH_bigEndian XXH_aligned)
     else if cpu = XXH_littleEndian then XXH64_endian_align cpu input seed XXH_littleEndian XXH_unaligned
     else XXH64_endian_align cpu input seed XXH_bigEndian XXH_unaligned)"

record XXH64_state_t =
  total_len :: u64
  vs_64 :: vs64
  mem64 :: "u8 list"
  memsize_64 :: nat

definition XXH64_reset :: "u64 \<Rightarrow> XXH64_state_t" where
  "XXH64_reset seed = \<lparr>total_len = 0, vs_64 = init64 seed, mem64 = replicate 32 0, memsize_64 = 0\<rparr>"

definition XXH64_update_endian :: "XXH_endianess \<Rightarrow> XXH64_state_t \<Rightarrow> u8 list \<Rightarrow> XXH_endianess \<Rightarrow> XXH64_state_t" where
  "XXH64_update_endian cpu st input endian =
    (let get = (\<lambda>p. XXH_readLE64 cpu p endian);
         st = st\<lparr>total_len := total_len st + of_nat (length input)\<rparr>
     in if memsize_64 st + length input < 32
        then st\<lparr>mem64 := XXH_memcpy (mem64 st) (memsize_64 st) input, memsize_64 := memsize_64 st + length input\<rparr>
        else let (p, st) =
                   (if memsize_64 st \<noteq> 0
                    then let n = 32 - memsize_64 st;
                             st = st\<lparr>mem64 := XXH_memcpy (mem64 st) (memsize_64 st) (take n input)\<rparr>;
                             st = st\<lparr>vs_64 := stripe64 get (mem64 st) (vs_64 st)\<rparr>
                         in (drop n input, st\<lparr>memsize_64 := 0\<rparr>)
                    else (input, st));
                 (p, v) = stripes64 get p (vs_64 st);
                 st = st\<lparr>vs_64 := v\<rparr>
             in if p \<noteq> [] then st\<lparr>mem64 := XXH_memcpy (mem64 st) 0 p, memsize_64 := length p\<rparr> else st)"

definition XXH64_update :: "XXH_endianess \<Rightarrow> XXH64_state_t \<Rightarrow> u8 list \<Rightarrow> XXH64_state_t" where
  "XXH64_update cpu st input =
    (if cpu = XXH_littleEndian then XXH64_update_endian cpu st input XXH_littleEndian
     else XXH64_update_endian cpu st input XXH_bigEndian)"

definition XXH64_digest_endian :: "XXH_endianess \<Rightarrow> XXH64_state_t \<Rightarrow> XXH_endianess \<Rightarrow> u64" where
  "XXH64_digest_endian cpu st endian =
    (let get = (\<lambda>p. XXH_readLE64 cpu p endian);
         p = take (memsize_64 st) (mem64 st);
         h64 = (if total_len st \<ge> 32 then sum64 (vs_64 st) else fst (snd (snd (vs_64 st))) + PRIME64_5);
         h64 = h64 + total_len st;
         (p, h64) = words64 get p h64;
         (p, h64) = half64 (\<lambda>p. XXH_readLE32 cpu p endian) p h64;
         h64 = bytes64 p h64
     in final64 h64)"

definition XXH64_digest :: "XXH_endianess \<Rightarrow> XXH64_state_t \<Rightarrow> u64" where
  "XXH64_digest cpu st =
    (if cpu = XXH_littleEndian then XXH64_digest_endian cpu st XXH_littleEndian else XXH64_digest_endian cpu st XXH_bigEndian)"

definition XXH64_canonicalFromHash :: "XXH_endianess \<Rightarrow> u64 \<Rightarrow> u8 list" where
  "XXH64_canonicalFromHash cpu hash =
    (let hash = (if cpu = XXH_littleEndian then XXH_swap64 hash else hash) in native cpu (bytes_of_word 8 hash))"

definition XXH64_hashFromCanonical :: "XXH_endianess \<Rightarrow> u8 list \<Rightarrow> u64" where
  "XXH64_hashFromCanonical cpu src = XXH_readBE64 cpu src"

end
