(* ===== verification/Xx_Stream.thy ===== *)
theory Xx_Stream
  imports Xx_Hash
begin

text \<open>
  What \<open>xxhash.c\<close> promises: the results do not depend on the byte order of the processor nor on the alignment of the
  input, feeding an input in pieces gives the same result as hashing it at once, and the canonical form is the result in big-endian
  order, from which it is read back.
\<close>

section \<open>Byte order\<close>

lemma word_of_bytes_bit:
  "bit (word_of_bytes bs :: 'a::len word) i \<longleftrightarrow> i < LENGTH('a) \<and> i div 8 < length bs \<and> bit (bs ! (i div 8)) (i mod 8)"
proof (induction bs arbitrary: i)
  case (Cons b bs)
  show ?case
  proof (cases "i < 8")
    case True
    then show ?thesis by (auto simp: bit_simps)
  next
    case False
    then have i: "i div 8 = Suc ((i - 8) div 8)" "i mod 8 = (i - 8) mod 8" by (auto simp: le_div_geq le_mod_geq)
    have "\<not> bit b i" using False by (auto dest: bit_imp_le_length)
    then show ?thesis using False Cons.IH [of "i - 8"] i by (auto simp: bit_simps)
  qed
qed simp

lemma swap_bits:
  "i < 32 \<Longrightarrow> bit (XXH_swap32 x) i \<longleftrightarrow> bit x (8 * (3 - i div 8) + i mod 8)"
  "i < 64 \<Longrightarrow> bit (XXH_swap64 y) i \<longleftrightarrow> bit y (8 * (7 - i div 8) + i mod 8)"
proof -
  have "\<forall>i\<in>set [0..<32]. bit (XXH_swap32 x) i = bit x (8 * (3 - i div 8) + i mod 8)"
    by (simp add: XXH_swap32_def upt_rec bit_simps) (simp add: numeral_eq_Suc)
  then show "i < 32 \<Longrightarrow> bit (XXH_swap32 x) i \<longleftrightarrow> bit x (8 * (3 - i div 8) + i mod 8)" by simp
  have "\<forall>i\<in>set [0..<64]. bit (XXH_swap64 y) i = bit y (8 * (7 - i div 8) + i mod 8)"
    by (simp add: XXH_swap64_def upt_rec bit_simps) (simp add: numeral_eq_Suc)
  then show "i < 64 \<Longrightarrow> bit (XXH_swap64 y) i \<longleftrightarrow> bit y (8 * (7 - i div 8) + i mod 8)" by simp
qed

lemma byte_index: "i < 8 * n \<Longrightarrow> (8 * (n - 1 - i div 8) + i mod 8) div 8 = n - 1 - i div 8 \<and> (8 * (n - 1 - i div 8) + i mod 8) mod 8 = i mod 8 \<and>
  8 * (n - 1 - i div 8) + i mod 8 < 8 * n \<and> i div 8 < n" for n :: nat
proof -
  assume i: "i < 8 * n"
  have "i div 8 < n" using i by (simp add: div_less_iff_less_mult mult.commute)
  moreover have "i mod 8 < 8" by simp
  ultimately have "8 * (n - 1 - i div 8) + i mod 8 < 8 * n" by (simp add: diff_mult_distrib2)
  then show ?thesis using \<open>i div 8 < n\<close> by simp
qed

text \<open>Swapping the bytes of a word is reading it in the other order.\<close>

lemma swap_word:
  "length bs = 4 \<Longrightarrow> XXH_swap32 (word_of_bytes (rev bs)) = word_of_bytes bs"
  "length cs = 8 \<Longrightarrow> XXH_swap64 (word_of_bytes (rev cs)) = word_of_bytes cs"
proof -
  assume bs: "length bs = 4"
  show "XXH_swap32 (word_of_bytes (rev bs)) = word_of_bytes bs"
  proof (rule bit_word_eqI)
    fix i
    assume "i < LENGTH(32)"
    then show "bit (XXH_swap32 (word_of_bytes (rev bs))) i \<longleftrightarrow> bit (word_of_bytes bs :: u32) i"
      using byte_index [of i 4] bs by (simp add: swap_bits word_of_bytes_bit rev_nth)
  qed
next
  assume cs: "length cs = 8"
  show "XXH_swap64 (word_of_bytes (rev cs)) = word_of_bytes cs"
  proof (rule bit_word_eqI)
    fix i
    assume "i < LENGTH(64)"
    then show "bit (XXH_swap64 (word_of_bytes (rev cs))) i \<longleftrightarrow> bit (word_of_bytes cs :: u64) i"
      using byte_index [of i 8] cs by (simp add: swap_bits word_of_bytes_bit rev_nth)
  qed
qed

text \<open>So every processor reads little-endian words, as long as the word is there.\<close>

definition le32 :: "u8 list \<Rightarrow> u32" where "le32 p = word_of_bytes (take 4 p)"
definition le64 :: "u8 list \<Rightarrow> u64" where "le64 p = word_of_bytes (take 8 p)"

lemma read_le32: "4 \<le> length p \<Longrightarrow> XXH_readLE32_align cpu p cpu align = le32 p"
  using swap_word(1) [of "take 4 p"] by (cases cpu) (simp_all add: XXH_readLE32_align_def XXH_read32_def native_def le32_def)

lemma read_le64: "8 \<le> length p \<Longrightarrow> XXH_readLE64_align cpu p cpu align = le64 p"
  using swap_word(2) [of "take 8 p"] by (cases cpu) (simp_all add: XXH_readLE64_align_def XXH_read64_def native_def le64_def)

lemma le_append [simp]: "4 \<le> length p \<Longrightarrow> le32 (p @ q) = le32 p" "8 \<le> length p \<Longrightarrow> le64 (p @ q) = le64 p"
  by (simp_all add: le32_def le64_def)

section \<open>XXH64 in one pass\<close>

lemma stripe64_cong: "32 \<le> length p \<Longrightarrow> (\<And>q. 8 \<le> length q \<Longrightarrow> get q = le64 q) \<Longrightarrow> stripe64 get p v = stripe64 le64 p v"
  by (simp add: stripe64_def)

lemma stripes64_cong:
  assumes "\<And>q. 8 \<le> length q \<Longrightarrow> get q = le64 q"
  shows "stripes64 get p v = stripes64 le64 p v"
proof (induction "length p" arbitrary: p v rule: less_induct)
  case less
  show ?case
  proof (cases "32 \<le> length p")
    case True
    then show ?thesis using less.hyps [of "drop 32 p"] stripe64_cong [OF True assms] by (simp add: stripes64.simps [of _ p])
  qed (simp add: stripes64.simps)
qed

lemma words64_cong:
  assumes "\<And>q. 8 \<le> length q \<Longrightarrow> get q = le64 q"
  shows "words64 get p h = words64 le64 p h"
proof (induction "length p" arbitrary: p h rule: less_induct)
  case less
  show ?case
  proof (cases "8 \<le> length p")
    case True
    then show ?thesis using less.hyps [of "drop 8 p"] assms [OF True] by (simp add: words64.simps [of _ p] Let_def del: words64.simps)
  qed simp
qed

lemma half64_cong: "(\<And>q. 4 \<le> length q \<Longrightarrow> get q = le32 q) \<Longrightarrow> half64 get p h = half64 le32 p h"
  by (simp add: half64_def)

text \<open>The end of the computation, and the whole of it, without byte orders.\<close>

definition tail64 :: "u8 list \<Rightarrow> u64 \<Rightarrow> u64" where
  "tail64 p h64 = (case words64 le64 p h64 of (p, h64) \<Rightarrow> case half64 le32 p h64 of (p, h64) \<Rightarrow> final64 (bytes64 p h64))"

definition xx64 :: "u8 list \<Rightarrow> u64 \<Rightarrow> u64" where
  "xx64 input seed =
    (let (p, h64) = (if length input \<ge> 32 then let (p, v) = stripes64 le64 input (init64 seed) in (p, sum64 v)
                     else (input, seed + PRIME64_5))
     in tail64 p (h64 + of_nat (length input)))"

lemma XXH64_endian_xx64: "XXH64_endian_align cpu input seed cpu align = xx64 input seed"
proof -
  have a: "stripes64 (\<lambda>p. XXH_readLE64_align cpu p cpu align) = stripes64 le64" "words64 (\<lambda>p. XXH_readLE64_align cpu p cpu align) = words64 le64"
    "half64 (\<lambda>p. XXH_readLE32_align cpu p cpu align) = half64 le32"
    by (intro ext stripes64_cong words64_cong half64_cong read_le64 read_le32; assumption)+
  show ?thesis unfolding XXH64_endian_align_def xx64_def tail64_def a Let_def by (simp add: split_def)
qed

lemma XXH64_xx64: "XXH64 cpu align_check addr input seed = xx64 input seed"
  using XXH64_endian_xx64 [of cpu] by (cases cpu) (simp_all add: XXH64_def)

section \<open>Streaming XXH64\<close>

lemma stripe64_append: "32 \<le> length p \<Longrightarrow> stripe64 le64 (p @ q) v = stripe64 le64 p v"
  by (simp add: stripe64_def)

lemma stripes64_append:
  "stripes64 le64 (p @ q) v = (case stripes64 le64 p v of (r, w) \<Rightarrow> stripes64 le64 (r @ q) w)"
proof (induction "length p" arbitrary: p v rule: less_induct)
  case less
  show ?case
  proof (cases "32 \<le> length p")
    case True
    then show ?thesis using less.hyps [of "drop 32 p"] by (simp add: stripes64.simps [of _ "p @ q"] stripes64.simps [of _ p] stripe64_append)
  qed (simp add: stripes64.simps [of _ p])
qed

lemma stripes64_rest: "length (fst (stripes64 get p v)) < 32"
proof (induction "length p" arbitrary: p v rule: less_induct)
  case less
  then show ?case by (cases "32 \<le> length p") (simp_all add: stripes64.simps [of _ p])
qed

lemma stripes64_short: "length p < 32 \<Longrightarrow> stripes64 get p v = (p, v)"
  by (simp add: stripes64.simps)

lemma stripes64_first:
  assumes "length a = 32"
  shows "stripes64 le64 (a @ b) v = stripes64 le64 b (stripe64 le64 a v)"
  using assms by (simp add: stripes64.simps [of _ "a @ b"] stripe64_append)

text \<open>The state after the bytes \<open>X\<close>: the stripes are in the accumulators, the rest is in the buffer.\<close>

definition fed64 :: "u64 \<Rightarrow> u8 list \<Rightarrow> XXH64_state_t \<Rightarrow> bool" where
  "fed64 seed X st \<longleftrightarrow> total_len st = of_nat (length X) \<and> (case stripes64 le64 X (init64 seed) of (r, v) \<Rightarrow>
     vs_64 st = v \<and> memsize_64 st = length r \<and> take (length r) (mem64 st) = r \<and> length (mem64 st) = 32)"

lemma fed64_reset: "fed64 seed [] (XXH64_reset seed)"
  by (simp add: fed64_def XXH64_reset_def stripes64_short)

lemma update64_eq:
  "XXH64_update cpu st input =
    (let st = st\<lparr>total_len := total_len st + of_nat (length input)\<rparr>
     in if memsize_64 st + length input < 32
        then st\<lparr>mem64 := XXH_memcpy (mem64 st) (memsize_64 st) input, memsize_64 := memsize_64 st + length input\<rparr>
        else let (p, st) =
                   (if memsize_64 st \<noteq> 0
                    then let n = 32 - memsize_64 st;
                             st = st\<lparr>mem64 := XXH_memcpy (mem64 st) (memsize_64 st) (take n input)\<rparr>;
                             st = st\<lparr>vs_64 := stripe64 (\<lambda>p. XXH_readLE64 cpu p cpu) (mem64 st) (vs_64 st)\<rparr>
                         in (drop n input, st\<lparr>memsize_64 := 0\<rparr>)
                    else (input, st));
                 (p, v) = stripes64 le64 p (vs_64 st);
                 st = st\<lparr>vs_64 := v\<rparr>
             in if p \<noteq> [] then st\<lparr>mem64 := XXH_memcpy (mem64 st) 0 p, memsize_64 := length p\<rparr> else st)"
proof -
  have "stripes64 (\<lambda>p. XXH_readLE64 cpu p cpu) = stripes64 le64" unfolding XXH_readLE64_def by (intro ext stripes64_cong read_le64)
  moreover have "XXH64_update cpu st input = XXH64_update_endian cpu st input cpu" by (cases cpu) (simp_all add: XXH64_update_def)
  ultimately show ?thesis by (simp add: XXH64_update_endian_def Let_def)
qed

lemma memcpy_start: "take (length p) (XXH_memcpy m 0 p) = p" "length p \<le> length m \<Longrightarrow> length (XXH_memcpy m 0 p) = length m"
  by (simp_all add: XXH_memcpy_def)

lemma memcpy_after:
  assumes "take (length r) m = r" "length r + length p \<le> length m"
  shows "XXH_memcpy m (length r) p = r @ p @ drop (length r + length p) m"
  using assms by (simp add: XXH_memcpy_def)

lemma fed64_update:
  assumes "fed64 seed X st"
  shows "fed64 seed (X @ Y) (XXH64_update cpu st Y)"
proof -
  obtain r v where rv: "stripes64 le64 X (init64 seed) = (r, v)" by (metis surj_pair)
  have lr: "length r < 32" using stripes64_rest [of le64 X "init64 seed"] by (simp add: rv)
  have st: "vs_64 st = v" "memsize_64 st = length r" "take (length r) (mem64 st) = r" "length (mem64 st) = 32"
    using assms by (simp_all add: fed64_def rv)
  have app: "stripes64 le64 (X @ Y) (init64 seed) = stripes64 le64 (r @ Y) v" using stripes64_append [of X Y "init64 seed"] by (simp add: rv)
  have tl: "total_len st + of_nat (length Y) = of_nat (length (X @ Y))" using assms by (simp add: fed64_def)
  show ?thesis
  proof (cases "length r + length Y < 32")
    case True
    then have "stripes64 le64 (X @ Y) (init64 seed) = (r @ Y, v)" by (simp add: app stripes64_short)
    then show ?thesis using True st tl memcpy_after [OF st(3), of Y] by (simp add: fed64_def update64_eq Let_def)
  next
    case False
    define n where "n = 32 - length r"
    define p where "p = (if r = [] then Y else drop n Y)"
    define w where "w = (if r = [] then v else stripe64 le64 (r @ take n Y) v)"
    have n: "length (r @ take n Y) = 32" using lr False by (simp add: n_def)
    have "stripes64 le64 (r @ Y) v = stripes64 le64 p w"
      using stripes64_first [OF n, of "drop n Y" v] by (cases "r = []") (simp_all add: p_def w_def)
    then have all: "stripes64 le64 (X @ Y) (init64 seed) = stripes64 le64 p w" by (simp add: app)
    obtain q u where qu: "stripes64 le64 p w = (q, u)" by (metis surj_pair)
    have lq: "length q < 32" using stripes64_rest [of le64 p w] by (simp add: qu)
    have m: "XXH_memcpy (mem64 st) (length r) (take n Y) = r @ take n Y" using memcpy_after [OF st(3), of "take n Y"] n st(4) by simp
    have s1: "stripe64 (\<lambda>p. XXH_readLE64 cpu p cpu) (r @ take n Y) v = stripe64 le64 (r @ take n Y) v"
      using n by (intro stripe64_cong) (simp_all add: XXH_readLE64_def read_le64)
    show ?thesis
    proof (cases "r = []")
      case True
      then have pw: "p = Y" "w = v" by (simp_all add: p_def w_def)
      show ?thesis using False True st tl qu lq memcpy_start [of q "mem64 st"] by (simp add: fed64_def update64_eq Let_def all pw)
    next
      case r: False
      then have pw: "p = drop n Y" "w = stripe64 le64 (r @ take n Y) v" by (simp_all add: p_def w_def)
      show ?thesis
        using False r st tl qu lq n memcpy_start [of q "r @ take n Y"]
        by (simp add: fed64_def update64_eq Let_def all pw n_def [symmetric] m s1)
    qed
  qed
qed

lemma fed64_fold: "fed64 seed X st \<Longrightarrow> fed64 seed (X @ concat ps) (fold (\<lambda>p st. XXH64_update cpu st p) ps st)"
proof (induction ps arbitrary: X st)
  case (Cons p ps)
  from Cons.IH [OF fed64_update [OF Cons.prems, of p cpu]] show ?case by simp
qed simp

lemma digest64:
  assumes "fed64 seed X st" "length X < 2 ^ 64"
  shows "XXH64_digest cpu st = XXH64 cpu' align_check addr X seed"
proof -
  obtain r v where rv: "stripes64 le64 X (init64 seed) = (r, v)" by (metis surj_pair)
  have st: "total_len st = of_nat (length X)" "vs_64 st = v" "memsize_64 st = length r" "take (length r) (mem64 st) = r"
    using assms(1) by (simp_all add: fed64_def rv)
  have a: "words64 (\<lambda>p. XXH_readLE64 cpu p cpu) = words64 le64" "half64 (\<lambda>p. XXH_readLE32 cpu p cpu) = half64 le32"
    unfolding XXH_readLE64_def XXH_readLE32_def by (intro ext words64_cong half64_cong read_le64 read_le32; assumption)+
  have "unat (of_nat (length X) :: u64) = length X" using assms(2) by (simp add: unat_of_nat)
  then have big: "(32 :: u64) \<le> of_nat (length X) \<longleftrightarrow> 32 \<le> length X" by (simp add: word_le_nat_alt)
  have "XXH64_digest cpu st = XXH64_digest_endian cpu st cpu" by (cases cpu) (simp_all add: XXH64_digest_def)
  also have "\<dots> = tail64 r ((if 32 \<le> length X then sum64 v else fst (snd (snd v)) + PRIME64_5) + of_nat (length X))"
    unfolding XXH64_digest_endian_def a st tail64_def big Let_def by (simp add: split_def)
  also have "\<dots> = xx64 X seed"
    using rv stripes64_short [of X le64 "init64 seed"] by (cases "32 \<le> length X") (auto simp: xx64_def init64_def)
  finally show ?thesis by (simp add: XXH64_xx64)
qed

lemma stream64:
  assumes "length (concat ps) < 2 ^ 64"
  shows "XXH64_digest cpu (fold (\<lambda>p st. XXH64_update cpu st p) ps (XXH64_reset seed)) = XXH64 cpu' align_check addr (concat ps) seed"
  using digest64 [OF fed64_fold [OF fed64_reset, of seed ps cpu]] assms by simp

section \<open>XXH32 in one pass\<close>

lemma stripe32_cong: "16 \<le> length p \<Longrightarrow> (\<And>q. 4 \<le> length q \<Longrightarrow> get q = le32 q) \<Longrightarrow> stripe32 get p v = stripe32 le32 p v"
  by (simp add: stripe32_def)

lemma stripes32_cong:
  assumes "\<And>q. 4 \<le> length q \<Longrightarrow> get q = le32 q"
  shows "stripes32 get p v = stripes32 le32 p v"
proof (induction "length p" arbitrary: p v rule: less_induct)
  case less
  show ?case
  proof (cases "16 \<le> length p")
    case True
    then show ?thesis using less.hyps [of "drop 16 p"] stripe32_cong [OF True assms] by (simp add: stripes32.simps [of _ p])
  qed (simp add: stripes32.simps)
qed

lemma words32_cong:
  assumes "\<And>q. 4 \<le> length q \<Longrightarrow> get q = le32 q"
  shows "words32 get p h = words32 le32 p h"
proof (induction "length p" arbitrary: p h rule: less_induct)
  case less
  show ?case
  proof (cases "4 \<le> length p")
    case True
    then show ?thesis using less.hyps [of "drop 4 p"] assms [OF True] by (simp add: words32.simps [of _ p] Let_def del: words32.simps)
  qed simp
qed

definition tail32 :: "u8 list \<Rightarrow> u32 \<Rightarrow> u32" where
  "tail32 p h32 = (case words32 le32 p h32 of (p, h32) \<Rightarrow> final32 (bytes32 p h32))"

definition xx32 :: "u8 list \<Rightarrow> u32 \<Rightarrow> u32" where
  "xx32 input seed =
    (let (p, h32) = (if length input \<ge> 16 then let (p, v) = stripes32 le32 input (init32 seed) in (p, sum32 v)
                     else (input, seed + PRIME32_5))
     in tail32 p (h32 + of_nat (length input)))"

lemma XXH32_endian_xx32: "XXH32_endian_align cpu input seed cpu align = xx32 input seed"
proof -
  have a: "stripes32 (\<lambda>p. XXH_readLE32_align cpu p cpu align) = stripes32 le32" "words32 (\<lambda>p. XXH_readLE32_align cpu p cpu align) = words32 le32"
    by (intro ext stripes32_cong words32_cong read_le32; assumption)+
  show ?thesis unfolding XXH32_endian_align_def xx32_def tail32_def a Let_def by (simp add: split_def)
qed

lemma XXH32_xx32: "XXH32 cpu align_check addr input seed = xx32 input seed"
  using XXH32_endian_xx32 [of cpu] by (cases cpu) (simp_all add: XXH32_def)

section \<open>Streaming XXH32\<close>

lemma stripe32_append: "16 \<le> length p \<Longrightarrow> stripe32 le32 (p @ q) v = stripe32 le32 p v"
  by (simp add: stripe32_def)

lemma stripes32_append:
  "stripes32 le32 (p @ q) v = (case stripes32 le32 p v of (r, w) \<Rightarrow> stripes32 le32 (r @ q) w)"
proof (induction "length p" arbitrary: p v rule: less_induct)
  case less
  show ?case
  proof (cases "16 \<le> length p")
    case True
    then show ?thesis using less.hyps [of "drop 16 p"] by (simp add: stripes32.simps [of _ "p @ q"] stripes32.simps [of _ p] stripe32_append)
  qed (simp add: stripes32.simps [of _ p])
qed

lemma stripes32_rest: "length (fst (stripes32 get p v)) < 16"
proof (induction "length p" arbitrary: p v rule: less_induct)
  case less
  then show ?case by (cases "16 \<le> length p") (simp_all add: stripes32.simps [of _ p])
qed

lemma stripes32_short: "length p < 16 \<Longrightarrow> stripes32 get p v = (p, v)"
  by (simp add: stripes32.simps)

lemma stripes32_first:
  assumes "length a = 16"
  shows "stripes32 le32 (a @ b) v = stripes32 le32 b (stripe32 le32 a v)"
  using assms by (simp add: stripes32.simps [of _ "a @ b"] stripe32_append)

text \<open>The state after the bytes \<open>X\<close>: the stripes are in the accumulators, the rest is in the buffer.\<close>

definition fed32 :: "u32 \<Rightarrow> u8 list \<Rightarrow> XXH32_state_t \<Rightarrow> bool" where
  "fed32 seed X st \<longleftrightarrow> total_len_32 st = of_nat (length X) \<and> (large_len st \<noteq> 0 \<longleftrightarrow> 16 \<le> length X) \<and> (case stripes32 le32 X (init32 seed) of (r, v) \<Rightarrow>
     vs_32 st = v \<and> memsize_32 st = length r \<and> take (length r) (mem32 st) = r \<and> length (mem32 st) = 16)"

lemma fed32_reset: "fed32 seed [] (XXH32_reset seed)"
  by (simp add: fed32_def XXH32_reset_def stripes32_short)

lemma update32_eq:
  "XXH32_update cpu st input =
    (let st = st\<lparr>total_len_32 := total_len_32 st + of_nat (length input),
       large_len := large_len st OR (of_bool (length input \<ge> 16) OR of_bool (total_len_32 st + of_nat (length input) \<ge> 16))\<rparr>
     in if memsize_32 st + length input < 16
        then st\<lparr>mem32 := XXH_memcpy (mem32 st) (memsize_32 st) input, memsize_32 := memsize_32 st + length input\<rparr>
        else let (p, st) =
                   (if memsize_32 st \<noteq> 0
                    then let n = 16 - memsize_32 st;
                             st = st\<lparr>mem32 := XXH_memcpy (mem32 st) (memsize_32 st) (take n input)\<rparr>;
                             st = st\<lparr>vs_32 := stripe32 (\<lambda>p. XXH_readLE32 cpu p cpu) (mem32 st) (vs_32 st)\<rparr>
                         in (drop n input, st\<lparr>memsize_32 := 0\<rparr>)
                    else (input, st));
                 (p, v) = stripes32 le32 p (vs_32 st);
                 st = st\<lparr>vs_32 := v\<rparr>
             in if p \<noteq> [] then st\<lparr>mem32 := XXH_memcpy (mem32 st) 0 p, memsize_32 := length p\<rparr> else st)"
proof -
  have "stripes32 (\<lambda>p. XXH_readLE32 cpu p cpu) = stripes32 le32" unfolding XXH_readLE32_def by (intro ext stripes32_cong read_le32)
  moreover have "XXH32_update cpu st input = XXH32_update_endian cpu st input cpu" by (cases cpu) (simp_all add: XXH32_update_def)
  ultimately show ?thesis by (simp add: XXH32_update_endian_def Let_def)
qed

text \<open>\<open>large_len\<close> is set from 16 bytes on, also after the 32-bit length has wrapped.\<close>

lemma large_len_update:
  assumes "large \<noteq> 0 \<longleftrightarrow> 16 \<le> length X"
  shows "(large :: u32) OR (of_bool (length Y \<ge> 16) OR of_bool (of_nat (length X) + of_nat (length Y) \<ge> (16 :: u32))) \<noteq> 0 \<longleftrightarrow> 16 \<le> length X + length Y"
proof (cases "16 \<le> length X \<or> 16 \<le> length Y")
  case True
  then show ?thesis using assms by (auto simp: or_eq_0_iff)
next
  case False
  then have "unat (of_nat (length X + length Y) :: u32) = length X + length Y" by (simp add: unat_of_nat del: of_nat_add)
  then have "of_nat (length X) + of_nat (length Y) \<ge> (16 :: u32) \<longleftrightarrow> 16 \<le> length X + length Y" by (simp add: word_le_nat_alt)
  then show ?thesis using False assms by simp
qed

lemma fed32_update:
  assumes "fed32 seed X st"
  shows "fed32 seed (X @ Y) (XXH32_update cpu st Y)"
proof -
  obtain r v where rv: "stripes32 le32 X (init32 seed) = (r, v)" by (metis surj_pair)
  have lr: "length r < 16" using stripes32_rest [of le32 X "init32 seed"] by (simp add: rv)
  have st: "vs_32 st = v" "memsize_32 st = length r" "take (length r) (mem32 st) = r" "length (mem32 st) = 16"
    using assms by (simp_all add: fed32_def rv)
  have app: "stripes32 le32 (X @ Y) (init32 seed) = stripes32 le32 (r @ Y) v" using stripes32_append [of X Y "init32 seed"] by (simp add: rv)
  have tl: "total_len_32 st + of_nat (length Y) = of_nat (length (X @ Y))"
    "large_len st OR (of_bool (length Y \<ge> 16) OR of_bool (total_len_32 st + of_nat (length Y) \<ge> 16)) \<noteq> 0 \<longleftrightarrow> 16 \<le> length (X @ Y)"
    using assms large_len_update [of "large_len st" X Y] by (simp_all add: fed32_def)
  show ?thesis
  proof (cases "length r + length Y < 16")
    case True
    then have "stripes32 le32 (X @ Y) (init32 seed) = (r @ Y, v)" by (simp add: app stripes32_short)
    then show ?thesis using True st tl memcpy_after [OF st(3), of Y] by (simp add: fed32_def update32_eq Let_def)
  next
    case False
    define n where "n = 16 - length r"
    define p where "p = (if r = [] then Y else drop n Y)"
    define w where "w = (if r = [] then v else stripe32 le32 (r @ take n Y) v)"
    have n: "length (r @ take n Y) = 16" using lr False by (simp add: n_def)
    have "stripes32 le32 (r @ Y) v = stripes32 le32 p w"
      using stripes32_first [OF n, of "drop n Y" v] by (cases "r = []") (simp_all add: p_def w_def)
    then have all: "stripes32 le32 (X @ Y) (init32 seed) = stripes32 le32 p w" by (simp add: app)
    obtain q u where qu: "stripes32 le32 p w = (q, u)" by (metis surj_pair)
    have lq: "length q < 16" using stripes32_rest [of le32 p w] by (simp add: qu)
    have m: "XXH_memcpy (mem32 st) (length r) (take n Y) = r @ take n Y" using memcpy_after [OF st(3), of "take n Y"] n st(4) by simp
    have s1: "stripe32 (\<lambda>p. XXH_readLE32 cpu p cpu) (r @ take n Y) v = stripe32 le32 (r @ take n Y) v"
      using n by (intro stripe32_cong) (simp_all add: XXH_readLE32_def read_le32)
    show ?thesis
    proof (cases "r = []")
      case True
      then have pw: "p = Y" "w = v" by (simp_all add: p_def w_def)
      show ?thesis using False True st tl qu lq memcpy_start [of q "mem32 st"] by (simp add: fed32_def update32_eq Let_def all pw)
    next
      case r: False
      then have pw: "p = drop n Y" "w = stripe32 le32 (r @ take n Y) v" by (simp_all add: p_def w_def)
      show ?thesis
        using False r st tl qu lq n memcpy_start [of q "r @ take n Y"]
        by (simp add: fed32_def update32_eq Let_def all pw n_def [symmetric] m s1)
    qed
  qed
qed

lemma fed32_fold: "fed32 seed X st \<Longrightarrow> fed32 seed (X @ concat ps) (fold (\<lambda>p st. XXH32_update cpu st p) ps st)"
proof (induction ps arbitrary: X st)
  case (Cons p ps)
  from Cons.IH [OF fed32_update [OF Cons.prems, of p cpu]] show ?case by simp
qed simp

lemma digest32:
  assumes "fed32 seed X st"
  shows "XXH32_digest cpu st = XXH32 cpu' align_check addr X seed"
proof -
  obtain r v where rv: "stripes32 le32 X (init32 seed) = (r, v)" by (metis surj_pair)
  have st: "total_len_32 st = of_nat (length X)" "large_len st \<noteq> 0 \<longleftrightarrow> 16 \<le> length X" "vs_32 st = v" "memsize_32 st = length r" "take (length r) (mem32 st) = r"
    using assms(1) by (simp_all add: fed32_def rv)
  have a: "words32 (\<lambda>p. XXH_readLE32 cpu p cpu) = words32 le32"
    unfolding XXH_readLE32_def by (intro ext words32_cong read_le32; assumption)
  have "XXH32_digest cpu st = XXH32_digest_endian cpu st cpu" by (cases cpu) (simp_all add: XXH32_digest_def)
  also have "\<dots> = tail32 r ((if 16 \<le> length X then sum32 v else fst (snd (snd v)) + PRIME32_5) + of_nat (length X))"
    unfolding XXH32_digest_endian_def a st tail32_def Let_def by (simp add: split_def)
  also have "\<dots> = xx32 X seed"
    using rv stripes32_short [of X le32 "init32 seed"] by (cases "16 \<le> length X") (auto simp: xx32_def init32_def)
  finally show ?thesis by (simp add: XXH32_xx32)
qed

lemma stream32:
  "XXH32_digest cpu (fold (\<lambda>p st. XXH32_update cpu st p) ps (XXH32_reset seed)) = XXH32 cpu' align_check addr (concat ps) seed"
  using digest32 [OF fed32_fold [OF fed32_reset, of seed ps cpu]] by simp

section \<open>The canonical form\<close>

lemma bytes_of_word_length [simp]: "length (bytes_of_word n w) = n"
  by (induction n arbitrary: w) simp_all

lemma word_of_bytes_of_word: "word_of_bytes (bytes_of_word n w) = take_bit (8 * n) (w :: 'a::len word)"
proof (induction n arbitrary: w)
  case (Suc n)
  show ?case
  proof (rule bit_word_eqI)
    fix i
    assume "i < LENGTH('a)"
    then show "bit (word_of_bytes (bytes_of_word (Suc n) w) :: 'a word) i \<longleftrightarrow> bit (take_bit (8 * Suc n) w) i"
      by (cases "i < 8") (auto simp: Suc bit_simps)
  qed
qed simp

lemma bytes_of_word_of_bytes: "8 * length bs \<le> LENGTH('a) \<Longrightarrow> bytes_of_word (length bs) (word_of_bytes bs :: 'a::len word) = bs"
proof (induction bs)
  case (Cons b bs)
  have "(ucast (ucast b OR push_bit 8 (word_of_bytes bs) :: 'a word) :: u8) = b"
    using Cons.prems by (intro bit_word_eqI) (auto simp: bit_simps)
  moreover have "drop_bit 8 (ucast b OR push_bit 8 (word_of_bytes bs) :: 'a word) = word_of_bytes bs"
    using Cons.prems by (intro bit_word_eqI) (auto simp: bit_simps word_of_bytes_bit dest: bit_imp_le_length)
  ultimately show ?case using Cons by simp
qed simp

lemma word_back: "word_of_bytes (bytes_of_word 4 h) = (h :: u32)" "word_of_bytes (bytes_of_word 8 g) = (g :: u64)"
  using take_bit_length_eq [of h] take_bit_length_eq [of g] by (simp_all add: word_of_bytes_of_word)

lemma swap_back:
  "XXH_swap32 (word_of_bytes (rev (bytes_of_word 4 h))) = h" "XXH_swap64 (word_of_bytes (rev (bytes_of_word 8 g))) = g"
  "XXH_swap32 h = word_of_bytes (rev (bytes_of_word 4 h))" "XXH_swap64 g = word_of_bytes (rev (bytes_of_word 8 g))"
  using swap_word(1) [of "bytes_of_word 4 h"] swap_word(2) [of "bytes_of_word 8 g"]
    swap_word(1) [of "rev (bytes_of_word 4 h)"] swap_word(2) [of "rev (bytes_of_word 8 g)"] by (simp_all add: word_back)

lemma bytes_of_swap: "bytes_of_word 4 (XXH_swap32 h) = rev (bytes_of_word 4 h)" "bytes_of_word 8 (XXH_swap64 g) = rev (bytes_of_word 8 g)"
  using bytes_of_word_of_bytes [of "rev (bytes_of_word 4 h)", where 'a = 32] bytes_of_word_of_bytes [of "rev (bytes_of_word 8 g)", where 'a = 64]
  by (simp_all add: swap_back(3,4))

lemma canonical_bytes:
  "XXH32_canonicalFromHash cpu h = rev (bytes_of_word 4 h)" "XXH64_canonicalFromHash cpu g = rev (bytes_of_word 8 g)"
  by (cases cpu; simp add: XXH32_canonicalFromHash_def XXH64_canonicalFromHash_def native_def bytes_of_swap)+

lemma read_canonical:
  "XXH32_hashFromCanonical cpu (rev (bytes_of_word 4 h)) = h" "XXH64_hashFromCanonical cpu (rev (bytes_of_word 8 g)) = g"
  by (cases cpu; simp add: XXH32_hashFromCanonical_def XXH_readBE32_def XXH_read32_def native_def word_back swap_back(1))
    (cases cpu; simp add: XXH64_hashFromCanonical_def XXH_readBE64_def XXH_read64_def native_def word_back swap_back(2))

end
