(* ===== verification/Lb_Lut.thy ===== *)
theory Lb_Lut
  imports Xx_Hash "HOL-Library.Monad_Syntax"
begin

text \<open>
  \<open>apps/cuckoo-lb/generate_lut.h\<close>: the lookup table of the load balancer. Every backend has a sequence of slots, an arithmetic
  progression modulo the size of the table; in turn each backend takes the first slot of its sequence that is still
  empty, and gives up for this round after a thousand slots.
\<close>

section \<open>The code\<close>

text \<open>
  \<open>snprintf(name, 64, "%s_%d", pfx, i)\<close> into an array of 64 bytes that was not initialised: the bytes behind the string are those
  of \<open>junk\<close>, and they are hashed too.
\<close>

fun dec_digits :: "nat \<Rightarrow> u8 list" where
  "dec_digits n = (if n < 10 then [of_nat (48 + n)] else dec_digits (n div 10) @ [of_nat (48 + n mod 10)])"

declare dec_digits.simps [simp del]

definition lut_name :: "u8 list \<Rightarrow> u8 list \<Rightarrow> nat \<Rightarrow> u8 list" where
  "lut_name junk pfx i = (let str = take 63 (pfx @ [95] @ dec_digits i) in str @ [0] @ drop (length str + 1) junk)"

definition compute_offset_and_skip :: "u8 list \<Rightarrow> u64 \<Rightarrow> u64 \<times> u64" where
  "compute_offset_and_skip name lut_len =
    (let h0 = XXH64 XXH_littleEndian False 0 name 0; h1 = XXH64 XXH_littleEndian False 0 name 1;
         offset = h1 mod lut_len; skip = h0 mod (lut_len - 1) + 1
     in (offset, skip))"

definition perm :: "u64 \<Rightarrow> u64 \<Rightarrow> u64 \<Rightarrow> u64 \<Rightarrow> u64" where
  "perm offset skip lut_len j = (offset + skip * j) mod lut_len"

definition lut_empty :: u64 where "lut_empty = 0x8000"
definition BREAK_COUNTER :: nat where "BREAK_COUNTER = 1000"

text \<open>The inner loop: \<open>next[i]\<close>, \<open>c\<close> and \<open>counter\<close> afterwards.\<close>

function probe :: "u64 list \<Rightarrow> u64 \<times> u64 \<Rightarrow> u64 \<Rightarrow> u64 \<Rightarrow> u64 \<Rightarrow> nat \<Rightarrow> u64 \<times> u64 \<times> nat" where
  "probe lut os lut_len nxt c counter =
    (if lut ! unat c \<noteq> lut_empty
     then let nxt = nxt + 1; c = perm (fst os) (snd os) lut_len nxt; counter = counter + 1
          in if counter > BREAK_COUNTER then (nxt, c, counter) else probe lut os lut_len nxt c counter
     else (nxt, c, counter))"
  by pat_completeness auto
termination
  by (relation "measure (\<lambda>(lut, os, lut_len, nxt, c, counter). Suc BREAK_COUNTER - counter)") auto

declare probe.simps [simp del]

record lut_state =
  lut :: "u64 list"
  lut_next :: "u64 list"
  lut_n :: u64

text \<open>The body of the loop over the backends; the flag says whether the loop is left. \<open>None\<close>: \<open>abort\<close>.\<close>

definition place :: "(u64 \<times> u64) list \<Rightarrow> u64 \<Rightarrow> nat \<Rightarrow> lut_state \<Rightarrow> (bool \<times> lut_state) option" where
  "place os lut_len i st =
    (let nxt = lut_next st ! i; c = perm (fst (os ! i)) (snd (os ! i)) lut_len nxt;
         (nxt, c, counter) = probe (lut st) (os ! i) lut_len nxt c 0;
         st = st\<lparr>lut_next := (lut_next st)[i := nxt]\<rparr>
     in if counter \<ge> BREAK_COUNTER then Some (False, st)
        else if c \<ge> lut_len then None
        else let st = st\<lparr>lut := (lut st)[unat c := of_nat i]\<rparr>;
                 st = st\<lparr>lut_next := (lut_next st)[i := nxt + 1], lut_n := lut_n st + 1\<rparr>
             in Some (lut_n st \<ge> lut_len, st))"

fun lut_round :: "(u64 \<times> u64) list \<Rightarrow> u64 \<Rightarrow> nat list \<Rightarrow> lut_state \<Rightarrow> lut_state option" where
  "lut_round os lut_len [] st = Some st"
| "lut_round os lut_len (i # is) st =
    do { (stop, st) \<leftarrow> place os lut_len i st; if stop then Some st else lut_round os lut_len is st }"

partial_function (option) lut_fill :: "(u64 \<times> u64) list \<Rightarrow> u64 \<Rightarrow> lut_state \<Rightarrow> lut_state option" where
  "lut_fill os lut_len st =
    (if lut_n st < lut_len then do { st \<leftarrow> lut_round os lut_len [0..<length os] st; lut_fill os lut_len st } else Some st)"

text \<open>
  \<open>generate_lut\<close>; \<open>None\<close>: it does not return, because the loop does not end, or because a table of fewer than two slots
  makes \<open>compute_offset_and_skip\<close> divide by zero.
\<close>

definition generate_lut :: "(nat \<Rightarrow> u8 list) \<Rightarrow> u8 list \<Rightarrow> nat \<Rightarrow> u64 \<Rightarrow> u64 list option" where
  "generate_lut junk pfx lbs lut_len =
    (let lut0 = replicate (unat lut_len) lut_empty;
         os = map (\<lambda>i. compute_offset_and_skip (lut_name (junk i) pfx i) lut_len) [0..<lbs]
     in if 0 < lbs \<and> lut_len < 2 then None
        else map_option lut (lut_fill os lut_len \<lparr>lut = lut0, lut_next = replicate lbs 0, lut_n = 0\<rparr>))"

section \<open>The sequence of a backend\<close>

text \<open>
  The size of the table is a power of two here (2048 in \<open>main.cc\<close>), so that the sequence of a backend does not notice when
  the arithmetic wraps round.
\<close>

definition slot_seq :: "u64 \<times> u64 \<Rightarrow> u64 \<Rightarrow> u64 \<Rightarrow> nat" where
  "slot_seq os lut_len j = unat (perm (fst os) (snd os) lut_len j)"

lemma seq_less: "0 < lut_len \<Longrightarrow> slot_seq os lut_len j < unat lut_len"
  by (simp add: slot_seq_def perm_def unat_mod word_less_nat_alt)

text \<open>What the inner loop finds: it steps over \<open>d\<close> occupied slots.\<close>

lemma probe_spec:
  assumes "counter \<le> BREAK_COUNTER" "c = perm (fst os) (snd os) lut_len nxt"
  shows "\<exists>d. probe tab os lut_len nxt c counter = (nxt + of_nat d, perm (fst os) (snd os) lut_len (nxt + of_nat d), counter + d) \<and>
    counter + d \<le> Suc BREAK_COUNTER \<and> (\<forall>e<d. tab ! slot_seq os lut_len (nxt + of_nat e) \<noteq> lut_empty) \<and>
    (counter + d \<le> BREAK_COUNTER \<longrightarrow> tab ! slot_seq os lut_len (nxt + of_nat d) = lut_empty)"
  using assms
proof (induction "Suc BREAK_COUNTER - counter" arbitrary: nxt c counter)
  case (Suc k)
  show ?case
  proof (cases "tab ! unat c = lut_empty")
    case True
    then show ?thesis using Suc.prems by (intro exI [of _ 0]) (simp add: probe.simps slot_seq_def)
  next
    case False
    show ?thesis
    proof (cases "counter = BREAK_COUNTER")
      case True
      then show ?thesis using False Suc.prems by (intro exI [of _ 1]) (simp add: probe.simps [of _ _ _ nxt] slot_seq_def Let_def)
    next
      case lt: False
      then have c: "counter + 1 \<le> BREAK_COUNTER" using Suc.prems(1) by simp
      have k: "k = Suc BREAK_COUNTER - (counter + 1)" using Suc.hyps(2) by simp
      obtain d where d: "probe tab os lut_len (nxt + 1) (perm (fst os) (snd os) lut_len (nxt + 1)) (counter + 1) =
          (nxt + 1 + of_nat d, perm (fst os) (snd os) lut_len (nxt + 1 + of_nat d), counter + 1 + d)"
        "counter + 1 + d \<le> Suc BREAK_COUNTER" "\<forall>e<d. tab ! slot_seq os lut_len (nxt + 1 + of_nat e) \<noteq> lut_empty"
        "counter + 1 + d \<le> BREAK_COUNTER \<longrightarrow> tab ! slot_seq os lut_len (nxt + 1 + of_nat d) = lut_empty"
        using Suc.hyps(1) [OF k c refl] by blast
      have "probe tab os lut_len nxt c counter = probe tab os lut_len (nxt + 1) (perm (fst os) (snd os) lut_len (nxt + 1)) (counter + 1)"
        using False c by (simp add: probe.simps [of _ _ _ nxt] Let_def)
      moreover have "\<forall>e<Suc d. tab ! slot_seq os lut_len (nxt + of_nat e) \<noteq> lut_empty"
        using d(3) False Suc.prems(2) by (auto simp: less_Suc_eq_0_disj slot_seq_def add.assoc)
      moreover have "nxt + of_nat (Suc d) = nxt + 1 + of_nat d" by (simp add: add.assoc)
      ultimately show ?thesis using d by (intro exI [of _ "Suc d"]) (simp add: add.assoc)
    qed
  qed
qed simp

section \<open>The invariant\<close>

definition free_slots :: "lut_state \<Rightarrow> nat set" where
  "free_slots st = {c. c < length (lut st) \<and> lut st ! c = lut_empty}"

text \<open>A slot is empty or names a backend whose sequence reaches it; \<open>n\<close> counts the slots that are not empty.\<close>

definition lut_ok :: "(u64 \<times> u64) list \<Rightarrow> u64 \<Rightarrow> lut_state \<Rightarrow> bool" where
  "lut_ok os lut_len st \<longleftrightarrow> length (lut st) = unat lut_len \<and> length (lut_next st) = length os \<and>
     unat (lut_n st) + card (free_slots st) = unat lut_len \<and>
     (\<forall>c<unat lut_len. lut st ! c = lut_empty \<or> (\<exists>i<length os. lut st ! c = of_nat i \<and> (\<exists>j. slot_seq (os ! i) lut_len j = c)))"

lemma finite_free [simp]: "finite (free_slots st)"
  by (simp add: free_slots_def)

lemma free_slots_next [simp]: "free_slots (st\<lparr>lut_next := ns\<rparr>) = free_slots st"
  by (simp add: free_slots_def)

lemma free_left:
  assumes "lut_ok os lut_len st"
  shows "lut_n st < lut_len \<longleftrightarrow> free_slots st \<noteq> {}"
proof -
  have "unat (lut_n st) + card (free_slots st) = unat lut_len" using assms by (simp add: lut_ok_def)
  then have "lut_n st < lut_len \<longleftrightarrow> card (free_slots st) \<noteq> 0" unfolding word_less_nat_alt by linarith
  then show ?thesis by (simp only: card_0_eq [OF finite_free])
qed

lemma lut_ok_next: "lut_ok os lut_len st \<Longrightarrow> lut_ok os lut_len (st\<lparr>lut_next := (lut_next st)[i := x]\<rparr>)"
  by (simp add: lut_ok_def)

lemma lut_ok_place:
  assumes ok: "lut_ok os lut_len st" and i: "i < length os" "length os \<le> 0x8000" and c: "c \<in> free_slots st" "slot_seq (os ! i) lut_len j = c"
  shows "lut_ok os lut_len (st\<lparr>lut := (lut st)[c := of_nat i], lut_n := lut_n st + 1\<rparr>)" "unat (lut_n st + 1) = unat (lut_n st) + 1"
proof -
  let ?st = "st\<lparr>lut := (lut st)[c := of_nat i], lut_n := lut_n st + 1\<rparr>"
  have len: "length (lut st) = unat lut_len" "unat (lut_n st) + card (free_slots st) = unat lut_len" using ok by (simp_all add: lut_ok_def)
  have cl: "c < length (lut st)" using c(1) by (simp add: free_slots_def)
  have "unat (of_nat i :: u64) = i" using i by (simp add: unat_of_nat)
  moreover have "unat lut_empty = 0x8000" by (simp add: lut_empty_def)
  ultimately have ne: "of_nat i \<noteq> lut_empty" using i by auto
  have fr: "free_slots ?st = free_slots st - {c}"
  proof (rule set_eqI)
    fix x
    show "x \<in> free_slots ?st \<longleftrightarrow> x \<in> free_slots st - {c}" by (cases "x = c") (use ne cl in \<open>simp_all add: free_slots_def\<close>)
  qed
  have card: "card (free_slots st) = Suc (card (free_slots ?st))" using card.remove [OF finite_free c(1)] fr by simp
  then have "unat (lut_n st) < unat lut_len" using len(2) by simp
  then have "unat (lut_n st) + 1 < 2 ^ 64" using unsigned_less [of lut_len, where 'a = nat] by simp
  then show n: "unat (lut_n st + 1) = unat (lut_n st) + 1" by (simp add: unat_plus_if')
  have "lut ?st ! x = lut_empty \<or> (\<exists>i<length os. lut ?st ! x = of_nat i \<and> (\<exists>j. slot_seq (os ! i) lut_len j = x))" if "x < unat lut_len" for x
  proof (cases "x = c")
    case True
    then show ?thesis using i c cl by auto
  next
    case False
    then show ?thesis using ok that by (simp add: lut_ok_def)
  qed
  then show "lut_ok os lut_len ?st" using ok n card len by (simp add: lut_ok_def)
qed

text \<open>What one backend does in a round: it takes a slot, or it steps over a thousand occupied slots or more.\<close>

definition steps_over :: "(u64 \<times> u64) list \<Rightarrow> u64 \<Rightarrow> lut_state \<Rightarrow> nat \<Rightarrow> nat \<Rightarrow> bool" where
  "steps_over os lut_len st i d \<longleftrightarrow> 0 < d \<and> (\<forall>e<d. lut st ! slot_seq (os ! i) lut_len (lut_next st ! i + of_nat e) \<noteq> lut_empty)"

lemma place_spec:
  assumes ok: "lut_ok os lut_len st" and i: "i < length os" "length os \<le> 0x8000" and n: "lut_n st < lut_len"
  shows "(\<exists>d. place os lut_len i st = Some (False, st\<lparr>lut_next := (lut_next st)[i := lut_next st ! i + of_nat d]\<rparr>) \<and> steps_over os lut_len st i d) \<or>
    (\<exists>st'. place os lut_len i st = Some (lut_n st' \<ge> lut_len, st') \<and> lut_ok os lut_len st' \<and> unat (lut_n st') = unat (lut_n st) + 1)"
proof -
  let ?nx = "lut_next st ! i"
  obtain d where d: "probe (lut st) (os ! i) lut_len ?nx (perm (fst (os ! i)) (snd (os ! i)) lut_len ?nx) 0 =
      (?nx + of_nat d, perm (fst (os ! i)) (snd (os ! i)) lut_len (?nx + of_nat d), d)"
    "\<forall>e<d. lut st ! slot_seq (os ! i) lut_len (?nx + of_nat e) \<noteq> lut_empty"
    "d \<le> BREAK_COUNTER \<longrightarrow> lut st ! slot_seq (os ! i) lut_len (?nx + of_nat d) = lut_empty"
    using probe_spec [of 0 _ "os ! i" lut_len ?nx "lut st"] by auto
  show ?thesis
  proof (cases "d \<ge> BREAK_COUNTER")
    case True
    then have "0 < d" by (simp add: BREAK_COUNTER_def)
    then show ?thesis using True d by (intro disjI1 exI [of _ d]) (simp add: place_def Let_def steps_over_def)
  next
    case False
    let ?c = "perm (fst (os ! i)) (snd (os ! i)) lut_len (?nx + of_nat d)"
    have l: "0 < lut_len" using n word_gt_0_no less_le_trans by (metis not_less_iff_gr_or_eq word_coorder.extremum_strict word_neq_0_conv)
    have sc: "unat ?c = slot_seq (os ! i) lut_len (?nx + of_nat d)" by (simp add: slot_seq_def)
    have cl: "unat ?c < unat lut_len" unfolding sc by (rule seq_less [OF l])
    have fr: "unat ?c \<in> free_slots st" using d(3) False cl ok by (simp add: free_slots_def lut_ok_def sc)
    define st1 where "st1 = st\<lparr>lut_next := (lut_next st)[i := ?nx + of_nat d + 1]\<rparr>"
    have ok1: "lut_ok os lut_len st1" "unat ?c \<in> free_slots st1" using lut_ok_next [OF ok] fr by (simp_all add: st1_def free_slots_def)
    note pl = lut_ok_place [OF ok1(1) i ok1(2), of "?nx + of_nat d"]
    have "place os lut_len i st = (let st' = st1\<lparr>lut := (lut st1)[unat ?c := of_nat i], lut_n := lut_n st1 + 1\<rparr> in Some (lut_n st' \<ge> lut_len, st'))"
      using False cl by (simp add: place_def Let_def d(1) st1_def word_le_nat_alt)
    then show ?thesis using pl sc by (intro disjI2) (auto simp: st1_def Let_def)
  qed
qed

section \<open>Rounds\<close>

text \<open>
  A round fills a slot, or leaves the table as it was while each of its backends steps over occupied slots.
\<close>

definition waits :: "(u64 \<times> u64) list \<Rightarrow> u64 \<Rightarrow> nat list \<Rightarrow> lut_state \<Rightarrow> lut_state \<Rightarrow> bool" where
  "waits os lut_len is st st' \<longleftrightarrow> lut st' = lut st \<and> lut_n st' = lut_n st \<and>
     (\<forall>i<length os. i \<notin> set is \<longrightarrow> lut_next st' ! i = lut_next st ! i) \<and>
     (\<forall>i\<in>set is. \<exists>d. lut_next st' ! i = lut_next st ! i + of_nat d \<and> steps_over os lut_len st i d)"

lemma round_spec:
  assumes "length os \<le> 0x8000"
  shows "lut_ok os lut_len st \<Longrightarrow> lut_n st < lut_len \<Longrightarrow> set is \<subseteq> {..<length os} \<Longrightarrow> distinct is \<Longrightarrow>
    \<exists>st'. lut_round os lut_len is st = Some st' \<and> lut_ok os lut_len st' \<and> (lut_n st < lut_n st' \<or> waits os lut_len is st st')"
proof (induction "is" arbitrary: st)
  case Nil
  then show ?case by (simp add: waits_def)
next
  case (Cons i "is")
  have i: "i < length os" "i \<notin> set is" "set is \<subseteq> {..<length os}" "distinct is" using Cons.prems by auto
  have len: "length (lut_next st) = length os" using Cons.prems(1) by (simp add: lut_ok_def)
  from place_spec [OF Cons.prems(1) i(1) assms Cons.prems(2)] show ?case
  proof (elim disjE exE conjE)
    fix st1
    assume p: "place os lut_len i st = Some (lut_n st1 \<ge> lut_len, st1)" "lut_ok os lut_len st1" "unat (lut_n st1) = unat (lut_n st) + 1"
    have up: "lut_n st < lut_n st1" using p(3) by (simp add: word_less_nat_alt)
    show ?thesis
    proof (cases "lut_n st1 \<ge> lut_len")
      case True
      then show ?thesis using p up by simp
    next
      case False
      then obtain st2 where s2: "lut_round os lut_len is st1 = Some st2" "lut_ok os lut_len st2" "lut_n st1 < lut_n st2 \<or> waits os lut_len is st1 st2"
        using Cons.IH [OF p(2) _ i(3,4)] by (auto simp: not_le)
      have "lut_n st < lut_n st2" using up s2(3) by (auto simp: waits_def)
      then show ?thesis using p False s2 by simp
    qed
  next
    fix d
    let ?st = "st\<lparr>lut_next := (lut_next st)[i := lut_next st ! i + of_nat d]\<rparr>"
    assume p: "place os lut_len i st = Some (False, ?st)" "steps_over os lut_len st i d"
    obtain st2 where s2: "lut_round os lut_len is ?st = Some st2" "lut_ok os lut_len st2" "lut_n ?st < lut_n st2 \<or> waits os lut_len is ?st st2"
      using Cons.IH [OF lut_ok_next [OF Cons.prems(1)] _ i(3,4)] Cons.prems(2) by auto
    have "waits os lut_len (i # is) st st2" if w: "waits os lut_len is ?st st2"
    proof -
      have "lut_next st2 ! i = lut_next st ! i + of_nat d" using w i(1,2) len by (simp add: waits_def)
      moreover have "\<exists>d. lut_next st2 ! k = lut_next st ! k + of_nat d \<and> steps_over os lut_len st k d" if k: "k \<in> set is" for k
      proof -
        have "k \<noteq> i" using k i(2) by auto
        then have "lut_next ?st ! k = lut_next st ! k" by simp
        moreover obtain d' where "lut_next st2 ! k = lut_next ?st ! k + of_nat d'" "steps_over os lut_len ?st k d'"
          using w k unfolding waits_def by blast
        ultimately show ?thesis by (intro exI [of _ d']) (simp add: steps_over_def)
      qed
      ultimately show ?thesis using w p(2) by (auto simp: waits_def)
    qed
    then show ?thesis using p(1) s2 by auto
  qed
qed

lemma round_all:
  assumes "length os \<le> 0x8000" "lut_ok os lut_len st" "lut_n st < lut_len"
  shows "\<exists>st'. lut_round os lut_len [0..<length os] st = Some st' \<and> lut_ok os lut_len st' \<and>
    (lut_n st < lut_n st' \<or> waits os lut_len [0..<length os] st st')"
  using round_spec [OF assms, of "[0..<length os]"] by (simp add: lessThan_atLeast0)

section \<open>The table is filled exactly when every slot is in some sequence\<close>

definition lut_covered :: "(u64 \<times> u64) list \<Rightarrow> u64 \<Rightarrow> bool" where
  "lut_covered os lut_len \<longleftrightarrow> (\<forall>c<unat lut_len. \<exists>i<length os. \<exists>j. slot_seq (os ! i) lut_len j = c)"

lemma fill_partial:
  assumes "length os \<le> 0x8000" "lut_fill os lut_len st = Some st'" "lut_ok os lut_len st"
  shows "lut_ok os lut_len st' \<and> free_slots st' = {}"
proof -
  have "lut_ok os lut_len st \<longrightarrow> lut_ok os lut_len st' \<and> \<not> lut_n st' < lut_len"
    if "length os \<le> 0x8000" "lut_fill os lut_len st = Some st'" for os lut_len st st'
  proof -
    have "length os \<le> 0x8000 \<longrightarrow> lut_ok os lut_len st \<longrightarrow> lut_ok os lut_len st' \<and> \<not> lut_n st' < lut_len"
    proof (rule lut_fill.raw_induct [where P = "\<lambda>os l st st'. length os \<le> 0x8000 \<longrightarrow> lut_ok os l st \<longrightarrow> lut_ok os l st' \<and> \<not> lut_n st' < l", OF _ that(2)], goal_cases)
      case (1 f os l st st')
      show ?case
      proof (cases "lut_n st < l")
        case True
        then obtain st1 where s1: "lut_round os l [0..<length os] st = Some st1" "f os l st1 = Some st'"
          using "1"(2) by (auto simp: Option.bind_eq_Some_conv)
        then show ?thesis using "1"(1) [OF s1(2)] round_all [of os l st] True by auto
      next
        case False
        then show ?thesis using "1"(2) by simp
      qed
    qed
    then show ?thesis using that(1) by blast
  qed
  then have ok: "lut_ok os lut_len st'" "\<not> lut_n st' < lut_len" using assms by blast+
  then show ?thesis using free_left [OF ok(1)] by blast
qed

lemma fill_total:
  assumes os: "length os \<le> 0x8000" and cov: "lut_covered os lut_len"
  shows "lut_ok os lut_len st \<Longrightarrow> \<exists>st'. lut_fill os lut_len st = Some st'"
proof (induction "unat lut_len - unat (lut_n st)" arbitrary: st rule: less_induct)
  case less
  have more: "\<exists>st'. lut_fill os lut_len t = Some st'" if "lut_ok os lut_len t" "lut_n st < lut_n t" "lut_n st < lut_len" for t
  proof -
    have "unat lut_len - unat (lut_n t) < unat lut_len - unat (lut_n st)" using that(2,3) by (simp add: word_less_nat_alt)
    then show ?thesis using less.hyps that(1) by blast
  qed
  have reach: "\<exists>st'. lut_fill os lut_len t = Some st'"
    if "lut_ok os lut_len t" "lut_n t = lut_n st" "lut_n st < lut_len" "k < length os" "lut t ! slot_seq (os ! k) lut_len (lut_next t ! k + of_nat d) = lut_empty" for t d k
    using that
  proof (induction d arbitrary: t rule: less_induct)
    case (less d t)
    have n: "lut_n t < lut_len" using less.prems(2,3) by simp
    obtain t' where t': "lut_round os lut_len [0..<length os] t = Some t'" "lut_ok os lut_len t'"
      "lut_n t < lut_n t' \<or> waits os lut_len [0..<length os] t t'" using round_all [OF os less.prems(1) n] by blast
    have go: "lut_fill os lut_len t = lut_fill os lut_len t'" using n t'(1) by (subst lut_fill.simps) simp
    from t'(3) show ?case
    proof
      assume "lut_n t < lut_n t'"
      then show ?thesis using more [OF t'(2)] less.prems(2,3) go by simp
    next
      assume w: "waits os lut_len [0..<length os] t t'"
      have k: "k \<in> set [0..<length os]" using less.prems(4) by simp
      from w obtain e where e: "lut_next t' ! k = lut_next t ! k + of_nat e" "steps_over os lut_len t k e"
        using k unfolding waits_def by blast
      have le: "e \<le> d" "0 < e" using e(2) less.prems(5) by (auto simp: steps_over_def not_less [symmetric])
      then have nx: "lut_next t' ! k + of_nat (d - e) = lut_next t ! k + of_nat d" using e(1) by (simp add: of_nat_diff)
      have same: "lut t' = lut t" "lut_n t' = lut_n st" using w less.prems(2) by (simp_all add: waits_def)
      have "lut t' ! slot_seq (os ! k) lut_len (lut_next t' ! k + of_nat (d - e)) = lut_empty" unfolding nx same by (rule less.prems(5))
      moreover have "d - e < d" using le by simp
      ultimately show ?thesis using less.IH [OF _ t'(2) same(2) less.prems(3,4)] go by simp
    qed
  qed
  show ?case
  proof (cases "lut_n st < lut_len")
    case True
    then obtain c where c: "c < unat lut_len" "lut st ! c = lut_empty"
      using less.prems free_left [OF less.prems] by (auto simp: free_slots_def lut_ok_def)
    then obtain k j where k: "k < length os" "slot_seq (os ! k) lut_len j = c" using cov by (auto simp: lut_covered_def)
    have "lut_next st ! k + of_nat (unat (j - lut_next st ! k)) = j" by simp
    then show ?thesis using reach [OF less.prems refl True k(1), of "unat (j - lut_next st ! k)"] k(2) c(2) by simp
  next
    case False
    then show ?thesis by (subst lut_fill.simps) simp
  qed
qed

lemma start_ok: "lut_ok os lut_len \<lparr>lut = replicate (unat lut_len) lut_empty, lut_next = replicate (length os) 0, lut_n = 0\<rparr>"
proof -
  have "free_slots \<lparr>lut = replicate (unat lut_len) lut_empty, lut_next = replicate (length os) 0, lut_n = 0\<rparr> = {..<unat lut_len}"
    by (auto simp: free_slots_def)
  then show ?thesis by (simp add: lut_ok_def)
qed

definition offsets :: "(nat \<Rightarrow> u8 list) \<Rightarrow> u8 list \<Rightarrow> nat \<Rightarrow> u64 \<Rightarrow> (u64 \<times> u64) list" where
  "offsets junk pfx lbs lut_len = map (\<lambda>i. compute_offset_and_skip (lut_name (junk i) pfx i) lut_len) [0..<lbs]"

lemma generate_lut_fill:
  "2 \<le> lut_len \<Longrightarrow> generate_lut junk pfx lbs lut_len = map_option lut (lut_fill (offsets junk pfx lbs lut_len) lut_len
     \<lparr>lut = replicate (unat lut_len) lut_empty, lut_next = replicate lbs 0, lut_n = 0\<rparr>)"
  by (simp add: generate_lut_def offsets_def not_less [symmetric])

lemma generate_lut_iff:
  assumes "lbs \<le> 0x8000" "2 \<le> lut_len"
  shows "(\<exists>t. generate_lut junk pfx lbs lut_len = Some t) \<longleftrightarrow> lut_covered (offsets junk pfx lbs lut_len) lut_len"
    "generate_lut junk pfx lbs lut_len = Some t \<Longrightarrow> length t = unat lut_len \<and>
      (\<forall>c<unat lut_len. \<exists>i<lbs. t ! c = of_nat i \<and> (\<exists>j. slot_seq (offsets junk pfx lbs lut_len ! i) lut_len j = c))"
proof -
  let ?os = "offsets junk pfx lbs lut_len" and ?st = "\<lparr>lut = replicate (unat lut_len) lut_empty, lut_next = replicate lbs 0, lut_n = 0\<rparr>"
  have len: "length ?os = lbs" by (simp add: offsets_def)
  have ok: "lut_ok ?os lut_len ?st" using start_ok [of ?os lut_len] by (simp add: len)
  have res: "length t = unat lut_len \<and> (\<forall>c<unat lut_len. \<exists>i<lbs. t ! c = of_nat i \<and> (\<exists>j. slot_seq (?os ! i) lut_len j = c))"
    if t: "generate_lut junk pfx lbs lut_len = Some t" for t
  proof -
    obtain st' where st': "lut_fill ?os lut_len ?st = Some st'" "t = lut st'" using t assms(2) by (auto simp: generate_lut_fill)
    then have f: "lut_ok ?os lut_len st'" "free_slots st' = {}" using fill_partial [OF _ st'(1) ok] assms(1) len by simp_all
    then show ?thesis using st'(2) len by (auto simp: lut_ok_def free_slots_def)
  qed
  then show "generate_lut junk pfx lbs lut_len = Some t \<Longrightarrow> length t = unat lut_len \<and>
      (\<forall>c<unat lut_len. \<exists>i<lbs. t ! c = of_nat i \<and> (\<exists>j. slot_seq (?os ! i) lut_len j = c))" by blast
  show "(\<exists>t. generate_lut junk pfx lbs lut_len = Some t) \<longleftrightarrow> lut_covered ?os lut_len"
  proof
    assume "\<exists>t. generate_lut junk pfx lbs lut_len = Some t"
    then show "lut_covered ?os lut_len" using res len unfolding lut_covered_def by metis
  next
    assume "lut_covered ?os lut_len"
    then obtain st' where "lut_fill ?os lut_len ?st = Some st'" using fill_total [OF _ _ ok] assms(1) len by auto
    then show "\<exists>t. generate_lut junk pfx lbs lut_len = Some t" using assms(2) by (simp add: generate_lut_fill)
  qed
qed

section \<open>Tables of a power of two\<close>

text \<open>An odd number has an inverse, so an odd skip reaches every slot; even numbers stay even.\<close>

lemma odd_word: "odd (uint w) \<longleftrightarrow> odd (w :: u64)" "odd (unat w) \<longleftrightarrow> odd w"
  unfolding bit_0 [symmetric] by (simp_all only: bit_unsigned_iff) simp_all

lemma odd_inverse:
  assumes "odd (k :: u64)"
  shows "\<exists>u. k * u = 1"
proof -
  have "odd (uint k)" using assms odd_word(1) [of k] by blast
  then have "coprime (uint k) (2 ^ 64)" unfolding coprime_power_right_iff by simp
  then obtain u v where "u * uint k + v * 2 ^ 64 = 1" using bezout_int [of "uint k" "2 ^ 64"] by auto
  then have "(of_int (u * uint k + v * 2 ^ 64) :: u64) = 1" by simp
  moreover have "(0x10000000000000000 :: u64) = 0" by simp
  ultimately have "of_int u * k = 1" by (simp del: word_eq_numeral_iff_iszero)
  then show ?thesis by (metis mult.commute)
qed

lemma seq_take_bit: "unat lut_len = 2 ^ m \<Longrightarrow> slot_seq (off, skip) lut_len j = take_bit m (unat (off + skip * j))"
  by (simp add: slot_seq_def perm_def unat_mod take_bit_eq_mod)

lemma odd_skip_covers:
  assumes len: "unat lut_len = 2 ^ m" and "odd skip" "c < unat lut_len"
  shows "\<exists>j. slot_seq (off, skip) lut_len j = c"
proof -
  obtain u where u: "skip * u = 1" using odd_inverse [OF assms(2)] by blast
  have "off + skip * (u * (of_nat c - off)) = of_nat c" by (simp add: mult.assoc [symmetric] u)
  moreover have "unat (of_nat c :: u64) = c" using assms(3) unsigned_less [of lut_len, where 'a = nat] by (simp add: unat_of_nat)
  ultimately have "slot_seq (off, skip) lut_len (u * (of_nat c - off)) = c"
    using assms(3) unfolding seq_take_bit [OF len] len by (simp add: take_bit_nat_eq_self)
  then show ?thesis ..
qed

lemma even_skip_misses:
  assumes len: "unat lut_len = 2 ^ m" "0 < m" and "even off" "even skip"
  shows "even (slot_seq (off, skip) lut_len j)"
proof -
  have "even (off + skip * j)" using assms(3,4) by simp
  then have "even (unat (off + skip * j))" using odd_word(2) by blast
  then show ?thesis unfolding seq_take_bit [OF len(1)] using len(2) by (simp add: even_take_bit_eq)
qed

text \<open>A table whose size is a power of two has two slots at least.\<close>

lemma two_slots:
  assumes "unat (lut_len :: u64) = 2 ^ m" "0 < m"
  shows "2 \<le> lut_len"
proof -
  have "(2 :: nat) ^ 1 \<le> 2 ^ m" using assms(2) by (intro power_increasing) simp_all
  then show ?thesis using assms(1) by (simp add: word_le_nat_alt)
qed

lemma generate_lut_odd:
  assumes "lbs \<le> 0x8000" "unat lut_len = 2 ^ m" "0 < m" "i < lbs" "odd (snd (offsets junk pfx lbs lut_len ! i))"
  shows "\<exists>t. generate_lut junk pfx lbs lut_len = Some t \<and> length t = unat lut_len \<and> (\<forall>c<unat lut_len. \<exists>i<lbs. t ! c = of_nat i)"
proof -
  let ?os = "offsets junk pfx lbs lut_len"
  have "\<exists>j. slot_seq (?os ! i) lut_len j = c" if "c < unat lut_len" for c
    using odd_skip_covers [OF assms(2,5) that, of "fst (?os ! i)"] by simp
  moreover have "length ?os = lbs" by (simp add: offsets_def)
  ultimately have "lut_covered ?os lut_len" using assms(4) unfolding lut_covered_def by metis
  then obtain t where "generate_lut junk pfx lbs lut_len = Some t" using generate_lut_iff(1) [OF assms(1) two_slots [OF assms(2,3)]] by blast
  then show ?thesis using generate_lut_iff(2) [OF assms(1) two_slots [OF assms(2,3)], of junk pfx t] by blast
qed

lemma generate_lut_even:
  assumes "lbs \<le> 0x8000" "unat lut_len = 2 ^ m" "0 < m" "\<forall>i<lbs. even (fst (offsets junk pfx lbs lut_len ! i)) \<and> even (snd (offsets junk pfx lbs lut_len ! i))"
  shows "generate_lut junk pfx lbs lut_len = None"
proof -
  let ?os = "offsets junk pfx lbs lut_len"
  have len: "length ?os = lbs" by (simp add: offsets_def)
  have "1 < unat lut_len" using assms(2) one_less_power [of "2 :: nat" m] assms(3) by simp
  moreover have "slot_seq (?os ! i) lut_len j \<noteq> 1" if "i < lbs" for i j
  proof
    assume one: "slot_seq (?os ! i) lut_len j = 1"
    have "even (slot_seq (fst (?os ! i), snd (?os ! i)) lut_len j)" using assms(4) that by (intro even_skip_misses [OF assms(2,3)]) blast+
    then show False using one by simp
  qed
  ultimately have "\<not> lut_covered ?os lut_len" unfolding lut_covered_def len by blast
  then show ?thesis using generate_lut_iff(1) [OF assms(1) two_slots [OF assms(2,3)], of junk pfx] by auto
qed

end
