(* ===== verification/Lb_Balancer.thy ===== *)
theory Lb_Balancer
  imports Cuckoo_Demo Lb_Lut
begin

text \<open>
  \<open>apps/cuckoo-lb\<close>: the load balancer. \<open>main.cc\<close> keeps connection tables, cuckoo maps from addresses to backends, of which every
  process owns some. The owner of a table gives a new address the backend of the lookup table and remembers it;
  another process asks the owner. The map of \<open>apps/cuckoo-lb/cuckoo_map.h\<close> is that of Cuckoo_Map but for its creation, which is here:
  it does not zero the block, and it has a flag that it is ready. Its keys are those of \<open>size_t_ops\<close>.
\<close>

section \<open>Creation of a table\<close>

definition ClearInit :: "('k, 'v) key_ops \<Rightarrow> ('k, 'v) CuckooMap \<times> bool \<Rightarrow> ('k, 'v) CuckooMap \<times> bool" where
  "ClearInit K sr =
    (let (s, ready) = sr; s = EntryStack_Clear s;
         s = s\<lparr>num_entries := 0, bucket_mask := of_int (alloc_num_buckets s - 1)\<rparr>;
         s = push_all K (nat (alloc_num_entries s)) s
     in (M_mark Mark_this (InvalidateStack s), True))"

definition lb_Create ::
  "('k, 'v) key_ops \<Rightarrow> u64 \<Rightarrow> u64 \<Rightarrow> u64 \<Rightarrow> ('k, 'v) CuckooMap \<times> bool \<Rightarrow> (('k, 'v) CuckooMap \<times> bool) option" where
  "lb_Create K area_size n b raw =
    (if area_size < CuckooMap_Size K n b then None
     else if b = 0 \<or> n = 0 \<or> b AND (b - 1) \<noteq> 0 \<or> n < b then None
     else do {
       s \<leftarrow> EntryStack_Create (area_size - 48) n (fst raw);
       Some (ClearInit K (s\<lparr>alloc_num_buckets := sint (ucast b :: u32), alloc_num_entries := sint (ucast n :: u32),
         num_entries := 0, bucket_mask := ucast (b - 1)\<rparr>, snd raw)) })"

definition lb_Clear :: "('k, 'v) key_ops \<Rightarrow> ('k, 'v) CuckooMap \<times> bool \<Rightarrow> ('k, 'v) CuckooMap \<times> bool" where
  "lb_Clear K sr =
    (let (s, ready) = sr;
         s = s\<lparr>cm_buckets := zero_first (nat (alloc_num_buckets s)) zero_bucket (cm_buckets s)\<rparr>;
         s = s\<lparr>cm_entries := zero_first (nat (alloc_num_entries s)) (k_zero K, v_zero K) (cm_entries s)\<rparr>;
         s = s\<lparr>num_entries := 0, bucket_mask := of_int (alloc_num_buckets s - 1)\<rparr>;
         (s, ready) = ClearInit K (s, ready)
     in (M_mark Mark_all s, ready))"

section \<open>The balancer\<close>

definition LUT_SIZE :: u64 where "LUT_SIZE = 2048"
definition ADDR_RANGE :: u64 where "ADDR_RANGE = 1000000"

text \<open>The globals of \<open>main.cc\<close>. A table of another process is this process's copy of it.\<close>

record balancer =
  lb_tables :: "(u64, u64) CuckooMap list"
  lut_backend :: "u64 list"
  lut_lb :: "u64 list"
  lb_id :: u64
  lb_init :: bool
  served :: u64
  lb_writes :: u64
  lb_removes :: u64
  fills :: u64
  rpc_calls :: u64
  lookup_rpcs :: u64
  rpc_recd :: u64

definition set_table :: "u64 \<Rightarrow> (u64, u64) CuckooMap \<Rightarrow> balancer \<Rightarrow> balancer" where
  "set_table tbl t st = st\<lparr>lb_tables := (lb_tables st)[unat tbl := t]\<rparr>"

text \<open>
  A table of another process is a copy that need not be well formed, so the reads of \<open>Find\<close> are checked: the buckets it
  looks at, and the entries of the slots with the hash of the key. \<open>None\<close>: a read out of range.
\<close>

definition array_at :: "'a list \<Rightarrow> nat \<Rightarrow> 'a option" where
  "array_at xs i = (if i < length xs then Some (xs ! i) else None)"

definition bucket_reads :: "HashResult \<Rightarrow> HashResult \<Rightarrow> ('k, 'v) CuckooMap \<Rightarrow> bool" where
  "bucket_reads primary bidx t \<longleftrightarrow> unat bidx < length (cm_buckets t) \<and>
     (let b = bucket_at bidx t in length (hash_values b) = kEntriesPerBucket \<and> length (entry_indices b) = kEntriesPerBucket \<and>
       list_all (\<lambda>i. hash_values b ! i = primary \<longrightarrow> unat (entry_indices b ! i) < length (cm_entries t)) [0..<kEntriesPerBucket])"

definition Find_checked :: "('k, 'v) key_ops \<Rightarrow> 'k \<Rightarrow> ('k, 'v) CuckooMap \<Rightarrow> EntryIndex option option" where
  "Find_checked K key t =
    (let primary = Hash K key in
     if \<not> bucket_reads primary (primary AND bucket_mask t) t then None
     else if GetFromBucket K primary (primary AND bucket_mask t) key t = kInvalidEntryIdx \<and>
       \<not> bucket_reads primary (HashSecondary primary AND bucket_mask t) t then None
     else Some (Find K key t))"

text \<open>
  \<open>find_backend\<close>; \<open>rpc\<close> is the remote call of \<open>rpc_find_be\<close> at the owner of the table, whose result is not waited for. \<open>None\<close>:
  a read is out of range, or the insertion does not return.
\<close>

definition find_backend :: "(u64 \<Rightarrow> u64 \<Rightarrow> balancer \<Rightarrow> balancer) \<Rightarrow> u64 \<Rightarrow> u64 \<Rightarrow> u64 \<Rightarrow> balancer \<Rightarrow> (u64 \<times> balancer) option" where
  "find_backend rpc owner tbl address st =
    do {
      table \<leftarrow> array_at (lb_tables st) (unat tbl);
      entry \<leftarrow> Find_checked size_t_ops address table;
      let st = st\<lparr>served := served st + 1\<rparr>;
      case entry of
        None \<Rightarrow>
          if lb_id st = owner
          then do {
            target \<leftarrow> array_at (lut_backend st) (unat (address mod LUT_SIZE));
            (insert, t) \<leftarrow> Insert size_t_ops address target table;
            let st = set_table tbl t st;
            let st = st\<lparr>lb_writes := lb_writes st + 1\<rparr>;
            let st = (if insert = None then st\<lparr>fills := fills st + 1\<rparr> else st);
            Some (target, st) }
          else let st = rpc tbl address st
               in Some (0, st\<lparr>lookup_rpcs := lookup_rpcs st + 1, rpc_calls := rpc_calls st + 1\<rparr>)
      | Some e \<Rightarrow> Some (snd (cm_entries table ! unat e), st) }"

definition remove_address :: "u64 \<Rightarrow> u64 \<Rightarrow> balancer \<Rightarrow> balancer option" where
  "remove_address tbl address st =
    do {
      table \<leftarrow> array_at (lb_tables st) (unat tbl);
      entry \<leftarrow> Find_checked size_t_ops address table;
      case entry of
        None \<Rightarrow> Some st
      | Some _ \<Rightarrow> let st = st\<lparr>lb_removes := lb_removes st + 1\<rparr>
                 in Some (set_table tbl (snd (Remove size_t_ops address table)) st) }"

text \<open>The functions called remotely: the argument, and the word of the result.\<close>

definition rpc_rem :: "u64 \<Rightarrow> balancer \<Rightarrow> (u64 \<times> balancer) option" where
  "rpc_rem arg st =
    do {
      target \<leftarrow> array_at (lut_lb st) (unat (arg mod LUT_SIZE));
      let st = st\<lparr>rpc_recd := rpc_recd st + 1\<rparr>;
      if \<not> lb_init st then Some (0, st) else do { st \<leftarrow> remove_address target arg st; Some (0, st) } }"

definition rpc_find_be :: "(u64 \<Rightarrow> u64 \<Rightarrow> balancer \<Rightarrow> balancer) \<Rightarrow> u64 \<Rightarrow> balancer \<Rightarrow> (u64 \<times> balancer) option" where
  "rpc_find_be rpc arg st =
    do {
      target \<leftarrow> array_at (lut_lb st) (unat (arg mod LUT_SIZE));
      let st = st\<lparr>rpc_recd := rpc_recd st + 1\<rparr>;
      if \<not> lb_init st then Some (0, st) else find_backend rpc (lb_id st) target arg st }"

text \<open>A table whose mask and indices are in range can be read; one that holds a map is such a table.\<close>

definition readable :: "('k, 'v) CuckooMap \<Rightarrow> bool" where
  "readable t \<longleftrightarrow> unat (bucket_mask t) < length (cm_buckets t) \<and> (\<forall>b\<in>set (cm_buckets t). bucket_ok (length (cm_entries t)) b)"

lemma bucket_reads_readable: "readable t \<Longrightarrow> bucket_reads primary (h AND bucket_mask t) t"
proof -
  assume r: "readable t"
  have "unat (h AND bucket_mask t) \<le> unat (bucket_mask t)" using word_and_le1 [of h "bucket_mask t"] by (simp add: word_le_nat_alt)
  then have i: "unat (h AND bucket_mask t) < length (cm_buckets t)" using r by (simp add: readable_def)
  then have "bucket_ok (length (cm_entries t)) (bucket_at (h AND bucket_mask t) t)" using r by (simp add: readable_def bucket_at_def)
  then show ?thesis using i by (simp add: bucket_reads_def Let_def bucket_ok_def kEntriesPerBucket_def list_all_iff)
qed

lemma Find_checked_readable: "readable t \<Longrightarrow> Find_checked K key t = Some (Find K key t)"
  by (simp add: Find_checked_def Let_def bucket_reads_readable)

lemma cm_ok_readable:
  assumes "cm_ok K pw E t M"
  shows "readable t"
proof -
  have s: "pw < 31" "bucket_mask t = mask pw" "length (cm_buckets t) = 2 ^ pw" "\<forall>b\<in>set (cm_buckets t). bucket_ok E b" "length (cm_entries t) = E"
    using cm_okD(1) [OF assms] by (simp_all add: shape_def)
  have "unat (mask pw :: u32) < 2 ^ pw" using masked_less [OF s(1), of "mask pw"] by simp
  then show ?thesis using s by (simp add: readable_def)
qed

section \<open>No address has a second hash of zero\<close>

text \<open>
  The second hash of a small key is zero only if the key is the product with the multiplier, which depends on the bits from 12 on alone:
  there are few products to look at.
\<close>

definition small_tag_ok :: "int \<Rightarrow> bool" where
  "small_tag_ok t \<longleftrightarrow> (524288 + t + 1) * 1540483477 mod 4294967296 div 4096 \<noteq> 524288 + t"

lemma small_tags: "list_all small_tag_ok [0..255]"
  by code_simp

lemma small_hash:
  assumes "k < 2 ^ 20"
  shows "uint (Hash size_t_ops k) = uint k + 2147483648"
proof -
  have k: "uint k < 2 ^ 20" using assms by (simp add: word_less_def)
  have "k AND push_bit 31 1 = 0"
  proof (rule bit_word_eqI)
    fix n
    have "uint k div 2 ^ 31 = 0" using k by simp
    then have "\<not> bit (uint k) 31" unfolding bit_iff_odd by simp
    then have "\<not> bit k 31" using bit_uint_iff [of k 31] by simp
    moreover have "bit (push_bit 31 1 :: u64) n \<longleftrightarrow> n = 31" using bit_exp_iff [of 31 n, where 'a = u64] by auto
    ultimately show "bit (k AND push_bit 31 1) n \<longleftrightarrow> bit (0 :: u64) n" unfolding bit_and_iff by auto
  qed
  then have "k OR push_bit 31 1 = k + push_bit 31 1" by (simp add: disjunctive_add_eq_or)
  then have h: "Hash size_t_ops k = ucast (k + 2147483648)" by (simp add: Hash_def size_t_ops_def)
  have "uint (k + 2147483648) = uint k + 2147483648" using k by (simp add: uint_plus_if')
  then show ?thesis using k by (simp add: h unsigned_ucast_eq unsigned_take_bit_eq take_bit_int_eq_self)
qed

lemma tag_product: "uint ((t + 1) * 0x5bd1e995 :: u32) = (uint t + 1) * 1540483477 mod 4294967296"
proof -
  have "(t + 1) * 0x5bd1e995 = (of_int ((uint t + 1) * 1540483477) :: u32)" by simp
  then have "uint ((t + 1) * 0x5bd1e995 :: u32) = uint (of_int ((uint t + 1) * 1540483477) :: u32)" by (rule arg_cong)
  also have "\<dots> = take_bit 32 ((uint t + 1) * 1540483477)" by (simp only: uint_word_of_int_eq) simp
  finally show ?thesis by (simp only: take_bit_eq_mod) simp
qed

lemma shift12: "uint (drop_bit 12 (x :: u32)) = uint x div 4096"
  by (simp add: drop_bit_eq_div uint_div_distrib)

lemma small_second_hash:
  assumes "k < 2 ^ 20"
  shows "HashSecondary (Hash size_t_ops k) \<noteq> 0"
proof
  let ?h = "Hash size_t_ops k" and ?t = "drop_bit 12 (Hash size_t_ops k)"
  assume "HashSecondary ?h = 0"
  then have z: "?h XOR (?t + 1) * 0x5bd1e995 = 0" by (simp only: HashSecondary_def Let_def)
  have "?h = (?h XOR (?t + 1) * 0x5bd1e995) XOR (?t + 1) * 0x5bd1e995" by (simp only: xor.assoc xor_self_eq xor.right_neutral)
  then have "?h = (?t + 1) * 0x5bd1e995" unfolding z by (simp only: xor.left_neutral)
  then have "uint ?t = uint (drop_bit 12 ((?t + 1) * 0x5bd1e995 :: u32))" by simp
  also have "\<dots> = (uint ?t + 1) * 1540483477 mod 4294967296 div 4096"
    by (simp only: shift12 tag_product)
  finally have eq: "uint ?t = (uint ?t + 1) * 1540483477 mod 4294967296 div 4096" .
  have "uint ?t = (uint k + 2147483648) div 4096" by (simp only: shift12 small_hash [OF assms])
  then have t: "uint ?t = 524288 + uint k div 4096" by simp
  have range: "0 \<le> x div 4096 \<and> x div 4096 \<le> 255" if "0 \<le> x" "x < 1048576" for x :: int
    using zdiv_mono1 [of x 1048575 4096] that by (simp add: pos_imp_zdiv_nonneg_iff)
  have "uint k < 1048576" using assms by (simp add: word_less_def)
  then have "uint k div 4096 \<in> set [0..255]" using range [of "uint k"] by simp
  then have "small_tag_ok (uint k div 4096)" using small_tags by (simp add: list_all_iff)
  then show False using eq unfolding t small_tag_ok_def by (simp add: algebra_simps)
qed

section \<open>Connections stay with their backends\<close>

lemma ClearInit_ok:
  assumes s: "alloc_num_buckets s = 2 ^ pw" "alloc_num_entries s = int E" "pw < 31" "0 < E" "E < 2 ^ 31" "es_size s = E"
    "length (cm_entries s) = E" "length (es_stck s) = E" and b: "cm_buckets s = replicate (2 ^ pw) zero_bucket"
  shows "cm_ok size_t_ops pw E (fst (ClearInit size_t_ops (s, ready))) Map.empty \<and> snd (ClearInit size_t_ops (s, ready))"
proof -
  define t where "t = s\<lparr>es_head := 0, cm_marks := insert Mark_head (cm_marks s), num_entries := 0, bucket_mask := of_int (2 ^ pw - 1)\<rparr>"
  have C: "ClearInit size_t_ops (s, ready) = (M_mark Mark_this (InvalidateStack (push_all size_t_ops E t)), True)"
    using s by (simp add: ClearInit_def t_def EntryStack_Clear_def M_mark_def Let_def)
  have "cm_ok size_t_ops pw E (push_all size_t_ops E t) Map.empty"
    using s b by (intro cz.fresh_ok) (simp_all add: t_def cz.mask_of_int [simplified])
  then show ?thesis by (simp add: C InvalidateStack_def)
qed

text \<open>
  \<open>Create\<close> leaves the buckets as they are: on a block of zeroes it gives the empty map, and the flag.
\<close>

lemma lb_Create_ok:
  assumes n: "unat n < 2 ^ 31" and b: "unat b = 2 ^ pw" "b \<le> n" and area: "CuckooMap_Size size_t_ops n b \<le> area_size"
    and raw: "cm_buckets (fst raw) = replicate (unat b) zero_bucket" "length (cm_entries (fst raw)) = unat n" "length (es_stck (fst raw)) = unat n"
  shows "\<exists>t. lb_Create size_t_ops area_size n b raw = Some (t, True) \<and> cm_ok size_t_ops pw (unat n) t Map.empty"
proof -
  have e: "unat (entry_bytes size_t_ops) < 2 ^ 30" by (simp add: size_t_ops_def)
  note h = Create_head [OF n e b area]
  have "lb_Create size_t_ops area_size n b raw = Some (ClearInit size_t_ops (headed n b (fst raw), snd raw))"
    using area h b(2) by (simp add: lb_Create_def EntryStack_Create_def not_less headed_def)
  moreover have "cm_ok size_t_ops pw (unat n) (fst (ClearInit size_t_ops (headed n b (fst raw), snd raw))) Map.empty \<and>
      snd (ClearInit size_t_ops (headed n b (fst raw), snd raw))"
    by (intro ClearInit_ok h(4,5,6)) (use h(2) n b(1) raw in \<open>simp_all add: headed_def M_mark_def unat_gt_0\<close>)
  ultimately show ?thesis by (metis prod.collapse)
qed

text \<open>A table of the balancer that holds the connections \<open>M\<close>, whose addresses are in the range of the program.\<close>

definition conn_ok :: "nat \<Rightarrow> nat \<Rightarrow> (u64 \<rightharpoonup> u64) \<Rightarrow> (u64, u64) CuckooMap \<Rightarrow> bool" where
  "conn_ok pw E M t \<longleftrightarrow> cm_ok size_t_ops pw E t M \<and> (\<forall>k. M k \<noteq> None \<longrightarrow> k < ADDR_RANGE)"

lemma conn_second_hash:
  assumes "conn_ok pw E M t" "es_head t = 0"
  shows "\<forall>e<E. HashSecondary (Hash size_t_ops (fst (cm_entries t ! e))) \<noteq> 0"
proof (intro allI impI)
  fix e
  assume "e < E"
  have ok: "cm_ok size_t_ops pw E t M" using assms(1) by (simp add: conn_ok_def)
  have "set (free_list size_t_ops t) = {}" using assms(2) by (simp add: free_list_def)
  then have "{..<E} \<subseteq> used pw (held t)" using cm_okD(5) [OF ok] by (simp only: Diff_eq_empty_iff [symmetric])
  then have "e \<in> used pw (held t)" using \<open>e < E\<close> by (simp add: subset_iff)
  moreover have "cm_entries t ! e = (fst (cm_entries t ! e), snd (cm_entries t ! e))" by simp
  ultimately have "M (fst (cm_entries t ! e)) = Some (snd (cm_entries t ! e))" unfolding cm_okD(7) [OF ok] by (rule bexI [rotated])
  then have "M (fst (cm_entries t ! e)) \<noteq> None" by (simp only: option.distinct not_False_eq_True)
  then have "fst (cm_entries t ! e) < ADDR_RANGE" using assms(1) by (simp add: conn_ok_def)
  moreover have "ADDR_RANGE < 2 ^ 20" by (simp add: ADDR_RANGE_def)
  ultimately have "fst (cm_entries t ! e) < 2 ^ 20" by (rule less_trans)
  then show "HashSecondary (Hash size_t_ops (fst (cm_entries t ! e))) \<noteq> 0" by (rule small_second_hash)
qed

text \<open>What the owner of a table does with an address.\<close>

lemma lut_slot: "unat (a mod LUT_SIZE) < unat LUT_SIZE"
  by (simp add: LUT_SIZE_def unat_mod)

lemma find_backend_owner:
  assumes ok: "conn_ok pw E M (lb_tables st ! unat tbl)" and tbl: "unat tbl < length (lb_tables st)" and a: "a < ADDR_RANGE"
    and lut: "length (lut_backend st) = unat LUT_SIZE"
  shows "\<exists>b st' M'. find_backend rpc (lb_id st) tbl a st = Some (b, st') \<and>
    (case M a of Some c \<Rightarrow> b = c \<and> M' = M | None \<Rightarrow> b = lut_backend st ! unat (a mod LUT_SIZE) \<and> M' \<in> {M, M(a \<mapsto> b)}) \<and>
    conn_ok pw E M' (lb_tables st' ! unat tbl) \<and> length (lb_tables st') = length (lb_tables st) \<and> lb_id st' = lb_id st \<and>
    lut_backend st' = lut_backend st \<and> lut_lb st' = lut_lb st \<and> lb_init st' = lb_init st \<and>
    (\<forall>i. i \<noteq> unat tbl \<longrightarrow> lb_tables st' ! i = lb_tables st ! i)"
proof -
  let ?t = "lb_tables st ! unat tbl"
  have cm: "cm_ok size_t_ops pw E ?t M" using ok by (simp add: conn_ok_def)
  have at: "array_at (lb_tables st) (unat tbl) = Some ?t" "Find_checked size_t_ops a ?t = Some (Find size_t_ops a ?t)"
    "array_at (lut_backend st) (unat (a mod LUT_SIZE)) = Some (lut_backend st ! unat (a mod LUT_SIZE))"
    using tbl lut lut_slot [of a] Find_checked_readable [OF cm_ok_readable [OF cm]] by (simp_all add: array_at_def)
  show ?thesis
  proof (cases "M a")
    case (Some c)
    then obtain e where "Find size_t_ops a ?t = Some e" "cm_entries ?t ! unat e = (a, c)" using cz.Find_ok [OF cm, of a] by auto
    then show ?thesis using Some ok at by (simp add: find_backend_def Let_def)
  next
    case None
    let ?b = "lut_backend st ! unat (a mod LUT_SIZE)"
    have f: "Find size_t_ops a ?t = None" using cz.Find_ok [OF cm, of a] None by simp
    obtain r t' where ins: "Insert size_t_ops a ?b ?t = Some (r, t')"
      and r: "case r of Some e \<Rightarrow> cm_ok size_t_ops pw E t' (M(a \<mapsto> ?b)) | None \<Rightarrow> cm_ok size_t_ops pw E t' M"
      using cz.Insert_returns [OF cm, of a ?b] conn_second_hash [OF ok] by (auto split: option.splits)
    have m: "conn_ok pw E (if r = None then M else M(a \<mapsto> ?b)) t'" using r ok a by (auto simp: conn_ok_def split: option.splits)
    define st1 where "st1 = (set_table tbl t' (st\<lparr>served := served st + 1\<rparr>))\<lparr>lb_writes := lb_writes st + 1\<rparr>"
    define st' where "st' = (if r = None then st1\<lparr>fills := fills st + 1\<rparr> else st1)"
    have go: "find_backend rpc (lb_id st) tbl a st = Some (?b, st')"
      using f ins at by (simp add: find_backend_def Let_def st'_def st1_def set_table_def)
    have tabs: "lb_tables st' = (lb_tables st)[unat tbl := t']" "lb_id st' = lb_id st" "lut_backend st' = lut_backend st"
      "lut_lb st' = lut_lb st" "lb_init st' = lb_init st"
      by (simp_all add: st'_def st1_def set_table_def)
    show ?thesis using go m tabs tbl None by (intro exI [of _ ?b] exI [of _ st'] exI [of _ "if r = None then M else M(a \<mapsto> ?b)"]) auto
  qed
qed

lemma remove_address_ok:
  assumes ok: "conn_ok pw E M (lb_tables st ! unat tbl)" and tbl: "unat tbl < length (lb_tables st)"
  shows "\<exists>st'. remove_address tbl a st = Some st' \<and> conn_ok pw E (M(a := None)) (lb_tables st' ! unat tbl) \<and>
    length (lb_tables st') = length (lb_tables st) \<and> lb_id st' = lb_id st \<and> lut_backend st' = lut_backend st \<and> lut_lb st' = lut_lb st \<and>
    lb_init st' = lb_init st \<and> (\<forall>i. i \<noteq> unat tbl \<longrightarrow> lb_tables st' ! i = lb_tables st ! i)"
proof -
  let ?t = "lb_tables st ! unat tbl"
  have cm: "cm_ok size_t_ops pw E ?t M" using ok by (simp add: conn_ok_def)
  have at: "array_at (lb_tables st) (unat tbl) = Some ?t" "Find_checked size_t_ops a ?t = Some (Find size_t_ops a ?t)"
    using tbl Find_checked_readable [OF cm_ok_readable [OF cm]] by (simp_all add: array_at_def)
  show ?thesis
  proof (cases "M a")
    case None
    then have "Find size_t_ops a ?t = None" "M(a := None) = M" using cz.Find_ok [OF cm, of a] by auto
    then show ?thesis using ok at by (simp add: remove_address_def)
  next
    case (Some c)
    then obtain e where f: "Find size_t_ops a ?t = Some e" using cz.Find_ok [OF cm, of a] by auto
    obtain t' where t': "Remove size_t_ops a ?t = (True, t')" "cm_ok size_t_ops pw E t' (M(a := None))" using cz.Remove_ok [OF cm, of a] Some by auto
    then have "conn_ok pw E (M(a := None)) t'" using ok by (simp add: conn_ok_def)
    then show ?thesis using f t' tbl at by (simp add: remove_address_def set_table_def Let_def)
  qed
qed

text \<open>Requests and removals at the owner, in any order; requests are answered with a backend.\<close>

datatype request = Packet u64 | Gone u64

fun serve :: "(u64 \<Rightarrow> u64 \<Rightarrow> balancer \<Rightarrow> balancer) \<Rightarrow> u64 \<Rightarrow> request list \<Rightarrow> balancer \<Rightarrow> balancer option" where
  "serve rpc tbl [] st = Some st"
| "serve rpc tbl (Packet a # rs) st = do { (_, st) \<leftarrow> find_backend rpc (lb_id st) tbl a st; serve rpc tbl rs st }"
| "serve rpc tbl (Gone a # rs) st = do { st \<leftarrow> remove_address tbl a st; serve rpc tbl rs st }"

fun address_of :: "request \<Rightarrow> u64" where
  "address_of (Packet a) = a"
| "address_of (Gone a) = a"

lemma serve_keeps:
  assumes "conn_ok pw E M (lb_tables st ! unat tbl)" "unat tbl < length (lb_tables st)" "M a = Some b"
    "\<forall>r\<in>set rs. address_of r < ADDR_RANGE" "Gone a \<notin> set rs" "length (lut_backend st) = unat LUT_SIZE"
  shows "\<exists>st' M'. serve rpc tbl rs st = Some st' \<and> conn_ok pw E M' (lb_tables st' ! unat tbl) \<and> M' a = Some b \<and>
    unat tbl < length (lb_tables st') \<and> length (lut_backend st') = unat LUT_SIZE"
  using assms
proof (induction rs arbitrary: M st)
  case (Cons r rs)
  have rs: "\<forall>r\<in>set rs. address_of r < ADDR_RANGE" "Gone a \<notin> set rs" using Cons.prems(4,5) by simp_all
  show ?case
  proof (cases r)
    case (Packet x)
    have x: "x < ADDR_RANGE" using Cons.prems(4) Packet by simp
    obtain c st1 M1 where s1: "find_backend rpc (lb_id st) tbl x st = Some (c, st1)"
      "case M x of Some d \<Rightarrow> c = d \<and> M1 = M | None \<Rightarrow> c = lut_backend st ! unat (x mod LUT_SIZE) \<and> M1 \<in> {M, M(x \<mapsto> c)}"
      "conn_ok pw E M1 (lb_tables st1 ! unat tbl)" "length (lb_tables st1) = length (lb_tables st)" "lut_backend st1 = lut_backend st"
      using find_backend_owner [OF Cons.prems(1,2) x Cons.prems(6), of rpc] by blast
    have "M1 a = Some b" using s1(2) Cons.prems(3) by (auto split: option.splits)
    then show ?thesis using Cons.IH [OF s1(3)] s1 Cons.prems(2,6) rs Packet by simp
  next
    case (Gone x)
    have x: "x \<noteq> a" using Cons.prems(5) Gone by auto
    obtain st1 where s1: "remove_address tbl x st = Some st1" "conn_ok pw E (M(x := None)) (lb_tables st1 ! unat tbl)"
      "length (lb_tables st1) = length (lb_tables st)" "lut_backend st1 = lut_backend st"
      using remove_address_ok [OF Cons.prems(1,2), of x] by blast
    then show ?thesis using Cons.IH [OF s1(2)] s1 Cons.prems(2,3,6) rs x Gone by simp
  qed
qed auto

text \<open>A connection that was stored stays with its backend as long as nobody removes it.\<close>

lemma find_backend_sticks:
  assumes ok: "conn_ok pw E M (lb_tables st ! unat tbl)" and tbl: "unat tbl < length (lb_tables st)" and a: "a < ADDR_RANGE"
    and lut: "length (lut_backend st) = unat LUT_SIZE"
  shows "\<exists>b st1. find_backend rpc (lb_id st) tbl a st = Some (b, st1) \<and>
    b = (case M a of Some c \<Rightarrow> c | None \<Rightarrow> lut_backend st ! unat (a mod LUT_SIZE)) \<and>
    (Find size_t_ops a (lb_tables st1 ! unat tbl) \<noteq> None \<longrightarrow>
      (\<forall>rs. (\<forall>r\<in>set rs. address_of r < ADDR_RANGE) \<longrightarrow> Gone a \<notin> set rs \<longrightarrow>
        (\<exists>st2 st3. serve rpc tbl rs st1 = Some st2 \<and> find_backend rpc (lb_id st2) tbl a st2 = Some (b, st3))))"
proof -
  obtain b st1 M1 where f: "find_backend rpc (lb_id st) tbl a st = Some (b, st1)"
    "case M a of Some c \<Rightarrow> b = c \<and> M1 = M | None \<Rightarrow> b = lut_backend st ! unat (a mod LUT_SIZE) \<and> M1 \<in> {M, M(a \<mapsto> b)}"
    "conn_ok pw E M1 (lb_tables st1 ! unat tbl)" "length (lb_tables st1) = length (lb_tables st)" "lut_backend st1 = lut_backend st"
    using find_backend_owner [OF ok tbl a lut, of rpc] by blast
  have later: "\<exists>st2 st3. serve rpc tbl rs st1 = Some st2 \<and> find_backend rpc (lb_id st2) tbl a st2 = Some (b, st3)"
    if stored: "Find size_t_ops a (lb_tables st1 ! unat tbl) \<noteq> None" and rs: "\<forall>r\<in>set rs. address_of r < ADDR_RANGE" "Gone a \<notin> set rs" for rs
  proof -
    have cm: "cm_ok size_t_ops pw E (lb_tables st1 ! unat tbl) M1" using f(3) by (simp add: conn_ok_def)
    have "M1 a \<noteq> None" using cz.Find_ok [OF cm, of a] stored by (auto split: option.splits)
    then have m: "M1 a = Some b" using f(2) by (auto split: option.splits)
    have tbl1: "unat tbl < length (lb_tables st1)" using tbl f(4) by simp
    have "length (lut_backend st1) = unat LUT_SIZE" using f(5) lut by simp
    then obtain st2 M2 where st2: "serve rpc tbl rs st1 = Some st2" "conn_ok pw E M2 (lb_tables st2 ! unat tbl)" "M2 a = Some b" "unat tbl < length (lb_tables st2)"
      "length (lut_backend st2) = unat LUT_SIZE"
      using serve_keeps [OF f(3) tbl1 m rs, of rpc] by blast
    obtain c st3 where "find_backend rpc (lb_id st2) tbl a st2 = Some (c, st3)" "c = b"
      using find_backend_owner [OF st2(2,4) a st2(5), of rpc] st2(3) by auto
    then show ?thesis using st2(1) by blast
  qed
  have "b = (case M a of Some c \<Rightarrow> c | None \<Rightarrow> lut_backend st ! unat (a mod LUT_SIZE))" using f(2) by (auto split: option.splits)
  then show ?thesis using f(1) later by blast
qed

end
