(* ===== verification/Lb_Run.thy ===== *)
theory Lb_Run
  imports Lb_Balancer
begin

text \<open>
  \<open>apps/cuckoo-lb/main.cc\<close>, continued: the loop of \<open>test\<close>, which looks up random flows in batches and replaces a thousand flows
  every second. Calls from other load balancers and their tables come in while \<open>tasvir_service\<close> runs.
\<close>

section \<open>The code\<close>

definition BUCKETS :: u64 where "BUCKETS = push_bit 18 1"
definition ENTRIES :: u64 where "ENTRIES = BUCKETS * 4"
definition FLOWS_IN_SYSTEM :: nat where "FLOWS_IN_SYSTEM = 1000000"
definition REPLACEMENT_RATE :: nat where "REPLACEMENT_RATE = 1000"
definition BATCH_SIZE :: nat where "BATCH_SIZE = 32"
definition REPORT_SECS :: int where "REPORT_SECS = 1"
definition RUN_SECS :: int where "RUN_SECS = 30"

definition create_table :: "(u64, u64) CuckooMap \<times> bool \<Rightarrow> ((u64, u64) CuckooMap \<times> bool) option" where
  "create_table raw = (let len = CuckooMap_Size size_t_ops ENTRIES BUCKETS in lb_Create size_t_ops len ENTRIES BUCKETS raw)"

definition fast_random1 :: "u64 \<Rightarrow> u32 \<times> u64" where
  "fast_random1 seed = (let seed = seed * 1103515245 + 12345 in (ucast (drop_bit 32 seed), seed))"

text \<open>The flows before the loop; \<open>generate_flows\<close> on the window of the flows that starts at \<open>base\<close>.\<close>

fun first_flows :: "nat list \<Rightarrow> u64 list \<times> u64 \<Rightarrow> u64 list \<times> u64" where
  "first_flows [] fs = fs"
| "first_flows (i # is) (flows, seed) =
    (let (r, seed) = fast_random1 seed in first_flows is (flows[i := ucast r mod ADDR_RANGE], seed))"

fun generate_flows :: "nat \<Rightarrow> nat list \<Rightarrow> u64 list \<times> u64 list \<times> u64 \<Rightarrow> u64 list \<times> u64 list \<times> u64" where
  "generate_flows base [] fs = fs"
| "generate_flows base (i # is) (flows, deleted, seed) =
    (let deleted = deleted[i := flows ! (base + i)]; (r, seed) = fast_random1 seed; flows = flows[base + i := ucast r mod ADDR_RANGE]
     in generate_flows base is (flows, deleted, seed))"

text \<open>
  What comes in during \<open>tasvir_service\<close>: calls of the two functions, and new contents of the tables of other processes.
\<close>

datatype event = Find_be u64 | Rem u64 | Copy u64 "(u64, u64) CuckooMap"

fun deliver :: "(u64 \<Rightarrow> u64 \<Rightarrow> balancer \<Rightarrow> balancer) \<Rightarrow> event list \<Rightarrow> balancer \<Rightarrow> balancer option" where
  "deliver rpc [] st = Some st"
| "deliver rpc (Find_be a # es) st = do { (_, st) \<leftarrow> rpc_find_be rpc a st; deliver rpc es st }"
| "deliver rpc (Rem a # es) st = do { (_, st) \<leftarrow> rpc_rem a st; deliver rpc es st }"
| "deliver rpc (Copy tbl t # es) st = deliver rpc es (set_table tbl t st)"

text \<open>The batch; \<open>None\<close> also stands for the division by zero of \<open>target % lbs\<close>.\<close>

fun test_batch :: "(u64 \<Rightarrow> u64 \<Rightarrow> balancer \<Rightarrow> balancer) \<Rightarrow> u64 \<Rightarrow> u64 list \<Rightarrow> nat \<Rightarrow> u64 \<times> balancer \<Rightarrow> (u64 \<times> balancer) option" where
  "test_batch rpc lbs flows 0 ss = Some ss"
| "test_batch rpc lbs flows (Suc n) (seed, st) =
    (let (r, seed) = fast_random seed
     in do { val \<leftarrow> array_at flows (unat r mod FLOWS_IN_SYSTEM);
             target \<leftarrow> array_at (lut_lb st) (unat (val mod LUT_SIZE));
             if lbs = 0 then None
             else do { (_, st) \<leftarrow> find_backend rpc (target mod lbs) target val st; test_batch rpc lbs flows n (seed, st) } })"

text \<open>The loop over the deleted flows; \<open>rem_rpc\<close> is the remote call of \<open>rpc_rem\<close>, and the number is \<open>del_rpcs\<close>.\<close>

fun test_delete ::
  "(u64 \<Rightarrow> u64 \<Rightarrow> balancer \<Rightarrow> balancer) \<Rightarrow> (u64 \<Rightarrow> u64 \<Rightarrow> balancer \<Rightarrow> balancer) \<Rightarrow> u64 \<Rightarrow> (nat \<Rightarrow> event list) \<Rightarrow> u64 list \<Rightarrow>
    nat list \<Rightarrow> u64 \<times> balancer \<Rightarrow> (u64 \<times> balancer) option" where
  "test_delete rpc rem_rpc lbs evs deleted [] ds = Some ds"
| "test_delete rpc rem_rpc lbs evs deleted (rem # rs) (del_rpcs, st) =
    do { val \<leftarrow> array_at deleted rem;
         target \<leftarrow> array_at (lut_lb st) (unat (val mod LUT_SIZE));
         (del_rpcs, st) \<leftarrow>
           (if lbs = 0 then None
            else if target mod lbs = lb_id st then do { st \<leftarrow> remove_address target val st; Some (del_rpcs, st) }
            else let st = rem_rpc target val st in Some (del_rpcs + 1, st\<lparr>rpc_calls := rpc_calls st + 1\<rparr>));
         st \<leftarrow> (if rem mod BATCH_SIZE \<noteq> 0 then deliver rpc (evs rem) st else Some st);
         test_delete rpc rem_rpc lbs evs deleted rs (del_rpcs, st) }"

record tester =
  t_flows :: "u64 list"
  t_deleted :: "u64 list"
  t_seed :: u64
  t_seed1 :: u64
  replacement_index :: nat
  seconds_run :: int
  t_lb :: balancer

text \<open>
  One round of the loop of \<open>test\<close>; the flag says whether it was the last one. \<open>secs\<close> is what the clock gives, \<open>evs\<close>, \<open>evs'\<close> and
  \<open>evs''\<close> are what comes in when \<open>tasvir_service\<close> is called after the batch, in the loop over the deleted flows and after it.
\<close>

definition test_round ::
  "(u64 \<Rightarrow> u64 \<Rightarrow> balancer \<Rightarrow> balancer) \<Rightarrow> (u64 \<Rightarrow> u64 \<Rightarrow> balancer \<Rightarrow> balancer) \<Rightarrow> u64 \<Rightarrow> int \<Rightarrow>
    event list \<Rightarrow> (nat \<Rightarrow> event list) \<Rightarrow> event list \<Rightarrow> tester \<Rightarrow> (bool \<times> tester) option" where
  "test_round rpc rem_rpc lbs secs evs evs' evs'' t =
    do {
      (seed, st) \<leftarrow> test_batch rpc lbs (t_flows t) BATCH_SIZE (t_seed t, t_lb t);
      st \<leftarrow> deliver rpc evs st;
      let t = t\<lparr>t_seed := seed, t_lb := st\<rparr>;
      if \<not> secs \<ge> REPORT_SECS then Some (False, t)
      else let t = t\<lparr>seconds_run := seconds_run t + 1\<rparr>
        in if seconds_run t \<ge> RUN_SECS then Some (True, t)
           else let (flows, deleted, seed1) =
                      generate_flows (replacement_index t * REPLACEMENT_RATE) [0..<REPLACEMENT_RATE] (t_flows t, t_deleted t, t_seed1 t);
                    t = t\<lparr>t_flows := flows, t_deleted := deleted, t_seed1 := seed1,
                      replacement_index := (replacement_index t + 1) mod (FLOWS_IN_SYSTEM div REPLACEMENT_RATE)\<rparr>;
                    st = st\<lparr>served := 0, rpc_calls := 0, rpc_recd := 0, lb_writes := 0, fills := 0, lb_removes := 0, lookup_rpcs := 0\<rparr>
             in do {
               (_, st) \<leftarrow> test_delete rpc rem_rpc lbs evs' deleted [0..<REPLACEMENT_RATE] (0, st);
               st \<leftarrow> deliver rpc evs'' st;
               Some (False, t\<lparr>t_lb := st\<rparr>) } }"

section \<open>The invariant\<close>

text \<open>What no step changes.\<close>

definition fixed :: "balancer \<Rightarrow> balancer \<Rightarrow> bool" where
  "fixed st st' \<longleftrightarrow> lut_lb st' = lut_lb st \<and> lut_backend st' = lut_backend st \<and> lb_id st' = lb_id st \<and> lb_init st' = lb_init st \<and>
     length (lb_tables st') = length (lb_tables st)"

lemma fixed_refl [simp]: "fixed st st" and fixed_trans: "fixed st st1 \<Longrightarrow> fixed st1 st2 \<Longrightarrow> fixed st st2"
  by (simp_all add: fixed_def)

text \<open>
  There are load balancers, the lookup tables have their length and name tables that there are, all tables can be read, and those
  that this process owns hold the connections \<open>Ms\<close>.
\<close>

definition lb_inv :: "u64 \<Rightarrow> nat \<Rightarrow> nat \<Rightarrow> (nat \<Rightarrow> u64 \<rightharpoonup> u64) \<Rightarrow> balancer \<Rightarrow> bool" where
  "lb_inv lbs pw E Ms st \<longleftrightarrow> lbs \<noteq> 0 \<and> length (lut_backend st) = unat LUT_SIZE \<and> list_all readable (lb_tables st) \<and>
     length (lut_lb st) = unat LUT_SIZE \<and> (\<forall>x\<in>set (lut_lb st). unat x < length (lb_tables st)) \<and>
     (\<forall>i. unat i < length (lb_tables st) \<longrightarrow> i mod lbs = lb_id st \<longrightarrow> conn_ok pw E (Ms (unat i)) (lb_tables st ! unat i))"

lemma lut_target: "lb_inv lbs pw E Ms st \<Longrightarrow> unat (lut_lb st ! unat (a mod LUT_SIZE)) < length (lb_tables st)"
  using lut_slot [of a] by (simp add: lb_inv_def)

lemma lut_read: "lb_inv lbs pw E Ms st \<Longrightarrow> array_at (lut_lb st) (unat (a mod LUT_SIZE)) = Some (lut_lb st ! unat (a mod LUT_SIZE))"
  using lut_slot [of a] by (simp add: lb_inv_def array_at_def)

lemma conn_ok_readable: "conn_ok pw E M t \<Longrightarrow> readable t"
  unfolding conn_ok_def by (blast intro: cm_ok_readable)

text \<open>A step at the owner changes one table; a step elsewhere changes none that is owned here.\<close>

lemma lb_inv_update:
  assumes inv: "lb_inv lbs pw E Ms st" and f: "fixed st st'" and ok: "conn_ok pw E M (lb_tables st' ! unat tbl)"
    and o: "\<forall>i. i \<noteq> unat tbl \<longrightarrow> lb_tables st' ! i = lb_tables st ! i"
  shows "lb_inv lbs pw E (Ms(unat tbl := M)) st'"
proof -
  have "conn_ok pw E ((Ms(unat tbl := M)) (unat i)) (lb_tables st' ! unat i)" if "unat i < length (lb_tables st)" "i mod lbs = lb_id st" for i
  proof (cases "unat i = unat tbl")
    case True
    then show ?thesis using ok by simp
  next
    case False
    then show ?thesis using inv o that by (simp add: lb_inv_def)
  qed
  moreover have "list_all readable (lb_tables st')"
    unfolding list_all_length
  proof (intro allI impI)
    fix i assume "i < length (lb_tables st')"
    then show "readable (lb_tables st' ! i)"
      using inv f o conn_ok_readable [OF ok] by (cases "i = unat tbl") (simp_all add: lb_inv_def fixed_def list_all_length)
  qed
  ultimately show ?thesis using inv f by (simp add: lb_inv_def fixed_def)
qed

lemma lb_inv_same: "lb_inv lbs pw E Ms st \<Longrightarrow> fixed st st' \<Longrightarrow> lb_tables st' = lb_tables st \<Longrightarrow> lb_inv lbs pw E Ms st'"
  by (simp add: lb_inv_def fixed_def)

text \<open>A remote call leaves what this process has.\<close>

definition sends :: "(u64 \<Rightarrow> u64 \<Rightarrow> balancer \<Rightarrow> balancer) \<Rightarrow> bool" where
  "sends rpc \<longleftrightarrow> (\<forall>tbl a st. fixed st (rpc tbl a st) \<and> lb_tables (rpc tbl a st) = lb_tables st)"

text \<open>What comes in is meant for this process, or is a table of another one that can be read.\<close>

fun event_ok :: "u64 \<Rightarrow> balancer \<Rightarrow> event \<Rightarrow> bool" where
  "event_ok lbs st (Find_be a) \<longleftrightarrow> a < ADDR_RANGE \<and> (lut_lb st ! unat (a mod LUT_SIZE)) mod lbs = lb_id st"
| "event_ok lbs st (Rem a) \<longleftrightarrow> (lut_lb st ! unat (a mod LUT_SIZE)) mod lbs = lb_id st"
| "event_ok lbs st (Copy tbl t) \<longleftrightarrow> tbl mod lbs \<noteq> lb_id st \<and> readable t"

lemma event_ok_fixed: "fixed st st' \<Longrightarrow> event_ok lbs st' e \<longleftrightarrow> event_ok lbs st e"
  by (cases e) (simp_all add: fixed_def)

section \<open>Every step returns and keeps the invariant\<close>

text \<open>A computation that returns a state that is well formed again.\<close>

definition goes :: "u64 \<Rightarrow> nat \<Rightarrow> nat \<Rightarrow> balancer \<Rightarrow> balancer \<Rightarrow> bool" where
  "goes lbs pw E st st' \<longleftrightarrow> fixed st st' \<and> (\<exists>Ms. lb_inv lbs pw E Ms st')"

lemma goes_trans: "goes lbs pw E st st1 \<Longrightarrow> goes lbs pw E st1 st2 \<Longrightarrow> goes lbs pw E st st2"
  by (auto simp: goes_def intro: fixed_trans)

lemma goes_same: "lb_inv lbs pw E Ms st \<Longrightarrow> fixed st st' \<Longrightarrow> lb_tables st' = lb_tables st \<Longrightarrow> goes lbs pw E st st'"
  unfolding goes_def using lb_inv_same by blast

lemma find_backend_goes:
  assumes inv: "lb_inv lbs pw E Ms st" and rpc: "sends rpc" and a: "a < ADDR_RANGE" and tbl: "unat tbl < length (lb_tables st)"
  shows "\<exists>b st'. find_backend rpc (tbl mod lbs) tbl a st = Some (b, st') \<and> goes lbs pw E st st'"
proof (cases "tbl mod lbs = lb_id st")
  case True
  then have ok: "conn_ok pw E (Ms (unat tbl)) (lb_tables st ! unat tbl)" using inv tbl by (simp add: lb_inv_def)
  have lut: "length (lut_backend st) = unat LUT_SIZE" using inv by (simp add: lb_inv_def)
  obtain b st' M' where f: "find_backend rpc (lb_id st) tbl a st = Some (b, st')" "conn_ok pw E M' (lb_tables st' ! unat tbl)"
    "length (lb_tables st') = length (lb_tables st)" "lb_id st' = lb_id st" "lut_backend st' = lut_backend st" "lut_lb st' = lut_lb st"
    "lb_init st' = lb_init st" "\<forall>i. i \<noteq> unat tbl \<longrightarrow> lb_tables st' ! i = lb_tables st ! i"
    using find_backend_owner [OF ok tbl a lut, of rpc] by blast
  then have "fixed st st'" by (simp add: fixed_def)
  then have "goes lbs pw E st st'" unfolding goes_def using lb_inv_update [OF inv _ f(2,8)] by blast
  then show ?thesis using f(1) True by simp
next
  case False
  have "readable (lb_tables st ! unat tbl)" using inv tbl by (simp add: lb_inv_def list_all_length)
  then have at: "array_at (lb_tables st) (unat tbl) = Some (lb_tables st ! unat tbl)"
    "Find_checked size_t_ops a (lb_tables st ! unat tbl) = Some (Find size_t_ops a (lb_tables st ! unat tbl))"
    using tbl by (simp_all add: array_at_def Find_checked_readable)
  show ?thesis
  proof (cases "Find size_t_ops a (lb_tables st ! unat tbl)")
    case None
    define st1 where "st1 = rpc tbl a (st\<lparr>served := served st + 1\<rparr>)"
    have "fixed (st\<lparr>served := served st + 1\<rparr>) st1" "lb_tables st1 = lb_tables (st\<lparr>served := served st + 1\<rparr>)" using rpc unfolding sends_def st1_def by blast+
    then have "fixed st (st1\<lparr>lookup_rpcs := lookup_rpcs st1 + 1, rpc_calls := rpc_calls st1 + 1\<rparr>)" "lb_tables st1 = lb_tables st" by (simp_all add: fixed_def)
    then show ?thesis using None False at goes_same [OF inv] by (simp add: find_backend_def Let_def st1_def)
  next
    case (Some e)
    then show ?thesis using at goes_same [OF inv, of "st\<lparr>served := served st + 1\<rparr>"] by (simp add: find_backend_def Let_def fixed_def)
  qed
qed

lemma remove_address_goes:
  assumes inv: "lb_inv lbs pw E Ms st" and own: "tbl mod lbs = lb_id st" and tbl: "unat tbl < length (lb_tables st)"
  shows "\<exists>st'. remove_address tbl a st = Some st' \<and> goes lbs pw E st st'"
proof -
  have ok: "conn_ok pw E (Ms (unat tbl)) (lb_tables st ! unat tbl)" using inv tbl own by (simp add: lb_inv_def)
  obtain st' where s': "remove_address tbl a st = Some st'" "conn_ok pw E ((Ms (unat tbl))(a := None)) (lb_tables st' ! unat tbl)"
    "fixed st st'" "\<forall>i. i \<noteq> unat tbl \<longrightarrow> lb_tables st' ! i = lb_tables st ! i"
    using remove_address_ok [OF ok tbl, of a] unfolding fixed_def by blast
  then show ?thesis unfolding goes_def using lb_inv_update [OF inv s'(3,2,4)] by blast
qed

lemma recd_goes: "lb_inv lbs pw E Ms st \<Longrightarrow> lb_inv lbs pw E Ms (st\<lparr>rpc_recd := n\<rparr>)"
  by (simp add: lb_inv_def)

lemma event_goes:
  assumes inv: "lb_inv lbs pw E Ms st" and rpc: "sends rpc" and e: "event_ok lbs st e"
  shows "\<exists>st'. deliver rpc (e # es) st = deliver rpc es st' \<and> goes lbs pw E st st'"
proof (cases e)
  case (Find_be a)
  let ?st = "st\<lparr>rpc_recd := rpc_recd st + 1\<rparr>" and ?t = "lut_lb st ! unat (a mod LUT_SIZE)"
  have f: "fixed st ?st" by (simp add: fixed_def)
  show ?thesis
  proof (cases "lb_init st")
    case False
    have "goes lbs pw E st ?st" by (rule goes_same [OF inv f]) simp
    then show ?thesis using Find_be False lut_read [OF inv, of a] by (auto simp: rpc_find_be_def Let_def)
  next
    case True
    have own: "?t mod lbs = lb_id ?st" "a < ADDR_RANGE" using e Find_be by simp_all
    have t: "unat ?t < length (lb_tables ?st)" using lut_target [OF inv, of a] by simp
    obtain b st' where st': "find_backend rpc (?t mod lbs) ?t a ?st = Some (b, st')" "goes lbs pw E ?st st'"
      using find_backend_goes [OF recd_goes [OF inv] rpc own(2) t] by blast
    then have "goes lbs pw E st st'" using f by (auto simp: goes_def intro: fixed_trans)
    then show ?thesis using Find_be True st'(1) own(1) lut_read [OF inv, of a] by (auto simp: rpc_find_be_def Let_def)
  qed
next
  case (Rem a)
  let ?st = "st\<lparr>rpc_recd := rpc_recd st + 1\<rparr>" and ?t = "lut_lb st ! unat (a mod LUT_SIZE)"
  have f: "fixed st ?st" by (simp add: fixed_def)
  have own: "?t mod lbs = lb_id ?st" using e Rem by simp
  have t: "unat ?t < length (lb_tables ?st)" using lut_target [OF inv, of a] by simp
  obtain st' where "remove_address ?t a ?st = Some st'" "goes lbs pw E ?st st'" using remove_address_goes [OF recd_goes [OF inv] own t, of a] by blast
  moreover have "goes lbs pw E st ?st" by (rule goes_same [OF inv f]) simp
  ultimately show ?thesis using Rem lut_read [OF inv, of a] goes_trans [of lbs pw E st ?st st'] by (cases "lb_init st") (auto simp: rpc_rem_def Let_def)
next
  case (Copy tbl t)
  have "lb_inv lbs pw E Ms (set_table tbl t st)"
  proof -
    have "lb_tables (set_table tbl t st) ! unat i = lb_tables st ! unat i" if "i mod lbs = lb_id st" for i
    proof -
      have "i \<noteq> tbl" using that e Copy by auto
      then have "unat i \<noteq> unat tbl" by (simp add: word_unat_eq_iff)
      then show ?thesis by (simp add: set_table_def)
    qed
    moreover have "list_all readable (lb_tables (set_table tbl t st))"
      using inv e Copy set_update_subset_insert [of "lb_tables st" "unat tbl" t] by (auto simp: lb_inv_def set_table_def list_all_iff)
    ultimately show ?thesis using inv by (simp add: lb_inv_def set_table_def)
  qed
  then have "goes lbs pw E st (set_table tbl t st)" by (auto simp: goes_def fixed_def set_table_def)
  then show ?thesis using Copy by auto
qed

lemma deliver_goes:
  assumes "sends rpc"
  shows "lb_inv lbs pw E Ms st \<Longrightarrow> list_all (event_ok lbs st) es \<Longrightarrow> \<exists>st'. deliver rpc es st = Some st' \<and> goes lbs pw E st st'"
proof (induction es arbitrary: st Ms)
  case Nil
  then show ?case by (auto simp: goes_def)
next
  case (Cons e es)
  obtain st1 where st1: "deliver rpc (e # es) st = deliver rpc es st1" "goes lbs pw E st st1" using event_goes [OF Cons.prems(1) assms] Cons.prems(2) by fastforce
  obtain Ms1 where inv: "lb_inv lbs pw E Ms1 st1" "fixed st st1" using st1(2) by (auto simp: goes_def)
  have "list_all (event_ok lbs st1) es" using Cons.prems(2) by (simp add: list_all_iff event_ok_fixed [OF inv(2)])
  from Cons.IH [OF inv(1) this] show ?case using st1 goes_trans by metis
qed

section \<open>The loops\<close>

lemma test_batch_goes:
  assumes "sends rpc" "length flows = FLOWS_IN_SYSTEM" "\<forall>x\<in>set flows. x < ADDR_RANGE"
  shows "lb_inv lbs pw E Ms st \<Longrightarrow> \<exists>seed' st'. test_batch rpc lbs flows n (seed, st) = Some (seed', st') \<and> goes lbs pw E st st'"
proof (induction n arbitrary: seed st Ms)
  case 0
  then show ?case by (auto simp: goes_def)
next
  case (Suc n)
  obtain r seed1 where r: "fast_random seed = (r, seed1)" by (metis surj_pair)
  define x where "x = flows ! (unat r mod FLOWS_IN_SYSTEM)"
  let ?t = "lut_lb st ! unat (x mod LUT_SIZE)"
  have "unat r mod FLOWS_IN_SYSTEM < length flows" using assms(2) by (simp add: FLOWS_IN_SYSTEM_def)
  then have x: "x < ADDR_RANGE" using assms(3) unfolding x_def by (metis nth_mem)
  obtain b st1 where st1: "find_backend rpc (?t mod lbs) ?t x st = Some (b, st1)" "goes lbs pw E st st1"
    using find_backend_goes [OF Suc.prems assms(1) x lut_target [OF Suc.prems]] by blast
  then obtain Ms1 where "lb_inv lbs pw E Ms1 st1" by (auto simp: goes_def)
  from Suc.IH [OF this, of seed1] obtain seed' st' where st': "test_batch rpc lbs flows n (seed1, st1) = Some (seed', st')" "goes lbs pw E st1 st'" by blast
  have "array_at flows (unat r mod FLOWS_IN_SYSTEM) = Some x" "lbs \<noteq> 0"
    using \<open>unat r mod FLOWS_IN_SYSTEM < length flows\<close> Suc.prems by (simp_all add: array_at_def x_def lb_inv_def)
  then have "test_batch rpc lbs flows (Suc n) (seed, st) = test_batch rpc lbs flows n (seed1, st1)"
    using r st1(1) lut_read [OF Suc.prems, of x] by (simp add: Let_def)
  then show ?case using st' goes_trans [OF st1(2)] by auto
qed

lemma test_delete_step:
  assumes inv: "lb_inv lbs pw E Ms st" and rpc: "sends rpc" "sends rem_rpc" and evs: "list_all (event_ok lbs st) (evs rem)"
    and rem: "rem < length deleted"
  shows "\<exists>d' st'. test_delete rpc rem_rpc lbs evs deleted (rem # rs) (d, st) = test_delete rpc rem_rpc lbs evs deleted rs (d', st') \<and> goes lbs pw E st st'"
proof -
  let ?x = "deleted ! rem"
  let ?t = "lut_lb st ! unat (?x mod LUT_SIZE)"
  have at: "array_at deleted rem = Some ?x" "array_at (lut_lb st) (unat (?x mod LUT_SIZE)) = Some ?t" "lbs \<noteq> 0"
    using rem lut_read [OF inv] inv by (simp_all add: array_at_def lb_inv_def)
  have "\<exists>d1 st1. (if ?t mod lbs = lb_id st then do { st \<leftarrow> remove_address ?t ?x st; Some (d, st) }
      else let st = rem_rpc ?t ?x st in Some (d + 1, st\<lparr>rpc_calls := rpc_calls st + 1\<rparr>)) = Some (d1, st1) \<and> goes lbs pw E st st1"
  proof (cases "?t mod lbs = lb_id st")
    case True
    then show ?thesis using remove_address_goes [OF inv True lut_target [OF inv], of ?x] by auto
  next
    case False
    have "fixed st (rem_rpc ?t ?x st)" "lb_tables (rem_rpc ?t ?x st) = lb_tables st" using rpc(2) unfolding sends_def by blast+
    then have "goes lbs pw E st ((rem_rpc ?t ?x st)\<lparr>rpc_calls := rpc_calls (rem_rpc ?t ?x st) + 1\<rparr>)" by (intro goes_same [OF inv]) (simp_all add: fixed_def)
    then show ?thesis using False by (simp add: Let_def)
  qed
  then obtain d1 st1 where d1: "(if ?t mod lbs = lb_id st then do { st \<leftarrow> remove_address ?t ?x st; Some (d, st) }
      else let st = rem_rpc ?t ?x st in Some (d + 1, st\<lparr>rpc_calls := rpc_calls st + 1\<rparr>)) = Some (d1, st1)" and g: "goes lbs pw E st st1" by blast
  then obtain Ms1 where inv1: "lb_inv lbs pw E Ms1 st1" and f: "fixed st st1" by (auto simp: goes_def)
  have "list_all (event_ok lbs st1) (evs rem)" using evs by (simp add: list_all_iff event_ok_fixed [OF f])
  from deliver_goes [OF rpc(1) inv1 this] obtain st' where st': "deliver rpc (evs rem) st1 = Some st'" "goes lbs pw E st1 st'" by blast
  have step: "test_delete rpc rem_rpc lbs evs deleted (rem # rs) (d, st) =
      do { st \<leftarrow> (if rem mod BATCH_SIZE \<noteq> 0 then deliver rpc (evs rem) st1 else Some st1); test_delete rpc rem_rpc lbs evs deleted rs (d1, st) }"
    using at d1 by simp
  show ?thesis
  proof (cases "rem mod BATCH_SIZE \<noteq> 0")
    case True
    then show ?thesis using step st' goes_trans [OF g] by auto
  next
    case False
    then show ?thesis using g unfolding step by (intro exI [of _ d1] exI [of _ st1]) simp
  qed
qed

lemma test_delete_goes:
  assumes "sends rpc" "sends rem_rpc"
  shows "lb_inv lbs pw E Ms st \<Longrightarrow> \<forall>rem\<in>set rs. list_all (event_ok lbs st) (evs rem) \<and> rem < length deleted \<Longrightarrow>
    \<exists>d' st'. test_delete rpc rem_rpc lbs evs deleted rs (d, st) = Some (d', st') \<and> goes lbs pw E st st'"
proof (induction rs arbitrary: d st Ms)
  case Nil
  then show ?case by (auto simp: goes_def)
next
  case (Cons rem rs)
  have e: "list_all (event_ok lbs st) (evs rem)" "rem < length deleted" using Cons.prems(2) by simp_all
  obtain d1 st1 where s1: "test_delete rpc rem_rpc lbs evs deleted (rem # rs) (d, st) = test_delete rpc rem_rpc lbs evs deleted rs (d1, st1)" "goes lbs pw E st st1"
    using test_delete_step [where evs = evs and rem = rem, OF Cons.prems(1) assms e, of rs d] by blast
  then obtain Ms1 where inv: "lb_inv lbs pw E Ms1 st1" "fixed st st1" by (auto simp: goes_def)
  have "\<forall>rem\<in>set rs. list_all (event_ok lbs st1) (evs rem) \<and> rem < length deleted" using Cons.prems(2) by (simp add: list_all_iff event_ok_fixed [OF inv(2)])
  from Cons.IH [OF inv(1) this, of d1] show ?case using s1 goes_trans [OF s1(2)] by auto
qed

text \<open>\<open>generate_flows\<close> takes the flows of the window out, and puts addresses of the range there.\<close>

lemma mod_range: "x mod ADDR_RANGE < ADDR_RANGE"
  by (simp add: ADDR_RANGE_def word_less_nat_alt unat_mod)

lemma first_flows_ok:
  "length (fst (first_flows is (flows, seed))) = length flows \<and>
    (\<forall>i<length flows. fst (first_flows is (flows, seed)) ! i < ADDR_RANGE \<or> i \<notin> set is \<and> fst (first_flows is (flows, seed)) ! i = flows ! i)"
proof (induction "is" arbitrary: flows seed)
  case (Cons j "is")
  obtain r seed1 where r: "fast_random1 seed = (r, seed1)" by (metis surj_pair)
  have "first_flows (j # is) (flows, seed) = first_flows is (flows[j := ucast r mod ADDR_RANGE], seed1)" by (simp add: r)
  then have g: "fst (first_flows (j # is) (flows, seed)) = fst (first_flows is (flows[j := ucast r mod ADDR_RANGE], seed1))" by simp
  note ih = Cons.IH [of "flows[j := ucast r mod ADDR_RANGE]" seed1, folded g]
  have "fst (first_flows (j # is) (flows, seed)) ! i < ADDR_RANGE \<or> i \<notin> set (j # is) \<and> fst (first_flows (j # is) (flows, seed)) ! i = flows ! i"
    if "i < length flows" for i
  proof (cases "i = j")
    case True
    have "flows[j := ucast r mod ADDR_RANGE] ! i < ADDR_RANGE" using True that mod_range [of "ucast r"] by simp
    then show ?thesis using ih that unfolding length_list_update by metis
  next
    case False
    then have f: "flows[j := ucast r mod ADDR_RANGE] ! i = flows ! i" by simp
    have "i < length (flows[j := ucast r mod ADDR_RANGE])" using that by simp
    then have "fst (first_flows (j # is) (flows, seed)) ! i < ADDR_RANGE \<or> i \<notin> set is \<and> fst (first_flows (j # is) (flows, seed)) ! i = flows ! i"
      using conjunct2 [OF ih] unfolding f by (metis f)
    then show ?thesis using False unfolding set_simps insert_iff by argo
  qed
  then show ?case using conjunct1 [OF ih, unfolded length_list_update] by blast
qed simp

lemma generate_flows_ok:
  assumes "generate_flows base is (flows, deleted, seed) = (flows', deleted', seed')" "distinct is"
    "\<forall>i\<in>set is. base + i < length flows \<and> i < length deleted"
  shows "length flows' = length flows \<and> length deleted' = length deleted \<and>
    (\<forall>i<length flows. if i \<in> (\<lambda>j. base + j) ` set is then flows' ! i < ADDR_RANGE else flows' ! i = flows ! i) \<and>
    (\<forall>i<length deleted. deleted' ! i = (if i \<in> set is then flows ! (base + i) else deleted ! i))"
  using assms
proof (induction "is" arbitrary: flows deleted seed)
  case (Cons i "is")
  obtain r seed1 where r: "fast_random1 seed = (r, seed1)" by (metis surj_pair)
  let ?f = "flows[base + i := ucast r mod ADDR_RANGE]" and ?d = "deleted[i := flows ! (base + i)]"
  have go: "generate_flows base is (?f, ?d, seed1) = (flows', deleted', seed')" using Cons.prems(1) r by simp
  have d: "distinct is" "i \<notin> set is" "\<forall>j\<in>set is. base + j < length ?f \<and> j < length ?d" "base + i < length flows" "i < length deleted"
    using Cons.prems(2,3) by simp_all
  note ih = Cons.IH [OF go d(1,3)]
  have "if k \<in> (\<lambda>j. base + j) ` set (i # is) then flows' ! k < ADDR_RANGE else flows' ! k = flows ! k" if "k < length flows" for k
  proof -
    have "if k \<in> (\<lambda>j. base + j) ` set is then flows' ! k < ADDR_RANGE else flows' ! k = ?f ! k" using ih that by simp
    then show ?thesis using mod_range [of "ucast r"] d(4) by (cases "k = base + i") (auto split: if_splits)
  qed
  moreover have "deleted' ! k = (if k \<in> set (i # is) then flows ! (base + k) else deleted ! k)" if "k < length deleted" for k
  proof -
    have "deleted' ! k = (if k \<in> set is then ?f ! (base + k) else ?d ! k)" using ih that by simp
    then show ?thesis using d(2,5) by (cases "k = i") auto
  qed
  moreover have "length flows' = length flows" "length deleted' = length deleted" using ih by simp_all
  ultimately show ?case by blast
qed simp

text \<open>The state of \<open>test\<close> between two rounds.\<close>

definition test_ok :: "u64 \<Rightarrow> nat \<Rightarrow> nat \<Rightarrow> tester \<Rightarrow> bool" where
  "test_ok lbs pw E t \<longleftrightarrow> (\<exists>Ms. lb_inv lbs pw E Ms (t_lb t)) \<and> length (t_flows t) = FLOWS_IN_SYSTEM \<and> (\<forall>x\<in>set (t_flows t). x < ADDR_RANGE) \<and>
     length (t_deleted t) = REPLACEMENT_RATE \<and> replacement_index t < FLOWS_IN_SYSTEM div REPLACEMENT_RATE"

lemma test_report_ok:
  assumes ok: "test_ok lbs pw E t" and rpc: "sends rpc" "sends rem_rpc"
    and gen: "generate_flows (replacement_index t * REPLACEMENT_RATE) [0..<REPLACEMENT_RATE] (t_flows t, t_deleted t, t_seed1 t) = (flows, deleted, seed1)"
  shows "test_ok lbs pw E (t\<lparr>t_flows := flows, t_deleted := deleted, t_seed1 := seed1,
      replacement_index := (replacement_index t + 1) mod (FLOWS_IN_SYSTEM div REPLACEMENT_RATE)\<rparr>)"
proof -
  have t: "length (t_flows t) = FLOWS_IN_SYSTEM" "\<forall>x\<in>set (t_flows t). x < ADDR_RANGE" "length (t_deleted t) = REPLACEMENT_RATE"
    "replacement_index t < 1000" using ok by (simp_all add: test_ok_def FLOWS_IN_SYSTEM_def REPLACEMENT_RATE_def)
  have win: "\<forall>i\<in>set [0..<REPLACEMENT_RATE]. replacement_index t * REPLACEMENT_RATE + i < length (t_flows t) \<and> i < length (t_deleted t)"
    using t by (auto simp: FLOWS_IN_SYSTEM_def REPLACEMENT_RATE_def)
  note g = generate_flows_ok [OF gen distinct_upt win]
  have "flows ! i < ADDR_RANGE" if "i < length (t_flows t)" for i
    using conjunct1 [OF conjunct2 [OF conjunct2 [OF g]]] t(2) that nth_mem [OF that] by (metis (no_types, lifting))
  then have "\<forall>x\<in>set flows. x < ADDR_RANGE" using conjunct1 [OF g] by (auto simp: in_set_conv_nth)
  then show ?thesis using ok g by (simp add: test_ok_def FLOWS_IN_SYSTEM_def REPLACEMENT_RATE_def)
qed

text \<open>A round returns, whatever comes in, and keeps the state well formed.\<close>

lemma test_round_ok:
  assumes ok: "test_ok lbs pw E t" and rpc: "sends rpc" "sends rem_rpc"
    and evs: "list_all (event_ok lbs (t_lb t)) evs" "\<forall>i<REPLACEMENT_RATE. list_all (event_ok lbs (t_lb t)) (evs' i)" "list_all (event_ok lbs (t_lb t)) evs''"
  shows "\<exists>stop t'. test_round rpc rem_rpc lbs secs evs evs' evs'' t = Some (stop, t') \<and> test_ok lbs pw E t' \<and> fixed (t_lb t) (t_lb t')"
proof -
  obtain Ms where inv: "lb_inv lbs pw E Ms (t_lb t)" using ok by (auto simp: test_ok_def)
  have fl: "length (t_flows t) = FLOWS_IN_SYSTEM" "\<forall>x\<in>set (t_flows t). x < ADDR_RANGE" using ok by (simp_all add: test_ok_def)
  obtain seed st1 where b: "test_batch rpc lbs (t_flows t) BATCH_SIZE (t_seed t, t_lb t) = Some (seed, st1)" "goes lbs pw E (t_lb t) st1"
    using test_batch_goes [OF rpc(1) fl inv] by blast
  then obtain Ms1 where inv1: "lb_inv lbs pw E Ms1 st1" "fixed (t_lb t) st1" by (auto simp: goes_def)
  have "list_all (event_ok lbs st1) evs" using evs(1) by (simp add: list_all_iff event_ok_fixed [OF inv1(2)])
  from deliver_goes [OF rpc(1) inv1(1) this] obtain st2 where st2: "deliver rpc evs st1 = Some st2" "goes lbs pw E st1 st2" by blast
  then obtain Ms2 where inv2: "lb_inv lbs pw E Ms2 st2" "fixed (t_lb t) st2" using fixed_trans [OF inv1(2)] by (auto simp: goes_def)
  define t2 where "t2 = t\<lparr>t_seed := seed, t_lb := st2\<rparr>"
  define t3 where "t3 = t2\<lparr>seconds_run := seconds_run t2 + 1\<rparr>"
  have ok2: "test_ok lbs pw E t2" "test_ok lbs pw E t3" using ok inv2(1) by (auto simp: test_ok_def t2_def t3_def)
  have lb2: "t_lb t2 = st2" "t_lb t3 = st2" by (simp_all add: t2_def t3_def)
  define zero where "zero = (\<lambda>st :: balancer. st\<lparr>served := 0, rpc_calls := 0, rpc_recd := 0, lb_writes := 0, fills := 0, lb_removes := 0, lookup_rpcs := 0\<rparr>)"
  obtain flows deleted seed1 where gen: "generate_flows (replacement_index t3 * REPLACEMENT_RATE) [0..<REPLACEMENT_RATE] (t_flows t3, t_deleted t3, t_seed1 t3) =
      (flows, deleted, seed1)" by (metis surj_pair)
  define t4 where "t4 = t3\<lparr>t_flows := flows, t_deleted := deleted, t_seed1 := seed1,
      replacement_index := (replacement_index t3 + 1) mod (FLOWS_IN_SYSTEM div REPLACEMENT_RATE)\<rparr>"
  have ok4: "test_ok lbs pw E t4" unfolding t4_def by (rule test_report_ok [OF ok2(2) rpc gen])
  have z: "lb_inv lbs pw E Ms2 (zero st2)" "fixed (t_lb t) (zero st2)" using inv2 by (simp_all add: lb_inv_def fixed_def zero_def)
  have "length deleted = REPLACEMENT_RATE" using ok4 by (simp add: test_ok_def t4_def)
  then have "\<forall>i\<in>set [0..<REPLACEMENT_RATE]. list_all (event_ok lbs (zero st2)) (evs' i) \<and> i < length deleted" using evs(2) by (simp add: list_all_iff event_ok_fixed [OF z(2)])
  from test_delete_goes [OF rpc z(1) this, of 0] obtain d st3 where st3: "test_delete rpc rem_rpc lbs evs' deleted [0..<REPLACEMENT_RATE] (0, zero st2) = Some (d, st3)"
    "goes lbs pw E (zero st2) st3" by blast
  then obtain Ms3 where inv3: "lb_inv lbs pw E Ms3 st3" "fixed (t_lb t) st3" using fixed_trans [OF z(2)] by (auto simp: goes_def)
  have "list_all (event_ok lbs st3) evs''" using evs(3) by (simp add: list_all_iff event_ok_fixed [OF inv3(2)])
  from deliver_goes [OF rpc(1) inv3(1) this] obtain st4 where st4: "deliver rpc evs'' st3 = Some st4" "goes lbs pw E st3 st4" by blast
  then obtain Ms4 where inv4: "lb_inv lbs pw E Ms4 st4" "fixed (t_lb t) st4" using fixed_trans [OF inv3(2)] by (auto simp: goes_def)
  have ok5: "test_ok lbs pw E (t4\<lparr>t_lb := st4\<rparr>)" using ok4 inv4(1) by (auto simp: test_ok_def)
  have run: "test_round rpc rem_rpc lbs secs evs evs' evs'' t =
      (if \<not> secs \<ge> REPORT_SECS then Some (False, t2) else if seconds_run t3 \<ge> RUN_SECS then Some (True, t3) else Some (False, t4\<lparr>t_lb := st4\<rparr>))"
    using b(1) st2(1) gen st3(1) [unfolded zero_def] st4(1) unfolding test_round_def t2_def [symmetric] t3_def [symmetric] Let_def
    by (simp add: t2_def [symmetric] t3_def [symmetric] t4_def)
  show ?thesis unfolding run using ok2 ok5 lb2 inv2(2) inv4(2) by auto
qed

end
