(* ===== verification/Lb_Demo.thy ===== *)
theory Lb_Demo
  imports Lb_Run
begin

text \<open>
  A load balancer with one table, for the examples, and a name whose offset and skip are both even.
\<close>

definition no_rpc :: "u64 \<Rightarrow> u64 \<Rightarrow> balancer \<Rightarrow> balancer" where
  "no_rpc tbl a st = st"

definition lb_demo :: "(u64, u64) CuckooMap \<Rightarrow> balancer" where
  "lb_demo t = \<lparr>lb_tables = [t], lut_backend = replicate 2048 3, lut_lb = replicate 2048 0, lb_id = 0, lb_init = True, served = 0, lb_writes = 0,
     lb_removes = 0, fills = 0, rpc_calls = 0, lookup_rpcs = 0, rpc_recd = 0\<rparr>"

definition tester_demo :: "(u64, u64) CuckooMap \<Rightarrow> tester" where
  "tester_demo t = \<lparr>t_flows = replicate FLOWS_IN_SYSTEM 7, t_deleted = replicate REPLACEMENT_RATE 0, t_seed = 42, t_seed1 = 31,
     replacement_index = 0, seconds_run = 0, t_lb = lb_demo t\<rparr>"

lemma no_rpc_sends: "sends no_rpc"
  by (simp add: sends_def no_rpc_def)

text \<open>A table with one connection, made by \<open>Create\<close> and \<open>Insert\<close>.\<close>

lemma demo_table: "\<exists>t. conn_ok 7 512 [7 \<mapsto> 5] t"
proof -
  obtain s where s: "cm_ok size_t_ops 7 512 s Map.empty"
    using lb_Create_ok [of 512 128 7 "CuckooMap_Size size_t_ops 512 128" "(main_raw, False)"] by (auto simp: main_raw_def)
  obtain e t where "cm_ok size_t_ops 7 512 t [7 \<mapsto> 5]" using demo_insert [OF s, of 7 5] by auto
  then show ?thesis by (auto simp: conn_ok_def ADDR_RANGE_def split: if_splits)
qed

lemma demo_test_ok:
  assumes "conn_ok 7 512 [7 \<mapsto> 5] t"
  shows "test_ok 1 7 512 (tester_demo t)"
proof -
  have z: "unat i = 0" if "unat i < Suc 0" for i :: u64 using that by simp
  have "lb_inv 1 7 512 (\<lambda>_. [7 \<mapsto> 5]) (lb_demo t)" using assms conn_ok_readable [OF assms] by (auto simp: lb_inv_def lb_demo_def LUT_SIZE_def dest: z)
  then show ?thesis by (auto simp: test_ok_def tester_demo_def FLOWS_IN_SYSTEM_def REPLACEMENT_RATE_def ADDR_RANGE_def)
qed

text \<open>\<open>lbs_0\<close> with 2 in the last byte of the array.\<close>

lemma even_name: "compute_offset_and_skip (lut_name (replicate 63 0 @ [2]) [108, 98, 115] 0) 2048 = (526, 1312)"
  by code_simp

end
