(* ===== verification/Spec2Isabelle.thy ===== *)
theory Spec2Isabelle
  imports Tasvir_Publish Tasvir_Demo Tasvir_Service Tasvir_Runs Kv_Examples Kv_Alloc_Reuse Kv_Scan Cuckoo_Demo Xx_Stream Lb_Demo
begin

text \<open>
  A verification library of Tasvir, a system that replicates memory areas between the threads of a node and
  between nodes, of its key-value store application, of the cuckoo hash map of its applications and of the load
  balancer that uses it.

  \<^bold>\<open>The program.\<close> Every thread of a node maps the same data region twice: a copy that readers see and a
  copy that the writer of an area changes. A writer marks what it changes in a log with one bit for every
  64 bytes (\<open>tasvir_log\<close>). At an internal synchronisation the threads of a node meet at a barrier, share
  the areas in chunks, walk the log of each chunk and copy the dirty lines from the writer copy to the
  reader copy, moving the dirty bits of areas that live on the node to a private log of the area. At an
  external synchronisation the daemon walks the private log and sends the dirty lines to the other nodes,
  as a stream of versioned messages that the daemon there applies. Areas are described by descriptors that
  live in container areas; creating and deleting areas, changing owners and adding users are remote calls to
  the owner of the container. The service loop receives messages, schedules both synchronisations and runs the
  functions called. The applications keep their data in areas: a dictionary in the key-value store, tables of connections in the
  load balancer.

  \<^bold>\<open>The theories and the code.\<close> Paths are relative to src/.

  \<^item> Tasvir_Prelude: machine integers, the processor intrinsics, shared lemmas.
  \<^item> Tasvir_Layout: include/tasvir/defs.h and the address translations of include/tasvir/tasvir.h.
  \<^item> Tasvir_Log: the dirty log (\<open>tasvir_log\<close>, include/tasvir/tasvir.h), and which lines it marks.
  \<^item> Tasvir_State: the structures of include/tasvir/types.h and src/tasvir.h. Memory is a function from
    word addresses to 64-bit words, one for each of the two copies and one for the log; a thread has its local
    data, a node its data shared by its threads. What is not under src/ (DPDK rings, packet pool and port, the
    clock, the steps of other threads, the functions an application registers) is the record \<open>env\<close>, an
    argument of every operation that calls it. \<open>fifo_env\<close> and \<open>fair_env\<close> of Tasvir_Stream state what the proofs need of it: rings are queues,
    the device sends a prefix of what it is offered, and refusals of the device and shortages of the pool do not go on
    for ever. \<open>list_env\<close> of Tasvir_Examples satisfies them.
  \<^item> Tasvir_Port: src/utils.h (network header) and the transmit side of src/service.c, and the generation of
    memory messages of src/sync.c.
  \<^item> Tasvir_Sync: src/sync.c. Tasvir_Scan proves its bit scan equal to a reference that looks at one bit at a
    time; Tasvir_Isync proves the effect of the walk and of the copy of the ranges; Tasvir_Publish puts the
    log, a write and a synchronisation together, and Tasvir_Job follows a whole job of src/sync_internal.c, chunk
    by chunk to its end.
  \<^item> Tasvir_Area: src/area.c; Tasvir_Alloc proves the layout of new areas and the invariant of containers.
  \<^item> Tasvir_Sync_Internal: src/sync_internal.c as one thread sees it; Tasvir_Barrier: the same barrier and the
    sharing of a job, with every atomic operation a step of its own, any number of threads and any
    interleaving, of one round; Tasvir_Runs: two concrete runs.
  \<^item> Tasvir_Sync_External: src/sync_external.c; Tasvir_Stream proves that what one node sends is what the other
    ends up with.
  \<^item> Tasvir_Rpc: src/rpc.c; Tasvir_Marshal proves that the bytes of the arguments are at their offsets. A message buffer has a fixed
    number of words with whatever they held before. Of a message that goes to another node only \<open>pkt_len\<close> bytes are sent, which hold the
    result and the arguments; the model passes on the whole buffer.
  \<^item> Tasvir_Stat, Tasvir_Init, Tasvir_Service: src/stat.c, src/init.c, src/service.c.
  \<^item> Kv_Siphash: apps/kvstore/siphash.c and the reference it is proved equal to, which is written from the definition of SipHash, shares
    no definition with the code and reproduces a published test vector.
  \<^item> Kv_Mem: the byte memory of the store, C strings, loads and stores; a null dereference is the result None.
  \<^item> Kv_Alloc: apps/kvstore/alloc.c. The locales \<open>pool_free\<close> and \<open>pool\<close> state what a client may rely on, and
    the code's free list is an instance. Kv_Alloc_Reuse: a block given back is handed out next.
  \<^item> Kv_Dict, Kv_Dict_Iter: apps/kvstore/dict.c and dict.h. Kv_Dict_Spec and Kv_Dict_Delete prove, in the
    locale \<open>dict_contract\<close> over what the dictionary requires of its callbacks, that find, add, replace and delete
    act on the chains in memory as on a finite map. Kv_Bits: the bit tricks of dict.c; Kv_Scan: \<open>dictScan\<close>.
  \<^item> Kv_Alloc_Dict: apps/kvstore/alloc_dict.c, and the operations \<open>update\<close> and \<open>get\<close> of main.c. Kv_Store shows that
    these callbacks satisfy the contract (the interpretation \<open>store\<close>) and proves the operations of the
    store; Kv_Init that initialisation gives an empty store.
  \<^item> Cuckoo_Map: apps/cuckoo-map/cuckoo_map.h, for any types of keys and values; what the code needs of them is the
    record \<open>key_ops\<close>. Cuckoo_Space follows \<open>MakeSpace\<close>: every path is a sequence of moves of entries to their second
    buckets, and moves lead closer to a table where nothing moves. Cuckoo_Spec ties slots, entries and the stack of free
    entries together in the invariant \<open>cm_ok\<close> and proves lookup, insertion and removal, in the locale \<open>key_laws\<close>.
    Cuckoo_Iter: creation, clearing and the iterator. Cuckoo_Demo: apps/cuckoo-map/main.cc, with both its key types
    as interpretations of \<open>key_laws\<close>, and the calls of \<open>Insert\<close> that do not return.
  \<^item> Xx_Hash: apps/cuckoo-lb/xxhash.c, on lists of bytes, with the byte order of the processor as an argument. Xx_Stream proves that
    the reads do not depend on it, and that the streaming interface computes the same hash.
  \<^item> Lb_Lut: apps/cuckoo-lb/generate_lut.h, and exactly when its loop ends. Lb_Balancer: the creation of tables of
    apps/cuckoo-lb/cuckoo_map.h (the rest of that file is the text of Cuckoo_Map), and lookup and removal of
    apps/cuckoo-lb/main.cc, at the owner of a table and elsewhere. Lb_Run: the loop of \<open>test\<close> there, round by round; what comes
    in during \<open>tasvir_service\<close> is a list of events, an argument. Tables of other processes are only assumed to have their indices
    in range, and every read of them is checked.
  \<^item> Tasvir_Examples, Tasvir_Demo, Kv_Examples, Lb_Demo: concrete states for the examples.

  \<^bold>\<open>What is proved.\<close> C1--C6: what a writer logs, readers see after a synchronisation, of a range and of a whole job; the log
  is exact; the optimised scan is equivalent to its reference and stays within its arrays. C7--C10: private logs
  and children of containers do not overlap; an area created is found by its name; the refusals. C11--C13:
  under every interleaving of a round all threads leave the barrier with one answer, success means that all arrived,
  and a shared job is finished exactly once, every chunk done, its calls ending. C14--C17: replication from one node to the
  other, and gaps. C18: remote calls. C19--C20: the hash and the allocator. C21--C26: the
  dictionary refines a finite map, its errors, and the store's round trip. C27--C28: initialisation and the
  completeness of a scan. C29--C34: the cuckoo map refines a finite map and its insertion ends,
  what its program computes, and where an insertion does not end. C35--C36: the streaming hash equals the hash of the whole message, and
  its canonical form is portable. C37--C38: when the generation of the lookup table ends. C39--C40: connections stick to their
  backends, and every round of the load balancer returns and keeps its tables.

  \<^bold>\<open>Loops and fuel.\<close> Loops with a bound are structural recursion or \<open>function\<close> with a measure. Loops whose end
  depends on other threads, on the clock, on the shape of a list in memory or on a hash table are \<open>partial_function (option)\<close>:
  None stands for not returning, and also for a failed assertion or a null dereference. \<open>knot n\<close> closes the
  recursion between the service loop, remote calls and the functions they run, \<open>n\<close> deep; no property depends
  on the depth, since the operations take the calls as an argument.

  \<^bold>\<open>Not modelled.\<close> The start of DPDK, command lines and the daemon's main function (glue around a library that
  is not part of the repository); log output; the benchmark loops and the input parsing of
  apps/kvstore; the text that \<open>dictGetStats\<close> prints; the start of the load balancer (areas, registration, waiting
  for tables); the other applications (OpenFlow table, monitor, routing, counter, the benchmark of the cuckoo map), which are drivers of
  benchmarks, and their copies of the cuckoo map; the C++
  optimisation library of apps/cyclades and its scripts. Data races between plain accesses of different threads are not part of the memory
  model: the steps of other threads come in at the points where the code waits, and in Tasvir_Barrier at
  every atomic operation.
\<close>

section \<open>Writing, logging and publishing\<close>

text \<open>
  C1. One internal synchronisation of a range publishes it: if the two copies agreed on every line
  that is not marked dirty, then after the walk and the copy the reader copy equals the writer copy
  on the whole range, the writer copy is unchanged, and no line of the range is dirty any more.
\<close>

theorem internal_sync_publishes:
  assumes "parse_ready s d offset len" "clean_agree s (range_first s d offset) (unat len div 64)"
  shows "\<exists>b s'. sync_range E d offset len s = Some (b, s') \<and>
    (\<forall>a. data_word a \<longrightarrow> range_first s d offset \<le> line_of a \<longrightarrow>
       line_of a < range_first s d offset + unat len div 64 \<longrightarrow>
       m_ro s' a = m_rw s a \<and> m_rw s' a = m_rw s a \<and> \<not> log_dirty (m_log s') (line_of a))"
  using sync_range_publishes [OF assms, of E] by blast

theorem internal_sync_publishes_witness:
  "\<exists>b s'. sync_range list_env demo_d 0 0x8000 demo = Some (b, s') \<and>
     m_ro demo (demo_h + 64) = 0 \<and> m_ro s' (demo_h + 64) = 42"
proof -
  from internal_sync_publishes [OF demo_ready demo_agree, of list_env] demo_line demo_first
  obtain b s' where "sync_range list_env demo_d 0 0x8000 demo = Some (b, s')" "m_ro s' (demo_h + 64) = m_rw demo (demo_h + 64)"
    by auto
  then show ?thesis by (auto simp: demo_defs)
qed

text \<open>
  C2. A whole job of an internal synchronisation publishes its area: a thread that takes the job of an
  area alone walks all its chunks, however many there are, copies what they left, finishes the job and
  returns. For every word of the logged part of the area, apart from the header fields the job writes
  itself, the reader copy then has the writer's value if its line was dirty and its own otherwise, the
  writer copy is unchanged, and no line is dirty. Nothing is assumed of the two copies: the local first line of the
  header and the version, which are clean and differ between the copies, are covered.
\<close>

theorem job_publishes_area:
  assumes "job_ready i s" "d = j_d (job i s)" "tot = unat (rd s (d_offset_log_end d))"
  shows "\<exists>s'. tasvir_sync_internal_job E i s = Some (True, s') \<and>
    (\<forall>a. data_word a \<longrightarrow> range_first s d 0 \<le> line_of a \<longrightarrow> line_of a < range_first s d 0 + tot div 64 \<longrightarrow>
       a \<notin> finish_words s (rd s (d_h d)) \<longrightarrow>
       m_rw s' a = m_rw s a \<and> m_ro s' a = (if log_dirty (m_log s) (line_of a) then m_rw s a else m_ro s a) \<and>
       \<not> log_dirty (m_log s') (line_of a))"
  by (rule job_publishes [OF assms])

theorem job_publishes_area_witness:
  "\<exists>s'. tasvir_sync_internal_job list_env 0 demo_job = Some (True, s') \<and>
    m_ro demo_job (demo_h + 0x1000) = 0 \<and> m_ro s' (demo_h + 0x1000) = 42"
proof -
  obtain s' where s': "tasvir_sync_internal_job list_env 0 demo_job = Some (True, s')"
    "\<forall>a. data_word a \<longrightarrow> 512 \<le> line_of a \<longrightarrow> line_of a < 1024 \<longrightarrow> a \<notin> finish_words demo_job demo_h \<longrightarrow>
       m_ro s' a = (if log_dirty (m_log demo_job) (line_of a) then m_rw demo_job a else m_ro demo_job a)"
    using job_publishes_area [OF demo_job_ready refl refl, of list_env] by (auto simp: demo_job_sel demo_job_log)
  have "demo_h + 0x1000 \<notin> finish_words demo_job demo_h" by (simp add: finish_words_def demo_job_defs)
  then have "m_ro s' (demo_h + 0x1000) = m_rw demo_job (demo_h + 0x1000)" using s'(2) demo_job_dirty by simp
  then show ?thesis using s'(1) by (auto simp: demo_job_defs)
qed

text \<open>
  C3. A logged write reaches the readers: storing a word through a page mapped for writing, logging
  it and synchronising the range it lies in makes the reader copy hold the new value; the two copies
  agree on the clean lines of the range again.
\<close>

theorem logged_write_published:
  fixes s :: "('p, 'r, 'n) tasvir" and E :: "('p, 'r, 'n) env"
  assumes "va_rw s a" "data_word a" "parse_ready (store_logged a v s) d offset len"
    and "clean_agree s (range_first (store_logged a v s) d offset) (unat len div 64)"
    and "range_first (store_logged a v s) d offset \<le> line_of a"
      "line_of a < range_first (store_logged a v s) d offset + unat len div 64"
  shows "\<exists>b s'. sync_range E d offset len (store_logged a v s) = Some (b, s') \<and> m_ro s' a = v \<and> m_rw s' a = v \<and>
    clean_agree s' (range_first (store_logged a v s) d offset) (unat len div 64)"
proof -
  obtain b s' where "sync_range E d offset len (store_logged a v s) = Some (b, s')"
    "\<forall>x. data_word x \<longrightarrow> range_first (store_logged a v s) d offset \<le> line_of x \<longrightarrow>
       line_of x < range_first (store_logged a v s) d offset + unat len div 64 \<longrightarrow>
       m_ro s' x = m_rw (store_logged a v s) x \<and> m_rw s' x = m_rw (store_logged a v s) x"
    using sync_range_publishes [OF assms(3) logged_write_agree [OF assms(4,2,1)], of E] by blast
  then show ?thesis using assms m_rw_store_logged [OF assms(1), of v] by (auto simp: clean_agree_def)
qed

theorem logged_write_published_witness:
  "\<exists>b s'. sync_range list_env demo_d 0 0x8000 (store_logged (demo_h + 64) 7 (demo\<lparr>va_rw := (\<lambda>x. x = demo_h + 64)\<rparr>)) = Some (b, s') \<and>
     m_ro s' (demo_h + 64) = 7"
proof -
  let ?s = "demo\<lparr>va_rw := (\<lambda>x. x = demo_h + 64)\<rparr>"
  let ?t = "store_logged (demo_h + 64) 7 ?s"
  have rd: "rd ?t (demo_d + 8) = demo_h" "rd ?t demo_h = 0" "tdata_idx ?t = 0" "tdata (ndata ?t) = [null_tdata]" "my_tdata ?t = null_tdata"
    by (simp_all add: store_logged_def tlog_def wr_def rd_def my_tdata_def demo_defs)
  then have ready: "parse_ready ?t demo_d 0 0x8000" and first: "range_first ?t demo_d 0 = 512"
    by (simp_all add: parse_ready_def Let_def private_log_def tasvir_area_is_local_def has_flag_def log_words_def null_tdata_def
        null_sync_list_ok demo_h_def range_first_def)
  have "clean_agree ?s (range_first ?t demo_d 0) (unat (0x8000 :: u64) div 64)"
    using demo_agree unfolding first demo_first by (simp add: clean_agree_def)
  from logged_write_published [OF _ _ ready this, of list_env] demo_line first show ?thesis by auto
qed

text \<open>
  C4. The log is exact: \<open>tasvir_log(data, len)\<close> marks the 64-byte lines that the \<open>len\<close> bytes from \<open>data\<close>
  touch, and no other line.
\<close>

theorem log_marks_touched_lines:
  assumes "0 < len" "unat data mod 2 ^ 40 + unat len \<le> 2 ^ 40" "n < 2 ^ 34"
  shows "log_dirty (tasvir_log data len log) n \<longleftrightarrow>
     log_dirty log n \<or> line_of data \<le> n \<and> n \<le> (unat data mod 2 ^ 40 + unat len - 1) div 64"
  by (rule tasvir_log_dirty [OF assms])

theorem log_marks_touched_lines_witness:
  "log_dirty (tasvir_log 0x1000000003C 8 (\<lambda>_. 0)) 1 \<and> \<not> log_dirty (tasvir_log 0x1000000003C 8 (\<lambda>_. 0)) 2"
  using log_marks_touched_lines [of 8 "0x1000000003C" 1 "\<lambda>_. 0"] log_marks_touched_lines [of 8 "0x1000000003C" 2 "\<lambda>_. 0"]
  by (simp add: line_of_def log_dirty_def)

text \<open>
  C5. The optimised scan of a block of eight log units (skipping zero units with the mask, runs of
  equal bits with \<open>lzcnt\<close>) gives exactly what the scan of its 512 bits one at a time gives.
\<close>

theorem scan_block_reference:
  assumes "length vs = 8"
  shows "scan_units vs (one_mask_of vs OR push_bit 8 1) 0 c = scan_bits (units_bits vs) c"
  using scan_units_bits [OF assms, of 0 c] by simp

theorem scan_block_reference_witness:
  "scan_units (replicate 8 5) (one_mask_of (replicate 8 5) OR push_bit 8 1) 0 \<lparr>lbits0 = 0, lbits1 = 0, off = 0, lbits1_total = 0, sync_l = null_sync_list\<rparr>
     = scan_bits (units_bits (replicate 8 5)) \<lparr>lbits0 = 0, lbits1 = 0, off = 0, lbits1_total = 0, sync_l = null_sync_list\<rparr>"
  by (rule scan_block_reference) simp

text \<open>
  C6. Scanning a block never overruns the array of 512 ranges when at most 255 are in use, adds at
  most 256, and the ranges together with the open run cover exactly the lines of the set bits.
\<close>

theorem scan_block_bound:
  assumes "length vs = 8" "cnt (sync_l c) \<le> 255" "scan_ok c" "scan_end c + 512 \<le> 2 ^ 34" "lbits1 c + 512 < 2 ^ 26"
  shows "\<exists>c'. scan_units vs (one_mask_of vs OR push_bit 8 1) 0 c = Some c' \<and> scan_ok c' \<and>
    cnt (sync_l c') \<le> cnt (sync_l c) + 256 \<and> covered c' = covered c \<union> bit_lines (scan_end c) (units_bits vs)"
proof -
  have "(512 + of_bool (lbits0 c \<noteq> 0)) div 2 = (256 :: nat)" by (cases "lbits0 c = 0") simp_all
  then obtain c' where c': "scan_bits (units_bits vs) c = Some c'" "cnt (sync_l c') \<le> cnt (sync_l c) + 256"
    using scan_bits_bound [of c "units_bits vs"] assms by (auto simp: TASVIR_SYNC_LIST_LEN_def)
  then show ?thesis
    using scan_bits_cov [OF c'(1) assms(3)] scan_units_bits [OF assms(1), of 0 c] assms by auto
qed

theorem scan_block_bound_witness:
  "\<exists>c'. scan_units (replicate 8 5) (one_mask_of (replicate 8 5) OR push_bit 8 1) 0 \<lparr>lbits0 = 0, lbits1 = 0, off = 0, lbits1_total = 0, sync_l = null_sync_list\<rparr>
     = Some c' \<and> cnt (sync_l c') \<le> 256"
  using scan_block_bound [of "replicate 8 5" "\<lparr>lbits0 = 0, lbits1 = 0, off = 0, lbits1_total = 0, sync_l = null_sync_list\<rparr>"]
  by (auto simp: null_sync_list_def scan_ok_def list_wf_def pending_def scan_end_def TASVIR_SYNC_LIST_LEN_def)

section \<open>Memory layout and areas\<close>

text \<open>
  C7. The four private logs of a new area lie behind its metadata and all of its data, do not overlap, end
  inside the area, and each has one bit for every line of the logged part, which includes the metadata and,
  except in a container, the data.
\<close>

theorem new_area_log_layout:
  assumes "meta_bytes x + unat (a_len x) < 2 ^ 61" "i < 4"
  shows "meta_bytes x + unat (a_len x) \<le> unat (offset_log_of x) \<and>
    unat (log_end_of x) \<le> unat (offset_log_of x) + i * unat (size_log_of x) \<and>
    unat (offset_log_of x) + (i + 1) * unat (size_log_of x) \<le>
      unat (offset_log_of x + TASVIR_ALIGN (of_nat TASVIR_NR_AREA_LOGS * size_log_of x)) \<and>
    512 * unat (size_log_of x) = unat (log_end_of x) \<and>
    meta_bytes x + (if a_type x = AREA_TYPE_CONTAINER then 0 else unat (a_len x)) \<le> unat (log_end_of x)"
  using new_area_logs [OF assms] by (simp add: log_bytes_def)

theorem new_area_log_layout_witness:
  "512 * unat (size_log_of shop_desc) = unat (log_end_of shop_desc) \<and>
   meta_bytes shop_desc + unat (a_len shop_desc) \<le> unat (offset_log_of shop_desc)"
  using new_area_log_layout [of shop_desc 0] by (simp add: shop_desc_def meta_bytes_def)

text \<open>
  C8. Allocating a descriptor keeps the container well formed: the new area is the next child, carries
  the requested name and size, lies behind its siblings and before the logs of the container, and no
  two children overlap or have the same name.
\<close>

theorem new_child_keeps_container:
  assumes "container_ok s p" "a_pd desc = p" "p \<noteq> 0" "length (a_name desc) = 4" "unat (a_len desc) < 2 ^ 62"
    and "alloc_slot desc s = Some (d, hh, s1)" "d \<noteq> root_desc s"
  shows "\<exists>s'. new_alloc_desc_owner E desc s = (d, s') \<and> container_ok s' p \<and> nr_children s' p = Suc (nr_children s p) \<and>
    d = child (tasvir_data s' p) (nr_children s p) \<and> child_name s' p (nr_children s p) = desc_name desc \<and>
    area_first s' d = unat hh \<and> area_end s' d = unat hh + unat (a_len desc)"
  using new_alloc_desc_container [OF assms, of E] by blast

theorem new_child_keeps_container_witness:
  "\<exists>d s'. new_alloc_desc_owner list_env shop_desc root_demo = (d, s') \<and> container_ok s' demo_d \<and> nr_children s' demo_d = 1 \<and>
     area_first s' d = 0x10000010000"
proof -
  obtain s1 where s1: "alloc_slot shop_desc root_demo = Some (child (tasvir_data root_demo demo_d) 0, 0x10000010000, s1)"
    using root_slot by blast
  show ?thesis
    using new_child_keeps_container [OF root_container(1) _ _ _ _ s1 root_child, of list_env] root_container(2)
    by (auto simp: shop_desc_def demo_d_def)
qed

text \<open>
  C9. An area that was created is found by its name: \<open>tasvir_area_get_by_name\<close> returns the new
  descriptor.
\<close>

theorem create_then_lookup:
  assumes "container_ok s p" "a_pd desc = p" "p \<noteq> 0" "length (a_name desc) = 4" "unat (a_len desc) < 2 ^ 62"
    and "alloc_slot desc s = Some (d, hh, s1)" "d \<noteq> root_desc s"
    and "rd s (d_type p) = AREA_TYPE_CONTAINER" "rd s (d_h p) \<noteq> 0" "rd s (h_d (rd s (d_h p))) \<noteq> 0"
  shows "\<exists>s'. new_alloc_desc_owner E desc s = (d, s') \<and> tasvir_area_get_by_name s' p (desc_name desc) = d"
proof -
  obtain s' where s': "new_alloc_desc_owner E desc s = (d, s')" "container_ok s' p" "nr_children s' p = Suc (nr_children s p)"
    "d = child (tasvir_data s' p) (nr_children s p)" "child_name s' p (nr_children s p) = desc_name desc"
    "rd s' (d_type p) = rd s (d_type p)" "rd s' (d_h p) = rd s (d_h p)" "rd s' (h_d (rd s (d_h p))) = rd s (h_d (rd s (d_h p)))"
    using new_alloc_desc_container [OF assms(1-7), of E] by blast
  have "tasvir_area_get_by_name s' p (child_name s' p (nr_children s p)) = child (tasvir_data s' p) (nr_children s p)"
    using s' assms(3,8-10) by (intro get_by_name_child) (auto simp: container_ok_def)
  then show ?thesis using s' by auto
qed

theorem create_then_lookup_witness:
  "\<exists>d s'. new_alloc_desc_owner list_env shop_desc root_demo = (d, s') \<and> tasvir_area_get_by_name s' demo_d (desc_name shop_desc) = d \<and> d \<noteq> demo_d"
proof -
  obtain s1 where s1: "alloc_slot shop_desc root_demo = Some (child (tasvir_data root_demo demo_d) 0, 0x10000010000, s1)"
    using root_slot by blast
  have "a_pd shop_desc = demo_d" "demo_d \<noteq> 0" "length (a_name shop_desc) = 4" "unat (a_len shop_desc) < 2 ^ 62"
    "rd root_demo (d_type demo_d) = AREA_TYPE_CONTAINER" "rd root_demo (d_h demo_d) \<noteq> 0" "rd root_demo (h_d (rd root_demo (d_h demo_d))) \<noteq> 0"
    by (simp_all add: shop_desc_def root_defs)
  from create_then_lookup [OF root_container(1) this(1-4) s1 root_child this(5-7), of list_env] root_child root_rd(2)
  show ?thesis by auto
qed

text \<open>
  C10. The owner of a container refuses a new area of less than \<open>2\<^sup>6\<^sup>2\<close> bytes exactly when the container has
  no descriptor left, has a child of that name, or when the area, begun at the first aligned address behind
  the descriptors and all children, would reach the logs of the container; it then returns NULL and leaves
  everything as it was. The sums are of numbers, they do not wrap around; for longer areas the test of the
  code can.
\<close>

theorem new_child_refused:
  assumes "container_ok s p" "a_pd desc = p" "p \<noteq> 0" "unat (a_len desc) < 2 ^ 62"
  shows "(alloc_slot desc s = None \<longleftrightarrow> unat (rd s (d_nr_areas_max p)) \<le> nr_children s p \<or>
      (\<exists>i < nr_children s p. strn_eq TASVIR_STRLEN_MAX (child_name s p i) (desc_name desc)) \<or>
      unat (rd s (l_data (h_diff_log (rd s (d_h p)) 0))) \<le> ceil_to 32768 (used_end s p) + unat (a_len desc)) \<and>
    (alloc_slot desc s = None \<longrightarrow> new_alloc_desc_owner E desc s = (0, s))"
  using assms new_alloc_desc_fails [of desc s E] alloc_slot_None [of desc s]
    alloc_room_nat [OF assms(1,4)] used_end_last [OF assms(1)]
  by (simp add: Let_def word_le_nat_alt)

theorem new_child_refused_witness:
  "new_alloc_desc_owner list_env (shop_desc\<lparr>a_len := 0x10000000\<rparr>) root_demo = (0, root_demo)"
proof -
  have "unat (rd root_demo (l_data (h_diff_log (rd root_demo (d_h demo_d)) 0))) \<le>
      ceil_to 32768 (used_end root_demo demo_d) + 0x10000000"
    using ceil_to_ge [of 32768 "used_end root_demo demo_d"] by (simp add: used_end_def root_container(2)) (simp add: root_defs)
  then show ?thesis
    using new_child_refused [OF root_container(1), of "shop_desc\<lparr>a_len := 0x10000000\<rparr>" list_env]
    by (simp add: shop_desc_def) (simp add: demo_d_def)
qed

section \<open>The threads of a node\<close>

text \<open>
  C11. Whatever the interleaving of the threads of a round, any two calls of the barrier that have returned
  have returned the same answer, the calls turned away by the first test included: all threads go on with
  the synchronisation or none does. It needs the count of the round to be right: with a count below the
  number of threads, one could succeed and a later one be turned away.
\<close>

theorem barrier_agreement:
  assumes "barrier_run T seq b" "i \<in> T" "j \<in> T" "returned b i = Some x" "returned b j = Some y"
  shows "x = y"
proof -
  note inv = barrier_run_inv [OF assms(1)]
  show ?thesis
    using returned_seq [OF inv assms(2,4)] returned_seq [OF inv assms(3,5)] by (auto split: if_splits)
qed

theorem barrier_agreement_witness:
  "barrier_run {0, 1} 5 meet \<and> returned meet 0 = Some True \<and> returned meet 1 \<noteq> Some False"
  using barrier_agreement [OF two_meet(1), of 0 1 True False] two_meet by (auto simp: returned_def)

text \<open>
  C12. A thread leaves the barrier with success only after every thread of the round has arrived: none
  is still before its decrement, none was turned away, and the counter is zero.
\<close>

theorem barrier_success_means_all_arrived:
  assumes "barrier_run T seq b" "i \<in> T" "b_pc b i = B_ret True"
  shows "b_cnt b = 0 \<and> (\<forall>j\<in>T. b_pc b j \<notin> {B_start, B_dec, B_stale})"
proof -
  have out: "outside T b = {}" "b_cnt b = of_nat (card (outside T b))"
    using barrier_run_inv [OF assms(1)] assms(2,3) by (auto simp: barrier_inv_def)
  then have "b_cnt b = 0" by simp
  then show ?thesis using out(1) by (auto simp: outside_def)
qed

theorem barrier_success_means_all_arrived_witness:
  "\<exists>b. barrier_run {0, 1} 5 b \<and> b_pc b 0 = B_ret True \<and> b_cnt b = 0"
  using barrier_success_means_all_arrived [OF two_meet(1), of 0] two_meet by auto

text \<open>
  C13. Threads that share a job never walk the same bytes twice; the header of the area is updated exactly
  when all bytes of the area have been walked and copied, and at most once; when no thread is in a call any
  more and one has claimed something, it has been updated exactly once, all bytes are done and
  \<open>bytes_seen\<close> is their number, the last chunk cut at the end of the area; and the calls end: a thread in a
  call can always go on, and every step of a call takes from the work that is left. The hypothesis is that
  \<open>offset\<close>, to which every claim adds a chunk, has not wrapped around.
\<close>

theorem shared_job_finishes_once:
  assumes "share_run T bytes area_len c" "unwrapped bytes c" "0 < bytes" "0 < area_len" "finite T"
  shows "(let done = chunk_span (unat bytes) (unat area_len) (c_done c);
              mine = (\<lambda>i. chunk_span (unat bytes) (unat area_len) (c_mine c i)) in
    c_finished c \<le> 1 \<and> (c_finished c = 1 \<longleftrightarrow> done = {..<unat area_len}) \<and>
    (\<forall>i j. i \<noteq> j \<longrightarrow> mine i \<inter> mine j = {}) \<and> (\<forall>i. mine i \<inter> done = {}) \<and>
    ((\<forall>i. c_pc c i = J_out) \<and> c_adds c \<noteq> 0 \<longrightarrow>
      c_finished c = 1 \<and> done = {..<unat area_len} \<and> c_bytes_seen c = area_len) \<and>
    (\<forall>i\<in>T. c_pc c i \<noteq> J_out \<longrightarrow> (\<exists>c'. share_step bytes area_len i c c') \<and>
      (\<forall>c'. share_step bytes area_len i c c' \<and> unwrapped bytes c' \<longrightarrow>
        job_work T area_len c' < job_work T area_len c)))"
proof -
  let ?b = "unat bytes" and ?t = "unat area_len"
  have pos: "0 < ?b" "0 < ?t" using assms(3,4) by (simp_all add: word_less_nat_alt)
  have inv: "share_inv ?b ?t c" using share_run_inv [OF assms(1-4)] .
  then have sub: "c_done c \<subseteq> chunks ?b ?t (c_adds c * ?b)" "\<And>i. c_mine c i \<subseteq> chunks ?b ?t (c_adds c * ?b)"
    by (auto simp: share_inv_def)
  then have "c_done c \<subseteq> chunks ?b ?t ?t" by (auto simp: chunks_def)
  note whole = chunk_span_whole [OF pos(1) this]
  note dis = chunk_span_disjoint [OF pos(1)]
  have fin: "c_finished c = of_bool (c_done c = chunks ?b ?t ?t)" using inv by (simp add: share_inv_def)
  have 1: "c_mine c i \<inter> c_mine c j = {}" if "i \<noteq> j" for i j using inv that by (simp add: share_inv_def)
  have 2: "c_mine c i \<inter> c_done c = {}" for i using inv by (simp add: share_inv_def)
  have quiet: "c_finished c = 1 \<and> chunk_span ?b ?t (c_done c) = {..<?t} \<and> c_bytes_seen c = area_len"
    if "\<forall>i. c_pc c i = J_out" "c_adds c \<noteq> 0"
    using share_quiet [OF inv pos] that by simp
  have work: "job_work T area_len c' < job_work T area_len c"
    if "i \<in> T" "c_pc c i \<noteq> J_out" "share_step bytes area_len i c c'" "unwrapped bytes c'" for i c'
    using share_step_work [OF that(3,2) assms(5) that(1) inv that(4) assms(3)] .
  show ?thesis
    unfolding Let_def using fin whole dis [OF sub(2) sub(2) 1] dis [OF sub(2) sub(1) 2] quiet work share_enabled
    by auto
qed

theorem shared_job_finishes_once_witness:
  "share_run {0} 64 100 job1 \<and> c_finished job1 = 1 \<and> chunk_span 64 100 (c_done job1) = {..<100}"
  using shared_job_finishes_once [OF one_job(1,2)] one_job by (auto simp: Let_def)

section \<open>Replication between nodes\<close>



text \<open>
  C15. Receiving a range: a node that expects the first byte of a stream and handles its messages in
  order ends with the bytes of the sender in the range of its writer copy, every other word
  untouched (the bookkeeping of the header apart), exactly the lines of the range added to its dirty
  log, and, when the stream was the last of its version, the area active and no longer pending.
\<close>

theorem receiver_applies_stream:
  fixes s :: "('p, 'r, 'n) tasvir" and E :: "('p, 'r, 'n) env"
  assumes "mem_stream d v is_last mem p n prev ms" "rd s (d_h d) = hh" "hh \<noteq> 0" "rx_ready s hh v prev"
    and "data_range p n" "words_of p n \<inter> rx_fields hh = {}" "d_h d \<notin> words_of p n \<union> rx_fields hh"
  shows "rx_result mem hh p n s (handle_msgs E ms s) \<and>
    (if is_last \<and> n \<noteq> 0 then has_flag (m_rw (handle_msgs E ms s) (h_flags hh)) FLAG_ACTIVE \<and>
       \<not> has_flag (m_rw (handle_msgs E ms s) (h_flags hh)) FLAG_EXT_PENDING
     else rx_ready (handle_msgs E ms s) hh v (prev + n))"
  by (rule handle_stream [OF assms])

theorem receiver_applies_stream_witness:
  "m_rw (handle_msgs list_env [demo_msg] demo) (demo_h + 4096) = 9 \<and>
   has_flag (m_rw (handle_msgs list_env [demo_msg] demo) (h_flags demo_h)) FLAG_ACTIVE"
  using receiver_applies_stream [OF demo_stream demo_rx, of list_env] demo_word by (simp add: rx_result_def)



text \<open>
  C17. A gap in the stream: when a message of the current version does not continue where the last one
  ended, the area stops being pending and every later message of that version is ignored, so that the
  area cannot become active with bytes missing until a new version starts (unless the message with
  the gap is itself the last).
\<close>

theorem gap_stops_version:
  fixes s :: "('p, 'r, 'n) tasvir" and E :: "('p, 'r, 'n) env"
  assumes "rd s (d_h (m_d m)) = hh" "hh \<noteq> 0" "\<not> has_flag (m_rw s (h_flags hh)) FLAG_EXT_ENQUEUE"
    and "m_rw s (h_last_sync_ext_v hh) = m_version m" "\<not> has_flag (m_rw s (h_flags hh)) FLAG_EXT_IGNORE"
    and "has_flag (m_rw s (h_flags hh)) FLAG_EXT_PENDING" "m_rw s (h_last_sync_ext_bytes hh) \<noteq> m_prev_bytes m"
    and "m_line m = stream_line src (unat (m_len m))" "64 dvd unat (m_len m)" "m_len m \<noteq> 0"
    and "words_of (m_addr m) (m_len m) \<inter> rx_fields hh = {}" "\<not> m_last m"
    and "rd (tasvir_handle_msg_mem E m s) (d_h (m_d m)) = hh" "\<forall>m'\<in>set ms. m_d m' = m_d m \<and> m_version m' = m_version m"
  shows "m_rw (handle_msgs E (m # ms) s) = m_rw (tasvir_handle_msg_mem E m s) \<and>
    m_ro (handle_msgs E (m # ms) s) = m_ro (tasvir_handle_msg_mem E m s) \<and>
    \<not> has_flag (m_rw (handle_msgs E (m # ms) s) (h_flags hh)) FLAG_EXT_PENDING \<and>
    has_flag (m_rw (handle_msgs E (m # ms) s) (h_flags hh)) FLAG_ACTIVE = has_flag (m_rw s (h_flags hh)) FLAG_ACTIVE"
proof -
  note g = gap_ignores [OF assms(1-12), of E]
  from handle_all_ignored [OF assms(13,2) g(1) assms(14), of E] g(2,3)
  show ?thesis by (simp add: handle_msgs_def)
qed

theorem gap_stops_version_witness:
  "\<not> has_flag (m_rw (handle_msgs list_env [demo_late, demo_late] demo_pending) (h_flags demo_h)) FLAG_EXT_PENDING"
proof -
  have "\<forall>m'\<in>set [demo_late]. m_d m' = m_d demo_late \<and> m_version m' = m_version demo_late" by simp
  from gap_stops_version [OF demo_gap demo_late_again this] show ?thesis by blast
qed

section \<open>Remote calls\<close>

text \<open>
  C18. The arguments of a remote call arrive. A function with at most \<open>TASVIR_NR_RPC_ARGS\<close> arguments is registered under the next
  identifier; with the offsets that registration computed, marshalling arguments of supported sizes into a buffer that has room for
  the result and the arguments succeeds, whatever the buffer held before; the bytes of every argument, all \<open>n\<close> of them, are then at its
  offset, and the room of the result and what is behind the last argument are as they were.
\<close>

theorem rpc_arguments_arrive:
  fixes s :: "('p, 'r, 'n) tasvir"
  assumes "nr_fns s < TASVIR_NR_FN" "length (fn_descs s) = nr_fns s" "argc fnd \<le> TASVIR_NR_RPC_ARGS"
    and "argc fnd = length (arg_lens fnd)" "list_all2 arg_ok (arg_lens fnd) args"
    and "last_word = TASVIR_ALIGN_ARG (ret_len fnd) div 8 + (\<Sum>n\<leftarrow>arg_lens fnd. TASVIR_ALIGN_ARG n div 8)" "last_word \<le> length buf"
  shows "\<exists>s' f data. tasvir_rpc_fn_register fnd s = Some (0, s') \<and> fn_descs s' ! nr_fns s = f \<and> fid f = nr_fns s \<and>
    fnptr f = fnptr fnd \<and> marshal (take (argc f) (arg_lens f)) (arg_offsets f) args buf = Some data \<and>
    (\<forall>i < argc f. arg_bytes (arg_offsets f ! i) (arg_lens f ! i) data = arg_bytes 0 (arg_lens f ! i) (args ! i)) \<and>
    take (TASVIR_ALIGN_ARG (ret_len f) div 8) data = take (TASVIR_ALIGN_ARG (ret_len f) div 8) buf \<and>
    drop last_word data = drop last_word buf"
proof -
  let ?p = "TASVIR_ALIGN_ARG (ret_len fnd)"
  obtain s' where s': "tasvir_rpc_fn_register fnd s = Some (0, s')"
    "fn_descs s' ! nr_fns s = fnd\<lparr>fid := nr_fns s, arg_offsets := arg_offsets_from ?p (take (argc fnd) (arg_lens fnd))\<rparr>"
    using register_desc [OF assms(1-3)] assms(4) by auto
  obtain data where "marshal (arg_lens fnd) (arg_offsets_from ?p (arg_lens fnd)) args buf = Some data"
    "take (?p div 8) data = take (?p div 8) buf" "drop last_word data = drop last_word buf"
    "\<forall>i < length (arg_lens fnd). arg_bytes (arg_offsets_from ?p (arg_lens fnd) ! i) (arg_lens fnd ! i) data = arg_bytes 0 (arg_lens fnd ! i) (args ! i)"
    using marshal_keeps [OF assms(5) align_arg_words, of "ret_len fnd" buf] assms(6,7) by auto
  then show ?thesis using s' assms(4) by (intro exI [of _ s'] exI [of _ "fn_descs s' ! nr_fns s"] exI [of _ data]) simp
qed

theorem rpc_arguments_arrive_witness:
  "\<exists>s' f data. tasvir_rpc_fn_register (fn_desc ''set'' (Fn_app 1) 4 [8, 12, 2]) demo = Some (0, s') \<and> fn_descs s' ! 0 = f \<and>
     marshal (take (argc f) (arg_lens f)) (arg_offsets f) [[7], [8, 9], [1]] (pool_buf list_env 5) = Some data \<and>
     arg_bytes (arg_offsets f ! 1) 12 data = arg_bytes 0 12 [8, 9]"
proof -
  let ?fnd = "fn_desc ''set'' (Fn_app 1) 4 [8, 12, 2]"
  have d: "nr_fns demo = 0" "fn_descs demo = []" by (simp_all add: demo_def)
  then have h: "nr_fns demo < TASVIR_NR_FN" "length (fn_descs demo) = nr_fns demo" "argc ?fnd \<le> TASVIR_NR_RPC_ARGS"
    "argc ?fnd = length (arg_lens ?fnd)" "list_all2 arg_ok (arg_lens ?fnd) [[7], [8, 9], [1]]"
    "5 = TASVIR_ALIGN_ARG (ret_len ?fnd) div 8 + (\<Sum>n\<leftarrow>arg_lens ?fnd. TASVIR_ALIGN_ARG n div 8)"
    by (simp_all add: fn_desc_def arg_ok_def TASVIR_ALIGN_ARG_def TASVIR_NR_FN_def TASVIR_NR_RPC_ARGS_def)
  have b: "5 \<le> length (pool_buf list_env 5)" by (simp add: list_env_def)
  obtain s' f data where f: "tasvir_rpc_fn_register ?fnd demo = Some (0, s')" "fn_descs s' ! 0 = f"
    and m: "marshal (take (argc f) (arg_lens f)) (arg_offsets f) [[7], [8, 9], [1]] (pool_buf list_env 5) = Some data"
      "\<forall>i < argc f. arg_bytes (arg_offsets f ! i) (arg_lens f ! i) data = arg_bytes 0 (arg_lens f ! i) ([[7], [8, 9], [1]] ! i)"
    using rpc_arguments_arrive [OF h b] unfolding d(1) by blast
  have "argc f = 3" "arg_lens f = [8, 12, 2]"
    using f d by (auto simp: tasvir_rpc_fn_register_def fn_desc_def TASVIR_NR_FN_def split: if_splits)
  then have "arg_bytes (arg_offsets f ! 1) 12 data = arg_bytes 0 12 [8, 9]" using m(2) [rule_format, of 1] by simp
  then show ?thesis using f m(1) by blast
qed

section \<open>Hashing\<close>

text \<open>
  C19. \<open>siphash\<close>, with its block loop and its fall-through switch for the last bytes, computes SipHash with
  one compression round and two finalisation rounds of the padded message. The reference \<open>sip_spec\<close> shares no definition with the
  code: its rotations are those of the library, its words sums of bytes, its constants the letters of the specification,
  and with two and four rounds it gives the value the authors of SipHash published.
\<close>

theorem siphash_reference: "siphash inp k = sip_spec 1 2 inp k"
  by (rule siphash_is_sip_1_2)

section \<open>The block allocator\<close>

text \<open>
  C20. A pool hands out a new block as long as it has one left and NULL when it is exhausted; a new
  block is none of those in use, the pool stays well formed, and no byte of a block in use changes.
\<close>

theorem allocator_alloc:
  assumes "slab a sz n (kv_mem s) L"
  shows "card L \<le> n div sz \<and>
    (if card L < n div sz
     then \<exists>e t. alloc_allocator a s = Some (e, t) \<and> e \<noteq> NULL \<and> e \<notin> L \<and> slab a sz n (kv_mem t) (insert e L) \<and>
       (\<forall>k\<in>L. \<forall>x\<in>span k sz. kv_mem t x = kv_mem s x)
     else alloc_allocator a s = Some (NULL, s))"
proof (cases "card L < n div sz")
  case True
  obtain e t where t: "alloc_allocator a s = Some (e, t)" "e \<notin> L" "slab a sz n (kv_mem t) (insert e L)"
    using slab_alloc [OF assms True] by blast
  have "e \<noteq> NULL" using slab.pool_block [OF t(3), of e] by simp
  moreover have "\<forall>k\<in>L. \<forall>x\<in>span k sz. kv_mem t x = kv_mem s x" using slab.live_alloc [OF assms t(1)] by blast
  ultimately show ?thesis using True t by auto
next
  case False
  then have "card L = n div sz" using slab.pool_card [OF assms] by simp
  then show ?thesis using slab_full [OF assms] by simp
qed

theorem allocator_alloc_witness:
  "\<exists>t e u. init_allocator 0x2000 120 24 shop0 = Some (0x2000, t) \<and> alloc_allocator 0x2000 t = Some (e, u) \<and> e \<noteq> NULL"
proof -
  obtain t where t: "init_allocator 0x2000 120 24 shop0 = Some (0x2000, t)" "slab 0x2000 24 96 (kv_mem t) {}"
    using arena_slab [where p = "0x2000" and len = 120 and ol = 24 and s = shop0] by (auto simp: arena_ok_def)
  show ?thesis using allocator_alloc [OF t(2)] t(1) by auto
qed

section \<open>The dictionary and the store\<close>

text \<open>
  C21. Lookup: in a store that holds the map \<open>M\<close>, \<open>dictFind\<close> returns an entry exactly for the keys of \<open>M\<close>,
  the value word of that entry is the value of the map, \<open>dictFetchValue\<close> returns it, and neither changes
  anything.
\<close>

theorem dict_find_is_lookup:
  assumes "store_ok G Le Lk Lv M s" "is_str (kv_mem s) key k"
  shows "(\<exists>e. dictFind AllocDictType (sg_d G) key s = Some (e, s) \<and>
      (case M k of None \<Rightarrow> e = NULL | Some v \<Rightarrow> e \<noteq> NULL \<and> ld (de_val e) s = v)) \<and>
    dictFetchValue AllocDictType (sg_d G) key s = Some (case M k of None \<Rightarrow> NULL | Some v \<Rightarrow> v, s)"
  using store_find [OF assms] store_fetch [OF assms] by blast

theorem dict_find_is_lookup_witness:
  "\<exists>s e. dictFind AllocDictType (sg_d shop_geo) shop_key s = Some (e, s) \<and> e \<noteq> NULL"
proof -
  obtain Le Lk Lv u s where s: "store_ok shop_geo Le Lk Lv (Map.empty([107] \<mapsto> u)) s" "is_str (kv_mem s) shop_key [107]"
    by (rule shop_one)
  show ?thesis using dict_find_is_lookup [OF s] by auto
qed

text \<open>
  C22. Insertion: \<open>dictAdd\<close> of a new key, with a key block and a value block of the store, a free slot in
  the table and a free entry, adds exactly that binding; \<open>dictReplace\<close> does the same and returns 1. For a
  key that is there, \<open>dictAdd\<close> returns an error and changes nothing.
\<close>

theorem dict_add_refines_map:
  assumes "store_ok G Le Lk Lv M s" "is_str (kv_mem s) key k" "\<not> store_full G M s"
  shows "(M k \<noteq> None \<longrightarrow> dictAdd AllocDictType (sg_d G) key v s = Some (DICT_ERR, s)) \<and>
    (M k = None \<longrightarrow> key \<in> Lk \<longrightarrow> length k + 1 \<le> sg_ksz G \<longrightarrow> card Le < sg_en G div 24 \<longrightarrow> v \<in> Lv \<longrightarrow> v \<notin> ran M \<longrightarrow>
      (\<exists>e t. e \<notin> Le \<and> dictAdd AllocDictType (sg_d G) key v s = Some (DICT_OK, t) \<and>
         dictReplace AllocDictType (sg_d G) key v s = Some (1, t) \<and> store_ok G (insert e Le) Lk Lv (M(k \<mapsto> v)) t \<and>
         same_blocks Lv (sg_vsz G) (kv_mem s) (kv_mem t)))"
  using store_add_existing [OF assms(1,2) _ assms(3)] store_add_new [OF assms(1,2) _ _ _ assms(3)] by blast

theorem dict_add_refines_map_witness:
  "\<exists>s. dictAdd AllocDictType (sg_d shop_geo) shop_key 0 s = Some (DICT_ERR, s)"
proof -
  obtain Le Lk Lv u s where s: "store_ok shop_geo Le Lk Lv (Map.empty([107] \<mapsto> u)) s" "is_str (kv_mem s) shop_key [107]" "card Le = 1"
    by (rule shop_one)
  have "\<not> store_full shop_geo (Map.empty([107] \<mapsto> u)) s" by (simp add: store_full_def dict_full_def shop_geo_def init_geo_def)
  then show ?thesis using dict_add_refines_map [OF s(1,2)] by auto
qed

text \<open>
  C23. Deletion: \<open>dictDelete\<close> removes the binding of a key that is there and gives its entry, its key and its
  value back to their pools; for a key that is not there it returns an error and changes nothing.
\<close>

theorem dict_delete_refines_map:
  assumes "store_ok G Le Lk Lv M s" "is_str (kv_mem s) key k"
  shows "(M k = None \<longrightarrow> dictDelete AllocDictType (sg_d G) key s = Some (DICT_ERR, s)) \<and>
    (\<forall>u. M k = Some u \<longrightarrow> (\<exists>e p t. dictDelete AllocDictType (sg_d G) key s = Some (DICT_OK, t) \<and> e \<in> Le \<and> p \<in> Lk \<and>
       store_ok G (Le - {e}) (Lk - {p}) (Lv - {u}) (M(k := None)) t \<and> same_blocks (Lv - {u}) (sg_vsz G) (kv_mem s) (kv_mem t)))"
  using store_delete_missing [OF assms] store_delete [OF assms] by blast

theorem dict_delete_refines_map_witness:
  "\<exists>s t. dictDelete AllocDictType (sg_d shop_geo) shop_key s = Some (DICT_OK, t) \<and> store_ok shop_geo {} {} {} Map.empty t"
proof -
  obtain Le Lk Lv u s where s: "store_ok shop_geo Le Lk Lv (Map.empty([107] \<mapsto> u)) s" "is_str (kv_mem s) shop_key [107]"
    "card Le = 1" "card Lk = 1" "card Lv = 1"
    by (rule shop_one)
  obtain e p t where t: "dictDelete AllocDictType (sg_d shop_geo) shop_key s = Some (DICT_OK, t)" "e \<in> Le" "p \<in> Lk"
    "store_ok shop_geo (Le - {e}) (Lk - {p}) (Lv - {u}) Map.empty t"
    using dict_delete_refines_map [OF s(1,2)] by auto
  have "u \<in> Lv" using store_vals(1) [OF s(1), of "[107]"] by simp
  then have "Le - {e} = {}" "Lk - {p} = {}" "Lv - {u} = {}" using s(3-5) t(2,3) by (auto simp: card_1_singleton_iff)
  then have "store_ok shop_geo {} {} {} Map.empty t" using t(4) by (simp only:)
  then show ?thesis using t(1) by blast
qed

text \<open>
  C24. The table cannot grow: once it holds as many entries as it has slots, \<open>dictAdd\<close> returns an error for
  every key, and \<open>dictReplace\<close>, also of a key that is there, does not return: it dereferences the null
  pointer that stands for the existing entry.
\<close>

theorem full_table_refuses:
  assumes "store_ok G Le Lk Lv M s" "is_str (kv_mem s) key k" "store_full G M s"
  shows "dictAdd AllocDictType (sg_d G) key v s = Some (DICT_ERR, s) \<and> dictReplace AllocDictType (sg_d G) key v s = None"
  by (rule store_full_add [OF assms])

theorem full_table_refuses_witness:
  "\<exists>s. dictAdd AllocDictType (sg_d shop_geo) shop_key 0 s = Some (DICT_ERR, s) \<and> dictReplace AllocDictType (sg_d shop_geo) shop_key 0 s = None"
proof -
  obtain Le Lk Lv M s where s: "store_ok shop_geo Le Lk Lv M s" "card (dom M) = 4" "kv_can_resize s" "is_str (kv_mem s) shop_key [5]"
    by (rule shop_filled)
  have "store_full shop_geo M s" using s(2,3) by (simp add: store_full_def dict_full_def shop_geo_def init_geo_def)
  then show ?thesis using full_table_refuses [OF s(1,4)] by blast
qed

text \<open>
  C25. \<open>update\<close> of the key-value store, with a key and a value that fit their blocks and room in the pools
  and the table, binds the key to a block that holds the value, leaves the values of the other keys as
  they were and returns 0. It takes one key block also when the key was there already: that block is
  never given back.
\<close>

theorem update_refines_map:
  assumes "store_ok G Le Lk Lv M s" "is_str (kv_mem s) key k" "length k + 1 \<le> sg_ksz G"
    "is_str (kv_mem s) val vs" "length vs \<le> sg_vsz G"
    "span key (length k + 1) \<inter> span (sg_ka G) (24 + sg_kn G) = {}"
    "span val (length vs + 1) \<inter> (span (sg_ka G) (24 + sg_kn G) \<union> span (sg_va G) (24 + sg_vn G)) = {}"
    "card Lk < sg_kn G div sg_ksz G" "card Lv < sg_vn G div sg_vsz G" "\<not> store_full G M s"
    "M k = None \<Longrightarrow> card Le < sg_en G div 24"
  shows "\<exists>t v Le' Lk' Lv'. update (sg_w G) key val s = Some (0, t) \<and> same_env s t \<and> store_ok G Le' Lk' Lv' (M(k \<mapsto> v)) t \<and>
    card Le' = card Le + of_bool (M k = None) \<and> card Lk' = card Lk + 1 \<and> card Lv' = card Lv + of_bool (M k = None) \<and>
    bytes_at (kv_mem t) v (length vs) = vs \<and>
    (\<forall>k' v'. k' \<noteq> k \<longrightarrow> M k' = Some v' \<longrightarrow> same_blocks {v'} (sg_vsz G) (kv_mem s) (kv_mem t))"
  by (rule update_ok [OF assms])

theorem update_refines_map_witness:
  "\<exists>Le Lk Lv u s t v Le' Lk' Lv'. store_ok shop_geo Le Lk Lv (Map.empty([107] \<mapsto> u)) s \<and> update (sg_w shop_geo) shop_key shop_val s = Some (0, t) \<and>
     store_ok shop_geo Le' Lk' Lv' (Map.empty([107] \<mapsto> v)) t \<and> card Le' = card Le \<and> card Lk' = card Lk + 1 \<and> card Lv' = card Lv"
proof -
  obtain Le Lk Lv u s where s: "store_ok shop_geo Le Lk Lv (Map.empty([107] \<mapsto> u)) s" "card Lk = 1" "card Lv = 1"
    "is_str (kv_mem s) shop_key [107]" "is_str (kv_mem s) shop_val [118]"
    by (rule shop_one)
  have "\<not> store_full shop_geo (Map.empty([107] \<mapsto> u)) s" by (simp add: store_full_def dict_full_def shop_fields)
  then obtain t v Le' Lk' Lv' where "update (sg_w shop_geo) shop_key shop_val s = Some (0, t)"
     "store_ok shop_geo Le' Lk' Lv' ((Map.empty([107] \<mapsto> u))([107] \<mapsto> v)) t" "card Le' = card Le" "card Lk' = card Lk + 1" "card Lv' = card Lv"
    using update_refines_map [OF s(1,4) _ s(5)] s(2,3) shop_sources by (auto simp: shop_fields)
  then show ?thesis using s(1) by (simp only: fun_upd_upd) blast
qed

text \<open>
  C26. What \<open>update\<close> stored, \<open>get\<close> finds: after a successful \<open>update\<close>, with the memory of the store
  unchanged since, \<open>get\<close> with any copy of the key, with or without a newline at its end, returns an entry
  whose value block holds the value.
\<close>

theorem update_then_get:
  assumes "store_ok G Le Lk Lv M s" "is_str (kv_mem s) key k" "length k + 1 \<le> sg_ksz G"
    "is_str (kv_mem s) val vs" "length vs \<le> sg_vsz G"
    "span key (length k + 1) \<inter> span (sg_ka G) (24 + sg_kn G) = {}"
    "span val (length vs + 1) \<inter> (span (sg_ka G) (24 + sg_kn G) \<union> span (sg_va G) (24 + sg_vn G)) = {}"
    "card Lk < sg_kn G div sg_ksz G" "card Lv < sg_vn G div sg_vsz G" "\<not> store_full G M s"
    "M k = None \<Longrightarrow> card Le < sg_en G div 24"
  shows "\<exists>t. update (sg_w G) key val s = Some (0, t) \<and>
    (\<forall>m key' k'. (\<forall>x\<in>store_mem G. m x = kv_mem t x) \<longrightarrow> is_str m key' k' \<longrightarrow> k' \<noteq> [] \<longrightarrow> chomp k' = k \<longrightarrow>
       span key' (length k' + 1) \<inter> store_mem G = {} \<longrightarrow>
       (\<exists>e u. get (sg_w G) key' (t\<lparr>kv_mem := m\<rparr>) = Some (e, u) \<and> e \<noteq> NULL \<and>
          bytes_at (kv_mem u) (ld (de_val e) u) (length vs) = vs))"
proof -
  obtain t v Le' Lk' Lv' where t: "update (sg_w G) key val s = Some (0, t)" "store_ok G Le' Lk' Lv' (M(k \<mapsto> v)) t"
    "bytes_at (kv_mem t) v (length vs) = vs"
    using update_ok [OF assms] by blast
  have "\<exists>e u. get (sg_w G) key' (t\<lparr>kv_mem := m\<rparr>) = Some (e, u) \<and> e \<noteq> NULL \<and> bytes_at (kv_mem u) (ld (de_val e) u) (length vs) = vs"
    if m: "\<forall>x\<in>store_mem G. m x = kv_mem t x" "is_str m key' k'" "k' \<noteq> []" "chomp k' = k" "span key' (length k' + 1) \<inter> store_mem G = {}"
    for m key' k'
    using get_then_read [OF t(2) m(1,2,3,5), of v "length vs"] m(4) assms(5) t(3) by simp
  then show ?thesis using t(1) by blast
qed

theorem update_then_get_witness:
  "\<exists>s t e u. update (sg_w shop_geo) shop_key shop_val s = Some (0, t) \<and> 
     get (sg_w shop_geo) shop_key (t\<lparr>kv_mem := put_bytes (kv_mem t) shop_key ([107, 10] @ [0])\<rparr>) = Some (e, u) \<and>
     bytes_at (kv_mem u) (ld (de_val e) u) 1 = [118]"
proof -
  obtain s where s: "store_ok shop_geo {} {} {} Map.empty s" "is_str (kv_mem s) shop_key [107]" "is_str (kv_mem s) shop_val [118]"
    using shop_init by blast
  have "\<not> store_full shop_geo Map.empty s" by (simp add: store_full_def dict_full_def shop_fields)
  then obtain t where t: "update (sg_w shop_geo) shop_key shop_val s = Some (0, t)" 
    "\<forall>m key' k'. (\<forall>x\<in>store_mem shop_geo. m x = kv_mem t x) \<longrightarrow> is_str m key' k' \<longrightarrow> k' \<noteq> [] \<longrightarrow> chomp k' = [107] \<longrightarrow>
       span key' (length k' + 1) \<inter> store_mem shop_geo = {} \<longrightarrow>
       (\<exists>e u. get (sg_w shop_geo) key' (t\<lparr>kv_mem := m\<rparr>) = Some (e, u) \<and> e \<noteq> NULL \<and> bytes_at (kv_mem u) (ld (de_val e) u) 1 = [118])"
    using update_then_get [OF s(1,2) _ s(3)] shop_sources by (auto simp: shop_fields)
  define m where "m = put_bytes (kv_mem t) shop_key ([107, 10] @ [0])"
  have "is_str m shop_key [107, 10]" unfolding m_def by (rule is_str_put) (simp_all add: shop_key_def)
  moreover have "\<forall>x\<in>store_mem shop_geo. m x = kv_mem t x" 
  proof
    fix x
    assume "x \<in> store_mem shop_geo"
    then have "x \<notin> span shop_key (length ([107, 10] @ [0 :: u8]))" using shop_mem(1) [of "length ([107, 10] @ [0 :: u8])"] by auto
    then show "m x = kv_mem t x" unfolding m_def by (intro put_bytes_outside) simp_all
  qed
  ultimately show ?thesis using t(1) t(2) [rule_format, of m shop_key "[107, 10]"] shop_mem(1) [of "length [107 :: u8, 10] + 1"] by (auto simp: chomp_def m_def)
qed

text \<open>
  C27. \<open>initDictWrapper\<close> on an area whose table part is zero, with three arenas that can hold a block each,
  sets up an empty store: the table has the largest power of two of slots that fits, the three pools have
  no block in use, and nothing outside the area and the arenas is written.
\<close>

theorem init_gives_empty_store:
  assumes "space \<noteq> NULL" "160 \<le> unat len" "unat space + unat len < 2 ^ 63" "unat len < 2 ^ 35"
    "arena_ok es elen 24" "arena_ok ks klen (max (unat kl) 16)" "arena_ok vs vlen (max (unat vl) 16)"
    "apart [span space (unat len), span es (unat elen), span ks (unat klen), span vs (unat vlen)]"
    "\<forall>x \<in> span (space + 128) (unat len - 128). kv_mem s x = 0"
  shows "\<exists>j t. initDictWrapper ty space len es elen ks kl klen vs vl vlen s = Some (space, t) \<and> same_env s t \<and>
    2 ^ j \<le> (unat len - 128) div 8 \<and> (unat len - 128) div 8 < 2 * 2 ^ j \<and>
    store_ok (init_geo space (2 ^ j) es elen ks kl klen vs vl vlen) {} {} {} Map.empty t \<and>
    (\<forall>x. x \<notin> span space (unat len) \<union> span es (unat elen) \<union> span ks (unat klen) \<union> span vs (unat vlen) \<longrightarrow> kv_mem t x = kv_mem s x)"
  by (rule initDictWrapper_store [OF assms])

theorem init_gives_empty_store_witness:
  "\<exists>j t. initDictWrapper 0 0x1000 160 0x2000 120 0x3000 16 88 0x4000 16 88 shop0 = Some (0x1000, t) \<and>
     store_ok (init_geo 0x1000 (2 ^ j) 0x2000 120 0x3000 16 88 0x4000 16 88) {} {} {} Map.empty t"
  using init_gives_empty_store [OF _ _ _ _ shop_arenas shop_apart shop_zero, of 0] by auto

text \<open>
  C28. A complete scan ends and is complete: calling \<open>dictScan\<close> from cursor 0 until it returns 0, on a
  store that is not empty and with a callback that writes no memory, calls back for every entry of the
  dictionary exactly once, so that the callbacks see precisely the bindings of the map.
\<close>

theorem scan_visits_every_entry_once:
  assumes "store_ok G Le Lk Lv M s" "quiet fn pv f" "M \<noteq> Map.empty"
  shows "\<exists>es. scan_all (sg_d G) fn pv 0 s = Some (fold f es s) \<and> distinct es \<and> length es = card (dom M) \<and>
    (\<forall>k u. M k = Some u \<longleftrightarrow> (\<exists>e\<in>set es. is_str (kv_mem s) (ld (de_key e) s) k \<and> ld (de_val e) s = u))"
  by (rule store_scan [OF assms])

theorem scan_visits_every_entry_once_witness:
  "\<exists>(M :: u8 list \<rightharpoonup> u64) s es. card (dom M) = 4 \<and> length es = 4 \<and> dom M \<subseteq> {k. \<exists>e\<in>set es. is_str (kv_mem s) (ld (de_key e) s) k} \<and>
     scan_all (sg_d shop_geo) (\<lambda>_ e s. Some (s\<lparr>kv_seed := [] \<rparr>)) 0 0 s = Some (fold (\<lambda>e s. s\<lparr>kv_seed := []\<rparr>) es s)"
proof -
  obtain Le Lk Lv M s where s: "store_ok shop_geo Le Lk Lv M s" "card (dom M) = 4" by (rule shop_filled)
  have q: "quiet (\<lambda>_ e s. Some (s\<lparr>kv_seed := []\<rparr>)) 0 (\<lambda>e s. s\<lparr>kv_seed := []\<rparr>)" by (simp add: quiet_def)
  have "M \<noteq> Map.empty" using s(2) by auto
  from scan_visits_every_entry_once [OF s(1) q this] obtain es where es:
    "scan_all (sg_d shop_geo) (\<lambda>_ e s. Some (s\<lparr>kv_seed := []\<rparr>)) 0 0 s = Some (fold (\<lambda>e s. s\<lparr>kv_seed := []\<rparr>) es s)"
    "length es = card (dom M)" "\<forall>k u. M k = Some u \<longleftrightarrow> (\<exists>e\<in>set es. is_str (kv_mem s) (ld (de_key e) s) k \<and> ld (de_val e) s = u)"
    by blast
  have "dom M \<subseteq> {k. \<exists>e\<in>set es. is_str (kv_mem s) (ld (de_key e) s) k}" using es(3) by blast
  then show ?thesis using s(2) es(1,2) by (intro exI [of _ M] exI [of _ s] exI [of _ es]) simp
qed

section \<open>The cuckoo map\<close>

text \<open>
  C29. Insertion ends and acts as on a map: in a well-formed table \<open>Insert\<close> returns, unless no entry is free and some
  key has a second hash of zero. If it returns an entry, that entry is the new binding of the key and no other
  binding changes; a key that is there is always found and gets the new value. Otherwise the key is new and the map is as it
  was, and so is the whole table when an entry was free.
\<close>

theorem cuckoo_insert_refines_map:
  assumes "key_laws K" "cm_ok K pw E s M"
    and "M key = None \<Longrightarrow> es_head s = 0 \<Longrightarrow> \<forall>e<E. HashSecondary (Hash K (fst (cm_entries s ! e))) \<noteq> 0"
  shows "\<exists>r s'. Insert K key val s = Some (r, s') \<and>
    (case r of
       Some e \<Rightarrow> cm_ok K pw E s' (M(key \<mapsto> val)) \<and> unat e < E \<and> cm_entries s' ! unat e = (key, val)
     | None \<Rightarrow> M key = None \<and> cm_ok K pw E s' M \<and> (0 < es_head s \<longrightarrow> s' = s))"
  by (rule key_laws.Insert_returns [OF assms])

theorem cuckoo_insert_refines_map_witness:
  "\<exists>s r s'. main_create main_raw = Some s \<and> Insert size_t_ops 5 9 s = Some (r, s') \<and> (r \<noteq> None \<longrightarrow> cm_ok size_t_ops 7 512 s' (Map.empty(5 \<mapsto> 9)))"
proof -
  obtain s where s: "main_create main_raw = Some s" "cm_ok size_t_ops 7 512 s Map.empty" using main_create_ok [OF main_raw_lengths] by blast
  have "0 < es_head s" using demo_free [OF s(2)] by simp
  then obtain r s' where "Insert size_t_ops 5 9 s = Some (r, s')" "case r of Some e \<Rightarrow> cm_ok size_t_ops 7 512 s' (Map.empty(5 \<mapsto> 9)) | None \<Rightarrow> True"
    using cuckoo_insert_refines_map [OF cz.key_laws_axioms s(2), of 5 9] by (auto split: option.splits)
  then show ?thesis using s(1) by (auto split: option.splits)
qed

text \<open>
  C30. Removal: \<open>Remove\<close> says whether the key was there, and afterwards the table holds the map without it; the freed
  entry is on the stack again, also where the cell of the stack lies in the first entry. For a key that is not
  there nothing changes.
\<close>

theorem cuckoo_remove_refines_map:
  assumes "key_laws K" "cm_ok K pw E s M"
  shows "\<exists>s'. Remove K key s = (M key \<noteq> None, s') \<and> cm_ok K pw E s' (M(key := None)) \<and> (M key = None \<longrightarrow> s' = s)"
  by (rule key_laws.Remove_ok [OF assms])

theorem cuckoo_remove_refines_map_witness:
  "\<exists>s'. Remove size_t_ops bad_key small_one = (True, s') \<and> cm_ok size_t_ops 0 1 s' Map.empty"
  using cuckoo_remove_refines_map [OF cz.key_laws_axioms small_one_ok, of bad_key] by auto

text \<open>
  C31. \<open>Create\<close>, on a block whose arrays have the lengths asked for, fails exactly when the block is too small, there is
  no entry, there are fewer entries than buckets or the number of buckets is not a power of two; otherwise it gives a well-formed table
  that holds the empty map.
\<close>

theorem cuckoo_create_empty:
  assumes "key_laws K" "unat n < 2 ^ 31" "unat (entry_bytes K) < 2 ^ 30"
    and "length (cm_buckets raw) = unat b" "length (cm_entries raw) = unat n" "length (es_stck raw) = unat n"
  shows "(Create K area_size n b raw = None \<longleftrightarrow>
      area_size < CuckooMap_Size K n b \<or> n = 0 \<or> n < b \<or> (\<forall>k. unat b \<noteq> 2 ^ k)) \<and>
    (\<forall>s. Create K area_size n b raw = Some s \<longrightarrow> (\<exists>pw. unat b = 2 ^ pw \<and> cm_ok K pw (unat n) s Map.empty))"
  by (rule key_laws.Create_iff [OF assms])

theorem cuckoo_create_empty_witness:
  "Create size_t_ops (CuckooMap_Size size_t_ops 1 1) 1 1 small_raw \<noteq> None \<and> Create size_t_ops 87 1 1 small_raw = None"
proof -
  have "unat (entry_bytes size_t_ops) < 2 ^ 30" by (simp add: size_t_ops_def)
  note c = cuckoo_create_empty [OF cz.key_laws_axioms _ this, of 1 small_raw 1]
  have "(87 :: u64) < CuckooMap_Size size_t_ops 1 1" by (simp add: CuckooMap_Size_def BytesForEntries_def size_t_ops_def)
  then have "Create size_t_ops 87 1 1 small_raw = None" using c [of 87] by (simp add: small_raw_def)
  moreover have "\<exists>k. (1 :: nat) = 2 ^ k" by (rule exI [of _ 0]) simp
  then have "Create size_t_ops (CuckooMap_Size size_t_ops 1 1) 1 1 small_raw \<noteq> None"
    using c [of "CuckooMap_Size size_t_ops 1 1"] by (auto simp: small_raw_def)
  ultimately show ?thesis by blast
qed

text \<open>
  C32. Iterating from \<open>begin()\<close> to \<open>end()\<close> over a table that holds the map \<open>M\<close> ends and meets every binding of \<open>M\<close>
  exactly once; there are \<open>Count()\<close> of them.
\<close>

theorem cuckoo_iteration_lists_map:
  assumes "cm_ok K pw E s M"
  shows "\<exists>xs. bindings s = Some xs \<and> distinct (map fst xs) \<and> set xs = {(k, v). M k = Some v} \<and> length xs = unat (Count s)"
  by (rule bindings_ok [OF assms])

theorem cuckoo_iteration_lists_map_witness: "\<exists>xs. bindings small_one = Some xs \<and> set xs = {(bad_key, 7)}"
  using cuckoo_iteration_lists_map [OF small_one_ok] by (auto split: if_splits)

text \<open>
  C33. The program of apps/cuckoo-map counts: for any number of rounds it neither aborts nor hangs, no insertion fails, and a
  number that was drawn \<open>c\<close> times is bound to \<open>c - 1\<close> (modulo \<open>2 ^ 64\<close>); a number that was not drawn is not there.
\<close>

theorem cuckoo_program_counts:
  assumes "length (cm_buckets raw) = 128" "length (cm_entries raw) = 512" "length (es_stck raw) = 512"
  shows "\<exists>s0 seed s. main_create raw = Some s0 \<and> main_run n (42, s0) = Some (seed, s) \<and>
    (\<forall>k. map_option (\<lambda>e. cm_entries s ! unat e) (Find size_t_ops k s) =
       (if k \<in> set (draws n 42) then Some (k, of_nat (count_list (draws n 42) k) - 1) else None))"
  by (rule main_counts [OF assms])

theorem cuckoo_program_counts_witness:
  "\<exists>s0 seed s. main_create main_raw = Some s0 \<and> main_run 3 (42, s0) = Some (seed, s)"
  using cuckoo_program_counts [OF main_raw_lengths, of 3] by blast

text \<open>
  C34. The condition on the second hash is needed for an insertion to end. In a well-formed table with no free entry, let the first slot of
  the first bucket of a new key hold another key of that bucket whose second hash is zero, and let bucket 0 have an empty slot: then
  \<open>Insert\<close> of the new key never returns. \<open>MakeSpace\<close> moves the other key to bucket 0, and after that moves the slot it emptied onto itself for
  ever, each time reporting success to \<open>AddEntry\<close>, which tries again.
\<close>

theorem cuckoo_insert_can_loop:
  assumes "key_laws K" "cm_ok K pw E s M" "M key = None" "es_head s = 0"
    and "b = bucket_at (Hash K key AND bucket_mask s) s" "hash_values b ! 0 \<noteq> 0"
    and "old = fst (cm_entries s ! unat (entry_indices b ! 0))" "HashSecondary (Hash K old) = 0"
    and "Hash K old AND bucket_mask s = Hash K key AND bucket_mask s" "\<not> full (held s) 0"
  shows "Insert K key val s = None"
  using assms by (rule Insert_stuck)

theorem cuckoo_insert_can_loop_witness:
  "Option.bind (Create size_t_ops (CuckooMap_Size size_t_ops 1 1) 1 1 small_raw) (Insert size_t_ops bad_key 7) = Some (Some 0, small_one) \<and>
     Insert size_t_ops 5 9 small_one = None"
proof -
  have "(Map.empty(bad_key \<mapsto> 7)) 5 = None" by (simp add: bad_key_def)
  from cuckoo_insert_can_loop [OF cz.key_laws_axioms small_one_ok this small_one_slots(1) refl _ refl _ _ small_one_slots(5), of 9]
  show ?thesis using small_one_start bad_hash(1,2) by (simp add: small_one_slots)
qed

section \<open>The load balancer\<close>

text \<open>
  C35. Streaming: feeding a message to the hash piece by piece, in pieces of any lengths, gives the hash of the whole message, for
  both widths (the 32-bit one even when its length field wraps). It depends neither on the byte order of the processor nor on the alignment
  of the message.
\<close>

theorem xxhash_streaming:
  assumes "length (concat ps) < 2 ^ 64"
  shows "XXH64_digest cpu (fold (\<lambda>p bal. XXH64_update cpu bal p) ps (XXH64_reset seed)) = XXH64 cpu' align_check addr (concat ps) seed \<and>
    XXH32_digest cpu (fold (\<lambda>p bal. XXH32_update cpu bal p) ps (XXH32_reset seed')) = XXH32 cpu' align_check addr (concat ps) seed'"
  using stream64 [OF assms] stream32 by blast

theorem xxhash_streaming_witness:
  "XXH64_digest XXH_bigEndian (fold (\<lambda>p bal. XXH64_update XXH_bigEndian bal p) [replicate 31 7, [1, 2, 3]] (XXH64_reset 5)) =
     XXH64 XXH_littleEndian True 4 (replicate 31 7 @ [1, 2, 3]) 5"
  using xxhash_streaming [of "[replicate 31 7, [1, 2, 3]]" XXH_bigEndian 5 XXH_littleEndian True 4] by simp

text \<open>
  C36. The canonical form: its bytes are those of the hash with the highest first, on every processor, and a processor of either
  byte order reads back the hash that another one wrote.
\<close>

theorem xxhash_canonical_roundtrip:
  "XXH32_canonicalFromHash cpu h = rev (bytes_of_word 4 h) \<and> XXH64_canonicalFromHash cpu g = rev (bytes_of_word 8 g) \<and>
   XXH32_hashFromCanonical cpu' (XXH32_canonicalFromHash cpu h) = h \<and> XXH64_hashFromCanonical cpu' (XXH64_canonicalFromHash cpu g) = g"
  by (simp add: canonical_bytes read_canonical)

text \<open>
  C37. \<open>generate_lut\<close> ends exactly when every slot of the table is in the sequence of some backend; then every slot names a backend
  in whose sequence it is.
\<close>

theorem lut_ends_iff_covered:
  assumes "lbs \<le> 0x8000" "2 \<le> lut_len" "os = offsets junk pfx lbs lut_len"
  shows "((\<exists>t. generate_lut junk pfx lbs lut_len = Some t) \<longleftrightarrow>
      (\<forall>c<unat lut_len. \<exists>i<lbs. \<exists>j. unat (perm (fst (os ! i)) (snd (os ! i)) lut_len j) = c)) \<and>
    (\<forall>t. generate_lut junk pfx lbs lut_len = Some t \<longrightarrow> length t = unat lut_len \<and>
      (\<forall>c<unat lut_len. \<exists>i<lbs. t ! c = of_nat i \<and> (\<exists>j. unat (perm (fst (os ! i)) (snd (os ! i)) lut_len j) = c)))"
proof -
  have len: "length (offsets junk pfx lbs lut_len) = lbs" by (simp add: offsets_def)
  note iff = generate_lut_iff [OF assms(1,2), of junk pfx, unfolded lut_covered_def slot_seq_def len, folded assms(3)]
  show ?thesis using iff by (intro conjI allI impI) blast+
qed

theorem lut_ends_iff_covered_witness:
  "\<exists>t. generate_lut (\<lambda>_. replicate 64 0) [98] 1 2 = Some t \<and> length t = 2 \<and> t ! 0 = 0 \<and> t ! 1 = 0"
proof -
  define os where "os = offsets (\<lambda>_. replicate 64 0) [98] 1 2"
  have skip: "snd (os ! 0) = 1" by (simp add: os_def offsets_def compute_offset_and_skip_def Let_def)
  have l: "(1 :: nat) \<le> 0x8000" "2 \<le> (2 :: u64)" by simp_all
  note lut = lut_ends_iff_covered [OF l os_def]
  have "\<exists>j. unat (perm (fst (os ! 0)) (snd (os ! 0)) 2 j) = c" if "c < unat (2 :: u64)" for c
    using odd_skip_covers [of 2 1 1 c "fst (os ! 0)"] that by (simp add: skip slot_seq_def)
  then have "\<forall>c<unat (2 :: u64). \<exists>i<1. \<exists>j. unat (perm (fst (os ! i)) (snd (os ! i)) 2 j) = c" by auto
  then obtain t where t: "generate_lut (\<lambda>_. replicate 64 0) [98] 1 2 = Some t" using lut by blast
  then have "length t = 2 \<and> (\<forall>c<2. t ! c = 0)" using lut by fastforce
  then show ?thesis using t by auto
qed

text \<open>
  C38. The size of the table is a power of two, not a prime: when the offsets and the skips of all backends are even,
  \<open>generate_lut\<close> does not end, because nobody takes a slot with an odd number. The example is the call of \<open>main\<close> with one
  partition, with a certain byte in the part of the name that is not initialised.
\<close>

theorem lut_even_hangs:
  assumes "lbs \<le> 0x8000" "unat lut_len = 2 ^ m" "0 < m"
    and "\<forall>i<lbs. even (fst (offsets junk pfx lbs lut_len ! i)) \<and> even (snd (offsets junk pfx lbs lut_len ! i))"
  shows "generate_lut junk pfx lbs lut_len = None"
  using assms by (rule generate_lut_even)

theorem lut_even_hangs_witness: "generate_lut (\<lambda>_. replicate 63 0 @ [2]) [108, 98, 115] 1 LUT_SIZE = None"
proof -
  have "offsets (\<lambda>_. replicate 63 0 @ [2]) [108, 98, 115] 1 LUT_SIZE = [(526, 1312)]"
    unfolding offsets_def LUT_SIZE_def using even_name by simp
  then show ?thesis using lut_even_hangs [of 1 LUT_SIZE 11 "\<lambda>_. replicate 63 0 @ [2]" "[108, 98, 115]"] by (simp add: LUT_SIZE_def)
qed

text \<open>
  C39. Connections stick to their backends. For addresses in the range of the program the owner of a table answers every packet, with the
  backend its connection has, or for a new one with that of the lookup table; and once the connection is stored, after any further packets
  and removals of other connections it answers the same. This includes packets whose insertion fails for want of room: the comment in
  \<open>find_backend\<close> says that the table is then cleared, but the code only counts the failure, and the stored connections stay.
\<close>

theorem lb_connections_stick:
  assumes "conn_ok pw E M (lb_tables bal ! unat tbl)" "unat tbl < length (lb_tables bal)" "a < ADDR_RANGE"
    and "length (lut_backend bal) = unat LUT_SIZE"
  shows "\<exists>b st1. find_backend rpc (lb_id bal) tbl a bal = Some (b, st1) \<and>
    b = (case M a of Some c \<Rightarrow> c | None \<Rightarrow> lut_backend bal ! unat (a mod LUT_SIZE)) \<and>
    (Find size_t_ops a (lb_tables st1 ! unat tbl) \<noteq> None \<longrightarrow>
      (\<forall>rs. (\<forall>r\<in>set rs. address_of r < ADDR_RANGE) \<longrightarrow> Gone a \<notin> set rs \<longrightarrow>
        (\<exists>st2 st3. serve rpc tbl rs st1 = Some st2 \<and> find_backend rpc (lb_id st2) tbl a st2 = Some (b, st3))))"
  using assms by (rule find_backend_sticks)

theorem lb_connections_stick_witness:
  "\<exists>t st1 st2 st3. conn_ok 7 512 [7 \<mapsto> 5] t \<and> find_backend no_rpc 0 0 7 (lb_demo t) = Some (5, st1) \<and>
     serve no_rpc 0 [Packet 9, Packet 7, Gone 9] st1 = Some st2 \<and> find_backend no_rpc (lb_id st2) 0 7 st2 = Some (5, st3)"
proof -
  obtain t where t: "conn_ok 7 512 [7 \<mapsto> 5] t" using demo_table by blast
  have tab: "conn_ok 7 512 [7 \<mapsto> 5] (lb_tables (lb_demo t) ! unat 0)" "unat 0 < length (lb_tables (lb_demo t))" "(7 :: u64) < ADDR_RANGE"
    "length (lut_backend (lb_demo t)) = unat LUT_SIZE"
    using t by (simp_all add: lb_demo_def ADDR_RANGE_def LUT_SIZE_def)
  have cm: "cm_ok size_t_ops 7 512 t [7 \<mapsto> 5]" using t by (simp add: conn_ok_def)
  obtain e where e: "Find size_t_ops 7 t = Some e" "cm_entries t ! unat e = (7, 5)" using cz.Find_ok [OF cm, of 7] by auto
  obtain st1 where st1: "find_backend no_rpc 0 0 7 (lb_demo t) = Some (5, st1)" "lb_tables st1 = [t]"
    using e Find_checked_readable [OF cm_ok_readable [OF cm]] by (simp add: find_backend_def lb_demo_def array_at_def Let_def)
  have id: "lb_id (lb_demo t) = 0" by (simp add: lb_demo_def)
  have rs: "\<forall>r\<in>set [Packet 9, Packet 7, Gone 9]. address_of r < ADDR_RANGE" "Gone 7 \<notin> set [Packet 9, Packet 7, Gone 9]"
    by (simp_all add: ADDR_RANGE_def)
  have "Find size_t_ops 7 (lb_tables st1 ! unat 0) \<noteq> None" using e st1(2) by simp
  then obtain st2 st3 where "serve no_rpc 0 [Packet 9, Packet 7, Gone 9] st1 = Some st2" "find_backend no_rpc (lb_id st2) 0 7 st2 = Some (5, st3)"
    using lb_connections_stick [OF tab, of no_rpc] rs st1(1) unfolding id by fastforce
  then show ?thesis using t st1(1) by blast
qed

text \<open>
  C40. A round of the load balancer returns, whatever the clock says and whatever calls for this process and readable tables of others come
  in, and leaves the tables that this process owns well formed, the others readable, the lookup tables as they were and all flows in the
  range. It divides by the number of load balancers, which must not be zero, and reads no array out of range.
\<close>

theorem lb_round_returns:
  assumes "test_ok lbs pw E t" "sends rpc" "sends rem_rpc" "list_all (event_ok lbs (t_lb t)) evs"
    and "\<forall>i<REPLACEMENT_RATE. list_all (event_ok lbs (t_lb t)) (evs' i)" "list_all (event_ok lbs (t_lb t)) evs''"
  shows "\<exists>stop t'. test_round rpc rem_rpc lbs secs evs evs' evs'' t = Some (stop, t') \<and> test_ok lbs pw E t' \<and>
    lut_lb (t_lb t') = lut_lb (t_lb t) \<and> lut_backend (t_lb t') = lut_backend (t_lb t)"
  using test_round_ok [OF assms, of secs] unfolding fixed_def by blast

theorem lb_round_returns_witness:
  "\<exists>t stop t'. conn_ok 7 512 [7 \<mapsto> 5] t \<and>
     test_round no_rpc no_rpc 1 2 [Find_be 9] (\<lambda>_. [Rem 7]) [Find_be 7] (tester_demo t) = Some (stop, t') \<and> test_ok 1 7 512 t'"
proof -
  obtain t where t: "conn_ok 7 512 [7 \<mapsto> 5] t" using demo_table by blast
  have e: "list_all (event_ok 1 (t_lb (tester_demo t))) [Find_be 9]" "\<forall>i<REPLACEMENT_RATE. list_all (event_ok 1 (t_lb (tester_demo t))) [Rem 7]"
    "list_all (event_ok 1 (t_lb (tester_demo t))) [Find_be 7]"
    by (simp_all add: tester_demo_def lb_demo_def LUT_SIZE_def ADDR_RANGE_def)
  show ?thesis using lb_round_returns [OF demo_test_ok [OF t] no_rpc_sends no_rpc_sends e, of 2] t by blast
qed

end
